(* ===== verification/Prelude.thy ===== *)
theory Prelude
  imports Main "HOL-Library.Word" "HOL-Library.List_Lexorder"
begin

unbundle bit_operations_syntax

text \<open>
  What every theory of the development shares: the machine types, the result
  type of code that can fault or throw, bounds-checked array reads, the effect
  of \<open>memcpy\<close> on a byte array, and little-endian integers in memory.

  A C++ array access outside the array, a null dereference and a thrown
  exception are all values of the type \<open>'a res\<close>, so that each of them is a
  branch of the model.  \<open>std::string\<close> compares bytes as unsigned numbers in
  lexicographic order, a proper prefix being smaller: this is the order of
  \<open>HOL-Library.List_Lexorder\<close> on \<open>8 word list\<close>.
\<close>

type_synonym byte_t = "8 word"
type_synonym bytes = "8 word list"
type_synonym u16 = "16 word"
type_synonym u32 = "32 word"
type_synonym u64 = "64 word"

named_theorems res_simps \<open>evaluation of fallible computations\<close>
named_theorems mem_simps \<open>block copies and little-endian integers\<close>

subsection \<open>Fallible results\<close>

datatype fault =
    OutOfBounds
  | NullDeref
  | InvalidArgument
  | LengthError
  | RuntimeError

type_synonym 'a res = "fault + 'a"

definition res_bind :: "'a res \<Rightarrow> ('a \<Rightarrow> 'b res) \<Rightarrow> 'b res" where
  "res_bind m f = (case m of Inl e \<Rightarrow> Inl e | Inr x \<Rightarrow> f x)"

lemma res_bind_Inl [simp, res_simps]: "res_bind (Inl e) f = Inl e"
  and res_bind_Inr [simp, res_simps]: "res_bind (Inr x) f = f x"
  by (simp_all add: res_bind_def)

lemma res_bind_eq_Inr [res_simps]:
  "res_bind m f = Inr y \<longleftrightarrow> (\<exists>x. m = Inr x \<and> f x = Inr y)"
  by (cases m) auto

lemma res_bind_eq_Inl:
  "res_bind m f = Inl e \<longleftrightarrow> m = Inl e \<or> (\<exists>x. m = Inr x \<and> f x = Inl e)"
  by (cases m) auto

lemma res_bind_assoc: "res_bind (res_bind m f) g = res_bind m (\<lambda>x. res_bind (f x) g)"
  by (cases m) auto

lemma res_bind_cong [fundef_cong]:
  "m = m' \<Longrightarrow> (\<And>x. m' = Inr x \<Longrightarrow> f x = f' x) \<Longrightarrow> res_bind m f = res_bind m' f'"
  by (cases m') (auto simp: res_bind_def)

definition is_ok :: "'a res \<Rightarrow> bool" where
  "is_ok m = (case m of Inl _ \<Rightarrow> False | Inr _ \<Rightarrow> True)"

lemma is_ok_simps [simp, res_simps]: "is_ok (Inl e) = False" "is_ok (Inr x) = True"
  by (simp_all add: is_ok_def)

lemma is_ok_iff: "is_ok m \<longleftrightarrow> (\<exists>x. m = Inr x)"
  by (cases m) auto

subsection \<open>Computations that need not return, and state\<close>

text \<open>\<open>None\<close> stands for not returning.\<close>

type_synonym 'a run = "'a res option"

definition run_bind :: "'a run \<Rightarrow> ('a \<Rightarrow> 'b run) \<Rightarrow> 'b run" where
  "run_bind m f = (case m of None \<Rightarrow> None | Some (Inl e) \<Rightarrow> Some (Inl e) | Some (Inr x) \<Rightarrow> f x)"

lemma run_bind_simps [simp, res_simps]:
  "run_bind None f = None" "run_bind (Some (Inl e)) f = Some (Inl e)" "run_bind (Some (Inr x)) f = f x"
  by (simp_all add: run_bind_def)

lemma run_bind_mono [partial_function_mono]:
  assumes "mono_option B" "\<And>y. mono_option (\<lambda>f. C y f)"
  shows "mono_option (\<lambda>f. run_bind (B f) (\<lambda>y. C y f))"
proof -
  have e: "run_bind m g = Option.bind m (\<lambda>r. case r of Inl e \<Rightarrow> Some (Inl e) | Inr x \<Rightarrow> g x)" for m :: "'c res option" and g :: "'c \<Rightarrow> 'd run"
    by (cases m) (auto simp: run_bind_def split: sum.split)
  have "mono_option (\<lambda>f. case r of Inl e \<Rightarrow> Some (Inl e) | Inr x \<Rightarrow> C x f)" for r
    by (cases r) (simp_all add: assms(2) option.const_mono)
  then show ?thesis unfolding e by (intro bind_mono assms(1))
qed

type_synonym ('s, 'a) prog = "'s \<Rightarrow> ('a \<times> 's) run"

definition st_bind :: "('s, 'a) prog \<Rightarrow> ('a \<Rightarrow> ('s, 'b) prog) \<Rightarrow> ('s, 'b) prog" where
  "st_bind m f s = run_bind (m s) (\<lambda>(a, s'). f a s')"

definition st_ret :: "'a \<Rightarrow> ('s, 'a) prog" where
  "st_ret x s = Some (Inr (x, s))"

definition st_fail :: "fault \<Rightarrow> ('s, 'a) prog" where
  "st_fail e s = Some (Inl e)"

definition st_get :: "('s \<Rightarrow> 'a) \<Rightarrow> ('s, 'a) prog" where
  "st_get f s = Some (Inr (f s, s))"

definition st_mod :: "('s \<Rightarrow> 's) \<Rightarrow> ('s, unit) prog" where
  "st_mod f s = Some (Inr ((), f s))"

text \<open>A fallible value, and one that need not exist, as a computation.\<close>

definition st_lift :: "'a res \<Rightarrow> ('s, 'a) prog" where
  "st_lift r s = Some (res_bind r (\<lambda>x. Inr (x, s)))"

definition st_run :: "'a run \<Rightarrow> ('s, 'a) prog" where
  "st_run r s = run_bind r (\<lambda>x. Some (Inr (x, s)))"

lemma st_bind_mono [partial_function_mono]:
  assumes "mono_option (\<lambda>g. B g s)" "\<And>a t. mono_option (\<lambda>g. C a g t)"
  shows "mono_option (\<lambda>g. st_bind (B g) (\<lambda>a. C a g) s)"
  unfolding st_bind_def by (rule run_bind_mono [OF assms(1)]) (auto split: prod.split intro: assms(2))

named_theorems st_simps \<open>running stateful computations\<close>

lemma st_bind_Inr [st_simps]: "m s = Some (Inr (a, s')) \<Longrightarrow> st_bind m f s = f a s'"
  and st_bind_None [st_simps]: "m s = None \<Longrightarrow> st_bind m f s = None"
  and st_bind_Inl [st_simps]: "m s = Some (Inl e) \<Longrightarrow> st_bind m f s = Some (Inl e)"
  by (simp_all add: st_bind_def)

lemma st_prims [simp, st_simps]:
  "st_bind (st_ret x) f s = f x s" "st_bind (st_get g) f s = f (g s) s" "st_bind (st_mod h) f' s = f' () (h s)"
  "st_bind (st_fail e) f s = Some (Inl e)"
  "st_bind (st_lift (Inr x)) f s = f x s" "st_bind (st_lift (Inl e)) f s = Some (Inl e)"
  "st_bind (st_run (Some (Inr x))) f s = f x s" "st_bind (st_run None) f s = None"
  "st_bind (st_run (Some (Inl e))) f s = Some (Inl e)"
  by (simp_all add: st_bind_def st_ret_def st_get_def st_mod_def st_fail_def st_lift_def st_run_def)

lemma st_bind_assoc [simp]: "st_bind (st_bind m f) g = st_bind m (\<lambda>x. st_bind (f x) g)"
proof
  fix s
  show "st_bind (st_bind m f) g s = st_bind m (\<lambda>x. st_bind (f x) g) s"
  proof (cases "m s")
    case (Some r)
    then show ?thesis by (cases r) (auto simp: st_bind_def)
  qed (simp add: st_bind_def)
qed

subsection \<open>Arrays\<close>

text \<open>An array read, with the bound the C++ code does not check.\<close>

definition rd :: "'a list \<Rightarrow> nat \<Rightarrow> 'a res" where
  "rd xs i = (if i < length xs then Inr (xs ! i) else Inl OutOfBounds)"

definition wr :: "'a list \<Rightarrow> nat \<Rightarrow> 'a \<Rightarrow> 'a list res" where
  "wr xs i x = (if i < length xs then Inr (xs[i := x]) else Inl OutOfBounds)"

lemma rd_ok [simp, res_simps]: "i < length xs \<Longrightarrow> rd xs i = Inr (xs ! i)"
  by (simp add: rd_def)

lemma rd_out: "length xs \<le> i \<Longrightarrow> rd xs i = Inl OutOfBounds"
  by (simp add: rd_def)

lemma rd_eq_Inr: "rd xs i = Inr x \<longleftrightarrow> i < length xs \<and> x = xs ! i"
  by (auto simp: rd_def)

lemma wr_ok [simp, res_simps]: "i < length xs \<Longrightarrow> wr xs i x = Inr (xs[i := x])"
  by (simp add: wr_def)

lemma wr_eq_Inr: "wr xs i x = Inr ys \<longleftrightarrow> i < length xs \<and> ys = xs[i := x]"
  by (auto simp: wr_def)

text \<open>\<open>memcpy(dst, src, n)\<close> from the start of a source into an array.\<close>

definition memcpy :: "'a list \<Rightarrow> 'a list \<Rightarrow> nat \<Rightarrow> 'a list res" where
  "memcpy dst src n =
     (if n \<le> length dst \<and> n \<le> length src then Inr (take n src @ drop n dst)
      else Inl OutOfBounds)"

lemma memcpy_ok [res_simps]:
  "n \<le> length dst \<Longrightarrow> n \<le> length src \<Longrightarrow> memcpy dst src n = Inr (take n src @ drop n dst)"
  by (simp add: memcpy_def)

lemma memcpy_all [simp, res_simps]:
  "length src = n \<Longrightarrow> length dst = n \<Longrightarrow> memcpy dst src n = Inr src"
  by (simp add: memcpy_def)

lemma memcpy_length: "memcpy dst src n = Inr dst' \<Longrightarrow> length dst' = length dst"
  by (auto simp: memcpy_def split: if_splits)

subsection \<open>Little-endian integers\<close>

fun le_bytes :: "nat \<Rightarrow> nat \<Rightarrow> bytes" where
  "le_bytes 0 v = []"
| "le_bytes (Suc n) v = of_nat (v mod 256) # le_bytes n (v div 256)"

fun le_val :: "bytes \<Rightarrow> nat" where
  "le_val [] = 0"
| "le_val (b # bs) = unat b + 256 * le_val bs"

lemma length_le_bytes [simp, mem_simps]: "length (le_bytes n v) = n"
  by (induction n arbitrary: v) auto

lemma le_val_le_bytes [mem_simps]: "le_val (le_bytes n v) = v mod 256 ^ n"
proof (induction n arbitrary: v)
  case 0
  then show ?case by simp
next
  case (Suc n)
  have "unat (of_nat (v mod 256) :: byte_t) = v mod 256"
    by (simp add: unat_of_nat)
  then show ?case
    using Suc.IH [of "v div 256"] by (simp add: mod_mult2_eq)
qed

lemma le_val_bound: "le_val bs < 256 ^ length bs"
proof (induction bs)
  case Nil
  then show ?case by simp
next
  case (Cons b bs)
  have "unat b < 256" using unsigned_less [of b] by simp
  with Cons show ?case by simp
qed

lemma le_bytes_le_val: "length bs = n \<Longrightarrow> le_bytes n (le_val bs) = bs"
proof (induction bs arbitrary: n)
  case Nil
  then show ?case by simp
next
  case (Cons b bs)
  have b: "unat b < 256" using unsigned_less [of b] by simp
  then have "(unat b + 256 * le_val bs) div 256 = le_val bs"
    and "(unat b + 256 * le_val bs) mod 256 = unat b" by auto
  with Cons show ?case by auto
qed

subsection \<open>Lists\<close>

lemma take_drop_middle [mem_simps]:
  "length xs = a \<Longrightarrow> length ys = b \<Longrightarrow> take b (drop a (xs @ ys @ zs)) = ys"
  by simp

lemma nth_list_update_take:
  "i < n \<Longrightarrow> n \<le> length xs \<Longrightarrow> take n (xs[i := x]) = (take n xs)[i := x]"
  by (simp add: take_update_swap)

lemma take_Suc_update:
  "n < length xs \<Longrightarrow> take (Suc n) (xs[n := x]) = take n xs @ [x]"
  by (simp add: take_Suc_conv_app_nth)

end
