(* ===== verification/RemotePointer.thy ===== *)
theory RemotePointer
  imports Prelude
begin

text \<open>
  \<open>RemotePointer\<close> and \<open>PolymorphicPointer\<close> of
  \<open>components/memory/remote_memory/remote_memory.hpp\<close> with the constants of
  \<open>components/memory/memory.hpp\<close>.  A remote pointer is one 64-bit word: two tag
  bits, six bits of node id, eight filling bits, forty-eight address bits.
\<close>

subsection \<open>Constants of memory.hpp\<close>

definition REMOTE_POINTER_MASK :: u64 where
  "REMOTE_POINTER_MASK = NOT 0xffff000000000000"

definition REMOTE_POINTER_BITS_MASK :: u64 where
  "REMOTE_POINTER_BITS_MASK = 0xc000000000000000"

definition REMOTE_POINTER_BITS :: u64 where
  "REMOTE_POINTER_BITS = 0x2"

definition SEGMENT_SIZE :: nat where
  "SEGMENT_SIZE = 2 ^ 30"

definition PAGEGROUP_NO :: nat where
  "PAGEGROUP_NO = 8"

definition MEMORY_PAGE_SIZE :: nat where
  "MEMORY_PAGE_SIZE = 4096"

definition PAGE_MASK :: u64 where
  "PAGE_MASK = 0xfffffffffffff000"

lemmas memory_constants =
  REMOTE_POINTER_MASK_def REMOTE_POINTER_BITS_MASK_def REMOTE_POINTER_BITS_def
  SEGMENT_SIZE_def PAGEGROUP_NO_def MEMORY_PAGE_SIZE_def PAGE_MASK_def

subsection \<open>RemotePointer\<close>

type_synonym remote_ptr = u64

definition is_remote_pointer :: "u64 \<Rightarrow> bool" where
  "is_remote_pointer ptr =
     (drop_bit 62 (ptr AND REMOTE_POINTER_BITS_MASK) = REMOTE_POINTER_BITS)"

definition make_remote_pointer :: "u64 \<Rightarrow> u64 \<Rightarrow> remote_ptr" where
  "make_remote_pointer node address =
     (let value = address AND REMOTE_POINTER_MASK;
          meta = push_bit 6 REMOTE_POINTER_BITS OR (node AND 0x3f)
      in push_bit 56 meta OR value)"

text \<open>The overload that takes the address as a pointer masks the node differently.\<close>

definition make_remote_pointer_ptr :: "u64 \<Rightarrow> u64 \<Rightarrow> remote_ptr" where
  "make_remote_pointer_ptr node address =
     (let value = address AND REMOTE_POINTER_MASK;
          meta = push_bit 6 REMOTE_POINTER_BITS OR (node AND NOT 0xc0)
      in push_bit 56 meta OR value)"

text \<open>\<open>get_as\<close> copies byte 6 over byte 7 of the (little-endian) pointer.\<close>

definition get_as :: "remote_ptr \<Rightarrow> u64" where
  "get_as ptr = (ptr AND 0x00ffffffffffffff) OR push_bit 56 (drop_bit 48 ptr AND 0xff)"

definition get_node :: "remote_ptr \<Rightarrow> nat" where
  "get_node ptr = unat (drop_bit 56 ptr AND 0x3f)"

definition is_nullptr :: "remote_ptr \<Rightarrow> bool" where
  "is_nullptr ptr = (ptr AND 0x0000ffffffffffff = 0)"

definition offset_by :: "remote_ptr \<Rightarrow> nat \<Rightarrow> remote_ptr" where
  "offset_by ptr off = ptr + of_nat off"

definition ptr_diff :: "remote_ptr \<Rightarrow> remote_ptr \<Rightarrow> nat" where
  "ptr_diff p q = unat (p - q)"

definition page :: "remote_ptr \<Rightarrow> remote_ptr" where
  "page ptr = ptr AND PAGE_MASK"

subsection \<open>PolymorphicPointer\<close>

text \<open>The union holds one word; both members read the same bits.\<close>

type_synonym poly_ptr = u64

definition poly_is_remote :: "poly_ptr \<Rightarrow> bool" where
  "poly_is_remote p = is_remote_pointer p"

definition poly_is_local :: "poly_ptr \<Rightarrow> bool" where
  "poly_is_local p = (\<not> is_remote_pointer p)"

definition poly_get_as :: "poly_ptr \<Rightarrow> u64" where
  "poly_get_as p = (if poly_is_local p then p else get_as p)"

subsection \<open>Bits of a remote pointer\<close>

lemma low_masks:
  "(0x0000ffffffffffff::u64) = mask 48"
  "(0x00ffffffffffffff::u64) = mask 56"
  "(0x3f::u64) = mask 6"
  "(0xff::u64) = mask 8"
  "REMOTE_POINTER_MASK = mask 48"
  "REMOTE_POINTER_BITS_MASK = push_bit 62 (mask 2)"
  "(0xc0::u64) = push_bit 6 (mask 2)"
  "PAGE_MASK = NOT (mask 12)"
  by (simp_all add: memory_constants mask_eq_exp_minus_1)

lemma bit_tag: "bit REMOTE_POINTER_BITS j \<longleftrightarrow> j = 1"
proof -
  have "bit (2 ^ 1 :: u64) j \<longleftrightarrow> j = 1"
    by (simp only: bit_exp_iff) auto
  then show ?thesis by (simp add: REMOTE_POINTER_BITS_def)
qed

lemma bit_make_remote_pointer:
  "bit (make_remote_pointer n a) i \<longleftrightarrow>
     (if i < 48 then bit a i else if 56 \<le> i \<and> i < 62 then bit n (i - 56) else i = 63)"
  unfolding make_remote_pointer_def Let_def low_masks
  by (auto simp: bit_simps bit_tag)

lemma bit_get_as:
  "bit (get_as p) i \<longleftrightarrow> i < 64 \<and> (if i < 56 then bit p i else bit p (i - 8))"
  unfolding get_as_def low_masks by (auto simp: bit_simps)

lemma and_mask_48_eq:
  assumes "unat a < 2 ^ 48"
  shows "a AND mask 48 = (a :: u64)"
proof -
  have "unat (take_bit 48 a) = unat a"
    using assms by (simp add: unsigned_take_bit_eq take_bit_nat_eq_self)
  then show ?thesis by (simp only: take_bit_eq_mask word_unat_eq_iff)
qed

lemma is_remote_pointer_iff: "is_remote_pointer p \<longleftrightarrow> bit p 63 \<and> \<not> bit p 62"
proof -
  have b: "bit (drop_bit 62 (p AND REMOTE_POINTER_BITS_MASK)) i \<longleftrightarrow> i < 2 \<and> bit p (i + 62)" for i
    unfolding low_masks by (auto simp: bit_simps add.commute dest: bit_imp_le_length)
  have "is_remote_pointer p \<longleftrightarrow> (\<forall>i. (i < 2 \<and> bit p (i + 62)) = (i = 1))"
    unfolding is_remote_pointer_def bit_eq_iff [where 'a = u64] b bit_tag
    by (metis (no_types, lifting) bit_imp_possible_bit bit_tag b)
  also have "\<dots> \<longleftrightarrow> bit p 63 \<and> \<not> bit p 62"
  proof
    assume h: "\<forall>i. (i < 2 \<and> bit p (i + 62)) = (i = 1)"
    from h [rule_format, of 0] h [rule_format, of 1]
    show "bit p 63 \<and> \<not> bit p 62" by simp
  qed (auto simp: less_2_cases_iff)
  finally show ?thesis .
qed

lemma is_remote_make [simp]: "is_remote_pointer (make_remote_pointer n a)"
  by (simp add: is_remote_pointer_iff bit_make_remote_pointer)

lemma get_as_make_mask: "get_as (make_remote_pointer n a) = a AND mask 48"
  by (rule bit_word_eqI) (auto simp: bit_get_as bit_make_remote_pointer bit_simps)

lemma get_node_make [simp]: "get_node (make_remote_pointer n a) = unat n mod 64"
proof -
  have "drop_bit 56 (make_remote_pointer n a) AND mask 6 = take_bit 6 n"
    by (rule bit_word_eqI) (auto simp: bit_make_remote_pointer bit_simps)
  then have "get_node (make_remote_pointer n a) = take_bit 6 (unat n)"
    by (simp only: get_node_def low_masks unsigned_take_bit_eq)
  then show ?thesis
    by (simp add: take_bit_eq_mod)
qed

lemma is_nullptr_make: "is_nullptr (make_remote_pointer n a) \<longleftrightarrow> a AND mask 48 = 0"
proof -
  have "make_remote_pointer n a AND mask 48 = a AND mask 48"
    by (rule bit_word_eqI) (auto simp: bit_make_remote_pointer bit_simps)
  then show ?thesis by (simp add: is_nullptr_def low_masks)
qed

lemma page_make: "page (make_remote_pointer n a) = make_remote_pointer n (a AND PAGE_MASK)"
  by (rule bit_word_eqI) (auto simp: page_def bit_make_remote_pointer low_masks bit_simps)

lemma make_remote_pointer_arith:
  "make_remote_pointer n a =
     push_bit 56 (push_bit 6 REMOTE_POINTER_BITS OR (n AND mask 6)) + (a AND mask 48)"
  unfolding make_remote_pointer_def Let_def low_masks
  by (subst disjunctive_add_eq_or) (auto intro!: bit_word_eqI simp: bit_simps)

lemma unat_add_of_nat:
  "unat (a :: u64) + off < 2 ^ 64 \<Longrightarrow> unat (a + of_nat off) = unat a + off"
  by (simp add: unat_word_ariths unat_of_nat)

lemma offset_by_make:
  assumes "unat a + off < 2 ^ 48"
  shows "offset_by (make_remote_pointer n a) off = make_remote_pointer n (a + of_nat off)"
proof -
  have "unat (a + of_nat off) < 2 ^ 48"
    using assms by (simp add: unat_add_of_nat)
  with assms show ?thesis
    by (simp add: offset_by_def make_remote_pointer_arith and_mask_48_eq)
qed

lemma offset_by_0 [simp]: "offset_by p 0 = p"
  by (simp add: offset_by_def)

lemma offset_by_add: "offset_by (offset_by p m) n = offset_by p (m + n)"
  by (simp add: offset_by_def)

subsection \<open>Properties\<close>

text \<open>Packing an address and a node id into a remote pointer and reading both back
  gives the same address and the same node, for every node id below 64 and every address of
  the 48-bit space whose top bits are clear; moving the pointer inside that space moves the
  address and keeps the node.\<close>

theorem remote_pointer_roundtrip:
  assumes "unat n < 64" and "unat a + off < 2 ^ 48"
  shows "is_remote_pointer (offset_by (make_remote_pointer n a) off) \<and>
    get_node (offset_by (make_remote_pointer n a) off) = unat n \<and>
    get_as (offset_by (make_remote_pointer n a) off) = a + of_nat off"
proof -
  have "unat (a + of_nat off) < 2 ^ 48"
    using assms by (simp add: unat_add_of_nat)
  with assms show ?thesis
    by (simp add: offset_by_make get_as_make_mask and_mask_48_eq)
qed

theorem remote_pointer_roundtrip_witness:
  "get_node (offset_by (make_remote_pointer 5 0x7f0012345000) 64) = 5 \<and>
   get_as (offset_by (make_remote_pointer 5 0x7f0012345000) 64) = 0x7f0012345040"
  using remote_pointer_roundtrip [of 5 "0x7f0012345000" 64] by simp

text \<open>The two overloads of \<open>make_remote_pointer\<close> mask the node id with different
  constants, and still build the same word for every node and every address.\<close>

theorem make_remote_pointer_overloads_agree:
  "make_remote_pointer_ptr n a = make_remote_pointer n a"
  by (rule bit_word_eqI)
     (auto simp: bit_make_remote_pointer make_remote_pointer_ptr_def low_masks bit_simps bit_tag)

text \<open>Reading a packed pointer back gives the original address exactly when the
  address fits in 48 bits: packing does not record the sign bits, so a canonical address of
  the upper half (bit 47 set, bits 48 to 63 set) is not recovered.\<close>

theorem get_as_make_iff: "get_as (make_remote_pointer n a) = a \<longleftrightarrow> unat a < 2 ^ 48"
proof
  assume "get_as (make_remote_pointer n a) = a"
  then have "take_bit 48 a = a"
    by (simp add: get_as_make_mask take_bit_eq_mask)
  then have "take_bit 48 (unat a) = unat a"
    by (metis unsigned_take_bit_eq)
  then show "unat a < 2 ^ 48"
    by (metis take_bit_nat_less_exp)
qed (simp add: get_as_make_mask and_mask_48_eq)

end
