(* ===== verification/Bitmap.thy ===== *)
theory Bitmap
  imports Prelude
begin

text \<open>
  \<open>Bitmap\<close> of \<open>components/memory/memory.hpp\<close>: a byte array with one bit per
  slot.  The locale \<open>slot_source\<close> is the interface its client, the memory node's
  segment allocator, relies on; the bitmap is its interpretation.
\<close>

subsection \<open>The code\<close>

definition byte_masks :: bytes where
  "byte_masks = [1, 2, 4, 8, 16, 32, 64, 128]"

record bitmap =
  bm_bytes :: nat
  bm_map :: bytes

definition make_bitmap :: "nat \<Rightarrow> bitmap" where
  "make_bitmap count =
     (let num_bytes = count div 8 + 1
      in \<lparr>bm_bytes = num_bytes, bm_map = replicate num_bytes 0\<rparr>)"

text \<open>The inner loop over the eight masks of one byte.\<close>

definition first_clear :: "byte_t \<Rightarrow> nat option" where
  "first_clear b = find (\<lambda>j. b AND byte_masks ! j = 0) [0..<8]"

fun find_empty_from :: "bytes \<Rightarrow> nat \<Rightarrow> nat option" where
  "find_empty_from [] i = None"
| "find_empty_from (b # bs) i =
     (case first_clear b of
        Some j \<Rightarrow> Some (i * 8 + j)
      | None \<Rightarrow> find_empty_from bs (Suc i))"

definition find_empty :: "bitmap \<Rightarrow> nat option" where
  "find_empty bm = find_empty_from (take (bm_bytes bm) (bm_map bm)) 0"

fun get_empty_from :: "bytes \<Rightarrow> nat \<Rightarrow> nat option \<times> bytes" where
  "get_empty_from [] i = (None, [])"
| "get_empty_from (b # bs) i =
     (case first_clear b of
        Some j \<Rightarrow> (Some (i * 8 + j), (b OR byte_masks ! j) # bs)
      | None \<Rightarrow> (case get_empty_from bs (Suc i) of (r, bs') \<Rightarrow> (r, b # bs')))"

definition get_empty :: "bitmap \<Rightarrow> nat option \<times> bitmap" where
  "get_empty bm =
     (case get_empty_from (take (bm_bytes bm) (bm_map bm)) 0 of
        (r, bs) \<Rightarrow> (r, bm\<lparr>bm_map := bs @ drop (bm_bytes bm) (bm_map bm)\<rparr>))"

definition unset :: "nat \<Rightarrow> bitmap \<Rightarrow> bitmap res" where
  "unset pos bm =
     (let i = pos div 8; j = pos mod 8
      in res_bind (rd (bm_map bm) i) (\<lambda>b.
         res_bind (wr (bm_map bm) i (b AND NOT (byte_masks ! j))) (\<lambda>m.
         Inr (bm\<lparr>bm_map := m\<rparr>))))"

subsection \<open>The interface of a slot source\<close>

text \<open>Taking slots repeatedly; the run stops at the first failure.\<close>

fun take_slots :: "('b \<Rightarrow> nat option \<times> 'b) \<Rightarrow> nat \<Rightarrow> 'b \<Rightarrow> nat list \<times> 'b" where
  "take_slots tk 0 b = ([], b)"
| "take_slots tk (Suc n) b =
     (case tk b of
        (None, b') \<Rightarrow> ([], b')
      | (Some s, b') \<Rightarrow> (case take_slots tk n b' of (ss, b'') \<Rightarrow> (s # ss, b'')))"

locale slot_source =
  fixes tk :: "'b \<Rightarrow> nat option \<times> 'b"
    and rel :: "nat \<Rightarrow> 'b \<Rightarrow> 'b res"
    and used :: "'b \<Rightarrow> nat set"
    and cap :: "'b \<Rightarrow> nat"
    and inv :: "'b \<Rightarrow> bool"
  assumes used_bound: "inv b \<Longrightarrow> used b \<subseteq> {..<cap b}"
    and tk_some: "inv b \<Longrightarrow> tk b = (Some s, b') \<Longrightarrow>
      s < cap b \<and> s \<notin> used b \<and> {..<s} \<subseteq> used b \<and> used b' = insert s (used b) \<and>
      cap b' = cap b \<and> inv b'"
    and tk_none: "inv b \<Longrightarrow> tk b = (None, b') \<Longrightarrow> b' = b \<and> used b = {..<cap b}"
    and rel_ok: "inv b \<Longrightarrow> s < cap b \<Longrightarrow>
      \<exists>b'. rel s b = Inr b' \<and> used b' = used b - {s} \<and> cap b' = cap b \<and> inv b'"
begin

lemma take_slots_spec:
  "inv b \<Longrightarrow> take_slots tk n b = (ss, b') \<Longrightarrow>
     distinct ss \<and> set ss \<inter> used b = {} \<and> set ss \<subseteq> {..<cap b} \<and>
     used b' = used b \<union> set ss \<and> cap b' = cap b \<and> inv b' \<and>
     length ss = min n (cap b - card (used b))"
proof (induction n arbitrary: b ss)
  case 0
  then show ?case by simp
next
  case (Suc n)
  obtain r b1 where tk: "tk b = (r, b1)" by (cases "tk b")
  show ?case
  proof (cases r)
    case None
    with tk Suc.prems have "used b = {..<cap b}" "b1 = b"
      using tk_none by blast+
    with tk None Suc.prems show ?thesis by simp
  next
    case (Some s)
    with tk Suc.prems have s: "s < cap b" "s \<notin> used b" "used b1 = insert s (used b)"
      "cap b1 = cap b" "inv b1" using tk_some by blast+
    obtain ss1 where rest: "take_slots tk n b1 = (ss1, b')" and ss: "ss = s # ss1"
      using Suc.prems tk Some by (auto split: prod.splits)
    have fin: "finite (used b)"
      using used_bound [OF Suc.prems(1)] finite_subset by blast
    have "card (used b) < cap b"
      using psubset_card_mono [of "{..<cap b}" "used b"] used_bound [OF Suc.prems(1)] s(1,2)
      by auto
    then show ?thesis
      using Suc.IH [OF s(5) rest] s fin by (auto simp: ss)
  qed
qed

lemma tk_rel_roundtrip:
  assumes "inv b" and "tk b = (Some s, b')"
  shows "\<exists>b''. rel s b' = Inr b'' \<and> used b'' = used b \<and> inv b''"
proof -
  have b': "s < cap b'" "s \<notin> used b" "used b' = insert s (used b)" "inv b'"
    using tk_some [OF assms] by auto
  from rel_ok [OF b'(4,1)] b'(2,3) show ?thesis by auto
qed

end

subsection \<open>The bitmap is a slot source\<close>

lemma byte_masks_nth: "j < 8 \<Longrightarrow> byte_masks ! j = 2 ^ j"
proof -
  assume "j < 8"
  then have "j \<in> {0,1,2,3,4,5,6,7}" by auto
  then show ?thesis by (auto simp: byte_masks_def)
qed

lemma mask_clear_iff: "j < 8 \<Longrightarrow> b AND byte_masks ! j = 0 \<longleftrightarrow> \<not> bit b j"
  by (simp add: byte_masks_nth and_exp_eq_0_iff_not_bit)

lemma first_clear_Some_iff:
  "first_clear b = Some j \<longleftrightarrow> j < 8 \<and> \<not> bit b j \<and> (\<forall>k<j. bit b k)"
  by (auto simp: first_clear_def find_Some_iff mask_clear_iff)

lemma first_clear_None_iff: "first_clear b = None \<longleftrightarrow> (\<forall>j<8. bit b j)"
  by (auto simp: first_clear_def find_None_iff mask_clear_iff)

lemma bit_set_mask: "j < 8 \<Longrightarrow> bit (b OR byte_masks ! j) k \<longleftrightarrow> bit b k \<or> k = j"
  by (auto simp: byte_masks_nth bit_simps)

lemma bit_clear_mask:
  "j < 8 \<Longrightarrow> bit (b AND NOT (byte_masks ! j)) k \<longleftrightarrow> bit b k \<and> k \<noteq> j" for b :: byte_t
  by (auto simp: byte_masks_nth bit_simps dest: bit_imp_le_length)

text \<open>The slots whose bit is set.\<close>

definition bits_used :: "bytes \<Rightarrow> nat set" where
  "bits_used bs = {p. p < 8 * length bs \<and> bit (bs ! (p div 8)) (p mod 8)}"

lemma bits_used_Nil [simp]: "bits_used [] = {}"
  by (simp add: bits_used_def)

lemma bits_used_Cons:
  "p \<in> bits_used (b # bs) \<longleftrightarrow> (if p < 8 then bit b p else p - 8 \<in> bits_used bs)"
proof (cases "p < 8")
  case False
  then have "p div 8 = Suc ((p - 8) div 8)" "p mod 8 = (p - 8) mod 8"
    by (simp_all add: le_div_geq le_mod_geq)
  with False show ?thesis by (auto simp: bits_used_def)
qed (simp add: bits_used_def)

lemma get_empty_from_Some:
  "get_empty_from bs i = (Some s, bs') \<Longrightarrow>
    length bs' = length bs \<and>
    (\<exists>p<8 * length bs. s = i * 8 + p \<and> p \<notin> bits_used bs \<and> {..<p} \<subseteq> bits_used bs \<and>
       bits_used bs' = insert p (bits_used bs))"
proof (induction bs arbitrary: i bs')
  case (Cons b bs)
  show ?case
  proof (cases "first_clear b")
    case None
    with Cons.prems obtain bs1 where r: "get_empty_from bs (Suc i) = (Some s, bs1)"
      and bs': "bs' = b # bs1" by (auto split: prod.splits)
    from Cons.IH [OF r] obtain p where p: "length bs1 = length bs" "p < 8 * length bs"
      "s = Suc i * 8 + p" "p \<notin> bits_used bs" "{..<p} \<subseteq> bits_used bs"
      "bits_used bs1 = insert p (bits_used bs)" by auto
    have "bits_used bs' = insert (8 + p) (bits_used (b # bs))"
      using p(6) by (auto simp: bits_used_Cons bs' split: if_splits)
    moreover have "{..<8 + p} \<subseteq> bits_used (b # bs)"
      using None p(5) by (auto simp: bits_used_Cons first_clear_None_iff subset_iff)
    ultimately show ?thesis
      using p by (intro conjI exI [of _ "8 + p"]) (auto simp: bits_used_Cons bs')
  next
    case (Some j)
    then have j: "j < 8" "\<not> bit b j" "\<forall>k<j. bit b k" by (simp_all add: first_clear_Some_iff)
    with Cons.prems Some have s: "s = i * 8 + j" "bs' = (b OR byte_masks ! j) # bs" by auto
    have "bits_used bs' = insert j (bits_used (b # bs))"
      using j by (auto simp: bits_used_Cons s bit_set_mask split: if_splits)
    with j s show ?thesis
      by (intro conjI exI [of _ j]) (auto simp: bits_used_Cons)
  qed
qed simp

lemma get_empty_from_None:
  "get_empty_from bs i = (None, bs') \<Longrightarrow> bs' = bs \<and> bits_used bs = {..<8 * length bs}"
proof (induction bs arbitrary: i bs')
  case (Cons b bs)
  then have b: "first_clear b = None" by (auto split: option.splits)
  with Cons have "bs' = b # bs" and "bits_used bs = {..<8 * length bs}"
    by (auto split: prod.splits)
  then show ?case
    using b by (auto simp: set_eq_iff bits_used_Cons first_clear_None_iff)
qed simp

lemma find_empty_from_get: "find_empty_from bs i = fst (get_empty_from bs i)"
  by (induction bs arbitrary: i) (auto split: option.splits prod.splits)

definition bm_used :: "bitmap \<Rightarrow> nat set" where
  "bm_used bm = bits_used (bm_map bm)"

definition bm_inv :: "bitmap \<Rightarrow> bool" where
  "bm_inv bm \<longleftrightarrow> length (bm_map bm) = bm_bytes bm"

definition bm_cap :: "bitmap \<Rightarrow> nat" where
  "bm_cap bm = 8 * bm_bytes bm"

lemma unset_ok: 
  assumes "bm_inv bm" "s < bm_cap bm"
  shows "unset s bm = Inr (bm\<lparr>bm_map := (bm_map bm)[s div 8 := bm_map bm ! (s div 8) AND NOT (byte_masks ! (s mod 8))]\<rparr>)"
  using assms by (simp add: unset_def bm_inv_def bm_cap_def Let_def)

interpretation bitmap_slots: slot_source get_empty unset bm_used bm_cap bm_inv
proof
  fix b s b'
  assume inv: "bm_inv b"
  show "bm_used b \<subseteq> {..<bm_cap b}"
    using inv by (auto simp: bm_used_def bits_used_def bm_cap_def bm_inv_def)
  {
    assume "get_empty b = (Some s, b')"
    then obtain bs where "get_empty_from (bm_map b) 0 = (Some s, bs)" "b' = b\<lparr>bm_map := bs\<rparr>"
      using inv by (auto simp: get_empty_def bm_inv_def split: prod.splits)
    with get_empty_from_Some [OF this(1)] inv
    show "s < bm_cap b \<and> s \<notin> bm_used b \<and> {..<s} \<subseteq> bm_used b \<and> bm_used b' = insert s (bm_used b) \<and>
      bm_cap b' = bm_cap b \<and> bm_inv b'"
      by (auto simp: bm_used_def bm_cap_def bm_inv_def)
  next
    assume "get_empty b = (None, b')"
    then obtain bs where "get_empty_from (bm_map b) 0 = (None, bs)" "b' = b\<lparr>bm_map := bs\<rparr>"
      using inv by (auto simp: get_empty_def bm_inv_def split: prod.splits)
    with get_empty_from_None [OF this(1)] inv
    show "b' = b \<and> bm_used b = {..<bm_cap b}"
      by (simp add: bm_used_def bm_cap_def bm_inv_def)
  next
    assume s: "s < bm_cap b"
    let ?m = "(bm_map b)[s div 8 := bm_map b ! (s div 8) AND NOT (byte_masks ! (s mod 8))]"
    have "bits_used ?m = bits_used (bm_map b) - {s}"
      using inv s
      by (auto simp: bits_used_def bm_inv_def bm_cap_def nth_list_update bit_clear_mask)
         (metis div_mult_mod_eq)
    then show "\<exists>b'. unset s b = Inr b' \<and> bm_used b' = bm_used b - {s} \<and> bm_cap b' = bm_cap b \<and> bm_inv b'"
      using inv unset_ok [OF inv s] by (simp add: bm_used_def bm_cap_def bm_inv_def)
  }
qed
lemma make_bitmap_inv: "bm_inv (make_bitmap n)" "bm_cap (make_bitmap n) = 8 * (n div 8 + 1)"
  "bm_used (make_bitmap n) = {}"
proof -
  show "bm_inv (make_bitmap n)" "bm_cap (make_bitmap n) = 8 * (n div 8 + 1)"
    by (simp_all add: make_bitmap_def bm_inv_def bm_cap_def Let_def)
  have "p div 8 < Suc (n div 8)" if "p < 8 + 8 * (n div 8)" for p
    using that by (simp add: less_mult_imp_div_less)
  then show "bm_used (make_bitmap n) = {}"
    by (auto simp: make_bitmap_def bm_used_def bits_used_def Let_def simp del: replicate_Suc)
qed

subsection \<open>Properties\<close>

text \<open>\<open>get_empty\<close> answers the lowest slot whose bit is clear, sets exactly that
  bit and changes no other; it answers nothing, and changes nothing, exactly when every bit
  is set.\<close>

theorem get_empty_lowest_free:
  assumes "bm_inv bm"
  shows "case get_empty bm of
      (Some s, bm') \<Rightarrow> s < bm_cap bm \<and> s \<notin> bm_used bm \<and> {..<s} \<subseteq> bm_used bm \<and>
        bm_used bm' = insert s (bm_used bm) \<and> bm_inv bm'
    | (None, bm') \<Rightarrow> bm' = bm \<and> bm_used bm = {..<bm_cap bm}"
  using bitmap_slots.tk_some [OF assms] bitmap_slots.tk_none [OF assms]
  by (auto split: prod.splits option.splits)

theorem get_empty_lowest_free_witness:
  "get_empty \<lparr>bm_bytes = 1, bm_map = [5]\<rparr> = (Some 1, \<lparr>bm_bytes = 1, bm_map = [7]\<rparr>) \<and>
   1 \<notin> bm_used \<lparr>bm_bytes = 1, bm_map = [5]\<rparr>"
proof -
  have e: "get_empty \<lparr>bm_bytes = 1, bm_map = [5]\<rparr> = (Some 1, \<lparr>bm_bytes = 1, bm_map = [7]\<rparr>)"
    by code_simp
  have "bm_inv \<lparr>bm_bytes = 1, bm_map = [5]\<rparr>" by (simp add: bm_inv_def)
  from get_empty_lowest_free [OF this] e show ?thesis by simp
qed

text \<open>A bitmap made for \<open>count\<close> slots serves more of them than it was made for:
  \<open>count div 8 + 1\<close> bytes give the slots 0, 1, 2, ... up to eight times that many, in
  order, whatever the caller's real number of slots is.\<close>

theorem make_bitmap_serves_in_order:
  assumes "n \<le> 8 * (count div 8 + 1)"
  shows "\<exists>bm. take_slots get_empty n (make_bitmap count) = ([0..<n], bm) \<and>
    bm_used bm = {..<n} \<and> count < 8 * (count div 8 + 1)"
proof -
  have "\<exists>bm'. take_slots get_empty n bm = ([m..<m + n], bm') \<and> bm_used bm' = {..<m + n}"
    if "bm_inv bm" "bm_used bm = {..<m}" "m + n \<le> bm_cap bm" for bm m
    using that
  proof (induction n arbitrary: bm m)
    case 0
    then show ?case by simp
  next
    case (Suc n)
    obtain r bm1 where ge: "get_empty bm = (r, bm1)" by (cases "get_empty bm")
    have "r \<noteq> None"
      using bitmap_slots.tk_none [OF Suc.prems(1)] ge Suc.prems(2,3) by fastforce
    then obtain s where r: "r = Some s" by blast
    note g = bitmap_slots.tk_some [OF Suc.prems(1) ge [unfolded r]]
    have s: "s = m"
      using g Suc.prems(2) by (metis lessThan_iff lessThan_subset_iff linorder_not_le le_antisym)
    have "bm_used bm1 = insert s (bm_used bm)" using g by blast
    then have "bm_used bm1 = {..<Suc m}" by (simp add: s Suc.prems(2) lessThan_Suc)
    with Suc.IH [of bm1 "Suc m"] g Suc.prems(3) obtain bm' where
      "take_slots get_empty n bm1 = ([Suc m..<Suc m + n], bm')" "bm_used bm' = {..<Suc m + n}"
      by auto
    with ge r s show ?case by (simp add: upt_conv_Cons)
  qed
  from this [of "make_bitmap count" 0] assms show ?thesis
    by (auto simp: make_bitmap_inv)
qed

theorem make_bitmap_serves_in_order_witness:
  "fst (take_slots get_empty 3 (make_bitmap 1)) = [0, 1, 2]"
proof -
  have "(3::nat) \<le> 8 * (1 div 8 + 1)" by simp
  from make_bitmap_serves_in_order [OF this] obtain bm
    where "take_slots get_empty 3 (make_bitmap 1) = ([0..<3], bm)" by blast
  moreover have "[0..<3] = [0, 1, 2::nat]" by code_simp
  ultimately show ?thesis by (simp only: fst_conv)
qed

end
