(* ===== verification/SegmentAllocator.thy ===== *)
theory SegmentAllocator
  imports RemotePointer Bitmap
begin

text \<open>
  \<open>MemoryNodeAllocator\<close> of \<open>components/memory/memory_node/memory_node.hpp\<close> and the
  two eRPC handlers of \<open>components/node/memory_node/memory_node.cpp\<close> that call it: a
  memory node hands out segments of one gibibyte of its region, tracked by a bitmap that
  lies in the first page of the region.
\<close>

subsection \<open>The code\<close>

text \<open>The allocator object is the region itself: \<open>this\<close> is the region's address.\<close>

record mn_allocator =
  mna_this :: u64
  mna_bitmap :: bitmap

definition make_allocator :: "u64 \<Rightarrow> nat \<Rightarrow> mn_allocator" where
  "make_allocator region memory_size =
     (let num_segments = memory_size div SEGMENT_SIZE
      in \<lparr>mna_this = region, mna_bitmap = make_bitmap num_segments\<rparr>)"

definition mna_allocate :: "mn_allocator \<Rightarrow> u64 \<times> mn_allocator" where
  "mna_allocate a =
     (case get_empty (mna_bitmap a) of
        (None, bm) \<Rightarrow> (0, a\<lparr>mna_bitmap := bm\<rparr>)
      | (Some no, bm) \<Rightarrow>
          (let hdr_size = MEMORY_PAGE_SIZE;
               off = no * SEGMENT_SIZE
           in (mna_this a + of_nat hdr_size + of_nat off, a\<lparr>mna_bitmap := bm\<rparr>)))"

definition mna_deallocate :: "u64 \<Rightarrow> mn_allocator \<Rightarrow> mn_allocator res" where
  "mna_deallocate segment a =
     (let off = unat (segment - mna_this a - of_nat MEMORY_PAGE_SIZE);
          pos = off div SEGMENT_SIZE
      in res_bind (unset pos (mna_bitmap a)) (\<lambda>bm. Inr (a\<lparr>mna_bitmap := bm\<rparr>)))"

text \<open>The handlers: the response is the segment tagged with the node's id.\<close>

definition allocation_handler :: "nat \<Rightarrow> mn_allocator \<Rightarrow> remote_ptr \<times> mn_allocator" where
  "allocation_handler node_id a =
     (case mna_allocate a of (buf, a') \<Rightarrow> (make_remote_pointer_ptr (of_nat node_id) buf, a'))"

definition deallocation_handler :: "bytes \<Rightarrow> mn_allocator \<Rightarrow> (bool \<times> mn_allocator) res" where
  "deallocation_handler buf a =
     (let off = 1 \<comment> \<open>the size of the operation code\<close>
      in if length buf < off + 8 then Inl OutOfBounds
         else (let addr = of_nat (le_val (take 8 (drop off buf)))
               in res_bind (mna_deallocate (get_as addr) a) (\<lambda>a'. Inr (True, a'))))"

subsection \<open>Segments as slots\<close>

text \<open>
  A region is well placed when every slot of its bitmap has an address below 2^48; then the
  address of a slot determines the slot.
\<close>

definition seg_addr :: "mn_allocator \<Rightarrow> nat \<Rightarrow> u64" where
  "seg_addr a no = mna_this a + of_nat (MEMORY_PAGE_SIZE + no * SEGMENT_SIZE)"

definition mna_inv :: "mn_allocator \<Rightarrow> bool" where
  "mna_inv a \<longleftrightarrow> bm_inv (mna_bitmap a) \<and> 
     unat (mna_this a) + MEMORY_PAGE_SIZE + bm_cap (mna_bitmap a) * SEGMENT_SIZE < 2 ^ 48"

lemma unat_seg_addr:
  assumes "mna_inv a" "no < bm_cap (mna_bitmap a)"
  shows "unat (seg_addr a no) = unat (mna_this a) + MEMORY_PAGE_SIZE + no * SEGMENT_SIZE"
    and "unat (seg_addr a no) + SEGMENT_SIZE < 2 ^ 48"
proof -
  have "Suc no * SEGMENT_SIZE \<le> bm_cap (mna_bitmap a) * SEGMENT_SIZE"
    using assms(2) by (intro mult_le_mono1) simp
  then have b: "unat (mna_this a) + MEMORY_PAGE_SIZE + no * SEGMENT_SIZE + SEGMENT_SIZE < 2 ^ 48"
    using assms(1) by (simp add: mna_inv_def)
  then show "unat (seg_addr a no) = unat (mna_this a) + MEMORY_PAGE_SIZE + no * SEGMENT_SIZE"
    unfolding seg_addr_def by (subst unat_add_of_nat) auto
  with b show "unat (seg_addr a no) + SEGMENT_SIZE < 2 ^ 48" by simp
qed

lemma seg_addr_slot:
  assumes "mna_inv a" "no < bm_cap (mna_bitmap a)"
  shows "unat (seg_addr a no - mna_this a - of_nat MEMORY_PAGE_SIZE) div SEGMENT_SIZE = no"
proof -
  have "no * SEGMENT_SIZE < 2 ^ 64"
    using unat_seg_addr [OF assms] by simp
  then have "unat (seg_addr a no - mna_this a - of_nat MEMORY_PAGE_SIZE) = no * SEGMENT_SIZE"
    unfolding seg_addr_def by (simp add: unat_of_nat del: of_nat_mult)
  then show ?thesis by (simp add: SEGMENT_SIZE_def)
qed

lemma mna_allocate_eq:
  "mna_allocate a = (case get_empty (mna_bitmap a) of
     (None, bm) \<Rightarrow> (0, a\<lparr>mna_bitmap := bm\<rparr>)
   | (Some no, bm) \<Rightarrow> (seg_addr a no, a\<lparr>mna_bitmap := bm\<rparr>))"
  by (auto simp: mna_allocate_def seg_addr_def Let_def add.assoc split: prod.splits option.splits)

lemma mna_allocate_some:
  assumes "mna_inv a" "mna_allocate a = (p, a')" "bm_used (mna_bitmap a) \<noteq> {..<bm_cap (mna_bitmap a)}"
  obtains no where "p = seg_addr a no" "no < bm_cap (mna_bitmap a)" "no \<notin> bm_used (mna_bitmap a)"
    "{..<no} \<subseteq> bm_used (mna_bitmap a)"
    "bm_used (mna_bitmap a') = insert no (bm_used (mna_bitmap a))"
    "bm_cap (mna_bitmap a') = bm_cap (mna_bitmap a)" "mna_this a' = mna_this a" "mna_inv a'"
proof -
  have inv: "bm_inv (mna_bitmap a)" using assms(1) by (simp add: mna_inv_def)
  obtain r bm where g: "get_empty (mna_bitmap a) = (r, bm)" by (cases "get_empty (mna_bitmap a)")
  with bitmap_slots.tk_none [OF inv] assms(3) obtain no where r: "r = Some no" by (cases r) auto
  note s = bitmap_slots.tk_some [OF inv g [unfolded r]]
  have "p = seg_addr a no" "a' = a\<lparr>mna_bitmap := bm\<rparr>"
    using assms(2) g r by (simp_all add: mna_allocate_eq)
  with s assms(1) show ?thesis by (intro that) (auto simp: mna_inv_def)
qed

lemma make_allocator_simps:
  "bm_cap (mna_bitmap (make_allocator region memory_size)) = 8 * (memory_size div SEGMENT_SIZE div 8 + 1)"
  "bm_used (mna_bitmap (make_allocator region memory_size)) = {}"
  "mna_this (make_allocator region memory_size) = region"
  by (simp_all add: make_allocator_def Let_def make_bitmap_inv)

lemma make_allocator_inv:
  "unat region + MEMORY_PAGE_SIZE + 8 * (memory_size div SEGMENT_SIZE div 8 + 1) * SEGMENT_SIZE < 2 ^ 48 \<Longrightarrow>
   mna_inv (make_allocator region memory_size)"
  by (simp add: mna_inv_def make_allocator_def Let_def make_bitmap_inv)

text \<open>A node of three gibibytes, for the witnesses.\<close>

definition node3 :: mn_allocator where
  "node3 = make_allocator (2 ^ 40) (3 * SEGMENT_SIZE)"

lemma node3_inv: "mna_inv node3"
  unfolding node3_def by (rule make_allocator_inv) (simp add: MEMORY_PAGE_SIZE_def SEGMENT_SIZE_def)

lemma node3_empty: "bm_used (mna_bitmap node3) \<noteq> {..<bm_cap (mna_bitmap node3)}"
proof -
  have u: "bm_used (mna_bitmap node3) = {}" "bm_cap (mna_bitmap node3) = 8"
    by (simp_all add: node3_def make_allocator_simps)
  show ?thesis unfolding u by (metis empty_iff lessThan_iff zero_less_numeral)
qed

subsection \<open>Properties\<close>

text \<open>A segment that a memory node has just offered can be given back: releasing its
  address makes exactly the same slots free as before, and the address was no live
  segment's.\<close>

theorem segment_allocate_deallocate:
  assumes "mna_inv a" and "bm_used (mna_bitmap a) \<noteq> {..<bm_cap (mna_bitmap a)}"
    and "mna_allocate a = (p, a')"
  shows "p \<notin> seg_addr a ` bm_used (mna_bitmap a) \<and> p \<noteq> 0 \<and>
    (\<exists>a''. mna_deallocate p a' = Inr a'' \<and> mna_inv a'' \<and>
       bm_used (mna_bitmap a'') = bm_used (mna_bitmap a))"
proof -
  obtain no where no: "p = seg_addr a no" "no < bm_cap (mna_bitmap a)" "no \<notin> bm_used (mna_bitmap a)"
    "{..<no} \<subseteq> bm_used (mna_bitmap a)"
    "bm_used (mna_bitmap a') = insert no (bm_used (mna_bitmap a))"
    "bm_cap (mna_bitmap a') = bm_cap (mna_bitmap a)" "mna_this a' = mna_this a" "mna_inv a'"
    by (rule mna_allocate_some [OF assms(1,3,2)])
  have slot: "unat (p - mna_this a' - of_nat MEMORY_PAGE_SIZE) div SEGMENT_SIZE = no"
    using seg_addr_slot [OF assms(1) no(2)] no(1,7) by simp
  have inj: "seg_addr a n = p \<Longrightarrow> n < bm_cap (mna_bitmap a) \<Longrightarrow> n = no" for n
    using seg_addr_slot [OF assms(1)] no(1,2) by metis
  have "bm_used (mna_bitmap a) \<subseteq> {..<bm_cap (mna_bitmap a)}"
    using bitmap_slots.used_bound assms(1) by (simp add: mna_inv_def)
  with inj no(3) have "p \<notin> seg_addr a ` bm_used (mna_bitmap a)" by blast
  moreover have "p \<noteq> 0"
    using unat_seg_addr(1) [OF assms(1) no(2)] no(1) by (auto simp: MEMORY_PAGE_SIZE_def)
  moreover obtain bm where "unset no (mna_bitmap a') = Inr bm"
    "bm_used bm = bm_used (mna_bitmap a') - {no}" "bm_cap bm = bm_cap (mna_bitmap a')" "bm_inv bm"
    using bitmap_slots.rel_ok [of "mna_bitmap a'" no] no(2,6,8) by (auto simp: mna_inv_def)
  ultimately show ?thesis
    using no slot by (auto simp: mna_deallocate_def Let_def mna_inv_def)
qed

lemma segment_allocate_deallocate_witness:
  "fst (mna_allocate node3) \<noteq> 0 \<and> (\<exists>a''. mna_deallocate (fst (mna_allocate node3)) (snd (mna_allocate node3)) = Inr a'' \<and>
     bm_used (mna_bitmap a'') = bm_used (mna_bitmap node3))"
  using segment_allocate_deallocate [OF node3_inv node3_empty, of "fst (mna_allocate node3)" "snd (mna_allocate node3)"] by auto

text \<open>Repeated requests of compute nodes for segments.\<close>

fun mna_allocate_n :: "nat \<Rightarrow> mn_allocator \<Rightarrow> u64 list \<times> mn_allocator" where
  "mna_allocate_n 0 a = ([], a)"
| "mna_allocate_n (Suc n) a =
     (case mna_allocate a of (p, a') \<Rightarrow>
        (case mna_allocate_n n a' of (ps, a'') \<Rightarrow> (p # ps, a'')))"

lemma mna_allocate_n_from:
  "mna_inv a \<Longrightarrow> bm_used (mna_bitmap a) = {..<m} \<Longrightarrow> m + n \<le> bm_cap (mna_bitmap a) \<Longrightarrow>
   \<exists>a'. mna_allocate_n n a = (map (seg_addr a) [m..<m + n], a') \<and> mna_inv a' \<and>
     bm_used (mna_bitmap a') = {..<m + n} \<and> mna_this a' = mna_this a \<and>
     bm_cap (mna_bitmap a') = bm_cap (mna_bitmap a)"
proof (induction n arbitrary: a m)
  case 0
  then show ?case by simp
next
  case (Suc n)
  obtain p a1 where al: "mna_allocate a = (p, a1)" by (cases "mna_allocate a")
  have ne: "bm_used (mna_bitmap a) \<noteq> {..<bm_cap (mna_bitmap a)}"
    using Suc.prems(2,3) by simp
  obtain no where no: "p = seg_addr a no" "no \<notin> bm_used (mna_bitmap a)"
    "{..<no} \<subseteq> bm_used (mna_bitmap a)"
    "bm_used (mna_bitmap a1) = insert no (bm_used (mna_bitmap a))"
    "bm_cap (mna_bitmap a1) = bm_cap (mna_bitmap a)" "mna_this a1 = mna_this a" "mna_inv a1"
    by (rule mna_allocate_some [OF Suc.prems(1) al ne])
  have "no = m" using no(2,3) Suc.prems(2) by simp
  then have "bm_used (mna_bitmap a1) = {..<Suc m}"
    by (simp add: no(4) Suc.prems(2) lessThan_Suc)
  with Suc.IH [of a1 "Suc m"] no(5,6,7) Suc.prems(3) obtain a' where
    "mna_allocate_n n a1 = (map (seg_addr a1) [Suc m..<Suc m + n], a')" "mna_inv a'"
    "bm_used (mna_bitmap a') = {..<Suc m + n}" "mna_this a' = mna_this a"
    "bm_cap (mna_bitmap a') = bm_cap (mna_bitmap a)" by auto
  moreover have "seg_addr a1 = seg_addr a" using no(6) by (simp add: seg_addr_def fun_eq_iff)
  moreover have "[m..<m + Suc n] = m # [Suc m..<Suc m + n]"
    by (simp add: upt_conv_Cons del: upt_Suc)
  ultimately show ?case
    using al no(1) \<open>no = m\<close> by (simp del: upt_Suc)
qed

text \<open>A fresh memory node offers segments one after another, each starting where the
  one before ends, so segments offered together never overlap.\<close>

theorem fresh_segments_consecutive:
  assumes "mna_inv (make_allocator region memory_size)"
    and "n \<le> 8 * (memory_size div SEGMENT_SIZE div 8 + 1)"
  shows "\<exists>ps a. mna_allocate_n n (make_allocator region memory_size) = (ps, a) \<and> length ps = n \<and>
    (\<forall>i<n. unat (ps ! i) = unat region + MEMORY_PAGE_SIZE + i * SEGMENT_SIZE)"
proof -
  let ?a = "make_allocator region memory_size"
  obtain a where "mna_allocate_n n ?a = (map (seg_addr ?a) [0..<n], a)"
    using mna_allocate_n_from [OF assms(1), of 0 n] assms(2) by (auto simp: make_allocator_simps)
  moreover have "unat (seg_addr ?a i) = unat region + MEMORY_PAGE_SIZE + i * SEGMENT_SIZE" if "i < n" for i
    using unat_seg_addr(1) [OF assms(1), of i] that assms(2) by (simp add: make_allocator_simps)
  ultimately show ?thesis by simp
qed

lemma fresh_segments_consecutive_witness:
  "\<exists>ps a. mna_allocate_n 8 node3 = (ps, a) \<and> length ps = 8 \<and>
    (\<forall>i<8. unat (ps ! i) = unat (2 ^ 40 :: u64) + MEMORY_PAGE_SIZE + i * SEGMENT_SIZE)"
  unfolding node3_def
  by (rule fresh_segments_consecutive [OF node3_inv [unfolded node3_def]]) simp

text \<open>C37: the bitmap's spare bits are real slots: after as many requests as the region has
  segments, the next request is still answered with a segment, and that segment ends beyond
  the region.\<close>

theorem segment_beyond_region:
  assumes "mna_inv (make_allocator region memory_size)"
  shows "\<exists>ps a. mna_allocate_n (memory_size div SEGMENT_SIZE) (make_allocator region memory_size) = (ps, a) \<and>
    fst (mna_allocate a) \<noteq> 0 \<and>
    unat region + memory_size < unat (fst (mna_allocate a)) + SEGMENT_SIZE"
proof -
  let ?a = "make_allocator region memory_size"
  define n where "n = memory_size div SEGMENT_SIZE"
  have n: "n < 8 * (n div 8 + 1)" by simp
  obtain a where a: "mna_allocate_n n ?a = (map (seg_addr ?a) [0..<n], a)" "mna_inv a"
    "bm_used (mna_bitmap a) = {..<n}" "mna_this a = region" "bm_cap (mna_bitmap a) = 8 * (n div 8 + 1)"
    using mna_allocate_n_from [OF assms, of 0 n] n by (auto simp: make_allocator_simps n_def)
  obtain p a' where al: "mna_allocate a = (p, a')" by (cases "mna_allocate a")
  obtain no where no: "p = seg_addr a no" "no < bm_cap (mna_bitmap a)" "no \<notin> {..<n}" "{..<no} \<subseteq> {..<n}"
    by (rule mna_allocate_some [OF a(2) al]) (use a(3,5) n in auto)
  then have "no = n" by simp
  then have p: "unat p = unat region + MEMORY_PAGE_SIZE + n * SEGMENT_SIZE"
    using unat_seg_addr(1) [OF a(2) no(2)] no(1) a(4) by simp
  have "memory_size < (n + 1) * SEGMENT_SIZE"
    unfolding n_def SEGMENT_SIZE_def by simp
  then show ?thesis
    using a(1) al p by (auto simp: n_def [symmetric] MEMORY_PAGE_SIZE_def algebra_simps)
qed

lemma segment_beyond_region_witness:
  "\<exists>ps a. mna_allocate_n (3 * SEGMENT_SIZE div SEGMENT_SIZE) node3 = (ps, a) \<and> fst (mna_allocate a) \<noteq> 0 \<and>
    unat (2 ^ 40 :: u64) + 3 * SEGMENT_SIZE < unat (fst (mna_allocate a)) + SEGMENT_SIZE"
  unfolding node3_def by (rule segment_beyond_region [OF node3_inv [unfolded node3_def]])

end
