(* ===== verification/PageAllocator.thy ===== *)
theory PageAllocator
  imports RemotePointer
begin

text \<open>
  The compute node's allocator of \<open>components/memory/compute_node/compute_node.hpp\<close> and
  \<open>.cpp\<close>: allocation classes, \<open>PageDescriptor\<close>, \<open>PageMirror\<close>, \<open>PageGroup\<close>,
  \<open>Segment\<close>, \<open>SegmentTracker\<close> and \<open>ComputeNodeAllocator\<close>.  A segment fetched from a
  memory node is cut into 4 KiB pages, a page into chunks of one class; each thread owns a
  group of eight pages.

  \<open>PageMirror\<close> objects are shared between a thread's group and the segment's \<open>mirrors\<close>
  table, so they live in a store indexed by their creation number.
\<close>

subsection \<open>Allocation classes\<close>

datatype alloc_class =
    Chunk16 | Chunk32 | Chunk64 | Chunk128 | Chunk256
  | Chunk512 | Chunk1024 | Chunk2048 | Chunk4096 | ChunkUnknown

datatype alloc_status = Ok | NoMemory | EmptyPage | EmptyPageGroup

text \<open>The enumerators' numbers index the size table, which has no entry for
  \<open>ChunkUnknown\<close>.\<close>

fun class_index :: "alloc_class \<Rightarrow> nat" where
  "class_index Chunk16 = 0"
| "class_index Chunk32 = 1"
| "class_index Chunk64 = 2"
| "class_index Chunk128 = 3"
| "class_index Chunk256 = 4"
| "class_index Chunk512 = 5"
| "class_index Chunk1024 = 6"
| "class_index Chunk2048 = 7"
| "class_index Chunk4096 = 8"
| "class_index ChunkUnknown = 9"

definition allocation_class_size_map :: "nat list" where
  "allocation_class_size_map = [16, 32, 64, 128, 256, 512, 1024, 2048, 4096]"

definition class_table :: "alloc_class list" where
  "class_table = [Chunk16, Chunk32, Chunk64, Chunk128, Chunk256, Chunk512, Chunk1024,
     Chunk2048, Chunk4096]"

text \<open>\<open>63 - __builtin_clzll(x)\<close> for positive \<open>x\<close>: the position of the highest bit.\<close>

fun high_bit :: "nat \<Rightarrow> nat" where
  "high_bit n = (if n \<le> 1 then 0 else Suc (high_bit (n div 2)))"

declare high_bit.simps [simp del]

definition get_class :: "nat \<Rightarrow> alloc_class res" where
  "get_class sz =
     (if sz = 0 \<or> 4096 < sz then Inl InvalidArgument
      else (let times = (sz - 1) div 16 + 1;
                ct = high_bit times;
                exp = ct + (if 2 ^ ct < times then 1 else 0)
            in rd class_table exp))"

definition class_size :: "alloc_class \<Rightarrow> nat res" where
  "class_size ac = rd allocation_class_size_map (class_index ac)"

subsection \<open>PageDescriptor and PageMirror\<close>

record page_desc =
  empty_slots :: byte_t
  allocation_class :: alloc_class
  synced :: nat
  pd_offset :: byte_t

record page_mirror =
  desc :: page_desc
  page_id :: nat
  page_base :: remote_ptr

definition desc_initialize :: "alloc_class \<Rightarrow> page_desc res" where
  "desc_initialize ac =
     res_bind (class_size ac) (\<lambda>size.
     Inr \<lparr>empty_slots = of_nat (MEMORY_PAGE_SIZE div size), allocation_class = ac,
          synced = 0, pd_offset = 0\<rparr>)"

definition desc_clear :: page_desc where
  "desc_clear = \<lparr>empty_slots = 0, allocation_class = ChunkUnknown, synced = 0, pd_offset = 0\<rparr>"

definition pm_allocate :: "page_mirror \<Rightarrow> (remote_ptr \<times> page_mirror) res" where
  "pm_allocate p =
     res_bind (class_size (allocation_class (desc p))) (\<lambda>size.
     Inr (offset_by (page_base p) (unat (pd_offset (desc p)) * size),
          p\<lparr>desc := (desc p)\<lparr>empty_slots := empty_slots (desc p) - 1,
                            pd_offset := pd_offset (desc p) + 1\<rparr>\<rparr>))"

definition pm_available :: "page_mirror \<Rightarrow> bool res" where
  "pm_available p =
     res_bind (class_size (allocation_class (desc p))) (\<lambda>size.
     (let total = MEMORY_PAGE_SIZE div size
      in Inr (\<not> (total \<le> unat (pd_offset (desc p))))))"

definition pm_free :: "remote_ptr \<Rightarrow> page_mirror \<Rightarrow> bool \<times> page_mirror" where
  "pm_free ptr p =
     (if page_base p \<noteq> page ptr then (False, p)
      else (let e = empty_slots (desc p) + 1
            in (e \<noteq> 0, p\<lparr>desc := (desc p)\<lparr>empty_slots := e\<rparr>\<rparr>)))"

subsection \<open>PageGroup\<close>

text \<open>A group is the list of its pages' numbers in the store.\<close>

fun pg_allocate :: "page_mirror list \<Rightarrow> nat list \<Rightarrow> alloc_class \<Rightarrow>
    (remote_ptr \<times> page_mirror list) res" where
  "pg_allocate store [] ac = Inr (0, store)"
| "pg_allocate store (i # is) ac =
     res_bind (rd store i) (\<lambda>p.
     res_bind (if allocation_class (desc p) = ac then pm_available p else Inr False) (\<lambda>fits.
       if fits then res_bind (pm_allocate p) (\<lambda>(r, p'). Inr (r, store[i := p']))
       else if allocation_class (desc p) = ChunkUnknown
         then res_bind (desc_initialize ac) (\<lambda>d.
              res_bind (pm_allocate (p\<lparr>desc := d\<rparr>)) (\<lambda>(r, p').
              Inr (r, store[i := p'])))
       else pg_allocate store is ac))"

fun pg_available_loop :: "page_mirror list \<Rightarrow> nat list \<Rightarrow> alloc_class \<Rightarrow> bool \<Rightarrow>
    alloc_status res" where
  "pg_available_loop store [] ac have_ac = Inr (if have_ac then EmptyPage else EmptyPageGroup)"
| "pg_available_loop store (i # is) ac have_ac =
     res_bind (rd store i) (\<lambda>p.
       if allocation_class (desc p) = ChunkUnknown then Inr Ok
       else if allocation_class (desc p) = ac
         then res_bind (pm_available p) (\<lambda>av.
              if av then Inr Ok else pg_available_loop store is ac True)
         else pg_available_loop store is ac have_ac)"

definition pg_available :: "page_mirror list \<Rightarrow> nat list \<Rightarrow> alloc_class \<Rightarrow> alloc_status res" where
  "pg_available store pages ac = pg_available_loop store pages ac False"

subsection \<open>Segment, SegmentTracker and ComputeNodeAllocator\<close>

text \<open>
  \<open>segments.insert\<close> keeps an existing entry; the new \<open>Segment\<close> is then destroyed while
  \<open>current\<close> points to it.  Segment objects therefore live in a store whose cells may be
  empty, and reading through a dangling \<open>current\<close> is a fault.
\<close>

record segment =
  seg :: remote_ptr
  base_addr :: remote_ptr
  seg_offset :: nat
  available_pages :: nat
  mirrors :: "remote_ptr \<rightharpoonup> nat"

record cn_allocator =
  pm_store :: "page_mirror list"
  seg_store :: "segment option list"
  current :: "nat option"
  segments :: "(remote_ptr \<times> nat) list"
  thread_info :: "nat \<rightharpoonup> nat list"

definition cn_allocator_init :: cn_allocator where
  "cn_allocator_init =
     \<lparr>pm_store = [], seg_store = [], current = None, segments = [], thread_info = Map.empty\<rparr>"

definition new_segment :: "remote_ptr \<Rightarrow> remote_ptr \<Rightarrow> segment" where
  "new_segment sg base =
     \<lparr>seg = sg, base_addr = base, seg_offset = 1,
      available_pages = SEGMENT_SIZE div MEMORY_PAGE_SIZE - 1, mirrors = Map.empty\<rparr>"

definition assign_new_seg :: "remote_ptr \<Rightarrow> remote_ptr \<Rightarrow> cn_allocator \<Rightarrow> cn_allocator" where
  "assign_new_seg sg base a =
     (let n = length (seg_store a)
      in if sg \<in> fst ` set (segments a)
         then a\<lparr>seg_store := seg_store a @ [None], current := Some n\<rparr>
         else a\<lparr>seg_store := seg_store a @ [Some (new_segment sg base)], current := Some n,
                segments := segments a @ [(sg, n)]\<rparr>)"

definition apply_for_memory :: "remote_ptr \<Rightarrow> remote_ptr \<Rightarrow> cn_allocator \<Rightarrow> cn_allocator" where
  "apply_for_memory sg base a = assign_new_seg sg base a"

definition deref_seg :: "cn_allocator \<Rightarrow> nat option \<Rightarrow> segment res" where
  "deref_seg a p =
     (case p of None \<Rightarrow> Inl NullDeref
      | Some n \<Rightarrow> (if n < length (seg_store a)
                   then (case seg_store a ! n of None \<Rightarrow> Inl NullDeref | Some s \<Rightarrow> Inr s)
                   else Inl NullDeref))"

definition tracker_available :: "cn_allocator \<Rightarrow> nat \<Rightarrow> bool res" where
  "tracker_available a request =
     (if current a = None then Inr False
      else res_bind (deref_seg a (current a)) (\<lambda>s. Inr (request \<le> available_pages s)))"

text \<open>Unsigned arithmetic of \<open>size_t\<close> and of the 40-bit \<open>page_id\<close>.\<close>

definition dec64 :: "nat \<Rightarrow> nat" where
  "dec64 n = (n + 2 ^ 64 - 1) mod 2 ^ 64"

definition offer_page :: "cn_allocator \<Rightarrow> (nat \<times> cn_allocator) res" where
  "offer_page a =
     res_bind (deref_seg a (current a)) (\<lambda>s.
     (let i = length (pm_store a);
          pg = offset_by (seg s) (seg_offset s * MEMORY_PAGE_SIZE);
          off = ptr_diff pg (base_addr s);
          ret = \<lparr>desc = desc_clear, page_id = dec64 (off div MEMORY_PAGE_SIZE) mod 2 ^ 40,
                 page_base = pg\<rparr>;
          s' = s\<lparr>mirrors := (if mirrors s pg = None then (mirrors s)(pg \<mapsto> i) else mirrors s),
                 available_pages := dec64 (available_pages s),
                 seg_offset := seg_offset s + 1\<rparr>
      in Inr (i, a\<lparr>pm_store := pm_store a @ [ret],
                   seg_store := (seg_store a)[the (current a) := Some s']\<rparr>)))"

fun offer_pages :: "nat \<Rightarrow> cn_allocator \<Rightarrow> (nat list \<times> cn_allocator) res" where
  "offer_pages 0 a = Inr ([], a)"
| "offer_pages (Suc n) a =
     res_bind (offer_page a) (\<lambda>(i, a').
     res_bind (offer_pages n a') (\<lambda>(is, a''). Inr (i # is, a'')))"

definition offer_page_group :: "cn_allocator \<Rightarrow> (nat list \<times> cn_allocator) res" where
  "offer_page_group a = offer_pages PAGEGROUP_NO a"

definition refill :: "nat \<Rightarrow> cn_allocator \<Rightarrow> (bool \<times> cn_allocator) res" where
  "refill tid a =
     res_bind (tracker_available a PAGEGROUP_NO) (\<lambda>ok.
     if \<not> ok then Inr (False, a)
     else res_bind (offer_page_group a) (\<lambda>(pages, a').
          Inr (True, a'\<lparr>thread_info := (thread_info a')(tid \<mapsto> pages)\<rparr>)))"

fun refill_pages :: "nat list \<Rightarrow> alloc_class \<Rightarrow> cn_allocator \<Rightarrow> (nat list \<times> cn_allocator) res" where
  "refill_pages [] ac a = Inr ([], a)"
| "refill_pages (i # is) ac a =
     res_bind (rd (pm_store a) i) (\<lambda>p.
     res_bind (if allocation_class (desc p) = ac
               then res_bind (pm_available p) (\<lambda>av. Inr (\<not> av)) else Inr False) (\<lambda>full.
     res_bind (if full
               then res_bind (offer_page a) (\<lambda>(j, a').
                    res_bind (desc_initialize ac) (\<lambda>d.
                    res_bind (rd (pm_store a') j) (\<lambda>q.
                    Inr (j, a'\<lparr>pm_store := (pm_store a')[j := q\<lparr>desc := d\<rparr>]\<rparr>))))
               else Inr (i, a)) (\<lambda>(j, a').
     res_bind (refill_pages is ac a') (\<lambda>(js, a''). Inr (j # js, a'')))))"

definition refill_single_page :: "nat \<Rightarrow> alloc_class \<Rightarrow> cn_allocator \<Rightarrow> (bool \<times> cn_allocator) res" where
  "refill_single_page tid ac a =
     res_bind (tracker_available a PAGEGROUP_NO) (\<lambda>ok.
     if \<not> ok then Inr (False, a)
     else (case thread_info a tid of
             None \<Rightarrow> Inl NullDeref
           | Some pages \<Rightarrow>
               res_bind (refill_pages pages ac a) (\<lambda>(pages', a').
               Inr (True, a'\<lparr>thread_info := (thread_info a')(tid \<mapsto> pages')\<rparr>))))"

text \<open>\<open>group->second->allocate(ac)\<close>, the last line of \<open>allocate\<close>.\<close>

definition group_allocate :: "nat \<Rightarrow> alloc_class \<Rightarrow> cn_allocator \<Rightarrow> (remote_ptr \<times> cn_allocator) res" where
  "group_allocate tid ac a =
     (case thread_info a tid of
        None \<Rightarrow> Inl NullDeref
      | Some pages \<Rightarrow>
          res_bind (pg_allocate (pm_store a) pages ac) (\<lambda>(r, store).
          Inr (r, a\<lparr>pm_store := store\<rparr>)))"

definition cna_allocate :: "nat \<Rightarrow> nat \<Rightarrow> cn_allocator \<Rightarrow> (remote_ptr \<times> cn_allocator) res" where
  "cna_allocate tid sz a =
     (if sz = 0 then Inl RuntimeError
      else if MEMORY_PAGE_SIZE < sz then Inl RuntimeError
      else res_bind (if thread_info a tid = None then refill tid a else Inr (True, a)) (\<lambda>(ok, a1).
        if \<not> ok then Inr (0, a1)
        else res_bind (get_class sz) (\<lambda>ac.
          (case thread_info a1 tid of
             None \<Rightarrow> Inl NullDeref
           | Some pages \<Rightarrow>
               res_bind (pg_available (pm_store a1) pages ac) (\<lambda>st.
               (case st of
                  Ok \<Rightarrow> group_allocate tid ac a1
                | EmptyPage \<Rightarrow>
                    res_bind (refill_single_page tid ac a1) (\<lambda>(ok, a2).
                    if \<not> ok then Inr (0, a2) else group_allocate tid ac a2)
                | EmptyPageGroup \<Rightarrow>
                    res_bind (refill tid a1) (\<lambda>(ok, a2).
                    if \<not> ok then Inr (0, a2) else group_allocate tid ac a2)
                | NoMemory \<Rightarrow> Inr (0, a1)))))))"

text \<open>\<open>free\<close> looks in the current segment first and then in every segment.\<close>

definition free_in :: "remote_ptr \<Rightarrow> remote_ptr \<Rightarrow> segment \<Rightarrow> cn_allocator \<Rightarrow> cn_allocator res" where
  "free_in pg ptr s a =
     (case mirrors s pg of
        None \<Rightarrow> Inr a
      | Some i \<Rightarrow> res_bind (rd (pm_store a) i) (\<lambda>p.
          Inr (a\<lparr>pm_store := (pm_store a)[i := snd (pm_free ptr p)]\<rparr>)))"

fun free_all :: "remote_ptr \<Rightarrow> (remote_ptr \<times> nat) list \<Rightarrow> cn_allocator \<Rightarrow> cn_allocator res" where
  "free_all pg [] a = Inr a"
| "free_all pg ((k, n) # ks) a =
     res_bind (deref_seg a (Some n)) (\<lambda>s.
     res_bind (free_in pg pg s a) (free_all pg ks))"

definition cna_free :: "remote_ptr \<Rightarrow> cn_allocator \<Rightarrow> cn_allocator res" where
  "cna_free chunk a =
     (let pg = page chunk
      in res_bind (deref_seg a (current a)) (\<lambda>s.
         res_bind (free_in pg chunk s a) (\<lambda>a'.
         free_all pg (segments a') a')))"

subsection \<open>Allocation classes fit the request\<close>

lemma high_bit_bounds: "0 < n \<Longrightarrow> 2 ^ high_bit n \<le> n \<and> n < 2 * 2 ^ high_bit n"
proof (induction n rule: high_bit.induct)
  case (1 n)
  show ?case
  proof (cases "n \<le> 1")
    case True
    with "1.prems" show ?thesis by (simp add: high_bit.simps [of n])
  next
    case False
    then have "2 ^ high_bit (n div 2) \<le> n div 2 \<and> n div 2 < 2 * 2 ^ high_bit (n div 2)"
      using "1.IH" by simp
    with False show ?thesis by (simp add: high_bit.simps [of n]) linarith
  qed
qed

lemma class_table_size:
  "k < 9 \<Longrightarrow> class_size (class_table ! k) = Inr (16 * 2 ^ k)"
proof -
  assume "k < 9"
  then have "k \<in> {0,1,2,3,4,5,6,7,8}" by auto
  then show ?thesis
    by (auto simp: class_size_def class_table_def allocation_class_size_map_def)
qed

lemma class_size_cases:
  assumes "class_size ac = Inr s"
  shows "\<exists>k<9. ac = class_table ! k \<and> s = 16 * 2 ^ k"
proof -
  have "class_index ac < 9" 
    using assms by (auto simp: class_size_def rd_eq_Inr allocation_class_size_map_def)
  moreover from this have "class_table ! class_index ac = ac"
    by (cases ac) (auto simp: class_table_def)
  ultimately show ?thesis using class_table_size [of "class_index ac"] assms by auto
qed

lemma get_class_table:
  assumes "0 < sz" "sz \<le> 4096"
  shows "\<exists>k<9. get_class sz = Inr (class_table ! k) \<and> sz \<le> 16 * 2 ^ k \<and> (k = 0 \<or> 16 * 2 ^ k < 2 * sz)"
proof -
  define times where "times = (sz - 1) div 16 + 1"
  define ct where "ct = high_bit times"
  define k where "k = ct + (if 2 ^ ct < times then 1 else 0)"
  have t: "0 < times" "times \<le> 256" "sz \<le> 16 * times" "16 * (times - 1) < sz"
    using assms by (auto simp: times_def) 
  have ct: "2 ^ ct \<le> times" "times < 2 * 2 ^ ct"
    using high_bit_bounds [OF t(1)] by (auto simp: ct_def)
  have "ct \<le> 8" 
  proof (rule ccontr)
    assume "\<not> ct \<le> 8"
    then have "(2::nat) ^ 9 \<le> 2 ^ ct" by (intro power_increasing) auto
    with ct(1) t(2) show False by simp
  qed
  moreover have "ct < 8" if "2 ^ ct < times"
  proof (rule ccontr)
    assume "\<not> ct < 8"
    with \<open>ct \<le> 8\<close> have "ct = 8" by simp
    with that t(2) show False by simp
  qed
  ultimately have k: "k < 9" by (auto simp: k_def)
  have up: "times \<le> 2 ^ k" using ct by (auto simp: k_def)
  have lo: "k = 0 \<or> 2 ^ k < 2 * times"
    using ct by (auto simp: k_def)
  have lo': "k = 0 \<or> 16 * 2 ^ k < 2 * sz"
  proof (cases "k = 0")
    case False
    then obtain j where j: "k = Suc j" by (cases k) auto
    with lo have "2 ^ j \<le> times - 1" by simp
    then have "16 * 2 ^ j \<le> 16 * (times - 1)" by simp
    also have "\<dots> < sz" by (rule t(4))
    finally show ?thesis by (simp add: j)
  qed simp
  have "get_class sz = rd class_table k"
    unfolding get_class_def Let_def times_def [symmetric] ct_def [symmetric] k_def [symmetric]
    using assms by simp
  then have "get_class sz = Inr (class_table ! k)"
    using k by (simp add: class_table_def)
  moreover have "sz \<le> 16 * 2 ^ k" using t(3) up by linarith
  ultimately show ?thesis using k lo' by blast
qed

subsection \<open>Filling one page\<close>

text \<open>One page served until \<open>available\<close> refuses, at most \<open>n\<close> chunks.\<close>

fun pm_fill :: "nat \<Rightarrow> page_mirror \<Rightarrow> (remote_ptr list \<times> page_mirror) res" where
  "pm_fill 0 p = Inr ([], p)"
| "pm_fill (Suc n) p =
     res_bind (pm_available p) (\<lambda>av.
     if \<not> av then Inr ([], p)
     else res_bind (pm_allocate p) (\<lambda>(r, p').
          res_bind (pm_fill n p') (\<lambda>(rs, p''). Inr (r # rs, p''))))"

lemma pm_allocate_simps:
  assumes "class_size (allocation_class (desc p)) = Inr s"
  shows "pm_allocate p = Inr (offset_by (page_base p) (unat (pd_offset (desc p)) * s),
      p\<lparr>desc := (desc p)\<lparr>empty_slots := empty_slots (desc p) - 1, pd_offset := pd_offset (desc p) + 1\<rparr>\<rparr>)"
    and "pm_available p = Inr (unat (pd_offset (desc p)) < MEMORY_PAGE_SIZE div s)"
  using assms by (auto simp: pm_allocate_def pm_available_def Let_def)

lemma unat_Suc8: "unat (x :: byte_t) < 255 \<Longrightarrow> unat (x + 1) = Suc (unat x)"
  by (simp add: unat_word_ariths)

lemma pm_fill_from:
  assumes "class_size (allocation_class (desc p)) = Inr s" "32 \<le> s"
    and "unat (pd_offset (desc p)) = k" "k + n \<le> MEMORY_PAGE_SIZE div s"
  shows "\<exists>p'. pm_fill n p = Inr (map (\<lambda>i. offset_by (page_base p) (i * s)) [k..<k + n], p') \<and>
    unat (pd_offset (desc p')) = k + n \<and> page_base p' = page_base p \<and> 
    allocation_class (desc p') = allocation_class (desc p)"
  using assms
proof (induction n arbitrary: p k)
  case (Suc n)
  have tot: "MEMORY_PAGE_SIZE div s \<le> 128"
    using Suc.prems(2) div_le_mono2 [of 32 s 4096] by (simp add: MEMORY_PAGE_SIZE_def)
  let ?p = "p\<lparr>desc := (desc p)\<lparr>empty_slots := empty_slots (desc p) - 1, pd_offset := pd_offset (desc p) + 1\<rparr>\<rparr>"
  have "unat (pd_offset (desc ?p)) = Suc k"
    using Suc.prems(3,4) tot by (simp add: unat_Suc8)
  from Suc.IH [OF _ Suc.prems(2) this] Suc.prems(1,4) obtain p' where
    p': "pm_fill n ?p = Inr (map (\<lambda>i. offset_by (page_base p) (i * s)) [Suc k..<Suc k + n], p')"
    "unat (pd_offset (desc p')) = Suc k + n" "page_base p' = page_base p"
    "allocation_class (desc p') = allocation_class (desc p)" by auto
  have "[k..<k + Suc n] = k # [Suc k..<Suc k + n]" by (simp add: upt_conv_Cons del: upt_Suc)
  with p' Suc.prems pm_allocate_simps [OF Suc.prems(1)] show ?case 
    by (simp del: upt_Suc)
qed simp

lemma pm_fill_16:
  assumes "allocation_class (desc p) = Chunk16"
  shows "\<exists>p'. pm_fill n p = Inr (map (\<lambda>i. offset_by (page_base p) ((unat (pd_offset (desc p)) + i) mod 256 * 16)) [0..<n], p')"
  using assms
proof (induction n arbitrary: p)
  case (Suc n)
  let ?p = "p\<lparr>desc := (desc p)\<lparr>empty_slots := empty_slots (desc p) - 1, pd_offset := pd_offset (desc p) + 1\<rparr>\<rparr>"
  have s: "class_size (allocation_class (desc p)) = Inr 16"
    using Suc.prems by (simp add: class_size_def allocation_class_size_map_def)
  have lt: "unat (pd_offset (desc p)) < 256" using unsigned_less [of "pd_offset (desc p)"] by simp
  from Suc.IH [of ?p] Suc.prems obtain p' where
    p': "pm_fill n ?p = Inr (map (\<lambda>i. offset_by (page_base p) ((unat (pd_offset (desc p) + 1) + i) mod 256 * 16)) [0..<n], p')" by auto
  have "(unat (pd_offset (desc p) + 1) + i) mod 256 = (unat (pd_offset (desc p)) + Suc i) mod 256" for i
    by (simp add: unat_word_ariths mod_simps)
  with p' lt pm_allocate_simps [OF s] show ?case
    by (simp add: MEMORY_PAGE_SIZE_def upt_conv_Cons map_Suc_upt [symmetric] del: upt_Suc)
qed simp


end
