(* ===== verification/PageInvariants.thy ===== *)
theory PageInvariants
  imports PageAllocator
begin

text \<open>
  The invariant of \<open>ComputeNodeAllocator\<close> and its preservation.  \<open>store_ok\<close> says that segments do
  not overlap, that every page lies inside its segment, that pages do not overlap and that a
  page's offset stays within its class; \<open>groups_ok\<close> that each thread has eight pages of its own.
  \<open>cna_used\<close> is the set of bytes handed out.  One lemma per operation shows what it keeps and
  what it adds; \<open>cna_allocate_ok\<close> composes them along \<open>allocate\<close>'s branches.
\<close>

subsection \<open>The invariant\<close>

lemma UN_list_update:
  assumes "i < length xs" "f (xs ! i) \<subseteq> f x"
  shows "(\<Union>y\<in>set (xs[i := x]). f y) = (\<Union>y\<in>set xs. f y) \<union> f x"
proof -
  have "xs = take i xs @ xs ! i # drop (Suc i) xs" using assms(1) by (rule id_take_nth_drop)
  then have "set xs = set (take i xs) \<union> {xs ! i} \<union> set (drop (Suc i) xs)"
    by (metis Un_insert_right list.simps(15) set_append sup_bot.right_neutral Un_insert_left)
  with assms show ?thesis by (auto simp: upd_conv_take_nth_drop)
qed

definition chunk_size :: "page_mirror \<Rightarrow> nat" where
  "chunk_size p = (case class_size (allocation_class (desc p)) of Inl _ \<Rightarrow> 0 | Inr s \<Rightarrow> s)"

definition page_ok :: "page_mirror \<Rightarrow> bool" where
  "page_ok p \<longleftrightarrow>
     (allocation_class (desc p) = ChunkUnknown \<and> pd_offset (desc p) = 0) \<or>
     (\<exists>s. class_size (allocation_class (desc p)) = Inr s \<and> 32 \<le> s \<and>
        unat (pd_offset (desc p)) \<le> MEMORY_PAGE_SIZE div s)"

definition page_used :: "page_mirror \<Rightarrow> nat set" where
  "page_used p = {unat (page_base p) ..< unat (page_base p) + unat (pd_offset (desc p)) * chunk_size p}"

definition apart :: "nat \<Rightarrow> remote_ptr \<Rightarrow> remote_ptr \<Rightarrow> bool" where
  "apart n p q \<longleftrightarrow> unat p + n \<le> unat q \<or> unat q + n \<le> unat p"

lemma apart_sym: "apart n p q \<Longrightarrow> apart n q p"
  by (auto simp: apart_def)

definition seg_ok :: "segment \<Rightarrow> bool" where
  "seg_ok s \<longleftrightarrow> unat (seg s) + SEGMENT_SIZE \<le> 2 ^ 64 \<and> 1 \<le> seg_offset s \<and>
     seg_offset s + available_pages s = SEGMENT_SIZE div MEMORY_PAGE_SIZE"

definition segs_ok :: "segment option list \<Rightarrow> bool" where
  "segs_ok ss \<longleftrightarrow> (\<forall>x\<in>set ss. \<exists>s. x = Some s \<and> seg_ok s) \<and>
     sorted_wrt (apart SEGMENT_SIZE) (map (seg \<circ> the) ss)"

definition page_in :: "segment option list \<Rightarrow> page_mirror \<Rightarrow> bool" where
  "page_in ss p \<longleftrightarrow> (\<exists>n<length ss. \<exists>s k. ss ! n = Some s \<and> 1 \<le> k \<and> k < seg_offset s \<and>
     unat (page_base p) = unat (seg s) + k * MEMORY_PAGE_SIZE)"

definition store_ok :: "cn_allocator \<Rightarrow> bool" where
  "store_ok a \<longleftrightarrow> segs_ok (seg_store a) \<and>
     (\<forall>n. current a = Some n \<longrightarrow> n < length (seg_store a)) \<and>
     list_all page_ok (pm_store a) \<and> list_all (page_in (seg_store a)) (pm_store a) \<and>
     sorted_wrt (apart MEMORY_PAGE_SIZE) (map page_base (pm_store a))"

definition groups_ok :: "cn_allocator \<Rightarrow> bool" where
  "groups_ok a \<longleftrightarrow>
     (\<forall>t pages. thread_info a t = Some pages \<longrightarrow>
        length pages = PAGEGROUP_NO \<and> distinct pages \<and> set pages \<subseteq> {..<length (pm_store a)}) \<and>
     (\<forall>t u ps qs. thread_info a t = Some ps \<longrightarrow> thread_info a u = Some qs \<longrightarrow> t \<noteq> u \<longrightarrow>
        set ps \<inter> set qs = {})"

definition cna_inv :: "cn_allocator \<Rightarrow> bool" where
  "cna_inv a \<longleftrightarrow> store_ok a \<and> groups_ok a"

definition cna_used :: "cn_allocator \<Rightarrow> nat set" where
  "cna_used a = (\<Union>p\<in>set (pm_store a). page_used p)"

lemma page_ok_cleared: "page_ok \<lparr>desc = desc_clear, page_id = x, page_base = b\<rparr>"
  by (simp add: page_ok_def desc_clear_def)

lemma page_used_cleared: "page_used \<lparr>desc = desc_clear, page_id = x, page_base = b\<rparr> = {}"
  by (simp add: page_used_def desc_clear_def)

lemma nsegs: "SEGMENT_SIZE div MEMORY_PAGE_SIZE = 262144" "SEGMENT_SIZE = 1073741824" "MEMORY_PAGE_SIZE = 4096"
  by (simp_all add: SEGMENT_SIZE_def MEMORY_PAGE_SIZE_def)

lemma dec64_pos: "0 < n \<Longrightarrow> n < 2 ^ 64 \<Longrightarrow> dec64 n = n - 1"
proof -
  assume n: "0 < n" "n < 2 ^ 64"
  then have "n + 2 ^ 64 - 1 = (n - 1) + 2 ^ 64" by simp
  with n show ?thesis by (simp only: dec64_def mod_add_self2) simp
qed

lemma deref_current:
  assumes "store_ok a" "current a = Some n"
  obtains s where "deref_seg a (current a) = Inr s" "seg_store a ! n = Some s" "n < length (seg_store a)" "seg_ok s"
proof -
  have n: "n < length (seg_store a)" using assms by (simp add: store_ok_def)
  then have "seg_store a ! n \<in> set (seg_store a)" by simp
  moreover have "\<forall>x\<in>set (seg_store a). \<exists>s. x = Some s \<and> seg_ok s"
    using assms(1) by (simp add: store_ok_def segs_ok_def)
  ultimately obtain s where "seg_store a ! n = Some s" "seg_ok s" by blast
  with n assms(2) show ?thesis by (intro that) (auto simp: deref_seg_def)
qed

lemma sorted_wrt_nth_sym:
  assumes "sorted_wrt P xs" "\<And>x y. P x y \<Longrightarrow> P y x" "i < length xs" "j < length xs" "i \<noteq> j"
  shows "P (xs ! i) (xs ! j)"
  using assms by (metis nat_neq_iff sorted_wrt_nth_less)

lemma offer_page_ok:
  assumes ok: "store_ok a" and cur: "current a = Some n" and s: "seg_store a ! n = Some s"
    and av: "0 < available_pages s"
  obtains p a' where "offer_page a = Inr (length (pm_store a), a')"
    "pm_store a' = pm_store a @ [p]" "allocation_class (desc p) = ChunkUnknown" "pd_offset (desc p) = 0"
    "store_ok a'" "current a' = Some n" "\<exists>s'. seg_store a' ! n = Some s' \<and> available_pages s' = available_pages s - 1"
    "thread_info a' = thread_info a" "cna_used a' = cna_used a"
proof -
  from deref_current [OF ok cur] s have d: "deref_seg a (current a) = Inr s"
    and n: "n < length (seg_store a)" and sok: "seg_ok s" by force+
  define pg where "pg = offset_by (seg s) (seg_offset s * MEMORY_PAGE_SIZE)"
  define p where "p = \<lparr>desc = desc_clear, page_id = dec64 (ptr_diff pg (base_addr s) div MEMORY_PAGE_SIZE) mod 2 ^ 40,
                 page_base = pg\<rparr>"
  define s' where "s' = s\<lparr>mirrors := (if mirrors s pg = None then (mirrors s)(pg \<mapsto> length (pm_store a)) else mirrors s),
                 available_pages := dec64 (available_pages s), seg_offset := seg_offset s + 1\<rparr>"
  define a' where "a' = a\<lparr>pm_store := pm_store a @ [p], seg_store := (seg_store a)[n := Some s']\<rparr>"
  have off: "offer_page a = Inr (length (pm_store a), a')"
    using d cur by (simp add: offer_page_def Let_def a'_def s'_def p_def pg_def)
  have avp: "dec64 (available_pages s) = available_pages s - 1"
    using av sok by (intro dec64_pos) (simp_all add: seg_ok_def nsegs)
  have lt: "seg_offset s < 262144" using av sok by (simp add: seg_ok_def nsegs)
  have pg: "unat pg = unat (seg s) + seg_offset s * MEMORY_PAGE_SIZE"
    unfolding pg_def offset_by_def
    by (rule unat_add_of_nat) (use lt sok in \<open>simp add: seg_ok_def nsegs\<close>)
  have sok': "seg_ok s'" "seg s' = seg s"
    using sok av avp by (auto simp: seg_ok_def s'_def)
  have map_seg: "map (seg \<circ> the) ((seg_store a)[n := Some s']) = map (seg \<circ> the) (seg_store a)"
    using n s sok' by (auto simp: map_update list_update_same_conv)
  have segs: "segs_ok (seg_store a')"
    using ok sok' unfolding store_ok_def segs_ok_def a'_def
    by (auto simp: map_seg dest!: set_update_subset_insert [THEN subsetD])
  have old: "page_in (seg_store a') q" if q: "page_in (seg_store a) q" for q
  proof -
    from q obtain m sm k where m: "m < length (seg_store a)" "seg_store a ! m = Some sm" "1 \<le> k" "k < seg_offset sm"
      "unat (page_base q) = unat (seg sm) + k * MEMORY_PAGE_SIZE" by (auto simp: page_in_def)
    show ?thesis
    proof (cases "m = n")
      case True
      with m s n have "k < seg_offset s'" by (simp add: s'_def)
      with True m s n sok' show ?thesis
        unfolding page_in_def by (intro exI [of _ n] conjI exI [of _ s'] exI [of _ k]) (auto simp: a'_def)
    next
      case False
      with m show ?thesis
        unfolding page_in_def by (intro exI [of _ m] conjI exI [of _ sm] exI [of _ k]) (auto simp: a'_def)
    qed
  qed
  have new: "page_in (seg_store a') p"
    unfolding page_in_def
    by (intro exI [of _ n] conjI exI [of _ s'] exI [of _ "seg_offset s"])
       (use n sok sok' pg in \<open>auto simp: a'_def p_def seg_ok_def s'_def\<close>)
  have ap: "apart MEMORY_PAGE_SIZE (page_base q) pg" if q: "page_in (seg_store a) q" for q
  proof -
    from q obtain m sm k where m: "m < length (seg_store a)" "seg_store a ! m = Some sm" "1 \<le> k" "k < seg_offset sm"
      "unat (page_base q) = unat (seg sm) + k * MEMORY_PAGE_SIZE" by (auto simp: page_in_def)
    have "Some sm \<in> set (seg_store a)" using m(1,2) by (metis nth_mem)
    with ok have smok: "seg_ok sm" by (auto simp: store_ok_def segs_ok_def)
    show ?thesis
    proof (cases "m = n")
      case True
      with m s have "Suc k \<le> seg_offset s" by simp
      then have "Suc k * 4096 \<le> seg_offset s * 4096" by (rule mult_le_mono1)
      with True m s pg show ?thesis by (simp add: apart_def nsegs)
    next
      case False
      have "sorted_wrt (apart SEGMENT_SIZE) (map (seg \<circ> the) (seg_store a))"
        using ok by (simp add: store_ok_def segs_ok_def)
      from sorted_wrt_nth_sym [OF this apart_sym, of m n] False m n s
      have "apart SEGMENT_SIZE (seg sm) (seg s)" by simp
      with m(4,5) pg lt smok show ?thesis by (auto simp: apart_def seg_ok_def nsegs)
    qed
  qed
  have "store_ok a'"
    unfolding store_ok_def
  proof (intro conjI)
    show "segs_ok (seg_store a')" by (rule segs)
    show "\<forall>n. current a' = Some n \<longrightarrow> n < length (seg_store a')"
      using ok by (simp add: a'_def store_ok_def)
    show "list_all page_ok (pm_store a')"
      using ok by (simp add: a'_def store_ok_def p_def page_ok_cleared)
    show "list_all (page_in (seg_store a')) (pm_store a')"
      using ok old new by (auto simp: store_ok_def a'_def list_all_iff)
    show "sorted_wrt (apart MEMORY_PAGE_SIZE) (map page_base (pm_store a'))"
      using ok ap by (auto simp: store_ok_def a'_def p_def sorted_wrt_append list_all_iff)
  qed
  moreover have "cna_used a' = cna_used a"
    by (simp add: cna_used_def a'_def p_def page_used_cleared)
  ultimately show ?thesis
    using off avp n s by (intro that [of a' p]) (auto simp: a'_def p_def desc_clear_def cur s'_def)
qed

lemma offer_pages_ok:
  "store_ok a \<Longrightarrow> current a = Some n \<Longrightarrow> seg_store a ! n = Some s \<Longrightarrow> k \<le> available_pages s \<Longrightarrow>
   \<exists>a' ps. offer_pages k a = Inr ([length (pm_store a)..<length (pm_store a) + k], a') \<and>
     pm_store a' = pm_store a @ ps \<and> length ps = k \<and>
     list_all (\<lambda>p. allocation_class (desc p) = ChunkUnknown) ps \<and>
     store_ok a' \<and> thread_info a' = thread_info a \<and> cna_used a' = cna_used a"
proof (induction k arbitrary: a s)
  case (Suc k)
  obtain p a1 s1 where a1: "offer_page a = Inr (length (pm_store a), a1)"
    "pm_store a1 = pm_store a @ [p]" "allocation_class (desc p) = ChunkUnknown"
    "store_ok a1" "current a1 = Some n" "seg_store a1 ! n = Some s1" "available_pages s1 = available_pages s - 1"
    "thread_info a1 = thread_info a" "cna_used a1 = cna_used a"
    using offer_page_ok [OF Suc.prems(1-3)] Suc.prems(4) by (metis Suc_le_eq less_imp_le_nat not_less_zero le_zero_eq neq0_conv)
  have "k \<le> available_pages s1" using a1(7) Suc.prems(4) by simp
  from Suc.IH [OF a1(4-6) this] obtain a' ps where
    "offer_pages k a1 = Inr ([length (pm_store a1)..<length (pm_store a1) + k], a')"
    "pm_store a' = pm_store a1 @ ps" "length ps = k"
    "list_all (\<lambda>p. allocation_class (desc p) = ChunkUnknown) ps" "store_ok a'"
    "thread_info a' = thread_info a1" "cna_used a' = cna_used a1" by blast
  moreover have "[length (pm_store a)..<length (pm_store a) + Suc k] =
      length (pm_store a) # [Suc (length (pm_store a))..<Suc (length (pm_store a)) + k]"
    by (simp add: upt_conv_Cons del: upt_Suc)
  ultimately show ?case
    using a1 by (intro exI [of _ a'] exI [of _ "p # ps"]) (simp del: upt_Suc)
qed simp

text \<open>Writing a served page back into the store.\<close>

definition page_step :: "page_mirror \<Rightarrow> page_mirror \<Rightarrow> bool" where
  "page_step p p' \<longleftrightarrow> page_base p' = page_base p \<and> page_ok p' \<and> page_used p \<subseteq> page_used p'"

lemma page_in_base: "page_base p' = page_base p \<Longrightarrow> page_in ss p' = page_in ss p"
  by (simp add: page_in_def)

lemma store_ok_update:
  assumes ok: "store_ok a" and i: "i < length (pm_store a)" and st: "page_step (pm_store a ! i) p'"
  shows "store_ok (a\<lparr>pm_store := (pm_store a)[i := p']\<rparr>)"
    and "cna_used (a\<lparr>pm_store := (pm_store a)[i := p']\<rparr>) = cna_used a \<union> page_used p'"
proof -
  have b: "map page_base ((pm_store a)[i := p']) = map page_base (pm_store a)"
    using i st by (simp add: map_update page_step_def list_update_same_conv)
  have pin: "page_in (seg_store a) p'"
    using ok i st page_in_base [of p' "pm_store a ! i"] by (auto simp: store_ok_def list_all_length page_step_def)
  show "store_ok (a\<lparr>pm_store := (pm_store a)[i := p']\<rparr>)"
    using ok st b pin unfolding store_ok_def
    by (auto simp: list_all_iff page_step_def dest!: set_update_subset_insert [THEN subsetD])
  have "page_used (pm_store a ! i) \<subseteq> page_used p'" using st by (simp add: page_step_def)
  then show "cna_used (a\<lparr>pm_store := (pm_store a)[i := p']\<rparr>) = cna_used a \<union> page_used p'"
    using i by (simp add: cna_used_def UN_list_update)
qed

definition usable :: "alloc_class \<Rightarrow> page_mirror \<Rightarrow> bool" where
  "usable ac p \<longleftrightarrow> allocation_class (desc p) = ChunkUnknown \<or>
     (allocation_class (desc p) = ac \<and> unat (pd_offset (desc p)) < MEMORY_PAGE_SIZE div chunk_size p)"

lemma class_size_Unknown [simp]: "class_size ChunkUnknown = Inl OutOfBounds"
  by (simp add: class_size_def allocation_class_size_map_def rd_def)

lemma class_size_bounds:
  "class_size ac = Inr s \<Longrightarrow> 16 \<le> s \<and> s \<le> MEMORY_PAGE_SIZE \<and> 0 < MEMORY_PAGE_SIZE div s"
  by (cases ac) (auto simp: class_size_def allocation_class_size_map_def nsegs rd_def)

lemma pm_available_eq:
  "class_size ac = Inr s \<Longrightarrow> allocation_class (desc p) = ac \<Longrightarrow> pm_available p = Inr (usable ac p)"
  by (auto simp: pm_allocate_simps usable_def chunk_size_def)

lemma page_ok_bounds:
  assumes "page_ok p"
  shows "unat (pd_offset (desc p)) * chunk_size p \<le> MEMORY_PAGE_SIZE"
proof -
  have "unat (pd_offset (desc p)) * s \<le> MEMORY_PAGE_SIZE" if "unat (pd_offset (desc p)) \<le> MEMORY_PAGE_SIZE div s" for s
    using mult_le_mono1 [OF that, of s] div_times_less_eq_dividend [of MEMORY_PAGE_SIZE s] by linarith
  with assms show ?thesis by (auto simp: page_ok_def chunk_size_def)
qed

lemma page_used_within:
  "page_ok p \<Longrightarrow> page_used p \<subseteq> {unat (page_base p) ..< unat (page_base p) + MEMORY_PAGE_SIZE}"
  using page_ok_bounds [of p] by (auto simp: page_used_def)

lemma desc_initialize_ok:
  "class_size ac = Inr s \<Longrightarrow> \<exists>d. desc_initialize ac = Inr d \<and> allocation_class d = ac \<and> pd_offset d = 0"
  by (simp add: desc_initialize_def)

text \<open>Serving one chunk of a usable page.\<close>

lemma pm_allocate_serves:
  assumes c: "class_size (allocation_class (desc p)) = Inr s" "32 \<le> s"
    and off: "unat (pd_offset (desc p)) < MEMORY_PAGE_SIZE div s"
    and base: "unat (page_base p) + MEMORY_PAGE_SIZE \<le> 2 ^ 64"
  obtains r p' where "pm_allocate p = Inr (r, p')" "page_base p' = page_base p" "page_ok p'"
    "unat r = unat (page_base p) + unat (pd_offset (desc p)) * s"
    "unat r + s \<le> unat (page_base p) + MEMORY_PAGE_SIZE"
    "page_used p' = page_used p \<union> {unat r..<unat r + s}" "{unat r..<unat r + s} \<inter> page_used p = {}"
proof -
  let ?k = "unat (pd_offset (desc p))"
  let ?p' = "p\<lparr>desc := (desc p)\<lparr>empty_slots := empty_slots (desc p) - 1, pd_offset := pd_offset (desc p) + 1\<rparr>\<rparr>"
  let ?r = "offset_by (page_base p) (?k * s)"
  have tot: "MEMORY_PAGE_SIZE div s \<le> 128"
    using c(2) div_le_mono2 [of 32 s 4096] by (simp add: MEMORY_PAGE_SIZE_def)
  have k1: "unat (pd_offset (desc p) + 1) = Suc ?k"
    using off tot by (intro unat_Suc8) simp
  have ok': "page_ok ?p'" using c off k1 by (auto simp: page_ok_def)
  have "Suc ?k * s \<le> MEMORY_PAGE_SIZE"
    using page_ok_bounds [OF ok'] c(1) k1 by (simp add: chunk_size_def)
  then have fits: "?k * s + s \<le> MEMORY_PAGE_SIZE" by (simp add: add.commute)
  have r: "unat ?r = unat (page_base p) + ?k * s"
    unfolding offset_by_def by (rule unat_add_of_nat) (use fits base c in linarith)
  show ?thesis
    by (rule that [of ?r ?p'])
       (use pm_allocate_simps [OF c(1)] ok' r fits c k1 in \<open>auto simp: page_used_def chunk_size_def\<close>)
qed

lemma page_in_bounds:
  assumes "store_ok a" "page_in (seg_store a) p"
  shows "MEMORY_PAGE_SIZE \<le> unat (page_base p)" "unat (page_base p) + MEMORY_PAGE_SIZE \<le> 2 ^ 64"
proof -
  from assms(2) obtain n s k where m: "n < length (seg_store a)" "seg_store a ! n = Some s" "1 \<le> k"
    "k < seg_offset s" "unat (page_base p) = unat (seg s) + k * MEMORY_PAGE_SIZE" by (auto simp: page_in_def)
  then have "Some s \<in> set (seg_store a)" by (metis nth_mem)
  with assms(1) have "seg_ok s" by (auto simp: store_ok_def segs_ok_def)
  with m show "MEMORY_PAGE_SIZE \<le> unat (page_base p)" "unat (page_base p) + MEMORY_PAGE_SIZE \<le> 2 ^ 64"
    by (auto simp: seg_ok_def nsegs)
qed

lemma store_serve:
  assumes ok: "store_ok a" and i: "i < length (pm_store a)"
    and p: "page_base p = page_base (pm_store a ! i)" "page_used p = page_used (pm_store a ! i)"
    and c: "class_size (allocation_class (desc p)) = Inr s" "32 \<le> s"
    and off: "unat (pd_offset (desc p)) < MEMORY_PAGE_SIZE div s"
  obtains r p' where "pm_allocate p = Inr (r, p')" "r \<noteq> 0" "{unat r..<unat r + s} \<inter> cna_used a = {}"
    "store_ok (a\<lparr>pm_store := (pm_store a)[i := p']\<rparr>)"
    "cna_used (a\<lparr>pm_store := (pm_store a)[i := p']\<rparr>) = cna_used a \<union> {unat r..<unat r + s}"
proof -
  let ?q = "pm_store a ! i"
  have qin: "page_in (seg_store a) ?q" using ok i by (simp add: store_ok_def list_all_length)
  note b = page_in_bounds [OF ok qin]
  obtain r p' where r: "pm_allocate p = Inr (r, p')" "page_base p' = page_base p" "page_ok p'"
    "unat r = unat (page_base p) + unat (pd_offset (desc p)) * s"
    "unat r + s \<le> unat (page_base p) + MEMORY_PAGE_SIZE"
    "page_used p' = page_used p \<union> {unat r..<unat r + s}" "{unat r..<unat r + s} \<inter> page_used p = {}"
    using pm_allocate_serves [OF c off] b(2) p(1) by metis
  have st: "page_step ?q p'" using r p by (auto simp: page_step_def)
  have disj: "{unat r..<unat r + s} \<inter> page_used x = {}" if x: "x \<in> set (pm_store a)" for x
  proof -
    obtain j where j: "j < length (pm_store a)" "x = pm_store a ! j" using x by (auto simp: in_set_conv_nth)
    show ?thesis
    proof (cases "j = i")
      case True with j r p show ?thesis by simp
    next
      case False
      have "sorted_wrt (apart MEMORY_PAGE_SIZE) (map page_base (pm_store a))" using ok by (simp add: store_ok_def)
      from sorted_wrt_nth_sym [OF this apart_sym, of j i] False i j
      have "apart MEMORY_PAGE_SIZE (page_base x) (page_base ?q)" by simp
      moreover have "page_ok x" using ok x by (simp add: store_ok_def list_all_iff)
      ultimately show ?thesis
        using page_used_within [of x] r(4,5) p(1) by (fastforce simp: apart_def)
    qed
  qed
  have "page_used ?q \<subseteq> cna_used a"
    using i nth_mem [OF i] unfolding cna_used_def by blast
  with store_ok_update [OF ok i st] r(6) p(2) have
    "store_ok (a\<lparr>pm_store := (pm_store a)[i := p']\<rparr>)"
    "cna_used (a\<lparr>pm_store := (pm_store a)[i := p']\<rparr>) = cna_used a \<union> {unat r..<unat r + s}" by auto
  moreover have "r \<noteq> 0" using r(4) b(1) p(1) by (auto simp: MEMORY_PAGE_SIZE_def)
  moreover have "{unat r..<unat r + s} \<inter> cna_used a = {}" using disj by (auto simp: cna_used_def)
  ultimately show ?thesis using r(1) that by blast
qed

lemma pg_available_loop_eq:
  assumes "class_size ac = Inr s" "set is \<subseteq> {..<length store}"
  shows "pg_available_loop store is ac b = Inr
     (if \<exists>i\<in>set is. usable ac (store ! i) then Ok
      else if b \<or> (\<exists>i\<in>set is. allocation_class (desc (store ! i)) = ac) then EmptyPage
      else EmptyPageGroup)"
  using assms(2)
proof (induction "is" arbitrary: b)
  case (Cons i "is")
  then show ?case
    using pm_available_eq [OF assms(1)] by (auto simp: usable_def)
qed simp

lemma pg_available_eq:
  assumes "class_size ac = Inr s" "set is \<subseteq> {..<length store}"
  shows "pg_available store is ac = Inr
     (if \<exists>i\<in>set is. usable ac (store ! i) then Ok
      else if \<exists>i\<in>set is. allocation_class (desc (store ! i)) = ac then EmptyPage
      else EmptyPageGroup)"
  using pg_available_loop_eq [OF assms] by (simp add: pg_available_def)

lemma pg_allocate_ok:
  assumes ok: "store_ok a" and c: "class_size ac = Inr s" "32 \<le> s"
    and "set is \<subseteq> {..<length (pm_store a)}" "\<exists>i\<in>set is. usable ac (pm_store a ! i)"
  obtains r store where "pg_allocate (pm_store a) is ac = Inr (r, store)" "r \<noteq> 0"
    "length store = length (pm_store a)" "{unat r..<unat r + s} \<inter> cna_used a = {}"
    "store_ok (a\<lparr>pm_store := store\<rparr>)"
    "cna_used (a\<lparr>pm_store := store\<rparr>) = cna_used a \<union> {unat r..<unat r + s}"
  using assms(4,5)
proof (induction "is" arbitrary: thesis)
  case (Cons i "is")
  let ?p = "pm_store a ! i"
  have i: "i < length (pm_store a)" using Cons.prems(2) by simp
  show ?case
  proof (cases "usable ac ?p")
    case False
    then have "pg_allocate (pm_store a) (i # is) ac = pg_allocate (pm_store a) is ac"
      using i pm_available_eq [OF c(1)] by (auto simp: usable_def)
    with Cons.IH Cons.prems False show ?thesis by auto
  next
    case True
    show ?thesis
    proof (cases "allocation_class (desc ?p) = ac")
      case cl: True
      have off: "unat (pd_offset (desc ?p)) < MEMORY_PAGE_SIZE div s"
        using True cl c by (auto simp: usable_def chunk_size_def)
      obtain r p' where "pm_allocate ?p = Inr (r, p')" "r \<noteq> 0" "{unat r..<unat r + s} \<inter> cna_used a = {}"
        "store_ok (a\<lparr>pm_store := (pm_store a)[i := p']\<rparr>)"
        "cna_used (a\<lparr>pm_store := (pm_store a)[i := p']\<rparr>) = cna_used a \<union> {unat r..<unat r + s}"
        using store_serve [OF ok i refl refl] c cl off by metis
      then show ?thesis
        using True cl i c pm_available_eq [OF c(1) cl] by (intro Cons.prems(1)) auto
    next
      case cl: False
      with True have un: "allocation_class (desc ?p) = ChunkUnknown" by (auto simp: usable_def)
      obtain d where d: "desc_initialize ac = Inr d" "allocation_class d = ac" "pd_offset d = 0"
        using desc_initialize_ok [OF c(1)] by blast
      have "page_ok ?p" using ok i by (simp add: store_ok_def list_all_length)
      with un have u: "page_used (?p\<lparr>desc := d\<rparr>) = page_used ?p"
        using d by (auto simp: page_used_def page_ok_def)
      have off: "unat (pd_offset (desc (?p\<lparr>desc := d\<rparr>))) < MEMORY_PAGE_SIZE div s"
        using d class_size_bounds [OF c(1)] by simp
      obtain r p' where "pm_allocate (?p\<lparr>desc := d\<rparr>) = Inr (r, p')" "r \<noteq> 0"
        "{unat r..<unat r + s} \<inter> cna_used a = {}"
        "store_ok (a\<lparr>pm_store := (pm_store a)[i := p']\<rparr>)"
        "cna_used (a\<lparr>pm_store := (pm_store a)[i := p']\<rparr>) = cna_used a \<union> {unat r..<unat r + s}"
        using store_serve [OF ok i _ u _ c(2) off] c d by auto
      then show ?thesis
        using un cl i d by (intro Cons.prems(1)) auto
    qed
  qed
qed simp

definition pages_left :: "cn_allocator \<Rightarrow> nat" where
  "pages_left a = (case current a of None \<Rightarrow> 0
     | Some n \<Rightarrow> (case seg_store a ! n of None \<Rightarrow> 0 | Some s \<Rightarrow> available_pages s))"

lemma pages_left_pos:
  assumes "store_ok a" "0 < pages_left a"
  obtains n s where "current a = Some n" "seg_store a ! n = Some s" "available_pages s = pages_left a"
  using assms by (auto simp: pages_left_def split: option.splits)

lemma tracker_available_eq:
  assumes "store_ok a" "0 < k"
  shows "tracker_available a k = Inr (k \<le> pages_left a)"
proof (cases "current a")
  case None
  with assms show ?thesis by (simp add: tracker_available_def pages_left_def)
next
  case (Some n)
  with deref_current [OF assms(1) this] show ?thesis
    by (metis (no_types, lifting) option.simps(3,5) pages_left_def res_bind_Inr tracker_available_def)
qed

lemma refill_pages_ok:
  assumes c: "class_size ac = Inr s" "32 \<le> s"
  shows "store_ok a \<Longrightarrow> set is \<subseteq> {..<length (pm_store a)} \<Longrightarrow> length is \<le> pages_left a \<Longrightarrow> distinct is \<Longrightarrow>
   \<exists>js a' news. refill_pages is ac a = Inr (js, a') \<and> pm_store a' = pm_store a @ news \<and>
     length js = length is \<and> distinct js \<and> set js \<subseteq> set is \<union> {length (pm_store a)..<length (pm_store a')} \<and>
     ((\<exists>i\<in>set is. allocation_class (desc (pm_store a ! i)) = ac \<and> \<not> usable ac (pm_store a ! i)) \<longrightarrow>
        (\<exists>j\<in>set js. usable ac (pm_store a' ! j))) \<and>
     store_ok a' \<and> thread_info a' = thread_info a \<and> cna_used a' = cna_used a"
proof (induction "is" arbitrary: a)
  case (Cons i "is")
  let ?p = "pm_store a ! i"
  have i: "i < length (pm_store a)" using Cons.prems(2) by simp
  define full where "full \<longleftrightarrow> allocation_class (desc ?p) = ac \<and> \<not> usable ac ?p"
  have fullc: "(if allocation_class (desc ?p) = ac then res_bind (pm_available ?p) (\<lambda>av. Inr (\<not> av)) else Inr False)
      = Inr full"
    using pm_available_eq [OF c(1)] by (simp add: full_def)
  show ?case
  proof (cases full)
    case False
    have "set is \<subseteq> {..<length (pm_store a)}" "length is \<le> pages_left a" "distinct is"
      using Cons.prems by auto
    from Cons.IH [OF Cons.prems(1) this] obtain js a' news where
      r: "refill_pages is ac a = Inr (js, a')" "pm_store a' = pm_store a @ news" "length js = length is" "distinct js"
      "set js \<subseteq> set is \<union> {length (pm_store a)..<length (pm_store a')}"
      "(\<exists>i\<in>set is. allocation_class (desc (pm_store a ! i)) = ac \<and> \<not> usable ac (pm_store a ! i)) \<longrightarrow>
        (\<exists>j\<in>set js. usable ac (pm_store a' ! j))"
      "store_ok a'" "thread_info a' = thread_info a" "cna_used a' = cna_used a" by blast
    have "refill_pages (i # is) ac a = Inr (i # js, a')"
      using i fullc False r(1) by simp
    with r i Cons.prems(4) False show ?thesis
      by (intro exI [of _ "i # js"] exI [of _ a'] exI [of _ news]) (auto simp: full_def)
  next
    case True
    have "0 < pages_left a" using Cons.prems(3) by simp
    then obtain n s0 where n: "current a = Some n" "seg_store a ! n = Some s0" "available_pages s0 = pages_left a"
      using pages_left_pos [OF Cons.prems(1)] by blast
    have "0 < available_pages s0" using n \<open>0 < pages_left a\<close> by simp
    then obtain p1 a1 where o: "offer_page a = Inr (length (pm_store a), a1)"
      "pm_store a1 = pm_store a @ [p1]" "allocation_class (desc p1) = ChunkUnknown" "pd_offset (desc p1) = 0"
      "store_ok a1" "current a1 = Some n"
      "\<exists>s'. seg_store a1 ! n = Some s' \<and> available_pages s' = available_pages s0 - 1"
      "thread_info a1 = thread_info a" "cna_used a1 = cna_used a"
      by (rule offer_page_ok [OF Cons.prems(1) n(1,2)]) blast
    obtain d where d: "desc_initialize ac = Inr d" "allocation_class d = ac" "pd_offset d = 0"
      using desc_initialize_ok [OF c(1)] by blast
    let ?m = "length (pm_store a)"
    define a2 where "a2 = a1\<lparr>pm_store := (pm_store a1)[?m := p1\<lparr>desc := d\<rparr>]\<rparr>"
    have st: "page_step (pm_store a1 ! ?m) (p1\<lparr>desc := d\<rparr>)" and pu: "page_used (p1\<lparr>desc := d\<rparr>) = {}"
      using o c d by (auto simp: page_step_def page_ok_def page_used_def)
    have ml: "?m < length (pm_store a1)" by (simp add: o(2))
    have a2: "store_ok a2" unfolding a2_def by (rule store_ok_update(1) [OF o(5) ml st])
    have a2u: "cna_used a2 = cna_used a"
      unfolding a2_def store_ok_update(2) [OF o(5) ml st] by (simp add: pu o(9))
    have a2s: "pm_store a2 = pm_store a @ [p1\<lparr>desc := d\<rparr>]" "thread_info a2 = thread_info a"
      by (simp_all add: a2_def o(2,8))
    obtain s' where s': "seg_store a1 ! n = Some s'" "available_pages s' = available_pages s0 - 1" using o(7) by blast
    have a2l: "pages_left a2 = pages_left a - 1"
      using s' n(3) by (simp add: a2_def pages_left_def [of "a1\<lparr>pm_store := x\<rparr>" for x] o(6))
    have "set is \<subseteq> {..<length (pm_store a2)}" "length is \<le> pages_left a2" "distinct is"
      using Cons.prems(2-4) by (auto simp: a2s a2l)
    from Cons.IH [OF a2 this] obtain js a' news where
      r: "refill_pages is ac a2 = Inr (js, a')" "pm_store a' = pm_store a2 @ news" "length js = length is" "distinct js"
      "set js \<subseteq> set is \<union> {length (pm_store a2)..<length (pm_store a')}"
      "store_ok a'" "thread_info a' = thread_info a2" "cna_used a' = cna_used a2" by blast
    have run: "refill_pages (i # is) ac a = Inr (?m # js, a')"
      using i fullc True o(1) d(1) r(1) by (simp add: o(2) a2_def)
    have us: "usable ac (pm_store a' ! ?m)"
      using r(2) d(2,3) c class_size_bounds [OF c(1)]
      by (simp add: a2s usable_def chunk_size_def nth_append)
    have nin: "?m \<notin> set js" using r(5) Cons.prems(2) by (auto simp: a2s)
    have sub: "set (?m # js) \<subseteq> set (i # is) \<union> {?m..<length (pm_store a')}"
      using r(2,5) by (auto simp: a2s)
    show ?thesis
    proof (intro exI conjI)
      show "refill_pages (i # is) ac a = Inr (?m # js, a')" by (rule run)
      show "pm_store a' = pm_store a @ p1\<lparr>desc := d\<rparr> # news" using r(2) by (simp add: a2s)
      show "set (?m # js) \<subseteq> set (i # is) \<union> {?m..<length (pm_store a')}" by (rule sub)
      show "(\<exists>i\<in>set (i # is). allocation_class (desc (pm_store a ! i)) = ac \<and> \<not> usable ac (pm_store a ! i)) \<longrightarrow>
        (\<exists>j\<in>set (?m # js). usable ac (pm_store a' ! j))" using us by simp
    qed (use r nin in \<open>simp_all add: a2s a2u\<close>)
  qed
qed simp

lemma groups_okI:
  assumes "groups_ok a" "length (pm_store a) \<le> length (pm_store a')" "length pages = PAGEGROUP_NO" "distinct pages"
    "set pages \<subseteq> (case thread_info a tid of None \<Rightarrow> {} | Some ps \<Rightarrow> set ps) \<union> {length (pm_store a)..<length (pm_store a')}"
    "thread_info a' = (thread_info a)(tid \<mapsto> pages)"
  shows "groups_ok a'"
proof -
  have g: "length ps = PAGEGROUP_NO \<and> distinct ps \<and> set ps \<subseteq> {..<length (pm_store a)}"
    if "thread_info a t = Some ps" for t ps using assms(1) that by (simp add: groups_ok_def)
  have dj: "set ps \<inter> set qs = {}" if "thread_info a t = Some ps" "thread_info a u = Some qs" "t \<noteq> u" for t u ps qs
    using assms(1) that by (simp add: groups_ok_def)
  have sub: "set pages \<subseteq> {..<length (pm_store a')}"
    using assms(2,5) g by (fastforce split: option.splits)
  have new: "set pages \<inter> set qs = {}" if "thread_info a u = Some qs" "u \<noteq> tid" for u qs
    using assms(5) g [OF that(1)] dj [OF that(1)] that(2) by (fastforce split: option.splits)
  show ?thesis
    unfolding groups_ok_def assms(6)
  proof (intro conjI allI impI)
    fix t ps assume "((thread_info a)(tid \<mapsto> pages)) t = Some ps"
    then show "length ps = PAGEGROUP_NO" "distinct ps" "set ps \<subseteq> {..<length (pm_store a')}"
      using g [of t ps] assms(2-4) sub by (auto split: if_splits)
  next
    fix t u ps qs assume "((thread_info a)(tid \<mapsto> pages)) t = Some ps" "((thread_info a)(tid \<mapsto> pages)) u = Some qs" "t \<noteq> u"
    then show "set ps \<inter> set qs = {}"
      using new [of u qs] new [of t ps] dj [of t ps u qs] by (auto split: if_splits)
  qed
qed

lemma refill_ok:
  assumes "cna_inv a"
  obtains "refill tid a = Inr (False, a)"
  | a' pages where "refill tid a = Inr (True, a')" "cna_inv a'" "cna_used a' = cna_used a"
      "thread_info a' tid = Some pages" "set pages \<subseteq> {..<length (pm_store a')}" "\<exists>i\<in>set pages. usable ac (pm_store a' ! i)"
proof (cases "PAGEGROUP_NO \<le> pages_left a")
  case False
  with assms that(1) show ?thesis by (simp add: refill_def tracker_available_eq cna_inv_def PAGEGROUP_NO_def)
next
  case True
  have ok: "store_ok a" and g: "groups_ok a" using assms by (simp_all add: cna_inv_def)
  from True have "0 < pages_left a" by (simp add: PAGEGROUP_NO_def)
  then obtain n s where n: "current a = Some n" "seg_store a ! n = Some s" "available_pages s = pages_left a"
    using pages_left_pos [OF ok] by blast
  from offer_pages_ok [OF ok n(1,2), of PAGEGROUP_NO] True n(3) obtain a' ps where
    o: "offer_pages PAGEGROUP_NO a = Inr ([length (pm_store a)..<length (pm_store a) + PAGEGROUP_NO], a')"
    "pm_store a' = pm_store a @ ps" "length ps = PAGEGROUP_NO"
    "list_all (\<lambda>p. allocation_class (desc p) = ChunkUnknown) ps" "store_ok a'"
    "thread_info a' = thread_info a" "cna_used a' = cna_used a" by auto
  define pages where "pages = [length (pm_store a)..<length (pm_store a) + PAGEGROUP_NO]"
  define a2 where "a2 = a'\<lparr>thread_info := (thread_info a')(tid \<mapsto> pages)\<rparr>"
  have r: "refill tid a = Inr (True, a2)"
    using True o(1) by (simp add: refill_def tracker_available_eq [OF ok] PAGEGROUP_NO_def offer_page_group_def a2_def pages_def)
  have "store_ok a2" using o(5) by (simp add: store_ok_def a2_def)
  moreover have "groups_ok a2"
    by (rule groups_okI [OF g, of _ pages tid]) (use o in \<open>auto simp: a2_def pages_def\<close>)
  ultimately have inv: "cna_inv a2" by (simp add: cna_inv_def)
  have "usable ac (pm_store a2 ! length (pm_store a))"
    using o(2-4) by (cases ps) (auto simp: a2_def usable_def PAGEGROUP_NO_def)
  moreover have "length (pm_store a) \<in> set pages" by (simp add: pages_def PAGEGROUP_NO_def)
  ultimately show ?thesis
    using o(2,3,7) by (intro that(2) [OF r inv, of pages]) (auto simp: a2_def pages_def cna_used_def)
qed

lemma refill_single_page_ok:
  assumes "cna_inv a" "class_size ac = Inr s" "32 \<le> s" "thread_info a tid = Some pages"
    "\<exists>i\<in>set pages. allocation_class (desc (pm_store a ! i)) = ac \<and> \<not> usable ac (pm_store a ! i)"
  obtains "refill_single_page tid ac a = Inr (False, a)"
  | a' pages' where "refill_single_page tid ac a = Inr (True, a')" "cna_inv a'" "cna_used a' = cna_used a"
      "thread_info a' tid = Some pages'" "set pages' \<subseteq> {..<length (pm_store a')}" "\<exists>i\<in>set pages'. usable ac (pm_store a' ! i)"
proof (cases "PAGEGROUP_NO \<le> pages_left a")
  case False
  with assms(1) that(1) show ?thesis
    by (simp add: refill_single_page_def tracker_available_eq cna_inv_def PAGEGROUP_NO_def)
next
  case True
  have ok: "store_ok a" and g: "groups_ok a" using assms by (simp_all add: cna_inv_def)
  have pg: "set pages \<subseteq> {..<length (pm_store a)}" "length pages = PAGEGROUP_NO" "distinct pages"
    using g assms(4) by (simp_all add: groups_ok_def)
  have le: "length pages \<le> pages_left a" using True pg(2) by simp
  from refill_pages_ok [OF assms(2,3) ok pg(1) le pg(3)] assms(5) obtain js a' news where
    r: "refill_pages pages ac a = Inr (js, a')" "pm_store a' = pm_store a @ news" "length js = length pages"
    "distinct js" "set js \<subseteq> set pages \<union> {length (pm_store a)..<length (pm_store a')}"
    "\<exists>j\<in>set js. usable ac (pm_store a' ! j)" "store_ok a'" "thread_info a' = thread_info a" "cna_used a' = cna_used a"
    by blast
  define a2 where "a2 = a'\<lparr>thread_info := (thread_info a')(tid \<mapsto> js)\<rparr>"
  have run: "refill_single_page tid ac a = Inr (True, a2)"
    using True r(1) assms(4) by (simp add: refill_single_page_def tracker_available_eq [OF ok] PAGEGROUP_NO_def a2_def)
  have "store_ok a2" using r(7) by (simp add: store_ok_def a2_def)
  moreover have "groups_ok a2"
    by (rule groups_okI [OF g, of _ js tid]) (use r pg assms(4) in \<open>simp_all add: a2_def\<close>)
  ultimately have inv: "cna_inv a2" by (simp add: cna_inv_def)
  have "set js \<subseteq> {..<length (pm_store a2)}" using r(2,5) pg(1) by (fastforce simp: a2_def)
  with r(6,9) show ?thesis
    by (intro that(2) [OF run inv, of js]) (auto simp: a2_def cna_used_def)
qed

lemma group_allocate_ok:
  assumes "cna_inv a" "class_size ac = Inr s" "32 \<le> s" "thread_info a tid = Some pages"
    "set pages \<subseteq> {..<length (pm_store a)}" "\<exists>i\<in>set pages. usable ac (pm_store a ! i)"
  obtains r a' where "group_allocate tid ac a = Inr (r, a')" "r \<noteq> 0" "cna_inv a'"
    "{unat r..<unat r + s} \<inter> cna_used a = {}" "cna_used a' = cna_used a \<union> {unat r..<unat r + s}"
proof -
  have ok: "store_ok a" and g: "groups_ok a" using assms by (simp_all add: cna_inv_def)
  obtain r store where r: "pg_allocate (pm_store a) pages ac = Inr (r, store)" "r \<noteq> 0"
    "length store = length (pm_store a)" "{unat r..<unat r + s} \<inter> cna_used a = {}"
    "store_ok (a\<lparr>pm_store := store\<rparr>)"
    "cna_used (a\<lparr>pm_store := store\<rparr>) = cna_used a \<union> {unat r..<unat r + s}"
    using pg_allocate_ok [OF ok assms(2,3,5,6)] by metis
  have "groups_ok (a\<lparr>pm_store := store\<rparr>)" using g r(3) by (simp add: groups_ok_def)
  with r assms(4) show ?thesis
    by (intro that [of r "a\<lparr>pm_store := store\<rparr>"]) (auto simp: group_allocate_def cna_inv_def)
qed

lemma get_class_ok:
  assumes "16 < sz" "sz \<le> MEMORY_PAGE_SIZE"
  obtains ac s where "get_class sz = Inr ac" "class_size ac = Inr s" "32 \<le> s" "sz \<le> s"
proof -
  obtain k where k: "k < 9" "get_class sz = Inr (class_table ! k)" "sz \<le> 16 * 2 ^ k"
    using get_class_table [of sz] assms by (auto simp: MEMORY_PAGE_SIZE_def)
  have "k \<noteq> 0" using k(3) assms(1) by (cases k) auto
  then obtain j where "k = Suc j" by (cases k) auto
  then have "32 \<le> (16::nat) * 2 ^ k" by simp
  with k class_table_size [OF k(1)] show ?thesis by (intro that) auto
qed

definition served :: "cn_allocator \<Rightarrow> nat \<Rightarrow> remote_ptr \<Rightarrow> cn_allocator \<Rightarrow> bool" where
  "served a sz r a' \<longleftrightarrow> cna_inv a' \<and> cna_used a \<subseteq> cna_used a' \<and>
     (r \<noteq> 0 \<longrightarrow> {unat r..<unat r + sz} \<inter> cna_used a = {} \<and> {unat r..<unat r + sz} \<subseteq> cna_used a')"

lemma served_group:
  assumes "cna_inv a1" "class_size ac = Inr s" "32 \<le> s" "sz \<le> s" "thread_info a1 tid = Some pages"
    "set pages \<subseteq> {..<length (pm_store a1)}" "\<exists>i\<in>set pages. usable ac (pm_store a1 ! i)"
    "cna_used a1 = cna_used a"
  shows "\<exists>r a'. group_allocate tid ac a1 = Inr (r, a') \<and> served a sz r a'"
proof -
  obtain r a' where r: "group_allocate tid ac a1 = Inr (r, a')" "r \<noteq> 0" "cna_inv a'"
    "{unat r..<unat r + s} \<inter> cna_used a1 = {}" "cna_used a' = cna_used a1 \<union> {unat r..<unat r + s}"
    using group_allocate_ok [OF assms(1-3,5-7)] by metis
  have "{unat r..<unat r + sz} \<subseteq> {unat r..<unat r + s}" using assms(4) by simp
  with r assms(8) show ?thesis unfolding served_def by blast
qed

lemma served_null: "cna_inv a \<Longrightarrow> served a sz 0 a"
  by (simp add: served_def)

lemma cna_allocate_group:
  assumes inv: "cna_inv a1" and c: "get_class sz = Inr ac" "class_size ac = Inr s" "32 \<le> s" "sz \<le> s"
    and t: "thread_info a1 tid = Some pages" and u: "cna_used a1 = cna_used a"
  shows "\<exists>r a'. res_bind (pg_available (pm_store a1) pages ac) (\<lambda>st.
               (case st of
                  Ok \<Rightarrow> group_allocate tid ac a1
                | EmptyPage \<Rightarrow>
                    res_bind (refill_single_page tid ac a1) (\<lambda>(ok, a2).
                    if \<not> ok then Inr (0, a2) else group_allocate tid ac a2)
                | EmptyPageGroup \<Rightarrow>
                    res_bind (refill tid a1) (\<lambda>(ok, a2).
                    if \<not> ok then Inr (0, a2) else group_allocate tid ac a2)
                | NoMemory \<Rightarrow> Inr (0, a1))) = Inr (r, a') \<and> served a sz r a'"
    (is "\<exists>r a'. ?run = _ \<and> _")
proof -
  have pg: "set pages \<subseteq> {..<length (pm_store a1)}"
    using inv t by (simp add: cna_inv_def groups_ok_def)
  have null: "served a sz 0 a1" using served_null [OF inv] u by (simp add: served_def)
  note av = pg_available_eq [OF c(2) pg]
  consider (use) "\<exists>i\<in>set pages. usable ac (pm_store a1 ! i)"
    | (page) "\<not> (\<exists>i\<in>set pages. usable ac (pm_store a1 ! i))"
        "\<exists>i\<in>set pages. allocation_class (desc (pm_store a1 ! i)) = ac"
    | (group) "\<not> (\<exists>i\<in>set pages. usable ac (pm_store a1 ! i))"
        "\<not> (\<exists>i\<in>set pages. allocation_class (desc (pm_store a1 ! i)) = ac)" by blast
  then show ?thesis
  proof cases
    case use
    then have "?run = group_allocate tid ac a1" by (simp add: av)
    with served_group [OF inv c(2-4) t pg use u] show ?thesis by simp
  next
    case page
    then have run: "?run = res_bind (refill_single_page tid ac a1) (\<lambda>(ok, a2).
        if \<not> ok then Inr (0, a2) else group_allocate tid ac a2)" by (simp add: av)
    from page have full: "\<exists>i\<in>set pages. allocation_class (desc (pm_store a1 ! i)) = ac \<and> \<not> usable ac (pm_store a1 ! i)"
      by blast
    show ?thesis
    proof (cases rule: refill_single_page_ok [OF inv c(2,3) t full])
      case 1
      with 1 null show ?thesis unfolding run by simp
    next
      case (2 a' pages')
      with 2(1,3) served_group [OF 2(2) c(2-4) 2(4-6), of a] u show ?thesis unfolding run by simp
    qed
  next
    case group
    then have run: "?run = res_bind (refill tid a1) (\<lambda>(ok, a2).
        if \<not> ok then Inr (0, a2) else group_allocate tid ac a2)" by (simp add: av)
    show ?thesis
    proof (cases rule: refill_ok [OF inv, where tid = tid and ac = ac])
      case 1
      with 1 null show ?thesis unfolding run by simp
    next
      case (2 a' pages')
      with 2(1,3) served_group [OF 2(2) c(2-4) 2(4-6), of a] u show ?thesis unfolding run by simp
    qed
  qed
qed

lemma cna_allocate_ok:
  assumes inv: "cna_inv a" and sz: "16 < sz" "sz \<le> MEMORY_PAGE_SIZE"
  shows "\<exists>r a'. cna_allocate tid sz a = Inr (r, a') \<and> served a sz r a'"
proof -
  obtain ac s where c: "get_class sz = Inr ac" "class_size ac = Inr s" "32 \<le> s" "sz \<le> s"
    using get_class_ok [OF sz] by blast
  have sz': "sz \<noteq> 0" "\<not> MEMORY_PAGE_SIZE < sz" using sz by simp_all
  show ?thesis
  proof (cases "thread_info a tid")
    case (Some pages)
    from cna_allocate_group [OF inv c Some refl] show ?thesis
      using sz' c(1) Some by (simp add: cna_allocate_def)
  next
    case None
    show ?thesis
    proof (cases rule: refill_ok [OF inv, where tid = tid and ac = ac])
      case 1
      with 1 None sz' served_null [OF inv] show ?thesis by (simp add: cna_allocate_def)
    next
      case (2 a' pages)
      from cna_allocate_group [OF 2(2) c 2(4,3)] show ?thesis
        using sz' c(1) None 2(1,4) by (simp add: cna_allocate_def)
    qed
  qed
qed
end
