(* ===== verification/ChunkSource.thy ===== *)
theory ChunkSource
  imports PageInvariants
begin

text \<open>
  The contract between \<open>ComputeNode\<close> and the allocator it takes remote memory from, as the
  locale \<open>chunk_source\<close>, its interpretation on \<open>ComputeNodeAllocator::allocate\<close>, and the
  properties of the allocator.
\<close>

subsection \<open>A source of chunks\<close>

text \<open>What \<open>ComputeNode\<close> relies on when it asks an allocator for remote memory: every request
  in range is answered, with null when the memory is exhausted, and a chunk that is handed out
  was in nobody's hands before.\<close>

definition chunk_range :: "remote_ptr \<Rightarrow> nat \<Rightarrow> nat set" where
  "chunk_range r n = {unat r..<unat r + n}"

fun alloc_run :: "('r \<Rightarrow> 's \<Rightarrow> (remote_ptr \<times> 's) res) \<Rightarrow> 'r list \<Rightarrow> 's \<Rightarrow> (remote_ptr list \<times> 's) res" where
  "alloc_run al [] s = Inr ([], s)"
| "alloc_run al (r # rs) s =
     res_bind (al r s) (\<lambda>(p, s'). res_bind (alloc_run al rs s') (\<lambda>(ps, s''). Inr (p # ps, s'')))"

definition chunks_apart :: "(remote_ptr \<times> nat) list \<Rightarrow> bool" where
  "chunks_apart cs \<longleftrightarrow> sorted_wrt (\<lambda>(p, n) (q, m). p \<noteq> 0 \<longrightarrow> q \<noteq> 0 \<longrightarrow> chunk_range p n \<inter> chunk_range q m = {}) cs"

locale chunk_source =
  fixes al :: "'r \<Rightarrow> 's \<Rightarrow> (remote_ptr \<times> 's) res"
    and okreq :: "'r \<Rightarrow> bool" and rsize :: "'r \<Rightarrow> nat"
    and inv :: "'s \<Rightarrow> bool" and used :: "'s \<Rightarrow> nat set"
  assumes answers: "inv s \<Longrightarrow> okreq r \<Longrightarrow>
    \<exists>p s'. al r s = Inr (p, s') \<and> inv s' \<and> used s \<subseteq> used s' \<and>
      (p \<noteq> 0 \<longrightarrow> chunk_range p (rsize r) \<inter> used s = {} \<and> chunk_range p (rsize r) \<subseteq> used s')"
begin

lemma run_apart:
  "inv s \<Longrightarrow> list_all okreq rs \<Longrightarrow>
   \<exists>ps s'. alloc_run al rs s = Inr (ps, s') \<and> length ps = length rs \<and> inv s' \<and> used s \<subseteq> used s' \<and>
     chunks_apart (zip ps (map rsize rs)) \<and>
     (\<forall>(p, n)\<in>set (zip ps (map rsize rs)). p \<noteq> 0 \<longrightarrow> chunk_range p n \<inter> used s = {} \<and> chunk_range p n \<subseteq> used s')"
proof (induction rs arbitrary: s)
  case Nil
  then show ?case by (simp add: chunks_apart_def)
next
  case (Cons r rs)
  obtain p s1 where 1: "al r s = Inr (p, s1)" "inv s1" "used s \<subseteq> used s1"
    "p \<noteq> 0 \<longrightarrow> chunk_range p (rsize r) \<inter> used s = {} \<and> chunk_range p (rsize r) \<subseteq> used s1"
    using answers [OF Cons.prems(1), of r] Cons.prems(2) by auto
  obtain ps s' where 2: "alloc_run al rs s1 = Inr (ps, s')" "length ps = length rs" "inv s'" "used s1 \<subseteq> used s'"
    "chunks_apart (zip ps (map rsize rs))"
    "\<forall>(p, n)\<in>set (zip ps (map rsize rs)). p \<noteq> 0 \<longrightarrow> chunk_range p n \<inter> used s1 = {} \<and> chunk_range p n \<subseteq> used s'"
    using Cons.IH [OF 1(2)] Cons.prems(2) by auto
  let ?z = "zip ps (map rsize rs)"
  have hd: "p \<noteq> 0 \<longrightarrow> q \<noteq> 0 \<longrightarrow> chunk_range p (rsize r) \<inter> chunk_range q m = {}" if "(q, m) \<in> set ?z" for q m
    using 1(4) 2(6) that by fast
  then have "chunks_apart ((p, rsize r) # ?z)" using 2(5) by (auto simp: chunks_apart_def)
  moreover have "\<forall>(q, n)\<in>set ((p, rsize r) # ?z). q \<noteq> 0 \<longrightarrow> chunk_range q n \<inter> used s = {} \<and> chunk_range q n \<subseteq> used s'"
  proof -
    have "p \<noteq> 0 \<longrightarrow> chunk_range p (rsize r) \<inter> used s = {} \<and> chunk_range p (rsize r) \<subseteq> used s'"
      using 1(4) 2(4) by blast
    moreover have "\<forall>(q, n)\<in>set ?z. q \<noteq> 0 \<longrightarrow> chunk_range q n \<inter> used s = {} \<and> chunk_range q n \<subseteq> used s'"
      using 1(3) 2(6) by fast
    ultimately show ?thesis by simp
  qed
  moreover have "used s \<subseteq> used s'" using 1(3) 2(4) by blast
  ultimately show ?case
    using 1(1) 2(1,2,3) by (intro exI [of _ "p # ps"] exI [of _ s']) simp
qed

end

interpretation cna_chunks: chunk_source "\<lambda>(tid, sz). cna_allocate tid sz"
    "\<lambda>(tid, sz). 16 < sz \<and> sz \<le> MEMORY_PAGE_SIZE" snd cna_inv cna_used
  using cna_allocate_ok by unfold_locales (fastforce simp: served_def chunk_range_def)

subsection \<open>Fresh segments\<close>

lemma cna_inv_init: "cna_inv cn_allocator_init"
  by (simp add: cna_inv_def store_ok_def segs_ok_def groups_ok_def cn_allocator_init_def)

lemma page_in_append: "page_in ss p \<Longrightarrow> page_in (ss @ xs) p"
  unfolding page_in_def by (metis (no_types, lifting) length_append nth_append trans_less_add1)

lemma apply_for_memory_inv:
  assumes inv: "cna_inv a" and fit: "unat sg + SEGMENT_SIZE \<le> 2 ^ 64"
    and new: "sg \<notin> fst ` set (segments a)"
    and ap: "list_all (\<lambda>x. apart SEGMENT_SIZE (seg (the x)) sg) (seg_store a)"
  shows "cna_inv (apply_for_memory sg base a)" (is "cna_inv ?b")
    and "cna_used (apply_for_memory sg base a) = cna_used a"
proof -
  have b: "?b = a\<lparr>seg_store := seg_store a @ [Some (new_segment sg base)], current := Some (length (seg_store a)),
                segments := segments a @ [(sg, length (seg_store a))]\<rparr>"
    using new by (simp add: apply_for_memory_def assign_new_seg_def Let_def)
  have "seg_ok (new_segment sg base)" using fit by (simp add: seg_ok_def new_segment_def nsegs)
  moreover have "seg (new_segment sg base) = sg" by (simp add: new_segment_def)
  ultimately have "segs_ok (seg_store ?b)"
    using inv ap by (auto simp: b cna_inv_def store_ok_def segs_ok_def sorted_wrt_append list_all_iff)
  moreover have "list_all (page_in (seg_store ?b)) (pm_store ?b)"
    using inv page_in_append by (auto simp: b cna_inv_def store_ok_def list_all_iff)
  ultimately show "cna_inv ?b" using inv by (auto simp: b cna_inv_def store_ok_def groups_ok_def)
  show "cna_used ?b = cna_used a" by (simp add: b cna_used_def)
qed

definition one_segment :: "remote_ptr \<Rightarrow> cn_allocator" where
  "one_segment sg = apply_for_memory sg sg cn_allocator_init"

lemma one_segment_inv:
  assumes "unat sg + SEGMENT_SIZE \<le> 2 ^ 64"
  shows "cna_inv (one_segment sg)"
  unfolding one_segment_def
  by (rule apply_for_memory_inv(1) [OF cna_inv_init assms]) (simp_all add: cn_allocator_init_def)

subsection \<open>Properties\<close>

text \<open>C28: requests of 17 to 4096 bytes by any threads, in any order, are all answered, and no
  two of the chunks handed out share a byte; the same holds against every chunk in use before.\<close>

theorem cna_chunks_never_overlap:
  assumes "cna_inv a" "list_all (\<lambda>(tid, sz). 16 < sz \<and> sz \<le> MEMORY_PAGE_SIZE) reqs"
  shows "\<exists>ps a'. alloc_run (\<lambda>(tid, sz). cna_allocate tid sz) reqs a = Inr (ps, a') \<and>
     length ps = length reqs \<and> cna_inv a' \<and> chunks_apart (zip ps (map snd reqs)) \<and>
     (\<forall>(p, n)\<in>set (zip ps (map snd reqs)). p \<noteq> 0 \<longrightarrow> chunk_range p n \<inter> cna_used a = {})"
proof -
  obtain ps a' where r: "alloc_run (\<lambda>(tid, sz). cna_allocate tid sz) reqs a = Inr (ps, a')"
    "length ps = length reqs" "cna_inv a'" "chunks_apart (zip ps (map snd reqs))"
    "\<forall>(p, n)\<in>set (zip ps (map snd reqs)). p \<noteq> 0 \<longrightarrow>
       chunk_range p n \<inter> cna_used a = {} \<and> chunk_range p n \<subseteq> cna_used a'"
    using cna_chunks.run_apart [OF assms] by blast
  moreover have "\<forall>(p, n)\<in>set (zip ps (map snd reqs)). p \<noteq> 0 \<longrightarrow> chunk_range p n \<inter> cna_used a = {}"
    using r(5) by fast
  ultimately show ?thesis by blast
qed

lemma cna_chunks_never_overlap_witness:
  "\<exists>ps a'. alloc_run (\<lambda>(tid, sz). cna_allocate tid sz) [(0, 64), (1, 600), (0, 64)] (one_segment (2 ^ 40)) = Inr (ps, a') \<and>
     length ps = 3 \<and> chunks_apart (zip ps [64, 600, 64])"
proof -
  have i: "cna_inv (one_segment (2 ^ 40))" by (rule one_segment_inv) (simp add: SEGMENT_SIZE_def)
  have "list_all (\<lambda>(tid, sz). 16 < sz \<and> sz \<le> MEMORY_PAGE_SIZE) [(0, 64), (1, 600), (0::nat, 64)]"
    by (simp add: MEMORY_PAGE_SIZE_def)
  from cna_chunks_never_overlap [OF i this] show ?thesis by auto
qed

text \<open>\<open>get_class\<close> chooses the smallest class that holds the request: the chunk is large
  enough, the next smaller class would be too small; sizes of 0 and above 4096 are refused.\<close>

theorem get_class_smallest_fit:
  "if sz = 0 \<or> MEMORY_PAGE_SIZE < sz then get_class sz = Inl InvalidArgument
   else \<exists>ac s. get_class sz = Inr ac \<and> class_size ac = Inr s \<and> sz \<le> s \<and>
          (\<forall>ac' s'. class_size ac' = Inr s' \<longrightarrow> sz \<le> s' \<longrightarrow> s \<le> s')"
proof (cases "sz = 0 \<or> MEMORY_PAGE_SIZE < sz")
  case True then show ?thesis by (auto simp: get_class_def MEMORY_PAGE_SIZE_def)
next
  case False
  then obtain k where k: "k < 9" "get_class sz = Inr (class_table ! k)" "sz \<le> 16 * 2 ^ k" "k = 0 \<or> 16 * 2 ^ k < 2 * sz"
    using get_class_table [of sz] by (auto simp: MEMORY_PAGE_SIZE_def)
  have "16 * 2 ^ k \<le> s'" if s': "class_size ac' = Inr s'" "sz \<le> s'" for ac' s'
  proof -
    obtain m where m: "s' = 16 * 2 ^ m" using class_size_cases [OF s'(1)] by blast
    show ?thesis
    proof (cases "k \<le> m")
      case True then show ?thesis by (simp add: m power_increasing)
    next
      case gt: False
      then have "(2::nat) ^ Suc m \<le> 2 ^ k" by (intro power_increasing) auto
      then have "2 * s' \<le> 16 * 2 ^ k" by (simp add: m)
      with k(4) gt s'(2) show ?thesis by auto
    qed
  qed
  with False k class_table_size [OF k(1)] show ?thesis by auto
qed

lemma get_class_smallest_fit_witness:
  "\<exists>ac s. get_class 100 = Inr ac \<and> class_size ac = Inr s \<and> 100 \<le> s \<and> s \<le> 128"
proof -
  have "class_size Chunk128 = Inr 128" by (simp add: class_size_def allocation_class_size_map_def)
  then show ?thesis using get_class_smallest_fit [of 100] by (fastforce simp: MEMORY_PAGE_SIZE_def)
qed

text \<open>In a page of 16-byte chunks the byte-wide counters wrap: the page never counts as
  full, and the 257th chunk it hands out is the first one again.\<close>

theorem chunk16_page_repeats:
  assumes "allocation_class (desc p) = Chunk16"
  shows "\<exists>rs p'. pm_fill 257 p = Inr (rs, p') \<and> length rs = 257 \<and> rs ! 256 = rs ! 0"
proof -
  obtain p' where "pm_fill 257 p = Inr (map (\<lambda>i. offset_by (page_base p) ((unat (pd_offset (desc p)) + i) mod 256 * 16)) [0..<257], p')"
    using pm_fill_16 [OF assms] by blast
  then show ?thesis by (simp del: upt_Suc)
qed

lemma chunk16_page_repeats_witness:
  "\<exists>rs p'. pm_fill 257 \<lparr>desc = \<lparr>empty_slots = 0, allocation_class = Chunk16, synced = 0, pd_offset = 0\<rparr>,
     page_id = 0, page_base = 4096\<rparr> = Inr (rs, p') \<and> length rs = 257 \<and> rs ! 256 = rs ! 0"
  by (rule chunk16_page_repeats) simp

text \<open>No two threads own the same page, whatever they request; each thread's group has
  eight distinct pages.\<close>

theorem cna_groups_disjoint:
  assumes "cna_inv a" "list_all (\<lambda>(tid, sz). 16 < sz \<and> sz \<le> MEMORY_PAGE_SIZE) reqs"
  shows "\<exists>ps a'. alloc_run (\<lambda>(tid, sz). cna_allocate tid sz) reqs a = Inr (ps, a') \<and>
    (\<forall>t u pages pages'. thread_info a' t = Some pages \<longrightarrow> thread_info a' u = Some pages' \<longrightarrow>
       length pages = PAGEGROUP_NO \<and> distinct pages \<and> (t \<noteq> u \<longrightarrow> set pages \<inter> set pages' = {}))"
proof -
  obtain ps a' where r: "alloc_run (\<lambda>(tid, sz). cna_allocate tid sz) reqs a = Inr (ps, a')" "cna_inv a'"
    using cna_chunks.run_apart [OF assms] by blast
  then have g: "groups_ok a'" by (simp add: cna_inv_def)
  show ?thesis
    by (intro exI [of _ ps] exI [of _ a'] conjI allI impI r(1)) (use g in \<open>unfold groups_ok_def; blast\<close>)+
qed

lemma cna_groups_disjoint_witness:
  "\<exists>ps a'. alloc_run (\<lambda>(tid, sz). cna_allocate tid sz) [(0, 64), (1, 600)] (one_segment (2 ^ 40)) = Inr (ps, a') \<and>
    (\<forall>t u pages pages'. thread_info a' t = Some pages \<longrightarrow> thread_info a' u = Some pages' \<longrightarrow>
       length pages = PAGEGROUP_NO \<and> distinct pages \<and> (t \<noteq> u \<longrightarrow> set pages \<inter> set pages' = {}))"
  by (rule cna_groups_disjoint [OF one_segment_inv]) (simp_all add: SEGMENT_SIZE_def MEMORY_PAGE_SIZE_def)

text \<open>When a memory node hands the allocator a segment it already has, the insertion into
  the table is refused, the new \<open>Segment\<close> dies, and the next request for pages reads through
  the dangling \<open>current\<close>.\<close>

theorem duplicate_segment_dangles:
  assumes "sg \<in> fst ` set (segments a)"
  shows "tracker_available (apply_for_memory sg base a) n = Inl NullDeref \<and>
     offer_page (apply_for_memory sg base a) = Inl NullDeref"
  using assms
  by (simp add: apply_for_memory_def assign_new_seg_def Let_def tracker_available_def offer_page_def deref_seg_def)

lemma duplicate_segment_dangles_witness:
  "tracker_available (apply_for_memory 4096 8192 (one_segment 4096)) 8 = Inl NullDeref \<and>
   offer_page (apply_for_memory 4096 8192 (one_segment 4096)) = Inl NullDeref"
  by (rule duplicate_segment_dangles)
     (simp add: one_segment_def apply_for_memory_def assign_new_seg_def cn_allocator_init_def)

text \<open>Freeing one chunk of a page of the current segment counts two free slots, once for
  the current segment and once for the same segment in the table.\<close>

theorem free_counts_twice:
  assumes "segments a = [(sg, n)]" "current a = Some n" "n < length (seg_store a)" "seg_store a ! n = Some s"
    and "mirrors s (page chunk) = Some i" "i < length (pm_store a)" "page_base (pm_store a ! i) = page chunk"
  shows "\<exists>a'. cna_free chunk a = Inr a' \<and>
     empty_slots (desc (pm_store a' ! i)) = empty_slots (desc (pm_store a ! i)) + 2"
proof -
  have pp: "page (page chunk) = page chunk" by (simp add: page_def)
  from assms show ?thesis
    by (simp add: cna_free_def Let_def deref_seg_def free_in_def pm_free_def pp)
qed

definition busy_page :: cn_allocator where
  "busy_page =
     \<lparr>pm_store = [\<lparr>desc = \<lparr>empty_slots = 63, allocation_class = Chunk64, synced = 0, pd_offset = 1\<rparr>,
                   page_id = 0, page_base = 8192\<rparr>],
      seg_store = [Some ((new_segment 4096 4096)\<lparr>mirrors := [8192 \<mapsto> 0]\<rparr>)], current = Some 0,
      segments = [(4096, 0)], thread_info = Map.empty\<rparr>"

lemma free_counts_twice_witness:
  "\<exists>a'. cna_free 8192 busy_page = Inr a' \<and> empty_slots (desc (pm_store a' ! 0)) = 65"
  using free_counts_twice [of busy_page 4096 0 "(new_segment 4096 4096)\<lparr>mirrors := [8192 \<mapsto> 0]\<rparr>" 8192 0]
  by (simp add: busy_page_def page_def PAGE_MASK_def)

end
