(* ===== verification/CityHash.thy ===== *)
theory CityHash
  imports Prelude
begin

unbundle bit_operations_syntax

text \<open>
  \<open>CityHash64\<close> of \<open>components/city/city.cpp\<close> and \<open>Hash128to64\<close> of \<open>city.hpp\<close>, the hash
  whose lowest byte is a record's fingerprint.  Every load from the buffer is an array read
  with its bound; the little-endian branch of the preprocessor is the one modelled.
\<close>

subsection \<open>Loads\<close>

definition UNALIGNED_LOAD64 :: "bytes \<Rightarrow> nat \<Rightarrow> u64 res" where
  "UNALIGNED_LOAD64 s p =
     (if p + 8 \<le> length s then Inr (of_nat (le_val (take 8 (drop p s)))) else Inl OutOfBounds)"

definition UNALIGNED_LOAD32 :: "bytes \<Rightarrow> nat \<Rightarrow> u32 res" where
  "UNALIGNED_LOAD32 s p =
     (if p + 4 \<le> length s then Inr (of_nat (le_val (take 4 (drop p s)))) else Inl OutOfBounds)"

definition Fetch64 :: "bytes \<Rightarrow> nat \<Rightarrow> u64 res" where
  "Fetch64 s p = UNALIGNED_LOAD64 s p"

definition Fetch32 :: "bytes \<Rightarrow> nat \<Rightarrow> u32 res" where
  "Fetch32 s p = UNALIGNED_LOAD32 s p"

subsection \<open>Mixing\<close>

definition k0 :: u64 where "k0 = 0xc3a5c85c97cb3127"
definition k1 :: u64 where "k1 = 0xb492b66fbe98f273"
definition k2 :: u64 where "k2 = 0x9ae16a3b2f90404f"
definition k3 :: u64 where "k3 = 0xc949d7c7509e6557"

definition Rotate :: "u64 \<Rightarrow> nat \<Rightarrow> u64" where
  "Rotate val shift =
     (if shift = 0 then val else (drop_bit shift val OR push_bit (64 - shift) val))"

definition RotateByAtLeast1 :: "u64 \<Rightarrow> nat \<Rightarrow> u64" where
  "RotateByAtLeast1 val shift = (drop_bit shift val OR push_bit (64 - shift) val)"

definition ShiftMix :: "u64 \<Rightarrow> u64" where
  "ShiftMix val = val XOR drop_bit 47 val"

definition Hash128to64 :: "u64 \<times> u64 \<Rightarrow> u64" where
  "Hash128to64 x =
     (let kMul = 0x9ddfea08eb382d69;
          a = (fst x XOR snd x) * kMul;
          a = a XOR drop_bit 47 a;
          b = (snd x XOR a) * kMul;
          b = b XOR drop_bit 47 b;
          b = b * kMul
      in b)"

definition HashLen16 :: "u64 \<Rightarrow> u64 \<Rightarrow> u64" where
  "HashLen16 u v = Hash128to64 (u, v)"

subsection \<open>Short inputs\<close>

definition HashLen0to16 :: "bytes \<Rightarrow> nat \<Rightarrow> u64 res" where
  "HashLen0to16 s len =
     (if 8 < len then
        res_bind (Fetch64 s 0) (\<lambda>a.
        res_bind (Fetch64 s (len - 8)) (\<lambda>b.
        Inr (HashLen16 a (RotateByAtLeast1 (b + of_nat len) len) XOR b)))
      else if 4 \<le> len then
        res_bind (Fetch32 s 0) (\<lambda>a32.
        res_bind (Fetch32 s (len - 4)) (\<lambda>e.
        (let a = ucast a32 :: u64
         in Inr (HashLen16 (of_nat len + push_bit 3 a) (ucast e)))))
      else if 0 < len then
        res_bind (rd s 0) (\<lambda>a.
        res_bind (rd s (len div 2)) (\<lambda>b.
        res_bind (rd s (len - 1)) (\<lambda>c.
        (let y = (ucast a :: u32) + push_bit 8 (ucast b);
             z = (of_nat len :: u32) + push_bit 2 (ucast c)
         in Inr (ShiftMix (ucast y * k2 XOR ucast z * k3) * k2)))))
      else Inr k2)"

definition HashLen17to32 :: "bytes \<Rightarrow> nat \<Rightarrow> u64 res" where
  "HashLen17to32 s len =
     res_bind (Fetch64 s 0) (\<lambda>f0.
     res_bind (Fetch64 s 8) (\<lambda>b.
     res_bind (Fetch64 s (len - 8)) (\<lambda>f2.
     res_bind (Fetch64 s (len - 16)) (\<lambda>f3.
     (let a = f0 * k1; c = f2 * k2; d = f3 * k0
      in Inr (HashLen16 (Rotate (a - b) 43 + Rotate c 30 + d)
                        (a + Rotate (b XOR k3) 20 - c + of_nat len)))))))"

definition WeakHash :: "u64 \<Rightarrow> u64 \<Rightarrow> u64 \<Rightarrow> u64 \<Rightarrow> u64 \<Rightarrow> u64 \<Rightarrow> u64 \<times> u64" where
  "WeakHash w x y z a b =
     (let a = a + w;
          b = Rotate (b + a + z) 21;
          c = a;
          a = a + x;
          a = a + y;
          b = b + Rotate a 44
      in (a + z, b + c))"

definition WeakHashLen32WithSeeds :: "bytes \<Rightarrow> nat \<Rightarrow> u64 \<Rightarrow> u64 \<Rightarrow> (u64 \<times> u64) res" where
  "WeakHashLen32WithSeeds s p a b =
     res_bind (Fetch64 s p) (\<lambda>w.
     res_bind (Fetch64 s (p + 8)) (\<lambda>x.
     res_bind (Fetch64 s (p + 16)) (\<lambda>y.
     res_bind (Fetch64 s (p + 24)) (\<lambda>z. Inr (WeakHash w x y z a b)))))"

definition HashLen33to64 :: "bytes \<Rightarrow> nat \<Rightarrow> u64 res" where
  "HashLen33to64 s len =
     res_bind (Fetch64 s 24) (\<lambda>f24.
     res_bind (Fetch64 s 0) (\<lambda>f0.
     res_bind (Fetch64 s 8) (\<lambda>f8.
     res_bind (Fetch64 s 16) (\<lambda>f16.
     res_bind (Fetch64 s (len - 32)) (\<lambda>e32.
     res_bind (Fetch64 s (len - 24)) (\<lambda>e24.
     res_bind (Fetch64 s (len - 16)) (\<lambda>e16.
     res_bind (Fetch64 s (len - 8)) (\<lambda>e8.
     (let z = f24;
          a = f0 + (of_nat len + e16) * k0;
          b = Rotate (a + z) 52;
          c = Rotate a 37;
          a = a + f8;
          c = c + Rotate a 7;
          a = a + f16;
          vf = a + z;
          vs = b + Rotate a 31 + c;
          a = f16 + e32;
          z = e8;
          b = Rotate (a + z) 52;
          c = Rotate a 37;
          a = a + e24;
          c = c + Rotate a 7;
          a = a + e16;
          wf = a + z;
          ws = b + Rotate a 31 + c;
          r = ShiftMix ((vf + ws) * k2 + (wf + vs) * k0)
      in Inr (ShiftMix (r * k0 + vs) * k2))))))))))"

subsection \<open>Long inputs\<close>

record city_state =
  cx :: u64
  cy :: u64
  cz :: u64
  cv :: "u64 \<times> u64"
  cw :: "u64 \<times> u64"

text \<open>One round over the 64 bytes at \<open>p\<close>.\<close>

definition city_round :: "bytes \<Rightarrow> nat \<Rightarrow> city_state \<Rightarrow> city_state res" where
  "city_round s p st =
     res_bind (Fetch64 s (p + 8)) (\<lambda>f8.
     res_bind (Fetch64 s (p + 48)) (\<lambda>f48.
     res_bind (Fetch64 s (p + 40)) (\<lambda>f40.
     (let x = Rotate (cx st + cy st + fst (cv st) + f8) 37 * k1;
          y = Rotate (cy st + snd (cv st) + f48) 42 * k1;
          x = x XOR snd (cw st);
          y = y + fst (cv st) + f40;
          z = Rotate (cz st + fst (cw st)) 33 * k1
      in res_bind (WeakHashLen32WithSeeds s p (snd (cv st) * k1) (x + fst (cw st))) (\<lambda>v.
         res_bind (Fetch64 s (p + 16)) (\<lambda>f16.
         res_bind (WeakHashLen32WithSeeds s (p + 32) (z + snd (cw st)) (y + f16)) (\<lambda>w.
         Inr \<lparr>cx = z, cy = y, cz = x, cv = v, cw = w\<rparr>)))))))"

text \<open>The \<open>do ... while (len != 0)\<close> loop; \<open>len\<close> is a positive multiple of 64.\<close>

function city_rounds :: "bytes \<Rightarrow> nat \<Rightarrow> nat \<Rightarrow> city_state \<Rightarrow> city_state res" where
  "city_rounds s p len st =
     res_bind (city_round s p st) (\<lambda>st'.
     if len - 64 = 0 then Inr st' else city_rounds s (p + 64) (len - 64) st')"
  by pat_completeness auto
termination by (relation "measure (\<lambda>(s, p, len, st). len)") auto

declare city_rounds.simps [simp del]

definition CityHash64 :: "bytes \<Rightarrow> nat \<Rightarrow> u64 res" where
  "CityHash64 s len =
     (if len \<le> 32 then (if len \<le> 16 then HashLen0to16 s len else HashLen17to32 s len)
      else if len \<le> 64 then HashLen33to64 s len
      else
        res_bind (Fetch64 s (len - 40)) (\<lambda>x.
        res_bind (Fetch64 s (len - 16)) (\<lambda>e16.
        res_bind (Fetch64 s (len - 56)) (\<lambda>e56.
        res_bind (Fetch64 s (len - 48)) (\<lambda>e48.
        res_bind (Fetch64 s (len - 24)) (\<lambda>e24.
        (let y = e16 + e56;
             z = HashLen16 (e48 + of_nat len) e24
         in res_bind (WeakHashLen32WithSeeds s (len - 64) (of_nat len) z) (\<lambda>v.
            res_bind (WeakHashLen32WithSeeds s (len - 32) (y + k1) x) (\<lambda>w.
            res_bind (Fetch64 s 0) (\<lambda>f0.
            res_bind (city_rounds s 0 (64 * ((len - 1) div 64))
                        \<lparr>cx = x * k1 + f0, cy = y, cz = z, cv = v, cw = w\<rparr>) (\<lambda>st.
            Inr (HashLen16 (HashLen16 (fst (cv st)) (fst (cw st)) + ShiftMix (cy st) * k1 + cz st)
                           (HashLen16 (snd (cv st)) (snd (cw st)) + cx st)))))))))))))"

definition CityHash64WithSeeds :: "bytes \<Rightarrow> nat \<Rightarrow> u64 \<Rightarrow> u64 \<Rightarrow> u64 res" where
  "CityHash64WithSeeds s len seed0 seed1 =
     res_bind (CityHash64 s len) (\<lambda>h. Inr (HashLen16 (h - seed0) seed1))"

definition CityHash64WithSeed :: "bytes \<Rightarrow> nat \<Rightarrow> u64 \<Rightarrow> u64 res" where
  "CityHash64WithSeed s len seed = CityHash64WithSeeds s len k2 seed"

subsection \<open>Every load is in bounds\<close>

lemma Fetch64_ok: "p + 8 \<le> length s \<Longrightarrow> is_ok (Fetch64 s p)"
  by (simp add: Fetch64_def UNALIGNED_LOAD64_def)

lemma Fetch32_ok: "p + 4 \<le> length s \<Longrightarrow> is_ok (Fetch32 s p)"
  by (simp add: Fetch32_def UNALIGNED_LOAD32_def)

lemma is_ok_bind: "is_ok m \<Longrightarrow> (\<And>x. is_ok (f x)) \<Longrightarrow> is_ok (res_bind m f)"
  by (cases m) auto

lemma is_ok_rd: "i < length s \<Longrightarrow> is_ok (rd s i)"
  by simp

lemmas city_ok = is_ok_bind Fetch64_ok Fetch32_ok is_ok_rd

lemma WeakHashLen32WithSeeds_ok: "p + 32 \<le> length s \<Longrightarrow> is_ok (WeakHashLen32WithSeeds s p a b)"
  unfolding WeakHashLen32WithSeeds_def by (intro city_ok) simp_all

lemma HashLen0to16_ok: "len \<le> length s \<Longrightarrow> is_ok (HashLen0to16 s len)"
  unfolding HashLen0to16_def Let_def by (auto intro!: city_ok)

lemma HashLen17to32_ok: "16 \<le> len \<Longrightarrow> len \<le> length s \<Longrightarrow> is_ok (HashLen17to32 s len)"
  unfolding HashLen17to32_def Let_def by (intro city_ok) simp_all

lemma HashLen33to64_ok: "32 \<le> len \<Longrightarrow> len \<le> length s \<Longrightarrow> is_ok (HashLen33to64 s len)"
  unfolding HashLen33to64_def Let_def by (intro city_ok) simp_all

lemma city_round_ok: "p + 64 \<le> length s \<Longrightarrow> is_ok (city_round s p st)"
  unfolding city_round_def Let_def by (intro city_ok WeakHashLen32WithSeeds_ok) simp_all

lemma city_rounds_ok:
  "0 < n \<Longrightarrow> p + 64 * n \<le> length s \<Longrightarrow> is_ok (city_rounds s p (64 * n) st)"
proof (induction n arbitrary: p st)
  case (Suc n)
  have r: "is_ok (city_round s p st)" using Suc.prems(2) by (intro city_round_ok) simp
  show ?case
  proof (cases "n = 0")
    case True
    with r show ?thesis by (subst city_rounds.simps) (auto intro!: is_ok_bind)
  next
    case False
    then have "is_ok (city_rounds s (p + 64) (64 * n) st')" for st'
      using Suc.IH [of "p + 64" st'] Suc.prems(2) by simp
    with r False show ?thesis by (subst city_rounds.simps) (auto intro!: is_ok_bind)
  qed
qed simp

lemma CityHash64_ok: "len \<le> length s \<Longrightarrow> is_ok (CityHash64 s len)"
proof -
  assume len: "len \<le> length s"
  consider "len \<le> 16" | "16 < len" "len \<le> 32" | "32 < len" "len \<le> 64" | "64 < len" by linarith
  then show ?thesis
  proof cases
    case 4
    have "is_ok (city_rounds s 0 (64 * ((len - 1) div 64)) st)" for st
    proof (rule city_rounds_ok)
      show "0 < (len - 1) div 64" using 4 by (simp add: div_greater_zero_iff)
      have "64 * ((len - 1) div 64) \<le> len - 1" by (rule times_div_less_eq_dividend)
      then show "0 + 64 * ((len - 1) div 64) \<le> length s" using len by linarith
    qed
    note loop = this
    have n: "\<not> len \<le> 32" "\<not> len \<le> 64" using 4 by simp_all
    show ?thesis
      unfolding CityHash64_def Let_def if_not_P [OF n(1)] if_not_P [OF n(2)]
      by (intro city_ok WeakHashLen32WithSeeds_ok loop; use 4 len in \<open>(simp; fail)?\<close>)
  next
    case 1
    with HashLen0to16_ok [OF len] show ?thesis by (simp only: CityHash64_def if_True) simp
  next
    case 2
    with HashLen17to32_ok [of len s] len show ?thesis by (simp only: CityHash64_def if_True) simp
  next
    case 3
    with HashLen33to64_ok [of len s] len show ?thesis by (simp only: CityHash64_def if_True) simp
  qed
qed

text \<open>C40: hashing reads no byte outside the buffer, whatever its length: the overlapping loads
  from the end stay inside, and the loop of 64-byte rounds ends within the buffer.\<close>

theorem CityHash64_in_bounds:
  "\<exists>h. CityHash64 s (length s) = Inr h \<and> (\<exists>g. CityHash64WithSeed s (length s) seed = Inr g)"
  using CityHash64_ok [of "length s" s]
  by (auto simp: is_ok_iff CityHash64WithSeed_def CityHash64WithSeeds_def)

text \<open>The hash of a string as a value.\<close>

definition city64 :: "bytes \<Rightarrow> u64" where
  "city64 s = (case CityHash64 s (length s) of Inl _ \<Rightarrow> 0 | Inr h \<Rightarrow> h)"

lemma CityHash64_eq [simp]: "CityHash64 s (length s) = Inr (city64 s)"
  using CityHash64_ok [of "length s" s] by (auto simp: city64_def is_ok_iff)

end
