(* ===== verification/Doubles.thy ===== *)
theory Doubles
  imports Prelude "HOL-Library.Log_Nat"
begin

text \<open>
  The type \<open>double\<close> of the statistics and of the zipf generator: a double is the rational number it
  stands for, and every operation rounds its exact result to 53 bits, to the nearest and to the even
  one between two equally near, with gradual underflow below \<open>2 ^ -1022\<close>.  A result beyond the largest
  double is not made infinite here; a quotient by zero is the fault \<open>InvalidArgument\<close> of \<open>divide\<close>.
\<close>

type_synonym double = rat

subsection \<open>Rounding\<close>

definition two_to :: "int \<Rightarrow> rat" where
  "two_to e = (if 0 \<le> e then 2 ^ nat e else 1 / 2 ^ nat (- e))"

text \<open>The exponent of the leading bit of a positive number, from the lengths of its numerator and
  denominator.\<close>

definition exponent :: "rat \<Rightarrow> int" where
  "exponent x =
     (case quotient_of x of (p, q) \<Rightarrow>
      let e = bitlen p - bitlen q in if two_to e \<le> x then e else e - 1)"

definition round_even :: "rat \<Rightarrow> int" where
  "round_even x =
     (let f = \<lfloor>x\<rfloor>; r = x - of_int f in
      if r < 1 / 2 \<or> (r = 1 / 2 \<and> even f) then f else f + 1)"

definition ulp :: "rat \<Rightarrow> rat" where
  "ulp x = two_to (max (exponent x - 52) (-1074))"

definition rnd :: "rat \<Rightarrow> double" where
  "rnd x = (if x = 0 then 0 else sgn x * of_int (round_even (\<bar>x\<bar> / ulp \<bar>x\<bar>)) * ulp \<bar>x\<bar>)"

definition divide :: "double \<Rightarrow> double \<Rightarrow> double res" where
  "divide x y = (if y = 0 then Inl InvalidArgument else Inr (rnd (x / y)))"

subsection \<open>What rounding keeps\<close>

lemma two_to_pos [simp]: "0 < two_to e"
  by (simp add: two_to_def)

lemma two_to_add: "two_to (a + b) = two_to a * two_to b"
proof -
  have p: "two_to e = 2 powi e" for e by (simp add: two_to_def power_int_def power_one_over)
  show ?thesis unfolding p by (rule power_int_add) simp
qed

lemma two_to_simps [simp]: "two_to 0 = 1" "two_to 1 = 2"
  by (simp_all add: two_to_def)

lemma two_to_mono: "a \<le> b \<Longrightarrow> two_to a \<le> two_to b"
proof -
  assume "a \<le> b"
  then have "two_to b = two_to a * 2 ^ nat (b - a)" using two_to_add [of a "b - a"] by (simp add: two_to_def)
  then show ?thesis by simp
qed

lemma two_to_nat: "two_to (int n) = 2 ^ n"
  by (simp add: two_to_def)

lemma bitlen_rat: "0 < p \<Longrightarrow> two_to (bitlen p - 1) \<le> of_int p \<and> of_int p < two_to (bitlen p)"
proof -
  assume p: "0 < p"
  note b = bitlen_bounds [OF p]
  have n: "0 < bitlen p" using p bitlen_nonneg [of p] bitlen_eq_zero_iff [of p] by linarith
  have "of_int (2 ^ nat (bitlen p - 1)) \<le> (of_int p :: rat)" "(of_int p :: rat) < of_int (2 ^ nat (bitlen p))"
    using b by (simp_all only: of_int_le_iff of_int_less_iff)
  then show ?thesis using n by (simp add: two_to_def)
qed

lemma exponent_bounds:
  assumes "0 < x"
  shows "two_to (exponent x) \<le> x" "x < two_to (exponent x + 1)"
proof -
  obtain p q where e: "quotient_of x = (p, q)" by (cases "quotient_of x")
  have q: "0 < q" using quotient_of_denom_pos [OF e] .
  have x: "x = of_int p / of_int q" using quotient_of_div [OF e] .
  then have p: "0 < p" using assms q by (simp add: zero_less_divide_iff)
  let ?e = "bitlen p - bitlen q"
  note bp = bitlen_rat [OF p] and bq = bitlen_rat [OF q]
  have up: "x < two_to (?e + 1)"
  proof -
    have "of_int p < two_to (?e + 1) * two_to (bitlen q - 1)" using bp by (simp add: two_to_add [symmetric])
    also have "\<dots> \<le> two_to (?e + 1) * of_int q" using bq by simp
    finally show ?thesis using q by (simp add: x divide_less_eq)
  qed
  have lo: "two_to (?e - 1) \<le> x"
  proof -
    have "two_to (?e - 1) * of_int q \<le> two_to (?e - 1) * two_to (bitlen q)" using bq by simp
    also have "\<dots> = two_to (bitlen p - 1)" by (simp add: two_to_add [symmetric])
    also have "\<dots> \<le> of_int p" using bp by simp
    finally show ?thesis using q by (simp add: x le_divide_eq)
  qed
  show "two_to (exponent x) \<le> x" using lo by (simp add: exponent_def e Let_def)
  show "x < two_to (exponent x + 1)" using up by (simp add: exponent_def e Let_def not_le)
qed

lemma round_even_le: "x \<le> of_int k \<Longrightarrow> round_even x \<le> k"
  and round_even_ge: "of_int k \<le> x \<Longrightarrow> k \<le> round_even x"
proof -
  assume "x \<le> of_int k"
  then consider "\<lfloor>x\<rfloor> < k" | "x = of_int k" by (metis le_floor_iff linorder_cases not_less)
  then show "round_even x \<le> k" by cases (auto simp: round_even_def Let_def)
next
  assume "of_int k \<le> x"
  then have "k \<le> \<lfloor>x\<rfloor>" by (simp add: le_floor_iff)
  then show "k \<le> round_even x" by (auto simp: round_even_def Let_def)
qed

lemma round_even_near: "\<bar>of_int (round_even x) - x\<bar> \<le> 1 / 2"
proof -
  have "of_int \<lfloor>x\<rfloor> \<le> x" "x < of_int \<lfloor>x\<rfloor> + 1" by linarith+
  then show ?thesis unfolding round_even_def Let_def by (simp split: if_split)
qed

text \<open>The numbers with at most 53 bits.\<close>

definition is_double :: "rat \<Rightarrow> bool" where
  "is_double x \<longleftrightarrow> (\<exists>m e. \<bar>m\<bar> \<le> 2 ^ 53 \<and> -1074 \<le> e \<and> x = of_int m * two_to e)"

lemma two_to_diff_nat: "a \<le> b \<Longrightarrow> two_to b = of_int (2 ^ nat (b - a)) * two_to a"
  using two_to_add [of "b - a" a] by (simp add: two_to_def)

lemma double_multiple:
  assumes "is_double y" "0 < x" "\<bar>y\<bar> > two_to (exponent x) \<or> exponent x - 52 \<le> -1074"
  shows "\<exists>k. y = of_int k * ulp x"
proof -
  obtain m e where y: "\<bar>m\<bar> \<le> 2 ^ 53" "-1074 \<le> e" "y = of_int m * two_to e" using assms(1) by (auto simp: is_double_def)
  let ?u = "max (exponent x - 52) (-1074)"
  have "?u \<le> e"
  proof (rule ccontr)
    assume "\<not> ?u \<le> e"
    then have lt: "e < ?u" by (simp only: not_le)
    then have u: "?u = exponent x - 52" using y(2) by simp
    have "\<bar>y\<bar> = of_int \<bar>m\<bar> * two_to e" using less_imp_le [OF two_to_pos [of e]] by (simp only: y(3) abs_mult abs_of_nonneg of_int_abs)
    also have "\<dots> \<le> 2 ^ 53 * two_to e"
    proof -
      have "(of_int \<bar>m\<bar> :: rat) \<le> of_int (2 ^ 53)" using y(1) by (simp only: of_int_le_iff)
      then show ?thesis by simp
    qed
    also have "\<dots> = two_to (e + 53)" using two_to_add [of e 53] by (simp add: two_to_def [of 53])
    also have "\<dots> \<le> two_to (exponent x)" using lt u by (intro two_to_mono) simp
    finally show False using assms(3) lt u y(2) by auto
  qed
  then show ?thesis using two_to_diff_nat [of ?u e] y(3) by (intro exI [of _ "m * 2 ^ nat (e - ?u)"]) (simp add: ulp_def)
qed

lemma ulp_pos [simp]: "0 < ulp x"
  by (simp add: ulp_def)

lemma rnd_pos_eq: "0 < x \<Longrightarrow> rnd x = of_int (round_even (x / ulp x)) * ulp x"
  by (simp add: rnd_def)

lemma rnd_le:
  assumes "x \<le> y" "is_double y" "0 \<le> x"
  shows "rnd x \<le> y"
proof (cases "x = 0")
  case False
  then have x: "0 < x" using assms(3) by simp
  have "\<exists>k. y = of_int k * ulp x"
  proof (cases "y = two_to (exponent x) \<and> -1074 < exponent x - 52")
    case True
    then have "y = of_int (2 ^ 52) * ulp x" using two_to_diff_nat [of "exponent x - 52" "exponent x"] by (simp add: ulp_def)
    then show ?thesis by blast
  next
    case False
    then show ?thesis using double_multiple [OF assms(2) x] exponent_bounds(1) [OF x] assms(1) by fastforce
  qed
  then obtain k where k: "y = of_int k * ulp x" by blast
  then have "x / ulp x \<le> of_int k" using assms(1) by (simp add: divide_le_eq)
  then have "round_even (x / ulp x) \<le> k" by (rule round_even_le)
  then show ?thesis unfolding rnd_pos_eq [OF x] k by simp
qed (use assms in \<open>simp add: rnd_def\<close>)

lemma rnd_ge:
  assumes "y \<le> x" "is_double y" "0 \<le> y"
  shows "y \<le> rnd x"
proof (cases "x = 0")
  case False
  then have x: "0 < x" using assms(1,3) by simp
  show ?thesis
  proof (cases "two_to (exponent x) < y \<or> exponent x - 52 \<le> -1074")
    case True
    then obtain k where k: "y = of_int k * ulp x" using double_multiple [OF assms(2) x] assms(3) by auto
    then have "of_int k \<le> x / ulp x" using assms(1) by (simp add: le_divide_eq)
    then have "k \<le> round_even (x / ulp x)" by (rule round_even_ge)
    then show ?thesis unfolding rnd_pos_eq [OF x] k by simp
  next
    case False
    then have y: "y \<le> two_to (exponent x)" and u: "two_to (exponent x) = of_int (2 ^ 52) * ulp x"
      using two_to_diff_nat [of "exponent x - 52" "exponent x"] by (simp_all add: ulp_def)
    have "of_int (2 ^ 52) \<le> x / ulp x" using exponent_bounds(1) [OF x] unfolding u by (simp add: le_divide_eq)
    then have "2 ^ 52 \<le> round_even (x / ulp x)" by (rule round_even_ge)
    then have "(of_int (2 ^ 52) :: rat) \<le> of_int (round_even (x / ulp x))" by (simp only: of_int_le_iff)
    then have "of_int (2 ^ 52) * ulp x \<le> rnd x" unfolding rnd_pos_eq [OF x] by (rule mult_right_mono) (simp add: less_imp_le)
    then show ?thesis using y unfolding u by simp
  qed
qed (use assms in \<open>simp add: rnd_def\<close>)

lemma rnd_id: "is_double x \<Longrightarrow> 0 \<le> x \<Longrightarrow> rnd x = x"
  using rnd_le [of x x] rnd_ge [of x x] by simp

lemma nat_double: "n \<le> 2 ^ 53 \<Longrightarrow> is_double (of_nat n)"
  unfolding is_double_def by (rule exI [of _ "int n"], rule exI [of _ 0]) simp

lemma rnd_nat [simp]: "n \<le> 2 ^ 53 \<Longrightarrow> rnd (of_nat n) = of_nat n"
  by (intro rnd_id nat_double) simp_all

lemma rnd_nonneg: "0 \<le> x \<Longrightarrow> 0 \<le> rnd x"
  using rnd_ge [of 0 x] nat_double [of 0] by simp

lemma rnd_simps [simp]: "rnd 0 = 0" "rnd 1 = 1"
  using rnd_nat [of 0] rnd_nat [of 1] by simp_all

text \<open>The error is at most half a unit in the last place.\<close>

lemma rnd_near: "0 < x \<Longrightarrow> \<bar>rnd x - x\<bar> \<le> ulp x / 2"
proof -
  assume x: "0 < x"
  have "rnd x - x = (of_int (round_even (x / ulp x)) - x / ulp x) * ulp x" unfolding rnd_pos_eq [OF x] using less_imp_neq [OF ulp_pos [of x]] by (simp add: left_diff_distrib)
  then have "\<bar>rnd x - x\<bar> = \<bar>of_int (round_even (x / ulp x)) - x / ulp x\<bar> * ulp x"
    by (simp only: abs_mult abs_of_pos [OF ulp_pos])
  also have "\<dots> \<le> 1 / 2 * ulp x" by (intro mult_right_mono round_even_near) (simp add: less_imp_le)
  finally show ?thesis by simp
qed

end
