(* ===== verification/DataLayer.thy ===== *)
theory DataLayer
  imports Complex_Main RemotePointer CityHash Doubles
begin

text \<open>
  \<open>components/data_layer/data_layer.hpp\<close>: the adaptive linked array.  A \<open>LinkedNode<M, N>\<close> has
  room for \<open>N\<close> records of 16-byte keys and values, a fingerprint per record, and links.  The
  template parameter \<open>N\<close> is an argument of the operations here, since the code casts one buffer
  between node types.  The last part lays a node out in memory.
\<close>

subsection \<open>Constants and node types\<close>

definition KEYLEN :: nat where "KEYLEN = 16"
definition VALLEN :: nat where "VALLEN = KEYLEN"

lemmas data_consts [simp] = KEYLEN_def VALLEN_def

datatype node_type = NotSet | TypeHead | Type10 | Type12 | Type14 | Type16 | TypeVar

fun type_num :: "node_type \<Rightarrow> u32" where
  "type_num NotSet = 0"
| "type_num TypeHead = 1"
| "type_num Type10 = 10"
| "type_num Type12 = 12"
| "type_num Type14 = 14"
| "type_num Type16 = 16"
| "type_num TypeVar = 99"

text \<open>The enumeration's underlying type is \<open>uint32_t\<close>; a \<open>switch\<close> over a value read from memory
  takes its default branch when no enumerator has that number.\<close>

definition enumerator :: "u32 \<Rightarrow> node_type option" where
  "enumerator t =
     (if t = 0 then Some NotSet else if t = 1 then Some TypeHead else if t = 10 then Some Type10
      else if t = 12 then Some Type12 else if t = 14 then Some Type14
      else if t = 16 then Some Type16 else if t = 99 then Some TypeVar else None)"

lemma enumerator_type_num [simp]: "enumerator (type_num t) = Some t"
  by (cases t) (simp_all add: enumerator_def)

lemma type_num_inj: "type_num s = type_num t \<longleftrightarrow> s = t"
  by (metis enumerator_type_num option.inject)

text \<open>The order of \<open>std::map\<close> keys, used by the node statistics.\<close>

instantiation node_type :: linorder
begin

definition less_eq_node_type :: "node_type \<Rightarrow> node_type \<Rightarrow> bool" where
  "less_eq_node_type s t \<longleftrightarrow> type_num s \<le> type_num t"

definition less_node_type :: "node_type \<Rightarrow> node_type \<Rightarrow> bool" where
  "less_node_type s t \<longleftrightarrow> type_num s < type_num t"

instance
proof
  fix s t :: node_type
  show "s < t \<longleftrightarrow> s \<le> t \<and> \<not> t \<le> s"
    unfolding less_eq_node_type_def less_node_type_def by (rule less_le_not_le)
  show "s \<le> t \<Longrightarrow> t \<le> s \<Longrightarrow> s = t"
    unfolding less_eq_node_type_def using type_num_inj [of s t] by (meson order.antisym)
qed (auto simp: less_eq_node_type_def)

end

subsection \<open>Records and nodes\<close>

record kv =
  kv_key :: bytes
  kv_value :: bytes

record linked_node =
  llink :: remote_ptr
  rlink :: remote_ptr
  crc :: u16
  ntype :: u32
  nxt :: u32
  fingerprints :: bytes
  pairs :: "kv list"

definition kv_zero :: kv where
  "kv_zero = \<lparr>kv_key = replicate KEYLEN 0, kv_value = replicate VALLEN 0\<rparr>"

text \<open>The constructor; the records start as whatever the memory held.\<close>

definition new_linked_node :: "nat \<Rightarrow> nat \<Rightarrow> u16 \<Rightarrow> kv list \<Rightarrow> linked_node" where
  "new_linked_node M N junk_crc junk =
     \<lparr>llink = 0, rlink = 0, crc = junk_crc, ntype = of_nat N, nxt = 0,
      fingerprints = replicate M 0, pairs = take N junk\<rparr>"

definition fingerprint :: "bytes \<Rightarrow> byte_t res" where
  "fingerprint key = res_bind (CityHash64 key (length key)) (\<lambda>h. Inr (ucast h))"

text \<open>\<open>key.compare(0, key.size(), p, key.size())\<close>: the sign of the comparison of the key with
  as many bytes of the record's key.\<close>

definition key_compare :: "bytes \<Rightarrow> bytes \<Rightarrow> int res" where
  "key_compare key p =
     (if length key \<le> length p
      then Inr (if key < take (length key) p then -1
                else if key = take (length key) p then 0 else 1)
      else Inl OutOfBounds)"

definition available :: "nat \<Rightarrow> linked_node \<Rightarrow> bool" where
  "available N n \<longleftrightarrow> unat (nxt n) < N"

text \<open>The loop shared by \<open>find\<close> and \<open>update\<close>: the first record from \<open>i\<close> on, among \<open>k\<close>, whose
  fingerprint and key match.\<close>

fun match_from :: "bytes \<Rightarrow> byte_t \<Rightarrow> linked_node \<Rightarrow> nat \<Rightarrow> nat \<Rightarrow> nat option res" where
  "match_from key finger n i 0 = Inr None"
| "match_from key finger n i (Suc k) =
     res_bind (rd (fingerprints n) i) (\<lambda>f.
     if finger \<noteq> f then match_from key finger n (Suc i) k
     else res_bind (rd (pairs n) i) (\<lambda>p.
          res_bind (key_compare key (kv_key p)) (\<lambda>c.
          if c = 0 then Inr (Some i) else match_from key finger n (Suc i) k)))"

definition find_kv :: "bytes \<Rightarrow> linked_node \<Rightarrow> bytes option res" where
  "find_kv key n =
     res_bind (fingerprint key) (\<lambda>finger.
     res_bind (match_from key finger n 0 (unat (nxt n))) (\<lambda>r.
     (case r of None \<Rightarrow> Inr None
      | Some i \<Rightarrow> res_bind (rd (pairs n) i) (\<lambda>p. Inr (Some (take VALLEN (kv_value p)))))))"

text \<open>The four assignments that append a record.\<close>

definition append_record :: "bytes \<Rightarrow> bytes \<Rightarrow> linked_node \<Rightarrow> linked_node res" where
  "append_record key val n =
     (let i = unat (nxt n) in
      res_bind (fingerprint key) (\<lambda>finger.
      res_bind (wr (fingerprints n) i finger) (\<lambda>fps.
      res_bind (rd (pairs n) i) (\<lambda>p.
      res_bind (memcpy (kv_key p) key (length key)) (\<lambda>k.
      res_bind (memcpy (kv_value p) val (length val)) (\<lambda>v.
      Inr (n\<lparr>fingerprints := fps, pairs := (pairs n)[i := \<lparr>kv_key = k, kv_value = v\<rparr>],
              nxt := nxt n + 1\<rparr>)))))))"

definition store_kv :: "nat \<Rightarrow> bytes \<Rightarrow> bytes \<Rightarrow> linked_node \<Rightarrow> (bool \<times> linked_node) res" where
  "store_kv N key val n =
     (if \<not> available N n then Inr (False, n)
      else res_bind (find_kv key n) (\<lambda>r.
        if r \<noteq> None then Inr (True, n)
        else res_bind (append_record key val n) (\<lambda>n'. Inr (True, n'))))"

text \<open>The overload on byte pointers does not look for the key.\<close>

definition store_bytes :: "nat \<Rightarrow> bytes \<Rightarrow> bytes \<Rightarrow> linked_node \<Rightarrow> (bool \<times> linked_node) res" where
  "store_bytes N key val n =
     (if \<not> available N n then Inr (False, n)
      else res_bind (append_record key val n) (\<lambda>n'. Inr (True, n')))"

definition update_kv :: "bytes \<Rightarrow> bytes \<Rightarrow> linked_node \<Rightarrow> (bool \<times> linked_node) res" where
  "update_kv key val n =
     res_bind (fingerprint key) (\<lambda>finger.
     res_bind (match_from key finger n 0 (unat (nxt n))) (\<lambda>r.
     (case r of None \<Rightarrow> Inr (False, n)
      | Some i \<Rightarrow>
          res_bind (rd (pairs n) i) (\<lambda>p.
          res_bind (memcpy (kv_value p) val (length val)) (\<lambda>v.
          Inr (True, n\<lparr>pairs := (pairs n)[i := p\<lparr>kv_value := v\<rparr>]\<rparr>))))))"

text \<open>\<open>scan\<close> appends to \<open>ret\<close> and returns how many it appended.\<close>

fun scan_from :: "bytes \<Rightarrow> nat \<Rightarrow> linked_node \<Rightarrow> nat \<Rightarrow> nat \<Rightarrow> nat \<Rightarrow> bytes list \<Rightarrow> (nat \<times> bytes list) res" where
  "scan_from key ct n i 0 tot ret = Inr (tot, ret)"
| "scan_from key ct n i (Suc k) tot ret =
     (if 0 < ct - tot
      then res_bind (rd (pairs n) i) (\<lambda>p.
           res_bind (key_compare key (kv_key p)) (\<lambda>c.
           if c \<le> 0
           then scan_from key ct n (Suc i) k (tot + 1) (ret @ [take VALLEN (kv_value p)])
           else scan_from key ct n (Suc i) k tot ret))
      else scan_from key ct n (Suc i) k tot ret)"

definition scan_kv :: "bytes \<Rightarrow> nat \<Rightarrow> linked_node \<Rightarrow> bytes list \<Rightarrow> (nat \<times> bytes list) res" where
  "scan_kv key ct n ret = scan_from key ct n 0 (unat (nxt n)) 0 ret"

definition usage :: "linked_node \<Rightarrow> double" where
  "usage n =
     (case enumerator (ntype n) of
        Some Type10 \<Rightarrow> rnd (of_nat (unat (nxt n)) / 10)
      | Some Type12 \<Rightarrow> rnd (of_nat (unat (nxt n)) / 12)
      | Some Type14 \<Rightarrow> rnd (of_nat (unat (nxt n)) / 14)
      | Some Type16 \<Rightarrow> rnd (of_nat (unat (nxt n)) / 16)
      | _ \<Rightarrow> 0)"

subsection \<open>Layout in memory\<close>

text \<open>
  \<open>sizeof(LinkedNode<M, N>)\<close>: two links (offsets 0 and 8), the checksum (16) and two bytes of
  padding, the type (20), \<open>next\<close> (24), \<open>M\<close> fingerprints (28), \<open>N\<close> records of 32 bytes, and
  padding to a multiple of eight.  Padding is written as zero.
\<close>

definition sizeof_linked_node :: "nat \<Rightarrow> nat \<Rightarrow> nat" where
  "sizeof_linked_node M N = (28 + M + 32 * N + 7) div 8 * 8"

definition sizeof_node :: "u32 \<Rightarrow> nat" where
  "sizeof_node t =
     (case enumerator t of
        Some TypeHead \<Rightarrow> sizeof_linked_node 1 1
      | Some Type10 \<Rightarrow> sizeof_linked_node 16 10
      | Some Type12 \<Rightarrow> sizeof_linked_node 16 12
      | Some Type14 \<Rightarrow> sizeof_linked_node 16 14
      | Some Type16 \<Rightarrow> sizeof_linked_node 16 16
      | _ \<Rightarrow> 0)"

definition kv_bytes :: "kv \<Rightarrow> bytes" where
  "kv_bytes p = kv_key p @ kv_value p"

definition pairs_bytes :: "kv list \<Rightarrow> bytes" where
  "pairs_bytes ps = concat (map kv_bytes ps)"

text \<open>A buffer seen as \<open>LinkedNode16\<close>.\<close>

definition encode_node :: "linked_node \<Rightarrow> bytes" where
  "encode_node n =
     le_bytes 8 (unat (llink n)) @ le_bytes 8 (unat (rlink n)) @ le_bytes 2 (unat (crc n)) @ [0, 0] @
     le_bytes 4 (unat (ntype n)) @ le_bytes 4 (unat (nxt n)) @ fingerprints n @ pairs_bytes (pairs n) @
     replicate 4 0"

definition field :: "nat \<Rightarrow> nat \<Rightarrow> bytes \<Rightarrow> nat" where
  "field off sz b = le_val (take sz (drop off b))"

definition decode_kv :: "bytes \<Rightarrow> kv" where
  "decode_kv b = \<lparr>kv_key = take KEYLEN b, kv_value = take VALLEN (drop KEYLEN b)\<rparr>"

definition decode_node :: "bytes \<Rightarrow> linked_node" where
  "decode_node b =
     \<lparr>llink = of_nat (field 0 8 b), rlink = of_nat (field 8 8 b), crc = of_nat (field 16 2 b),
      ntype = of_nat (field 20 4 b), nxt = of_nat (field 24 4 b),
      fingerprints = take 16 (drop 28 b),
      pairs = map (\<lambda>i. decode_kv (take 32 (drop (44 + 32 * i) b))) [0..<16]\<rparr>"

text \<open>\<open>crc_validate\<close> runs the checksum, a Boost class and so a parameter, over as many records
  as the type says.\<close>

definition crc_validate :: "(bytes \<Rightarrow> u16) \<Rightarrow> linked_node \<Rightarrow> u32 \<Rightarrow> u16" where
  "crc_validate crcer n t =
     (case enumerator t of
        Some Type10 \<Rightarrow> crcer (take (10 * 32) (pairs_bytes (pairs n)))
      | Some Type12 \<Rightarrow> crcer (take (12 * 32) (pairs_bytes (pairs n)))
      | Some Type14 \<Rightarrow> crcer (take (14 * 32) (pairs_bytes (pairs n)))
      | Some Type16 \<Rightarrow> crcer (take (16 * 32) (pairs_bytes (pairs n)))
      | _ \<Rightarrow> 0)"

subsection \<open>Fingerprints and key comparison\<close>

definition fp :: "bytes \<Rightarrow> byte_t" where
  "fp key = ucast (city64 key)"

lemma fingerprint_eq [simp]: "fingerprint key = Inr (fp key)"
  by (simp add: fingerprint_def fp_def)

lemma key_compare_zero:
  "length key = length p \<Longrightarrow> key_compare key p = Inr c \<Longrightarrow> c = 0 \<longleftrightarrow> key = p"
  by (auto simp: key_compare_def split: if_splits)

lemma key_compare_le:
  "length key = length p \<Longrightarrow> key_compare key p = Inr c \<Longrightarrow> c \<le> 0 \<longleftrightarrow> key \<le> p"
  by (auto simp: key_compare_def split: if_splits)

lemma key_compare_ok: "length key \<le> length p \<Longrightarrow> \<exists>c. key_compare key p = Inr c"
  by (simp add: key_compare_def)

subsection \<open>Well-formed nodes and what they contain\<close>

definition kv_ok :: "kv \<Rightarrow> bool" where
  "kv_ok p \<longleftrightarrow> length (kv_key p) = KEYLEN \<and> length (kv_value p) = VALLEN"

definition nkey :: "linked_node \<Rightarrow> nat \<Rightarrow> bytes" where
  "nkey n i = kv_key (pairs n ! i)"

definition node_inv :: "nat \<Rightarrow> linked_node \<Rightarrow> bool" where
  "node_inv N n \<longleftrightarrow> N \<le> 64 \<and> N \<le> length (fingerprints n) \<and> N \<le> length (pairs n) \<and>
     list_all kv_ok (pairs n) \<and> unat (nxt n) \<le> N \<and>
     (\<forall>i<unat (nxt n). fingerprints n ! i = fp (nkey n i)) \<and>
     distinct (map kv_key (take (unat (nxt n)) (pairs n)))"

definition records :: "linked_node \<Rightarrow> (bytes \<times> bytes) list" where
  "records n = map (\<lambda>p. (kv_key p, kv_value p)) (take (unat (nxt n)) (pairs n))"

definition node_map :: "linked_node \<Rightarrow> bytes \<rightharpoonup> bytes" where
  "node_map n = map_of (records n)"

definition room :: "nat \<Rightarrow> linked_node \<Rightarrow> nat" where
  "room N n = N - unat (nxt n)"

lemma node_inv_nth:
  assumes "node_inv N n" "i < unat (nxt n)"
  shows "i < length (fingerprints n)" "i < length (pairs n)" "kv_ok (pairs n ! i)"
    "fingerprints n ! i = fp (nkey n i)" "length (nkey n i) = 16"
  using assms by (auto simp: node_inv_def list_all_length nkey_def kv_ok_def)

lemma nkey_inj:
  assumes "node_inv N n" "i < unat (nxt n)" "j < unat (nxt n)" "nkey n i = nkey n j"
  shows "i = j"
proof -
  let ?ks = "map kv_key (take (unat (nxt n)) (pairs n))"
  have "distinct ?ks" "length ?ks = unat (nxt n)" using assms(1) by (simp_all add: node_inv_def)
  moreover have "?ks ! i = ?ks ! j" using assms by (simp add: nkey_def node_inv_def)
  ultimately show ?thesis using assms(2,3) by (metis nth_eq_iff_index_eq)
qed

lemma node_map_Some:
  assumes "node_inv N n"
  shows "node_map n k = Some v \<longleftrightarrow> (\<exists>i<unat (nxt n). nkey n i = k \<and> kv_value (pairs n ! i) = v)"
proof -
  have d: "distinct (map fst (records n))"
    using assms by (simp add: node_inv_def records_def comp_def)
  have len: "unat (nxt n) \<le> length (pairs n)" using assms by (simp add: node_inv_def)
  have "node_map n k = Some v \<longleftrightarrow> (k, v) \<in> set (records n)"
    unfolding node_map_def using d by (rule map_of_eq_Some_iff)
  also have "\<dots> \<longleftrightarrow> (\<exists>i<unat (nxt n). nkey n i = k \<and> kv_value (pairs n ! i) = v)"
    using len by (auto simp: records_def nkey_def in_set_conv_nth image_iff Bex_def) 
  finally show ?thesis .
qed

lemma node_map_None:
  assumes "node_inv N n"
  shows "node_map n k = None \<longleftrightarrow> (\<forall>i<unat (nxt n). nkey n i \<noteq> k)"
  using node_map_Some [OF assms, of k] by (cases "node_map n k") auto

lemma match_from_step:
  assumes "node_inv N n" "length key = 16" "i < unat (nxt n)"
  shows "match_from key (fp key) n i (Suc m) =
    (if nkey n i = key then Inr (Some i) else match_from key (fp key) n (Suc i) m)"
proof -
  note i = node_inv_nth [OF assms(1,3)]
  have l: "length key = length (kv_key (pairs n ! i))" using i(3) assms(2) by (simp add: kv_ok_def)
  then obtain c where "key_compare key (kv_key (pairs n ! i)) = Inr c" using key_compare_ok by fastforce
  with key_compare_zero [OF l this] i show ?thesis by (auto simp: nkey_def)
qed

declare match_from.simps(2) [simp del]

lemma match_from_None:
  assumes "node_inv N n" "length key = 16"
  shows "i + m \<le> unat (nxt n) \<Longrightarrow> (\<And>j. i \<le> j \<Longrightarrow> j < i + m \<Longrightarrow> nkey n j \<noteq> key) \<Longrightarrow>
    match_from key (fp key) n i m = Inr None"
proof (induction m arbitrary: i)
  case (Suc m)
  have "nkey n i \<noteq> key" using Suc.prems(2) [of i] by simp
  moreover have "match_from key (fp key) n (Suc i) m = Inr None"
    using Suc.prems by (intro Suc.IH) auto
  ultimately show ?case using match_from_step [OF assms, of i m] Suc.prems(1) by simp
qed simp

lemma match_from_Some:
  assumes "node_inv N n" "length key = 16" "nkey n j = key" "j < unat (nxt n)"
  shows "i + m \<le> unat (nxt n) \<Longrightarrow> i \<le> j \<Longrightarrow> j < i + m \<Longrightarrow> match_from key (fp key) n i m = Inr (Some j)"
proof (induction m arbitrary: i)
  case (Suc m)
  show ?case
  proof (cases "i = j")
    case True
    then show ?thesis using match_from_step [OF assms(1,2,4)] assms(3) by simp
  next
    case False
    with nkey_inj [OF assms(1), of i j] assms(3,4) Suc.prems have "nkey n i \<noteq> key" by auto
    with False Suc.IH [of "Suc i"] Suc.prems show ?thesis using match_from_step [OF assms(1,2), of i m] by simp
  qed
qed simp

lemma match_all:
  assumes "node_inv N n" "length key = 16"
  shows "match_from key (fp key) n 0 (unat (nxt n)) = Inr None \<and> node_map n key = None \<or>
    (\<exists>j<unat (nxt n). match_from key (fp key) n 0 (unat (nxt n)) = Inr (Some j) \<and> nkey n j = key \<and>
       node_map n key = Some (kv_value (pairs n ! j)))"
proof (cases "node_map n key")
  case None
  with node_map_None [OF assms(1)] match_from_None [OF assms, of 0 "unat (nxt n)"] show ?thesis by simp
next
  case (Some v)
  then obtain j where j: "j < unat (nxt n)" "nkey n j = key" "kv_value (pairs n ! j) = v"
    using node_map_Some [OF assms(1)] by blast
  with match_from_Some [OF assms j(2,1), of 0 "unat (nxt n)"] Some show ?thesis by auto
qed

lemma find_kv_eq:
  assumes "node_inv N n" "length key = 16"
  shows "find_kv key n = Inr (node_map n key)"
  using match_all [OF assms]
proof (elim disjE exE conjE)
  fix j assume j: "j < unat (nxt n)" "match_from key (fp key) n 0 (unat (nxt n)) = Inr (Some j)"
    "node_map n key = Some (kv_value (pairs n ! j))"
  then show ?thesis using node_inv_nth [OF assms(1) j(1)] by (simp add: find_kv_def kv_ok_def)
qed (simp add: find_kv_def)

subsection \<open>Appending and updating\<close>

lemma unat_Suc32: "unat (x :: u32) < 64 \<Longrightarrow> unat (x + 1) = Suc (unat x)"
  by (simp add: unat_word_ariths)

lemma append_record_ok:
  assumes inv: "node_inv N n" and room: "unat (nxt n) < N" and l: "length key = 16" "length val = 16"
    and new: "node_map n key = None"
  obtains n' where "append_record key val n = Inr n'" "node_inv N n'" "records n' = records n @ [(key, val)]"
    "unat (nxt n') = Suc (unat (nxt n))" "llink n' = llink n" "rlink n' = rlink n" "ntype n' = ntype n" "crc n' = crc n"
    "length (pairs n') = length (pairs n)" "length (fingerprints n') = length (fingerprints n)"
proof -
  let ?i = "unat (nxt n)"
  define n' where "n' = n\<lparr>fingerprints := (fingerprints n)[?i := fp key],
      pairs := (pairs n)[?i := \<lparr>kv_key = key, kv_value = val\<rparr>], nxt := nxt n + 1\<rparr>"
  have b: "?i < length (fingerprints n)" "?i < length (pairs n)" "N \<le> 64"
    using inv room by (auto simp: node_inv_def)
  have "kv_ok (pairs n ! ?i)" using inv b(2) by (simp add: node_inv_def list_all_length)
  then have a: "append_record key val n = Inr n'"
    using b l by (simp add: append_record_def n'_def Let_def kv_ok_def)
  have s: "unat (nxt n') = Suc ?i" using b(3) room by (simp add: n'_def unat_Suc32)
  have t: "take (Suc ?i) ((pairs n)[?i := x]) = take ?i (pairs n) @ [x]" for x
    using b(2) by (rule take_Suc_update)
  have r: "records n' = records n @ [(key, val)]"
    unfolding records_def s by (simp add: n'_def t)
  have "key \<notin> kv_key ` set (take ?i (pairs n))"
  proof
    assume "key \<in> kv_key ` set (take ?i (pairs n))"
    then have "key \<in> fst ` set (records n)" by (auto simp: records_def image_image)
    with new show False by (simp add: node_map_def map_of_eq_None_iff)
  qed
  then have d: "distinct (map kv_key (take (Suc ?i) (pairs n')))"
    using inv unfolding n'_def by (simp add: t node_inv_def)
  have "node_inv N n'"
    unfolding node_inv_def s
  proof (intro conjI allI impI)
    show "list_all kv_ok (pairs n')"
      using inv l by (auto simp: node_inv_def n'_def list_all_iff kv_ok_def dest!: set_update_subset_insert [THEN subsetD])
    fix i assume "i < Suc ?i"
    then consider "i = ?i" | "i < ?i" by linarith
    then show "fingerprints n' ! i = fp (nkey n' i)"
      using b inv by cases (auto simp: n'_def nkey_def node_inv_def)
  qed (use inv room b d in \<open>auto simp: node_inv_def n'_def\<close>)
  with a s r show ?thesis by (intro that [of n']) (simp_all add: n'_def)
qed

lemma store_kv_full: "room N n = 0 \<Longrightarrow> store_kv N key val n = Inr (False, n)"
  by (simp add: store_kv_def available_def room_def)

lemma store_kv_present:
  assumes "node_inv N n" "length key = 16" "room N n \<noteq> 0" "node_map n key \<noteq> None"
  shows "store_kv N key val n = Inr (True, n)"
  using assms find_kv_eq [OF assms(1,2)] by (simp add: store_kv_def available_def room_def)

lemma store_kv_absent:
  assumes "node_inv N n" "length key = 16" "length val = 16" "room N n \<noteq> 0" "node_map n key = None"
  obtains n' where "store_kv N key val n = Inr (True, n')" "node_inv N n'" "records n' = records n @ [(key, val)]"
    "room N n' = room N n - 1" "llink n' = llink n" "rlink n' = rlink n" "ntype n' = ntype n" "crc n' = crc n"
    "length (pairs n') = length (pairs n)" "length (fingerprints n') = length (fingerprints n)"
proof -
  have r: "unat (nxt n) < N" using assms(4) by (simp add: room_def)
  obtain n' where "append_record key val n = Inr n'" "node_inv N n'" "records n' = records n @ [(key, val)]"
    "unat (nxt n') = Suc (unat (nxt n))" "llink n' = llink n" "rlink n' = rlink n" "ntype n' = ntype n" "crc n' = crc n"
    "length (pairs n') = length (pairs n)" "length (fingerprints n') = length (fingerprints n)"
    using append_record_ok [OF assms(1) r assms(2,3,5)] by metis
  with r find_kv_eq [OF assms(1,2)] assms(5) show ?thesis
    by (intro that [of n']) (auto simp: store_kv_def available_def room_def)
qed

lemma node_map_append:
  "records n' = records n @ [(k, v)] \<Longrightarrow> node_map n k = None \<Longrightarrow> node_map n' = (node_map n)(k \<mapsto> v)"
  by (auto simp: node_map_def fun_eq_iff map_add_def split: option.splits)

lemma update_kv_eq:
  assumes inv: "node_inv N n" and l: "length key = 16" "length val = 16"
  shows "\<exists>n'. update_kv key val n = Inr (node_map n key \<noteq> None, n') \<and> node_inv N n' \<and>
    node_map n' = (if node_map n key = None then node_map n else (node_map n)(key \<mapsto> val)) \<and> nxt n' = nxt n"
  using match_all [OF inv l(1)]
proof (elim disjE exE conjE)
  assume "match_from key (fp key) n 0 (unat (nxt n)) = Inr None" "node_map n key = None"
  with inv show ?thesis by (simp add: update_kv_def)
next
  fix j assume j: "j < unat (nxt n)" "match_from key (fp key) n 0 (unat (nxt n)) = Inr (Some j)"
    "nkey n j = key" "node_map n key = Some (kv_value (pairs n ! j))"
  define n' where "n' = n\<lparr>pairs := (pairs n)[j := (pairs n ! j)\<lparr>kv_value := val\<rparr>]\<rparr>"
  note nj = node_inv_nth [OF inv j(1)]
  have u: "update_kv key val n = Inr (True, n')"
    using j nj l by (simp add: update_kv_def n'_def kv_ok_def)
  have k: "nkey n' i = nkey n i" for i by (cases "i = j") (use nj in \<open>auto simp: nkey_def n'_def nth_list_update\<close>)
  have ks: "map kv_key (take m (pairs n')) = map kv_key (take m (pairs n))" for m
    by (rule nth_equalityI) (use k in \<open>auto simp: nkey_def n'_def\<close>)
  have inv': "node_inv N n'"
    unfolding node_inv_def ks k
  proof (intro conjI)
    show "list_all kv_ok (pairs n')"
      using inv l nj by (auto simp: node_inv_def n'_def list_all_iff kv_ok_def dest!: set_update_subset_insert [THEN subsetD])
  qed (use inv in \<open>auto simp: node_inv_def n'_def\<close>)
  have v: "kv_value (pairs n' ! i) = (if i = j then val else kv_value (pairs n ! i))" for i
    using nj by (auto simp: n'_def nth_list_update)
  have nx: "nxt n' = nxt n" by (simp add: n'_def)
  have "node_map n' = (node_map n)(key \<mapsto> val)"
  proof
    fix x
    show "node_map n' x = ((node_map n)(key \<mapsto> val)) x"
    proof (cases "x = key")
      case True
      have "node_map n' key = Some val"
        unfolding node_map_Some [OF inv'] k v nx by (intro exI [of _ j]) (simp add: j(1,3))
      with True show ?thesis by simp
    next
      case False
      have "node_map n' x = Some w \<longleftrightarrow> node_map n x = Some w" for w
        unfolding node_map_Some [OF inv'] node_map_Some [OF inv] k v nx
        by (rule ex_cong1, use False j(3) in metis)
      then have "node_map n' x = node_map n x" by (metis not_None_eq)
      with False show ?thesis by simp
    qed
  qed
  with u inv' j(4) show ?thesis by (intro exI [of _ n']) (simp add: n'_def)
qed

subsection \<open>Nodes of variable size\<close>

text \<open>Kept for later in the code and used nowhere: only the links, the type, the size and the
  fingerprint are set; the sizes of key and value, and their bytes, are what the buffer held.\<close>

record linked_node_var =
  var_llink :: remote_ptr
  var_rlink :: remote_ptr
  var_type :: u32
  total_size :: u64
  var_fingerprint :: byte_t
  key_size :: u64
  value_size :: u64
  var_kv :: bytes

definition make_linkednode_var :: "u64 \<Rightarrow> nat \<Rightarrow> bytes \<Rightarrow> remote_ptr \<Rightarrow> remote_ptr \<Rightarrow> linked_node_var \<Rightarrow> linked_node_var res" where
  "make_linkednode_var sz k_sz k llk rlk self =
     res_bind (CityHash64 k k_sz) (\<lambda>h.
     Inr (self\<lparr>var_llink := llk, var_rlink := rlk, var_type := type_num TypeVar, total_size := sz,
               var_fingerprint := ucast h\<rparr>))"

lemma make_linkednode_var_keeps_sizes:
  "make_linkednode_var sz k_sz k llk rlk self = Inr n \<Longrightarrow>
   key_size n = key_size self \<and> value_size n = value_size self \<and> var_kv n = var_kv self"
  by (auto simp: make_linkednode_var_def res_bind_eq_Inr)

end
