(* ===== verification/NodeStore.thy ===== *)
theory NodeStore
  imports DataLayer
begin

text \<open>
  A linked node as a bounded map: the contract \<open>record_store\<close>, its interpretation on
  \<open>LinkedNode::find\<close> and \<open>LinkedNode::store\<close>, the round trip of a node through memory, and
  the properties of the data layer.
\<close>

subsection \<open>A node as a bounded map\<close>

text \<open>What the compute node relies on when it fills a node for itself and for the threads that
  wait for it.\<close>

locale record_store =
  fixes lookup :: "'k \<Rightarrow> 's \<Rightarrow> 'v option res"
    and put :: "'k \<Rightarrow> 'v \<Rightarrow> 's \<Rightarrow> (bool \<times> 's) res"
    and abs :: "'s \<Rightarrow> 'k \<rightharpoonup> 'v" and free :: "'s \<Rightarrow> nat" and inv :: "'s \<Rightarrow> bool"
    and okk :: "'k \<Rightarrow> bool" and okv :: "'v \<Rightarrow> bool"
  assumes lookup_abs: "inv s \<Longrightarrow> okk k \<Longrightarrow> lookup k s = Inr (abs s k)"
    and put_full: "inv s \<Longrightarrow> free s = 0 \<Longrightarrow> put k v s = Inr (False, s)"
    and put_present: "inv s \<Longrightarrow> okk k \<Longrightarrow> free s \<noteq> 0 \<Longrightarrow> abs s k \<noteq> None \<Longrightarrow> put k v s = Inr (True, s)"
    and put_absent: "inv s \<Longrightarrow> okk k \<Longrightarrow> okv v \<Longrightarrow> free s \<noteq> 0 \<Longrightarrow> abs s k = None \<Longrightarrow>
      \<exists>s'. put k v s = Inr (True, s') \<and> inv s' \<and> abs s' = (abs s)(k \<mapsto> v) \<and> free s' = free s - 1"

fun put_all :: "('k \<Rightarrow> 'v \<Rightarrow> 's \<Rightarrow> (bool \<times> 's) res) \<Rightarrow> ('k \<times> 'v) list \<Rightarrow> 's \<Rightarrow> (bool \<times> 's) res" where
  "put_all put [] s = Inr (True, s)"
| "put_all put ((k, v) # kvs) s =
     res_bind (put k v s) (\<lambda>(ok, s'). if ok then put_all put kvs s' else Inr (False, s'))"

context record_store
begin

lemma put_cases:
  assumes "inv s" "okk k" "okv v" "free s \<noteq> 0"
  shows "\<exists>s'. put k v s = Inr (True, s') \<and> inv s' \<and> abs s' = [k \<mapsto> v] ++ abs s \<and> free s - 1 \<le> free s'"
proof (cases "abs s k")
  case None
  from put_absent [OF assms None] obtain s' where
    s': "put k v s = Inr (True, s')" "inv s'" "abs s' = (abs s)(k \<mapsto> v)" "free s' = free s - 1" by blast
  moreover have "(abs s)(k \<mapsto> v) = [k \<mapsto> v] ++ abs s"
    using None by (auto simp: fun_eq_iff map_add_def split: option.splits)
  ultimately show ?thesis by auto
next
  case (Some w)
  then have "[k \<mapsto> v] ++ abs s = abs s" by (auto simp: fun_eq_iff map_add_def split: option.splits)
  with put_present [OF assms(1,2,4)] Some assms(1) show ?thesis by auto
qed

lemma put_all_first_wins:
  "inv s \<Longrightarrow> list_all (\<lambda>(k, v). okk k \<and> okv v) kvs \<Longrightarrow> length kvs \<le> free s \<Longrightarrow>
   \<exists>s'. put_all put kvs s = Inr (True, s') \<and> inv s' \<and> abs s' = map_of kvs ++ abs s"
proof (induction kvs arbitrary: s)
  case (Cons x kvs)
  obtain k v where x: "x = (k, v)" by (cases x)
  from put_cases [OF Cons.prems(1), of k v] Cons.prems(2,3) x obtain s1 where
    1: "put k v s = Inr (True, s1)" "inv s1" "abs s1 = [k \<mapsto> v] ++ abs s" "free s - 1 \<le> free s1" by auto
  have "length kvs \<le> free s1" using 1(4) Cons.prems(3) by simp
  from Cons.IH [OF 1(2) _ this] Cons.prems(2) obtain s' where
    2: "put_all put kvs s1 = Inr (True, s')" "inv s'" "abs s' = map_of kvs ++ abs s1" by auto
  have "map_of kvs ++ ([k \<mapsto> v] ++ abs s) = map_of (x # kvs) ++ abs s"
    by (auto simp: x fun_eq_iff map_add_def split: option.splits)
  then have "abs s' = map_of (x # kvs) ++ abs s" unfolding 2(3) 1(3) .
  moreover have "put_all put (x # kvs) s = Inr (True, s')" using 1(1) 2(1) by (simp add: x)
  ultimately show ?case using 2(2) by blast
qed simp

lemma put_all_lookup:
  assumes "inv s" "list_all (\<lambda>(k, v). okk k \<and> okv v) kvs" "length kvs \<le> free s" "okk k"
  shows "\<exists>s'. put_all put kvs s = Inr (True, s') \<and> inv s' \<and>
     lookup k s' = Inr (case abs s k of Some v \<Rightarrow> Some v | None \<Rightarrow> map_of kvs k)"
proof -
  obtain s' where "put_all put kvs s = Inr (True, s')" "inv s'" "abs s' = map_of kvs ++ abs s"
    using put_all_first_wins [OF assms(1-3)] by blast
  with lookup_abs [OF _ assms(4)] show ?thesis by (auto simp: map_add_def split: option.splits)
qed

end

abbreviation wide :: "bytes \<Rightarrow> bool" where
  "wide b \<equiv> length b = 16"

interpretation node_store: record_store find_kv "store_kv N" node_map "room N" "node_inv N" wide wide for N
proof unfold_locales
  fix s k v
  assume a: "node_inv N s" "wide k" "wide v" "room N s \<noteq> 0" "node_map s k = None"
  obtain n' where "store_kv N k v s = Inr (True, n')" "node_inv N n'" "records n' = records s @ [(k, v)]"
    "room N n' = room N s - 1" by (rule store_kv_absent [OF a])
  with node_map_append [OF this(3) a(5)] show "\<exists>s'. store_kv N k v s = Inr (True, s') \<and> node_inv N s' \<and>
    node_map s' = (node_map s)(k \<mapsto> v) \<and> room N s' = room N s - 1" by blast
qed (simp_all add: find_kv_eq store_kv_full store_kv_present)

subsection \<open>Encoding\<close>

definition node_shape :: "linked_node \<Rightarrow> bool" where
  "node_shape n \<longleftrightarrow> length (fingerprints n) = 16 \<and> length (pairs n) = 16 \<and> list_all kv_ok (pairs n)"

lemma sizeof_linked_node_simps [simp]:
  "sizeof_linked_node 1 1 = 64" "sizeof_linked_node (Suc 0) (Suc 0) = 64" "sizeof_linked_node 16 10 = 368" "sizeof_linked_node 16 12 = 432"
  "sizeof_linked_node 16 14 = 496" "sizeof_linked_node 16 16 = 560"
  by (simp_all add: sizeof_linked_node_def)

lemma kv_bytes_length: "kv_ok p \<Longrightarrow> length (kv_bytes p) = 32"
  by (simp add: kv_ok_def kv_bytes_def)

lemma pairs_bytes_length: "list_all kv_ok ps \<Longrightarrow> length (pairs_bytes ps) = 32 * length ps"
  by (induction ps) (simp_all add: pairs_bytes_def kv_bytes_length)

lemma pairs_bytes_nth:
  "list_all kv_ok ps \<Longrightarrow> i < length ps \<Longrightarrow> take 32 (drop (32 * i) (pairs_bytes ps @ rest)) = kv_bytes (ps ! i)"
proof (induction ps arbitrary: i)
  case (Cons p ps)
  then have l: "length (kv_bytes p) = 32" by (simp add: kv_bytes_length)
  show ?case
  proof (cases i)
    case 0
    with l show ?thesis by (simp add: pairs_bytes_def)
  next
    case (Suc j)
    have "drop (32 * i) (pairs_bytes (p # ps) @ rest) = drop (32 * j) (pairs_bytes ps @ rest)"
      using l by (simp add: pairs_bytes_def Suc)
    with Cons Suc show ?thesis by simp
  qed
qed simp

lemma decode_kv_bytes: "kv_ok p \<Longrightarrow> decode_kv (kv_bytes p) = p"
  by (simp add: decode_kv_def kv_bytes_def kv_ok_def)

lemma length_encode_node: "node_shape n \<Longrightarrow> length (encode_node n) = sizeof_linked_node 16 16"
  by (simp add: encode_node_def node_shape_def pairs_bytes_length)

lemma field_encode:
  "length xs = off \<Longrightarrow> length ys = sz \<Longrightarrow> field off sz (xs @ ys @ zs) = le_val ys"
  by (simp add: field_def)

lemma encode_fields:
  assumes "node_shape n"
  shows "field 0 8 (encode_node n) = unat (llink n)" "field 8 8 (encode_node n) = unat (rlink n)"
    "field 16 2 (encode_node n) = unat (crc n)" "field 20 4 (encode_node n) = unat (ntype n)"
    "field 24 4 (encode_node n) = unat (nxt n)"
proof -
  have b: "unat (llink n) < 2 ^ 64" "unat (rlink n) < 2 ^ 64" "unat (crc n) < 2 ^ 16"
    "unat (ntype n) < 2 ^ 32" "unat (nxt n) < 2 ^ 32"
    by (rule unsigned_less [where 'b = 64, simplified] | rule order_less_le_trans [OF unsigned_less], simp)+
  show "field 0 8 (encode_node n) = unat (llink n)" "field 8 8 (encode_node n) = unat (rlink n)"
    "field 16 2 (encode_node n) = unat (crc n)" "field 20 4 (encode_node n) = unat (ntype n)"
    "field 24 4 (encode_node n) = unat (nxt n)"
    using b by (simp_all add: field_def encode_node_def le_val_le_bytes)
qed

lemma decode_encode_node:
  assumes "node_shape n"
  shows "decode_node (encode_node n) = n"
proof -
  have f: "take 16 (drop 28 (encode_node n)) = fingerprints n"
    using assms by (simp add: encode_node_def node_shape_def)
  have d: "drop (44 + 32 * i) (encode_node n) = drop (32 * i) (pairs_bytes (pairs n) @ replicate 4 0)" for i
  proof -
    have "drop 44 (encode_node n) = pairs_bytes (pairs n) @ replicate 4 0"
      using assms by (simp add: encode_node_def node_shape_def)
    then show ?thesis by (metis add.commute drop_drop)
  qed
  have k: "list_all kv_ok (pairs n)" and l: "length (pairs n) = 16" using assms by (simp_all add: node_shape_def)
  have "decode_kv (take 32 (drop (44 + 32 * i) (encode_node n))) = pairs n ! i" if "i < 16" for i
    unfolding d using pairs_bytes_nth [OF k, of i "replicate 4 0"] that l k decode_kv_bytes [of "pairs n ! i"]
    by (simp add: list_all_length)
  then have "map (\<lambda>i. decode_kv (take 32 (drop (44 + 32 * i) (encode_node n)))) [0..<16] = pairs n"
    using l by (intro nth_equalityI) simp_all
  then show ?thesis
    unfolding decode_node_def encode_fields [OF assms] f by (simp del: upt_rec_numeral)
qed

subsection \<open>Scanning\<close>

lemma scan_from_eq:
  assumes inv: "node_inv N n" and l: "length key = 16"
  shows "i + k \<le> unat (nxt n) \<Longrightarrow> tot \<le> ct \<Longrightarrow> scan_from key ct n i k tot ret =
    (let vs = take (ct - tot) (map snd (filter (\<lambda>(x, _). key \<le> x) (take k (drop i (records n)))))
     in Inr (tot + length vs, ret @ vs))"
proof (induction k arbitrary: i tot ret)
  case (Suc k)
  have i: "i < unat (nxt n)" using Suc.prems(1) by simp
  note ni = node_inv_nth [OF inv i]
  let ?p = "pairs n ! i"
  have len: "length (records n) = unat (nxt n)" using inv by (simp add: records_def node_inv_def)
  have r: "take (Suc k) (drop i (records n)) = (kv_key ?p, kv_value ?p) # take k (drop (Suc i) (records n))"
    using i len ni(2) by (simp add: Cons_nth_drop_Suc [symmetric] records_def)
  have kl: "length key = length (kv_key ?p)" using ni(3) l by (simp add: kv_ok_def)
  then obtain c where c: "key_compare key (kv_key ?p) = Inr c" using key_compare_ok by fastforce
  have cl: "c \<le> 0 \<longleftrightarrow> key \<le> kv_key ?p" by (rule key_compare_le [OF kl c])
  have v: "take VALLEN (kv_value ?p) = kv_value ?p" using ni(3) by (simp add: kv_ok_def)
  have s: "Suc i + k \<le> unat (nxt n)" using Suc.prems(1) by simp
  show ?case
  proof (cases "tot < ct")
    case False
    with Suc.prems(2) have "tot = ct" by simp
    then show ?thesis using Suc.IH [OF s, of tot ret] by (simp add: Let_def)
  next
    case True
    then obtain m where m: "ct - tot = Suc m" "ct - (tot + 1) = m" by (metis Suc_diff_Suc add.commute plus_1_eq_Suc)
    show ?thesis
    proof (cases "key \<le> kv_key ?p")
      case le: True
      have "scan_from key ct n i (Suc k) tot ret = scan_from key ct n (Suc i) k (tot + 1) (ret @ [kv_value ?p])"
        using True c cl le ni(2) v by simp
      also have "\<dots> = (let vs = take m (map snd (filter (\<lambda>(x, _). key \<le> x) (take k (drop (Suc i) (records n)))))
          in Inr (tot + 1 + length vs, (ret @ [kv_value ?p]) @ vs))"
        using Suc.IH [OF s, of "tot + 1" "ret @ [kv_value ?p]"] True unfolding m(2) by simp
      finally show ?thesis unfolding m(1) r using le by (simp add: Let_def)
    next
      case nle: False
      have "scan_from key ct n i (Suc k) tot ret = scan_from key ct n (Suc i) k tot ret"
        using True c cl nle ni(2) by simp
      also have "\<dots> = (let vs = take (ct - tot) (map snd (filter (\<lambda>(x, _). key \<le> x) (take k (drop (Suc i) (records n)))))
          in Inr (tot + length vs, ret @ vs))"
        using Suc.IH [OF s, of tot ret] True by simp
      finally show ?thesis unfolding r using nle by simp
    qed
  qed
qed (simp add: Let_def)

subsection \<open>Properties\<close>

text \<open>A fresh node, for the witnesses.\<close>

definition fresh10 :: linked_node where
  "fresh10 = new_linked_node 16 10 0 (replicate 16 kv_zero)"

lemma kv_ok_zero: "kv_ok kv_zero"
  by (simp add: kv_ok_def kv_zero_def)

lemma fresh10_inv: "node_inv 10 fresh10"
  by (simp add: node_inv_def fresh10_def new_linked_node_def list_all_length kv_ok_zero)

lemma fresh10_map: "node_map fresh10 k = None"
  by (simp add: node_map_def records_def fresh10_def new_linked_node_def)

lemma fresh10_room: "room 10 fresh10 = 10"
  by (simp add: room_def fresh10_def new_linked_node_def)

text \<open>C29: a node is a bounded map with first-wins insertion.  Records stored one after another
  while there is room are all accepted, and a lookup then returns what was in the node
  before, or else the value of the first of the new records with that key.\<close>

theorem node_store_then_find:
  assumes "node_inv N n" "list_all (\<lambda>(k, v). wide k \<and> wide v) kvs" "length kvs \<le> room N n" "wide k"
  shows "\<exists>n'. put_all (store_kv N) kvs n = Inr (True, n') \<and> node_inv N n' \<and>
    find_kv k n' = Inr (case node_map n k of Some v \<Rightarrow> Some v | None \<Rightarrow> map_of kvs k)"
  by (rule node_store.put_all_lookup [OF assms])

definition b16 :: "byte_t \<Rightarrow> bytes" where
  "b16 x = replicate 16 x"

lemma b16_simps [simp]: "length (b16 x) = 16" "b16 x = b16 y \<longleftrightarrow> x = y"
  by (simp_all add: b16_def)

lemma node_store_then_find_witness:
  "\<exists>n'. put_all (store_kv 10) [(b16 1, b16 7), (b16 2, b16 8), (b16 1, b16 9)] fresh10 = Inr (True, n') \<and>
    find_kv (b16 1) n' = Inr (Some (b16 7))"
  using node_store_then_find [OF fresh10_inv, of "[(b16 1, b16 7), (b16 2, b16 8), (b16 1, b16 9)]" "b16 1"]
  by (auto simp: fresh10_map fresh10_room)

text \<open>One insertion, on every branch: a full node refuses even a key it holds, a key that is
  present keeps its value, and a new key is appended behind the records already there.\<close>

theorem store_kv_branches:
  assumes "node_inv N n" "wide k" "wide v"
  shows "\<exists>n'. store_kv N k v n = Inr (room N n \<noteq> 0, n') \<and> node_inv N n' \<and>
    records n' = (if room N n = 0 \<or> node_map n k \<noteq> None then records n else records n @ [(k, v)])"
proof (cases "room N n = 0 \<or> node_map n k \<noteq> None")
  case True
  then show ?thesis
    using assms(1) node_store.put_full [OF assms(1)] node_store.put_present [OF assms(1,2)] by (cases "room N n = 0") auto
next
  case False
  then have f: "room N n \<noteq> 0" "node_map n k = None" by auto
  obtain n' where "store_kv N k v n = Inr (True, n')" "node_inv N n'" "records n' = records n @ [(k, v)]"
    by (rule store_kv_absent [OF assms f])
  with f show ?thesis by simp
qed

lemma store_kv_branches_witness:
  "\<exists>n'. store_kv 10 (b16 1) (b16 7) fresh10 = Inr (True, n') \<and> records n' = records fresh10 @ [(b16 1, b16 7)]"
  using store_kv_branches [OF fresh10_inv, of "b16 1" "b16 7"] by (auto simp: fresh10_map fresh10_room)

text \<open>An update replaces exactly the value of its key, or changes nothing and reports so.\<close>

theorem update_kv_refines:
  assumes "node_inv N n" "wide k" "wide v"
  shows "\<exists>n'. update_kv k v n = Inr (node_map n k \<noteq> None, n') \<and> node_inv N n' \<and>
    node_map n' = (if node_map n k = None then node_map n else (node_map n)(k \<mapsto> v))"
  using update_kv_eq [OF assms] by blast

lemma update_kv_refines_witness:
  "\<exists>n'. update_kv (b16 1) (b16 7) fresh10 = Inr (False, n') \<and> node_map n' = node_map fresh10"
  using update_kv_refines [OF fresh10_inv, of "b16 1" "b16 7"] by (auto simp: fresh10_map)

text \<open>A scan of a node appends the values of the records whose keys are not below the given
  one, in the order in which they were stored and at most \<open>ct\<close> of them, and counts them.\<close>

theorem scan_kv_result:
  assumes "node_inv N n" "wide key"
  shows "scan_kv key ct n ret =
    (let vs = take ct (map snd (filter (\<lambda>(x, _). key \<le> x) (records n)))
     in Inr (length vs, ret @ vs))"
proof -
  have "length (records n) = unat (nxt n)" using assms(1) by (simp add: records_def node_inv_def)
  then show ?thesis using scan_from_eq [OF assms, of 0 "unat (nxt n)" 0 ct ret] by (simp add: scan_kv_def)
qed

lemma scan_kv_result_witness: "scan_kv (b16 1) 5 fresh10 [b16 3] = Inr (0, [b16 3])"
  unfolding scan_kv_result [OF fresh10_inv b16_simps(1)]
  by (simp add: records_def fresh10_def new_linked_node_def)

text \<open>The code moves a node as the bytes of its structure; the image that \<open>DataLayer\<close> gives it loses
  nothing, and has exactly the size the code transfers for the largest type.\<close>

lemma node_roundtrip:
  assumes "node_shape n"
  shows "decode_node (encode_node n) = n \<and> length (encode_node n) = sizeof_node (type_num Type16)"
  using assms by (simp add: decode_encode_node length_encode_node sizeof_node_def del: type_num.simps)

lemma node_roundtrip_witness:
  "decode_node (encode_node (fresh10\<lparr>pairs := replicate 16 kv_zero\<rparr>)) = fresh10\<lparr>pairs := replicate 16 kv_zero\<rparr>"
  using node_roundtrip [of "fresh10\<lparr>pairs := replicate 16 kv_zero\<rparr>"]
  by (simp add: node_shape_def fresh10_def new_linked_node_def list_all_length kv_ok_zero)

text \<open>A key of more than 16 bytes runs over the end of the record's key when it is stored.\<close>

theorem long_key_overruns:
  assumes "node_inv N n" "room N n \<noteq> 0" "16 < length key"
  shows "store_bytes N key val n = Inl OutOfBounds"
proof -
  have r: "unat (nxt n) < N" using assms(2) by (simp add: room_def)
  then have b: "unat (nxt n) < length (fingerprints n)" "unat (nxt n) < length (pairs n)" "kv_ok (pairs n ! unat (nxt n))"
    using assms(1) by (auto simp: node_inv_def list_all_length)
  with assms(3) r show ?thesis
    by (simp add: store_bytes_def available_def append_record_def Let_def memcpy_def kv_ok_def)
qed

lemma long_key_overruns_witness: "store_bytes 10 (replicate 17 0) [] fresh10 = Inl OutOfBounds"
  by (rule long_key_overruns [OF fresh10_inv]) (simp_all add: fresh10_room)

end
