(* ===== verification/SkipList.thy ===== *)
theory SkipList
  imports DataLayer
begin

text \<open>
  \<open>components/search_layer/search_layer.hpp\<close> and \<open>.cpp\<close>: the skip list that maps anchor keys to
  data nodes.  Nodes live in a heap of addresses; a null pointer is \<open>None\<close>.  A walk along
  pointers need not end, so an operation yields an optional result: \<open>None\<close> stands for not
  returning, a fault for a null dereference or an access past an array.
\<close>

subsection \<open>Nodes and the list\<close>

definition MAX_LEVEL :: nat where "MAX_LEVEL = 16"

lemmas sl_consts [simp] = MAX_LEVEL_def

record skip_node =
  anchor :: bytes
  data_node :: remote_ptr
  sn_type :: u32
  ctx :: "nat option"
  backward :: "nat option"
  forwards :: "nat option list"

record skiplist =
  heap :: "nat \<rightharpoonup> skip_node"
  brk :: nat
  head :: nat
  current_level :: nat

definition deref :: "skiplist \<Rightarrow> nat option \<Rightarrow> skip_node res" where
  "deref sl p = (case p of None \<Rightarrow> Inl NullDeref
     | Some a \<Rightarrow> (case heap sl a of None \<Rightarrow> Inl NullDeref | Some n \<Rightarrow> Inr n))"

text \<open>Assigning through a pointer.\<close>

definition modify :: "skiplist \<Rightarrow> nat option \<Rightarrow> (skip_node \<Rightarrow> skip_node res) \<Rightarrow> skiplist res" where
  "modify sl p f =
     res_bind (deref sl p) (\<lambda>n. res_bind (f n) (\<lambda>n'. Inr (sl\<lparr>heap := (heap sl)(the p \<mapsto> n')\<rparr>)))"

definition get_forward :: "skiplist \<Rightarrow> nat option \<Rightarrow> nat \<Rightarrow> nat option res" where
  "get_forward sl p i = res_bind (deref sl p) (\<lambda>n. rd (forwards n) i)"

definition set_forward :: "nat option \<Rightarrow> nat \<Rightarrow> nat option \<Rightarrow> skiplist \<Rightarrow> skiplist res" where
  "set_forward p i q sl =
     modify sl p (\<lambda>n. res_bind (wr (forwards n) i q) (\<lambda>fs. Inr (n\<lparr>forwards := fs\<rparr>)))"

definition make_skip_node :: "nat \<Rightarrow> bytes \<Rightarrow> remote_ptr \<Rightarrow> u32 \<Rightarrow> nat option \<Rightarrow> nat option \<Rightarrow> skip_node" where
  "make_skip_node level k r t n b =
     \<lparr>anchor = k, data_node = r, sn_type = t, ctx = None, backward = b,
      forwards = n # replicate (level - 1) None\<rparr>"

definition make_skiplist :: skiplist where
  "make_skiplist =
     \<lparr>heap = [0 \<mapsto> make_skip_node MAX_LEVEL [] 0 (type_num TypeHead) None None],
      brk = 1, head = 0, current_level = 1\<rparr>"

text \<open>The levels are drawn at random: one more for every draw below a quarter of \<open>RAND_MAX\<close>.
  The draws are an argument; the loop runs on while there is no draw at or above the
  threshold.\<close>

definition RAND_MAX :: nat where "RAND_MAX = 2147483647"

fun random_level_from :: "nat list \<Rightarrow> nat \<Rightarrow> nat option" where
  "random_level_from [] level = None"
| "random_level_from (x # xs) level =
     (if x < RAND_MAX div 4 then random_level_from xs (level + 1)
      else Some (if level < MAX_LEVEL then level else MAX_LEVEL))"

definition random_level :: "nat list \<Rightarrow> nat option" where
  "random_level draws = random_level_from draws 1"

definition make_new_node :: "nat \<Rightarrow> bytes \<Rightarrow> remote_ptr \<Rightarrow> u32 \<Rightarrow> skiplist \<Rightarrow> nat \<times> skiplist" where
  "make_new_node level k r t sl =
     (brk sl, sl\<lparr>heap := (heap sl)(brk sl \<mapsto> make_skip_node level k r t None None), brk := brk sl + 1\<rparr>)"

definition fake_head :: "remote_ptr \<Rightarrow> skiplist \<Rightarrow> skiplist res" where
  "fake_head valid sl = modify sl (Some (head sl)) (\<lambda>n. Inr (n\<lparr>data_node := valid\<rparr>))"

subsection \<open>Walking\<close>

text \<open>The inner \<open>while\<close> loop of every search.\<close>

partial_function (option) walk :: "skiplist \<Rightarrow> nat \<Rightarrow> bytes \<Rightarrow> nat \<Rightarrow> nat run" where
  "walk sl i key w =
     (case get_forward sl (Some w) i of
        Inl e \<Rightarrow> Some (Inl e)
      | Inr None \<Rightarrow> Some (Inr w)
      | Inr (Some m) \<Rightarrow>
          (case deref sl (Some m) of
             Inl e \<Rightarrow> Some (Inl e)
           | Inr n \<Rightarrow> if anchor n < key then walk sl i key m else Some (Inr w)))"

text \<open>\<open>for (i = k - 1; i >= lo; i--)\<close> around it, filling the array \<open>update\<close>.\<close>

fun descend :: "skiplist \<Rightarrow> bytes \<Rightarrow> nat \<Rightarrow> nat \<Rightarrow> nat \<Rightarrow> nat option list \<Rightarrow> (nat \<times> nat option list) run" where
  "descend sl key lo 0 w upd = Some (Inr (w, upd))"
| "descend sl key lo (Suc i) w upd =
     (if i < lo then Some (Inr (w, upd))
      else run_bind (walk sl i key w) (\<lambda>w'.
           run_bind (Some (wr upd i (Some w'))) (\<lambda>upd'. descend sl key lo i w' upd')))"

definition no_update :: "nat option list" where
  "no_update = replicate MAX_LEVEL None"

subsection \<open>The operations\<close>

definition search_node :: "bytes \<Rightarrow> skiplist \<Rightarrow> nat option run" where
  "search_node key sl =
     run_bind (descend sl key 0 (current_level sl) (head sl) no_update) (\<lambda>(w, _).
     run_bind (Some (get_forward sl (Some w) 0)) (\<lambda>f.
     if f = None then Some (Inr None)
     else run_bind (Some (deref sl f)) (\<lambda>n.
          Some (Inr (if anchor n = key then f else None)))))"

definition sl_search :: "bytes \<Rightarrow> skiplist \<Rightarrow> nat option run" where
  "sl_search key sl = run_bind (search_node key sl) (\<lambda>p. Some (Inr p))"

definition sl_update :: "bytes \<Rightarrow> remote_ptr \<Rightarrow> u32 \<Rightarrow> skiplist \<Rightarrow> (bool \<times> skiplist) run" where
  "sl_update key r t sl =
     run_bind (search_node key sl) (\<lambda>p.
     if p = None then Some (Inr (False, sl))
     else run_bind (Some (modify sl p (\<lambda>n. Inr (n\<lparr>data_node := r, sn_type := t\<rparr>)))) (\<lambda>sl'.
          Some (Inr (True, sl'))))"

text \<open>\<open>for (i = from; i < level; i++) update[i] = head\<close>, then the new current level.\<close>

definition raise_level :: "nat \<Rightarrow> nat option list \<Rightarrow> skiplist \<Rightarrow> nat option list \<times> skiplist" where
  "raise_level level upd sl =
     (if current_level sl < level
      then (map (\<lambda>i. if current_level sl \<le> i \<and> i < level then Some (head sl) else upd ! i) [0..<length upd],
            sl\<lparr>current_level := level\<rparr>)
      else (upd, sl))"

text \<open>The loop that splices a node in at levels \<open>i, ..., i + k - 1\<close>.\<close>

fun link_levels :: "nat \<Rightarrow> nat option list \<Rightarrow> nat \<Rightarrow> nat \<Rightarrow> skiplist \<Rightarrow> skiplist res" where
  "link_levels a upd i 0 sl = Inr sl"
| "link_levels a upd i (Suc k) sl =
     res_bind (rd upd i) (\<lambda>u.
     res_bind (get_forward sl u i) (\<lambda>f.
     res_bind (set_forward (Some a) i f sl) (\<lambda>sl1.
     res_bind (set_forward u i (Some a) sl1) (\<lambda>sl2.
     link_levels a upd (Suc i) k sl2))))"

definition set_backward :: "nat option \<Rightarrow> nat option \<Rightarrow> skiplist \<Rightarrow> skiplist res" where
  "set_backward p b sl = modify sl p (\<lambda>n. Inr (n\<lparr>backward := b\<rparr>))"

definition insert_at :: "nat \<Rightarrow> bytes \<Rightarrow> remote_ptr \<Rightarrow> u32 \<Rightarrow> skiplist \<Rightarrow> (bool \<times> skiplist) run" where
  "insert_at level key r t sl =
     run_bind (descend sl key 0 (current_level sl) (head sl) no_update) (\<lambda>(w, upd).
     (case make_new_node level key r t sl of (a, sl1) \<Rightarrow>
     (case raise_level level upd sl1 of (upd', sl2) \<Rightarrow>
     Some (res_bind (link_levels a upd' 0 level sl2) (\<lambda>sl3.
           res_bind (rd upd' 0) (\<lambda>u0.
           res_bind (set_backward (Some a) u0 sl3) (\<lambda>sl4.
           res_bind (get_forward sl4 (Some a) 0) (\<lambda>f.
           res_bind (if f \<noteq> None then set_backward f (Some a) sl4 else Inr sl4) (\<lambda>sl5.
           Inr (True, sl5))))))))))"

definition sl_insert :: "nat list \<Rightarrow> bytes \<Rightarrow> remote_ptr \<Rightarrow> u32 \<Rightarrow> skiplist \<Rightarrow> (bool \<times> skiplist) run" where
  "sl_insert draws key r t sl =
     (case random_level draws of None \<Rightarrow> None | Some level \<Rightarrow> insert_at level key r t sl)"

definition calibrate :: "nat \<Rightarrow> nat \<Rightarrow> skiplist \<Rightarrow> skiplist run" where
  "calibrate a level sl =
     run_bind (Some (deref sl (Some a))) (\<lambda>n.
     run_bind (descend sl (anchor n) 1 (current_level sl) (head sl) no_update) (\<lambda>(w, upd).
     (case raise_level level upd sl of (upd', sl1) \<Rightarrow>
     Some (link_levels a upd' 1 (level - 1) sl1))))"

definition fuzzy_search :: "bytes \<Rightarrow> skiplist \<Rightarrow> nat option run" where
  "fuzzy_search member sl =
     run_bind (descend sl member 0 (current_level sl) (head sl) no_update) (\<lambda>(w, _).
     run_bind (Some (deref sl (Some w))) (\<lambda>nw.
     run_bind (Some (rd (forwards nw) 0)) (\<lambda>f.
     (case f of
        None \<Rightarrow> Some (Inr (Some w))
      | Some m \<Rightarrow>
          run_bind (Some (deref sl (Some m))) (\<lambda>nm.
          Some (Inr (if anchor nm = member then Some m
                     else if member < anchor nm \<and> anchor nw \<le> member then Some w
                     else None)))))))"

text \<open>The loop of \<open>remove\<close> that unlinks the node while \<open>update[i]\<close> points to it.\<close>

fun unlink_levels :: "nat \<Rightarrow> nat option list \<Rightarrow> nat \<Rightarrow> nat \<Rightarrow> skiplist \<Rightarrow> skiplist res" where
  "unlink_levels a upd i 0 sl = Inr sl"
| "unlink_levels a upd i (Suc k) sl =
     res_bind (rd upd i) (\<lambda>u.
     res_bind (get_forward sl u i) (\<lambda>f.
     if f \<noteq> Some a then Inr sl
     else res_bind (get_forward sl (Some a) i) (\<lambda>g.
          res_bind (set_forward u i g sl) (\<lambda>sl1.
          unlink_levels a upd (Suc i) k sl1))))"

fun lower_level :: "nat \<Rightarrow> skiplist \<Rightarrow> skiplist res" where
  "lower_level 0 sl = Inr (sl\<lparr>current_level := 0\<rparr>)"
| "lower_level (Suc k) sl =
     res_bind (get_forward sl (Some (head sl)) k) (\<lambda>f.
     if f = None then lower_level k sl else Inr (sl\<lparr>current_level := Suc k\<rparr>))"

definition sl_remove :: "bytes \<Rightarrow> skiplist \<Rightarrow> (bool \<times> skiplist) run" where
  "sl_remove key sl =
     run_bind (descend sl key 0 (current_level sl) (head sl) no_update) (\<lambda>(w, upd).
     Some (
     res_bind (get_forward sl (Some w) 0) (\<lambda>f.
     res_bind (deref sl f) (\<lambda>n.
     if anchor n \<noteq> key then Inr (False, sl)
     else
       (let a = the f in
        res_bind (unlink_levels a upd 0 (current_level sl) sl) (\<lambda>sl1.
        res_bind (deref sl1 (Some a)) (\<lambda>na.
        res_bind (rd (forwards na) 0) (\<lambda>g.
        res_bind (if g \<noteq> None then set_backward g (backward na) sl1 else Inr sl1) (\<lambda>sl2.
        res_bind (lower_level (current_level sl2) sl2) (\<lambda>sl3.
        Inr (True, sl3\<lparr>heap := (heap sl3)(a := None)\<rparr>)))))))))))"

subsection \<open>Insertion in two parts\<close>

text \<open>\<open>ComputeNode::async_update\<close> links a new node behind a data node at the bottom level only
  and leaves the other levels to the thread that pops the queue and calls \<open>calibrate\<close>.\<close>

definition async_update :: "nat list \<Rightarrow> nat \<Rightarrow> bytes \<Rightarrow> u32 \<Rightarrow> remote_ptr \<Rightarrow> skiplist \<times> (nat \<times> nat) list \<Rightarrow>
    (skiplist \<times> (nat \<times> nat) list) run" where
  "async_update draws d key t r st =
     (case st of (sl, queue) \<Rightarrow>
     (case random_level draws of
        None \<Rightarrow> None
      | Some level \<Rightarrow>
          (case make_new_node level key r t sl of (a, sl1) \<Rightarrow>
          Some (
          res_bind (get_forward sl1 (Some d) 0) (\<lambda>f.
          res_bind (set_forward (Some a) 0 f sl1) (\<lambda>sl2.
          res_bind (set_forward (Some d) 0 (Some a) sl2) (\<lambda>sl3.
          res_bind (set_backward (Some a) (Some d) sl3) (\<lambda>sl4.
          Inr (sl4, if level = 1 then queue else queue @ [(level, a)])))))))))"

text \<open>The loop of the update thread, until the queue is empty.\<close>

fun drain_updates :: "skiplist \<Rightarrow> (nat \<times> nat) list \<Rightarrow> skiplist run" where
  "drain_updates sl [] = Some (Inr sl)"
| "drain_updates sl ((level, a) # queue) = run_bind (calibrate a level sl) (\<lambda>sl'. drain_updates sl' queue)"

end
