(* ===== verification/SkipListInv.thy ===== *)
theory SkipListInv
  imports SkipList
begin

text \<open>
  The skip list's invariant and what each operation does to it.  \<open>sl_inv sl xs hgt\<close> says that
  \<open>xs\<close> are the nodes in key order and that every level \<open>i\<close> chains exactly the nodes linked
  above \<open>i\<close>, \<open>hgt\<close> counting the levels a node is linked at.  A search of any kind reaches the
  predecessor \<open>pos\<close> of its key at every level; splicing and unlinking are proved once for one
  level and lifted to all.
\<close>

subsection \<open>Chains of one level\<close>

fun linked :: "skiplist \<Rightarrow> nat \<Rightarrow> nat \<Rightarrow> nat list \<Rightarrow> bool" where
  "linked sl i w [] \<longleftrightarrow> get_forward sl (Some w) i = Inr None"
| "linked sl i w (y # ys) \<longleftrightarrow> get_forward sl (Some w) i = Inr (Some y) \<and> linked sl i y ys"

definition akey :: "skiplist \<Rightarrow> nat \<Rightarrow> bytes" where
  "akey sl a = (case heap sl a of None \<Rightarrow> [] | Some n \<Rightarrow> anchor n)"

lemma get_forward_deref: "get_forward sl (Some a) i = Inr f \<Longrightarrow> \<exists>n. heap sl a = Some n \<and> i < length (forwards n) \<and> forwards n ! i = f"
  by (auto simp: get_forward_def deref_def rd_eq_Inr split: option.splits)

lemma get_forward_eq: "heap sl a = Some n \<Longrightarrow> get_forward sl (Some a) i = rd (forwards n) i"
  by (simp add: get_forward_def deref_def)

lemma linked_deref: "linked sl i w ys \<Longrightarrow> a = w \<or> a \<in> set ys \<Longrightarrow> \<exists>n. heap sl a = Some n \<and> i < length (forwards n)"
  by (induction ys arbitrary: w) (auto dest: get_forward_deref)

lemma linked_append: "linked sl i w (pre @ y # suf) \<Longrightarrow> linked sl i y suf"
  by (induction pre arbitrary: w) auto

lemma deref_akey: "deref sl (Some a) = Inr n \<Longrightarrow> anchor n = akey sl a"
  by (auto simp: deref_def akey_def split: option.splits)

lemma walk_linked:
  "linked sl i w ys \<Longrightarrow> walk sl i key w = Some (Inr (last (w # takeWhile (\<lambda>a. akey sl a < key) ys)))"
proof (induction ys arbitrary: w)
  case Nil
  then show ?case by (subst walk.simps) simp
next
  case (Cons y ys)
  obtain n where n: "deref sl (Some y) = Inr n"
    using linked_deref [OF Cons.prems, of y] by (auto simp: deref_def)
  have f: "get_forward sl (Some w) i = Inr (Some y)" and l: "linked sl i y ys" using Cons.prems by simp_all
  show ?case
    by (subst walk.simps) (simp add: f n deref_akey [OF n] Cons.IH [OF l])
qed

subsection \<open>The invariant\<close>

definition below :: "skiplist \<Rightarrow> bytes \<Rightarrow> nat \<Rightarrow> bool" where
  "below sl key a \<longleftrightarrow> akey sl a < key"

definition level_list :: "(nat \<Rightarrow> nat) \<Rightarrow> nat \<Rightarrow> nat list \<Rightarrow> nat list" where
  "level_list hgt i xs = filter (\<lambda>a. i < hgt a) xs"

definition sl_inv :: "skiplist \<Rightarrow> nat list \<Rightarrow> (nat \<Rightarrow> nat) \<Rightarrow> bool" where
  "sl_inv sl xs hgt \<longleftrightarrow>
     (\<forall>i<MAX_LEVEL. linked sl i (head sl) (level_list hgt i xs)) \<and>
     distinct (head sl # xs) \<and> sorted_wrt (\<lambda>a b. akey sl a < akey sl b) xs \<and>
     (\<forall>a\<in>set xs. 0 < hgt a \<and> hgt a \<le> current_level sl) \<and>
     current_level sl \<le> MAX_LEVEL \<and>
     akey sl (head sl) = [] \<and> (\<forall>a\<in>dom (heap sl). a < brk sl)"

lemma sl_linked: "sl_inv sl xs hgt \<Longrightarrow> i < 16 \<Longrightarrow> linked sl i (head sl) (level_list hgt i xs)"
  by (simp add: sl_inv_def)

lemma sl_sorted: "sl_inv sl xs hgt \<Longrightarrow> sorted_wrt (\<lambda>a b. akey sl a < akey sl b) xs"
  by (simp add: sl_inv_def)

text \<open>The predecessor at level \<open>i\<close>.\<close>

definition pos :: "skiplist \<Rightarrow> nat list \<Rightarrow> (nat \<Rightarrow> nat) \<Rightarrow> bytes \<Rightarrow> nat \<Rightarrow> nat" where
  "pos sl xs hgt key i = last (head sl # filter (below sl key) (level_list hgt i xs))"

lemma sorted_takeWhile:
  "sorted_wrt (\<lambda>a b. akey sl a < akey sl b) ys \<Longrightarrow>
   takeWhile (\<lambda>a. akey sl a < key) ys = filter (below sl key) ys"
proof (induction ys)
  case (Cons y ys)
  show ?case
  proof (cases "akey sl y < key")
    case True with Cons show ?thesis by (simp add: below_def)
  next
    case False
    have "filter (below sl key) ys = []"
      using Cons.prems False by (auto simp: filter_empty_conv below_def)
    with False show ?thesis by (simp add: below_def [of sl key y])
  qed
qed simp

lemma sorted_level_list: "sorted_wrt P xs \<Longrightarrow> sorted_wrt P (level_list hgt i xs)"
  by (simp add: level_list_def sorted_wrt_filter)

definition at_or_below :: "skiplist \<Rightarrow> nat list \<Rightarrow> (nat \<Rightarrow> nat) \<Rightarrow> bytes \<Rightarrow> nat \<Rightarrow> nat \<Rightarrow> bool" where
  "at_or_below sl xs hgt key i w \<longleftrightarrow> w = head sl \<or> (w \<in> set xs \<and> below sl key w \<and> i < hgt w)"

lemma walk_pos:
  assumes inv: "sl_inv sl xs hgt" and i: "i < 16" and w: "at_or_below sl xs hgt key i w"
  shows "walk sl i key w = Some (Inr (pos sl xs hgt key i))"
proof -
  let ?ys = "level_list hgt i xs"
  have l: "linked sl i (head sl) ?ys" and s: "sorted_wrt (\<lambda>a b. akey sl a < akey sl b) ?ys"
    using inv i by (simp_all add: sl_inv_def sorted_level_list)
  show ?thesis
  proof (cases "w = head sl")
    case True
    with walk_linked [OF l] sorted_takeWhile [OF s] show ?thesis by (simp add: pos_def)
  next
    case False
    with w have "w \<in> set ?ys" and b: "below sl key w" by (auto simp: at_or_below_def level_list_def)
    then obtain pre suf where ps: "?ys = pre @ w # suf" by (meson split_list)
    have s2: "sorted_wrt (\<lambda>a b. akey sl a < akey sl b) suf" using s by (simp add: ps sorted_wrt_append)
    have "filter (below sl key) ?ys = filter (below sl key) pre @ w # filter (below sl key) suf"
      using b by (simp add: ps)
    then have "pos sl xs hgt key i = last (w # filter (below sl key) suf)" by (simp add: pos_def)
    with walk_linked [OF linked_append [OF l [unfolded ps]]] sorted_takeWhile [OF s2] show ?thesis by simp
  qed
qed

lemma pos_at_or_below: "at_or_below sl xs hgt key i (pos sl xs hgt key i)"
proof (cases "filter (below sl key) (level_list hgt i xs) = []")
  case False
  then have "last (filter (below sl key) (level_list hgt i xs)) \<in> set (filter (below sl key) (level_list hgt i xs))"
    by (rule last_in_set)
  with False show ?thesis by (auto simp: pos_def at_or_below_def level_list_def)
qed (simp add: pos_def at_or_below_def)

lemma at_or_below_mono: "at_or_below sl xs hgt key i w \<Longrightarrow> j \<le> i \<Longrightarrow> at_or_below sl xs hgt key j w"
  by (auto simp: at_or_below_def)

definition upd_of :: "skiplist \<Rightarrow> nat list \<Rightarrow> (nat \<Rightarrow> nat) \<Rightarrow> bytes \<Rightarrow> nat \<Rightarrow> nat \<Rightarrow> nat option list \<Rightarrow> nat option list" where
  "upd_of sl xs hgt key lo k upd = map (\<lambda>i. if lo \<le> i \<and> i < k then Some (pos sl xs hgt key i) else upd ! i) [0..<length upd]"

lemma descend_pos:
  assumes inv: "sl_inv sl xs hgt"
  shows "k \<le> 16 \<Longrightarrow> length upd = 16 \<Longrightarrow> (0 < k \<Longrightarrow> at_or_below sl xs hgt key (k - 1) w) \<Longrightarrow>
   descend sl key lo k w upd = Some (Inr (if lo < k then pos sl xs hgt key lo else w, upd_of sl xs hgt key lo k upd))"
proof (induction k arbitrary: w upd)
  case 0
  then show ?case by (auto simp: upd_of_def intro!: nth_equalityI)
next
  case (Suc i)
  show ?case
  proof (cases "i < lo")
    case True
    then show ?thesis by (auto simp: upd_of_def intro!: nth_equalityI)
  next
    case False
    let ?p = "pos sl xs hgt key i"
    have w: "walk sl i key w = Some (Inr ?p)" using walk_pos [OF inv] Suc.prems by simp
    have "descend sl key lo i ?p (upd[i := Some ?p]) =
        Some (Inr (if lo < i then pos sl xs hgt key lo else ?p, upd_of sl xs hgt key lo i (upd[i := Some ?p])))"
      using Suc.prems by (intro Suc.IH) (auto intro: at_or_below_mono [OF pos_at_or_below])
    moreover have "upd_of sl xs hgt key lo i (upd[i := Some ?p]) = upd_of sl xs hgt key lo (Suc i) upd"
      using False Suc.prems by (auto simp: upd_of_def nth_list_update intro!: nth_equalityI)
    moreover have "lo < i \<or> lo = i" using False by auto
    ultimately show ?thesis using w False Suc.prems by auto
  qed
qed

lemma descend_all:
  assumes inv: "sl_inv sl xs hgt"
  shows "descend sl key 0 (current_level sl) (head sl) no_update =
    Some (Inr (pos sl xs hgt key 0, upd_of sl xs hgt key 0 (current_level sl) no_update))"
proof -
  have "xs = []" if "current_level sl = 0" using inv that by (cases xs) (auto simp: sl_inv_def)
  then have "pos sl xs hgt key 0 = head sl" if "current_level sl = 0" using that by (simp add: pos_def level_list_def)
  then show ?thesis
    using descend_pos [OF inv, of "current_level sl" no_update key "head sl" 0] inv
    by (auto simp: no_update_def at_or_below_def sl_inv_def)
qed

subsection \<open>Splitting the list at a key\<close>

lemma level_list_0: "sl_inv sl xs hgt \<Longrightarrow> level_list hgt 0 xs = xs"
  by (simp add: level_list_def sl_inv_def)

lemma sorted_split:
  "sorted_wrt (\<lambda>a b. akey sl a < akey sl b) ys \<Longrightarrow>
   ys = filter (below sl key) ys @ filter (\<lambda>a. \<not> below sl key a) ys"
proof (induction ys)
  case (Cons y ys)
  show ?case
  proof (cases "below sl key y")
    case True with Cons show ?thesis by simp
  next
    case False
    have "filter (below sl key) ys = []"
      using Cons.prems False by (auto simp: filter_empty_conv below_def)
    moreover have "filter (\<lambda>a. \<not> below sl key a) ys = ys"
      using Cons.prems False by (auto simp: filter_id_conv below_def)
    ultimately show ?thesis using False by simp
  qed
qed simp

lemma linked_last:
  "linked sl i w (A @ B) \<Longrightarrow> get_forward sl (Some (last (w # A))) i = Inr (case B of [] \<Rightarrow> None | b # _ \<Rightarrow> Some b)"
proof (induction A arbitrary: w)
  case Nil then show ?case by (cases B) auto
qed auto

text \<open>What follows the predecessor: the first node at or above the key.\<close>

definition succ_of :: "skiplist \<Rightarrow> nat list \<Rightarrow> bytes \<Rightarrow> nat option" where
  "succ_of sl xs key = (case filter (\<lambda>a. \<not> below sl key a) xs of [] \<Rightarrow> None | b # _ \<Rightarrow> Some b)"

lemma pos_succ:
  assumes inv: "sl_inv sl xs hgt" and i: "i < 16"
  shows "get_forward sl (Some (pos sl xs hgt key i)) i = Inr (succ_of sl (level_list hgt i xs) key)"
proof -
  let ?ys = "level_list hgt i xs"
  have l: "linked sl i (head sl) ?ys" and s: "sorted_wrt (\<lambda>a b. akey sl a < akey sl b) ?ys"
    using inv i by (simp_all add: sl_inv_def sorted_level_list)
  have "linked sl i (head sl) (filter (below sl key) ?ys @ filter (\<lambda>a. \<not> below sl key a) ?ys)"
    using l sorted_split [OF s, of key] by simp
  from linked_last [OF this] show ?thesis by (simp add: pos_def succ_of_def)
qed

definition find_anchor :: "skiplist \<Rightarrow> nat list \<Rightarrow> bytes \<Rightarrow> nat option" where
  "find_anchor sl xs key = List.find (\<lambda>a. akey sl a = key) xs"

lemma succ_of_Some:
  assumes "sl_inv sl xs hgt" "succ_of sl xs key = Some b"
  shows "b \<in> set xs" "key \<le> akey sl b" "\<exists>n. deref sl (Some b) = Inr n \<and> anchor n = akey sl b"
proof -
  have "b \<in> set (filter (\<lambda>a. \<not> below sl key a) xs)"
    using assms(2) by (auto simp: succ_of_def split: list.splits) (metis list.set_intros(1) mem_Collect_eq set_filter)+
  then show b: "b \<in> set xs" and "key \<le> akey sl b" by (auto simp: below_def)
  have "linked sl 0 (head sl) xs" using sl_linked [OF assms(1), of 0] level_list_0 [OF assms(1)] by simp
  from linked_deref [OF this, of b] b show "\<exists>n. deref sl (Some b) = Inr n \<and> anchor n = akey sl b"
    by (auto simp: deref_def akey_def)
qed

subsection \<open>Searching\<close>

definition pred_of :: "skiplist \<Rightarrow> nat list \<Rightarrow> bytes \<Rightarrow> nat" where
  "pred_of sl xs key = last (head sl # filter (\<lambda>a. akey sl a \<le> key) xs)"

lemma pos_0: "sl_inv sl xs hgt \<Longrightarrow> pos sl xs hgt key 0 = last (head sl # filter (below sl key) xs)"
  by (simp add: pos_def level_list_0)

lemma filter_le_cases:
  assumes inv: "sl_inv sl xs hgt"
  shows "filter (\<lambda>a. akey sl a \<le> key) xs =
    filter (below sl key) xs @ (case succ_of sl xs key of None \<Rightarrow> [] | Some b \<Rightarrow> if akey sl b = key then [b] else [])"
proof -
  let ?A = "filter (below sl key) xs" and ?B = "filter (\<lambda>a. \<not> below sl key a) xs"
  have xs: "xs = ?A @ ?B" by (rule sorted_split [OF sl_sorted [OF inv]])
  have "filter (\<lambda>a. akey sl a \<le> key) ?A = ?A" by (rule filter_True) (auto simp: below_def)
  moreover have "filter (\<lambda>a. akey sl a \<le> key) ?B = (case succ_of sl xs key of None \<Rightarrow> [] | Some b \<Rightarrow> if akey sl b = key then [b] else [])"
  proof (cases ?B)
    case Nil
    then show ?thesis by (simp add: succ_of_def)
  next
    case (Cons b B)
    have "sorted_wrt (\<lambda>a b. akey sl a < akey sl b) (b # B)"
      using sorted_wrt_filter [OF sl_sorted [OF inv], of "\<lambda>a. \<not> below sl key a"] unfolding Cons .
    moreover have "b \<in> set ?B" unfolding Cons by simp
    then have b: "key \<le> akey sl b" by (simp add: below_def not_less)
    ultimately have "filter (\<lambda>a. akey sl a \<le> key) B = []" by (auto simp: filter_empty_conv)
    with b show ?thesis unfolding Cons by (auto simp: succ_of_def Cons)
  qed
  ultimately show ?thesis using filter_append [of "\<lambda>a. akey sl a \<le> key" ?A ?B] xs by simp
qed

lemma pos_deref:
  assumes inv: "sl_inv sl xs hgt"
  shows "\<exists>n. deref sl (Some (pos sl xs hgt key 0)) = Inr n \<and> anchor n \<le> key \<and> rd (forwards n) 0 = Inr (succ_of sl xs key)"
proof -
  let ?p = "pos sl xs hgt key 0"
  have "get_forward sl (Some ?p) 0 = Inr (succ_of sl xs key)"
    using pos_succ [OF inv, of 0 key] by (simp add: level_list_0 [OF inv])
  then obtain n where n: "heap sl ?p = Some n" "rd (forwards n) 0 = Inr (succ_of sl xs key)"
    using get_forward_deref get_forward_eq by metis
  have "akey sl ?p \<le> key"
    using pos_at_or_below [of sl xs hgt key 0] inv by (auto simp: at_or_below_def sl_inv_def below_def)
  with n show ?thesis by (simp add: deref_def akey_def)
qed

lemma fuzzy_search_pred:
  assumes inv: "sl_inv sl xs hgt"
  shows "fuzzy_search key sl = Some (Inr (Some (pred_of sl xs key)))"
proof -
  obtain n where n: "deref sl (Some (pos sl xs hgt key 0)) = Inr n" "anchor n \<le> key"
    "rd (forwards n) 0 = Inr (succ_of sl xs key)" using pos_deref [OF inv] by blast
  show ?thesis
  proof (cases "succ_of sl xs key")
    case None
    with n show ?thesis
      by (simp add: fuzzy_search_def descend_all [OF inv] pred_of_def filter_le_cases [OF inv] pos_0 [OF inv])
  next
    case (Some b)
    from succ_of_Some [OF inv this] obtain nb where b: "key \<le> akey sl b" "deref sl (Some b) = Inr nb" "anchor nb = akey sl b"
      by blast
    show ?thesis
    proof (cases "akey sl b = key")
      case True
      with n Some b show ?thesis
        by (simp add: fuzzy_search_def descend_all [OF inv] pred_of_def filter_le_cases [OF inv])
    next
      case False
      with b(1) have "key < akey sl b" by simp
      with n Some b False show ?thesis
        by (simp add: fuzzy_search_def descend_all [OF inv] pred_of_def filter_le_cases [OF inv] pos_0 [OF inv])
    qed
  qed
qed

lemma search_node_eq:
  assumes inv: "sl_inv sl xs hgt"
  shows "search_node key sl = Some (Inr (if \<exists>b\<in>set xs. akey sl b = key then Some (pred_of sl xs key) else None))"
proof -
  obtain n where n: "deref sl (Some (pos sl xs hgt key 0)) = Inr n" "rd (forwards n) 0 = Inr (succ_of sl xs key)"
    using pos_deref [OF inv] by blast
  then have gf: "get_forward sl (Some (pos sl xs hgt key 0)) 0 = Inr (succ_of sl xs key)"
    by (simp add: get_forward_def)
  show ?thesis
  proof (cases "succ_of sl xs key")
    case None
    then have "filter (\<lambda>a. \<not> below sl key a) xs = []" by (simp add: succ_of_def split: list.splits)
    then have "\<not> (\<exists>b\<in>set xs. akey sl b = key)" by (auto simp: filter_empty_conv below_def)
    with None gf show ?thesis by (simp add: search_node_def descend_all [OF inv])
  next
    case (Some b)
    from succ_of_Some [OF inv this] obtain nb where b: "b \<in> set xs" "key \<le> akey sl b"
      "deref sl (Some b) = Inr nb" "anchor nb = akey sl b" by blast
    have fl: "filter (\<lambda>a. akey sl a \<le> key) xs = filter (below sl key) xs @ (if akey sl b = key then [b] else [])"
      using filter_le_cases [OF inv, of key] Some by simp
    show ?thesis
    proof (cases "akey sl b = key")
      case True
      with Some gf b show ?thesis
        by (auto simp: search_node_def descend_all [OF inv] pred_of_def fl)
    next
      case False
      have "\<not> (\<exists>c\<in>set xs. akey sl c = key)"
      proof
        assume "\<exists>c\<in>set xs. akey sl c = key"
        then obtain c where "c \<in> set (filter (\<lambda>a. akey sl a \<le> key) xs)" "akey sl c = key" by auto
        then show False unfolding fl using False by (auto simp: below_def)
      qed
      with Some gf b False show ?thesis by (simp add: search_node_def descend_all [OF inv])
    qed
  qed
qed

subsection \<open>Writing forward pointers\<close>

text \<open>Two lists agree when they differ in forward pointers at most.\<close>

definition relinked :: "skiplist \<Rightarrow> skiplist \<Rightarrow> bool" where
  "relinked sl sl' \<longleftrightarrow> head sl' = head sl \<and> current_level sl' = current_level sl \<and> brk sl' = brk sl \<and>
     (\<forall>a. map_option (\<lambda>n. n\<lparr>forwards := []\<rparr>) (heap sl' a) = map_option (\<lambda>n. n\<lparr>forwards := []\<rparr>) (heap sl a))"

lemma relinked_refl: "relinked sl sl"
  by (simp add: relinked_def)

lemma relinked_trans: "relinked s1 s2 \<Longrightarrow> relinked s2 s3 \<Longrightarrow> relinked s1 s3"
  by (simp add: relinked_def)

lemma relinked_fields:
  assumes "relinked sl sl'"
  shows "akey sl' = akey sl" "dom (heap sl') = dom (heap sl)" "head sl' = head sl"
    "brk sl' = brk sl" "current_level sl' = current_level sl"
    "map_option backward (heap sl' a) = map_option backward (heap sl a)"
    "map_option data_node (heap sl' a) = map_option data_node (heap sl a)"
    "map_option sn_type (heap sl' a) = map_option sn_type (heap sl a)"
proof -
  have h: "map_option (\<lambda>n. n\<lparr>forwards := []\<rparr>) (heap sl' b) = map_option (\<lambda>n. n\<lparr>forwards := []\<rparr>) (heap sl b)" for b
    using assms by (simp add: relinked_def)
  have m: "map_option g (heap sl' b) = map_option g (heap sl b)" if "\<And>n. g (n\<lparr>forwards := []\<rparr>) = g n" for g :: "skip_node \<Rightarrow> 'x" and b
    using arg_cong [OF h [of b], of "map_option g"] that by (simp add: option.map_comp comp_def)
  show "akey sl' = akey sl"
  proof
    fix b show "akey sl' b = akey sl b"
      using m [of anchor b] by (cases "heap sl b"; cases "heap sl' b") (auto simp: akey_def)
  qed
  show "dom (heap sl') = dom (heap sl)"
    using h by (metis (no_types, lifting) domD domI map_option_is_None not_None_eq subsetI subset_antisym)
  show "head sl' = head sl" "brk sl' = brk sl" "current_level sl' = current_level sl"
    using assms by (simp_all add: relinked_def)
  show "map_option backward (heap sl' a) = map_option backward (heap sl a)"
    "map_option data_node (heap sl' a) = map_option data_node (heap sl a)"
    "map_option sn_type (heap sl' a) = map_option sn_type (heap sl a)"
    by (rule m, simp)+
qed

lemma set_forward_ok:
  assumes "get_forward sl (Some a) i = Inr f"
  obtains sl' where "set_forward (Some a) i q sl = Inr sl'" "relinked sl sl'"
    "\<And>b j. get_forward sl' (Some b) j = (if b = a \<and> j = i then Inr q else get_forward sl (Some b) j)"
proof -
  obtain n where n: "heap sl a = Some n" "i < length (forwards n)" using get_forward_deref [OF assms] by blast
  let ?n = "n\<lparr>forwards := (forwards n)[i := q]\<rparr>"
  show ?thesis
  proof (rule that [of "sl\<lparr>heap := (heap sl)(a \<mapsto> ?n)\<rparr>"])
    show "set_forward (Some a) i q sl = Inr (sl\<lparr>heap := (heap sl)(a \<mapsto> ?n)\<rparr>)"
      using n by (simp add: set_forward_def modify_def deref_def)
    show "relinked sl (sl\<lparr>heap := (heap sl)(a \<mapsto> ?n)\<rparr>)" using n by (simp add: relinked_def)
    fix b j
    show "get_forward (sl\<lparr>heap := (heap sl)(a \<mapsto> ?n)\<rparr>) (Some b) j =
        (if b = a \<and> j = i then Inr q else get_forward sl (Some b) j)"
      using n by (auto simp: get_forward_def deref_def rd_def nth_list_update)
  qed
qed

lemma link_levels_ok:
  "(\<And>j. i \<le> j \<Longrightarrow> j < i + k \<Longrightarrow> j < length upd \<and> upd ! j = Some (u j) \<and> u j \<noteq> a \<and> get_forward sl (Some (u j)) j = Inr (v j) \<and>
      (\<exists>f. get_forward sl (Some a) j = Inr f)) \<Longrightarrow>
   \<exists>sl'. link_levels a upd i k sl = Inr sl' \<and> relinked sl sl' \<and>
     (\<forall>b j. get_forward sl' (Some b) j =
        (if i \<le> j \<and> j < i + k \<and> b = a then Inr (v j)
         else if i \<le> j \<and> j < i + k \<and> b = u j then Inr (Some a) else get_forward sl (Some b) j))"
proof (induction k arbitrary: i sl)
  case 0
  then show ?case by (auto simp: relinked_refl)
next
  case (Suc k)
  have p: "i < length upd" "upd ! i = Some (u i)" "u i \<noteq> a" "get_forward sl (Some (u i)) i = Inr (v i)"
    and "\<exists>f. get_forward sl (Some a) i = Inr f"
    using Suc.prems [of i] by simp_all
  then obtain f where f: "get_forward sl (Some a) i = Inr f" by blast
  obtain s1 where s1: "set_forward (Some a) i (v i) sl = Inr s1" "relinked sl s1"
    "\<And>b j. get_forward s1 (Some b) j = (if b = a \<and> j = i then Inr (v i) else get_forward sl (Some b) j)"
    using set_forward_ok [OF f, of "v i"] by metis
  have g: "get_forward s1 (Some (u i)) i = Inr (v i)" using p by (simp add: s1(3))
  obtain s2 where s2: "set_forward (Some (u i)) i (Some a) s1 = Inr s2" "relinked s1 s2"
    "\<And>b j. get_forward s2 (Some b) j = (if b = u i \<and> j = i then Inr (Some a) else get_forward s1 (Some b) j)"
    using set_forward_ok [OF g, of "Some a"] by metis
  have "\<exists>sl'. link_levels a upd (Suc i) k s2 = Inr sl' \<and> relinked s2 sl' \<and>
     (\<forall>b j. get_forward sl' (Some b) j =
        (if Suc i \<le> j \<and> j < Suc i + k \<and> b = a then Inr (v j)
         else if Suc i \<le> j \<and> j < Suc i + k \<and> b = u j then Inr (Some a) else get_forward s2 (Some b) j))"
  proof (rule Suc.IH)
    fix j assume "Suc i \<le> j" "j < Suc i + k"
    with Suc.prems [of j] show "j < length upd \<and> upd ! j = Some (u j) \<and> u j \<noteq> a \<and> get_forward s2 (Some (u j)) j = Inr (v j) \<and>
      (\<exists>f. get_forward s2 (Some a) j = Inr f)" by (simp add: s1(3) s2(3))
  qed
  then obtain sl' where sl': "link_levels a upd (Suc i) k s2 = Inr sl'" "relinked s2 sl'"
    "\<And>b j. get_forward sl' (Some b) j =
        (if Suc i \<le> j \<and> j < Suc i + k \<and> b = a then Inr (v j)
         else if Suc i \<le> j \<and> j < Suc i + k \<and> b = u j then Inr (Some a) else get_forward s2 (Some b) j)" by blast
  have run: "link_levels a upd i (Suc k) sl = Inr sl'"
    using p s1(1) s2(1) sl'(1) by simp
  have "get_forward sl' (Some b) j =
        (if i \<le> j \<and> j < i + Suc k \<and> b = a then Inr (v j)
         else if i \<le> j \<and> j < i + Suc k \<and> b = u j then Inr (Some a) else get_forward sl (Some b) j)" for b j
    using p(3) by (cases "j = i") (auto simp: sl'(3) s2(3) s1(3))
  with run relinked_trans [OF relinked_trans [OF s1(2) s2(2)] sl'(2)] show ?case by blast
qed

lemma linked_cong:
  "(\<And>b. b = w \<or> b \<in> set ys \<Longrightarrow> get_forward sl' (Some b) i = get_forward sl (Some b) i) \<Longrightarrow> linked sl' i w ys = linked sl i w ys"
  by (induction ys arbitrary: w) auto

lemma linked_splice:
  assumes "linked sl i w (A @ B)" "distinct (w # A @ B)" "a \<notin> set (w # A @ B)"
    and "\<And>b. get_forward sl' (Some b) i =
      (if b = a then get_forward sl (Some (last (w # A))) i else if b = last (w # A) then Inr (Some a) else get_forward sl (Some b) i)"
  shows "linked sl' i w (A @ a # B)"
  using assms
proof (induction A arbitrary: w)
  case Nil
  have "linked sl' i a B"
  proof (cases B)
    case Nil2: Nil
    with Nil show ?thesis by simp
  next
    case (Cons b B')
    have "linked sl' i b B' = linked sl i b B'"
      by (rule linked_cong) (use Nil Cons in auto)
    with Nil Cons show ?thesis by simp
  qed
  with Nil show ?case by simp
next
  case (Cons x A)
  have "linked sl' i x (A @ a # B)"
    by (rule Cons.IH) (use Cons.prems in auto)
  moreover have "w \<noteq> last (x # A)" "w \<noteq> a" using Cons.prems(2,3) last_in_set [of "x # A"] by auto
  ultimately show ?case using Cons.prems(1,4) by simp
qed

lemma linked_unsplice:
  assumes "linked sl i w (A @ a # B)" "distinct (w # A @ a # B)"
    and "\<And>b. b \<noteq> a \<Longrightarrow> get_forward sl' (Some b) i =
      (if b = last (w # A) then get_forward sl (Some a) i else get_forward sl (Some b) i)"
  shows "linked sl' i w (A @ B)"
  using assms
proof (induction A arbitrary: w)
  case Nil
  show ?case
  proof (cases B)
    case Nil2: Nil
    with Nil show ?thesis by simp
  next
    case (Cons b B')
    have "linked sl' i b B' = linked sl i b B'"
    proof (rule linked_cong)
      fix c assume "c = b \<or> c \<in> set B'"
      then have "c \<noteq> a" "c \<noteq> w" using Nil.prems(2) Cons by auto
      then show "get_forward sl' (Some c) i = get_forward sl (Some c) i" using Nil.prems(3) [of c] by simp
    qed
    with Nil Cons show ?thesis by simp
  qed
next
  case (Cons x A)
  have "linked sl' i x (A @ B)"
    by (rule Cons.IH) (use Cons.prems in auto)
  moreover have "w \<noteq> last (x # A)" "w \<noteq> a" using Cons.prems(2) last_in_set [of "x # A"] by auto
  ultimately show ?case using Cons.prems(1,3) by simp
qed

subsection \<open>Back pointers\<close>

fun back_linked :: "skiplist \<Rightarrow> nat \<Rightarrow> nat list \<Rightarrow> bool" where
  "back_linked sl w [] \<longleftrightarrow> True"
| "back_linked sl w (y # ys) \<longleftrightarrow> map_option backward (heap sl y) = Some (Some w) \<and> back_linked sl y ys"

lemma back_linked_append:
  "back_linked sl w (A @ B) \<longleftrightarrow> back_linked sl w A \<and> back_linked sl (last (w # A)) B"
  by (induction A arbitrary: w) auto

lemma back_linked_cong:
  "(\<And>b. b \<in> set ys \<Longrightarrow> map_option backward (heap sl' b) = map_option backward (heap sl b)) \<Longrightarrow>
   back_linked sl' w ys = back_linked sl w ys"
  by (induction ys arbitrary: w) auto

text \<open>Lists that differ in back pointers at most.\<close>

definition same_links :: "skiplist \<Rightarrow> skiplist \<Rightarrow> bool" where
  "same_links sl sl' \<longleftrightarrow> head sl' = head sl \<and> current_level sl' = current_level sl \<and> brk sl' = brk sl \<and>
     dom (heap sl') = dom (heap sl) \<and> akey sl' = akey sl \<and> get_forward sl' = get_forward sl \<and>
     (\<forall>a. map_option data_node (heap sl' a) = map_option data_node (heap sl a)) \<and>
     (\<forall>a. map_option sn_type (heap sl' a) = map_option sn_type (heap sl a))"

lemma same_links_trans: "same_links s1 s2 \<Longrightarrow> same_links s2 s3 \<Longrightarrow> same_links s1 s3"
  by (simp add: same_links_def)

lemma set_backward_ok:
  assumes "heap sl a = Some n"
  obtains sl' where "set_backward (Some a) b sl = Inr sl'" "same_links sl sl'"
    "\<forall>c. map_option backward (heap sl' c) = (if c = a then Some b else map_option backward (heap sl c))"
proof -
  define sl' where "sl' = sl\<lparr>heap := (heap sl)(a \<mapsto> n\<lparr>backward := b\<rparr>)\<rparr>"
  have "set_backward (Some a) b sl = Inr sl'"
    using assms by (simp add: set_backward_def modify_def deref_def sl'_def)
  moreover have "akey sl' = akey sl"
    using assms by (auto simp: akey_def sl'_def fun_eq_iff)
  moreover have "get_forward sl' = get_forward sl"
    using assms by (auto simp: get_forward_def deref_def sl'_def fun_eq_iff split: option.splits)
  moreover have "dom (heap sl') = dom (heap sl)" using assms by (auto simp: sl'_def)
  ultimately show ?thesis
    using assms by (intro that [of sl']) (auto simp: same_links_def sl'_def)
qed

lemma linked_same: "get_forward sl' = get_forward sl \<Longrightarrow> linked sl' i w ys = linked sl i w ys"
  by (rule linked_cong) simp

lemma sl_inv_same:
  assumes "same_links sl sl'" "sl_inv sl xs hgt"
  shows "sl_inv sl' xs hgt"
proof -
  have "linked sl' i w ys = linked sl i w ys" for i w ys
    using assms(1) by (intro linked_same) (simp add: same_links_def)
  with assms show ?thesis by (simp add: same_links_def sl_inv_def)
qed

subsection \<open>Insertion\<close>

lemma pos_above:
  assumes inv: "sl_inv sl xs hgt" and "current_level sl \<le> j"
  shows "pos sl xs hgt key j = head sl" "level_list hgt j xs = []"
proof -
  show l: "level_list hgt j xs = []"
    using assms by (force simp: level_list_def filter_empty_conv sl_inv_def)
  show "pos sl xs hgt key j = head sl" by (simp add: pos_def l)
qed

lemma sl_inv_dom:
  assumes "sl_inv sl xs hgt" "a = head sl \<or> a \<in> set xs"
  shows "a \<in> dom (heap sl)" "a < brk sl"
proof -
  have "linked sl 0 (head sl) xs" using sl_linked [OF assms(1), of 0] level_list_0 [OF assms(1)] by simp
  with linked_deref [OF this assms(2)] show "a \<in> dom (heap sl)" by auto
  with assms(1) show "a < brk sl" by (simp add: sl_inv_def)
qed

definition xs_insert :: "skiplist \<Rightarrow> bytes \<Rightarrow> nat \<Rightarrow> nat list \<Rightarrow> nat list" where
  "xs_insert sl key a xs = filter (below sl key) xs @ a # filter (\<lambda>b. \<not> below sl key b) xs"

lemma set_xs_insert [simp]: "set (xs_insert sl key a xs) = insert a (set xs)"
  by (auto simp: xs_insert_def)

lemma raise_level_eq:
  assumes "length upd = 16" "level \<le> 16"
  shows "raise_level level upd sl =
    (map (\<lambda>i. if current_level sl \<le> i \<and> i < level then Some (head sl) else upd ! i) [0..<16],
     sl\<lparr>current_level := max (current_level sl) level\<rparr>)"
proof (cases "current_level sl < level")
  case True
  then show ?thesis using assms by (simp add: raise_level_def max_def)
next
  case False
  then have "map (\<lambda>i. if current_level sl \<le> i \<and> i < level then Some (head sl) else upd ! i) [0..<16] = upd"
    using assms by (intro nth_equalityI) auto
  with False show ?thesis by (simp add: raise_level_def max_def del: upt_rec_numeral)
qed

lemma sorted_insert:
  assumes s: "sorted_wrt (\<lambda>a b. akey sl a < akey sl b) xs" and new: "key \<notin> akey sl ` set xs"
    and ak: "\<And>b. b \<in> set xs \<Longrightarrow> akey sl' b = akey sl b" "akey sl' a = key"
  shows "sorted_wrt (\<lambda>a b. akey sl' a < akey sl' b) (xs_insert sl key a xs)"
proof -
  have s': "sorted_wrt (\<lambda>a b. akey sl' a < akey sl' b) ys" if "sorted_wrt (\<lambda>a b. akey sl a < akey sl b) ys" "set ys \<subseteq> set xs" for ys
    using that by (induction ys) (auto simp: ak(1) subset_iff)
  have A: "akey sl' x < key" if "x \<in> set (filter (below sl key) xs)" for x
    using that ak(1) by (simp add: below_def)
  have B: "key < akey sl' x" if "x \<in> set (filter (\<lambda>b. \<not> below sl key b) xs)" for x
  proof -
    from that have "x \<in> set xs" "key \<le> akey sl x" by (auto simp: below_def not_less)
    moreover have "akey sl x \<noteq> key" using \<open>x \<in> set xs\<close> new by blast
    ultimately show ?thesis using ak(1) by simp
  qed
  show ?thesis
    unfolding xs_insert_def sorted_wrt_append sorted_wrt.simps
    using s' [OF sorted_wrt_filter [OF s]] A B ak(2)
    by (auto intro: less_trans)
qed

text \<open>Splicing a node with pointers at levels \<open>lo, ..., level - 1\<close> into every level.\<close>

lemma splice_levels:
  assumes inv: "sl_inv sl xs hgt" and a: "a \<noteq> head sl" "a \<notin> set xs"
    and key: "key \<notin> akey sl ` set xs" and lev: "level \<le> 16" "0 < level"
    and gf: "\<And>b j. j < 16 \<Longrightarrow> b \<noteq> a \<Longrightarrow> get_forward sl' (Some b) j =
      (if j < level \<and> b = pos sl xs hgt key j then Inr (Some a) else get_forward sl (Some b) j)"
    and gfa: "\<And>j. j < level \<Longrightarrow> get_forward sl' (Some a) j = Inr (succ_of sl (level_list hgt j xs) key)"
    and ak: "\<And>b. b = head sl \<or> b \<in> set xs \<Longrightarrow> akey sl' b = akey sl b" "akey sl' a = key"
    and fields: "head sl' = head sl" "current_level sl' = max (current_level sl) level" "\<forall>b\<in>dom (heap sl'). b < brk sl'"
  shows "sl_inv sl' (xs_insert sl key a xs) (hgt(a := level))"
proof -
  let ?xs = "xs_insert sl key a xs" and ?h = "hgt(a := level)"
  have lin: "linked sl' i (head sl') (level_list ?h i ?xs)" if i: "i < 16" for i
  proof -
    let ?ys = "level_list hgt i xs"
    let ?A = "filter (below sl key) ?ys" and ?B = "filter (\<lambda>b. \<not> below sl key b) ?ys"
    have ys: "?ys = ?A @ ?B" by (rule sorted_split [OF sorted_level_list [OF sl_sorted [OF inv]]])
    have l: "linked sl i (head sl) (?A @ ?B)" using sl_linked [OF inv i] ys by simp
    have d: "distinct (head sl # ?A @ ?B)" using inv unfolding ys [symmetric] by (simp add: sl_inv_def level_list_def)
    have na: "a \<notin> set (head sl # ?A @ ?B)" using a by (auto simp: level_list_def)
    have la: "level_list ?h i ?xs = ?A @ (if i < level then a # ?B else ?B)"
    proof -
      have e: "filter (\<lambda>b. i < ?h b) (filter P xs) = filter P ?ys" for P
        unfolding level_list_def filter_filter by (rule filter_cong) (use a in auto)
      have "level_list ?h i ?xs = filter (\<lambda>b. i < ?h b) (filter (below sl key) xs) @
          filter (\<lambda>b. i < ?h b) [a] @ filter (\<lambda>b. i < ?h b) (filter (\<lambda>b. \<not> below sl key b) xs)"
        by (simp add: level_list_def xs_insert_def)
      then show ?thesis unfolding e by simp
    qed
    show ?thesis
    proof (cases "i < level")
      case True
      have p: "pos sl xs hgt key i = last (head sl # ?A)" by (simp add: pos_def)
      have ps: "get_forward sl' (Some a) i = get_forward sl (Some (last (head sl # ?A))) i"
        using gfa [OF True] pos_succ [OF inv i, of key] p by simp
      have "linked sl' i (head sl) (?A @ a # ?B)"
        by (rule linked_splice [OF l d na]) (use gf [OF i] ps p True in auto)
      with True show ?thesis by (simp add: la fields(1))
    next
      case False
      have "linked sl' i (head sl) (?A @ ?B) = linked sl i (head sl) (?A @ ?B)"
      proof (rule linked_cong)
        fix b assume "b = head sl \<or> b \<in> set (?A @ ?B)"
        then have "b \<noteq> a" using na by (metis list.set_intros)
        with gf [OF i this] False show "get_forward sl' (Some b) i = get_forward sl (Some b) i" by simp
      qed
      with l False show ?thesis by (simp add: la fields(1))
    qed
  qed
  have dist: "distinct (head sl' # ?xs)"
  proof -
    have "distinct xs" "head sl \<notin> set xs" using inv by (simp_all add: sl_inv_def)
    with a fields(1) show ?thesis by (auto simp: xs_insert_def)
  qed
  have srt: "sorted_wrt (\<lambda>a b. akey sl' a < akey sl' b) ?xs"
    by (rule sorted_insert [OF sl_sorted [OF inv] key]) (use ak in auto)
  have hg: "\<forall>b\<in>set ?xs. 0 < ?h b \<and> ?h b \<le> current_level sl'"
    using inv lev(2) fields(2) a(2) by (auto simp: sl_inv_def le_max_iff_disj)
  show ?thesis
    unfolding sl_inv_def
    using lin dist srt hg fields inv lev ak(1) [of "head sl"] by (simp add: sl_inv_def)
qed

lemma make_new_node_ok:
  assumes inv: "sl_inv sl xs hgt" and mk: "make_new_node level key r t sl = (a, sl1)" and lev: "0 < level"
  shows "a = brk sl" "head sl1 = head sl" "current_level sl1 = current_level sl" "brk sl1 = Suc (brk sl)"
    "\<And>b. b \<noteq> a \<Longrightarrow> heap sl1 b = heap sl b" "heap sl1 a = Some (make_skip_node level key r t None None)"
    "\<And>b j. b \<noteq> a \<Longrightarrow> get_forward sl1 (Some b) j = get_forward sl (Some b) j"
    "\<And>j. j < level \<Longrightarrow> get_forward sl1 (Some a) j = Inr None"
    "a \<noteq> head sl" "a \<notin> set xs" "heap sl a = None"
proof -
  show a: "a = brk sl" and "head sl1 = head sl" "current_level sl1 = current_level sl" "brk sl1 = Suc (brk sl)"
    and hb: "\<And>b. b \<noteq> a \<Longrightarrow> heap sl1 b = heap sl b" and ha: "heap sl1 a = Some (make_skip_node level key r t None None)"
    using mk by (auto simp: make_new_node_def)
  show "get_forward sl1 (Some b) j = get_forward sl (Some b) j" if "b \<noteq> a" for b j
    using hb [OF that] by (simp add: get_forward_def deref_def)
  show "get_forward sl1 (Some a) j = Inr None" if "j < level" for j
  proof -
    have "(None # replicate (level - 1) None) ! j = (None :: nat option)"
      using that by (cases j) auto
    with ha that show ?thesis by (simp add: get_forward_def deref_def make_skip_node_def)
  qed
  show "a \<noteq> head sl" "a \<notin> set xs" using sl_inv_dom(2) [OF inv] a by auto
  show "heap sl a = None" using inv a by (auto simp: sl_inv_def)
qed

lemma upd_raised:
  assumes inv: "sl_inv sl xs hgt" and "j < level" "level \<le> 16" "lo \<le> j" "cl = current_level sl"
  shows "map (\<lambda>i. if cl \<le> i \<and> i < level then Some (head sl)
      else upd_of sl xs hgt key lo cl no_update ! i) [0..<16] ! j = Some (pos sl xs hgt key j)"
proof (cases "cl \<le> j")
  case True
  with assms pos_above(1) [OF inv, of j] show ?thesis by (simp del: upt_rec_numeral)
next
  case False
  have "cl \<le> 16" using inv assms(5) by (simp add: sl_inv_def)
  with False assms show ?thesis by (simp add: upd_of_def no_update_def del: upt_rec_numeral)
qed

lemma akey_new:
  assumes "\<And>b. b \<noteq> a \<Longrightarrow> heap sl1 b = heap sl b" "b \<noteq> a"
  shows "akey sl1 b = akey sl b"
  using assms by (simp add: akey_def)

lemma insert_at_ok:
  assumes inv: "sl_inv sl xs hgt" and lev: "0 < level" "level \<le> 16" and new: "key \<notin> akey sl ` set xs"
    and bl: "back_linked sl (head sl) xs"
  obtains sl' where "insert_at level key r t sl = Some (Inr (True, sl'))"
    "sl_inv sl' (xs_insert sl key (brk sl) xs) (hgt(brk sl := level))"
    "back_linked sl' (head sl') (xs_insert sl key (brk sl) xs)"
    "brk sl \<notin> set xs" "brk sl \<noteq> head sl" "head sl' = head sl" "brk sl' = Suc (brk sl)" "akey sl' (brk sl) = key"
    "\<forall>b. b \<noteq> brk sl \<longrightarrow> akey sl' b = akey sl b"
    "map_option data_node (heap sl' (brk sl)) = Some r" "map_option sn_type (heap sl' (brk sl)) = Some t"
    "\<forall>b. b \<noteq> brk sl \<longrightarrow> map_option data_node (heap sl' b) = map_option data_node (heap sl b) \<and>
       map_option sn_type (heap sl' b) = map_option sn_type (heap sl b)"
proof -
  let ?cl = "current_level sl"
  let ?upd = "upd_of sl xs hgt key 0 ?cl no_update"
  obtain a sl1 where mk: "make_new_node level key r t sl = (a, sl1)" by (cases "make_new_node level key r t sl")
  note m = make_new_node_ok [OF inv mk lev(1)]
  define sl2 where "sl2 = sl1\<lparr>current_level := max ?cl level\<rparr>"
  define upd' where "upd' = map (\<lambda>i. if ?cl \<le> i \<and> i < level then Some (head sl) else ?upd ! i) [0..<16]"
  have rl: "raise_level level ?upd sl1 = (upd', sl2)"
    using raise_level_eq [of ?upd level sl1] lev(2)
    by (simp add: upd_of_def no_update_def m(2,3) sl2_def upd'_def del: upt_rec_numeral)
  have u: "upd' ! j = Some (pos sl xs hgt key j)" if "j < level" for j
    unfolding upd'_def by (rule upd_raised [OF inv that lev(2)]) simp_all
  have lu: "length upd' = 16" by (simp add: upd'_def)
  have ph: "pos sl xs hgt key j = head sl \<or> pos sl xs hgt key j \<in> set xs" for j
    using pos_at_or_below [of sl xs hgt key j] by (auto simp: at_or_below_def)
  have pa: "pos sl xs hgt key j \<noteq> a" for j using ph [of j] m(9,10) by auto
  have gf2: "get_forward sl2 = get_forward sl1"
    by (auto simp: sl2_def get_forward_def deref_def fun_eq_iff split: option.splits)
  have lk: "\<exists>sl3. link_levels a upd' 0 level sl2 = Inr sl3 \<and> relinked sl2 sl3 \<and>
     (\<forall>b j. get_forward sl3 (Some b) j =
        (if 0 \<le> j \<and> j < 0 + level \<and> b = a then Inr (succ_of sl (level_list hgt j xs) key)
         else if 0 \<le> j \<and> j < 0 + level \<and> b = pos sl xs hgt key j then Inr (Some a) else get_forward sl2 (Some b) j))"
  proof (rule link_levels_ok)
    fix j assume "0 \<le> j" "j < 0 + level"
    then have j: "j < level" "j < 16" using lev by simp_all
    show "j < length upd' \<and> upd' ! j = Some (pos sl xs hgt key j) \<and> pos sl xs hgt key j \<noteq> a \<and>
      get_forward sl2 (Some (pos sl xs hgt key j)) j = Inr (succ_of sl (level_list hgt j xs) key) \<and>
      (\<exists>f. get_forward sl2 (Some a) j = Inr f)"
      using j u [OF j(1)] pa [of j] pos_succ [OF inv j(2), of key] m(7,8) by (simp add: lu gf2)
  qed
  then obtain sl3 where l3: "link_levels a upd' 0 level sl2 = Inr sl3" "relinked sl2 sl3"
    "\<And>b j. get_forward sl3 (Some b) j =
        (if j < level \<and> b = a then Inr (succ_of sl (level_list hgt j xs) key)
         else if j < level \<and> b = pos sl xs hgt key j then Inr (Some a) else get_forward sl2 (Some b) j)" by auto
  note ag = relinked_fields [OF l3(2)]
  have ak2: "akey sl2 b = akey sl b" if "b \<noteq> a" for b
    using m(5) [OF that] by (simp add: akey_def sl2_def)
  have aka: "akey sl3 a = key" using m(6) by (simp add: ag(1)) (simp add: akey_def sl2_def make_skip_node_def)
  have dom2: "\<forall>b\<in>dom (heap sl3). b < brk sl3"
  proof
    fix b assume "b \<in> dom (heap sl3)"
    then have "heap sl2 b \<noteq> None" using ag(2) by auto
    then have "b = a \<or> b \<in> dom (heap sl)" using m(5) [of b] by (cases "b = a") (simp_all add: sl2_def dom_def)
    then show "b < brk sl3"
    proof
      assume "b \<in> dom (heap sl)"
      with inv have "b < brk sl" by (simp add: sl_inv_def)
      then show ?thesis by (simp add: ag(4)) (simp add: sl2_def m(4))
    qed (simp add: ag(4) sl2_def m(1,4))
  qed
  have inv3: "sl_inv sl3 (xs_insert sl key a xs) (hgt(a := level))"
  proof (rule splice_levels [OF inv m(9,10) new lev(2,1)])
    fix b j :: nat assume "j < 16" "b \<noteq> a"
    then show "get_forward sl3 (Some b) j =
      (if j < level \<and> b = pos sl xs hgt key j then Inr (Some a) else get_forward sl (Some b) j)"
      by (simp add: l3(3) gf2 m(7))
  next
    fix b assume "b = head sl \<or> b \<in> set xs"
    then have "b \<noteq> a" using m(9,10) by auto
    then show "akey sl3 b = akey sl b" by (simp add: ag(1) ak2)
  qed (use aka dom2 in \<open>simp_all add: l3(3) ag(3,5) sl2_def m(2)\<close>)
  let ?A = "filter (below sl key) xs" and ?B = "filter (\<lambda>b. \<not> below sl key b) xs"
  have p0: "upd' ! 0 = Some (last (head sl # ?A))" using u [of 0] lev(1) pos_0 [OF inv] by simp
  have "heap sl3 a \<noteq> None" using ag(2) m(6) by (auto simp: sl2_def dom_def)
  then obtain na where na: "heap sl3 a = Some na" by blast
  obtain sl4 where s4: "set_backward (Some a) (upd' ! 0) sl3 = Inr sl4" "same_links sl3 sl4"
    "\<forall>c. map_option backward (heap sl4 c) = (if c = a then Some (upd' ! 0) else map_option backward (heap sl3 c))"
    by (rule set_backward_ok [OF na])
  have f: "get_forward sl4 (Some a) 0 = Inr (succ_of sl xs key)"
    using s4(2) l3(3) [of a 0] lev(1) level_list_0 [OF inv] by (simp add: same_links_def)
  have "\<exists>sl5. (if succ_of sl xs key \<noteq> None then set_backward (succ_of sl xs key) (Some a) sl4 else Inr sl4) = Inr sl5 \<and>
     same_links sl4 sl5 \<and>
     (\<forall>c. map_option backward (heap sl5 c) = (if Some c = succ_of sl xs key then Some (Some a) else map_option backward (heap sl4 c)))"
  proof (cases "succ_of sl xs key")
    case None
    then show ?thesis by (auto simp: same_links_def)
  next
    case (Some b)
    have b: "b \<in> set xs" by (rule succ_of_Some(1) [OF inv Some])
    then have "b \<in> dom (heap sl3)" using sl_inv_dom(1) [OF inv3, of b] by simp
    then have "heap sl4 b \<noteq> None" using s4(2) by (auto simp: same_links_def)
    then obtain nb where nb: "heap sl4 b = Some nb" by blast
    obtain sl5 where "set_backward (Some b) (Some a) sl4 = Inr sl5" "same_links sl4 sl5"
      "\<forall>c. map_option backward (heap sl5 c) = (if c = b then Some (Some a) else map_option backward (heap sl4 c))"
      by (rule set_backward_ok [OF nb])
    with Some show ?thesis by auto
  qed
  then obtain sl5 where s5: "(if succ_of sl xs key \<noteq> None then set_backward (succ_of sl xs key) (Some a) sl4 else Inr sl4) = Inr sl5"
    "same_links sl4 sl5"
    "\<forall>c. map_option backward (heap sl5 c) = (if Some c = succ_of sl xs key then Some (Some a) else map_option backward (heap sl4 c))"
    by blast
  have run: "insert_at level key r t sl = Some (Inr (True, sl5))"
    using l3(1) s4(1) f s5(1) lu
    by (simp add: insert_at_def descend_all [OF inv] mk rl)
  have sl35: "same_links sl3 sl5" by (rule same_links_trans [OF s4(2) s5(2)])
  have bk: "map_option backward (heap sl5 c) =
     (if Some c = succ_of sl xs key then Some (Some a) else if c = a then Some (upd' ! 0) else map_option backward (heap sl c))"
    if "c \<in> set (a # xs)" for c
  proof -
    have "map_option backward (heap sl3 c) = map_option backward (heap sl c)" if "c \<noteq> a"
      using ag(6) [of c] m(5) [OF that] by (simp add: sl2_def)
    then show ?thesis using s5(3) s4(3) by simp
  qed
  have sa: "succ_of sl xs key \<noteq> Some a" using succ_of_Some(1) [OF inv] m(10) by blast
  have back5: "back_linked sl5 (head sl5) (xs_insert sl key a xs)"
  proof -
    have xsAB: "xs = ?A @ ?B" by (rule sorted_split [OF sl_sorted [OF inv]])
    have bAB: "back_linked sl (head sl) (?A @ ?B)" using bl xsAB by simp
    have d: "distinct (?A @ ?B)" using inv xsAB by (simp add: sl_inv_def)
    have "back_linked sl5 (head sl) ?A"
    proof -
      have "back_linked sl5 (head sl) ?A = back_linked sl (head sl) ?A"
      proof (rule back_linked_cong)
        fix c assume c: "c \<in> set ?A"
        have "Some c \<noteq> succ_of sl xs key"
        proof
          assume "Some c = succ_of sl xs key"
          from succ_of_Some(2) [OF inv this [symmetric]] c show False by (auto simp: below_def)
        qed
        moreover have "c \<noteq> a" using m(10) c by auto
        ultimately show "map_option backward (heap sl5 c) = map_option backward (heap sl c)"
          using bk [of c] c by simp
      qed
      with bAB show ?thesis by (simp add: back_linked_append)
    qed
    moreover have "map_option backward (heap sl5 a) = Some (Some (last (head sl # ?A)))"
      using bk [of a] sa p0 by auto
    moreover have "back_linked sl5 a ?B"
    proof (cases ?B)
      case (Cons b B)
      have sb: "succ_of sl xs key = Some b" by (simp add: succ_of_def Cons)
      have bx: "b \<in> set xs" "set B \<subseteq> set xs" using xsAB Cons by (metis Un_iff set_append list.set_intros(1), metis Un_iff set_append set_subset_Cons subsetI subset_trans)
      have "back_linked sl5 b B = back_linked sl b B"
      proof (rule back_linked_cong)
        fix c assume c: "c \<in> set B"
        then have "c \<noteq> b" "c \<noteq> a" using d Cons m(10) bx by auto
        with bk [of c] c bx sb show "map_option backward (heap sl5 c) = map_option backward (heap sl c)" by auto
      qed
      moreover have "back_linked sl b B" using bAB Cons by (simp add: back_linked_append)
      ultimately show ?thesis using bk [of b] sb bx Cons by simp
    qed simp
    moreover have "head sl5 = head sl" using sl35 ag(3) m(2) by (simp add: same_links_def sl2_def)
    ultimately show ?thesis by (simp add: xs_insert_def back_linked_append)
  qed
  have d5: "map_option data_node (heap sl5 b) = map_option data_node (heap sl1 b)"
    "map_option sn_type (heap sl5 b) = map_option sn_type (heap sl1 b)" for b
    using sl35 ag(7,8) by (simp_all add: same_links_def sl2_def)
  show ?thesis
    by (rule that [of sl5, folded m(1)])
       (use run sl_inv_same [OF sl35 inv3] back5 m sl35 aka ag ak2 d5 in \<open>simp_all add: same_links_def sl2_def make_skip_node_def\<close>)
qed

subsection \<open>Removal\<close>

lemma unlink_levels_ok:
  "(\<And>j. i \<le> j \<Longrightarrow> j < i + k \<Longrightarrow> j < length upd \<and> upd ! j = Some (u j) \<and> u j \<noteq> a \<and>
      (\<exists>f. get_forward sl (Some (u j)) j = Inr f \<and> (f = Some a \<longleftrightarrow> j < h)) \<and>
      (j < h \<longrightarrow> get_forward sl (Some a) j = Inr (v j))) \<Longrightarrow>
   \<exists>sl'. unlink_levels a upd i k sl = Inr sl' \<and> relinked sl sl' \<and>
     (\<forall>b j. get_forward sl' (Some b) j =
        (if i \<le> j \<and> j < i + k \<and> j < h \<and> b = u j then Inr (v j) else get_forward sl (Some b) j))"
proof (induction k arbitrary: i sl)
  case 0
  then show ?case by (auto simp: relinked_refl)
next
  case (Suc k)
  obtain f where p: "i < length upd" "upd ! i = Some (u i)" "u i \<noteq> a"
    "get_forward sl (Some (u i)) i = Inr f" "f = Some a \<longleftrightarrow> i < h" "i < h \<longrightarrow> get_forward sl (Some a) i = Inr (v i)"
    using Suc.prems [of i] by auto
  show ?case
  proof (cases "i < h")
    case False
    then have "unlink_levels a upd i (Suc k) sl = Inr sl" using p by simp
    with False show ?thesis by (intro exI [of _ sl]) (auto simp: relinked_refl)
  next
    case True
    obtain s1 where s1: "set_forward (Some (u i)) i (v i) sl = Inr s1" "relinked sl s1"
      "\<And>b j. get_forward s1 (Some b) j = (if b = u i \<and> j = i then Inr (v i) else get_forward sl (Some b) j)"
      using set_forward_ok [OF p(4), of "v i"] by metis
    have "\<exists>sl'. unlink_levels a upd (Suc i) k s1 = Inr sl' \<and> relinked s1 sl' \<and>
       (\<forall>b j. get_forward sl' (Some b) j =
          (if Suc i \<le> j \<and> j < Suc i + k \<and> j < h \<and> b = u j then Inr (v j) else get_forward s1 (Some b) j))"
    proof (rule Suc.IH)
      fix j assume "Suc i \<le> j" "j < Suc i + k"
      with Suc.prems [of j] show "j < length upd \<and> upd ! j = Some (u j) \<and> u j \<noteq> a \<and>
        (\<exists>f. get_forward s1 (Some (u j)) j = Inr f \<and> (f = Some a \<longleftrightarrow> j < h)) \<and>
        (j < h \<longrightarrow> get_forward s1 (Some a) j = Inr (v j))" by (simp add: s1(3))
    qed
    then obtain sl' where sl': "unlink_levels a upd (Suc i) k s1 = Inr sl'" "relinked s1 sl'"
      "\<And>b j. get_forward sl' (Some b) j =
          (if Suc i \<le> j \<and> j < Suc i + k \<and> j < h \<and> b = u j then Inr (v j) else get_forward s1 (Some b) j)" by blast
    have run: "unlink_levels a upd i (Suc k) sl = Inr sl'" using True p s1(1) sl'(1) by simp
    have "get_forward sl' (Some b) j =
        (if i \<le> j \<and> j < i + Suc k \<and> j < h \<and> b = u j then Inr (v j) else get_forward sl (Some b) j)" for b j
      using True by (cases "j = i") (auto simp: sl'(3) s1(3))
    with run relinked_trans [OF s1(2) sl'(2)] show ?thesis by blast
  qed
qed

lemma lower_level_ok:
  "(\<And>j. j < k \<Longrightarrow> \<exists>f. get_forward sl (Some (head sl)) j = Inr f) \<Longrightarrow>
   \<exists>c\<le>k. lower_level k sl = Inr (sl\<lparr>current_level := c\<rparr>) \<and>
     (\<forall>j. c \<le> j \<and> j < k \<longrightarrow> get_forward sl (Some (head sl)) j = Inr None)"
proof (induction k)
  case (Suc k)
  obtain f where f: "get_forward sl (Some (head sl)) k = Inr f" using Suc.prems [of k] by auto
  show ?case
  proof (cases f)
    case None
    from Suc obtain c where c: "c \<le> k" "lower_level k sl = Inr (sl\<lparr>current_level := c\<rparr>)"
      "\<forall>j. c \<le> j \<and> j < k \<longrightarrow> get_forward sl (Some (head sl)) j = Inr None" by fastforce
    with None f show ?thesis by (intro exI [of _ c]) (auto simp: less_Suc_eq)
  next
    case Some
    with f show ?thesis by (intro exI [of _ "Suc k"]) auto
  qed
qed simp

text \<open>Unlinking a node from all its levels.\<close>

lemma level_list_split:
  assumes s0: "sorted_wrt (\<lambda>a b. akey sl a < akey sl b) xs" and a: "a \<in> set xs" "akey sl a = key"
  shows "level_list hgt i xs = filter (below sl key) (level_list hgt i xs) @
      (if i < hgt a then [a] else []) @ filter (\<lambda>b. key < akey sl b) (level_list hgt i xs)"
    and "succ_of sl (level_list hgt i xs) key = Some a \<longleftrightarrow> i < hgt a"
proof -
  let ?ys = "level_list hgt i xs"
  have s: "sorted_wrt (\<lambda>a b. akey sl a < akey sl b) ?ys" by (rule sorted_level_list [OF s0])
  have inj: "b = a" if "b \<in> set xs" "akey sl b = key" for b
  proof (rule ccontr)
    assume "b \<noteq> a"
    with that(1) a(1) obtain m n where mn: "m < length xs" "n < length xs" "xs ! m = a" "xs ! n = b" "m \<noteq> n"
      by (metis in_set_conv_nth)
    then have "akey sl a < akey sl b \<or> akey sl b < akey sl a"
      using s0 sorted_wrt_nth_less by (metis nat_neq_iff)
    with that(2) a(2) show False by simp
  qed
  have ub: "filter (\<lambda>b. \<not> below sl key b) ?ys = (if i < hgt a then [a] else []) @ filter (\<lambda>b. key < akey sl b) ?ys"
  proof (cases "i < hgt a")
    case False
    then have "a \<notin> set ?ys" by (simp add: level_list_def)
    have "(\<not> below sl key b) = (key < akey sl b)" if "b \<in> set ?ys" for b
    proof -
      have "b \<noteq> a" "b \<in> set xs" using that \<open>a \<notin> set ?ys\<close> by (auto simp: level_list_def)
      then have "akey sl b \<noteq> key" using inj by blast
      then show ?thesis by (auto simp: below_def not_less le_less)
    qed
    then have "filter (\<lambda>b. \<not> below sl key b) ?ys = filter (\<lambda>b. key < akey sl b) ?ys"
      by (intro filter_cong) simp_all
    with False show ?thesis by simp
  next
    case True
    then have "a \<in> set ?ys" using a(1) by (simp add: level_list_def)
    then obtain A B where AB: "?ys = A @ a # B" by (meson split_list)
    have "sorted_wrt (\<lambda>a b. akey sl a < akey sl b) (A @ a # B)" using s AB by simp
    then have A: "\<And>x. x \<in> set A \<Longrightarrow> akey sl x < key" and B: "\<And>x. x \<in> set B \<Longrightarrow> key < akey sl x"
      using a(2) by (auto simp: sorted_wrt_append)
    have "filter (\<lambda>b. \<not> below sl key b) A = []" "filter (\<lambda>b. key < akey sl b) A = []"
      using A by (auto simp: filter_empty_conv below_def dest: less_asym)
    moreover have "filter (\<lambda>b. \<not> below sl key b) B = B" "filter (\<lambda>b. key < akey sl b) B = B"
      using B by (auto simp: filter_id_conv below_def dest: less_asym)
    moreover have "\<not> below sl key a" "\<not> key < akey sl a" using a(2) by (simp_all add: below_def)
    ultimately show ?thesis using True by (simp add: AB)
  qed
  show "?ys = filter (below sl key) ?ys @ (if i < hgt a then [a] else []) @ filter (\<lambda>b. key < akey sl b) ?ys"
    using sorted_split [OF s, of key] ub by simp
  show "succ_of sl ?ys key = Some a \<longleftrightarrow> i < hgt a"
  proof (cases "i < hgt a")
    case True
    then show ?thesis by (simp add: succ_of_def ub)
  next
    case False
    have f: "succ_of sl ?ys key = (case filter (\<lambda>b. key < akey sl b) ?ys of [] \<Rightarrow> None | b # _ \<Rightarrow> Some b)"
      using False by (simp add: succ_of_def ub)
    show ?thesis
    proof (cases "filter (\<lambda>b. key < akey sl b) ?ys")
      case (Cons c cs)
      then have "c \<in> set (filter (\<lambda>b. key < akey sl b) ?ys)" by simp
      with a(2) have "c \<noteq> a" by auto
      with f Cons False show ?thesis by simp
    qed (use f False in simp)
  qed
qed

lemma linked_forward:
  "linked sl i w ys \<Longrightarrow> b = w \<or> b \<in> set ys \<Longrightarrow> \<exists>f. get_forward sl (Some b) i = Inr f"
  by (induction ys arbitrary: w) auto

lemma unsplice_levels:
  assumes inv: "sl_inv sl xs hgt" and a: "a \<in> set xs" "akey sl a = key" and i: "i < 16"
    and gf: "\<And>b. b \<noteq> a \<Longrightarrow> get_forward sl' (Some b) i =
      (if i < hgt a \<and> b = pos sl xs hgt key i then get_forward sl (Some a) i else get_forward sl (Some b) i)"
  shows "linked sl' i (head sl) (level_list hgt i (removeAll a xs))"
proof -
  let ?ys = "level_list hgt i xs"
  let ?A = "filter (below sl key) ?ys" and ?B = "filter (\<lambda>b. key < akey sl b) ?ys"
  note ys = level_list_split(1) [OF sl_sorted [OF inv] a, of hgt i]
  have l: "linked sl i (head sl) (?A @ (if i < hgt a then [a] else []) @ ?B)" using sl_linked [OF inv i] ys by simp
  have d: "distinct (head sl # ?A @ (if i < hgt a then [a] else []) @ ?B)"
  proof -
    have "distinct (head sl # ?ys)" using inv by (simp add: sl_inv_def level_list_def)
    then show ?thesis by (subst (asm) ys) simp
  qed
  have r: "level_list hgt i (removeAll a xs) = ?A @ ?B"
  proof -
    have "level_list hgt i (removeAll a xs) = removeAll a ?ys" by (simp add: level_list_def removeAll_filter_not_eq conj_commute)
    also have "\<dots> = removeAll a (?A @ (if i < hgt a then [a] else []) @ ?B)" using ys by simp
    also have "\<dots> = removeAll a ?A @ removeAll a ?B" by simp
    also have "removeAll a ?A = ?A" using a(2) by (intro removeAll_id) (auto simp: below_def)
    also have "removeAll a ?B = ?B" using a(2) by (intro removeAll_id) auto
    finally show ?thesis .
  qed
  show ?thesis
  proof (cases "i < hgt a")
    case True
    have p: "pos sl xs hgt key i = last (head sl # ?A)" by (simp add: pos_def)
    show ?thesis unfolding r
    proof (rule linked_unsplice)
      show "linked sl i (head sl) (?A @ a # ?B)" "distinct (head sl # ?A @ a # ?B)" using l d True by simp_all
      fix b assume "b \<noteq> a"
      with gf [OF this] True p show "get_forward sl' (Some b) i =
        (if b = last (head sl # ?A) then get_forward sl (Some a) i else get_forward sl (Some b) i)" by simp
    qed
  next
    case False
    have na: "a \<notin> set (head sl # ?A @ ?B)" using False a inv by (auto simp: level_list_def sl_inv_def)
    have "linked sl' i (head sl) (?A @ ?B) = linked sl i (head sl) (?A @ ?B)"
    proof (rule linked_cong)
      fix b assume "b = head sl \<or> b \<in> set (?A @ ?B)"
      then have "b \<noteq> a" using na by (metis list.set_intros)
      with gf [OF this] False show "get_forward sl' (Some b) i = get_forward sl (Some b) i" by simp
    qed
    with l False show ?thesis unfolding r by simp
  qed
qed

lemma get_forward_heap: "heap sl' b = heap sl b \<Longrightarrow> get_forward sl' (Some b) j = get_forward sl (Some b) j"
  by (simp add: get_forward_def deref_def)

text \<open>The first part of \<open>remove\<close>: unlinking the node found.\<close>

lemma remove_unlink:
  assumes inv: "sl_inv sl xs hgt" and a: "a \<in> set xs" "akey sl a = key"
  obtains sl1 where
    "unlink_levels a (upd_of sl xs hgt key 0 (current_level sl) no_update) 0 (current_level sl) sl = Inr sl1"
    "relinked sl sl1"
    "\<And>b j. b \<noteq> a \<Longrightarrow> get_forward sl1 (Some b) j =
        (if j < hgt a \<and> b = pos sl xs hgt key j then get_forward sl (Some a) j else get_forward sl (Some b) j)"
    "\<And>j. get_forward sl1 (Some a) j = get_forward sl (Some a) j"
proof -
  let ?cl = "current_level sl" and ?p = "pos sl xs hgt key"
  have cl: "?cl \<le> 16" and ha: "hgt a \<le> ?cl" using inv a(1) by (simp_all add: sl_inv_def)
  define v where "v j = (case get_forward sl (Some a) j of Inl _ \<Rightarrow> None | Inr f \<Rightarrow> f)" for j
  have pa: "?p j \<noteq> a" for j
    using pos_at_or_below [of sl xs hgt key j] inv a by (auto simp: at_or_below_def below_def sl_inv_def)
  have v: "get_forward sl (Some a) j = Inr (v j)" if "j < hgt a" for j
  proof -
    have "a \<in> set (level_list hgt j xs)" using that a(1) by (simp add: level_list_def)
    with linked_forward [OF sl_linked [OF inv, of j], of a] that ha cl show ?thesis by (auto simp: v_def)
  qed
  have "\<exists>sl1. unlink_levels a (upd_of sl xs hgt key 0 ?cl no_update) 0 ?cl sl = Inr sl1 \<and> relinked sl sl1 \<and>
     (\<forall>b j. get_forward sl1 (Some b) j =
        (if 0 \<le> j \<and> j < 0 + ?cl \<and> j < hgt a \<and> b = ?p j then Inr (v j) else get_forward sl (Some b) j))"
  proof (rule unlink_levels_ok)
    fix j assume "0 \<le> j" "j < 0 + ?cl"
    then have j: "j < ?cl" "j < 16" using cl by simp_all
    have "get_forward sl (Some (?p j)) j = Inr (succ_of sl (level_list hgt j xs) key)" by (rule pos_succ [OF inv j(2)])
    with j pa [of j] level_list_split(2) [OF sl_sorted [OF inv] a, of hgt j] v [of j]
    show "j < length (upd_of sl xs hgt key 0 ?cl no_update) \<and> upd_of sl xs hgt key 0 ?cl no_update ! j = Some (?p j) \<and> ?p j \<noteq> a \<and>
      (\<exists>f. get_forward sl (Some (?p j)) j = Inr f \<and> (f = Some a \<longleftrightarrow> j < hgt a)) \<and>
      (j < hgt a \<longrightarrow> get_forward sl (Some a) j = Inr (v j))"
      by (simp add: upd_of_def no_update_def del: upt_rec_numeral)
  qed
  then obtain sl1 where s: "unlink_levels a (upd_of sl xs hgt key 0 ?cl no_update) 0 ?cl sl = Inr sl1" "relinked sl sl1"
    "\<And>b j. get_forward sl1 (Some b) j = (if j < ?cl \<and> j < hgt a \<and> b = ?p j then Inr (v j) else get_forward sl (Some b) j)"
    by auto
  show ?thesis
    by (rule that [OF s(1,2)]) (use s(3) v ha pa in auto)
qed

text \<open>The last part: the levels that became empty, and the heap without the node.\<close>

lemma remove_finish:
  assumes inv: "sl_inv sl xs hgt" and a: "a \<in> set xs" "akey sl a = key"
    and ag: "relinked sl sl1"
    and gf: "\<And>b j. b \<noteq> a \<Longrightarrow> get_forward sl1 (Some b) j =
        (if j < hgt a \<and> b = pos sl xs hgt key j then get_forward sl (Some a) j else get_forward sl (Some b) j)"
    and sl: "same_links sl1 sl2"
  obtains sl4 where "res_bind (lower_level (current_level sl2) sl2) (\<lambda>sl3. Inr (True, sl3\<lparr>heap := (heap sl3)(a := None)\<rparr>)) = Inr (True, sl4)"
    "sl_inv sl4 (removeAll a xs) hgt" "heap sl4 = (heap sl2)(a := None)" "head sl4 = head sl"
proof -
  note f = relinked_fields [OF ag]
  have h2: "head sl2 = head sl" "current_level sl2 = current_level sl" "brk sl2 = brk sl" "akey sl2 = akey sl"
    "dom (heap sl2) = dom (heap sl)" "get_forward sl2 = get_forward sl1"
    using sl f by (simp_all add: same_links_def)
  have ha: "head sl \<noteq> a" using inv a by (auto simp: sl_inv_def)
  have cl: "current_level sl \<le> 16" using inv by (simp add: sl_inv_def)
  define sl4 where "sl4 c = sl2\<lparr>current_level := c, heap := (heap sl2)(a := None)\<rparr>" for c
  have gf4: "get_forward (sl4 c) (Some b) j = get_forward sl1 (Some b) j" if "b \<noteq> a" for b j c
    using that h2(6) get_forward_heap [of "sl4 c" b sl2 j] by (simp add: sl4_def)
  have lin: "linked (sl4 c) i (head sl) (level_list hgt i (removeAll a xs))" if "i < 16" for i c
    by (rule unsplice_levels [OF inv a that]) (simp add: gf4 gf)
  have hf: "\<exists>f. get_forward sl2 (Some (head sl2)) j = Inr f" if "j < current_level sl2" for j
  proof -
    have "j < 16" using that cl h2(2) by simp
    from linked_forward [OF lin [OF this, of 0], of "head sl"] show ?thesis using gf4 [OF ha] by (simp add: h2(1,6))
  qed
  obtain c where c: "c \<le> current_level sl2" "lower_level (current_level sl2) sl2 = Inr (sl2\<lparr>current_level := c\<rparr>)"
    "\<forall>j. c \<le> j \<and> j < current_level sl2 \<longrightarrow> get_forward sl2 (Some (head sl2)) j = Inr None"
    using lower_level_ok [of "current_level sl2" sl2] hf by blast
  have hc: "hgt b \<le> c" if b: "b \<in> set (removeAll a xs)" for b
  proof (rule ccontr)
    assume n: "\<not> hgt b \<le> c"
    let ?j = "hgt b - 1"
    have hb: "0 < hgt b" "hgt b \<le> current_level sl" using inv b by (auto simp: sl_inv_def)
    have "b \<in> set (level_list hgt ?j (removeAll a xs))" using b hb(1) by (simp add: level_list_def)
    then obtain y ys where y: "level_list hgt ?j (removeAll a xs) = y # ys" by (cases "level_list hgt ?j (removeAll a xs)") auto
    have "?j < 16" using hb cl by simp
    from lin [OF this, of c] have "get_forward sl1 (Some (head sl)) ?j = Inr (Some y)" unfolding y by (simp add: gf4 [OF ha])
    moreover have "c \<le> ?j" "?j < current_level sl2" using n hb h2(2) by auto
    with c(3) have "get_forward sl1 (Some (head sl)) ?j = Inr None" by (simp add: h2(1,6))
    ultimately show False by simp
  qed
  have ak: "akey (sl4 c) b = akey sl b" if "b \<noteq> a" for b
    using that arg_cong [OF h2(4), of "\<lambda>f. f b"] by (simp add: akey_def sl4_def)
  have "sorted_wrt (\<lambda>x y. akey (sl4 c) x < akey (sl4 c) y) (removeAll a xs)"
  proof -
    have "sorted_wrt (\<lambda>x y. akey sl x < akey sl y) (removeAll a xs)"
      using sl_sorted [OF inv] by (simp add: removeAll_filter_not_eq sorted_wrt_filter)
    then show ?thesis by (rule sorted_wrt_mono_rel [rotated]) (auto simp: ak)
  qed
  moreover have "\<forall>b\<in>dom (heap (sl4 c)). b < brk (sl4 c)"
    using inv h2(3,5) by (auto simp: sl4_def sl_inv_def)
  ultimately have "sl_inv (sl4 c) (removeAll a xs) hgt"
    using inv lin [of _ c] hc ak [OF ha] c(1) cl h2 ha
    by (simp add: sl_inv_def sl4_def distinct_removeAll)
  then show ?thesis using c(2) h2(1) by (intro that [of "sl4 c"]) (simp_all add: sl4_def)
qed

lemma sl_remove_ok:
  assumes inv: "sl_inv sl xs hgt" and a: "a \<in> set xs" "akey sl a = key"
  obtains sl' where "sl_remove key sl = Some (Inr (True, sl'))" "sl_inv sl' (removeAll a xs) hgt"
    "\<And>b. b \<noteq> a \<Longrightarrow> akey sl' b = akey sl b"
    "\<And>b. b \<noteq> a \<Longrightarrow> map_option data_node (heap sl' b) = map_option data_node (heap sl b)"
proof -
  let ?upd = "upd_of sl xs hgt key 0 (current_level sl) no_update"
  have h0: "0 < hgt a" using inv a(1) by (simp add: sl_inv_def)
  have gp: "get_forward sl (Some (pos sl xs hgt key 0)) 0 = Inr (Some a)"
    using pos_succ [OF inv, of 0 key] level_list_split(2) [OF sl_sorted [OF inv] a, of hgt 0] h0 by simp
  obtain n where n: "heap sl a = Some n" "anchor n = key"
    using sl_inv_dom(1) [OF inv, of a] a by (auto simp: akey_def)
  obtain sl1 where u: "unlink_levels a ?upd 0 (current_level sl) sl = Inr sl1" "relinked sl sl1"
    "\<And>b j. b \<noteq> a \<Longrightarrow> get_forward sl1 (Some b) j =
        (if j < hgt a \<and> b = pos sl xs hgt key j then get_forward sl (Some a) j else get_forward sl (Some b) j)"
    "\<And>j. get_forward sl1 (Some a) j = get_forward sl (Some a) j"
    using remove_unlink [OF inv a] by metis
  note f = relinked_fields [OF u(2)]
  have "a \<in> set (level_list hgt 0 xs)" using a(1) h0 by (simp add: level_list_def)
  from linked_forward [OF sl_linked [OF inv, of 0] disjI2 [OF this]] obtain g where g: "get_forward sl (Some a) 0 = Inr g" by auto
  have "heap sl1 a \<noteq> None" using f(2) n(1) by (auto simp: dom_def)
  then obtain na where na: "heap sl1 a = Some na" by blast
  have rg: "rd (forwards na) 0 = Inr g" using u(4) [of 0] g get_forward_eq [OF na] by simp
  have "\<exists>sl2. (if g \<noteq> None then set_backward g (backward na) sl1 else Inr sl1) = Inr sl2 \<and> same_links sl1 sl2"
  proof (cases g)
    case (Some b)
    have "b \<in> set xs"
    proof -
      have "linked sl 0 (head sl) xs" using sl_linked [OF inv, of 0] level_list_0 [OF inv] by simp
      moreover obtain A B where "xs = A @ a # B" using a(1) by (meson split_list)
      ultimately have "linked sl 0 a B" using linked_append by metis
      with g Some have "B \<noteq> [] \<and> hd B = b" by (cases B) auto
      with \<open>xs = A @ a # B\<close> show ?thesis by (cases B) auto
    qed
    then have "heap sl1 b \<noteq> None" using sl_inv_dom(1) [OF inv, of b] f(2) by auto
    then obtain nb where nb: "heap sl1 b = Some nb" by blast
    show ?thesis using set_backward_ok [OF nb, of "backward na"] Some by (metis option.simps(3))
  qed (simp add: same_links_def)
  then obtain sl2 where s2: "(if g \<noteq> None then set_backward g (backward na) sl1 else Inr sl1) = Inr sl2" "same_links sl1 sl2"
    by blast
  obtain sl4 where s4: "res_bind (lower_level (current_level sl2) sl2) (\<lambda>sl3. Inr (True, sl3\<lparr>heap := (heap sl3)(a := None)\<rparr>)) = Inr (True, sl4)"
    "sl_inv sl4 (removeAll a xs) hgt" "heap sl4 = (heap sl2)(a := None)" "head sl4 = head sl"
    by (rule remove_finish [OF inv a u(2) u(3) s2(2)])
  have run: "sl_remove key sl = Some (Inr (True, sl4))"
    using s2(1) s4(1) by (simp add: sl_remove_def descend_all [OF inv] gp deref_def n Let_def u(1) na rg)
  have ak: "akey sl4 b = akey sl b" if "b \<noteq> a" for b
  proof -
    have "akey sl4 b = akey sl2 b" using that s4(3) by (simp add: akey_def)
    then show ?thesis using s2(2) f(1) by (simp add: same_links_def)
  qed
  have dn: "map_option data_node (heap sl4 b) = map_option data_node (heap sl b)" if "b \<noteq> a" for b
    using that s4(3) s2(2) f(7) [of b] by (simp add: same_links_def)
  show ?thesis by (rule that [OF run s4(2)]) (simp_all add: ak dn)
qed

lemma sl_remove_beyond:
  assumes inv: "sl_inv sl xs hgt" and "\<And>a. a \<in> set xs \<Longrightarrow> akey sl a < key"
  shows "sl_remove key sl = Some (Inl NullDeref)"
proof -
  have "succ_of sl xs key = None" using assms(2) by (auto simp: succ_of_def filter_empty_conv below_def split: list.splits)
  then have "get_forward sl (Some (pos sl xs hgt key 0)) 0 = Inr None"
    using pos_succ [OF inv, of 0 key] by (simp add: level_list_0 [OF inv])
  then show ?thesis by (simp add: sl_remove_def descend_all [OF inv] deref_def)
qed

lemma sl_update_ok:
  assumes inv: "sl_inv sl xs hgt"
  shows "sl_update key r t sl = Some (Inr (False, sl)) \<and> key \<notin> akey sl ` set xs \<or>
    (\<exists>a n. a \<in> set xs \<and> akey sl a = key \<and> heap sl a = Some n \<and>
      sl_update key r t sl = Some (Inr (True, sl\<lparr>heap := (heap sl)(a \<mapsto> n\<lparr>data_node := r, sn_type := t\<rparr>)\<rparr>)))"
proof (cases "\<exists>b\<in>set xs. akey sl b = key")
  case False
  then show ?thesis by (auto simp: sl_update_def search_node_eq [OF inv])
next
  case True
  then obtain a where a: "a \<in> set xs" "akey sl a = key" by blast
  have "0 < hgt a" using inv a(1) by (simp add: sl_inv_def)
  then have "succ_of sl xs key = Some a" using level_list_split(2) [OF sl_sorted [OF inv] a, of hgt 0] by (simp add: level_list_0 [OF inv])
  then have p: "pred_of sl xs key = a" using filter_le_cases [OF inv, of key] a(2) by (simp add: pred_of_def)
  obtain n where n: "heap sl a = Some n" using sl_inv_dom(1) [OF inv, of a] a(1) by auto
  have "sl_update key r t sl = Some (Inr (True, sl\<lparr>heap := (heap sl)(a \<mapsto> n\<lparr>data_node := r, sn_type := t\<rparr>)\<rparr>))"
    using True n p by (simp add: sl_update_def search_node_eq [OF inv] modify_def deref_def)
  with a n show ?thesis by blast
qed

end
