(* ===== verification/SearchIndex.thy ===== *)
theory SearchIndex
  imports SkipListInv
begin

text \<open>
  The search layer as the compute node uses it: bottom-level insertion with later calibration,
  the contract \<open>predecessor_index\<close> of an index of anchors, its interpretation on the skip list,
  and the properties of the search layer.
\<close>

subsection \<open>Insertion in two parts\<close>

lemma hgt_upd_filter:
  assumes "\<not> P a"
  shows "filter P (level_list (hgt(a := m)) i xs) = filter P (level_list hgt i xs)"
  unfolding level_list_def filter_filter by (rule filter_cong) (use assms in auto)

lemma calibrate_level:
  assumes inv: "sl_inv sl xs hgt" and a: "a \<in> set xs" "akey sl a = key" "hgt a = 1" and lev: "0 < level" and i: "i < 16"
    and gf: "\<And>b. get_forward sl' (Some b) i =
        (if 1 \<le> i \<and> i < level \<and> b = a then Inr (succ_of sl (level_list hgt i xs) key)
         else if 1 \<le> i \<and> i < level \<and> b = pos sl xs hgt key i then Inr (Some a) else get_forward sl (Some b) i)"
  shows "linked sl' i (head sl) (level_list (hgt(a := level)) i xs)"
proof -
  let ?h = "hgt(a := level)" and ?ys = "level_list hgt i xs"
  have l: "linked sl i (head sl) ?ys" by (rule sl_linked [OF inv i])
  show ?thesis
  proof (cases "1 \<le> i \<and> i < level")
    case False
    then have "level_list ?h i xs = ?ys"
      unfolding level_list_def using a(3) lev by (intro filter_cong) auto
    moreover have "linked sl' i (head sl) ?ys = linked sl i (head sl) ?ys"
      by (rule linked_cong) (use gf False in auto)
    ultimately show ?thesis using l by simp
  next
    case True
    let ?A = "filter (below sl key) ?ys" and ?B = "filter (\<lambda>b. key < akey sl b) ?ys"
    have na: "\<not> below sl key a" "\<not> key < akey sl a" using a(2) by (simp_all add: below_def)
    have ys: "?ys = ?A @ ?B" using level_list_split(1) [OF sl_sorted [OF inv] a(1,2), of hgt i] True a(3) by simp
    have new: "level_list ?h i xs = ?A @ a # ?B"
      using level_list_split(1) [OF sl_sorted [OF inv] a(1,2), of ?h i] True na by (simp add: hgt_upd_filter)
    have l': "linked sl i (head sl) (?A @ ?B)" using l ys by simp
    have d0: "distinct (head sl # ?ys)" using inv by (simp add: sl_inv_def level_list_def)
    then have d: "distinct (head sl # ?A @ ?B)" by (subst (asm) ys)
    have "a \<notin> set (head sl # ?ys)" using True a(1,3) inv by (auto simp: level_list_def sl_inv_def)
    then have nin: "a \<notin> set (head sl # ?A @ ?B)" by auto
    have p: "pos sl xs hgt key i = last (head sl # ?A)" by (simp add: pos_def)
    have "get_forward sl (Some (last (head sl # ?A))) i = Inr (succ_of sl ?ys key)"
      using pos_succ [OF inv i, of key] p by simp
    with True have "get_forward sl' (Some b) i =
        (if b = a then get_forward sl (Some (last (head sl # ?A))) i
         else if b = last (head sl # ?A) then Inr (Some a) else get_forward sl (Some b) i)" for b
      using gf [of b] p by simp
    then show ?thesis unfolding new by (rule linked_splice [OF l' d nin])
  qed
qed

lemma calibrate_ok:
  assumes inv: "sl_inv sl xs hgt" and a: "a \<in> set xs" "hgt a = 1" and lev: "0 < level" "level \<le> 16"
    and slots: "\<And>j. j < level \<Longrightarrow> \<exists>f. get_forward sl (Some a) j = Inr f"
  obtains sl' where "calibrate a level sl = Some (Inr sl')" "sl_inv sl' xs (hgt(a := level))"
    "akey sl' = akey sl" "head sl' = head sl" "\<And>b. map_option backward (heap sl' b) = map_option backward (heap sl b)"
    "\<And>b. map_option data_node (heap sl' b) = map_option data_node (heap sl b)"
proof -
  let ?cl = "current_level sl" and ?key = "akey sl a"
  let ?upd = "upd_of sl xs hgt ?key 1 ?cl no_update"
  have cl: "?cl \<le> 16" using inv by (simp add: sl_inv_def)
  obtain n where n: "deref sl (Some a) = Inr n" "anchor n = ?key"
    using sl_inv_dom(1) [OF inv, of a] a by (auto simp: deref_def akey_def)
  obtain w where desc: "descend sl ?key 1 ?cl (head sl) no_update = Some (Inr (w, ?upd))"
    using descend_pos [OF inv cl, of no_update ?key "head sl" 1] by (simp add: no_update_def at_or_below_def)
  define sl1 where "sl1 = sl\<lparr>current_level := max ?cl level\<rparr>"
  define upd' where "upd' = map (\<lambda>i. if ?cl \<le> i \<and> i < level then Some (head sl) else ?upd ! i) [0..<16]"
  have rl: "raise_level level ?upd sl = (upd', sl1)"
    using raise_level_eq [of ?upd level sl] lev(2)
    by (simp add: upd_of_def no_update_def sl1_def upd'_def del: upt_rec_numeral)
  have u: "upd' ! j = Some (pos sl xs hgt ?key j)" if "j < level" "1 \<le> j" for j
    unfolding upd'_def by (rule upd_raised [OF inv that(1) lev(2) that(2)]) simp
  have lu: "length upd' = 16" by (simp add: upd'_def)
  have pa: "pos sl xs hgt ?key j \<noteq> a" for j
    using pos_at_or_below [of sl xs hgt ?key j] inv a by (auto simp: at_or_below_def below_def sl_inv_def)
  have gf1: "get_forward sl1 = get_forward sl"
    by (auto simp: sl1_def get_forward_def deref_def fun_eq_iff split: option.splits)
  have "\<exists>sl'. link_levels a upd' 1 (level - 1) sl1 = Inr sl' \<and> relinked sl1 sl' \<and>
     (\<forall>b j. get_forward sl' (Some b) j =
        (if 1 \<le> j \<and> j < 1 + (level - 1) \<and> b = a then Inr (succ_of sl (level_list hgt j xs) ?key)
         else if 1 \<le> j \<and> j < 1 + (level - 1) \<and> b = pos sl xs hgt ?key j then Inr (Some a) else get_forward sl1 (Some b) j))"
  proof (rule link_levels_ok)
    fix j assume j: "1 \<le> j" "j < 1 + (level - 1)"
    then have j2: "j < level" "j < 16" using lev by simp_all
    show "j < length upd' \<and> upd' ! j = Some (pos sl xs hgt ?key j) \<and> pos sl xs hgt ?key j \<noteq> a \<and>
      get_forward sl1 (Some (pos sl xs hgt ?key j)) j = Inr (succ_of sl (level_list hgt j xs) ?key) \<and>
      (\<exists>f. get_forward sl1 (Some a) j = Inr f)"
      using j2 u [OF j2(1) j(1)] pa [of j] pos_succ [OF inv j2(2), of ?key] slots [OF j2(1)] by (simp add: lu gf1)
  qed
  then obtain sl' where s: "link_levels a upd' 1 (level - 1) sl1 = Inr sl'" "relinked sl1 sl'"
    "\<And>b j. get_forward sl' (Some b) j =
        (if 1 \<le> j \<and> j < level \<and> b = a then Inr (succ_of sl (level_list hgt j xs) ?key)
         else if 1 \<le> j \<and> j < level \<and> b = pos sl xs hgt ?key j then Inr (Some a) else get_forward sl (Some b) j)"
    using lev(1) by (auto simp: gf1)
  note f = relinked_fields [OF s(2)]
  have ak: "akey sl' = akey sl" unfolding f(1) by (simp add: sl1_def akey_def fun_eq_iff)
  have h: "head sl' = head sl" "current_level sl' = max ?cl level" "brk sl' = brk sl" "dom (heap sl') = dom (heap sl)"
    unfolding f by (simp_all add: sl1_def)
  have "linked sl' i (head sl) (level_list (hgt(a := level)) i xs)" if "i < 16" for i
    by (rule calibrate_level [OF inv a(1) refl a(2) lev(1) that s(3)])
  then have inv': "sl_inv sl' xs (hgt(a := level))"
    using inv lev h by (auto simp: sl_inv_def ak le_max_iff_disj)
  have run: "calibrate a level sl = Some (Inr sl')"
    using n desc rl s(1) by (simp add: calibrate_def)
  show ?thesis
    by (rule that [OF run inv' ak h(1)]) (simp_all add: f(6,7), simp_all add: sl1_def)
qed

lemma async_update_ok:
  assumes inv: "sl_inv sl xs hgt" and new: "key \<notin> akey sl ` set xs" and cl: "1 \<le> current_level sl"
    and lev: "random_level draws = Some level" "0 < level" "level \<le> 16" and d: "d = pred_of sl xs key"
  obtains sl' where
    "async_update draws d key t r (sl, q) = Some (Inr (sl', if level = 1 then q else q @ [(level, brk sl)]))"
    "sl_inv sl' (xs_insert sl key (brk sl) xs) (hgt(brk sl := 1))" "akey sl' (brk sl) = key" "head sl' = head sl"
    "brk sl \<notin> set xs" "\<And>b. b \<noteq> brk sl \<Longrightarrow> akey sl' b = akey sl b"
    "\<And>j. j < level \<Longrightarrow> \<exists>f. get_forward sl' (Some (brk sl)) j = Inr f"
    "map_option data_node (heap sl' (brk sl)) = Some r"
    "\<And>b. b \<noteq> brk sl \<Longrightarrow> map_option data_node (heap sl' b) = map_option data_node (heap sl b)"
    "\<And>b. b \<noteq> brk sl \<Longrightarrow> map_option backward (heap sl' b) = map_option backward (heap sl b)"
proof -
  obtain a sl1 where mk: "make_new_node level key r t sl = (a, sl1)" by (cases "make_new_node level key r t sl")
  note m = make_new_node_ok [OF inv mk lev(2)]
  have dp: "d = pos sl xs hgt key 0"
  proof -
    have "filter (\<lambda>b. akey sl b \<le> key) xs = filter (below sl key) xs"
      using new by (intro filter_cong) (auto simp: below_def le_less)
    then show ?thesis by (simp add: d pred_of_def pos_0 [OF inv])
  qed
  have da: "d \<noteq> a"
    using pos_at_or_below [of sl xs hgt key 0] m(9,10) dp by (auto simp: at_or_below_def)
  have g0: "get_forward sl1 (Some d) 0 = Inr (succ_of sl xs key)"
    using pos_succ [OF inv, of 0 key] m(7) [OF da] by (simp add: dp level_list_0 [OF inv])
  obtain sl2 where s2: "set_forward (Some a) 0 (succ_of sl xs key) sl1 = Inr sl2" "relinked sl1 sl2"
    "\<And>b j. get_forward sl2 (Some b) j = (if b = a \<and> j = 0 then Inr (succ_of sl xs key) else get_forward sl1 (Some b) j)"
    using set_forward_ok [OF m(8) [OF lev(2)], of "succ_of sl xs key"] by metis
  have g2: "get_forward sl2 (Some d) 0 = Inr (succ_of sl xs key)" using g0 da by (simp add: s2(3))
  obtain sl3 where s3: "set_forward (Some d) 0 (Some a) sl2 = Inr sl3" "relinked sl2 sl3"
    "\<And>b j. get_forward sl3 (Some b) j = (if b = d \<and> j = 0 then Inr (Some a) else get_forward sl2 (Some b) j)"
    using set_forward_ok [OF g2, of "Some a"] by metis
  have ag: "relinked sl1 sl3" by (rule relinked_trans [OF s2(2) s3(2)])
  note f = relinked_fields [OF ag]
  have ak: "akey sl3 b = akey sl b" if "b \<noteq> a" for b using m(5) [OF that] by (simp add: f(1) akey_def)
  have aka: "akey sl3 a = key" using m(6) by (simp add: f(1) akey_def make_skip_node_def)
  have dom3: "\<forall>b\<in>dom (heap sl3). b < brk sl3"
  proof
    fix b assume "b \<in> dom (heap sl3)"
    then have "heap sl1 b \<noteq> None" using f(2) by auto
    then have "b = a \<or> b \<in> dom (heap sl)" using m(5) [of b] by (cases "b = a") (simp_all add: dom_def)
    then show "b < brk sl3"
    proof
      assume "b \<in> dom (heap sl)"
      with inv have "b < brk sl" by (simp add: sl_inv_def)
      then show ?thesis by (simp add: f(4) m(4))
    qed (simp add: f(4) m(1,4))
  qed
  have inv3: "sl_inv sl3 (xs_insert sl key a xs) (hgt(a := 1))"
  proof (rule splice_levels [OF inv m(9,10) new])
    fix b j :: nat assume "j < 16" "b \<noteq> a"
    then show "get_forward sl3 (Some b) j = (if j < 1 \<and> b = pos sl xs hgt key j then Inr (Some a) else get_forward sl (Some b) j)"
      using m(7) by (auto simp: s3(3) s2(3) dp)
  next
    fix b assume "b = head sl \<or> b \<in> set xs"
    then have "b \<noteq> a" using m(9,10) by auto
    then show "akey sl3 b = akey sl b" by (rule ak)
  qed (use aka dom3 cl da m(2,3) in \<open>simp_all add: s3(3) s2(3) f(3,5) level_list_0 [OF inv] max_def\<close>)
  have "heap sl3 a \<noteq> None" using f(2) m(6) by (auto simp: dom_def)
  then obtain na where na: "heap sl3 a = Some na" by blast
  obtain sl4 where s4: "set_backward (Some a) (Some d) sl3 = Inr sl4" "same_links sl3 sl4"
    "\<forall>c. map_option backward (heap sl4 c) = (if c = a then Some (Some d) else map_option backward (heap sl3 c))"
    by (rule set_backward_ok [OF na])
  have run: "async_update draws d key t r (sl, q) = Some (Inr (sl4, if level = 1 then q else q @ [(level, a)]))"
    using g0 s2(1) s3(1) s4(1) by (simp add: async_update_def lev(1) mk)
  have slots: "\<exists>f. get_forward sl4 (Some a) j = Inr f" if "j < level" for j
    using s4(2) m(8) [OF that] da by (auto simp: same_links_def s3(3) s2(3))
  have dn: "map_option data_node (heap sl4 b) = map_option data_node (heap sl1 b)" for b
    using s4(2) f(7) by (simp add: same_links_def)
  have dna: "map_option data_node (heap sl4 a) = Some r" using m(6) by (simp only: dn) (simp add: make_skip_node_def)
  have dnb: "map_option data_node (heap sl4 b) = map_option data_node (heap sl b)" if "b \<noteq> a" for b
    using m(5) [OF that] by (simp only: dn)
  have hd: "head sl4 = head sl" and ak4: "akey sl4 = akey sl3" using s4(2) f(3) m(2) by (simp_all add: same_links_def)
  have bk: "map_option backward (heap sl4 b) = map_option backward (heap sl b)" if "b \<noteq> a" for b
    using that s4(3) f(6) [of b] m(5) [OF that] by simp
  show ?thesis
    by (rule that [of sl4, folded m(1)])
       (use sl_inv_same [OF s4(2) inv3] in \<open>simp_all add: run hd ak4 aka ak slots dna dnb bk m(10)\<close>)
qed

subsection \<open>An index of anchors\<close>

text \<open>What the compute node relies on when it looks for the data node of a key: the entry with
  the greatest anchor that is not above the key.\<close>

definition greatest_below :: "(bytes \<rightharpoonup> remote_ptr) \<Rightarrow> bytes \<Rightarrow> bytes \<Rightarrow> bool" where
  "greatest_below m k x \<longleftrightarrow> x \<in> dom m \<and> x \<le> k \<and> (\<forall>y\<in>dom m. y \<le> k \<longrightarrow> y \<le> x)"

fun insert_all :: "('d \<Rightarrow> bytes \<Rightarrow> remote_ptr \<Rightarrow> 's \<Rightarrow> (bool \<times> 's) run) \<Rightarrow> ('d \<times> bytes \<times> remote_ptr) list \<Rightarrow> 's \<Rightarrow> 's run" where
  "insert_all ins [] s = Some (Inr s)"
| "insert_all ins ((d, k, r) # es) s = run_bind (ins d k r s) (\<lambda>(_, s'). insert_all ins es s')"

locale predecessor_index =
  fixes ins :: "'d \<Rightarrow> bytes \<Rightarrow> remote_ptr \<Rightarrow> 's \<Rightarrow> (bool \<times> 's) run"
    and route :: "bytes \<Rightarrow> 's \<Rightarrow> (bytes \<times> remote_ptr) run"
    and rep :: "'s \<Rightarrow> (bytes \<rightharpoonup> remote_ptr) \<Rightarrow> bool" and okd :: "'d \<Rightarrow> bool"
  assumes ins_ok: "rep s m \<Longrightarrow> okd d \<Longrightarrow> k \<notin> dom m \<Longrightarrow> \<exists>s'. ins d k r s = Some (Inr (True, s')) \<and> rep s' (m(k \<mapsto> r))"
    and route_ok: "rep s m \<Longrightarrow> greatest_below m k x \<Longrightarrow> route k s = Some (Inr (x, the (m x)))"
begin

lemma insert_all_ok:
  "rep s m \<Longrightarrow> list_all (\<lambda>e. okd (fst e) \<and> fst (snd e) \<notin> dom m) es \<Longrightarrow> distinct (map (fst \<circ> snd) es) \<Longrightarrow>
   \<exists>s'. insert_all ins es s = Some (Inr s') \<and> rep s' (m ++ map_of (map snd es))"
proof (induction es arbitrary: s m)
  case (Cons e es)
  obtain d k r where e: "e = (d, k, r)" by (cases e)
  obtain s1 where s1: "ins d k r s = Some (Inr (True, s1))" "rep s1 (m(k \<mapsto> r))"
    using ins_ok [OF Cons.prems(1), of d k r] Cons.prems(2) e by auto
  have nk: "k \<notin> (fst \<circ> snd) ` set es" using Cons.prems(3) e by simp
  have "list_all (\<lambda>x. okd (fst x) \<and> fst (snd x) \<notin> dom (m(k \<mapsto> r))) es"
    using Cons.prems(2) nk by (force simp: list_all_iff)
  moreover have "distinct (map (fst \<circ> snd) es)" using Cons.prems(3) by (simp only: list.map distinct.simps)
  ultimately obtain s' where s': "insert_all ins es s1 = Some (Inr s')" "rep s' (m(k \<mapsto> r) ++ map_of (map snd es))"
    using Cons.IH [OF s1(2)] by blast
  have "map_of (map snd es) k = None" using nk by (simp add: map_of_eq_None_iff image_comp)
  then have "m(k \<mapsto> r) ++ map_of (map snd es) = m ++ map_of (map snd (e # es))"
    by (auto simp: e fun_eq_iff map_add_def split: option.splits)
  with s'(2) have "rep s' (m ++ map_of (map snd (e # es)))" by (simp only:)
  moreover have "insert_all ins (e # es) s = Some (Inr s')" using s'(1) s1(1) by (simp add: e)
  ultimately show ?case by blast
qed simp

lemma route_after_inserts:
  assumes "rep s m" "list_all (\<lambda>e. okd (fst e) \<and> fst (snd e) \<notin> dom m) es" "distinct (map (fst \<circ> snd) es)"
  shows "\<exists>s'. insert_all ins es s = Some (Inr s') \<and>
    (\<forall>k x. greatest_below (m ++ map_of (map snd es)) k x \<longrightarrow>
       route k s' = Some (Inr (x, the ((m ++ map_of (map snd es)) x))))"
  using insert_all_ok [OF assms] route_ok by blast

lemma split_routing:
  assumes "rep s m" "okd d" "b \<notin> dom m" "greatest_below m k x" "x < b"
  shows "\<exists>s'. ins d b r s = Some (Inr (True, s')) \<and>
    route k s' = Some (Inr (if b \<le> k then (b, r) else (x, the (m x))))"
proof -
  obtain s' where s': "ins d b r s = Some (Inr (True, s'))" "rep s' (m(b \<mapsto> r))"
    using ins_ok [OF assms(1-3)] by blast
  have x: "x \<in> dom m" "x \<le> k" "\<And>y. y \<in> dom m \<Longrightarrow> y \<le> k \<Longrightarrow> y \<le> x"
    using assms(4) by (auto simp: greatest_below_def)
  show ?thesis
  proof (cases "b \<le> k")
    case True
    have "y \<le> b" if "y \<in> dom m" "y \<le> k" for y
      using x(3) [OF that] assms(5) by (meson order.trans less_imp_le)
    with True have "greatest_below (m(b \<mapsto> r)) k b" by (auto simp: greatest_below_def)
    from route_ok [OF s'(2) this] True s'(1) show ?thesis by simp
  next
    case False
    have "greatest_below (m(b \<mapsto> r)) k x" using x False by (auto simp: greatest_below_def)
    from route_ok [OF s'(2) this] False s'(1) assms(5) show ?thesis by auto
  qed
qed

end

subsection \<open>The skip list is such an index\<close>

definition sl_route :: "bytes \<Rightarrow> skiplist \<Rightarrow> (bytes \<times> remote_ptr) run" where
  "sl_route key sl =
     run_bind (fuzzy_search key sl) (\<lambda>p.
     run_bind (Some (deref sl p)) (\<lambda>n. Some (Inr (anchor n, data_node n))))"

definition sl_maps :: "skiplist \<Rightarrow> nat list \<Rightarrow> (bytes \<rightharpoonup> remote_ptr) \<Rightarrow> bool" where
  "sl_maps sl xs m \<longleftrightarrow>
     (\<forall>k r. m k = Some r \<longleftrightarrow> (\<exists>a\<in>set xs. akey sl a = k \<and> map_option data_node (heap sl a) = Some r))"

definition sl_rep :: "skiplist \<Rightarrow> (bytes \<rightharpoonup> remote_ptr) \<Rightarrow> bool" where
  "sl_rep sl m \<longleftrightarrow> (\<exists>xs hgt. sl_inv sl xs hgt \<and> back_linked sl (head sl) xs \<and> sl_maps sl xs m)"

lemma random_level_bounds:
  "random_level draws = Some level \<Longrightarrow> 1 \<le> level \<and> level \<le> 16"
proof -
  have "1 \<le> l \<Longrightarrow> random_level_from draws l = Some level \<Longrightarrow> 1 \<le> level \<and> level \<le> 16" for l
    by (induction draws l rule: random_level_from.induct) (auto split: if_splits)
  from this [of 1] show "random_level draws = Some level \<Longrightarrow> 1 \<le> level \<and> level \<le> 16"
    by (simp add: random_level_def)
qed

lemma sl_maps_dom:
  assumes "sl_inv sl xs hgt" "sl_maps sl xs m"
  shows "dom m = akey sl ` set xs"
proof -
  have ex: "\<exists>r. map_option data_node (heap sl a) = Some r" if "a \<in> set xs" for a
    using sl_inv_dom(1) [OF assms(1), of a] that by auto
  have m: "m k = Some r \<longleftrightarrow> (\<exists>a\<in>set xs. akey sl a = k \<and> map_option data_node (heap sl a) = Some r)" for k r
    using assms(2) by (simp add: sl_maps_def)
  show ?thesis
  proof (intro set_eqI iffI)
    fix k assume "k \<in> dom m"
    then obtain r where "m k = Some r" by blast
    then show "k \<in> akey sl ` set xs" unfolding m by blast
  next
    fix k assume "k \<in> akey sl ` set xs"
    then obtain a where a: "a \<in> set xs" "akey sl a = k" by blast
    with ex obtain r where "map_option data_node (heap sl a) = Some r" by blast
    with a have "m k = Some r" unfolding m by blast
    then show "k \<in> dom m" by blast
  qed
qed

lemma sl_rep_insert:
  assumes "sl_rep sl m" "random_level draws \<noteq> None" "k \<notin> dom m"
  shows "\<exists>sl'. sl_insert draws k r t sl = Some (Inr (True, sl')) \<and> sl_rep sl' (m(k \<mapsto> r))"
proof -
  obtain xs hgt where inv: "sl_inv sl xs hgt" "back_linked sl (head sl) xs" "sl_maps sl xs m"
    using assms(1) by (auto simp: sl_rep_def)
  obtain level where lv: "random_level draws = Some level" using assms(2) by blast
  have lev: "0 < level" "level \<le> 16" using random_level_bounds [OF lv] by simp_all
  have new: "k \<notin> akey sl ` set xs" using assms(3) sl_maps_dom [OF inv(1,3)] by simp
  obtain sl' where s: "insert_at level k r t sl = Some (Inr (True, sl'))"
    "sl_inv sl' (xs_insert sl k (brk sl) xs) (hgt(brk sl := level))"
    "back_linked sl' (head sl') (xs_insert sl k (brk sl) xs)" "brk sl \<notin> set xs" "akey sl' (brk sl) = k"
    "\<forall>b. b \<noteq> brk sl \<longrightarrow> akey sl' b = akey sl b" "map_option data_node (heap sl' (brk sl)) = Some r"
    "\<forall>b. b \<noteq> brk sl \<longrightarrow> map_option data_node (heap sl' b) = map_option data_node (heap sl b) \<and>
       map_option sn_type (heap sl' b) = map_option sn_type (heap sl b)"
    by (rule insert_at_ok [OF inv(1) lev new inv(2)])
  have "sl_maps sl' (xs_insert sl k (brk sl) xs) (m(k \<mapsto> r))"
    unfolding sl_maps_def
  proof (intro allI)
    fix k' r'
    have ne: "b \<noteq> brk sl" if "b \<in> set xs" for b using that s(4) by blast
    have old: "(\<exists>a\<in>set xs. akey sl' a = k' \<and> map_option data_node (heap sl' a) = Some r') \<longleftrightarrow> m k' = Some r'"
      using inv(3) s(6,8) ne unfolding sl_maps_def by metis
    have mk: "m k = None" using assms(3) by auto
    show "(m(k \<mapsto> r)) k' = Some r' \<longleftrightarrow>
      (\<exists>a\<in>set (xs_insert sl k (brk sl) xs). akey sl' a = k' \<and> map_option data_node (heap sl' a) = Some r')"
      using old s(5,7) mk by auto
  qed
  with s lv show ?thesis unfolding sl_rep_def sl_insert_def by auto
qed

lemma sl_rep_route:
  assumes "sl_rep sl m" "greatest_below m k x"
  shows "sl_route k sl = Some (Inr (x, the (m x)))"
proof -
  obtain xs hgt where inv: "sl_inv sl xs hgt" "sl_maps sl xs m" using assms(1) by (auto simp: sl_rep_def)
  have d: "dom m = akey sl ` set xs" by (rule sl_maps_dom [OF inv])
  have x: "x \<in> akey sl ` set xs" "x \<le> k" "\<And>b. b \<in> set xs \<Longrightarrow> akey sl b \<le> k \<Longrightarrow> akey sl b \<le> x"
    using assms(2) by (auto simp: greatest_below_def d)
  let ?F = "filter (\<lambda>a. akey sl a \<le> k) xs"
  have ne: "?F \<noteq> []" using x(1,2) by (auto simp: filter_empty_conv)
  have p: "pred_of sl xs k = last ?F" using ne by (simp add: pred_of_def)
  have lF: "last ?F \<in> set ?F" using ne by (rule last_in_set)
  have sF: "sorted_wrt (\<lambda>a b. akey sl a < akey sl b) ?F" using sl_sorted [OF inv(1)] by (rule sorted_wrt_filter)
  have "akey sl b \<le> akey sl (last ?F)" if "b \<in> set ?F" for b
  proof -
    obtain i where i: "i < length ?F" "?F ! i = b" using \<open>b \<in> set ?F\<close> by (metis in_set_conv_nth)
    show ?thesis
    proof (cases "i = length ?F - 1")
      case True with i ne show ?thesis by (simp add: last_conv_nth)
    next
      case False
      with i have "i < length ?F - 1" by simp
      with sorted_wrt_nth_less [OF sF this] i ne show ?thesis by (simp add: last_conv_nth)
    qed
  qed
  moreover obtain b where "b \<in> set ?F" "akey sl b = x" using x(1,2) by auto
  ultimately have kx: "akey sl (last ?F) = x" using x(3) [of "last ?F"] lF by (auto intro: order.antisym)
  obtain n where n: "heap sl (last ?F) = Some n" using sl_inv_dom(1) [OF inv(1), of "last ?F"] lF by auto
  have "m x = Some (data_node n)" using inv(2) lF kx n unfolding sl_maps_def by auto
  with n kx show ?thesis
    by (simp add: sl_route_def fuzzy_search_pred [OF inv(1)] p deref_def akey_def)
qed

interpretation sl_index: predecessor_index "\<lambda>(draws, t) k r sl. sl_insert draws k r t sl" sl_route sl_rep
    "\<lambda>(draws, t). random_level draws \<noteq> None"
  by unfold_locales (auto intro: sl_rep_insert sl_rep_route)

lemma empty_rep: "sl_rep make_skiplist Map.empty"
proof -
  have "get_forward make_skiplist (Some 0) i = Inr None" if "i < 16" for i
    using that by (cases i) (simp_all add: make_skiplist_def get_forward_def deref_def make_skip_node_def)
  then have "sl_inv make_skiplist [] (\<lambda>_. 0)"
    by (simp add: sl_inv_def level_list_def) (simp add: make_skiplist_def akey_def make_skip_node_def)
  then show ?thesis unfolding sl_rep_def sl_maps_def by (intro exI [of _ "[]"] exI [of _ "\<lambda>_. 0"]) simp
qed

subsection \<open>Properties\<close>

text \<open>C27: after any sequence of insertions of different anchors, at whatever random levels, the
  list routes every key to the entry with the greatest anchor that is not above the key.\<close>

theorem skiplist_routes_to_predecessor:
  assumes "list_all (\<lambda>e. random_level (fst (fst e)) \<noteq> None) es" "distinct (map (fst \<circ> snd) es)"
  shows "\<exists>sl. insert_all (\<lambda>(draws, t) k r sl. sl_insert draws k r t sl) es make_skiplist = Some (Inr sl) \<and>
    (\<forall>k x. greatest_below (map_of (map snd es)) k x \<longrightarrow>
       sl_route k sl = Some (Inr (x, the (map_of (map snd es) x))))"
  using sl_index.route_after_inserts [OF empty_rep, of es] assms by (auto simp: list_all_iff case_prod_beta)

definition two_entries :: "((nat list \<times> u32) \<times> bytes \<times> remote_ptr) list" where
  "two_entries = [(([0, RAND_MAX], 10), [5], 100), (([RAND_MAX], 12), [2], 200)]"

lemma skiplist_routes_to_predecessor_witness:
  "\<exists>sl. insert_all (\<lambda>(draws, t) k r sl. sl_insert draws k r t sl) two_entries make_skiplist = Some (Inr sl) \<and>
    sl_route [3] sl = Some (Inr ([2], 200)) \<and> sl_route [5, 1] sl = Some (Inr ([5], 100))"
proof -
  have "list_all (\<lambda>e. random_level (fst (fst e)) \<noteq> None) two_entries" "distinct (map (fst \<circ> snd) two_entries)"
    by (simp_all add: two_entries_def random_level_def RAND_MAX_def)
  from skiplist_routes_to_predecessor [OF this] obtain sl where
    sl: "insert_all (\<lambda>(draws, t) k r sl. sl_insert draws k r t sl) two_entries make_skiplist = Some (Inr sl)"
    "\<And>k x. greatest_below (map_of (map snd two_entries)) k x \<Longrightarrow>
       sl_route k sl = Some (Inr (x, the (map_of (map snd two_entries) x)))" by blast
  have "greatest_below (map_of (map snd two_entries)) [3] [2]" "greatest_below (map_of (map snd two_entries)) [5, 1] [5]"
    by (auto simp: greatest_below_def two_entries_def split: if_splits)
  with sl show ?thesis by (fastforce simp: two_entries_def)
qed

text \<open>When a node is split and its new right part is inserted under the right part's anchor,
  exactly the keys from that anchor on are routed to the new node; all other keys of the node
  still reach the old one.\<close>

theorem split_reroutes_upper_keys:
  assumes "sl_rep sl m" "random_level draws \<noteq> None" "b \<notin> dom m" "greatest_below m k x" "x < b"
  shows "\<exists>sl'. sl_insert draws b r t sl = Some (Inr (True, sl')) \<and>
    sl_route k sl' = Some (Inr (if b \<le> k then (b, r) else (x, the (m x))))"
  using sl_index.split_routing [of sl m "(draws, t)" b k x r] assms by simp

lemma split_reroutes_upper_keys_witness:
  "\<exists>sl m sl'. sl_rep sl m \<and> sl_insert [RAND_MAX] [7] 300 10 sl = Some (Inr (True, sl')) \<and>
    sl_route [8] sl' = Some (Inr ([7], 300))"
proof -
  have "random_level [RAND_MAX] \<noteq> None" by (simp add: random_level_def RAND_MAX_def)
  from sl_rep_insert [OF empty_rep this, of "[5]" 100 10] obtain sl where sl: "sl_rep sl [[5] \<mapsto> 100]" by auto
  have "greatest_below [[5] \<mapsto> 100] [8] [5]" by (simp add: greatest_below_def)
  from split_reroutes_upper_keys [OF sl \<open>random_level [RAND_MAX] \<noteq> None\<close> _ this, of "[7]" 300 10]
  show ?thesis using sl by auto
qed

text \<open>C33: \<open>remove\<close> takes exactly the entry of its anchor out of every level and lowers the current
  level to the highest one still in use; the remaining list is well formed.\<close>

theorem sl_remove_unlinks:
  assumes "sl_inv sl xs hgt" "a \<in> set xs"
  shows "\<exists>sl'. sl_remove (akey sl a) sl = Some (Inr (True, sl')) \<and> sl_inv sl' (removeAll a xs) hgt \<and>
    (\<forall>b\<in>set xs. b \<noteq> a \<longrightarrow> akey sl' b = akey sl b)"
  using sl_remove_ok [OF assms refl] by metis

lemma empty_inv: "sl_inv make_skiplist [] (\<lambda>_. 0)"
proof -
  have "get_forward make_skiplist (Some 0) i = Inr None" if "i < 16" for i
    using that by (cases i) (simp_all add: make_skiplist_def get_forward_def deref_def make_skip_node_def)
  then show ?thesis
    by (simp add: sl_inv_def level_list_def) (simp add: make_skiplist_def akey_def make_skip_node_def)
qed

lemma one_node:
  "\<exists>sl'. insert_at 1 [5] 100 10 make_skiplist = Some (Inr (True, sl')) \<and>
     sl_inv sl' [1] ((\<lambda>_. 0)(1 := 1)) \<and> akey sl' 1 = [5]"
proof -
  obtain sl' where "insert_at 1 [5] 100 10 make_skiplist = Some (Inr (True, sl'))"
    "sl_inv sl' (xs_insert make_skiplist [5] (brk make_skiplist) []) ((\<lambda>_. 0)(brk make_skiplist := 1))"
    "akey sl' (brk make_skiplist) = [5]"
    by (rule insert_at_ok [OF empty_inv, of 1 "[5]" 100 10]) simp_all
  then show ?thesis by (simp add: xs_insert_def make_skiplist_def)
qed

lemma sl_remove_unlinks_witness:
  "\<exists>sl sl'. insert_at 1 [5] 100 10 make_skiplist = Some (Inr (True, sl)) \<and>
    sl_remove [5] sl = Some (Inr (True, sl')) \<and> sl_inv sl' [] ((\<lambda>_. 0)(1 := 1))"
proof -
  obtain sl where sl: "insert_at 1 [5] 100 10 make_skiplist = Some (Inr (True, sl))"
    "sl_inv sl [1] ((\<lambda>_. 0)(1 := 1))" "akey sl 1 = [5]" using one_node by blast
  from sl_remove_unlinks [OF sl(2), of 1] sl show ?thesis by auto
qed

text \<open>Removing a key above every anchor reads the anchor of a null successor.\<close>

theorem sl_remove_above_all_faults:
  assumes "sl_inv sl xs hgt" "\<forall>a\<in>set xs. akey sl a < key"
  shows "sl_remove key sl = Some (Inl NullDeref)"
  by (rule sl_remove_beyond [OF assms(1)]) (use assms(2) in blast)

lemma sl_remove_above_all_faults_witness: "sl_remove [1] make_skiplist = Some (Inl NullDeref)"
  by (rule sl_remove_above_all_faults [OF empty_inv]) simp

text \<open>C30: linking a new right node at the bottom level and calibrating it later gives a well-formed
  list again, with the node at its random height; in between the list is well formed too, with
  the node at height one.  But the successor's back pointer still leads past the new node.\<close>

theorem async_update_then_calibrate:
  assumes "sl_inv sl xs hgt" "key \<notin> akey sl ` set xs" "1 \<le> current_level sl"
    "random_level draws = Some level"
  shows "\<exists>sl1 q sl2. async_update draws (pred_of sl xs key) key t r (sl, []) = Some (Inr (sl1, q)) \<and>
     sl_inv sl1 (xs_insert sl key (brk sl) xs) (hgt(brk sl := 1)) \<and>
     drain_updates sl1 q = Some (Inr sl2) \<and>
     sl_inv sl2 (xs_insert sl key (brk sl) xs) (hgt(brk sl := level)) \<and>
     (\<forall>b\<in>set xs. map_option backward (heap sl2 b) = map_option backward (heap sl b))"
proof -
  have lev: "0 < level" "level \<le> 16" using random_level_bounds [OF assms(4)] by simp_all
  obtain sl1 where s: "async_update draws (pred_of sl xs key) key t r (sl, []) = Some (Inr (sl1, if level = 1 then [] else [] @ [(level, brk sl)]))"
    "sl_inv sl1 (xs_insert sl key (brk sl) xs) (hgt(brk sl := 1))" "brk sl \<notin> set xs"
    "\<And>j. j < level \<Longrightarrow> \<exists>f. get_forward sl1 (Some (brk sl)) j = Inr f"
    "\<And>b. b \<noteq> brk sl \<Longrightarrow> map_option backward (heap sl1 b) = map_option backward (heap sl b)"
    using async_update_ok [OF assms(1,2,3,4) lev refl] by metis
  obtain sl2 where c: "calibrate (brk sl) level sl1 = Some (Inr sl2)"
    "sl_inv sl2 (xs_insert sl key (brk sl) xs) ((hgt(brk sl := 1))(brk sl := level))"
    "\<And>b. map_option backward (heap sl2 b) = map_option backward (heap sl1 b)"
    using calibrate_ok [OF s(2) _ _ lev s(4)] by (metis fun_upd_same insertI1 set_xs_insert)
  have old: "\<forall>b\<in>set xs. map_option backward (heap sl1 b) = map_option backward (heap sl b)"
    using s(3,5) by metis
  show ?thesis
  proof (cases "level = 1")
    case True
    with s(1,2) old show ?thesis by (intro exI [of _ sl1] exI [of _ "[]"] exI [of _ sl1]) auto
  next
    case False
    have "drain_updates sl1 [(level, brk sl)] = Some (Inr sl2)" using c(1) by simp
    with s(1,2) c old False show ?thesis
      by (intro exI [of _ sl1] exI [of _ "[(level, brk sl)]"] exI [of _ sl2]) simp
  qed
qed

lemma async_update_then_calibrate_witness:
  "\<exists>sl sl1 q sl2. sl_inv sl [1] ((\<lambda>_. 0)(1 := 1)) \<and>
     async_update [0, RAND_MAX] (pred_of sl [1] [7]) [7] 10 300 (sl, []) = Some (Inr (sl1, q)) \<and>
     drain_updates sl1 q = Some (Inr sl2) \<and> sl_inv sl2 (xs_insert sl [7] (brk sl) [1]) ((\<lambda>_. 0)(1 := 1, brk sl := 2))"
proof -
  obtain sl where sl: "sl_inv sl [1] ((\<lambda>_. 0)(1 := 1))" "akey sl 1 = [5]" using one_node by blast
  have "1 \<le> current_level sl" using sl(1) by (simp add: sl_inv_def)
  moreover have "random_level [0, RAND_MAX] = Some 2" by (simp add: random_level_def RAND_MAX_def)
  ultimately show ?thesis using async_update_then_calibrate [OF sl(1), of "[7]" "[0, RAND_MAX]" 2 10 300] sl by auto
qed

end
