(* ===== verification/NodeSplit.thy ===== *)
theory NodeSplit
  imports NodeStore
begin

text \<open>
  The winner's work on its buffers, from \<open>components/node/compute_node/compute_node.hpp\<close> and
  \<open>.cpp\<close>: answering the requests of waiting threads (\<open>help_pred\<close>, \<open>help_others\<close>), choosing a
  type (\<open>morph_node\<close>) and splitting a node (\<open>construct_reorder_map\<close>,
  \<open>out_of_place_split_node\<close>, \<open>inplace_split_node\<close>), with the request object of
  \<open>components/handover_locktable/handover_locktable.hpp\<close>.
\<close>

subsection \<open>Requests of waiting threads\<close>

record request =
  rid :: nat
  tag :: bytes
  content :: bytes
  is_done :: bool
  succeed :: bool
  retry :: bool

text \<open>\<open>rid\<close> is the address of the object, by which its submitter finds the answer.\<close>

definition new_request :: "nat \<Rightarrow> bytes \<Rightarrow> bytes \<Rightarrow> request" where
  "new_request a k v = \<lparr>rid = a, tag = k, content = v, is_done = False, succeed = False, retry = False\<rparr>"

definition help_pred :: "linked_node \<Rightarrow> bytes \<Rightarrow> bytes \<Rightarrow> (bool \<times> linked_node) res" where
  "help_pred b k v =
     (case enumerator (ntype b) of
        Some Type16 \<Rightarrow> store_kv 16 k v b
      | Some Type14 \<Rightarrow> store_kv 14 k v b
      | Some Type12 \<Rightarrow> store_kv 12 k v b
      | Some Type10 \<Rightarrow> store_kv 10 k v b
      | _ \<Rightarrow> Inr (False, b))"

text \<open>\<open>N\<close> is the capacity of the real buffer's type.  Answered requests are collected in \<open>ans\<close>; a
  request that does not fit goes to the end of the queue and the loop stops.\<close>

fun help_others :: "nat \<Rightarrow> bytes \<Rightarrow> linked_node \<Rightarrow> linked_node \<Rightarrow> request list \<Rightarrow> request list \<Rightarrow>
    (linked_node \<times> linked_node \<times> request list \<times> request list) res" where
  "help_others N anch pred rb [] ans = Inr (pred, rb, ans, [])"
| "help_others N anch pred rb (req # q) ans =
     (if tag req < anch
      then res_bind (help_pred pred (tag req) (content req)) (\<lambda>(s, pred').
           help_others N anch pred' rb q
             (ans @ [req\<lparr>succeed := s, retry := \<not> s, is_done := True\<rparr>]))
      else res_bind (store_kv N (tag req) (content req) rb) (\<lambda>(s, rb').
           if \<not> s then Inr (pred, rb', ans, q @ [req])
           else help_others N anch pred rb' q
                  (ans @ [req\<lparr>succeed := s, retry := False, is_done := True\<rparr>])))"

subsection \<open>Morphing\<close>

definition morph_node :: "linked_node \<Rightarrow> u32 res" where
  "morph_node b =
     (if length (fingerprints b) < 16 then Inl OutOfBounds
      else (let ct = length (filter (\<lambda>f. f \<noteq> 0) (take 16 (fingerprints b)))
            in Inr (type_num (if ct \<le> 10 then Type10 else if ct \<le> 12 then Type12
                              else if ct \<le> 14 then Type14 else if ct \<le> 16 then Type16
                              else NotSet))))"

subsection \<open>The reorder map\<close>

fun first_unpicked :: "bool list \<Rightarrow> nat \<Rightarrow> nat \<Rightarrow> nat \<Rightarrow> nat res" where
  "first_unpicked picked j 0 target = Inr target"
| "first_unpicked picked j (Suc k) target =
     res_bind (rd picked j) (\<lambda>b. if \<not> b then Inr j else first_unpicked picked (Suc j) k target)"

fun min_unpicked :: "linked_node \<Rightarrow> bool list \<Rightarrow> nat \<Rightarrow> nat \<Rightarrow> nat \<Rightarrow> nat res" where
  "min_unpicked n picked j 0 target = Inr target"
| "min_unpicked n picked j (Suc k) target =
     res_bind (rd picked j) (\<lambda>b.
     if b then min_unpicked n picked (Suc j) k target
     else res_bind (rd (pairs n) target) (\<lambda>pt.
          res_bind (rd (pairs n) j) (\<lambda>pj.
          min_unpicked n picked (Suc j) k (if kv_key pj < kv_key pt then j else target))))"

fun reorder_loop :: "linked_node \<Rightarrow> nat \<Rightarrow> nat \<Rightarrow> nat \<Rightarrow> nat list \<Rightarrow> bool list \<Rightarrow> (nat list \<times> bool list) res" where
  "reorder_loop n i 0 target rmap picked = Inr (rmap, picked)"
| "reorder_loop n i (Suc k) target rmap picked =
     res_bind (first_unpicked picked 0 (unat (nxt n)) target) (\<lambda>t0.
     res_bind (min_unpicked n picked 0 (unat (nxt n)) t0) (\<lambda>t.
     res_bind (wr picked t True) (\<lambda>picked'.
     res_bind (wr rmap i t) (\<lambda>rmap'.
     reorder_loop n (Suc i) k t rmap' picked'))))"

definition construct_reorder_map :: "linked_node \<Rightarrow> nat \<Rightarrow> nat list \<Rightarrow> bool list \<Rightarrow> (nat list \<times> bool list) res" where
  "construct_reorder_map n left_cap rmap picked = reorder_loop n 0 (left_cap + 1) 0 rmap picked"

subsection \<open>Splitting into two fresh nodes\<close>

text \<open>One turn of the copying loop: fingerprint and record go to the next slot.\<close>

definition copy_record :: "linked_node \<Rightarrow> nat \<Rightarrow> linked_node \<Rightarrow> linked_node res" where
  "copy_record src i dst =
     (let d = unat (nxt dst) in
      res_bind (rd (fingerprints src) i) (\<lambda>f.
      res_bind (wr (fingerprints dst) d f) (\<lambda>fps.
      res_bind (rd (pairs src) i) (\<lambda>p.
      res_bind (wr (pairs dst) d p) (\<lambda>ps.
      Inr (dst\<lparr>fingerprints := fps, pairs := ps, nxt := nxt dst + 1\<rparr>))))))"

fun split_loop :: "linked_node \<Rightarrow> bool list \<Rightarrow> nat \<Rightarrow> nat \<Rightarrow> linked_node \<Rightarrow> linked_node \<Rightarrow> (linked_node \<times> linked_node) res" where
  "split_loop tmp picked i 0 left right = Inr (left, right)"
| "split_loop tmp picked i (Suc k) left right =
     res_bind (rd picked i) (\<lambda>b.
     if b then res_bind (copy_record tmp i left) (\<lambda>left'. split_loop tmp picked (Suc i) k left' right)
     else res_bind (copy_record tmp i right) (\<lambda>right'. split_loop tmp picked (Suc i) k left right'))"

text \<open>The buffer node: 21 slots, the first 16 copied from the source; \<open>junk\<close> is what the
  uninitialised rest of the stack object holds.\<close>

definition buffer_node :: "linked_node \<Rightarrow> kv list \<Rightarrow> linked_node" where
  "buffer_node src junk =
     \<lparr>llink = 0, rlink = 0, crc = 0, ntype = of_nat 21, nxt = nxt src,
      fingerprints = take 16 (fingerprints src) @ replicate 5 0,
      pairs = take 16 (pairs src) @ take 5 junk\<rparr>"

definition split_buffer :: "linked_node \<Rightarrow> nat \<Rightarrow> linked_node \<Rightarrow> linked_node \<Rightarrow>
    (linked_node \<times> linked_node \<times> bytes) res" where
  "split_buffer tmp left_cap left right =
     res_bind (construct_reorder_map tmp left_cap (replicate 32 0) (replicate 32 False)) (\<lambda>(rmap, picked).
     res_bind (rd rmap left_cap) (\<lambda>r.
     res_bind (rd (pairs tmp) r) (\<lambda>p.
     res_bind (wr picked r False) (\<lambda>picked'.
     res_bind (split_loop tmp picked' 0 (unat (nxt tmp)) (left\<lparr>nxt := 0\<rparr>) (right\<lparr>nxt := 0\<rparr>)) (\<lambda>(left', right').
     Inr (left', right', kv_key p))))))"

definition out_of_place_split_node ::
    "bytes \<Rightarrow> linked_node \<Rightarrow> linked_node \<Rightarrow> linked_node \<Rightarrow> kv list \<Rightarrow> request list \<Rightarrow> nat \<Rightarrow> bytes \<Rightarrow> bytes \<Rightarrow> bool \<Rightarrow>
     (linked_node \<times> linked_node \<times> linked_node \<times> bytes \<times> request list \<times> request list) res" where
  "out_of_place_split_node anch pred source right junk q left_cap key val done =
     (let tmp = buffer_node source junk in
      res_bind (if \<not> done then store_kv 21 key val tmp else Inr (True, tmp)) (\<lambda>(_, tmp1).
      res_bind (help_others 21 anch pred tmp1 q []) (\<lambda>(pred', tmp2, ans, q').
      res_bind (split_buffer tmp2 left_cap source right) (\<lambda>(left', right', ranchor).
      Inr (pred', left', right', ranchor, ans, q')))))"

subsection \<open>Splitting in place\<close>

fun move_unpicked :: "linked_node \<Rightarrow> bool list \<Rightarrow> nat \<Rightarrow> nat \<Rightarrow> linked_node \<Rightarrow> linked_node res" where
  "move_unpicked src picked i 0 right = Inr right"
| "move_unpicked src picked i (Suc k) right =
     res_bind (rd picked i) (\<lambda>b.
     if b then move_unpicked src picked (Suc i) k right
     else res_bind (rd (pairs src) i) (\<lambda>p.
          res_bind (store_bytes 16 (kv_key p) (kv_value p) right) (\<lambda>(_, right').
          move_unpicked src picked (Suc i) k right')))"

text \<open>The inner loop of the compaction: every picked slot from \<open>j\<close> on is moved to \<open>i\<close>.\<close>

fun pull_into :: "nat \<Rightarrow> nat \<Rightarrow> nat \<Rightarrow> linked_node \<times> bool list \<Rightarrow> (linked_node \<times> bool list) res" where
  "pull_into i j 0 st = Inr st"
| "pull_into i j (Suc k) (n, picked) =
     res_bind (rd picked j) (\<lambda>b.
     if \<not> b then pull_into i (Suc j) k (n, picked)
     else res_bind (rd (fingerprints n) j) (\<lambda>f.
          res_bind (wr (fingerprints n) i f) (\<lambda>fps.
          res_bind (rd (pairs n) j) (\<lambda>p.
          res_bind (wr (pairs n) i p) (\<lambda>ps.
          pull_into i (Suc j) k (n\<lparr>fingerprints := fps, pairs := ps\<rparr>, picked[i := True, j := False]))))))"

fun compact :: "nat \<Rightarrow> nat \<Rightarrow> nat \<Rightarrow> linked_node \<times> bool list \<Rightarrow> (linked_node \<times> bool list) res" where
  "compact total_records i 0 st = Inr st"
| "compact total_records i (Suc k) (n, picked) =
     res_bind (rd picked i) (\<lambda>b.
     if b then compact total_records (Suc i) k (n, picked)
     else res_bind (pull_into i i (total_records - i) (n, picked)) (compact total_records (Suc i) k))"

definition inplace_split_node :: "linked_node \<Rightarrow> linked_node \<Rightarrow> nat \<Rightarrow> (linked_node \<times> linked_node \<times> bytes) res" where
  "inplace_split_node source right left_cap =
     (let tot = unat (nxt source) in
      res_bind (construct_reorder_map source left_cap (replicate 16 0) (replicate 16 False)) (\<lambda>(rmap, picked).
      res_bind (rd rmap left_cap) (\<lambda>r.
      res_bind (rd (pairs source) r) (\<lambda>p.
      res_bind (wr picked r False) (\<lambda>picked1.
      res_bind (move_unpicked source picked1 0 tot (right\<lparr>nxt := 0\<rparr>)) (\<lambda>right'.
      res_bind (compact tot 0 tot (source, picked1)) (\<lambda>(left', _).
      Inr (left'\<lparr>nxt := of_nat left_cap\<rparr>, right', kv_key p))))))))"

end
