(* ===== verification/SplitProofs.thy ===== *)
theory SplitProofs
  imports NodeSplit "HOL-Library.Multiset"
begin

text \<open>
  What helping, choosing a type and splitting do to the records: the reorder map picks the
  smallest keys, the split distributes the records around the anchor, every request of the queue
  is answered or left in the queue.
\<close>

subsection \<open>Records by index\<close>

definition rec_at :: "linked_node \<Rightarrow> nat \<Rightarrow> bytes \<times> bytes" where
  "rec_at n i = (nkey n i, kv_value (pairs n ! i))"

lemma records_rec_at: "unat (nxt n) \<le> length (pairs n) \<Longrightarrow> records n = map (rec_at n) [0..<unat (nxt n)]"
  by (rule nth_equalityI) (simp_all add: records_def rec_at_def nkey_def)

lemma node_inv_len: "node_inv N n \<Longrightarrow> unat (nxt n) \<le> length (pairs n)"
  by (simp add: node_inv_def)

lemma fst_records: "fst ` set (records n) = dom (node_map n)"
  by (simp add: node_map_def dom_map_of_conv_image_fst)

subsection \<open>The reorder map\<close>

lemma first_unpicked_ok:
  "j \<le> t \<Longrightarrow> t < j + m \<Longrightarrow> j + m \<le> length picked \<Longrightarrow> \<not> picked ! t \<Longrightarrow>
    \<exists>t'. first_unpicked picked j m target = Inr t' \<and> t' < j + m \<and> \<not> picked ! t'"
proof (induction m arbitrary: j)
  case (Suc m)
  show ?case
  proof (cases "picked ! j")
    case True
    with Suc.prems(1,4) have "j \<noteq> t" by auto
    with Suc.prems Suc.IH [of "Suc j"] True show ?thesis by simp
  qed (use Suc.prems in auto)
qed simp

lemma min_unpicked_ok:
  "j + m \<le> length picked \<Longrightarrow> j + m \<le> length (pairs n) \<Longrightarrow> t0 < length (pairs n) \<Longrightarrow> \<not> picked ! t0 \<Longrightarrow>
    \<exists>t. min_unpicked n picked j m t0 = Inr t \<and> \<not> picked ! t \<and> (t = t0 \<or> t < j + m) \<and> nkey n t \<le> nkey n t0 \<and>
      (\<forall>i. j \<le> i \<and> i < j + m \<and> \<not> picked ! i \<longrightarrow> nkey n t \<le> nkey n i)"
proof (induction m arbitrary: j t0)
  case (Suc m)
  define t1 where "t1 = (if \<not> picked ! j \<and> nkey n j < nkey n t0 then j else t0)"
  have s: "min_unpicked n picked j (Suc m) t0 = min_unpicked n picked (Suc j) m t1"
    using Suc.prems by (simp add: t1_def nkey_def)
  have b: "t1 < length (pairs n)" "\<not> picked ! t1" "nkey n t1 \<le> nkey n t0" using Suc.prems by (auto simp: t1_def)
  have d: "\<not> picked ! j \<Longrightarrow> nkey n t1 \<le> nkey n j" by (auto simp: t1_def not_less)
  have p: "Suc j + m \<le> length picked" "Suc j + m \<le> length (pairs n)" using Suc.prems by simp_all
  obtain t where t: "min_unpicked n picked (Suc j) m t1 = Inr t" "\<not> picked ! t" "t = t1 \<or> t < Suc j + m"
    "nkey n t \<le> nkey n t1" "\<And>i. Suc j \<le> i \<Longrightarrow> i < Suc j + m \<Longrightarrow> \<not> picked ! i \<Longrightarrow> nkey n t \<le> nkey n i"
    using Suc.IH [OF p b(1,2)] by blast
  have "nkey n t \<le> nkey n i" if "j \<le> i" "i < j + Suc m" "\<not> picked ! i" for i
    using t(5) [of i] that d t(4) by (cases "i = j") (auto intro: order_trans)
  moreover have "t = t0 \<or> t < j + Suc m" using t(3) by (auto simp: t1_def split: if_splits)
  ultimately show ?case unfolding s using t(1,2,4) b(3) by (auto intro: order_trans)
qed auto

text \<open>After \<open>i\<close> turns the \<open>i\<close> smallest keys are picked.\<close>

definition picked_low :: "linked_node \<Rightarrow> bool list \<Rightarrow> nat \<Rightarrow> bool" where
  "picked_low n picked i \<longleftrightarrow> unat (nxt n) \<le> length picked \<and>
     card {j. j < unat (nxt n) \<and> picked ! j} = i \<and>
     (\<forall>a b. a < unat (nxt n) \<and> b < unat (nxt n) \<and> picked ! b \<and> nkey n a \<le> nkey n b \<longrightarrow> picked ! a)"

lemma picked_low_step:
  assumes inv: "node_inv N n" and low: "picked_low n picked i" and i: "i < unat (nxt n)"
  shows "\<exists>t. (\<forall>target. res_bind (first_unpicked picked 0 (unat (nxt n)) target) (min_unpicked n picked 0 (unat (nxt n))) = Inr t) \<and>
    t < unat (nxt n) \<and> picked_low n (picked[t := True]) (Suc i) \<and>
    (\<forall>j<unat (nxt n). picked[t := True] ! j \<longleftrightarrow> nkey n j \<le> nkey n t)"
proof -
  let ?m = "unat (nxt n)"
  let ?P = "{j. j < ?m \<and> picked ! j}"
  have m: "?m \<le> length picked" "?m \<le> length (pairs n)" and c: "card ?P = i"
    and dn: "\<And>a b. a < ?m \<Longrightarrow> b < ?m \<Longrightarrow> picked ! b \<Longrightarrow> nkey n a \<le> nkey n b \<Longrightarrow> picked ! a"
    using low node_inv_len [OF inv] unfolding picked_low_def by blast+
  have "?P \<noteq> {..<?m}"
  proof
    assume "?P = {..<?m}"
    with c i show False by simp
  qed
  then obtain u where u: "u < ?m" "\<not> picked ! u" by blast
  have ex: "\<exists>t'. first_unpicked picked 0 ?m target = Inr t' \<and> t' < ?m \<and> \<not> picked ! t'" for target
    using first_unpicked_ok [of 0 u ?m picked target] u m by simp
  have mn: "\<exists>t. min_unpicked n picked 0 ?m t' = Inr t \<and> t < ?m \<and> \<not> picked ! t \<and> (\<forall>j<?m. \<not> picked ! j \<longrightarrow> nkey n t \<le> nkey n j)"
    if "t' < ?m" "\<not> picked ! t'" for t'
    using min_unpicked_ok [of 0 ?m picked n t'] m that by auto
  obtain t where t: "t < ?m" "\<not> picked ! t" "\<And>j. j < ?m \<Longrightarrow> \<not> picked ! j \<Longrightarrow> nkey n t \<le> nkey n j"
    using mn [OF u] by blast
  have res: "res_bind (first_unpicked picked 0 ?m target) (min_unpicked n picked 0 ?m) = Inr t" for target
  proof -
    obtain t' where t': "first_unpicked picked 0 ?m target = Inr t'" "t' < ?m" "\<not> picked ! t'" using ex by blast
    obtain s where s: "min_unpicked n picked 0 ?m t' = Inr s" "s < ?m" "\<not> picked ! s"
      "\<forall>j<?m. \<not> picked ! j \<longrightarrow> nkey n s \<le> nkey n j" using mn [OF t'(2,3)] by blast
    have "nkey n s = nkey n t" using s t by (intro order.antisym) auto
    then have "s = t" by (rule nkey_inj [OF inv s(2) t(1)])
    with t'(1) s(1) show ?thesis by simp
  qed
  have e: "picked[t := True] ! j \<longleftrightarrow> nkey n j \<le> nkey n t" if j: "j < ?m" for j
  proof (cases "j = t")
    case True
    with t(1) m show ?thesis by simp
  next
    case False
    have "picked ! j \<longleftrightarrow> nkey n j \<le> nkey n t"
    proof
      assume "picked ! j"
      with dn [OF t(1) j] t(2) show "nkey n j \<le> nkey n t" by (metis linear)
    next
      assume le: "nkey n j \<le> nkey n t"
      show "picked ! j"
      proof (rule ccontr)
        assume "\<not> picked ! j"
        from t(3) [OF j this] le have "nkey n j = nkey n t" by simp
        with nkey_inj [OF inv j t(1)] False show False by simp
      qed
    qed
    with False show ?thesis by simp
  qed
  have "{j. j < ?m \<and> picked[t := True] ! j} = insert t ?P"
    using t(1) m by (auto simp: nth_list_update split: if_splits)
  moreover have "finite ?P" "t \<notin> ?P" using t(2) by auto
  ultimately have "card {j. j < ?m \<and> picked[t := True] ! j} = Suc i" using c by simp
  then have "picked_low n (picked[t := True]) (Suc i)"
    unfolding picked_low_def using m e by (auto intro: order_trans)
  with res t(1) e show ?thesis by blast
qed

lemma reorder_loop_ok:
  assumes inv: "node_inv N n"
  shows "picked_low n picked i \<Longrightarrow> i + k \<le> unat (nxt n) \<Longrightarrow> 0 < k \<Longrightarrow> i + k \<le> length rmap \<Longrightarrow>
    \<exists>rmap' picked' r. reorder_loop n i k target rmap picked = Inr (rmap', picked') \<and> length rmap' = length rmap \<and>
      length picked' = length picked \<and> rmap' ! (i + k - 1) = r \<and> r < unat (nxt n) \<and> picked_low n picked' (i + k) \<and>
      (\<forall>j<unat (nxt n). picked' ! j \<longleftrightarrow> nkey n j \<le> nkey n r)"
proof (induction k arbitrary: i target rmap picked)
  case (Suc k)
  have i: "i < unat (nxt n)" and il: "i < length rmap" using Suc.prems by simp_all
  obtain t where t: "\<forall>target. res_bind (first_unpicked picked 0 (unat (nxt n)) target) (min_unpicked n picked 0 (unat (nxt n))) = Inr t"
    "t < unat (nxt n)" "picked_low n (picked[t := True]) (Suc i)"
    "\<forall>j<unat (nxt n). picked[t := True] ! j \<longleftrightarrow> nkey n j \<le> nkey n t"
    using picked_low_step [OF inv Suc.prems(1) i] by blast
  have tl: "t < length picked" using t(2) Suc.prems(1) by (simp add: picked_low_def)
  obtain t0 where "first_unpicked picked 0 (unat (nxt n)) target = Inr t0" "min_unpicked n picked 0 (unat (nxt n)) t0 = Inr t"
    using t(1) [rule_format, of target] by (auto simp: res_bind_eq_Inr)
  then have s: "reorder_loop n i (Suc k) target rmap picked =
      reorder_loop n (Suc i) k t (rmap[i := t]) (picked[t := True])" using tl il by simp
  show ?case
  proof (cases k)
    case 0
    with s t il show ?thesis by simp
  next
    case (Suc k')
    have p: "Suc i + k \<le> unat (nxt n)" "0 < k" "Suc i + k \<le> length (rmap[i := t])"
      using Suc Suc.prems by simp_all
    show ?thesis unfolding s using Suc.IH [OF t(3) p, of t] by simp
  qed
qed simp

lemma construct_reorder_map_ok:
  assumes inv: "node_inv N n" and c: "left_cap < unat (nxt n)" "left_cap < L" "unat (nxt n) \<le> L"
  obtains rmap picked r where "construct_reorder_map n left_cap (replicate L 0) (replicate L False) = Inr (rmap, picked)"
    "length rmap = L" "length picked = L" "rmap ! left_cap = r" "r < unat (nxt n)"
    "\<And>j. j < unat (nxt n) \<Longrightarrow> picked ! j \<longleftrightarrow> nkey n j \<le> nkey n r"
    "card {j. j < unat (nxt n) \<and> picked ! j} = Suc left_cap"
proof -
  have e: "{j. j < unat (nxt n) \<and> replicate L False ! j} = {}" using c(3) by auto
  have "picked_low n (replicate L False) 0"
    unfolding picked_low_def e using c(3) by auto
  from reorder_loop_ok [OF inv this, of "left_cap + 1" "replicate L 0" 0] c(1,2) obtain rmap' picked' r where
    "reorder_loop n 0 (left_cap + 1) 0 (replicate L 0) (replicate L False) = Inr (rmap', picked')"
    "length rmap' = L" "length picked' = L" "rmap' ! left_cap = r" "r < unat (nxt n)" "picked_low n picked' (left_cap + 1)"
    "\<forall>j<unat (nxt n). picked' ! j \<longleftrightarrow> nkey n j \<le> nkey n r" by auto
  then show ?thesis by (intro that [of rmap' picked' r]) (auto simp: construct_reorder_map_def picked_low_def)
qed

subsection \<open>Copying records\<close>

text \<open>What the operations on a buffer leave alone.\<close>

definition same_meta :: "linked_node \<Rightarrow> linked_node \<Rightarrow> bool" where
  "same_meta a b \<longleftrightarrow> llink a = llink b \<and> rlink a = rlink b \<and> ntype a = ntype b \<and> crc a = crc b \<and>
     length (pairs a) = length (pairs b) \<and> length (fingerprints a) = length (fingerprints b)"

lemma same_meta_refl [simp]: "same_meta a a"
  by (simp add: same_meta_def)

lemma same_meta_trans: "same_meta a b \<Longrightarrow> same_meta b c \<Longrightarrow> same_meta a c"
  by (simp add: same_meta_def)

lemma node_inv_reset: "node_inv N n \<Longrightarrow> node_inv N (n\<lparr>nxt := 0\<rparr>)"
  by (simp add: node_inv_def)

lemma records_length: "node_inv N n \<Longrightarrow> length (records n) = unat (nxt n)"
  by (simp add: records_def node_inv_def)

lemma copy_record_ok:
  assumes src: "node_inv N src" "i < unat (nxt src)" and dst: "node_inv M dst" "unat (nxt dst) < M"
    and new: "nkey src i \<notin> fst ` set (records dst)"
  obtains dst' where "copy_record src i dst = Inr dst'" "node_inv M dst'" "records dst' = records dst @ [rec_at src i]"
    "unat (nxt dst') = Suc (unat (nxt dst))" "same_meta dst' dst"
proof -
  note s = node_inv_nth [OF src]
  let ?d = "unat (nxt dst)" and ?k = "nkey src i" and ?v = "kv_value (pairs src ! i)"
  have l: "length ?k = 16" "length ?v = 16" using s(3) by (simp_all add: nkey_def kv_ok_def)
  have b: "?d < length (fingerprints dst)" "?d < length (pairs dst)" "kv_ok (pairs dst ! ?d)"
    using dst by (auto simp: node_inv_def list_all_length)
  have "\<lparr>kv_key = ?k, kv_value = ?v\<rparr> = pairs src ! i" by (simp add: nkey_def)
  then have "append_record ?k ?v dst = copy_record src i dst"
    using s b l by (simp add: append_record_def copy_record_def Let_def kv_ok_def)
  moreover have "node_map dst ?k = None" using new by (simp add: node_map_def map_of_eq_None_iff)
  moreover obtain n' where "append_record ?k ?v dst = Inr n'" "node_inv M n'" "records n' = records dst @ [(?k, ?v)]"
    "unat (nxt n') = Suc (unat (nxt dst))" "llink n' = llink dst" "rlink n' = rlink dst" "ntype n' = ntype dst" "crc n' = crc dst"
    "length (pairs n') = length (pairs dst)" "length (fingerprints n') = length (fingerprints dst)"
    using append_record_ok [OF dst l calculation(2)] by blast
  ultimately show ?thesis by (intro that [of n']) (simp_all add: rec_at_def same_meta_def)
qed

lemma split_loop_ok:
  assumes tmp: "node_inv N tmp" and pl: "unat (nxt tmp) \<le> length picked"
  shows "i + k = unat (nxt tmp) \<Longrightarrow> node_inv M left \<Longrightarrow> node_inv M right \<Longrightarrow>
    records left = map (rec_at tmp) (filter (\<lambda>j. picked ! j) [0..<i]) \<Longrightarrow>
    records right = map (rec_at tmp) (filter (\<lambda>j. \<not> picked ! j) [0..<i]) \<Longrightarrow>
    length (filter (\<lambda>j. picked ! j) [0..<i + k]) \<le> M \<Longrightarrow>
    length (filter (\<lambda>j. \<not> picked ! j) [0..<i + k]) \<le> M \<Longrightarrow>
    \<exists>l r. split_loop tmp picked i k left right = Inr (l, r) \<and> node_inv M l \<and> node_inv M r \<and>
      records l = map (rec_at tmp) (filter (\<lambda>j. picked ! j) [0..<i + k]) \<and>
      records r = map (rec_at tmp) (filter (\<lambda>j. \<not> picked ! j) [0..<i + k]) \<and>
      same_meta l left \<and> same_meta r right"
proof (induction k arbitrary: i left right)
  case (Suc k)
  have i: "i < unat (nxt tmp)" using Suc.prems(1) by simp
  have new: "nkey tmp i \<notin> fst ` set (map (rec_at tmp) (filter P [0..<i]))" for P
  proof
    assume "nkey tmp i \<in> fst ` set (map (rec_at tmp) (filter P [0..<i]))"
    then obtain j where j: "j < i" "nkey tmp i = nkey tmp j" by (auto simp: rec_at_def)
    with i nkey_inj [OF tmp i _ j(2)] show False by simp
  qed
  have e: "Suc i + k = i + Suc k" "Suc i + k = unat (nxt tmp)" using Suc.prems(1) by simp_all
  have lt: "length (filter P [0..<i]) < length (filter P [0..<i + Suc k])" if "P i" for P
  proof -
    have "i \<in> set (filter P [i..<i + Suc k])" using that by (simp del: upt_Suc)
    then have "0 < length (filter P [i..<i + Suc k])" by (rule length_pos_if_in_set)
    then show ?thesis unfolding upt_add_eq_append [OF le0] filter_append length_append by linarith
  qed
  show ?case
  proof (cases "picked ! i")
    case True
    have "length (records left) < M" unfolding Suc.prems(4) length_map
      by (rule order_less_le_trans [OF lt Suc.prems(6)]) (rule True)
    with Suc.prems(2) have room: "unat (nxt left) < M" by (simp add: records_length)
    obtain l where l: "copy_record tmp i left = Inr l" "node_inv M l" "records l = records left @ [rec_at tmp i]"
      "unat (nxt l) = Suc (unat (nxt left))" "same_meta l left"
      using copy_record_ok [OF tmp i Suc.prems(2) room] new [of "\<lambda>j. picked ! j"] unfolding Suc.prems(4) by blast
    have r1: "records l = map (rec_at tmp) (filter (\<lambda>j. picked ! j) [0..<Suc i])" using l(3) Suc.prems(4) True by simp
    have r2: "records right = map (rec_at tmp) (filter (\<lambda>j. \<not> picked ! j) [0..<Suc i])" using Suc.prems(5) True by simp
    show ?thesis
      using Suc.IH [OF e(2) l(2) Suc.prems(3) r1 r2] Suc.prems(6,7) l(1,5) True pl i unfolding e(1)
      by (auto intro: same_meta_trans)
  next
    case False
    have "length (records right) < M" unfolding Suc.prems(5) length_map
      by (rule order_less_le_trans [OF lt Suc.prems(7)]) (rule False)
    with Suc.prems(3) have room: "unat (nxt right) < M" by (simp add: records_length)
    obtain r where r: "copy_record tmp i right = Inr r" "node_inv M r" "records r = records right @ [rec_at tmp i]"
      "unat (nxt r) = Suc (unat (nxt right))" "same_meta r right"
      using copy_record_ok [OF tmp i Suc.prems(3) room] new [of "\<lambda>j. \<not> picked ! j"] unfolding Suc.prems(5) by blast
    have r1: "records left = map (rec_at tmp) (filter (\<lambda>j. picked ! j) [0..<Suc i])" using Suc.prems(4) False by simp
    have r2: "records r = map (rec_at tmp) (filter (\<lambda>j. \<not> picked ! j) [0..<Suc i])" using r(3) Suc.prems(5) False by simp
    show ?thesis
      using Suc.IH [OF e(2) Suc.prems(2) r(2) r1 r2] Suc.prems(6,7) r(1,5) False pl i unfolding e(1)
      by (auto intro: same_meta_trans)
  qed
qed simp

text \<open>The split as a whole: the records with smaller keys than the anchor go left, the others right.\<close>

lemma split_buffer_ok:
  assumes tmp: "node_inv 21 tmp" and c: "0 < left_cap" "left_cap < unat (nxt tmp)" "left_cap \<le> 16" "unat (nxt tmp) \<le> left_cap + 16"
    and lr: "node_inv 16 (left\<lparr>nxt := 0\<rparr>)" "node_inv 16 (right\<lparr>nxt := 0\<rparr>)"
  obtains l r k where "split_buffer tmp left_cap left right = Inr (l, r, k)" "node_inv 16 l" "node_inv 16 r"
    "records l = filter (\<lambda>(x, _). x < k) (records tmp)" "records r = filter (\<lambda>(x, _). k \<le> x) (records tmp)"
    "unat (nxt l) = left_cap" "k \<in> fst ` set (records r)" "length k = 16" "same_meta l left" "same_meta r right"
    "unat (nxt l) + unat (nxt r) = unat (nxt tmp)"
proof -
  let ?m = "unat (nxt tmp)"
  have m: "?m \<le> 21" using tmp by (simp add: node_inv_def)
  obtain rmap picked q where q: "construct_reorder_map tmp left_cap (replicate 32 0) (replicate 32 False) = Inr (rmap, picked)"
    "length rmap = 32" "length picked = 32" "rmap ! left_cap = q" "q < ?m"
    "\<And>j. j < ?m \<Longrightarrow> picked ! j \<longleftrightarrow> nkey tmp j \<le> nkey tmp q" "card {j. j < ?m \<and> picked ! j} = Suc left_cap"
    using construct_reorder_map_ok [OF tmp c(2), of 32] c(3) m by auto
  define k where "k = nkey tmp q"
  define pk where "pk = picked[q := False]"
  have pk: "pk ! j \<longleftrightarrow> nkey tmp j < k" if "j < ?m" for j
  proof (cases "j = q")
    case True
    with q(3,5) m show ?thesis by (simp add: pk_def k_def)
  next
    case False
    with nkey_inj [OF tmp that q(5)] have "nkey tmp j \<noteq> k" by (auto simp: k_def)
    with False q(6) [OF that] show ?thesis by (simp add: pk_def k_def order_less_le)
  qed
  have "{j. j < ?m \<and> pk ! j} = {j. j < ?m \<and> picked ! j} - {q}"
    using q(3,5) m by (auto simp: pk_def nth_list_update split: if_splits)
  moreover have "q \<in> {j. j < ?m \<and> picked ! j}" using q(5,6) by simp
  ultimately have c1: "card {j. j < ?m \<and> pk ! j} = left_cap" using q(7) by simp
  have cf: "length (filter P [0..<?m]) = card {j. j < ?m \<and> P j}" for P
  proof -
    have "distinct (filter P [0..<?m])" "set (filter P [0..<?m]) = {j. j < ?m \<and> P j}" by auto
    then show ?thesis by (metis distinct_card)
  qed
  have l1: "length (filter (\<lambda>j. pk ! j) [0..<?m]) = left_cap" unfolding cf by (rule c1)
  have "length (filter (\<lambda>j. pk ! j) [0..<?m]) + length (filter (\<lambda>j. \<not> pk ! j) [0..<?m]) = ?m"
    using sum_length_filter_compl [of "\<lambda>j. pk ! j" "[0..<?m]"] by simp
  then have l2: "length (filter (\<lambda>j. \<not> pk ! j) [0..<?m]) = ?m - left_cap" using l1 by linarith
  have pl: "?m \<le> length pk" using q(3) m by (simp add: pk_def)
  have e: "records (left\<lparr>nxt := 0\<rparr>) = map (rec_at tmp) (filter (\<lambda>j. pk ! j) [0..<0])"
    "records (right\<lparr>nxt := 0\<rparr>) = map (rec_at tmp) (filter (\<lambda>j. \<not> pk ! j) [0..<0])"
    by (simp_all add: records_def)
  have b: "length (filter (\<lambda>j. pk ! j) [0..<0 + ?m]) \<le> 16" "length (filter (\<lambda>j. \<not> pk ! j) [0..<0 + ?m]) \<le> 16"
    using l1 l2 c by simp_all
  obtain l r where lr': "split_loop tmp pk 0 ?m (left\<lparr>nxt := 0\<rparr>) (right\<lparr>nxt := 0\<rparr>) = Inr (l, r)" "node_inv 16 l" "node_inv 16 r"
    "records l = map (rec_at tmp) (filter (\<lambda>j. pk ! j) [0..<?m])" "records r = map (rec_at tmp) (filter (\<lambda>j. \<not> pk ! j) [0..<?m])"
    "same_meta l (left\<lparr>nxt := 0\<rparr>)" "same_meta r (right\<lparr>nxt := 0\<rparr>)"
    using split_loop_ok [OF tmp pl _ lr e b] by auto
  have rt: "records tmp = map (rec_at tmp) [0..<?m]" by (rule records_rec_at [OF node_inv_len [OF tmp]])
  have rl: "records l = filter (\<lambda>(x, _). x < k) (records tmp)"
    unfolding lr'(4) rt filter_map by (rule arg_cong [where f = "map (rec_at tmp)"], rule filter_cong)
      (use pk in \<open>auto simp: rec_at_def\<close>)
  have rr: "records r = filter (\<lambda>(x, _). k \<le> x) (records tmp)"
    unfolding lr'(5) rt filter_map by (rule arg_cong [where f = "map (rec_at tmp)"], rule filter_cong)
      (use pk in \<open>auto simp: rec_at_def\<close>)
  have "rec_at tmp q \<in> set (records tmp)" unfolding rt using q(5) by simp
  then have kr: "k \<in> fst ` set (records r)" unfolding rr by (force simp: rec_at_def k_def)
  have "length (records l) = left_cap" unfolding lr'(4) using l1 by simp
  then have nl: "unat (nxt l) = left_cap" using records_length [OF lr'(2)] by simp
  have "length (records r) = ?m - left_cap" unfolding lr'(5) using l2 by simp
  then have nr: "unat (nxt l) + unat (nxt r) = ?m" using nl records_length [OF lr'(3)] c(2) by simp
  have "q < length (pairs tmp)" using q(5) node_inv_len [OF tmp] by simp
  then have "split_buffer tmp left_cap left right = Inr (l, r, k)"
    using q lr'(1) c(3) m by (simp add: split_buffer_def pk_def k_def nkey_def)
  with lr' rl rr nl nr kr node_inv_nth(5) [OF tmp q(5)] show ?thesis
    by (intro that [of l r k]) (simp_all add: k_def same_meta_def)
qed

subsection \<open>Helping\<close>

text \<open>The capacity of a type's node.\<close>

definition cap :: "u32 \<Rightarrow> nat option" where
  "cap t = (case enumerator t of Some Type16 \<Rightarrow> Some 16 | Some Type14 \<Rightarrow> Some 14
     | Some Type12 \<Rightarrow> Some 12 | Some Type10 \<Rightarrow> Some 10 | _ \<Rightarrow> None)"

definition typed_inv :: "linked_node \<Rightarrow> bool" where
  "typed_inv b \<longleftrightarrow> (case cap (ntype b) of None \<Rightarrow> True | Some N \<Rightarrow> node_inv N b)"

definition holds_key :: "linked_node \<Rightarrow> bytes \<Rightarrow> bool" where
  "holds_key b k \<longleftrightarrow> cap (ntype b) \<noteq> None \<and> node_map b k \<noteq> None"

lemma help_pred_eq:
  "help_pred b k v = (case cap (ntype b) of None \<Rightarrow> Inr (False, b) | Some N \<Rightarrow> store_kv N k v b)"
  by (auto simp: help_pred_def cap_def split: option.splits node_type.splits)

lemma store_kv_cases:
  assumes "node_inv N b" "wide k" "wide v"
  obtains b' where "store_kv N k v b = Inr (room N b \<noteq> 0, b')" "node_inv N b'" "same_meta b' b"
    "node_map b' = (if room N b = 0 then node_map b else [k \<mapsto> v] ++ node_map b)"
proof -
  consider "room N b = 0" | "room N b \<noteq> 0" "node_map b k \<noteq> None" | "room N b \<noteq> 0" "node_map b k = None" by blast
  then show ?thesis
  proof cases
    case 1
    with assms(1) show ?thesis by (intro that [of b]) (simp_all add: store_kv_full)
  next
    case 2
    then have "[k \<mapsto> v] ++ node_map b = node_map b" by (auto simp: fun_eq_iff map_add_def split: option.splits)
    with 2 assms(1) store_kv_present [OF assms(1,2)] show ?thesis by (intro that [of b]) simp_all
  next
    case 3
    obtain b' where b': "store_kv N k v b = Inr (True, b')" "node_inv N b'" "records b' = records b @ [(k, v)]"
      "room N b' = room N b - 1" "llink b' = llink b" "rlink b' = rlink b" "ntype b' = ntype b" "crc b' = crc b"
      "length (pairs b') = length (pairs b)" "length (fingerprints b') = length (fingerprints b)"
      by (rule store_kv_absent [OF assms 3])
    have "node_map b' = [k \<mapsto> v] ++ node_map b"
      unfolding node_map_append [OF b'(3) 3(2)] using 3(2) by (auto simp: fun_eq_iff map_add_def split: option.splits)
    with b' 3 show ?thesis by (intro that [of b']) (simp_all add: same_meta_def)
  qed
qed

lemma help_pred_ok:
  assumes "typed_inv b" "wide k" "wide v"
  obtains s b' where "help_pred b k v = Inr (s, b')" "typed_inv b'" "same_meta b' b" "s \<Longrightarrow> holds_key b' k"
    "\<And>x. holds_key b x \<Longrightarrow> holds_key b' x"
proof (cases "cap (ntype b)")
  case None
  with assms(1) show ?thesis by (intro that [of False b]) (simp_all add: help_pred_eq)
next
  case (Some N)
  with assms(1) have "node_inv N b" by (simp add: typed_inv_def)
  then obtain b' where b': "store_kv N k v b = Inr (room N b \<noteq> 0, b')" "node_inv N b'" "same_meta b' b"
    "node_map b' = (if room N b = 0 then node_map b else [k \<mapsto> v] ++ node_map b)"
    by (rule store_kv_cases [OF _ assms(2,3)])
  have t: "ntype b' = ntype b" using b'(3) by (simp add: same_meta_def)
  show ?thesis
  proof (rule that [of "room N b \<noteq> 0" b'])
    show "help_pred b k v = Inr (room N b \<noteq> 0, b')" using Some b'(1) by (simp add: help_pred_eq)
    show "typed_inv b'" using Some b'(2) t by (simp add: typed_inv_def)
    show "room N b \<noteq> 0 \<Longrightarrow> holds_key b' k"
      using Some t b'(4) by (auto simp: holds_key_def map_add_def split: option.splits)
    show "holds_key b x \<Longrightarrow> holds_key b' x" for x
      using t b'(4) by (auto simp: holds_key_def map_add_def split: option.splits)
  qed (rule b'(3))
qed

definition body :: "request \<Rightarrow> bytes \<times> bytes" where
  "body r = (tag r, content r)"

definition wide_request :: "request \<Rightarrow> bool" where
  "wide_request r \<longleftrightarrow> wide (tag r) \<and> wide (content r)"

text \<open>What is true of the queue and the answers after helping.\<close>

definition answered :: "bytes \<Rightarrow> linked_node \<Rightarrow> linked_node \<Rightarrow> request \<Rightarrow> bool" where
  "answered anch pred rb r \<longleftrightarrow> is_done r \<and> retry r = (\<not> succeed r) \<and>
     (succeed r \<longrightarrow> (if tag r < anch then holds_key pred (tag r) else node_map rb (tag r) \<noteq> None))"

lemma answered_mono:
  "answered anch pred rb r \<Longrightarrow> (\<And>x. holds_key pred x \<Longrightarrow> holds_key pred' x) \<Longrightarrow>
    (\<And>x. node_map rb x \<noteq> None \<Longrightarrow> node_map rb' x \<noteq> None) \<Longrightarrow> answered anch pred' rb' r"
  unfolding answered_def by (meson)

lemma help_others_ok:
  "typed_inv pred \<Longrightarrow> node_inv N rb \<Longrightarrow> list_all wide_request q \<Longrightarrow> list_all (answered anch pred rb) ans \<Longrightarrow>
   \<exists>pred' rb' ans' q'. help_others N anch pred rb q ans = Inr (pred', rb', ans @ ans', q') \<and>
     typed_inv pred' \<and> node_inv N rb' \<and> same_meta pred' pred \<and> same_meta rb' rb \<and>
     list_all (answered anch pred' rb') (ans @ ans') \<and>
     mset (map body ans') + mset (map body q') = mset (map body q) \<and> (q' = [] \<or> room N rb' = 0) \<and>
     node_map rb' = map_of (filter (\<lambda>(k, _). \<not> k < anch) (map body ans')) ++ node_map rb"
proof (induction q arbitrary: pred rb ans)
  case Nil
  then show ?case by - (rule exI [of _ pred], rule exI [of _ rb], rule exI [of _ "[]"], rule exI [of _ "[]"], simp)
next
  case (Cons r q)
  have w0: "wide_request r" and w3: "list_all wide_request q" using Cons.prems(3) by simp_all
  then have w: "wide (tag r)" "wide (content r)" "list_all wide_request q" by (simp_all only: wide_request_def)
  show ?case
  proof (cases "tag r < anch")
    case True
    obtain s p where p: "help_pred pred (tag r) (content r) = Inr (s, p)" "typed_inv p" "same_meta p pred"
      "s \<Longrightarrow> holds_key p (tag r)" "\<And>x. holds_key pred x \<Longrightarrow> holds_key p x"
      by (rule help_pred_ok [OF Cons.prems(1) w(1,2)]) blast
    let ?r = "r\<lparr>succeed := s, retry := \<not> s, is_done := True\<rparr>"
    have a: "list_all (answered anch p rb) (ans @ [?r])"
      using Cons.prems(4) p(4,5) True by (auto simp: answered_def list_all_iff)
    have s: "help_others N anch pred rb (r # q) ans = help_others N anch p rb q (ans @ [?r])"
      using True p(1) by simp
    from Cons.IH [OF p(2) Cons.prems(2) w(3) a] obtain pred' rb' ans' q' where h:
      "help_others N anch p rb q (ans @ [?r]) = Inr (pred', rb', (ans @ [?r]) @ ans', q')" "typed_inv pred'" "node_inv N rb'"
      "same_meta pred' p" "same_meta rb' rb" "list_all (answered anch pred' rb') ((ans @ [?r]) @ ans')"
      "mset (map body ans') + mset (map body q') = mset (map body q)" "q' = [] \<or> room N rb' = 0"
      "node_map rb' = map_of (filter (\<lambda>(k, _). \<not> k < anch) (map body ans')) ++ node_map rb" by blast
    have b: "body ?r = body r" "body r = (tag r, content r)" by (simp_all add: body_def)
    show ?thesis unfolding s
      using h same_meta_trans [OF h(4) p(3)] True b
      by - (rule exI [of _ pred'], rule exI [of _ rb'], rule exI [of _ "?r # ans'"], rule exI [of _ q'], simp add: b)
  next
    case False
    obtain b where b: "store_kv N (tag r) (content r) rb = Inr (room N rb \<noteq> 0, b)" "node_inv N b" "same_meta b rb"
      "node_map b = (if room N rb = 0 then node_map rb else [tag r \<mapsto> content r] ++ node_map rb)"
      by (rule store_kv_cases [OF Cons.prems(2) w(1,2)])
    show ?thesis
    proof (cases "room N rb = 0")
      case full: True
      then have "b = rb" using b(1) by (simp add: store_kv_full)
      then have "help_others N anch pred rb (r # q) ans = Inr (pred, rb, ans @ [], q @ [r])"
        using False b(1) full by simp
      with full Cons.prems show ?thesis
        by - (rule exI [of _ pred], rule exI [of _ rb], rule exI [of _ "[]"], rule exI [of _ "q @ [r]"], simp)
    next
      case nfull: False
      let ?r = "r\<lparr>succeed := True, retry := False, is_done := True\<rparr>"
      have bm: "node_map b = [tag r \<mapsto> content r] ++ node_map rb" using b(4) nfull by simp
      have mono: "node_map b x \<noteq> None" if "node_map rb x \<noteq> None \<or> x = tag r" for x
        unfolding bm using that by (cases "node_map rb x") (simp_all add: map_add_def)
      have a: "list_all (answered anch pred b) (ans @ [?r])"
        using Cons.prems(4) False mono
        by (auto simp: list_all_iff elim!: answered_mono) (simp add: answered_def mono)
      have s: "help_others N anch pred rb (r # q) ans = help_others N anch pred b q (ans @ [?r])"
        using False b(1) nfull by simp
      from Cons.IH [OF Cons.prems(1) b(2) w(3) a] obtain pred' rb' ans' q' where h:
        "help_others N anch pred b q (ans @ [?r]) = Inr (pred', rb', (ans @ [?r]) @ ans', q')" "typed_inv pred'" "node_inv N rb'"
        "same_meta pred' pred" "same_meta rb' b" "list_all (answered anch pred' rb') ((ans @ [?r]) @ ans')"
        "mset (map body ans') + mset (map body q') = mset (map body q)" "q' = [] \<or> room N rb' = 0"
        "node_map rb' = map_of (filter (\<lambda>(k, _). \<not> k < anch) (map body ans')) ++ node_map b" by blast
      have m: "node_map rb' = map_of (filter (\<lambda>(k, _). \<not> k < anch) (map body (?r # ans'))) ++ node_map rb"
        unfolding h(9) bm using False by (auto simp: body_def fun_eq_iff map_add_def split: option.splits)
      have bd: "body ?r = body r" "body r = (tag r, content r)" by (simp_all add: body_def)
      show ?thesis unfolding s
        using h(1-8) m same_meta_trans [OF h(5) b(3)]
        by - (rule exI [of _ pred'], rule exI [of _ rb'], rule exI [of _ "?r # ans'"], rule exI [of _ q'], simp add: bd)
    qed
  qed
qed

end
