(* ===== verification/SplitProps.thy ===== *)
theory SplitProps
  imports SplitProofs
begin

text \<open>
  The properties of helping, choosing a type and splitting, over the lemmas of \<open>SplitProofs\<close>.
\<close>

subsection \<open>Example nodes\<close>

text \<open>A node holding records with the given one-byte patterns as keys.\<close>

definition demo_node :: "byte_t list \<Rightarrow> u32 \<Rightarrow> linked_node" where
  "demo_node xs t =
     \<lparr>llink = 0, rlink = 0, crc = 0, ntype = t, nxt = of_nat (length xs),
      fingerprints = map (\<lambda>x. fp (b16 x)) xs @ replicate (16 - length xs) 0,
      pairs = map (\<lambda>x. \<lparr>kv_key = b16 x, kv_value = b16 9\<rparr>) xs @ replicate (16 - length xs) kv_zero\<rparr>"

lemma demo_simps:
  assumes "length xs \<le> 16"
  shows "unat (nxt (demo_node xs t)) = length xs" "length (fingerprints (demo_node xs t)) = 16"
    "length (pairs (demo_node xs t)) = 16" "ntype (demo_node xs t) = t"
    "records (demo_node xs t) = map (\<lambda>x. (b16 x, b16 9)) xs"
    "list_all (\<lambda>f. f = 0) (drop (length xs) (fingerprints (demo_node xs t)))"
  using assms by (simp_all add: demo_node_def unat_of_nat records_def list_all_iff)

lemma demo_kv_ok: "list_all kv_ok (pairs (demo_node xs t))"
  using kv_ok_zero by (auto simp: demo_node_def list_all_iff kv_ok_def)

lemma zeros_ok: "list_all kv_ok (replicate m kv_zero)"
  using kv_ok_zero by (simp add: list_all_iff)

lemma demo_node_inv:
  assumes "length xs \<le> N" "N \<le> 16" "distinct xs"
  shows "node_inv N (demo_node xs t)"
proof -
  have m: "length xs \<le> 16" using assms by simp
  note d = demo_simps [OF m, of t]
  have "map kv_key (take (length xs) (pairs (demo_node xs t))) = map b16 xs"
    by (simp add: demo_node_def)
  moreover have "distinct (map b16 xs)" using assms(3) by (simp add: distinct_map inj_on_def)
  moreover have "fingerprints (demo_node xs t) ! i = fp (nkey (demo_node xs t) i)" if "i < length xs" for i
    using that by (simp add: demo_node_def nkey_def nth_append)
  ultimately show ?thesis
    using assms demo_kv_ok unfolding node_inv_def d by simp
qed

lemma demo_shape: "length xs \<le> 16 \<Longrightarrow> node_shape (demo_node xs t)"
  by (simp add: node_shape_def demo_simps demo_kv_ok)

text \<open>The fingerprints of some keys of that kind; that of the last is zero.\<close>

lemma fp_b16:
  "fp (b16 x) = (let a = of_nat (le_val [x, x, x, x, x, x, x, x]) in ucast (HashLen16 a (RotateByAtLeast1 (a + 16) 16) XOR a))"
proof -
  have r: "replicate 8 x = [x, x, x, x, x, x, x, x]" by (simp add: numeral_eq_Suc)
  have f: "Fetch64 (b16 x) 0 = Inr (of_nat (le_val [x, x, x, x, x, x, x, x]))"
    "Fetch64 (b16 x) 8 = Inr (of_nat (le_val [x, x, x, x, x, x, x, x]))"
    by (simp_all add: Fetch64_def UNALIGNED_LOAD64_def b16_def r del: le_val.simps)
  then have "CityHash64 (b16 x) (length (b16 x)) =
      (let a = of_nat (le_val [x, x, x, x, x, x, x, x]) in Inr (HashLen16 a (RotateByAtLeast1 (a + 16) 16) XOR a))"
    by (simp add: CityHash64_def HashLen0to16_def Let_def del: CityHash64_eq le_val.simps)
  then show ?thesis by (simp add: fp_def city64_def Let_def del: le_val.simps CityHash64_eq)
qed

lemma fp_examples:
  "fp (b16 0) \<noteq> 0" "fp (b16 1) \<noteq> 0" "fp (b16 2) \<noteq> 0" "fp (b16 3) \<noteq> 0" "fp (b16 4) \<noteq> 0"
  "fp (b16 5) \<noteq> 0" "fp (b16 6) \<noteq> 0" "fp (b16 7) \<noteq> 0" "fp (b16 8) \<noteq> 0" "fp (b16 9) \<noteq> 0"
  "fp (b16 176) = 0"
  by (simp_all add: fp_b16 HashLen16_def Hash128to64_def RotateByAtLeast1_def Let_def)

lemma b16_less: "b16 x < b16 y \<longleftrightarrow> x < y"
proof -
  have "b16 z = z # replicate 15 z" for z by (simp add: b16_def numeral_eq_Suc)
  then show ?thesis by (auto simp: Cons_less_Cons)
qed

subsection \<open>Choosing a type\<close>

lemma count_upto:
  assumes "m \<le> M"
  shows "length (filter P [0..<M]) = length (filter P [0..<m]) + length (filter P [m..<M])"
  using upt_add_eq_append [OF le0, of m "M - m"] assms by simp

lemma cap_type_num:
  "cap (type_num Type10) = Some 10" "cap (type_num Type12) = Some 12"
  "cap (type_num Type14) = Some 14" "cap (type_num Type16) = Some 16"
  unfolding cap_def enumerator_type_num by simp_all

lemma fingerprint_count:
  assumes inv: "node_inv 16 n" and l: "length (fingerprints n) = 16"
  shows "length (filter (\<lambda>f. f \<noteq> 0) (fingerprints n)) =
    length (filter (\<lambda>(k, _). fp k \<noteq> 0) (records n)) +
    length (filter (\<lambda>i. fingerprints n ! i \<noteq> 0) [unat (nxt n)..<16])"
proof -
  let ?m = "unat (nxt n)"
  have m: "?m \<le> 16" using inv by (simp add: node_inv_def)
  have "fingerprints n = map (\<lambda>i. fingerprints n ! i) [0..<16]"
    unfolding l [symmetric] by (rule map_nth [symmetric])
  then have "length (filter (\<lambda>f. f \<noteq> 0) (fingerprints n)) = length (filter (\<lambda>i. fingerprints n ! i \<noteq> 0) [0..<16])"
    by (metis (no_types, lifting) comp_apply filter_cong filter_map length_map)
  also have "\<dots> = length (filter (\<lambda>i. fingerprints n ! i \<noteq> 0) [0..<?m]) + length (filter (\<lambda>i. fingerprints n ! i \<noteq> 0) [?m..<16])"
    by (rule count_upto [OF m])
  also have "filter (\<lambda>i. fingerprints n ! i \<noteq> 0) [0..<?m] = filter (\<lambda>i. fp (nkey n i) \<noteq> 0) [0..<?m]"
    by (rule filter_cong) (use inv in \<open>simp_all add: node_inv_def\<close>)
  also have "length \<dots> = length (filter (\<lambda>(k, _). fp k \<noteq> 0) (records n))"
    unfolding records_rec_at [OF node_inv_len [OF inv]] by (simp add: filter_map rec_at_def comp_def)
  finally show ?thesis .
qed

text \<open>C32: where no key has fingerprint zero, \<open>morph_node\<close> chooses a type with a slot for
  every record.\<close>

theorem morph_node_fits:
  assumes "node_inv 16 n" "length (fingerprints n) = 16" "list_all (\<lambda>(k, _). fp k \<noteq> 0) (records n)"
  shows "\<exists>t N. morph_node n = Inr t \<and> cap t = Some N \<and> length (records n) \<le> N"
proof -
  let ?c = "length (filter (\<lambda>f. f \<noteq> 0) (fingerprints n))"
  have "filter (\<lambda>(k, _). fp k \<noteq> 0) (records n) = records n"
    using assms(3) by (simp add: list_all_iff)
  with fingerprint_count [OF assms(1,2)] have "length (records n) \<le> ?c" by simp
  moreover have "?c \<le> 16" using length_filter_le [of "\<lambda>f. f \<noteq> 0" "fingerprints n"] assms(2) by simp
  ultimately show ?thesis
    using assms(2) by (auto simp: morph_node_def Let_def cap_type_num simp del: type_num.simps)
qed

lemma morph_node_fits_witness: "\<exists>t N. morph_node (demo_node [0] 16) = Inr t \<and> cap t = Some N"
  using morph_node_fits [OF demo_node_inv, of "[0]" 16] by (auto simp: demo_simps fp_examples)

text \<open>A record whose key has fingerprint zero is not counted: with 11, 13 or 15 records,
  one of them of that kind, \<open>morph_node\<close> chooses a type with fewer slots than records, and
  the last record is not written.\<close>

theorem morph_node_drops_record:
  assumes "node_inv 16 n" "length (fingerprints n) = 16" "list_all (\<lambda>f. f = 0) (drop (unat (nxt n)) (fingerprints n))"
    "length (records n) \<in> {11, 13, 15}" "length (filter (\<lambda>(k, _). fp k \<noteq> 0) (records n)) = length (records n) - 1"
  shows "\<exists>t N. morph_node n = Inr t \<and> cap t = Some N \<and> N < length (records n)"
proof -
  have "length (filter (\<lambda>i. fingerprints n ! i \<noteq> 0) [unat (nxt n)..<16]) = 0"
    using assms(2,3) by (auto simp: list_all_length filter_empty_conv) (metis add_diff_inverse_nat diff_less_mono not_le)
  with fingerprint_count [OF assms(1,2)] assms(5) have
    "length (filter (\<lambda>f. f \<noteq> 0) (fingerprints n)) = length (records n) - 1" by simp
  then show ?thesis
    using assms(2,4) by (auto simp: morph_node_def Let_def cap_type_num simp del: type_num.simps)
qed

lemma morph_node_drops_record_witness:
  "\<exists>t N. morph_node (demo_node [0, 1, 2, 3, 4, 5, 6, 7, 8, 9, 176] 16) = Inr t \<and> cap t = Some N \<and>
     N < length (records (demo_node [0, 1, 2, 3, 4, 5, 6, 7, 8, 9, 176] 16))"
  by (rule morph_node_drops_record [OF demo_node_inv])
    (use demo_simps [of "[0, 1, 2, 3, 4, 5, 6, 7, 8, 9, 176]" 16] in \<open>simp_all add: fp_examples\<close>)

subsection \<open>Answering requests\<close>

text \<open>A winner answers every request of its queue or leaves it there, no request is lost or
  invented; a request answered as successful has its key in the predecessor's buffer, if it
  is below the anchor, or else in the node's; the others are told to retry; requests are
  left over only when the node is full.\<close>

theorem help_others_answers:
  assumes "typed_inv pred" "node_inv N rb" "list_all wide_request q"
  shows "\<exists>pred' rb' ans q'. help_others N anch pred rb q [] = Inr (pred', rb', ans, q') \<and>
    typed_inv pred' \<and> node_inv N rb' \<and> list_all (answered anch pred' rb') ans \<and>
    mset (map body ans) + mset (map body q') = mset (map body q) \<and> (q' = [] \<or> room N rb' = 0)"
proof -
  have "list_all (answered anch pred rb) []" by simp
  from help_others_ok [OF assms this] show ?thesis by force
qed

lemma help_others_answers_witness:
  "\<exists>pred' rb' ans q'. help_others 10 (b16 1) (demo_node [0] 10) (demo_node [1] 10)
      [new_request 0 (b16 0) (b16 9), new_request 1 (b16 2) (b16 9)] [] = Inr (pred', rb', ans, q') \<and>
    mset (map body ans) + mset (map body q') = {#(b16 0, b16 9), (b16 2, b16 9)#}"
  using help_others_answers [OF _ demo_node_inv, of "demo_node [0] 10" "[1]" 10
      "[new_request 0 (b16 0) (b16 9), new_request 1 (b16 2) (b16 9)]" "b16 1" 10] demo_node_inv [of "[0]" 10 10]
  by (auto simp: typed_inv_def demo_simps cap_type_num(1) [simplified] wide_request_def new_request_def body_def)

subsection \<open>Splitting\<close>

lemma map_of_filter: "map_of (filter (\<lambda>(x, _). P x) xs) = map_of xs |` {x. P x}"
  by (induction xs) (auto simp: fun_eq_iff restrict_map_def)

lemma buffer_node_inv:
  assumes "node_inv N source" "N \<le> 16" "node_shape source" "length junk = 5" "list_all kv_ok junk"
  shows "node_inv 21 (buffer_node source junk)" "node_map (buffer_node source junk) = node_map source"
    "nxt (buffer_node source junk) = nxt source"
proof -
  have m: "unat (nxt source) \<le> 16" using assms(1,2) by (simp add: node_inv_def)
  have l: "length (pairs source) = 16" "length (fingerprints source) = 16" "list_all kv_ok (pairs source)"
    using assms(3) by (simp_all add: node_shape_def)
  have k: "nkey (buffer_node source junk) i = nkey source i" "fingerprints (buffer_node source junk) ! i = fingerprints source ! i"
    if "i < unat (nxt source)" for i
    using that m l by (simp_all add: nkey_def buffer_node_def nth_append)
  have t: "take (unat (nxt source)) (pairs (buffer_node source junk)) = take (unat (nxt source)) (pairs source)"
    using m l by (simp add: buffer_node_def)
  show n: "nxt (buffer_node source junk) = nxt source" by (simp add: buffer_node_def)
  show "node_map (buffer_node source junk) = node_map source"
    unfolding node_map_def records_def n t by (rule refl)
  show "node_inv 21 (buffer_node source junk)"
    unfolding node_inv_def n t using assms k l m
    by (auto simp: node_inv_def buffer_node_def list_all_append)
qed

lemma node_dom_card: "node_inv N n \<Longrightarrow> card (dom (node_map n)) = unat (nxt n)"
proof -
  assume inv: "node_inv N n"
  then have "distinct (map fst (records n))" by (simp add: node_inv_def records_def comp_def)
  then have "card (set (map fst (records n))) = length (records n)" by (metis distinct_card length_map)
  then show ?thesis using records_length [OF inv] by (simp add: fst_records)
qed

lemma nxt_mono:
  assumes "node_inv N n" "node_inv M n'" "node_map n' = m ++ node_map n"
  shows "unat (nxt n) \<le> unat (nxt n')"
proof -
  have "finite (dom (node_map n'))" by (simp add: node_map_def finite_dom_map_of)
  then have "card (dom (node_map n)) \<le> card (dom (node_map n'))"
    by (rule card_mono) (simp add: assms(3))
  then show ?thesis by (simp add: node_dom_card [OF assms(1)] node_dom_card [OF assms(2)])
qed

lemma node_inv_empty: "node_shape n \<Longrightarrow> node_inv 16 (n\<lparr>nxt := 0\<rparr>)"
  by (simp add: node_inv_def node_shape_def)

lemma out_of_place_split_ok:
  assumes "node_inv N source" "N \<le> 16" "node_shape source" "node_shape right"
    and "length junk = 5" "list_all kv_ok junk" "typed_inv pred" "list_all wide_request q" "wide key" "wide val"
    and "5 \<le> left_cap" "left_cap < unat (nxt source)"
  obtains pred' l r k ans q' t1 t where
    "out_of_place_split_node anch pred source right junk q left_cap key val stored = Inr (pred', l, r, k, ans, q')"
    "help_others 21 anch pred t1 q [] = Inr (pred', t, ans, q')" "node_inv 16 l" "node_inv 16 r" "same_meta l source" "same_meta r right"
    "typed_inv pred'" "same_meta pred' pred" "mset (map body ans) + mset (map body q') = mset (map body q)"
    "list_all (answered anch pred' t) ans" "q' = [] \<or> room 21 t = 0" "node_inv 21 t"
    "node_map t = map_of (filter (\<lambda>(x, _). \<not> x < anch) (map body ans)) ++ (if stored then Map.empty else [key \<mapsto> val]) ++ node_map source"
    "node_map l = node_map t |` {x. x < k}" "node_map r = node_map t |` {x. k \<le> x}"
    "unat (nxt l) = left_cap" "unat (nxt l) + unat (nxt r) = unat (nxt t)" "k \<in> dom (node_map r)" "length k = 16"
proof -
  let ?b = "buffer_node source junk"
  note b = buffer_node_inv [OF assms(1-3,5,6)]
  have r0: "room 21 ?b \<noteq> 0" using assms(1,2) unfolding room_def b(3) by (simp add: node_inv_def)
  obtain t1 where t1: "(if \<not> stored then store_kv 21 key val ?b else Inr (True, ?b)) = Inr (True, t1)" "node_inv 21 t1"
    "node_map t1 = (if stored then Map.empty else [key \<mapsto> val]) ++ node_map source" "unat (nxt source) \<le> unat (nxt t1)"
  proof (cases stored)
    case True
    with b that [of ?b] show ?thesis by simp
  next
    case False
    obtain t1 where t1: "store_kv 21 key val ?b = Inr (room 21 ?b \<noteq> 0, t1)" "node_inv 21 t1"
      "node_map t1 = (if room 21 ?b = 0 then node_map ?b else [key \<mapsto> val] ++ node_map ?b)"
      by (rule store_kv_cases [OF b(1) assms(9,10)])
    have m: "node_map t1 = [key \<mapsto> val] ++ node_map source" using t1(3) r0 b(2) by simp
    show ?thesis
      using False t1(1,2) r0 m nxt_mono [OF assms(1) t1(2) m] by (intro that [of t1]) simp_all
  qed
  have "list_all (answered anch pred t1) []" by simp
  from help_others_ok [OF assms(7) t1(2) assms(8) this] obtain pred' t2 ans q' where
    h: "help_others 21 anch pred t1 q [] = Inr (pred', t2, ans, q')" "node_inv 21 t2"
      "mset (map body ans) + mset (map body q') = mset (map body q)"
      "node_map t2 = map_of (filter (\<lambda>(k, _). \<not> k < anch) (map body ans)) ++ node_map t1"
      "typed_inv pred'" "same_meta pred' pred" "list_all (answered anch pred' t2) ans" "q' = [] \<or> room 21 t2 = 0" by auto
  have all: "node_map t2 = map_of (filter (\<lambda>(x, _). \<not> x < anch) (map body ans)) ++
      (if stored then Map.empty else [key \<mapsto> val]) ++ node_map source"
    unfolding h(4) t1(3) by simp
  have n2: "left_cap < unat (nxt t2)" "unat (nxt t2) \<le> left_cap + 16"
    using assms(11,12) t1(4) nxt_mono [OF t1(2) h(2,4)] h(2) by (simp_all add: node_inv_def)
  have lc: "0 < left_cap" "left_cap \<le> 16" using assms(1,2,11,12) by (simp_all add: node_inv_def)
  obtain l r k where s: "split_buffer t2 left_cap source right = Inr (l, r, k)" "node_inv 16 l" "node_inv 16 r"
    "records l = filter (\<lambda>(x, _). x < k) (records t2)" "records r = filter (\<lambda>(x, _). k \<le> x) (records t2)"
    "unat (nxt l) = left_cap" "k \<in> fst ` set (records r)" "length k = 16" "same_meta l source" "same_meta r right"
    "unat (nxt l) + unat (nxt r) = unat (nxt t2)"
    by (rule split_buffer_ok [OF h(2) lc(1) n2(1) lc(2) n2(2) node_inv_empty [OF assms(3)] node_inv_empty [OF assms(4)]]) blast
  have o: "out_of_place_split_node anch pred source right junk q left_cap key val stored = Inr (pred', l, r, k, ans, q')"
    using t1(1) h(1) s(1) by (simp add: out_of_place_split_node_def Let_def)
  have m: "node_map l = node_map t2 |` {x. x < k}" "node_map r = node_map t2 |` {x. k \<le> x}"
    unfolding node_map_def s(4,5) by (rule map_of_filter)+
  have k: "k \<in> dom (node_map r)" using s(7) by (simp add: fst_records)
  show ?thesis
    by (rule that [OF o h(1) s(2,3,9,10) h(5,6,3,7,8,2) all m s(6,11) k s(8)])
qed

text \<open>C31: an out-of-place split.  The records of the node, the winner's record unless it is
  already there, and those of the requests answered are divided: the left node gets the
  \<open>left_cap\<close> smallest keys, the right node the others, and the anchor returned is the
  smallest key of the right node.\<close>

theorem out_of_place_split_divides:
  assumes "node_inv N source" "N \<le> 16" "node_shape source" "node_shape right"
    and "length junk = 5" "list_all kv_ok junk" "typed_inv pred" "list_all wide_request q" "wide key" "wide val"
    and "5 \<le> left_cap" "left_cap < unat (nxt source)"
  shows "\<exists>pred' l r k ans q'.
    out_of_place_split_node anch pred source right junk q left_cap key val stored = Inr (pred', l, r, k, ans, q') \<and>
    node_inv 16 l \<and> node_inv 16 r \<and> mset (map body ans) + mset (map body q') = mset (map body q) \<and>
    (let all = map_of (filter (\<lambda>(x, _). \<not> x < anch) (map body ans)) ++
               (if stored then Map.empty else [key \<mapsto> val]) ++ node_map source
     in node_map l = all |` {x. x < k} \<and> node_map r = all |` {x. k \<le> x}) \<and>
    unat (nxt l) = left_cap \<and> k \<in> dom (node_map r)"
proof -
  obtain pred' l r k ans q' t1 t where
    o: "out_of_place_split_node anch pred source right junk q left_cap key val stored = Inr (pred', l, r, k, ans, q')"
    "help_others 21 anch pred t1 q [] = Inr (pred', t, ans, q')"
    and s: "node_inv 16 l" "node_inv 16 r" "mset (map body ans) + mset (map body q') = mset (map body q)"
    "node_map t = map_of (filter (\<lambda>(x, _). \<not> x < anch) (map body ans)) ++ (if stored then Map.empty else [key \<mapsto> val]) ++ node_map source"
    "node_map l = node_map t |` {x. x < k}" "node_map r = node_map t |` {x. k \<le> x}" "unat (nxt l) = left_cap" "k \<in> dom (node_map r)"
    by (rule out_of_place_split_ok [OF assms])
  note m = s(5,6) [unfolded s(4)]
  show ?thesis
    unfolding Let_def by (intro exI conjI) (rule o s m)+
qed

lemma out_of_place_split_divides_witness:
  "\<exists>pred' l r k ans q'. out_of_place_split_node (b16 0) (demo_node [] 1) (demo_node [5, 3, 1, 0, 2, 4, 6] 12) (demo_node [] 10)
      (replicate 5 kv_zero) [new_request 0 (b16 7) (b16 9)] 5 (b16 8) (b16 9) False = Inr (pred', l, r, k, ans, q') \<and>
    unat (nxt l) = 5 \<and> k \<in> dom (node_map r)"
  using out_of_place_split_divides [where N = 12 and source = "demo_node [5, 3, 1, 0, 2, 4, 6] 12" and right = "demo_node [] 10" and
      junk = "replicate 5 kv_zero" and pred = "demo_node [] 1" and q = "[new_request 0 (b16 7) (b16 9)]" and key = "b16 8" and
      val = "b16 9" and left_cap = 5 and anch = "b16 0" and stored = False]
    demo_node_inv [of "[5, 3, 1, 0, 2, 4, 6]" 12 12] demo_shape [of "[]" 10] demo_shape [of "[5, 3, 1, 0, 2, 4, 6]" 12] zeros_ok [of 5]
  by (auto simp: typed_inv_def demo_simps cap_def enumerator_def wide_request_def new_request_def)

subsection \<open>The in-place split\<close>

lemma unat_small: "unat (2 :: u32) = Suc (Suc 0)" "unat (3 :: u32) = Suc (Suc (Suc 0))" "unat (4 :: u32) = Suc (Suc (Suc (Suc 0)))"
  by simp_all

text \<open>The in-place split, which nothing calls, loses records: its compaction goes on after it
  has filled a slot and overwrites what it put there.\<close>

theorem inplace_split_loses_record:
  "\<exists>l r k. inplace_split_node (demo_node [3, 4, 1, 2] 16) (demo_node [] 16) 2 = Inr (l, r, k) \<and> k = b16 3 \<and>
    fst ` set (records r) = {b16 3, b16 4} \<and> fst ` set (records l) = {b16 2, b16 4}"
proof -
  define s where "s = demo_node [3, 4, 1, 2] 16"
  define r where "r = demo_node [] 16"
  let ?kv = "\<lambda>x. \<lparr>kv_key = b16 x, kv_value = b16 9\<rparr>"
  have s: "unat (nxt s) = Suc (Suc (Suc (Suc 0)))" "fingerprints s = fp (b16 3) # fp (b16 4) # fp (b16 1) # fp (b16 2) # replicate 12 0"
    "pairs s = ?kv 3 # ?kv 4 # ?kv 1 # ?kv 2 # replicate 12 kv_zero" by (simp_all add: s_def demo_node_def)
  have r: "fingerprints r = replicate 16 0" "pairs r = kv_zero # kv_zero # replicate 14 kv_zero" by (simp_all add: r_def demo_node_def numeral_eq_Suc)
  have z: "length (kv_key kv_zero) = 16" "length (kv_value kv_zero) = 16" by (simp_all add: kv_zero_def)
  have k: "b16 1 < b16 3" "b16 1 < b16 4" "b16 2 < b16 3" "b16 2 < b16 4" "\<not> b16 4 < b16 3" "\<not> b16 2 < b16 1" "\<not> b16 4 < b16 1"
    "\<not> b16 3 < b16 2" "\<not> b16 4 < b16 2"
    unfolding b16_less by simp_all
  have n: "2 + 1 = Suc (Suc (Suc 0))" by simp
  have c: "construct_reorder_map s 2 (replicate 16 0) (replicate 16 False) =
      Inr ((replicate 16 0)[0 := 2, 1 := 3, 2 := 0], (replicate 16 False)[2 := True, 3 := True, 0 := True])"
    unfolding construct_reorder_map_def n by (simp add: s k nth_list_update numeral_2_eq_2 numeral_3_eq_3)
  define pk where "pk = (replicate 16 False)[2 := True, 3 := True]"
  have "(replicate 16 False)[0 := False] = replicate 16 False" by (simp add: list_update_same_conv)
  then have pk: "(replicate 16 False)[2 := True, 3 := True, 0 := True, 0 := False] = pk" "length pk = 16"
    "\<not> pk ! 0" "\<not> pk ! Suc 0" "pk ! Suc (Suc 0)" "pk ! Suc (Suc (Suc 0))"
    by (simp_all add: pk_def list_update_swap numeral_2_eq_2 numeral_3_eq_3)
  have m: "\<exists>r'. move_unpicked s pk 0 (unat (nxt s)) (r\<lparr>nxt := 0\<rparr>) = Inr r' \<and> fst ` set (records r') = {b16 3, b16 4}"
    by (simp add: s r pk z store_bytes_def available_def append_record_def records_def)
  have l: "\<exists>l b. compact (unat (nxt s)) 0 (unat (nxt s)) (s, pk) = Inr (l, b) \<and> fst ` set (records (l\<lparr>nxt := 2\<rparr>)) = {b16 2, b16 4}"
    by (simp add: s pk records_def)
  define rm where "rm = (replicate 16 (0::nat))[0 := 2, 1 := 3, 2 := 0]"
  define pk0 where "pk0 = (replicate 16 False)[2 := True, 3 := True, 0 := True]"
  have w: "rd rm 2 = Inr 0" "wr pk0 0 False = Inr pk" "rd (pairs s) 0 = Inr (?kv 3)"
    using pk(1) by (simp_all add: rm_def pk0_def s)
  obtain r' where r': "move_unpicked s pk 0 (unat (nxt s)) (r\<lparr>nxt := 0\<rparr>) = Inr r'" "fst ` set (records r') = {b16 3, b16 4}"
    using m by blast
  obtain l b where l': "compact (unat (nxt s)) 0 (unat (nxt s)) (s, pk) = Inr (l, b)" "fst ` set (records (l\<lparr>nxt := 2\<rparr>)) = {b16 2, b16 4}"
    using l by blast
  have "inplace_split_node s r 2 = Inr (l\<lparr>nxt := of_nat 2\<rparr>, r', b16 3)"
    unfolding inplace_split_node_def Let_def c [folded rm_def pk0_def] res_bind_Inr prod.case w r'(1) l'(1) by simp
  with r'(2) l'(2) show ?thesis unfolding s_def r_def by simp
qed

end
