(* ===== verification/Rdma.thy ===== *)
theory Rdma
  imports Prelude
begin

text \<open>
  \<open>components/rdma_util/rdma_util.hpp\<close> and \<open>.cpp\<close>: connecting queue pairs and posting work
  requests.  The verbs library and the socket are parameters: the record \<open>verbs\<close> holds the
  functions of the library that the code calls, on a network \<open>net\<close> that consists of the bytes of
  the registered buffer and of everything else, of an arbitrary type \<open>'w\<close>.
\<close>

subsection \<open>Statuses\<close>

datatype status =
    Ok
  | NoRDMADeviceList
  | DeviceNotFound
  | DeviceNotOpened
  | NoGID
  | CannotOpenDevice
  | CannotAllocPD
  | CannotCreateCQ
  | CannotRegMR
  | CannotCreateQP
  | CannotQueryPort
  | InvalidGIDIdx
  | InvalidIBPort
  | InvalidArguments
  | CannotInitQP
  | QPRTRFailed
  | QPRTSFailed
  | ReadError
  | WriteError
  | PostFailed
  | RecvFailed

fun decode_rdma_status :: "status \<Rightarrow> string" where
  "decode_rdma_status Ok = ''Ok''"
| "decode_rdma_status NoRDMADeviceList = ''NoRDMADeviceList''"
| "decode_rdma_status DeviceNotFound = ''DeviceNotFound''"
| "decode_rdma_status NoGID = ''NoGID''"
| "decode_rdma_status CannotOpenDevice = ''CannotOpenDevice''"
| "decode_rdma_status CannotAllocPD = ''CannotAllocPD''"
| "decode_rdma_status CannotCreateCQ = ''CannotCreateCQ''"
| "decode_rdma_status CannotRegMR = ''CannotRegMR''"
| "decode_rdma_status CannotCreateQP = ''CannotCreateQP''"
| "decode_rdma_status CannotQueryPort = ''CannotQueryPort''"
| "decode_rdma_status InvalidGIDIdx = ''InvalidGIDIdx''"
| "decode_rdma_status InvalidIBPort = ''InvalidIBPort''"
| "decode_rdma_status InvalidArguments = ''InvalidArguments''"
| "decode_rdma_status CannotInitQP = ''CannotInitQP''"
| "decode_rdma_status QPRTRFailed = ''QPRTRFailed''"
| "decode_rdma_status QPRTSFailed = ''QPRTSFailed''"
| "decode_rdma_status DeviceNotOpened = ''DeviceNotOpened''"
| "decode_rdma_status ReadError = ''ReadError''"
| "decode_rdma_status WriteError = ''WriteError''"
| "decode_rdma_status _ = ''Unknown status''"

subsection \<open>Connection certificates\<close>

text \<open>The byte orders of a little-endian machine.\<close>

definition bswap_64 :: "u64 \<Rightarrow> u64" where "bswap_64 x = of_nat (le_val (rev (le_bytes 8 (unat x))))"
definition htonll :: "u64 \<Rightarrow> u64" where "htonll x = bswap_64 x"
definition ntohll :: "u64 \<Rightarrow> u64" where "ntohll x = bswap_64 x"
definition htonl :: "u32 \<Rightarrow> u32" where "htonl x = of_nat (le_val (rev (le_bytes 4 (unat x))))"
definition ntohl :: "u32 \<Rightarrow> u32" where "ntohl x = htonl x"
definition htons :: "u16 \<Rightarrow> u16" where "htons x = of_nat (le_val (rev (le_bytes 2 (unat x))))"
definition ntohs :: "u16 \<Rightarrow> u16" where "ntohs x = htons x"

record certificate =
  c_addr :: u64
  c_rkey :: u32
  c_qp_num :: u32
  c_lid :: u16
  c_gid :: bytes

text \<open>The packed structure in memory.\<close>

definition sizeof_certificate :: nat where "sizeof_certificate = 34"

definition cert_bytes :: "certificate \<Rightarrow> bytes" where
  "cert_bytes c = le_bytes 8 (unat (c_addr c)) @ le_bytes 4 (unat (c_rkey c)) @
     le_bytes 4 (unat (c_qp_num c)) @ le_bytes 2 (unat (c_lid c)) @ c_gid c"

definition cert_of :: "bytes \<Rightarrow> certificate" where
  "cert_of b = \<lparr>c_addr = of_nat (le_val (take 8 b)), c_rkey = of_nat (le_val (take 4 (drop 8 b))),
     c_qp_num = of_nat (le_val (take 4 (drop 12 b))), c_lid = of_nat (le_val (take 2 (drop 16 b))),
     c_gid = take 16 (drop 18 b)\<rparr>"

subsection \<open>Queue pair attributes\<close>

datatype qp_state = QPS_INIT | QPS_RTR | QPS_RTS

text \<open>The fields the code sets; \<open>memset\<close> clears the others.\<close>

record qp_attr =
  qp_state :: qp_state
  port_num :: nat
  pkey_index :: nat
  qp_access_flags :: nat
  path_mtu :: nat
  dest_qp_num :: u32
  rq_psn :: nat
  max_dest_rd_atomic :: nat
  min_rnr_timer :: nat
  ah_is_global :: bool
  ah_dlid :: u16
  ah_port_num :: nat
  ah_dgid :: bytes
  ah_hop_limit :: nat
  ah_sgid_index :: int
  timeout :: nat
  retry_cnt :: nat
  rnr_retry :: nat
  sq_psn :: nat
  max_rd_atomic :: nat

definition zero_attr :: "qp_state \<Rightarrow> qp_attr" where
  "zero_attr s = \<lparr>qp_state = s, port_num = 0, pkey_index = 0, qp_access_flags = 0, path_mtu = 0, dest_qp_num = 0,
     rq_psn = 0, max_dest_rd_atomic = 0, min_rnr_timer = 0, ah_is_global = False, ah_dlid = 0, ah_port_num = 0,
     ah_dgid = replicate 16 0, ah_hop_limit = 0, ah_sgid_index = 0, timeout = 0, retry_cnt = 0, rnr_retry = 0,
     sq_psn = 0, max_rd_atomic = 0\<rparr>"

text \<open>The flag values of \<open>infiniband/verbs.h\<close> are arguments of what is built from them.\<close>

record verbs_consts =
  ACCESS_LOCAL_WRITE :: nat
  ACCESS_REMOTE_WRITE :: nat
  ACCESS_REMOTE_READ :: nat
  MTU_256 :: nat
  MASK_STATE :: nat
  MASK_PKEY_INDEX :: nat
  MASK_PORT :: nat
  MASK_ACCESS_FLAGS :: nat
  MASK_AV :: nat
  MASK_PATH_MTU :: nat
  MASK_DEST_QPN :: nat
  MASK_RQ_PSN :: nat
  MASK_MAX_DEST_RD_ATOMIC :: nat
  MASK_MIN_RNR_TIMER :: nat
  MASK_TIMEOUT :: nat
  MASK_RETRY_CNT :: nat
  MASK_RNR_RETRY :: nat
  MASK_SQ_PSN :: nat
  MASK_MAX_QP_RD_ATOMIC :: nat

definition get_default_mr_access :: "verbs_consts \<Rightarrow> nat" where
  "get_default_mr_access K = ACCESS_LOCAL_WRITE K OR ACCESS_REMOTE_READ K OR ACCESS_REMOTE_WRITE K"

definition MAX_QP_DEPTH :: nat where "MAX_QP_DEPTH = 8"

text \<open>The attributes a queue pair is created with; its type is always \<open>IBV_QPT_RC\<close>.\<close>

record qp_init_attr =
  sq_sig_all :: bool
  max_send_wr :: nat
  max_recv_wr :: nat
  max_send_sge :: nat
  max_recv_sge :: nat

definition get_default_qp_init_attr :: qp_init_attr where
  "get_default_qp_init_attr =
     \<lparr>sq_sig_all = False, max_send_wr = MAX_QP_DEPTH, max_recv_wr = MAX_QP_DEPTH, max_send_sge = 1, max_recv_sge = 1\<rparr>"

definition get_default_qp_init_state_attr :: "verbs_consts \<Rightarrow> nat \<Rightarrow> qp_attr" where
  "get_default_qp_init_state_attr K ib_port =
     (zero_attr QPS_INIT)\<lparr>port_num := ib_port, pkey_index := 0,
       qp_access_flags := ACCESS_LOCAL_WRITE K OR ACCESS_REMOTE_READ K OR ACCESS_REMOTE_WRITE K\<rparr>"

definition get_default_qp_init_state_attr_mask :: "verbs_consts \<Rightarrow> nat" where
  "get_default_qp_init_state_attr_mask K = MASK_STATE K OR MASK_PKEY_INDEX K OR MASK_PORT K OR MASK_ACCESS_FLAGS K"

definition get_default_qp_rtr_attr :: "verbs_consts \<Rightarrow> certificate \<Rightarrow> nat \<Rightarrow> int \<Rightarrow> qp_attr" where
  "get_default_qp_rtr_attr K rem ib_port sgid_idx =
     (let attr = (zero_attr QPS_RTR)\<lparr>path_mtu := MTU_256 K, dest_qp_num := c_qp_num rem, rq_psn := 0,
                   max_dest_rd_atomic := 1, min_rnr_timer := 0x12, ah_is_global := False,
                   ah_dlid := c_lid rem, ah_port_num := ib_port\<rparr>
      in if 0 \<le> sgid_idx
         then attr\<lparr>ah_is_global := True, ah_port_num := 1, ah_dgid := c_gid rem, ah_hop_limit := 1,
                   ah_sgid_index := sgid_idx\<rparr>
         else attr)"

definition get_default_qp_rtr_attr_mask :: "verbs_consts \<Rightarrow> nat" where
  "get_default_qp_rtr_attr_mask K = MASK_STATE K OR MASK_AV K OR MASK_PATH_MTU K OR MASK_DEST_QPN K OR
     MASK_RQ_PSN K OR MASK_MAX_DEST_RD_ATOMIC K OR MASK_MIN_RNR_TIMER K"

definition get_default_qp_rts_attr :: qp_attr where
  "get_default_qp_rts_attr = (zero_attr QPS_RTS)\<lparr>timeout := 0x12, retry_cnt := 6, rnr_retry := 0, sq_psn := 0, max_rd_atomic := 1\<rparr>"

definition get_default_qp_rts_attr_mask :: "verbs_consts \<Rightarrow> nat" where
  "get_default_qp_rts_attr_mask K = MASK_STATE K OR MASK_TIMEOUT K OR MASK_RETRY_CNT K OR MASK_RNR_RETRY K OR
     MASK_SQ_PSN K OR MASK_MAX_QP_RD_ATOMIC K"

subsection \<open>Work requests and the library\<close>

datatype opcode = WR_SEND | WR_RDMA_READ | WR_RDMA_WRITE

record sge =
  sg_addr :: u64
  sg_length :: u32
  sg_lkey :: u32

text \<open>A request with one scatter element; a chain of requests linked by \<open>next\<close> is a list.\<close>

record send_wr =
  wr_id :: nat
  sg_list :: sge
  wr_opcode :: opcode
  signaled :: bool
  remote_addr :: u64
  wr_rkey :: u32

record 'w net =
  lbuf :: bytes
  wire :: 'w

record 'w verbs =
  ibv_post_send :: "nat \<Rightarrow> send_wr list \<Rightarrow> 'w net \<Rightarrow> int \<times> 'w net"
  ibv_post_recv :: "nat \<Rightarrow> sge \<Rightarrow> 'w net \<Rightarrow> int \<times> 'w net"
  ibv_poll_cq :: "nat \<Rightarrow> nat \<Rightarrow> 'w net \<Rightarrow> int \<times> 'w net"
  ibv_modify_qp :: "nat \<Rightarrow> qp_attr \<Rightarrow> nat \<Rightarrow> 'w net \<Rightarrow> int \<times> 'w net"
  sock_write :: "nat \<Rightarrow> bytes \<Rightarrow> 'w net \<Rightarrow> int \<times> 'w net"
  sock_read :: "nat \<Rightarrow> nat \<Rightarrow> 'w net \<Rightarrow> int \<times> bytes \<times> 'w net"
  ibv_alloc_pd :: "'w net \<Rightarrow> nat option \<times> 'w net"
  ibv_create_cq :: "nat \<Rightarrow> 'w net \<Rightarrow> nat option \<times> 'w net"
  ibv_reg_mr :: "nat \<Rightarrow> u64 \<Rightarrow> nat \<Rightarrow> nat \<Rightarrow> 'w net \<Rightarrow> (u32 \<times> u32) option \<times> 'w net"
  ibv_create_qp :: "nat \<Rightarrow> nat \<Rightarrow> nat \<Rightarrow> qp_init_attr \<Rightarrow> 'w net \<Rightarrow> (nat \<times> u32) option \<times> 'w net"
  ibv_query_gid :: "nat \<Rightarrow> int \<Rightarrow> 'w net \<Rightarrow> int \<times> bytes"
  ibv_query_port :: "nat \<Rightarrow> 'w net \<Rightarrow> int \<times> u16"
  ibv_get_device_list :: "'w net \<Rightarrow> string list option"
  ibv_open_device :: "nat \<Rightarrow> 'w net \<Rightarrow> bool"

record rdma_device =
  dev_name :: string
  dev_index :: nat
  ib_port :: nat
  gid_idx :: int

record rdma_context =
  rc_out_cq :: nat
  rc_in_cq :: nat
  rc_lkey :: u32
  rc_qp :: nat
  local_cert :: certificate
  remote_cert :: certificate
  rc_buf :: u64

subsection \<open>Devices\<close>

text \<open>The loop over the devices: the first of that name that can be opened.\<close>

fun find_device :: "'w verbs \<Rightarrow> 'w net \<Rightarrow> string \<Rightarrow> string list \<Rightarrow> nat \<Rightarrow> nat option" where
  "find_device V w name [] i = None"
| "find_device V w name (d # ds) i =
     (if name = d \<and> ibv_open_device V i w then Some i else find_device V w name ds (Suc i))"

definition make_rdma :: "'w verbs \<Rightarrow> 'w net \<Rightarrow> string \<Rightarrow> nat \<Rightarrow> int \<Rightarrow> rdma_device option \<times> status" where
  "make_rdma V w name port gidx =
     (case ibv_get_device_list V w of
        None \<Rightarrow> (None, NoRDMADeviceList)
      | Some ds \<Rightarrow>
          (case find_device V w name ds 0 of
             None \<Rightarrow> (None, DeviceNotFound)
           | Some i \<Rightarrow> (Some \<lparr>dev_name = name, dev_index = i, ib_port = port, gid_idx = gidx\<rparr>, Ok)))"

definition zero_cert :: certificate where
  "zero_cert = \<lparr>c_addr = 0, c_rkey = 0, c_qp_num = 0, c_lid = 0, c_gid = replicate 16 0\<rparr>"

text \<open>Opening a device: each call of the library that fails ends it with its own status.\<close>

definition rdma_open ::
    "'w verbs \<Rightarrow> rdma_device \<Rightarrow> u64 \<Rightarrow> nat \<Rightarrow> nat \<Rightarrow> nat \<Rightarrow> qp_init_attr \<Rightarrow> 'w net \<Rightarrow> (rdma_context option \<times> status) \<times> 'w net" where
  "rdma_open V d membuf memsize cqe access attr w =
     (if membuf = 0 \<or> cqe = 0 then ((None, InvalidArguments), w)
      else case ibv_alloc_pd V w of (None, w1) \<Rightarrow> ((None, CannotAllocPD), w1) | (Some pd, w1) \<Rightarrow>
      (case ibv_create_cq V cqe w1 of (None, w2) \<Rightarrow> ((None, CannotCreateCQ), w2) | (Some icq, w2) \<Rightarrow>
      (case ibv_create_cq V cqe w2 of (None, w3) \<Rightarrow> ((None, CannotCreateCQ), w3) | (Some ocq, w3) \<Rightarrow>
      (case ibv_reg_mr V pd membuf memsize access w3 of (None, w4) \<Rightarrow> ((None, CannotRegMR), w4) | (Some (lk, rk), w4) \<Rightarrow>
      (case ibv_create_qp V pd ocq icq attr w4 of (None, w5) \<Rightarrow> ((None, CannotCreateQP), w5) | (Some (q, qn), w5) \<Rightarrow>
      (let (g_err, gid) = (if 0 \<le> gid_idx d then ibv_query_gid V (ib_port d) (gid_idx d) w5 else (0, replicate 16 0)) in
       if g_err \<noteq> 0 then ((None, NoGID), w5)
       else let (p_err, lid) = ibv_query_port V (ib_port d) w5 in
       if p_err \<noteq> 0 then ((None, CannotQueryPort), w5)
       else ((Some \<lparr>rc_out_cq = ocq, rc_in_cq = icq, rc_lkey = lk, rc_qp = q,
                local_cert = \<lparr>c_addr = membuf, c_rkey = rk, c_qp_num = qn, c_lid = lid, c_gid = gid\<rparr>,
                remote_cert = zero_cert, rc_buf = membuf\<rparr>, Ok), w5)))))))"

subsection \<open>Connecting\<close>

text \<open>What is sent over the socket, and what is taken from the bytes received, both in network byte
  order.\<close>

definition cert_message :: "certificate \<Rightarrow> bytes" where
  "cert_message l =
     cert_bytes \<lparr>c_addr = htonll (c_addr l), c_rkey = htonl (c_rkey l), c_qp_num = htonl (c_qp_num l),
                 c_lid = htons (c_lid l), c_gid = c_gid l\<rparr>"

definition cert_received :: "bytes \<Rightarrow> certificate" where
  "cert_received b =
     (let t = cert_of b in
      \<lparr>c_addr = ntohll (c_addr t), c_rkey = ntohl (c_rkey t), c_qp_num = ntohl (c_qp_num t),
       c_lid = ntohs (c_lid t), c_gid = c_gid t\<rparr>)"

definition exchange_certificate :: "'w verbs \<Rightarrow> nat \<Rightarrow> rdma_context \<Rightarrow> 'w net \<Rightarrow> (status \<times> rdma_context) \<times> 'w net" where
  "exchange_certificate V sockfd x w =
     (case sock_write V sockfd (cert_message (local_cert x)) w of (n, w1) \<Rightarrow>
      if n \<noteq> int sizeof_certificate then ((WriteError, x), w1)
      else (case sock_read V sockfd sizeof_certificate w1 of (m, b, w2) \<Rightarrow>
            if m \<noteq> int sizeof_certificate then ((ReadError, x), w2)
            else ((Ok, x\<lparr>remote_cert := cert_received b\<rparr>), w2)))"

definition modify_qp :: "'w verbs \<Rightarrow> rdma_context \<Rightarrow> qp_attr \<Rightarrow> nat \<Rightarrow> 'w net \<Rightarrow> (status \<times> int) \<times> 'w net" where
  "modify_qp V x attr msk w =
     (case ibv_modify_qp V (rc_qp x) attr msk w of (ret, w') \<Rightarrow>
        ((if ret = 0 then Ok else CannotInitQP, ret), w'))"

definition default_get_qp_ready :: "'w verbs \<Rightarrow> verbs_consts \<Rightarrow> rdma_device \<Rightarrow> rdma_context \<Rightarrow> 'w net \<Rightarrow> int \<times> 'w net" where
  "default_get_qp_ready V K d x w =
     (case modify_qp V x (get_default_qp_init_state_attr K 1) (get_default_qp_init_state_attr_mask K) w of ((s1, e1), w1) \<Rightarrow>
      if s1 \<noteq> Ok then (e1, w1)
      else (case modify_qp V x (get_default_qp_rtr_attr K (remote_cert x) (ib_port d) (gid_idx d))
                   (get_default_qp_rtr_attr_mask K) w1 of ((s2, e2), w2) \<Rightarrow>
      if s2 \<noteq> Ok then (e2, w2)
      else (case modify_qp V x get_default_qp_rts_attr (get_default_qp_rts_attr_mask K) w2 of ((s3, e3), w3) \<Rightarrow>
      if s3 \<noteq> Ok then (e3, w3) else (0, w3))))"

definition default_connect :: "'w verbs \<Rightarrow> verbs_consts \<Rightarrow> rdma_device \<Rightarrow> nat \<Rightarrow> rdma_context \<Rightarrow> 'w net \<Rightarrow> (int \<times> rdma_context) \<times> 'w net" where
  "default_connect V K d sockfd x w =
     (case exchange_certificate V sockfd x w of ((s, x'), w1) \<Rightarrow>
      if s \<noteq> Ok then ((- 1, x'), w1)
      else (case default_get_qp_ready V K d x' w1 of (e, w2) \<Rightarrow> ((e, x'), w2)))"

definition default_connect_to_known ::
    "'w verbs \<Rightarrow> verbs_consts \<Rightarrow> rdma_device \<Rightarrow> certificate \<Rightarrow> rdma_context \<Rightarrow> 'w net \<Rightarrow> (int \<times> rdma_context) \<times> 'w net" where
  "default_connect_to_known V K d r x w =
     (case default_get_qp_ready V K d (x\<lparr>remote_cert := r\<rparr>) w of (e, w1) \<Rightarrow> ((e, x\<lparr>remote_cert := r\<rparr>), w1))"

subsection \<open>Posting\<close>

text \<open>\<open>memcpy(buf + offset, msg, len)\<close>, within the registered buffer.\<close>

definition put_bytes :: "nat \<Rightarrow> bytes \<Rightarrow> bytes \<Rightarrow> bytes" where
  "put_bytes off m b = take off b @ m @ drop (off + length m) b"

definition buf_copy :: "bytes option \<Rightarrow> nat \<Rightarrow> nat \<Rightarrow> bytes \<Rightarrow> bytes res" where
  "buf_copy msg len off b =
     (case msg of None \<Rightarrow> Inr b
      | Some m \<Rightarrow> if len \<le> length m \<and> off + len \<le> length b then Inr (put_bytes off (take len m) b) else Inl OutOfBounds)"

definition post_send_helper ::
    "'w verbs \<Rightarrow> rdma_context \<Rightarrow> bytes option \<Rightarrow> nat \<Rightarrow> opcode \<Rightarrow> nat \<Rightarrow> u64 \<Rightarrow> 'w net \<Rightarrow> ((status \<times> int) \<times> 'w net) res" where
  "post_send_helper V x msg msg_len opc local_offset remote_offset w =
     res_bind (buf_copy msg msg_len local_offset (lbuf w)) (\<lambda>b.
     (let sr = \<lparr>wr_id = 0,
                sg_list = \<lparr>sg_addr = rc_buf x + of_nat local_offset, sg_length = of_nat msg_len, sg_lkey = rc_lkey x\<rparr>,
                wr_opcode = opc, signaled = True,
                remote_addr = (if opc \<noteq> WR_SEND then c_addr (remote_cert x) + remote_offset else 0),
                wr_rkey = (if opc \<noteq> WR_SEND then c_rkey (remote_cert x) else 0)\<rparr> in
      (case ibv_post_send V (rc_qp x) [sr] (w\<lparr>lbuf := b\<rparr>) of (ret, w') \<Rightarrow>
         Inr (if ret \<noteq> 0 then ((PostFailed, ret), w') else ((Ok, 0), w')))))"

definition post_send_helper_ptr ::
    "'w verbs \<Rightarrow> rdma_context \<Rightarrow> u64 \<Rightarrow> bytes option \<Rightarrow> nat \<Rightarrow> opcode \<Rightarrow> nat \<Rightarrow> 'w net \<Rightarrow> ((status \<times> int) \<times> 'w net) res" where
  "post_send_helper_ptr V x ptr msg msg_len opc local_offset w =
     post_send_helper V x msg msg_len opc local_offset (ptr - c_addr (remote_cert x)) w"

definition post_send :: "'w verbs \<Rightarrow> rdma_context \<Rightarrow> bytes option \<Rightarrow> nat \<Rightarrow> nat \<Rightarrow> 'w net \<Rightarrow> ((status \<times> int) \<times> 'w net) res" where
  "post_send V x msg msg_len local_offset w = post_send_helper V x msg msg_len WR_SEND local_offset 0 w"

definition post_send_ptr :: "'w verbs \<Rightarrow> rdma_context \<Rightarrow> u64 \<Rightarrow> bytes option \<Rightarrow> nat \<Rightarrow> nat \<Rightarrow> 'w net \<Rightarrow> ((status \<times> int) \<times> 'w net) res" where
  "post_send_ptr V x ptr msg msg_len local_offset w = post_send_helper_ptr V x ptr msg msg_len WR_SEND local_offset w"

definition post_read_offset :: "'w verbs \<Rightarrow> rdma_context \<Rightarrow> nat \<Rightarrow> nat \<Rightarrow> u64 \<Rightarrow> 'w net \<Rightarrow> ((status \<times> int) \<times> 'w net) res" where
  "post_read_offset V x msg_len local_offset remote_offset w =
     post_send_helper V x None msg_len WR_RDMA_READ local_offset remote_offset w"

definition post_read :: "'w verbs \<Rightarrow> rdma_context \<Rightarrow> u64 \<Rightarrow> nat \<Rightarrow> nat \<Rightarrow> 'w net \<Rightarrow> ((status \<times> int) \<times> 'w net) res" where
  "post_read V x ptr msg_len local_offset w = post_send_helper_ptr V x ptr None msg_len WR_RDMA_READ local_offset w"

definition post_write_offset :: "'w verbs \<Rightarrow> rdma_context \<Rightarrow> bytes option \<Rightarrow> nat \<Rightarrow> nat \<Rightarrow> u64 \<Rightarrow> 'w net \<Rightarrow> ((status \<times> int) \<times> 'w net) res" where
  "post_write_offset V x msg msg_len local_offset remote_offset w =
     post_send_helper V x msg msg_len WR_RDMA_WRITE local_offset remote_offset w"

definition post_write :: "'w verbs \<Rightarrow> rdma_context \<Rightarrow> u64 \<Rightarrow> bytes option \<Rightarrow> nat \<Rightarrow> nat \<Rightarrow> 'w net \<Rightarrow> ((status \<times> int) \<times> 'w net) res" where
  "post_write V x ptr msg msg_len local_offset w = post_send_helper_ptr V x ptr msg msg_len WR_RDMA_WRITE local_offset w"

definition post_recv_to :: "'w verbs \<Rightarrow> rdma_context \<Rightarrow> nat \<Rightarrow> nat \<Rightarrow> 'w net \<Rightarrow> (status \<times> int) \<times> 'w net" where
  "post_recv_to V x msg_len off w =
     (case ibv_post_recv V (rc_qp x)
             \<lparr>sg_addr = rc_buf x + of_nat off, sg_length = of_nat msg_len, sg_lkey = rc_lkey x\<rparr> w of (ret, w') \<Rightarrow>
        (if ret \<noteq> 0 then (RecvFailed, ret) else (Ok, 0), w'))"

definition fill_buf :: "rdma_context \<Rightarrow> bytes option \<Rightarrow> nat \<Rightarrow> nat \<Rightarrow> 'w net \<Rightarrow> (u64 \<times> 'w net) res" where
  "fill_buf x msg msg_len off w =
     res_bind (if msg \<noteq> None \<and> msg_len \<noteq> 0 then buf_copy msg msg_len off (lbuf w) else Inr (lbuf w)) (\<lambda>b.
     Inr (rc_buf x + of_nat off, w\<lparr>lbuf := b\<rparr>))"

definition generate_sge :: "rdma_context \<Rightarrow> bytes option \<Rightarrow> nat \<Rightarrow> nat \<Rightarrow> 'w net \<Rightarrow> (sge \<times> 'w net) res" where
  "generate_sge x msg msg_len off w =
     res_bind (fill_buf x msg msg_len off w) (\<lambda>(addr, w').
     Inr (\<lparr>sg_addr = addr, sg_length = of_nat msg_len, sg_lkey = rc_lkey x\<rparr>, w'))"

definition generate_send_wr :: "rdma_context \<Rightarrow> nat \<Rightarrow> sge \<Rightarrow> u64 \<Rightarrow> opcode \<Rightarrow> send_wr" where
  "generate_send_wr x i s rem opc =
     \<lparr>wr_id = i, sg_list = s, wr_opcode = opc, signaled = True, remote_addr = rem, wr_rkey = c_rkey (remote_cert x)\<rparr>"

definition post_batch_write :: "'w verbs \<Rightarrow> rdma_context \<Rightarrow> send_wr list \<Rightarrow> 'w net \<Rightarrow> (status \<times> int) \<times> 'w net" where
  "post_batch_write V x wrs w =
     (case ibv_post_send V (rc_qp x) wrs w of (ret, w') \<Rightarrow> (if ret \<noteq> 0 then (WriteError, ret) else (Ok, 0), w'))"

definition post_batch_read :: "'w verbs \<Rightarrow> rdma_context \<Rightarrow> send_wr list \<Rightarrow> 'w net \<Rightarrow> (status \<times> int) \<times> 'w net" where
  "post_batch_read V x wrs w =
     (case ibv_post_send V (rc_qp x) wrs w of (ret, w') \<Rightarrow> (if ret \<noteq> 0 then (ReadError, ret) else (Ok, 0), w'))"

subsection \<open>Polling\<close>

definition poll_completion_once :: "'w verbs \<Rightarrow> rdma_context \<Rightarrow> bool \<Rightarrow> 'w net \<Rightarrow> int \<times> 'w net" where
  "poll_completion_once V x send w = ibv_poll_cq V (if send then rc_out_cq x else rc_in_cq x) 1 w"

text \<open>The loop that polls until there is a completion or an error.\<close>

partial_function (option) poll_until :: "'w verbs \<Rightarrow> nat \<Rightarrow> nat \<Rightarrow> 'w net \<Rightarrow> (int \<times> 'w net) option" where
  "poll_until V cq no w =
     (case ibv_poll_cq V cq no w of (ret, w') \<Rightarrow> if ret = 0 then poll_until V cq no w' else Some (ret, w'))"

text \<open>The first component of the result is whether a \<open>wc\<close> is returned, which is how callers
  recognise a failure.\<close>

definition poll_multiple_completions :: "'w verbs \<Rightarrow> rdma_context \<Rightarrow> nat \<Rightarrow> bool \<Rightarrow> 'w net \<Rightarrow> ((bool \<times> int) \<times> 'w net) option" where
  "poll_multiple_completions V x no send w =
     (case poll_until V (if send then rc_out_cq x else rc_in_cq x) no w of
        None \<Rightarrow> None
      | Some (ret, w') \<Rightarrow> Some (if 0 < ret then (False, ret) else (True, ret), w'))"

definition poll_one_completion :: "'w verbs \<Rightarrow> rdma_context \<Rightarrow> bool \<Rightarrow> 'w net \<Rightarrow> ((bool \<times> int) \<times> 'w net) option" where
  "poll_one_completion V x send w =
     (case poll_until V (if send then rc_out_cq x else rc_in_cq x) 1 w of
        None \<Rightarrow> None
      | Some (ret, w') \<Rightarrow> Some (if 0 < ret then (False, ret) else (True, ret), w'))"

end
