(* ===== verification/RdmaFabric.thy ===== *)
theory RdmaFabric
  imports Rdma "HOL-Library.Multiset"
begin

text \<open>
  What the compute node relies on the verbs library for, as the contract \<open>rdma_fabric\<close>: a posted
  request is outstanding until its completion is polled, and once nothing is outstanding the
  buffer and the remote memory are what carrying out the requests in order makes them.  The
  compute node's reads and writes are derived inside the contract.  Its interpretation is a
  simulated network.  The properties are those of connecting, addressing and polling.
\<close>

subsection \<open>The effect of a work request\<close>

type_synonym memory = "u64 \<Rightarrow> byte_t"

definition read_rem :: "memory \<Rightarrow> u64 \<Rightarrow> nat \<Rightarrow> bytes" where
  "read_rem m a len = map (\<lambda>i. m (a + of_nat i)) [0..<len]"

definition write_rem :: "memory \<Rightarrow> u64 \<Rightarrow> bytes \<Rightarrow> memory" where
  "write_rem m a bs = (\<lambda>p. if unat (p - a) < length bs then bs ! unat (p - a) else m p)"

definition wr_off :: "u64 \<Rightarrow> send_wr \<Rightarrow> nat" where
  "wr_off base rq = unat (sg_addr (sg_list rq) - base)"

definition wr_len :: "send_wr \<Rightarrow> nat" where
  "wr_len rq = unat (sg_length (sg_list rq))"

definition apply_wr :: "u64 \<Rightarrow> send_wr \<Rightarrow> bytes \<times> memory \<Rightarrow> bytes \<times> memory" where
  "apply_wr base rq = (\<lambda>(b, m).
     (case wr_opcode rq of
        WR_RDMA_READ \<Rightarrow> (put_bytes (wr_off base rq) (read_rem m (remote_addr rq) (wr_len rq)) b, m)
      | WR_RDMA_WRITE \<Rightarrow> (b, write_rem m (remote_addr rq) (take (wr_len rq) (drop (wr_off base rq) b)))
      | WR_SEND \<Rightarrow> (b, m)))"

definition wr_ok :: "u64 \<Rightarrow> (u64 \<Rightarrow> nat \<Rightarrow> bool) \<Rightarrow> rdma_context \<Rightarrow> nat \<Rightarrow> send_wr \<Rightarrow> bool" where
  "wr_ok base registered x L rq \<longleftrightarrow> wr_opcode rq \<noteq> WR_SEND \<and> sg_lkey (sg_list rq) = rc_lkey x \<and>
     wr_rkey rq = c_rkey (remote_cert x) \<and> wr_off base rq + wr_len rq \<le> L \<and> registered (remote_addr rq) (wr_len rq)"

text \<open>Requests on one queue pair are carried out in order; on two, only reads into disjoint parts
  of the buffer may be outstanding together.\<close>

definition compatible :: "u64 \<Rightarrow> nat \<Rightarrow> send_wr list \<Rightarrow> (nat \<times> send_wr) list \<Rightarrow> bool" where
  "compatible base q wrs out \<longleftrightarrow> (\<forall>w \<in> set wrs. \<forall>(q', w') \<in> set out. q' = q \<or>
     wr_opcode w = WR_RDMA_READ \<and> wr_opcode w' = WR_RDMA_READ \<and>
     (wr_off base w + wr_len w \<le> wr_off base w' \<or> wr_off base w' + wr_len w' \<le> wr_off base w))"

definition last_signaled :: "send_wr list \<Rightarrow> bool" where
  "last_signaled wrs \<longleftrightarrow> wrs \<noteq> [] \<and> signaled (last wrs) \<and> list_all (\<lambda>w. \<not> signaled w) (butlast wrs)"

text \<open>A completion retires the requests of the queue pair up to the first signaled one.\<close>

fun complete :: "nat \<Rightarrow> (nat \<times> send_wr) list \<Rightarrow> (nat \<times> send_wr) list" where
  "complete q [] = []"
| "complete q ((q', w) # out) =
     (if q' = q then (if signaled w then out else complete q out) else (q', w) # complete q out)"

subsection \<open>The contract\<close>

locale rdma_fabric =
  fixes V :: "'w verbs"
    and base :: u64
    and registered :: "u64 \<Rightarrow> nat \<Rightarrow> bool"
    and connected :: "rdma_context \<Rightarrow> bool"
    and outstanding :: "'w net \<Rightarrow> (nat \<times> send_wr) list"
    and settled :: "'w net \<Rightarrow> bytes \<times> memory"
  assumes buffer_at: "connected x \<Longrightarrow> rc_buf x = base"
    and quiet_buffer: "outstanding n = [] \<Longrightarrow> fst (settled n) = lbuf n"
    and cpu_write: "outstanding n = [] \<Longrightarrow>
        outstanding (n\<lparr>lbuf := b\<rparr>) = [] \<and> settled (n\<lparr>lbuf := b\<rparr>) = (b, snd (settled n))"
    and post_ok: "connected x \<Longrightarrow> last_signaled wrs \<Longrightarrow> list_all (wr_ok base registered x (length (lbuf n))) wrs \<Longrightarrow>
        compatible base (rc_qp x) wrs (outstanding n) \<Longrightarrow> length (outstanding n) + length wrs \<le> MAX_QP_DEPTH \<Longrightarrow>
        \<exists>n'. ibv_post_send V (rc_qp x) wrs n = (0, n') \<and> outstanding n' = outstanding n @ map (Pair (rc_qp x)) wrs \<and>
          settled n' = fold (apply_wr base) wrs (settled n) \<and> length (lbuf n') = length (lbuf n)"
    and poll_ok: "connected x \<Longrightarrow> (rc_qp x, w) \<in> set (outstanding n) \<Longrightarrow> signaled w \<Longrightarrow>
        \<exists>r n'. poll_until V (rc_out_cq x) 1 n = Some (r, n') \<and> 0 < r \<and> outstanding n' = complete (rc_qp x) (outstanding n) \<and>
          settled n' = settled n \<and> length (lbuf n') = length (lbuf n)"

subsection \<open>The simulated network\<close>

record sim =
  sim_mem :: memory
  sim_out :: "(nat \<times> send_wr) list"

definition sim_base :: u64 where "sim_base = 4096"

definition sim_post :: "nat \<Rightarrow> send_wr list \<Rightarrow> sim net \<Rightarrow> int \<times> sim net" where
  "sim_post q wrs n =
     (case fold (apply_wr sim_base) wrs (lbuf n, sim_mem (wire n)) of (b, m) \<Rightarrow>
        (0, \<lparr>lbuf = b, wire = \<lparr>sim_mem = m, sim_out = sim_out (wire n) @ map (Pair q) wrs\<rparr>\<rparr>))"

definition sim_poll :: "nat \<Rightarrow> nat \<Rightarrow> sim net \<Rightarrow> int \<times> sim net" where
  "sim_poll q no n =
     (if list_ex (\<lambda>(q', w). q' = q \<and> signaled w) (sim_out (wire n))
      then (1, n\<lparr>wire := (wire n)\<lparr>sim_out := complete q (sim_out (wire n))\<rparr>\<rparr>) else (0, n))"

definition sim_verbs :: "sim verbs" where
  "sim_verbs =
     \<lparr>ibv_post_send = sim_post, ibv_post_recv = (\<lambda>q s n. (0, n)), ibv_poll_cq = sim_poll,
      ibv_modify_qp = (\<lambda>q a m n. (0, n)), sock_write = (\<lambda>s b n. (int (length b), n)),
      sock_read = (\<lambda>s l n. (int l, replicate l 0, n)), ibv_alloc_pd = (\<lambda>n. (Some 0, n)),
      ibv_create_cq = (\<lambda>c n. (Some 0, n)), ibv_reg_mr = (\<lambda>p b s a n. (Some (0, 0), n)),
      ibv_create_qp = (\<lambda>p s r a n. (Some (0, 0), n)), ibv_query_gid = (\<lambda>p i n. (0, replicate 16 0)),
      ibv_query_port = (\<lambda>p n. (0, 0)), ibv_get_device_list = (\<lambda>n. Some [''sim'']), ibv_open_device = (\<lambda>i n. True)\<rparr>"

definition sim_connected :: "rdma_context \<Rightarrow> bool" where
  "sim_connected x \<longleftrightarrow> rc_buf x = sim_base \<and> rc_out_cq x = rc_qp x"

definition sim_settled :: "sim net \<Rightarrow> bytes \<times> memory" where
  "sim_settled n = (lbuf n, sim_mem (wire n))"

lemma put_bytes_length: "off + length m \<le> length b \<Longrightarrow> length (put_bytes off m b) = length b"
  by (simp add: put_bytes_def)

lemma read_rem_length [simp]: "length (read_rem m a len) = len"
  by (simp add: read_rem_def)

lemma apply_wrs_length:
  "list_all (wr_ok base reg x (length b)) wrs \<Longrightarrow> length (fst (fold (apply_wr base) wrs (b, m))) = length b"
proof (induction wrs arbitrary: b m)
  case (Cons w wrs)
  obtain b' m' where w: "apply_wr base w (b, m) = (b', m')" by fastforce
  have "length b' = length b"
    using Cons.prems w by (auto simp: apply_wr_def wr_ok_def put_bytes_length split: opcode.splits)
  with Cons.IH [of b' m'] Cons.prems w show ?case by simp
qed simp

interpretation simulated: rdma_fabric sim_verbs sim_base "\<lambda>a n. True" sim_connected "\<lambda>n. sim_out (wire n)" sim_settled
proof
  fix x :: rdma_context and wrs and n :: "sim net"
  assume a: "list_all (wr_ok sim_base (\<lambda>a n. True) x (length (lbuf n))) wrs"
  obtain b m where f: "fold (apply_wr sim_base) wrs (lbuf n, sim_mem (wire n)) = (b, m)" by fastforce
  with apply_wrs_length [OF a, of "sim_mem (wire n)"] show "\<exists>n'. ibv_post_send sim_verbs (rc_qp x) wrs n = (0, n') \<and>
     sim_out (wire n') = sim_out (wire n) @ map (Pair (rc_qp x)) wrs \<and>
     sim_settled n' = fold (apply_wr sim_base) wrs (sim_settled n) \<and> length (lbuf n') = length (lbuf n)"
    by (simp add: sim_verbs_def sim_post_def sim_settled_def)
next
  fix x :: rdma_context and w and n :: "sim net"
  assume a: "sim_connected x" "(rc_qp x, w) \<in> set (sim_out (wire n))" "signaled w"
  then have "list_ex (\<lambda>(q', w). q' = rc_qp x \<and> signaled w) (sim_out (wire n))" by (auto simp: list_ex_iff)
  with a(1) show "\<exists>r n'. poll_until sim_verbs (rc_out_cq x) 1 n = Some (r, n') \<and> 0 < r \<and>
     sim_out (wire n') = complete (rc_qp x) (sim_out (wire n)) \<and> sim_settled n' = sim_settled n \<and> length (lbuf n') = length (lbuf n)"
    by (subst poll_until.simps) (simp add: sim_verbs_def sim_poll_def sim_settled_def sim_connected_def)
qed (auto simp: sim_connected_def sim_settled_def)

subsection \<open>Reads and writes of a thread\<close>

text \<open>The request that \<open>post_send_helper\<close> makes for an absolute remote address.\<close>

definition simple_request :: "rdma_context \<Rightarrow> opcode \<Rightarrow> u64 \<Rightarrow> nat \<Rightarrow> nat \<Rightarrow> send_wr" where
  "simple_request x opc ptr len off =
     \<lparr>wr_id = 0, sg_list = \<lparr>sg_addr = rc_buf x + of_nat off, sg_length = of_nat len, sg_lkey = rc_lkey x\<rparr>,
      wr_opcode = opc, signaled = True, remote_addr = ptr, wr_rkey = c_rkey (remote_cert x)\<rparr>"

lemma simple_request_fields:
  assumes "rc_buf x = base" "off + len \<le> L" "L < 2 ^ 32"
  shows "wr_off base (simple_request x opc ptr len off) = off" "wr_len (simple_request x opc ptr len off) = len"
  using assms by (simp_all add: simple_request_def wr_off_def wr_len_def unat_of_nat)

lemma helper_ptr_eq:
  assumes "opc \<noteq> WR_SEND"
  shows "post_send_helper_ptr V x ptr None len opc off n =
    (case ibv_post_send V (rc_qp x) [simple_request x opc ptr len off] n of (ret, n') \<Rightarrow>
       Inr (if ret \<noteq> 0 then ((PostFailed, ret), n') else ((Ok, 0), n')))"
  using assms by (simp add: post_send_helper_ptr_def post_send_helper_def buf_copy_def simple_request_def Let_def)

context rdma_fabric
begin

lemma poll_one:
  assumes "connected x" "(rc_qp x, w) \<in> set (outstanding n)" "signaled w"
  obtains r n' where "poll_one_completion V x True n = Some ((False, r), n')" "0 < r"
    "outstanding n' = complete (rc_qp x) (outstanding n)" "settled n' = settled n" "length (lbuf n') = length (lbuf n)"
  using poll_ok [OF assms] that by (force simp: poll_one_completion_def)

lemma post_simple:
  assumes x: "connected x" "opc \<noteq> WR_SEND" and b: "off + len \<le> length (lbuf n)" "length (lbuf n) < 2 ^ 32"
    and r: "registered ptr len" and c: "compatible base (rc_qp x) [simple_request x opc ptr len off] (outstanding n)"
    and d: "length (outstanding n) < MAX_QP_DEPTH"
  obtains n' where "post_send_helper_ptr V x ptr None len opc off n = Inr ((Ok, 0), n')"
    "outstanding n' = outstanding n @ [(rc_qp x, simple_request x opc ptr len off)]"
    "settled n' = apply_wr base (simple_request x opc ptr len off) (settled n)" "length (lbuf n') = length (lbuf n)"
proof -
  let ?r = "simple_request x opc ptr len off"
  have "list_all (wr_ok base registered x (length (lbuf n))) [?r]"
    using x(2) b r simple_request_fields [OF buffer_at [OF x(1)] b] by (simp add: wr_ok_def) (simp add: simple_request_def)
  moreover have "last_signaled [?r]" by (simp add: last_signaled_def simple_request_def)
  moreover have "length (outstanding n) + length [?r] \<le> MAX_QP_DEPTH" using d by simp
  ultimately obtain n' where "ibv_post_send V (rc_qp x) [?r] n = (0, n')" "outstanding n' = outstanding n @ map (Pair (rc_qp x)) [?r]"
    "settled n' = fold (apply_wr base) [?r] (settled n)" "length (lbuf n') = length (lbuf n)"
    using post_ok [OF x(1) _ _ c] by blast
  then show ?thesis by (intro that [of n']) (simp_all add: helper_ptr_eq x(2))
qed

lemma apply_read:
  assumes "connected x" "off + len \<le> L" "L < 2 ^ 32"
  shows "apply_wr base (simple_request x WR_RDMA_READ ptr len off) (b, m) = (put_bytes off (read_rem m ptr len) b, m)"
  using simple_request_fields [OF buffer_at [OF assms(1)] assms(2,3)]
  by (simp add: apply_wr_def) (simp add: simple_request_def)

lemma apply_write:
  assumes "connected x" "off + len \<le> L" "L < 2 ^ 32"
  shows "apply_wr base (simple_request x WR_RDMA_WRITE ptr len off) (b, m) = (b, write_rem m ptr (take len (drop off b)))"
  using simple_request_fields [OF buffer_at [OF assms(1)] assms(2,3)]
  by (simp add: apply_wr_def) (simp add: simple_request_def)

text \<open>One request, then the poll for it.\<close>

lemma sync_simple:
  assumes x: "connected x" "opc \<noteq> WR_SEND" and q: "outstanding n = []" and b: "off + len \<le> length (lbuf n)" "length (lbuf n) < 2 ^ 32"
    and r: "registered ptr len"
  obtains n1 n2 k where "post_send_helper_ptr V x ptr None len opc off n = Inr ((Ok, 0), n1)"
    "poll_one_completion V x True n1 = Some ((False, k), n2)" "outstanding n2 = []"
    "settled n2 = apply_wr base (simple_request x opc ptr len off) (lbuf n, snd (settled n))"
    "lbuf n2 = fst (settled n2)" "length (lbuf n2) = length (lbuf n)"
proof -
  have c: "compatible base (rc_qp x) [simple_request x opc ptr len off] (outstanding n)" by (simp add: compatible_def q)
  obtain n1 where n1: "post_send_helper_ptr V x ptr None len opc off n = Inr ((Ok, 0), n1)"
    "outstanding n1 = outstanding n @ [(rc_qp x, simple_request x opc ptr len off)]"
    "settled n1 = apply_wr base (simple_request x opc ptr len off) (settled n)" "length (lbuf n1) = length (lbuf n)"
    using post_simple [OF x b r c] q by (auto simp: MAX_QP_DEPTH_def)
  have "(rc_qp x, simple_request x opc ptr len off) \<in> set (outstanding n1)" using n1(2) by simp
  moreover have "signaled (simple_request x opc ptr len off)" by (simp add: simple_request_def)
  ultimately obtain k n2 where "poll_one_completion V x True n1 = Some ((False, k), n2)" "0 < k"
    "outstanding n2 = complete (rc_qp x) (outstanding n1)" "settled n2 = settled n1" "length (lbuf n2) = length (lbuf n1)"
    by (rule poll_one [OF x(1)])
  moreover have "complete (rc_qp x) (outstanding n1) = []" by (simp add: n1(2) q simple_request_def)
  moreover have "settled n = (lbuf n, snd (settled n))" using quiet_buffer [OF q] by (metis prod.collapse)
  ultimately show ?thesis using n1 quiet_buffer [of n2] by (intro that [of n1 k n2]) simp_all
qed

lemma read_sync:
  assumes x: "connected x" and q: "outstanding n = []" and b: "off + len \<le> length (lbuf n)" "length (lbuf n) < 2 ^ 32"
    and r: "registered ptr len"
  obtains n1 n2 k where "post_read V x ptr len off n = Inr ((Ok, 0), n1)"
    "poll_one_completion V x True n1 = Some ((False, k), n2)" "outstanding n2 = []"
    "lbuf n2 = put_bytes off (read_rem (snd (settled n)) ptr len) (lbuf n)" "snd (settled n2) = snd (settled n)"
    "length (lbuf n2) = length (lbuf n)"
proof -
  have "WR_RDMA_READ \<noteq> WR_SEND" by simp
  from sync_simple [OF x this q b r] show ?thesis
    using that unfolding apply_read [OF x b] post_read_def by (metis fst_conv snd_conv)
qed

lemma write_sync:
  assumes x: "connected x" and q: "outstanding n = []" and b: "off + len \<le> length (lbuf n)" "length (lbuf n) < 2 ^ 32"
    and r: "registered ptr len"
  obtains n1 n2 k where "post_write V x ptr None len off n = Inr ((Ok, 0), n1)"
    "poll_one_completion V x True n1 = Some ((False, k), n2)" "outstanding n2 = []"
    "lbuf n2 = lbuf n" "snd (settled n2) = write_rem (snd (settled n)) ptr (take len (drop off (lbuf n)))"
proof -
  have "WR_RDMA_WRITE \<noteq> WR_SEND" by simp
  from sync_simple [OF x this q b r] show ?thesis
    using that unfolding apply_write [OF x b] post_write_def by (metis fst_conv snd_conv)
qed

text \<open>The same with a message that is first copied to the start of the buffer.\<close>

lemma write_msg_sync:
  assumes x: "connected x" and q: "outstanding n = []" and b: "length m \<le> length (lbuf n)" "length (lbuf n) < 2 ^ 32"
    and r: "registered ptr (length m)"
  obtains n1 n2 k where "post_write V x ptr (Some m) (length m) 0 n = Inr ((Ok, 0), n1)"
    "poll_one_completion V x True n1 = Some ((False, k), n2)" "outstanding n2 = []"
    "lbuf n2 = put_bytes 0 m (lbuf n)" "snd (settled n2) = write_rem (snd (settled n)) ptr m"
proof -
  let ?n = "n\<lparr>lbuf := put_bytes 0 m (lbuf n)\<rparr>"
  have c: "outstanding ?n = []" "settled ?n = (put_bytes 0 m (lbuf n), snd (settled n))" using cpu_write [OF q] by simp_all
  have l: "length (lbuf ?n) = length (lbuf n)" using b by (simp add: put_bytes_length)
  have "0 + length m \<le> length (lbuf ?n)" "length (lbuf ?n) < 2 ^ 32" using b l by simp_all
  from write_sync [OF x c(1) this r] obtain n1 n2 k where w: "post_write V x ptr None (length m) 0 ?n = Inr ((Ok, 0), n1)"
    "poll_one_completion V x True n1 = Some ((False, k), n2)" "outstanding n2 = []" "lbuf n2 = lbuf ?n"
    "snd (settled n2) = write_rem (snd (settled ?n)) ptr (take (length m) (drop 0 (lbuf ?n)))" by blast
  have "post_write V x ptr (Some m) (length m) 0 n = post_write V x ptr None (length m) 0 ?n"
    using b by (simp add: post_write_def post_send_helper_ptr_def post_send_helper_def buf_copy_def)
  with w c(2) show ?thesis by (intro that [of n1 k n2]) (simp_all add: put_bytes_def)
qed

text \<open>A chain of requests with one completion.\<close>

lemma batch_sync:
  assumes x: "connected x" and q: "outstanding n = []" and s: "last_signaled wrs" and l: "length wrs \<le> MAX_QP_DEPTH"
    and ok: "list_all (wr_ok base registered x (length (lbuf n))) wrs"
  obtains n1 n2 k where "ibv_post_send V (rc_qp x) wrs n = (0, n1)"
    "poll_one_completion V x True n1 = Some ((False, k), n2)" "outstanding n2 = []"
    "settled n2 = fold (apply_wr base) wrs (lbuf n, snd (settled n))" "lbuf n2 = fst (settled n2)"
    "length (lbuf n2) = length (lbuf n)"
proof -
  have "compatible base (rc_qp x) wrs (outstanding n)" "length (outstanding n) + length wrs \<le> MAX_QP_DEPTH"
    using q l by (simp_all add: compatible_def)
  from post_ok [OF x s ok this] obtain n1 where n1: "ibv_post_send V (rc_qp x) wrs n = (0, n1)"
    "outstanding n1 = map (Pair (rc_qp x)) wrs" "settled n1 = fold (apply_wr base) wrs (settled n)"
    "length (lbuf n1) = length (lbuf n)" using q by auto
  have "(rc_qp x, last wrs) \<in> set (outstanding n1)" using s n1(2) by (simp add: last_signaled_def)
  moreover have "signaled (last wrs)" using s by (simp add: last_signaled_def)
  ultimately obtain k n2 where p: "poll_one_completion V x True n1 = Some ((False, k), n2)"
    "outstanding n2 = complete (rc_qp x) (outstanding n1)" "settled n2 = settled n1" "length (lbuf n2) = length (lbuf n1)"
    by (rule poll_one [OF x])
  have c: "complete a (map (Pair a) (ws @ [w])) = []" if "list_all (\<lambda>w. \<not> signaled w) ws" "signaled w" for a ws w
    using that by (induction ws) auto
  have "complete (rc_qp x) (outstanding n1) = []"
    using c [of "butlast wrs" "last wrs"] s unfolding n1(2) last_signaled_def by simp
  moreover have "settled n = (lbuf n, snd (settled n))" using quiet_buffer [OF q] by (metis prod.collapse)
  ultimately show ?thesis using n1 p quiet_buffer [of n2] by (intro that [of n1 k n2]) simp_all
qed

text \<open>Two reads into disjoint parts of the buffer, on one queue pair or on two, then two polls.\<close>

lemma read_two_sync:
  assumes x: "connected x" "connected y" and q: "outstanding n = []"
    and b: "off + len \<le> length (lbuf n)" "len' \<le> off" "length (lbuf n) < 2 ^ 32"
    and r: "registered ptr len" "registered ptr' len'"
  obtains n1 n2 n3 n4 k k' where "post_read V x ptr len off n = Inr ((Ok, 0), n1)" "post_read V y ptr' len' 0 n1 = Inr ((Ok, 0), n2)"
    "poll_one_completion V x True n2 = Some ((False, k), n3)" "poll_one_completion V y True n3 = Some ((False, k'), n4)"
    "outstanding n4 = []" "snd (settled n4) = snd (settled n)" "length (lbuf n4) = length (lbuf n)"
    "lbuf n4 = put_bytes 0 (read_rem (snd (settled n)) ptr' len') (put_bytes off (read_rem (snd (settled n)) ptr len) (lbuf n))"
proof -
  let ?r = "simple_request x WR_RDMA_READ ptr len off" and ?l = "simple_request y WR_RDMA_READ ptr' len' 0"
  have op: "WR_RDMA_READ \<noteq> WR_SEND" by simp
  have c: "compatible base (rc_qp x) [?r] (outstanding n)" "length (outstanding n) < MAX_QP_DEPTH"
    by (simp_all add: compatible_def q MAX_QP_DEPTH_def)
  obtain n1 where n1: "post_send_helper_ptr V x ptr None len WR_RDMA_READ off n = Inr ((Ok, 0), n1)" "outstanding n1 = [(rc_qp x, ?r)]"
    "settled n1 = apply_wr base ?r (settled n)" "length (lbuf n1) = length (lbuf n)"
    using post_simple [OF x(1) op b(1,3) r(1) c] q by auto
  have b': "0 + len' \<le> length (lbuf n1)" "length (lbuf n1) < 2 ^ 32" using b n1(4) by simp_all
  note f = simple_request_fields [OF buffer_at [OF x(1)] b(1,3), of WR_RDMA_READ ptr]
    simple_request_fields [OF buffer_at [OF x(2)] b', of WR_RDMA_READ ptr']
  have o: "wr_opcode ?r = WR_RDMA_READ" "wr_opcode ?l = WR_RDMA_READ" "signaled ?r" "signaled ?l" by (simp_all add: simple_request_def)
  have c': "compatible base (rc_qp y) [?l] (outstanding n1)" "length (outstanding n1) < MAX_QP_DEPTH"
    using b(2) f o by (simp_all add: compatible_def n1(2) MAX_QP_DEPTH_def)
  obtain n2 where n2: "post_send_helper_ptr V y ptr' None len' WR_RDMA_READ 0 n1 = Inr ((Ok, 0), n2)"
    "outstanding n2 = [(rc_qp x, ?r), (rc_qp y, ?l)]"
    "settled n2 = apply_wr base ?l (settled n1)" "length (lbuf n2) = length (lbuf n1)"
    using post_simple [OF x(2) op b' r(2) c'] n1(2) by auto
  have cx: "complete (rc_qp x) (outstanding n2) = [(rc_qp y, ?l)]" by (simp add: n2(2) o)
  have i: "(rc_qp x, ?r) \<in> set (outstanding n2)" by (simp add: n2(2))
  obtain k n3 where n3: "poll_one_completion V x True n2 = Some ((False, k), n3)" "outstanding n3 = [(rc_qp y, ?l)]"
    "settled n3 = settled n2" "length (lbuf n3) = length (lbuf n2)"
    using poll_one [OF x(1) i o(3)] cx by metis
  have cy: "complete (rc_qp y) (outstanding n3) = []" by (simp add: n3(2) o)
  have j: "(rc_qp y, ?l) \<in> set (outstanding n3)" by (simp add: n3(2))
  obtain k' n4 where n4: "poll_one_completion V y True n3 = Some ((False, k'), n4)" "outstanding n4 = []"
    "settled n4 = settled n3" "length (lbuf n4) = length (lbuf n3)"
    using poll_one [OF x(2) j o(4)] cy by metis
  have s: "settled n = (lbuf n, snd (settled n))" using quiet_buffer [OF q] by (metis prod.collapse)
  have "settled n1 = (put_bytes off (read_rem (snd (settled n)) ptr len) (lbuf n), snd (settled n))"
    unfolding n1(3) by (subst s) (rule apply_read [OF x(1) b(1,3)])
  then have "settled n4 = (put_bytes 0 (read_rem (snd (settled n)) ptr' len')
      (put_bytes off (read_rem (snd (settled n)) ptr len) (lbuf n)), snd (settled n))"
    unfolding n4(3) n3(3) n2(3) using apply_read [OF x(2) b'] by simp
  with quiet_buffer [OF n4(2)] show ?thesis
    using n1 n2 n3 n4 by (intro that [of n1 n2 k n3 k' n4]) (simp_all add: post_read_def)
qed

end

end
