(* ===== verification/RdmaProps.thy ===== *)
theory RdmaProps
  imports RdmaFabric
begin

text \<open>
  Properties of connecting and polling: certificates survive the exchange, a queue pair is made
  ready by the three changes of state that the library asks for (locale \<open>qp_machine\<close>), and the polling loops return exactly when the
  library ever answers.
\<close>

subsection \<open>Byte orders\<close>

lemma swap_bytes:
  fixes x :: "'l::len word"
  assumes "256 ^ n = (2::nat) ^ LENGTH('l)"
  shows "(of_nat (le_val (rev (le_bytes n (unat (of_nat (le_val (rev (le_bytes n (unat x)))) :: 'l word))))) :: 'l word) = x"
proof -
  let ?b = "rev (le_bytes n (unat x))"
  have "le_val ?b < 2 ^ LENGTH('l)" using le_val_bound [of ?b] assms by simp
  then have "unat (of_nat (le_val ?b) :: 'l word) = le_val ?b" by (simp add: unat_of_nat)
  then have "le_bytes n (unat (of_nat (le_val ?b) :: 'l word)) = ?b" by (simp add: le_bytes_le_val)
  moreover have "unat x < 256 ^ n" using unsigned_less [of x] assms by simp
  ultimately show ?thesis by (simp add: le_val_le_bytes)
qed

lemma byte_orders [simp]:
  "ntohll (htonll a) = a" "ntohl (htonl b) = b" "ntohs (htons c) = c"
  using swap_bytes [of 8 a] swap_bytes [of 4 b] swap_bytes [of 2 c]
  by (simp_all add: ntohll_def htonll_def bswap_64_def ntohl_def htonl_def ntohs_def htons_def)

lemma of_nat_le_val_le_bytes:
  fixes x :: "'l::len word"
  assumes "256 ^ n = (2::nat) ^ LENGTH('l)"
  shows "(of_nat (le_val (le_bytes n (unat x))) :: 'l word) = x"
proof -
  have "unat x < 256 ^ n" using unsigned_less [of x] assms by simp
  then show ?thesis by (simp add: le_val_le_bytes)
qed

lemma cert_of_bytes:
  assumes "length (c_gid c) = 16"
  shows "cert_of (cert_bytes c) = c" "length (cert_bytes c) = sizeof_certificate"
  using assms of_nat_le_val_le_bytes [of 8 "c_addr c"] of_nat_le_val_le_bytes [of 4 "c_rkey c"]
    of_nat_le_val_le_bytes [of 4 "c_qp_num c"] of_nat_le_val_le_bytes [of 2 "c_lid c"]
  by (simp_all add: cert_of_def cert_bytes_def sizeof_certificate_def)

lemma cert_received_message:
  assumes "length (c_gid c) = 16"
  shows "cert_received (cert_message c) = c" "length (cert_message c) = sizeof_certificate"
  using assms by (simp_all add: cert_received_def cert_message_def cert_of_bytes)

subsection \<open>Connecting\<close>

text \<open>C23: two nodes that exchange certificates over a socket each end up with the other's: when the
  socket takes all bytes and delivers those the peer wrote, the remote certificate becomes the
  peer's, field for field through network byte order and the packed layout; a short write or a
  short read is reported as such and changes nothing.\<close>

theorem certificates_exchanged:
  assumes "sock_write V sock (cert_message (local_cert x)) n = (sent, n1)"
    and "sock_read V sock sizeof_certificate n1 = (got, cert_message (local_cert peer), n2)"
    and "length (c_gid (local_cert peer)) = 16"
  shows "exchange_certificate V sock x n =
    (if sent \<noteq> 34 then ((WriteError, x), n1)
     else if got \<noteq> 34 then ((ReadError, x), n2)
     else ((Ok, x\<lparr>remote_cert := local_cert peer\<rparr>), n2))"
  using assms by (simp add: exchange_certificate_def cert_received_message sizeof_certificate_def)

text \<open>Contexts for the witnesses.\<close>

definition some_context :: rdma_context where
  "some_context = \<lparr>rc_out_cq = 1, rc_in_cq = 2, rc_lkey = 3, rc_qp = 1,
     local_cert = \<lparr>c_addr = 0x0102030405060708, c_rkey = 9, c_qp_num = 10, c_lid = 11, c_gid = replicate 16 12\<rparr>,
     remote_cert = zero_cert, rc_buf = sim_base\<rparr>"

definition some_net :: "sim net" where
  "some_net = \<lparr>lbuf = replicate 4096 0, wire = \<lparr>sim_mem = (\<lambda>_. 0), sim_out = []\<rparr>\<rparr>"

lemma certificates_exchanged_witness:
  "exchange_certificate (sim_verbs\<lparr>sock_read := (\<lambda>s l n. (int l, cert_message (local_cert some_context), n))\<rparr>) 7
     (some_context\<lparr>local_cert := zero_cert\<rparr>) some_net =
   ((Ok, some_context\<lparr>local_cert := zero_cert, remote_cert := local_cert some_context\<rparr>), some_net)"
  by (subst certificates_exchanged [where peer = some_context and sent = 34 and got = 34 and ?n1.0 = some_net and ?n2.0 = some_net])
    (simp_all add: sim_verbs_def some_context_def zero_cert_def sizeof_certificate_def cert_message_def cert_bytes_def)

subsection \<open>Queue pairs as the library keeps them\<close>

text \<open>What \<open>libibverbs\<close> documents of \<open>ibv_modify_qp\<close> for a reliable connection: from reset a queue pair
  goes to \<open>INIT\<close>, \<open>RTR\<close> and \<open>RTS\<close>, each with its own set of attributes, and not back to \<open>INIT\<close>.  The
  history of a queue pair is the list of the attributes accepted, and the sockets do not change it.\<close>

fun next_state :: "qp_attr list \<Rightarrow> qp_state option" where
  "next_state [] = Some QPS_INIT"
| "next_state (a # as) =
     (case qp_state (last (a # as)) of QPS_INIT \<Rightarrow> Some QPS_RTR | QPS_RTR \<Rightarrow> Some QPS_RTS | QPS_RTS \<Rightarrow> None)"

fun required :: "verbs_consts \<Rightarrow> qp_state \<Rightarrow> nat" where
  "required K QPS_INIT = MASK_STATE K OR MASK_PKEY_INDEX K OR MASK_PORT K OR MASK_ACCESS_FLAGS K"
| "required K QPS_RTR = MASK_STATE K OR MASK_AV K OR MASK_PATH_MTU K OR MASK_DEST_QPN K OR MASK_RQ_PSN K OR
     MASK_MAX_DEST_RD_ATOMIC K OR MASK_MIN_RNR_TIMER K"
| "required K QPS_RTS = MASK_STATE K OR MASK_TIMEOUT K OR MASK_RETRY_CNT K OR MASK_RNR_RETRY K OR MASK_SQ_PSN K OR
     MASK_MAX_QP_RD_ATOMIC K"

locale qp_machine =
  fixes V :: "'w verbs" and K :: verbs_consts and hist :: "'w net \<Rightarrow> nat \<Rightarrow> qp_attr list"
  assumes accepts: "next_state (hist w q) = Some (qp_state a) \<Longrightarrow>
      \<exists>w'. ibv_modify_qp V q a (required K (qp_state a)) w = (0, w') \<and> hist w' q = hist w q @ [a]"
    and refuses: "next_state (hist w q) \<noteq> Some QPS_INIT \<Longrightarrow> next_state (hist w q) \<noteq> Some QPS_RTR \<Longrightarrow> qp_state a = QPS_INIT \<Longrightarrow>
      ibv_modify_qp V q a m w = (e, w') \<Longrightarrow> e \<noteq> 0 \<and> hist w' q = hist w q"
    and sockets: "sock_write V k b w = (i, w1) \<Longrightarrow> hist w1 = hist w" "sock_read V k l w = (j, bs, w2) \<Longrightarrow> hist w2 = hist w"
begin

lemma attr_states:
  "qp_state (get_default_qp_init_state_attr C p) = QPS_INIT" "qp_state (get_default_qp_rtr_attr C r p g) = QPS_RTR"
  "qp_state get_default_qp_rts_attr = QPS_RTS"
  by (simp_all add: get_default_qp_init_state_attr_def get_default_qp_rtr_attr_def get_default_qp_rts_attr_def zero_attr_def Let_def)

lemma masks:
  "get_default_qp_init_state_attr_mask K = required K QPS_INIT" "get_default_qp_rtr_attr_mask K = required K QPS_RTR"
  "get_default_qp_rts_attr_mask K = required K QPS_RTS"
  by (simp_all add: get_default_qp_init_state_attr_mask_def get_default_qp_rtr_attr_mask_def get_default_qp_rts_attr_mask_def)

text \<open>A queue pair in the reset state is ready after the three changes.\<close>

lemma ready_from_reset:
  assumes "hist w (rc_qp x) = []"
  obtains w' where "default_get_qp_ready V K d x w = (0, w')"
    "hist w' (rc_qp x) = [get_default_qp_init_state_attr K 1,
       get_default_qp_rtr_attr K (remote_cert x) (ib_port d) (gid_idx d), get_default_qp_rts_attr]"
proof -
  let ?a = "get_default_qp_init_state_attr K 1" and ?c = "get_default_qp_rts_attr"
  let ?b = "get_default_qp_rtr_attr K (remote_cert x) (ib_port d) (gid_idx d)"
  obtain w1 where 1: "ibv_modify_qp V (rc_qp x) ?a (required K QPS_INIT) w = (0, w1)" "hist w1 (rc_qp x) = [?a]"
    using accepts [of w "rc_qp x" ?a] assms by (auto simp: attr_states)
  obtain w2 where 2: "ibv_modify_qp V (rc_qp x) ?b (required K QPS_RTR) w1 = (0, w2)" "hist w2 (rc_qp x) = [?a, ?b]"
    using accepts [of w1 "rc_qp x" ?b] 1(2) by (auto simp: attr_states)
  obtain w3 where 3: "ibv_modify_qp V (rc_qp x) ?c (required K QPS_RTS) w2 = (0, w3)" "hist w3 (rc_qp x) = [?a, ?b, ?c]"
    using accepts [of w2 "rc_qp x" ?c] 2(2) by (auto simp: attr_states)
  have "default_get_qp_ready V K d x w = (0, w3)"
    using 1(1) 2(1) 3(1) by (simp add: default_get_qp_ready_def modify_qp_def masks)
  then show ?thesis using 3(2) by (rule that)
qed

text \<open>A queue pair that is past \<open>INIT\<close> stays as it is, and an error is returned.\<close>

lemma ready_only_once:
  assumes "next_state (hist w (rc_qp x)) \<noteq> Some QPS_INIT" "next_state (hist w (rc_qp x)) \<noteq> Some QPS_RTR"
  obtains e w' where "default_get_qp_ready V K d x w = (e, w')" "e \<noteq> 0" "hist w' (rc_qp x) = hist w (rc_qp x)"
proof -
  obtain e w' where m: "ibv_modify_qp V (rc_qp x) (get_default_qp_init_state_attr K 1) (get_default_qp_init_state_attr_mask K) w = (e, w')"
    by fastforce
  from refuses [OF assms attr_states(1) m] have e: "e \<noteq> 0" "hist w' (rc_qp x) = hist w (rc_qp x)" by simp_all
  then have "default_get_qp_ready V K d x w = (e, w')" using m by (simp add: default_get_qp_ready_def modify_qp_def)
  then show ?thesis using e by (rule that)
qed

lemma exchange_keeps:
  assumes "exchange_certificate V k x w = ((s, x'), w')"
  shows "hist w' = hist w" "rc_qp x' = rc_qp x"
  using assms sockets by (auto simp: exchange_certificate_def split: if_splits prod.splits)

end

text \<open>A library that keeps the histories itself, over sockets that lead to a peer with certificate \<open>c\<close>.\<close>

definition hist_modify :: "verbs_consts \<Rightarrow> nat \<Rightarrow> qp_attr \<Rightarrow> nat \<Rightarrow> (nat \<Rightarrow> qp_attr list) net \<Rightarrow> int \<times> (nat \<Rightarrow> qp_attr list) net" where
  "hist_modify K q a m w =
     (if next_state (wire w q) = Some (qp_state a) \<and> m = required K (qp_state a)
      then (0, w\<lparr>wire := (wire w)(q := wire w q @ [a])\<rparr>) else (22, w))"

definition hist_verbs :: "verbs_consts \<Rightarrow> certificate \<Rightarrow> (nat \<Rightarrow> qp_attr list) verbs" where
  "hist_verbs K c =
     \<lparr>ibv_post_send = (\<lambda>q s n. (0, n)), ibv_post_recv = (\<lambda>q s n. (0, n)), ibv_poll_cq = (\<lambda>c k n. (0, n)),
      ibv_modify_qp = hist_modify K, sock_write = (\<lambda>s b n. (int (length b), n)),
      sock_read = (\<lambda>s l n. (int l, take l (cert_message c), n)), ibv_alloc_pd = (\<lambda>n. (Some 0, n)),
      ibv_create_cq = (\<lambda>c n. (Some 0, n)), ibv_reg_mr = (\<lambda>p b s a n. (Some (0, 0), n)),
      ibv_create_qp = (\<lambda>p s r a n. (Some (0, 0), n)), ibv_query_gid = (\<lambda>p i n. (0, replicate 16 0)),
      ibv_query_port = (\<lambda>p n. (0, 0)), ibv_get_device_list = (\<lambda>n. Some [''sim'']), ibv_open_device = (\<lambda>i n. True)\<rparr>"

interpretation kept: qp_machine "hist_verbs K c" K wire for K c
  by unfold_locales (auto simp: hist_verbs_def hist_modify_def split: if_splits)

text \<open>C24: connecting drives a fresh queue pair through \<open>INIT\<close>, \<open>RTR\<close> and \<open>RTS\<close> in the order and with
  the attributes that the library asks for, and addresses it to the queue pair named in the
  certificate just received: over a library that accepts the documented changes, and sockets that
  deliver the peer's certificate, \<open>0\<close> is returned, remote reads and writes are allowed, and the change
  to \<open>RTR\<close> names the peer's queue pair, with its global address where the device has one and with
  its local address and the device's port otherwise.  Connecting the same queue pair again fails
  and leaves it as it is.\<close>

theorem connect_makes_ready:
  assumes "qp_machine V K hist" "hist w (rc_qp x) = []"
    and "sock_write V k (cert_message (local_cert x)) w = (34, w1)"
    and "sock_read V k sizeof_certificate w1 = (34, cert_message peer, w2)" "length (c_gid peer) = 16"
  shows "\<exists>w' a b c. default_connect V K d k x w = ((0, x\<lparr>remote_cert := peer\<rparr>), w') \<and> hist w' (rc_qp x) = [a, b, c] \<and>
    map qp_state [a, b, c] = [QPS_INIT, QPS_RTR, QPS_RTS] \<and>
    qp_access_flags a = (ACCESS_LOCAL_WRITE K OR ACCESS_REMOTE_READ K OR ACCESS_REMOTE_WRITE K) \<and> port_num a = 1 \<and>
    dest_qp_num b = c_qp_num peer \<and> ah_dlid b = c_lid peer \<and>
    (if 0 \<le> gid_idx d then ah_is_global b \<and> ah_dgid b = c_gid peer \<and> ah_sgid_index b = gid_idx d \<and> ah_port_num b = 1
     else \<not> ah_is_global b \<and> ah_port_num b = ib_port d) \<and>
    (\<forall>k'. fst (fst (default_connect V K d k' (x\<lparr>remote_cert := peer\<rparr>) w')) \<noteq> 0 \<and>
       hist (snd (default_connect V K d k' (x\<lparr>remote_cert := peer\<rparr>) w')) (rc_qp x) = [a, b, c])"
proof -
  let ?x = "x\<lparr>remote_cert := peer\<rparr>"
  let ?a = "get_default_qp_init_state_attr K 1" and ?b = "get_default_qp_rtr_attr K peer (ib_port d) (gid_idx d)" and ?c = get_default_qp_rts_attr
  let ?h = "[?a, ?b, ?c]"
  have ex: "exchange_certificate V k x w = ((Ok, ?x), w2)"
    using assms(3-5) by (simp add: exchange_certificate_def cert_received_message sizeof_certificate_def)
  have "hist w2 (rc_qp ?x) = []" using qp_machine.exchange_keeps [OF assms(1) ex] assms(2) by simp
  then obtain w' where r: "default_get_qp_ready V K d ?x w2 = (0, w')" "hist w' (rc_qp ?x) = ?h"
    using qp_machine.ready_from_reset [OF assms(1), of w2 ?x d] by auto
  have c: "default_connect V K d k x w = ((0, ?x), w')" using ex r(1) by (simp add: default_connect_def)
  have "fst (fst (default_connect V K d k' ?x w')) \<noteq> 0 \<and> hist (snd (default_connect V K d k' ?x w')) (rc_qp x) = ?h" for k'
  proof -
    obtain s x' w'' where e: "exchange_certificate V k' ?x w' = ((s, x'), w'')" by (metis surj_pair)
    note kp = qp_machine.exchange_keeps [OF assms(1) e]
    have "next_state (hist w'' (rc_qp x')) = None"
      using kp r(2) qp_machine.attr_states(3) [OF assms(1)] by simp
    then obtain e w3 where "default_get_qp_ready V K d x' w'' = (e, w3)" "e \<noteq> 0" "hist w3 (rc_qp x') = hist w'' (rc_qp x')"
      using qp_machine.ready_only_once [OF assms(1), of w'' x' d] by auto
    with kp r(2) show ?thesis by (auto simp: default_connect_def e)
  qed
  moreover have "qp_access_flags ?a = (ACCESS_LOCAL_WRITE K OR ACCESS_REMOTE_READ K OR ACCESS_REMOTE_WRITE K) \<and> port_num ?a = 1 \<and>
      dest_qp_num ?b = c_qp_num peer \<and> ah_dlid ?b = c_lid peer \<and>
      (if 0 \<le> gid_idx d then ah_is_global ?b \<and> ah_dgid ?b = c_gid peer \<and> ah_sgid_index ?b = gid_idx d \<and> ah_port_num ?b = 1
       else \<not> ah_is_global ?b \<and> ah_port_num ?b = ib_port d)"
    by (simp add: get_default_qp_init_state_attr_def get_default_qp_rtr_attr_def zero_attr_def Let_def)
  ultimately show ?thesis
    using c r(2) qp_machine.attr_states [OF assms(1)]
    by (intro exI [of _ w'] exI [of _ ?a] exI [of _ ?b] exI [of _ ?c]) simp
qed

lemma connect_makes_ready_witness:
  "\<forall>K. \<exists>w' a b c. default_connect (hist_verbs K (local_cert some_context)) K \<lparr>dev_name = ''sim'', dev_index = 0, ib_port = 2, gid_idx = - 1\<rparr> 7
       (some_context\<lparr>local_cert := zero_cert\<rparr>) \<lparr>lbuf = [], wire = (\<lambda>_. [])\<rparr> =
     ((0, some_context\<lparr>local_cert := zero_cert, remote_cert := local_cert some_context\<rparr>), w') \<and>
     wire w' 1 = [a, b, c] \<and> dest_qp_num b = 10 \<and> ah_dlid b = 11 \<and> ah_port_num b = 2"
proof
  fix K
  let ?V = "hist_verbs K (local_cert some_context)" and ?w = "\<lparr>lbuf = [], wire = (\<lambda>_. [])\<rparr> :: (nat \<Rightarrow> qp_attr list) net"
  have s: "sock_write ?V 7 (cert_message (local_cert (some_context\<lparr>local_cert := zero_cert\<rparr>))) ?w = (34, ?w)"
    "sock_read ?V 7 sizeof_certificate ?w = (34, cert_message (local_cert some_context), ?w)"
    by (simp_all add: hist_verbs_def some_context_def zero_cert_def sizeof_certificate_def cert_message_def cert_bytes_def)
  have g: "length (c_gid (local_cert some_context)) = 16" by (simp add: some_context_def)
  from connect_makes_ready [OF kept.qp_machine_axioms _ s g, of "\<lparr>dev_name = ''sim'', dev_index = 0, ib_port = 2, gid_idx = - 1\<rparr>"]
  show "\<exists>w' a b c. default_connect ?V K \<lparr>dev_name = ''sim'', dev_index = 0, ib_port = 2, gid_idx = - 1\<rparr> 7
       (some_context\<lparr>local_cert := zero_cert\<rparr>) ?w =
     ((0, some_context\<lparr>local_cert := zero_cert, remote_cert := local_cert some_context\<rparr>), w') \<and>
     wire w' 1 = [a, b, c] \<and> dest_qp_num b = 10 \<and> ah_dlid b = 11 \<and> ah_port_num b = 2"
    by (auto simp: some_context_def)
qed

subsection \<open>Polling\<close>

text \<open>The network after \<open>i\<close> polls, and what poll \<open>i\<close> answered.\<close>

fun polled :: "'w verbs \<Rightarrow> nat \<Rightarrow> nat \<Rightarrow> 'w net \<Rightarrow> nat \<Rightarrow> 'w net" where
  "polled V cq no n 0 = n"
| "polled V cq no n (Suc i) = polled V cq no (snd (ibv_poll_cq V cq no n)) i"

definition poll_answer :: "'w verbs \<Rightarrow> nat \<Rightarrow> nat \<Rightarrow> 'w net \<Rightarrow> nat \<Rightarrow> int" where
  "poll_answer V cq no n i = fst (ibv_poll_cq V cq no (polled V cq no n i))"

lemma poll_answer_Suc: "poll_answer V cq no n (Suc i) = poll_answer V cq no (snd (ibv_poll_cq V cq no n)) i"
  by (simp add: poll_answer_def)

lemma poll_until_returns:
  "poll_answer V cq no n i \<noteq> 0 \<Longrightarrow> \<forall>j<i. poll_answer V cq no n j = 0 \<Longrightarrow>
   poll_until V cq no n = Some (poll_answer V cq no n i, polled V cq no n (Suc i))"
proof (induction i arbitrary: n)
  case 0
  then show ?case by (subst poll_until.simps) (auto simp: poll_answer_def split: prod.split)
next
  case (Suc i)
  let ?n = "snd (ibv_poll_cq V cq no n)"
  have z: "fst (ibv_poll_cq V cq no n) = 0" using Suc.prems(2) by (force simp: poll_answer_def)
  have "\<forall>j<i. poll_answer V cq no ?n j = 0" using Suc.prems(2) by (auto simp: poll_answer_Suc [symmetric])
  with Suc.IH [of ?n] Suc.prems(1)
  have "poll_until V cq no ?n = Some (poll_answer V cq no n (Suc i), polled V cq no n (Suc (Suc i)))"
    by (simp add: poll_answer_Suc)
  with z show ?case by (subst poll_until.simps) (simp add: case_prod_beta)
qed

lemma poll_until_some:
  assumes "poll_until V cq no n = Some r"
  shows "\<exists>i. poll_answer V cq no n i \<noteq> 0"
proof (rule poll_until.raw_induct [of "\<lambda>V cq no n r. \<exists>i. poll_answer V cq no n i \<noteq> 0", OF _ assms])
  fix f :: "'a verbs \<Rightarrow> nat \<Rightarrow> nat \<Rightarrow> 'a net \<Rightarrow> (int \<times> 'a net) option" and V cq no n r
  assume ih: "\<And>V cq no n r. f V cq no n = Some r \<Longrightarrow> \<exists>i. poll_answer V cq no n i \<noteq> 0"
    and r: "(case ibv_poll_cq V cq no n of (ret, n') \<Rightarrow> if ret = 0 then f V cq no n' else Some (ret, n')) = Some r"
  obtain ret n' where p: "ibv_poll_cq V cq no n = (ret, n')" by fastforce
  show "\<exists>i. poll_answer V cq no n i \<noteq> 0"
  proof (cases "ret = 0")
    case True
    with r p have "f V cq no n' = Some r" by simp
    then obtain i where "poll_answer V cq no n' i \<noteq> 0" using ih by blast
    then have "poll_answer V cq no n (Suc i) \<noteq> 0" by (simp add: poll_answer_Suc p)
    then show ?thesis by blast
  next
    case False
    then have "poll_answer V cq no n 0 \<noteq> 0" by (simp add: poll_answer_def p)
    then show ?thesis by blast
  qed
qed

text \<open>The first place at which a sequence is not zero.\<close>

definition first_nonzero :: "(nat \<Rightarrow> int) \<Rightarrow> nat option" where
  "first_nonzero f = (if \<exists>i. f i \<noteq> 0 then Some (LEAST i. f i \<noteq> 0) else None)"

lemma poll_until_eq:
  "poll_until V cq no n =
    map_option (\<lambda>i. (poll_answer V cq no n i, polled V cq no n (Suc i))) (first_nonzero (poll_answer V cq no n))"
proof (cases "\<exists>i. poll_answer V cq no n i \<noteq> 0")
  case True
  let ?i = "LEAST i. poll_answer V cq no n i \<noteq> 0"
  have "poll_answer V cq no n ?i \<noteq> 0" using True by (rule LeastI_ex)
  moreover have "\<forall>j<?i. poll_answer V cq no n j = 0" by (auto dest: not_less_Least)
  ultimately have "poll_until V cq no n = Some (poll_answer V cq no n ?i, polled V cq no n (Suc ?i))"
    by (rule poll_until_returns)
  moreover have "first_nonzero (poll_answer V cq no n) = Some ?i" using True by (simp only: first_nonzero_def if_True)
  ultimately show ?thesis by (simp only: option.map)
next
  case False
  then have "poll_until V cq no n = None" using poll_until_some [of V cq no n] by (cases "poll_until V cq no n") auto
  with False show ?thesis by (simp add: first_nonzero_def)
qed

text \<open>C25: polling for completions returns exactly when the library ever answers with anything but
  zero; it then returns the first such answer, has done the polls up to it and no more, and
  reports a failure exactly when that answer is negative.  If all answers are zero it does not
  return.  Polling for one completion is the case of one.\<close>

theorem polling_returns_iff_answered:
  "poll_multiple_completions V x no send n =
    (let cq = if send then rc_out_cq x else rc_in_cq x
     in map_option (\<lambda>i. ((poll_answer V cq no n i < 0, poll_answer V cq no n i), polled V cq no n (Suc i)))
          (first_nonzero (poll_answer V cq no n))) \<and>
   poll_one_completion V x send n = poll_multiple_completions V x 1 send n"
proof -
  define cq where "cq = (if send then rc_out_cq x else rc_in_cq x)"
  have "poll_answer V cq no n i \<noteq> 0" if "first_nonzero (poll_answer V cq no n) = Some i" for i
    using that LeastI_ex [of "\<lambda>i. poll_answer V cq no n i \<noteq> 0"] by (auto simp: first_nonzero_def split: if_splits)
  then have sign: "(0 < poll_answer V cq no n i) = (\<not> poll_answer V cq no n i < 0)"
    if "first_nonzero (poll_answer V cq no n) = Some i" for i
    using that by (meson linorder_neqE order.asym)
  have m: "poll_multiple_completions V x no send n =
      map_option (\<lambda>i. ((poll_answer V cq no n i < 0, poll_answer V cq no n i), polled V cq no n (Suc i)))
        (first_nonzero (poll_answer V cq no n))"
  proof (cases "first_nonzero (poll_answer V cq no n)")
    case (Some i)
    then show ?thesis using sign [OF Some]
      by (simp add: poll_multiple_completions_def poll_until_eq cq_def [symmetric] del: polled.simps)
  qed (simp add: poll_multiple_completions_def poll_until_eq cq_def [symmetric])
  have "poll_one_completion V x send n = poll_multiple_completions V x 1 send n"
    by (simp only: poll_one_completion_def poll_multiple_completions_def)
  with m show ?thesis unfolding cq_def Let_def by (rule conjI)
qed

end
