(* ===== verification/RemoteMemory.thy ===== *)
theory RemoteMemory
  imports SkipList PageAllocator RdmaFabric
begin

text \<open>
  \<open>RemoteMemoryManager\<close> of \<open>components/memory/compute_node/compute_node.hpp\<close> and \<open>.cpp\<close>: the
  memory nodes, the RDMA contexts of each thread, reads and writes of remote memory, and requests
  for segments; with the choice of an RPC connection from \<open>components/erpc_wrapper/\<close>.  The RPC
  library is a parameter: what a request to a node is answered with, if it is.
\<close>

subsection \<open>RPC connections\<close>

record rpc_info =
  self_id :: int
  info_node_id :: int
  remote_id :: int
  session :: int

fun select_info :: "rpc_info list \<Rightarrow> int \<Rightarrow> int \<Rightarrow> int \<Rightarrow> rpc_info option" where
  "select_info [] n r s = None"
| "select_info (i # is) n r s =
     (if info_node_id i = n \<and> remote_id i = r \<and> session i = s then Some i else select_info is n r s)"

fun select_first_info :: "rpc_info list \<Rightarrow> int \<Rightarrow> rpc_info option" where
  "select_first_info [] n = None"
| "select_first_info (i # is) n = (if info_node_id i = n then Some i else select_first_info is n)"

fun selecnt_all_info :: "rpc_info list \<Rightarrow> int \<Rightarrow> rpc_info list" where
  "selecnt_all_info [] n = []"
| "selecnt_all_info (i # is) n = (if info_node_id i = n then i # selecnt_all_info is n else selecnt_all_info is n)"

text \<open>A new endpoint has the next id and stands last in the table.\<close>

definition client_new_rpc :: "int \<Rightarrow> int \<Rightarrow> int \<times> rpc_info list \<Rightarrow> rpc_info \<times> int \<times> rpc_info list" where
  "client_new_rpc node_id rpc_id = (\<lambda>(current_id, infos).
     (let info = \<lparr>self_id = current_id, info_node_id = node_id, remote_id = rpc_id, session = - 1\<rparr>
      in (info, current_id + 1, infos @ [info])))"

text \<open>Connecting: the endpoint, then its session from the library, which answers \<open>-1\<close> when it fails;
  \<open>established\<close> is whether the event loop ever sees the session connected.\<close>

definition connect_remote :: "(int \<Rightarrow> int \<Rightarrow> int) \<Rightarrow> (int \<Rightarrow> bool) \<Rightarrow> int \<Rightarrow> int \<Rightarrow> int \<times> rpc_info list \<Rightarrow>
    (bool \<times> int \<times> rpc_info list) option" where
  "connect_remote create_session established node_id rpc_id c =
     (case client_new_rpc node_id rpc_id c of (info, next, infos) \<Rightarrow>
        let s = create_session node_id rpc_id
        in if s = - 1 then Some (False, next, infos)
           else if established s then Some (True, next, infos[length infos - 1 := info\<lparr>session := s\<rparr>]) else None)"

lemma connect_remote_connected:
  "create_session n r \<noteq> - 1 \<Longrightarrow> established (create_session n r) \<Longrightarrow>
   connect_remote create_session established n r (c, is) =
     Some (True, c + 1, is @ [\<lparr>self_id = c, info_node_id = n, remote_id = r, session = create_session n r\<rparr>])"
  by (simp add: connect_remote_def client_new_rpc_def Let_def)

subsection \<open>The manager\<close>

record memory_node =
  mn_node_id :: int
  mn_base :: remote_ptr

record rmm =
  rm_current :: nat
  memory_nodes :: "memory_node list"
  rdma_ctxs :: "nat \<rightharpoonup> rdma_context list"
  parallel_rdma_ctxs :: "nat \<rightharpoonup> rdma_context list"
  rpc_infos :: "rpc_info list"

definition get_base_addr :: "rmm \<Rightarrow> nat \<Rightarrow> remote_ptr res" where
  "get_base_addr m node_id = res_bind (rd (memory_nodes m) node_id) (\<lambda>n. Inr (mn_base n))"

text \<open>A null result, for a thread that is not registered, is \<open>None\<close>.\<close>

definition get_rdma :: "rmm \<Rightarrow> nat \<Rightarrow> remote_ptr \<Rightarrow> rdma_context option res" where
  "get_rdma m tid p =
     (case rdma_ctxs m tid of None \<Rightarrow> Inr None
      | Some xs \<Rightarrow> res_bind (rd xs (get_node p)) (\<lambda>x. Inr (Some x)))"

definition get_parallel_rdma :: "rmm \<Rightarrow> nat \<Rightarrow> remote_ptr \<Rightarrow> rdma_context option res" where
  "get_parallel_rdma m tid p =
     (case parallel_rdma_ctxs m tid of None \<Rightarrow> Inr None
      | Some xs \<Rightarrow> res_bind (rd xs (get_node p)) (\<lambda>x. Inr (Some x)))"

text \<open>A method call through a pointer.\<close>

definition non_null :: "'a option \<Rightarrow> 'a res" where
  "non_null p = (case p of None \<Rightarrow> Inl NullDeref | Some x \<Rightarrow> Inr x)"

text \<open>The verbs' operations as computations on the network.\<close>

definition st_post :: "('w net \<Rightarrow> ('a \<times> 'w net) res) \<Rightarrow> ('w net, 'a) prog" where
  "st_post f w = Some (f w)"

definition st_poll :: "'w verbs \<Rightarrow> rdma_context \<Rightarrow> ('w net, bool \<times> int) prog" where
  "st_poll V x w = (case poll_one_completion V x True w of None \<Rightarrow> None | Some r \<Rightarrow> Some (Inr r))"

definition fetch_as :: "'w verbs \<Rightarrow> rmm \<Rightarrow> nat \<Rightarrow> remote_ptr \<Rightarrow> nat \<Rightarrow> nat \<Rightarrow> ('w net, nat option) prog" where
  "fetch_as V m tid p sz local_offset =
     (case rdma_ctxs m tid of
        None \<Rightarrow> st_ret None
      | Some xs \<Rightarrow>
          st_bind (st_lift (rd xs (get_node p))) (\<lambda>x.
          st_bind (st_post (post_read V x (get_as p) sz local_offset)) (\<lambda>_.
          st_bind (st_poll V x) (\<lambda>_.
          st_ret (Some 0)))))"

definition write_to :: "'w verbs \<Rightarrow> rmm \<Rightarrow> nat \<Rightarrow> remote_ptr \<Rightarrow> nat \<Rightarrow> bytes option \<Rightarrow> ('w net, bool) prog" where
  "write_to V m tid p sz content =
     st_bind (st_lift (non_null (rdma_ctxs m tid))) (\<lambda>xs.
     st_bind (st_lift (rd xs (get_node p))) (\<lambda>x.
     st_bind (st_post (post_write V x (get_as p) content sz 0)) (\<lambda>_.
     st_bind (st_poll V x) (\<lambda>(wc, _).
     st_ret (\<not> wc)))))"

definition write_back_current :: "'w verbs \<Rightarrow> rmm \<Rightarrow> nat \<Rightarrow> remote_ptr \<Rightarrow> nat \<Rightarrow> ('w net, bool) prog" where
  "write_back_current V m tid p sz =
     st_bind (st_lift (non_null (rdma_ctxs m tid))) (\<lambda>xs.
     st_bind (st_lift (rd xs (get_node p))) (\<lambda>x.
     st_bind (st_post (post_write V x (get_as p) None sz (sizeof_linked_node 16 16))) (\<lambda>_.
     st_bind (st_poll V x) (\<lambda>(wc, _).
     st_ret (\<not> wc)))))"

text \<open>The recursive call of \<open>offer_remote_segment\<close> is made for its effects only: the pointer
  returned is that of the first answer.\<close>

partial_function (option) offer_remote_segment ::
    "(int \<Rightarrow> 'w net \<Rightarrow> (remote_ptr \<times> 'w net) option) \<Rightarrow> rmm \<times> 'w net \<Rightarrow> (remote_ptr \<times> rmm \<times> 'w net) run" where
  "offer_remote_segment rpc mw =
     (if memory_nodes (fst mw) = [] then Some (Inl InvalidArgument)
      else
        run_bind (Some (rd (memory_nodes (fst mw)) (rm_current (fst mw) mod length (memory_nodes (fst mw))))) (\<lambda>n.
        run_bind (Some (non_null (select_first_info (rpc_infos (fst mw)) (mn_node_id n)))) (\<lambda>info.
        run_bind (case rpc (mn_node_id n) (snd mw) of None \<Rightarrow> None | Some r \<Rightarrow> Some (Inr r)) (\<lambda>r.
        if is_nullptr (fst r)
        then run_bind (offer_remote_segment rpc ((fst mw)\<lparr>rm_current := rm_current (fst mw) + 1\<rparr>, snd r)) (\<lambda>r'.
             Some (Inr (fst r, snd r')))
        else Some (Inr (fst r, (fst mw)\<lparr>rm_current := rm_current (fst mw) + 1\<rparr>, snd r))))))"

definition recycle_remote_segment :: "remote_ptr \<Rightarrow> bool" where
  "recycle_remote_segment sg = False"

subsection \<open>Setting up a thread\<close>

text \<open>For each memory node two contexts over one buffer of 8192 bytes are opened and connected;
  \<open>connect\<close> is the socket connection to the node.\<close>

fun setup_contexts :: "'w verbs \<Rightarrow> verbs_consts \<Rightarrow> rdma_device \<Rightarrow> (memory_node \<Rightarrow> 'w net \<Rightarrow> nat \<times> 'w net) \<Rightarrow> u64 \<Rightarrow>
    memory_node list \<Rightarrow> 'w net \<Rightarrow> (rdma_context list \<times> rdma_context list) option \<times> 'w net" where
  "setup_contexts V K d connect buf [] w = (Some ([], []), w)"
| "setup_contexts V K d connect buf (n # ns) w =
     (case connect n w of (sock, w1) \<Rightarrow>
     (case rdma_open V d buf 8192 5 (get_default_mr_access K) get_default_qp_init_attr w1 of ((x, s), w2) \<Rightarrow>
      if s \<noteq> status.Ok then (None, w2)
      else (case default_connect V K d sock (the x) w2 of ((e, x'), w3) \<Rightarrow>
      if e \<noteq> 0 then (None, w3)
      else (case connect n w3 of (psock, w4) \<Rightarrow>
      (case rdma_open V d buf 8192 5 (get_default_mr_access K) get_default_qp_init_attr w4 of ((y, s'), w5) \<Rightarrow>
      if s' \<noteq> status.Ok then (None, w5)
      else (case default_connect V K d psock (the y) w5 of ((e', y'), w6) \<Rightarrow>
      if e' \<noteq> 0 then (None, w6)
      else (case setup_contexts V K d connect buf ns w6 of
              (None, w7) \<Rightarrow> (None, w7)
            | (Some (xs, ys), w7) \<Rightarrow> (Some (x' # xs, y' # ys), w7))))))))"

definition setup_rdma_per_thread :: "'w verbs \<Rightarrow> verbs_consts \<Rightarrow> rdma_device \<Rightarrow> (memory_node \<Rightarrow> 'w net \<Rightarrow> nat \<times> 'w net) \<Rightarrow>
    u64 \<Rightarrow> bytes \<Rightarrow> nat \<Rightarrow> rmm \<Rightarrow> 'w net \<Rightarrow> (bool \<times> rmm) \<times> 'w net" where
  "setup_rdma_per_thread V K d connect buf junk tid m w =
     (if rdma_ctxs m tid \<noteq> None then ((True, m), w)
      else case setup_contexts V K d connect buf (memory_nodes m) (w\<lparr>lbuf := junk\<rparr>) of
             (None, w') \<Rightarrow> ((False, m), w')
           | (Some (xs, ys), w') \<Rightarrow>
               ((True, m\<lparr>rdma_ctxs := (rdma_ctxs m)(tid \<mapsto> xs),
                         parallel_rdma_ctxs := (parallel_rdma_ctxs m)(tid \<mapsto> ys)\<rparr>), w'))"

text \<open>Connecting to the memory nodes: the base address and the id of the RPC endpoint are
  received over a socket; \<open>greet\<close> is what arrives, if the connection succeeds and all bytes
  arrive.\<close>

fun connect_memory_nodes :: "(int \<Rightarrow> (remote_ptr \<times> int) option) \<Rightarrow> (int \<Rightarrow> int \<Rightarrow> int) \<Rightarrow> (int \<Rightarrow> bool) \<Rightarrow> memory_node list \<Rightarrow>
    int \<times> rpc_info list \<Rightarrow> (bool \<times> memory_node list \<times> int \<times> rpc_info list) option" where
  "connect_memory_nodes greet create_session established [] rpc = Some (True, [], rpc)"
| "connect_memory_nodes greet create_session established (n # ns) rpc =
     (case greet (mn_node_id n) of
        None \<Rightarrow> Some (False, n # ns, rpc)
      | Some (addr, rpc_id) \<Rightarrow>
          (let n' = n\<lparr>mn_base := addr\<rparr> in
           if rpc_id = - 1 then Some (False, n' # ns, rpc)
           else (case connect_remote create_session established (mn_node_id n) rpc_id rpc of
                   None \<Rightarrow> None
                 | Some (False, rpc') \<Rightarrow> Some (False, n' # ns, rpc')
                 | Some (True, rpc') \<Rightarrow>
                     (case connect_memory_nodes greet create_session established ns rpc' of
                        None \<Rightarrow> None
                      | Some (ok', ns', rpc'') \<Rightarrow> Some (ok', n' # ns', rpc'')))))"

end
