(* ===== verification/ComputeNode.thy ===== *)
theory ComputeNode
  imports RemoteMemory NodeSplit
begin

text \<open>
  \<open>ComputeNode\<close> of \<open>components/node/compute_node/compute_node.hpp\<close> and \<open>.cpp\<close>, as one thread runs
  it.  The state holds the search layer, the concurrency contexts of all threads, the allocators
  and this thread's RDMA buffer with the network behind it; a node of the data layer in the buffer
  is a view of its bytes.  What other threads do while this one waits, retries or fetches is the
  function \<open>others\<close> of the environment, with the verbs library, the checksum, the RPC library, the
  random draws and the contents of uninitialised stack memory.
\<close>

subsection \<open>Contexts and state\<close>

datatype ctx_type = Insert | Update | Delete

record conc_ctx =
  ctype :: ctx_type
  user_context :: "nat option"
  max_depth :: int
  requests :: "request list"

definition new_conc_ctx :: conc_ctx where
  "new_conc_ctx = \<lparr>ctype = Insert, user_context = None, max_depth = 4, requests = []\<rparr>"

record 'w cn =
  slist :: skiplist
  cctx :: "nat \<rightharpoonup> conc_ctx"
  answers :: "nat \<rightharpoonup> request"
  next_req :: nat
  calloc :: cn_allocator
  rm :: rmm
  update_queue :: "(nat \<times> nat) list"
  remote_put :: bool
  local_nodes :: "linked_node list"
  local_anchors :: "bytes list"
  flush_node :: linked_node
  net :: "'w net"

record 'w env =
  vb :: "'w verbs"
  crcer :: "bytes \<Rightarrow> u16"
  rpc :: "int \<Rightarrow> 'w net \<Rightarrow> (remote_ptr \<times> 'w net) option"
  draws :: "nat \<Rightarrow> nat list"
  junk :: "kv list"
  others :: "'w cn \<Rightarrow> 'w cn"

definition on_net :: "('w net, 'a) prog \<Rightarrow> ('w cn, 'a) prog" where
  "on_net f s = run_bind (f (net s)) (\<lambda>(a, n). Some (Inr (a, s\<lparr>net := n\<rparr>)))"

definition node_at :: "nat option \<Rightarrow> ('w cn, skip_node) prog" where
  "node_at p s = Some (res_bind (deref (slist s) p) (\<lambda>n. Inr (n, s)))"

definition set_node :: "nat option \<Rightarrow> (skip_node \<Rightarrow> skip_node) \<Rightarrow> ('w cn, unit) prog" where
  "set_node p f s = Some (res_bind (modify (slist s) p (\<lambda>n. Inr (f n))) (\<lambda>sl. Inr ((), s\<lparr>slist := sl\<rparr>)))"

definition ctx_at :: "nat \<Rightarrow> ('w cn, conc_ctx) prog" where
  "ctx_at c s = (case cctx s c of None \<Rightarrow> Some (Inl NullDeref) | Some x \<Rightarrow> Some (Inr (x, s)))"

definition ctx_mod :: "nat \<Rightarrow> (conc_ctx \<Rightarrow> conc_ctx) \<Rightarrow> ('w cn, unit) prog" where
  "ctx_mod c f s =
     (case cctx s c of None \<Rightarrow> Some (Inl NullDeref) | Some x \<Rightarrow> Some (Inr ((), s\<lparr>cctx := (cctx s)(c \<mapsto> f x)\<rparr>)))"

text \<open>\<open>compare_exchange_strong\<close> from null on a node's context.\<close>

definition cas_ctx :: "nat option \<Rightarrow> nat \<Rightarrow> ('w cn, bool \<times> nat option) prog" where
  "cas_ctx p me =
     st_bind (node_at p) (\<lambda>n.
     if ctx n = None then st_bind (set_node p (\<lambda>n. n\<lparr>ctx := Some me\<rparr>)) (\<lambda>_. st_ret (True, None))
     else st_ret (False, ctx n))"

text \<open>Writing the answers into the request objects.\<close>

definition deliver :: "request list \<Rightarrow> ('w cn, unit) prog" where
  "deliver rs = st_mod (\<lambda>s. s\<lparr>answers := answers s ++ map_of (map (\<lambda>r. (rid r, r)) rs)\<rparr>)"

subsection \<open>Nodes in the buffer\<close>

definition sizeof16 :: nat where "sizeof16 = 560"

definition view :: "nat \<Rightarrow> bytes \<Rightarrow> linked_node" where
  "view off b = decode_node (take sizeof16 (drop off b))"

text \<open>Assigning the fields of a view leaves its padding alone.\<close>

definition put_view :: "nat \<Rightarrow> linked_node \<Rightarrow> bytes \<Rightarrow> bytes" where
  "put_view off n b =
     (let e = encode_node n in
      take off b @ take 18 e @ take 2 (drop (off + 18) b) @ take 536 (drop 20 e) @ drop (off + 556) b)"

definition get_view :: "nat \<Rightarrow> ('w cn, linked_node) prog" where
  "get_view off = st_get (\<lambda>s. view off (lbuf (net s)))"

definition set_view :: "nat \<Rightarrow> linked_node \<Rightarrow> ('w cn, unit) prog" where
  "set_view off n = st_mod (\<lambda>s. s\<lparr>net := (net s)\<lparr>lbuf := put_view off n (lbuf (net s))\<rparr>\<rparr>)"

subsection \<open>Allocation\<close>

definition alloc_chunk :: "nat \<Rightarrow> nat \<Rightarrow> ('w cn, remote_ptr) prog" where
  "alloc_chunk tid sz s = Some (res_bind (cna_allocate tid sz (calloc s)) (\<lambda>(p, a). Inr (p, s\<lparr>calloc := a\<rparr>)))"

definition offer_segment :: "'w env \<Rightarrow> ('w cn, remote_ptr) prog" where
  "offer_segment E s =
     run_bind (offer_remote_segment (rpc E) (rm s, net s)) (\<lambda>(p, m, n). Some (Inr (p, s\<lparr>rm := m, net := n\<rparr>)))"

definition preallocate :: "'w env \<Rightarrow> ('w cn, bool) prog" where
  "preallocate E =
     st_bind (offer_segment E) (\<lambda>new_seg.
     st_bind (st_get rm) (\<lambda>m.
     st_bind (st_lift (get_base_addr m (get_node new_seg))) (\<lambda>base.
     st_bind (st_mod (\<lambda>s. s\<lparr>calloc := apply_for_memory new_seg base (calloc s)\<rparr>)) (\<lambda>_.
     st_ret True))))"

definition allocate :: "'w env \<Rightarrow> nat \<Rightarrow> nat \<Rightarrow> ('w cn, remote_ptr) prog" where
  "allocate E tid sz =
     st_bind (alloc_chunk tid sz) (\<lambda>r.
     if is_nullptr r
     then st_bind (offer_segment E) (\<lambda>new_seg.
          st_bind (st_get rm) (\<lambda>m.
          st_bind (st_lift (get_base_addr m (get_node new_seg))) (\<lambda>base.
          st_bind (st_mod (\<lambda>s. s\<lparr>calloc := apply_for_memory new_seg base (calloc s)\<rparr>)) (\<lambda>_.
          alloc_chunk tid sz))))
     else st_ret r)"

definition free_chunk :: "remote_ptr \<Rightarrow> ('w cn, unit) prog" where
  "free_chunk p s = Some (res_bind (cna_free p (calloc s)) (\<lambda>a. Inr ((), s\<lparr>calloc := a\<rparr>)))"

subsection \<open>Winning and losing\<close>

definition drain_pending :: "nat \<Rightarrow> ('w cn, unit) prog" where
  "drain_pending tid =
     st_bind (ctx_at tid) (\<lambda>c.
     st_bind (deliver (map (\<lambda>r. r\<lparr>succeed := False, retry := True, is_done := True\<rparr>) (requests c))) (\<lambda>_.
     ctx_mod tid (\<lambda>c. c\<lparr>requests := []\<rparr>)))"

definition find_ctx :: "nat \<Rightarrow> ('w cn, unit) prog" where
  "find_ctx tid = st_bind (st_get (\<lambda>s. cctx s tid)) (\<lambda>c. if c = None then st_fail RuntimeError else st_ret ())"

definition try_win_for_update :: "'w env \<Rightarrow> nat \<Rightarrow> nat \<Rightarrow> nat \<Rightarrow> ctx_type \<Rightarrow> ('w cn, bool \<times> nat option) prog" where
  "try_win_for_update E tid N d t =
     st_bind (find_ctx tid) (\<lambda>_.
     st_bind (ctx_mod tid (\<lambda>c. c\<lparr>ctype := t\<rparr>)) (\<lambda>_.
     st_bind (cas_ctx (Some d) tid) (\<lambda>(won, expect).
     if won then
       st_bind (ctx_mod tid (\<lambda>c. c\<lparr>max_depth := 4\<rparr>)) (\<lambda>_.
       st_bind (st_mod (others E)) (\<lambda>_.
       st_bind (node_at (Some d)) (\<lambda>n.
       st_bind (st_get rm) (\<lambda>m.
       st_bind (on_net (fetch_as (vb E) m tid (data_node n) (sizeof_linked_node 16 N) 0)) (\<lambda>buffer.
       st_bind (ctx_mod tid (\<lambda>c. c\<lparr>user_context := buffer, max_depth := - 1\<rparr>)) (\<lambda>_.
       st_ret (True, Some tid)))))))
     else st_ret (False, expect))))"

text \<open>Both nodes are read with two requests on one context, or, while times are taken, on two.\<close>

definition fetch_two :: "'w env \<Rightarrow> nat \<Rightarrow> bool \<Rightarrow> nat option \<Rightarrow> nat option \<Rightarrow> ('w cn, nat \<times> nat) prog" where
  "fetch_two E tid parallel l r =
     st_bind (node_at l) (\<lambda>nl.
     st_bind (st_get rm) (\<lambda>m.
     st_bind (st_lift (res_bind (get_rdma m tid (data_node nl)) non_null)) (\<lambda>x.
     st_bind (if parallel then st_lift (res_bind (get_parallel_rdma m tid (data_node nl)) non_null) else st_ret x) (\<lambda>y.
     st_bind (node_at r) (\<lambda>nr.
     st_bind (on_net (st_post (post_read (vb E) x (get_as (data_node nr)) (sizeof_node (sn_type nr)) sizeof16))) (\<lambda>_.
     st_bind (on_net (st_post (post_read (vb E) y (get_as (data_node nl)) (sizeof_node (sn_type nl)) 0))) (\<lambda>_.
     st_bind (on_net (st_poll (vb E) x)) (\<lambda>_.
     st_bind (on_net (st_poll (vb E) y)) (\<lambda>_.
     st_ret (0, sizeof16))))))))))"

definition try_win_for_insert :: "'w env \<Rightarrow> nat \<Rightarrow> bool \<Rightarrow> nat \<Rightarrow> ctx_type \<Rightarrow> ('w cn, bool \<times> nat option) prog" where
  "try_win_for_insert E tid breakdown d t =
     st_bind (find_ctx tid) (\<lambda>_.
     st_bind (ctx_mod tid (\<lambda>c. c\<lparr>max_depth := - 1, ctype := t\<rparr>)) (\<lambda>_.
     st_bind (node_at (Some d)) (\<lambda>n.
     (let l = backward n in
      st_bind (cas_ctx (Some d) tid) (\<lambda>(won, expect).
      if won then
        st_bind (cas_ctx l tid) (\<lambda>(won', _).
        if \<not> won' then
          st_bind (ctx_mod tid (\<lambda>c. c\<lparr>max_depth := 0\<rparr>)) (\<lambda>_.
          st_bind (set_node (Some d) (\<lambda>n. n\<lparr>ctx := None\<rparr>)) (\<lambda>_.
          st_ret (False, None)))
        else
          st_bind (ctx_mod tid (\<lambda>c. c\<lparr>max_depth := 4\<rparr>)) (\<lambda>_.
          st_bind (st_mod (others E)) (\<lambda>_.
          st_bind (fetch_two E tid breakdown l (Some d)) (\<lambda>(buffer, _).
          st_bind (ctx_mod tid (\<lambda>c. c\<lparr>user_context := Some buffer, max_depth := - 1\<rparr>)) (\<lambda>_.
          st_ret (True, Some tid))))))
      else st_ret (False, expect))))))"

text \<open>The two spinning loops of a waiting thread.\<close>

partial_function (option) spin_depth :: "'w env \<Rightarrow> nat \<Rightarrow> 'w cn \<Rightarrow> (unit \<times> 'w cn) run" where
  "spin_depth E c s =
     (case cctx s c of None \<Rightarrow> Some (Inl NullDeref)
      | Some x \<Rightarrow> if max_depth x = - 1 then spin_depth E c (others E s) else Some (Inr ((), s)))"

partial_function (option) spin_done :: "'w env \<Rightarrow> nat \<Rightarrow> 'w cn \<Rightarrow> (request \<times> 'w cn) run" where
  "spin_done E a s =
     (case answers s a of None \<Rightarrow> spin_done E a (others E s) | Some r \<Rightarrow> Some (Inr (r, s)))"

definition failed_write :: "'w env \<Rightarrow> nat \<Rightarrow> bytes \<Rightarrow> bytes \<Rightarrow> ('w cn, bool \<times> bool) prog" where
  "failed_write E c key val =
     st_bind (spin_depth E c) (\<lambda>_.
     st_bind (ctx_at c) (\<lambda>x.
     st_bind (ctx_mod c (\<lambda>x. x\<lparr>max_depth := max_depth x - 1\<rparr>)) (\<lambda>_.
     if 0 < max_depth x then
       st_bind (st_get next_req) (\<lambda>a.
       st_bind (st_mod (\<lambda>s. s\<lparr>next_req := a + 1\<rparr>)) (\<lambda>_.
       st_bind (ctx_mod c (\<lambda>x. x\<lparr>requests := requests x @ [new_request a key val]\<rparr>)) (\<lambda>_.
       st_bind (spin_done E a) (\<lambda>r.
       st_ret (succeed r, retry r)))))
     else st_ret (False, True))))"

end
