(* ===== verification/ComputeOps.thy ===== *)
theory ComputeOps
  imports ComputeNode
begin

text \<open>
  The operations of \<open>ComputeNode\<close>: writing back morphed and split nodes, insertion into a node of
  each type, \<open>put\<close>, \<open>get\<close>, \<open>update\<close> and \<open>scan\<close>, and the local stage before the first two nodes are
  flushed to remote memory.
\<close>

subsection \<open>Working on the buffer\<close>

text \<open>\<open>help_others\<close> on the two nodes in the buffer, the real one of capacity \<open>N\<close>.\<close>

definition help_in_buffer :: "nat \<Rightarrow> nat \<Rightarrow> nat \<Rightarrow> nat \<Rightarrow> ('w cn, unit) prog" where
  "help_in_buffer tid N d off =
     st_bind (ctx_at tid) (\<lambda>c.
     st_bind (node_at (Some d)) (\<lambda>n.
     st_bind (get_view off) (\<lambda>pred.
     st_bind (get_view (off + sizeof16)) (\<lambda>real_buffer.
     st_bind (st_lift (help_others N (anchor n) pred real_buffer (requests c) [])) (\<lambda>(pred', real', ans, q).
     st_bind (set_view off pred') (\<lambda>_.
     st_bind (set_view (off + sizeof16) real') (\<lambda>_.
     st_bind (deliver ans) (\<lambda>_.
     ctx_mod tid (\<lambda>c. c\<lparr>requests := q\<rparr>)))))))))"

definition try_put_to_existing_node :: "'w env \<Rightarrow> nat \<Rightarrow> nat \<Rightarrow> nat \<Rightarrow> bytes \<Rightarrow> bytes \<Rightarrow> ('w cn, bool \<times> nat) prog" where
  "try_put_to_existing_node E tid N d key val =
     st_bind (ctx_at tid) (\<lambda>c.
     st_bind (st_lift (non_null (user_context c))) (\<lambda>off.
     st_bind (get_view (off + sizeof16)) (\<lambda>real_buffer.
     st_bind (st_lift (store_kv N key val real_buffer)) (\<lambda>(ok, real').
     if \<not> ok then st_ret (False, length (requests c) + 1)
     else
       st_bind (set_view (off + sizeof16) real') (\<lambda>_.
       st_bind (help_in_buffer tid N d off) (\<lambda>_.
       st_bind (ctx_at tid) (\<lambda>c'.
       if requests c' = [] then
         st_bind (st_get rm) (\<lambda>m.
         st_bind (node_at (Some d)) (\<lambda>n.
         st_bind (on_net (write_back_current (vb E) m tid (data_node n) (sizeof_linked_node 16 N))) (\<lambda>ret.
         st_ret (ret, 0))))
       else st_ret (True, length (requests c')))))))))"

definition write_back_morphed :: "'w env \<Rightarrow> nat \<Rightarrow> nat \<Rightarrow> nat \<Rightarrow> ('w cn, remote_ptr) prog" where
  "write_back_morphed E tid d off =
     st_bind (get_view (off + sizeof16)) (\<lambda>morphed.
     st_bind (allocate E tid (sizeof_node (ntype morphed))) (\<lambda>r.
     st_bind (st_get rm) (\<lambda>m.
     st_bind (st_lift (res_bind (get_rdma m tid r) non_null)) (\<lambda>x.
     st_bind (get_view off) (\<lambda>pred.
     st_bind (set_view off (pred\<lparr>rlink := r\<rparr>)) (\<lambda>_.
     st_bind (on_net (st_post (generate_sge x None (sizeof_node (ntype pred)) 0))) (\<lambda>p_sge.
     st_bind (on_net (st_post (generate_sge x None (sizeof_node (ntype morphed)) sizeof16))) (\<lambda>r_sge.
     st_bind (node_at (Some d)) (\<lambda>n.
     st_bind (node_at (backward n)) (\<lambda>b.
     (let wr_p = (generate_send_wr x 0 p_sge (get_as (data_node b)) WR_RDMA_WRITE)\<lparr>signaled := False\<rparr>;
          wr_r = generate_send_wr x 1 r_sge (get_as r) WR_RDMA_WRITE in
      st_bind (on_net (st_post (\<lambda>w. Inr (post_batch_write (vb E) x [wr_p, wr_r] w)))) (\<lambda>_.
      st_bind (on_net (st_poll (vb E) x)) (\<lambda>(wc, _).
      if wc then st_ret 0
      else st_bind (set_node (Some d) (\<lambda>n. n\<lparr>data_node := r\<rparr>)) (\<lambda>_. st_ret r))))))))))))))"

text \<open>\<open>NL\<close> and \<open>NR\<close> are the capacities of the template arguments.\<close>

definition write_back_splitted :: "'w env \<Rightarrow> nat \<Rightarrow> nat \<Rightarrow> nat \<Rightarrow> nat \<Rightarrow> nat \<Rightarrow> ('w cn, remote_ptr) prog" where
  "write_back_splitted E tid NL NR d off =
     st_bind (allocate E tid (sizeof_linked_node 16 NL)) (\<lambda>l.
     st_bind (allocate E tid (sizeof_linked_node 16 NR)) (\<lambda>r.
     st_bind (get_view off) (\<lambda>pred.
     st_bind (get_view (off + sizeof16)) (\<lambda>left.
     st_bind (get_view (off + 2 * sizeof16)) (\<lambda>right.
     st_bind (set_view off (pred\<lparr>rlink := l\<rparr>)) (\<lambda>_.
     st_bind (set_view (off + 2 * sizeof16) (right\<lparr>rlink := rlink left\<rparr>)) (\<lambda>_.
     st_bind (set_view (off + sizeof16) (left\<lparr>rlink := r\<rparr>)) (\<lambda>_.
     st_bind (st_get rm) (\<lambda>m.
     st_bind (st_lift (res_bind (get_rdma m tid l) non_null)) (\<lambda>x.
     st_bind (on_net (st_post (generate_sge x None (sizeof_node (ntype pred)) 0))) (\<lambda>p_sge.
     st_bind (on_net (st_post (generate_sge x None (sizeof_linked_node 16 NL) sizeof16))) (\<lambda>l_sge.
     st_bind (on_net (st_post (generate_sge x None (sizeof_linked_node 16 NR) (2 * sizeof16)))) (\<lambda>r_sge.
     st_bind (node_at (Some d)) (\<lambda>n.
     st_bind (node_at (backward n)) (\<lambda>b.
     (let wr_p = (generate_send_wr x 0 p_sge (get_as (data_node b)) WR_RDMA_WRITE)\<lparr>signaled := False\<rparr>;
          wr_l = (generate_send_wr x 1 l_sge (get_as l) WR_RDMA_WRITE)\<lparr>signaled := False\<rparr>;
          wr_r = generate_send_wr x 2 r_sge (get_as r) WR_RDMA_WRITE in
      st_bind (on_net (st_post (\<lambda>w. Inr (post_batch_write (vb E) x [wr_p, wr_l, wr_r] w)))) (\<lambda>_.
      st_bind (on_net (st_poll (vb E) x)) (\<lambda>(wc, _).
      if wc then st_ret 0
      else st_bind (set_node (Some d) (\<lambda>n. n\<lparr>data_node := l\<rparr>)) (\<lambda>_. st_ret r)))))))))))))))))))"

subsection \<open>Insertion into a node\<close>

text \<open>What a thread that has not won does.\<close>

definition lose :: "'w env \<Rightarrow> nat option \<Rightarrow> bytes \<Rightarrow> bytes \<Rightarrow> ('w cn, bool \<times> bool) prog" where
  "lose E owner key val =
     (case owner of
        None \<Rightarrow> st_ret (False, True)
      | Some c \<Rightarrow> st_bind (ctx_at c) (\<lambda>x.
          if ctype x \<noteq> Insert then st_ret (False, True) else failed_write E c key val))"

text \<open>Releasing both nodes.\<close>

definition leave :: "nat \<Rightarrow> nat \<Rightarrow> bool \<Rightarrow> ('w cn, bool \<times> bool) prog" where
  "leave tid d ret =
     st_bind (set_node (Some d) (\<lambda>n. n\<lparr>ctx := None\<rparr>)) (\<lambda>_.
     st_bind (node_at (Some d)) (\<lambda>n.
     st_bind (set_node (backward n) (\<lambda>b. b\<lparr>ctx := None\<rparr>)) (\<lambda>_.
     st_bind (ctx_mod tid (\<lambda>c. c\<lparr>max_depth := 4\<rparr>)) (\<lambda>_.
     if \<not> ret then st_fail RuntimeError else st_ret (ret, False)))))"

text \<open>The loop of \<open>put10\<close> that answers what is left in the queue.\<close>

fun answer_rest :: "bytes \<Rightarrow> linked_node \<Rightarrow> linked_node \<Rightarrow> request list \<Rightarrow> (linked_node \<times> linked_node \<times> request list) res" where
  "answer_rest anch pred real_buffer [] = Inr (pred, real_buffer, [])"
| "answer_rest anch pred real_buffer (req # q) =
     res_bind (if anch \<le> tag req
               then res_bind (store_kv 16 (tag req) (content req) real_buffer) (\<lambda>(s, real'). Inr (s, pred, real'))
               else res_bind (help_pred pred (tag req) (content req)) (\<lambda>(s, pred'). Inr (s, pred', real_buffer)))
       (\<lambda>(s, pred', real').
     res_bind (answer_rest anch pred' real' q) (\<lambda>(pred'', real'', ans).
     Inr (pred'', real'', req\<lparr>succeed := s, retry := \<not> s, is_done := True\<rparr> # ans)))"

definition put10 :: "'w env \<Rightarrow> nat \<Rightarrow> bool \<Rightarrow> nat \<Rightarrow> bytes \<Rightarrow> bytes \<Rightarrow> ('w cn, bool \<times> bool) prog" where
  "put10 E tid breakdown d key val =
     st_bind (drain_pending tid) (\<lambda>_.
     st_bind (try_win_for_insert E tid breakdown d Insert) (\<lambda>(win, owner).
     if \<not> win then lose E owner key val
     else
       st_bind (try_put_to_existing_node E tid 10 d key val) (\<lambda>(stored, pendings).
       st_bind (ctx_at tid) (\<lambda>c.
       st_bind (st_lift (non_null (user_context c))) (\<lambda>off.
       if pendings = 0 then leave tid d True
       else
         st_bind (get_view (off + sizeof16)) (\<lambda>b.
         st_bind (if \<not> stored then st_lift (store_kv 16 key val b) else st_ret (True, b)) (\<lambda>(_, b1).
         st_bind (get_view off) (\<lambda>pred.
         st_bind (node_at (Some d)) (\<lambda>n.
         st_bind (st_lift (answer_rest (anchor n) pred b1 (requests c))) (\<lambda>(pred', b2, ans).
         st_bind (deliver ans) (\<lambda>_.
         st_bind (ctx_mod tid (\<lambda>c. c\<lparr>requests := []\<rparr>)) (\<lambda>_.
         st_bind (st_lift (morph_node b2)) (\<lambda>t.
         st_bind (set_view off pred') (\<lambda>_.
         st_bind (set_view (off + sizeof16) (b2\<lparr>ntype := t, crc := crc_validate (crcer E) b2 t\<rparr>)) (\<lambda>_.
         st_bind (write_back_morphed E tid d off) (\<lambda>r.
         st_bind (set_node (Some d) (\<lambda>n. n\<lparr>data_node := r, sn_type := t\<rparr>)) (\<lambda>_.
         leave tid d (r \<noteq> 0))))))))))))))))))"

definition eager_morph :: "'w env \<Rightarrow> nat \<Rightarrow> nat \<Rightarrow> bytes \<Rightarrow> bytes \<Rightarrow> bool \<Rightarrow> ('w cn, bool) prog" where
  "eager_morph E tid d key val stored =
     st_bind (ctx_at tid) (\<lambda>c.
     st_bind (st_lift (non_null (user_context c))) (\<lambda>off.
     st_bind (get_view (off + sizeof16)) (\<lambda>b.
     st_bind (if \<not> stored then st_lift (store_kv 16 key val b) else st_ret (True, b)) (\<lambda>(_, b1).
     st_bind (set_view (off + sizeof16) b1) (\<lambda>_.
     st_bind (help_in_buffer tid 16 d off) (\<lambda>_.
     st_bind (get_view (off + sizeof16)) (\<lambda>b2.
     st_bind (set_view (off + sizeof16)
                (b2\<lparr>ntype := type_num Type16, crc := crc_validate (crcer E) b2 (type_num Type16)\<rparr>)) (\<lambda>_.
     st_bind (write_back_morphed E tid d off) (\<lambda>r.
     if r = 0 then st_ret False
     else
       st_bind (get_view off) (\<lambda>pred.
       st_bind (set_view off (pred\<lparr>rlink := r\<rparr>)) (\<lambda>_.
       st_bind (set_node (Some d) (\<lambda>n. n\<lparr>data_node := r, sn_type := type_num Type16\<rparr>)) (\<lambda>_.
       st_ret True))))))))))))"

definition async_insert :: "'w env \<Rightarrow> nat \<Rightarrow> bytes \<Rightarrow> u32 \<Rightarrow> remote_ptr \<Rightarrow> ('w cn, unit) prog" where
  "async_insert E d key t r s =
     run_bind (async_update (draws E (brk (slist s))) d key t r (slist s, update_queue s)) (\<lambda>(sl, q).
     Some (Inr ((), s\<lparr>slist := sl, update_queue := q\<rparr>)))"

text \<open>The branch of \<open>put12\<close>, \<open>put14\<close> and \<open>put16\<close> that splits: types and checksums are set, the
  parts are written back, and the right one is entered into the search layer.\<close>

definition split_branch :: "'w env \<Rightarrow> nat \<Rightarrow> nat \<Rightarrow> nat \<Rightarrow> node_type \<Rightarrow> node_type \<Rightarrow> nat \<Rightarrow> nat \<Rightarrow> bytes \<Rightarrow> bytes \<Rightarrow> bool \<Rightarrow>
    ('w cn, bool) prog" where
  "split_branch E tid d left_cap ty_l ty_r NL NR key val stored =
     st_bind (ctx_at tid) (\<lambda>c.
     st_bind (st_lift (non_null (user_context c))) (\<lambda>off.
     st_bind (node_at (Some d)) (\<lambda>n.
     st_bind (get_view off) (\<lambda>pred.
     st_bind (get_view (off + sizeof16)) (\<lambda>source.
     st_bind (get_view (off + 2 * sizeof16)) (\<lambda>right0.
     st_bind (st_lift (out_of_place_split_node (anchor n) pred source right0 (junk E) (requests c) left_cap key val stored))
       (\<lambda>(pred', left, right, ranchor, ans, q).
     st_bind (deliver ans) (\<lambda>_.
     st_bind (ctx_mod tid (\<lambda>c. c\<lparr>requests := q\<rparr>)) (\<lambda>_.
     st_bind (set_view off pred') (\<lambda>_.
     st_bind (set_view (off + sizeof16) (left\<lparr>ntype := type_num ty_l, crc := crc_validate (crcer E) left (type_num ty_l)\<rparr>)) (\<lambda>_.
     st_bind (set_view (off + 2 * sizeof16) (right\<lparr>ntype := type_num ty_r, crc := crc_validate (crcer E) right (type_num ty_r)\<rparr>)) (\<lambda>_.
     st_bind (write_back_splitted E tid NL NR d off) (\<lambda>r.
     st_bind (if is_nullptr r then st_ret False
              else st_bind (async_insert E d ranchor (type_num ty_r) r) (\<lambda>_. st_ret True)) (\<lambda>ret.
     st_bind (set_node (Some d) (\<lambda>n. n\<lparr>sn_type := type_num ty_l\<rparr>)) (\<lambda>_.
     st_ret ret)))))))))))))))"

definition put12 :: "'w env \<Rightarrow> nat \<Rightarrow> bool \<Rightarrow> nat \<Rightarrow> bytes \<Rightarrow> bytes \<Rightarrow> ('w cn, bool \<times> bool) prog" where
  "put12 E tid breakdown d key val =
     st_bind (drain_pending tid) (\<lambda>_.
     st_bind (try_win_for_insert E tid breakdown d Insert) (\<lambda>(win, owner).
     if \<not> win then lose E owner key val
     else
       st_bind (try_put_to_existing_node E tid 12 d key val) (\<lambda>(stored, pendings).
       st_bind (if pendings = 0 then st_ret True
                else if pendings \<le> 4 then eager_morph E tid d key val stored
                else split_branch E tid d 9 Type10 Type10 10 10 key val stored) (\<lambda>ret.
       leave tid d ret))))"

definition put14 :: "'w env \<Rightarrow> nat \<Rightarrow> bool \<Rightarrow> nat \<Rightarrow> bytes \<Rightarrow> bytes \<Rightarrow> ('w cn, bool \<times> bool) prog" where
  "put14 E tid breakdown d key val =
     st_bind (drain_pending tid) (\<lambda>_.
     st_bind (try_win_for_insert E tid breakdown d Insert) (\<lambda>(win, owner).
     if \<not> win then lose E owner key val
     else
       st_bind (try_put_to_existing_node E tid 14 d key val) (\<lambda>(stored, pendings).
       st_bind (if pendings = 0 then st_ret True
                else if pendings \<le> 2 then eager_morph E tid d key val stored
                else split_branch E tid d 8 Type10 Type12 10 10 key val stored) (\<lambda>ret.
       leave tid d ret))))"

definition put16 :: "'w env \<Rightarrow> nat \<Rightarrow> bool \<Rightarrow> nat \<Rightarrow> bytes \<Rightarrow> bytes \<Rightarrow> ('w cn, bool \<times> bool) prog" where
  "put16 E tid breakdown d key val =
     st_bind (drain_pending tid) (\<lambda>_.
     st_bind (try_win_for_insert E tid breakdown d Insert) (\<lambda>(win, owner).
     if \<not> win then lose E owner key val
     else
       st_bind (try_put_to_existing_node E tid 16 d key val) (\<lambda>(stored, pendings).
       st_bind (if pendings = 0 then st_ret True
                else if pendings \<le> 2 then split_branch E tid d 9 Type10 Type10 10 10 key val stored
                else if pendings \<le> 4 then split_branch E tid d 9 Type10 Type12 10 12 key val stored
                else split_branch E tid d 10 Type12 Type12 12 12 key val stored) (\<lambda>ret.
       leave tid d ret))))"

partial_function (option) put_dispatcher ::
    "'w env \<Rightarrow> nat \<Rightarrow> bool \<Rightarrow> nat option \<Rightarrow> bytes \<Rightarrow> bytes \<Rightarrow> 'w cn \<Rightarrow> (bool \<times> 'w cn) run" where
  "put_dispatcher E tid breakdown p key val s =
     st_bind (node_at p) (\<lambda>n.
     st_bind (case enumerator (sn_type n) of
                Some Type10 \<Rightarrow> put10 E tid breakdown (the p) key val
              | Some Type12 \<Rightarrow> put12 E tid breakdown (the p) key val
              | Some Type14 \<Rightarrow> put14 E tid breakdown (the p) key val
              | Some Type16 \<Rightarrow> put16 E tid breakdown (the p) key val
              | _ \<Rightarrow> st_fail RuntimeError) (\<lambda>(ret, retry) t.
     if retry then put_dispatcher E tid breakdown p key val (others E t) else st_ret ret t)) s"

subsection \<open>The local stage\<close>

text \<open>The node a key goes to while there are only two, as its index; the first two keys become
  anchors.\<close>

definition quick_put_pick_node :: "bytes \<Rightarrow> ('w cn, nat) prog" where
  "quick_put_pick_node key s =
     Some (
     res_bind (rd (local_anchors s) 0) (\<lambda>a0.
     res_bind (rd (local_anchors s) 1) (\<lambda>a1.
     res_bind (rd (local_nodes s) 0) (\<lambda>n0.
     res_bind (rd (local_nodes s) 1) (\<lambda>n1.
     if a0 = [] then Inr (0, s\<lparr>local_anchors := [key, a1]\<rparr>)
     else if key < a0 then
       (if a1 = [] then Inr (0, s\<lparr>local_nodes := [n1, n0], local_anchors := [key, a0]\<rparr>)
        else Inr (0, s\<lparr>local_anchors := [key, a1]\<rparr>))
     else if a1 = [] then Inr (1, s\<lparr>local_anchors := [a0, key]\<rparr>)
     else if a1 < key then Inr (1, s)
     else Inr (0, s))))))"

text \<open>\<open>copy_to_flush\<close> is the two \<open>memcpy\<close> into the static \<open>LinkedNode12\<close> and the assignment of
  \<open>next\<close>.\<close>

definition copy_to_flush :: "linked_node \<Rightarrow> linked_node \<Rightarrow> linked_node" where
  "copy_to_flush src dst =
     dst\<lparr>fingerprints := fingerprints src, pairs := take 10 (pairs src) @ drop 10 (pairs dst), nxt := nxt src\<rparr>"

definition set_crc :: "'w env \<Rightarrow> linked_node \<Rightarrow> linked_node" where
  "set_crc E n = n\<lparr>crc := crc_validate (crcer E) n (ntype n)\<rparr>"

definition insert_entry :: "'w env \<Rightarrow> bytes \<Rightarrow> remote_ptr \<Rightarrow> node_type \<Rightarrow> ('w cn, unit) prog" where
  "insert_entry E key r t s =
     run_bind (sl_insert (draws E (brk (slist s))) key r (type_num t) (slist s)) (\<lambda>(_, sl).
     Some (Inr ((), s\<lparr>slist := sl\<rparr>)))"

definition quick_put :: "'w env \<Rightarrow> nat \<Rightarrow> bytes \<Rightarrow> bytes \<Rightarrow> ('w cn, bool) prog" where
  "quick_put E tid key val =
     st_bind (st_get remote_put) (\<lambda>rp.
     if rp then st_ret False
     else
       st_bind (quick_put_pick_node key) (\<lambda>i.
       st_bind (st_get (\<lambda>s. local_nodes s ! i)) (\<lambda>target0.
       st_bind (st_lift (store_kv 10 key val target0)) (\<lambda>(ok, target).
       if ok then st_bind (st_mod (\<lambda>s. s\<lparr>local_nodes := (local_nodes s)[i := target]\<rparr>)) (\<lambda>_. st_ret True)
       else
         st_bind (allocate E tid (sizeof_linked_node 16 10)) (\<lambda>smaller.
         st_bind (allocate E tid (sizeof_linked_node 16 12)) (\<lambda>larger.
         st_bind (st_get (\<lambda>s. local_nodes s ! (1 - i))) (\<lambda>other.
         st_bind (st_get flush_node) (\<lambda>f.
         (let no_move = (if i = 0 then other\<lparr>llink := larger, rlink := 0\<rparr> else other\<lparr>llink := 0, rlink := larger\<rparr>);
              f0 = (if i = 0 then f\<lparr>llink := 0, rlink := smaller\<rparr> else f\<lparr>llink := smaller, rlink := 0\<rparr>) in
         st_bind (st_lift (store_kv 12 key val (copy_to_flush target f0))) (\<lambda>(_, f1).
         (let flush = set_crc E f1; no_move' = set_crc E no_move in
         st_bind (st_mod (\<lambda>s. s\<lparr>flush_node := flush, local_nodes := (local_nodes s)[1 - i := no_move']\<rparr>)) (\<lambda>_.
         st_bind (st_get rm) (\<lambda>m.
         st_bind (on_net (write_to (vb E) m tid larger (sizeof_linked_node 16 12) (Some (encode_node flush)))) (\<lambda>ok1.
         if \<not> ok1 then st_ret False
         else
           st_bind (on_net (write_to (vb E) m tid smaller (sizeof_linked_node 16 10) (Some (encode_node no_move')))) (\<lambda>ok2.
           if \<not> ok2 then st_ret False
           else
             st_bind (st_get local_anchors) (\<lambda>as.
             st_bind (if i = 0
                      then st_bind (insert_entry E (as ! 0) larger Type12) (\<lambda>_. insert_entry E (as ! 1) smaller Type10)
                      else st_bind (insert_entry E (as ! 0) smaller Type10) (\<lambda>_. insert_entry E (as ! 1) larger Type12)) (\<lambda>_.
             st_bind (st_mod (\<lambda>s. s\<lparr>remote_put := True\<rparr>)) (\<lambda>_.
             st_ret True))))))))))))))))))"

subsection \<open>The public operations\<close>

definition search :: "bytes \<Rightarrow> ('w cn, nat option) prog" where
  "search key s = run_bind (fuzzy_search key (slist s)) (\<lambda>p. Some (Inr (p, s)))"

definition put :: "'w env \<Rightarrow> nat \<Rightarrow> bool \<Rightarrow> bytes \<Rightarrow> bytes \<Rightarrow> ('w cn, bool) prog" where
  "put E tid breakdown key val =
     st_bind (st_get remote_put) (\<lambda>rp.
     st_bind (if \<not> rp then quick_put E tid key val else st_ret False) (\<lambda>stored.
     if stored then st_ret True
     else
       st_bind (search key) (\<lambda>p.
       put_dispatcher E tid breakdown p key val)))"

text \<open>The read path, with its retry when the checksum does not fit.\<close>

partial_function (option) get_remote :: "'w env \<Rightarrow> nat \<Rightarrow> bytes \<Rightarrow> 'w cn \<Rightarrow> (bytes option \<times> 'w cn) run" where
  "get_remote E tid key s =
     st_bind (drain_pending tid) (\<lambda>_.
     st_bind (search key) (\<lambda>p.
     st_bind (node_at p) (\<lambda>n.
     st_bind (st_get rm) (\<lambda>m.
     st_bind (on_net (fetch_as (vb E) m tid (data_node n) sizeof16 0)) (\<lambda>buffer.
     st_bind (st_lift (non_null buffer)) (\<lambda>off.
     st_bind (get_view off) (\<lambda>b t.
     if crc_validate (crcer E) b (sn_type n) \<noteq> crc b then get_remote E tid key (others E t)
     else st_lift (find_kv key b) t))))))) s"

definition get_local :: "bytes \<Rightarrow> ('w cn, bytes option) prog" where
  "get_local key s =
     Some (
     res_bind (rd (local_anchors s) 1) (\<lambda>a1.
     res_bind (rd (local_nodes s) (if a1 \<noteq> [] \<and> a1 \<le> key then 1 else 0)) (\<lambda>n.
     res_bind (find_kv key n) (\<lambda>r. Inr (r, s)))))"

definition get :: "'w env \<Rightarrow> nat \<Rightarrow> bytes \<Rightarrow> ('w cn, bytes option) prog" where
  "get E tid key =
     st_bind (st_get remote_put) (\<lambda>rp. if \<not> rp then get_local key else get_remote E tid key)"

definition update_local :: "bytes \<Rightarrow> bytes \<Rightarrow> ('w cn, bool) prog" where
  "update_local key val s =
     Some (
     res_bind (rd (local_anchors s) 1) (\<lambda>a1.
     (let i = (if a1 < key then 1 else 0) in
      res_bind (rd (local_nodes s) i) (\<lambda>n.
      res_bind (update_kv key val n) (\<lambda>(ok, n').
      Inr (ok, s\<lparr>local_nodes := (local_nodes s)[i := n']\<rparr>))))))"

text \<open>The loop of a winning update over the queue.\<close>

fun update_others :: "linked_node \<Rightarrow> request list \<Rightarrow> (linked_node \<times> request list) res" where
  "update_others b [] = Inr (b, [])"
| "update_others b (req # q) =
     res_bind (update_kv (tag req) (content req) b) (\<lambda>(s, b').
     res_bind (update_others b' q) (\<lambda>(b'', ans).
     Inr (b'', req\<lparr>succeed := s, retry := False, is_done := True\<rparr> # ans)))"

definition win_update :: "'w env \<Rightarrow> nat \<Rightarrow> nat \<Rightarrow> bytes \<Rightarrow> bytes \<Rightarrow> ('w cn, bool) prog" where
  "win_update E tid d key val =
     st_bind (ctx_at tid) (\<lambda>c.
     st_bind (st_lift (non_null (user_context c))) (\<lambda>off.
     st_bind (get_view off) (\<lambda>b0.
     st_bind (st_lift (update_kv key val b0)) (\<lambda>(ret, b1).
     st_bind (st_lift (update_others b1 (requests c))) (\<lambda>(b2, ans).
     st_bind (deliver ans) (\<lambda>_.
     st_bind (ctx_mod tid (\<lambda>c. c\<lparr>requests := []\<rparr>)) (\<lambda>_.
     st_bind (set_view off (set_crc E b2)) (\<lambda>_.
     st_bind (st_get rm) (\<lambda>m.
     st_bind (node_at (Some d)) (\<lambda>n.
     st_bind (on_net (write_back_current (vb E) m tid (data_node n) (sizeof_node (ntype b2)))) (\<lambda>_.
     st_bind (set_node (Some d) (\<lambda>n. n\<lparr>ctx := None\<rparr>)) (\<lambda>_.
     st_bind (ctx_mod tid (\<lambda>c. c\<lparr>max_depth := 4\<rparr>)) (\<lambda>_.
     st_ret ret)))))))))))))"

partial_function (option) update :: "'w env \<Rightarrow> nat \<Rightarrow> bytes \<Rightarrow> bytes \<Rightarrow> 'w cn \<Rightarrow> (bool \<times> 'w cn) run" where
  "update E tid key val s =
     (if \<not> remote_put s then update_local key val s
      else
        st_bind (search key) (\<lambda>p t.
        case p of
          None \<Rightarrow> st_ret False t
        | Some d \<Rightarrow>
            st_bind (drain_pending tid) (\<lambda>_.
            st_bind (try_win_for_update E tid 16 d Update) (\<lambda>(win, owner) t1.
            if win then win_update E tid d key val t1
            else
              st_bind (st_lift (non_null owner)) (\<lambda>c.
              st_bind (ctx_at c) (\<lambda>x t2.
              if ctype x \<noteq> Update then st_ret False t2
              else
                st_bind (failed_write E c key val) (\<lambda>(stat, again) t3.
                if again then update E tid key val (others E t3) else st_ret stat t3) t2)) t1)) t) s)"

subsection \<open>Scanning\<close>

definition fetch_two_into_buffer :: "'w env \<Rightarrow> nat \<Rightarrow> nat option \<Rightarrow> nat option \<Rightarrow> ('w cn, linked_node \<times> linked_node) prog" where
  "fetch_two_into_buffer E tid left right =
     st_bind (fetch_two E tid False left right) (\<lambda>(lb, rb).
     st_bind (get_view lb) (\<lambda>l.
     st_bind (get_view rb) (\<lambda>r.
     st_ret (l, r))))"

text \<open>Both requests of the batch are given the left node's scatter element.\<close>

definition fetch_two_async :: "'w env \<Rightarrow> nat \<Rightarrow> nat option \<Rightarrow> nat option \<Rightarrow> ('w cn, rdma_context option) prog" where
  "fetch_two_async E tid left right =
     st_bind (node_at left) (\<lambda>nl.
     st_bind (node_at right) (\<lambda>nr.
     st_bind (st_get rm) (\<lambda>m.
     st_bind (st_lift (res_bind (get_rdma m tid (data_node nl)) non_null)) (\<lambda>x.
     st_bind (on_net (st_post (generate_sge x None (sizeof_node (sn_type nl)) 0))) (\<lambda>l_sge.
     st_bind (on_net (st_post (generate_sge x None (sizeof_node (sn_type nr)) sizeof16))) (\<lambda>r_sge.
     (let wr_l = (generate_send_wr x 0 l_sge (get_as (data_node nl)) WR_RDMA_READ)\<lparr>signaled := False\<rparr>;
          wr_r = generate_send_wr x 0 l_sge (get_as (data_node nr)) WR_RDMA_READ in
      st_bind (on_net (st_post (\<lambda>w. Inr (post_batch_read (vb E) x [wr_l, wr_r] w)))) (\<lambda>_.
      st_ret (Some x)))))))))"

definition poll_fetch_two_async ::
    "'w env \<Rightarrow> rdma_context option \<Rightarrow> linked_node \<times> linked_node \<Rightarrow> ('w cn, bool \<times> linked_node \<times> linked_node) prog" where
  "poll_fetch_two_async E rdma old =
     st_bind (st_lift (non_null rdma)) (\<lambda>x.
     st_bind (on_net (st_poll (vb E) x)) (\<lambda>(wc, _).
     if wc then st_ret (False, old)
     else
       st_bind (get_view 0) (\<lambda>l.
       st_bind (get_view sizeof16) (\<lambda>r.
       st_ret (True, l, r)))))"

text \<open>The two scans of a turn: the array \<open>r\<close> first, then \<open>l\<close>.\<close>

definition scan_pair :: "bytes \<Rightarrow> nat \<Rightarrow> linked_node \<Rightarrow> linked_node \<Rightarrow> nat \<Rightarrow> bytes list \<Rightarrow> (nat \<times> bytes list) res" where
  "scan_pair key ct r l tot ret =
     res_bind (scan_kv key (ct - tot) r ret) (\<lambda>(n, ret1).
     res_bind (scan_kv key (ct - (tot + n)) l ret1) (\<lambda>(n', ret2).
     Inr (tot + n + n', ret2)))"

text \<open>The \<open>do while\<close> loop; \<open>ls\<close> and \<open>rs\<close> are the two arrays of two nodes, \<open>flip\<close> the index in
  use, 0 or 1.\<close>

partial_function (option) scan_loop ::
    "'w env \<Rightarrow> nat \<Rightarrow> bytes \<Rightarrow> nat \<Rightarrow> nat option \<Rightarrow> rdma_context option \<Rightarrow> linked_node list \<Rightarrow> linked_node list \<Rightarrow> nat \<Rightarrow>
      nat \<Rightarrow> bytes list \<Rightarrow> 'w cn \<Rightarrow> ((nat \<times> bytes list) \<times> 'w cn) run" where
  "scan_loop E tid key ct second rdma ls rs flip tot ret s =
     st_bind (node_at second) (\<lambda>n2.
     st_bind (st_lift (rd (forwards n2) 0)) (\<lambda>first t.
     if first = None then
       st_bind (poll_fetch_two_async E rdma (rs ! flip, ls ! flip)) (\<lambda>(_, r, l).
       st_lift (scan_pair key ct r l tot ret)) t
     else
       st_bind (node_at first) (\<lambda>n1.
       st_bind (st_lift (rd (forwards n1) 0)) (\<lambda>second' t1.
       if second' = None then
         st_bind (st_lift (scan_pair key ct (rs ! flip) (ls ! flip) tot ret)) (\<lambda>(tot', ret').
         st_bind (st_get rm) (\<lambda>m.
         st_bind (on_net (fetch_as (vb E) m tid (data_node n1) sizeof16 0)) (\<lambda>buffer.
         st_bind (st_lift (non_null buffer)) (\<lambda>off.
         st_bind (get_view off) (\<lambda>b.
         st_bind (st_lift (scan_kv key ct b ret')) (\<lambda>(_, ret'').
         st_ret (tot', ret''))))))) t1
       else
         st_bind (fetch_two_async E tid first second') (\<lambda>rdma'.
         st_bind (st_lift (scan_pair key ct (rs ! flip) (ls ! flip) tot ret)) (\<lambda>sc.
         st_bind (poll_fetch_two_async E rdma' (rs ! (1 - flip), ls ! (1 - flip))) (\<lambda>(_, r, l) t2.
         if fst sc < ct
         then scan_loop E tid key ct second' rdma' (ls[1 - flip := l]) (rs[1 - flip := r]) (1 - flip) (fst sc) (snd sc) t2
         else st_ret sc t2))) t1)) t)) s"

definition scan :: "'w env \<Rightarrow> nat \<Rightarrow> linked_node list \<Rightarrow> linked_node list \<Rightarrow> bytes \<Rightarrow> nat \<Rightarrow> ('w cn, nat \<times> bytes list) prog" where
  "scan E tid ls rs key ct =
     st_bind (search key) (\<lambda>first.
     if first = None then st_ret (0, [])
     else
       st_bind (node_at first) (\<lambda>n1.
       st_bind (st_lift (rd (forwards n1) 0)) (\<lambda>second.
       st_bind (if second = None then st_ret False
                else st_bind (node_at second) (\<lambda>n2. st_ret (key \<le> anchor n2))) (\<lambda>both.
       if both then
         st_bind (fetch_two_into_buffer E tid first second) (\<lambda>(l, r).
         scan_loop E tid key ct second None (ls[0 := l]) (rs[0 := r]) 0 0 [])
       else
         st_bind (st_get rm) (\<lambda>m.
         st_bind (on_net (fetch_as (vb E) m tid (data_node n1) sizeof16 0)) (\<lambda>buffer.
         st_bind (st_lift (non_null buffer)) (\<lambda>off.
         st_bind (get_view off) (\<lambda>b.
         st_lift (scan_kv key ct b [])))))))))"

end
