(* ===== verification/ComputeProofs.thy ===== *)
theory ComputeProofs
  imports ComputeOps SplitProps
begin

text \<open>
  Lemmas for the operations of the compute node: views of the buffer, and what a read or a write of
  a thread does to buffer and remote memory, derived inside the contract \<open>rdma_fabric\<close>.
\<close>

subsection \<open>Bytes of nodes\<close>

lemma length_le_take [simp]: "length (le_bytes n v) = n" by simp

lemma decode_shape: "length b = 560 \<Longrightarrow> node_shape (decode_node b)"
  by (simp add: node_shape_def decode_node_def list_all_length kv_ok_def decode_kv_def del: upt_rec_numeral)

lemma of_nat_unat_small: "v < 2 ^ LENGTH('l) \<Longrightarrow> unat (of_nat v :: 'l::len word) = v"
  by (simp add: unat_of_nat)

text \<open>Encoding a decoded node gives the bytes back except for the padding.\<close>

lemma field_bytes:
  assumes "off + sz \<le> length b"
  shows "le_bytes sz (field off sz b) = take sz (drop off b)"
  using assms by (simp add: field_def le_bytes_le_val)

lemma field_bound: "off + sz \<le> length b \<Longrightarrow> field off sz b < 256 ^ sz"
  using le_val_bound [of "take sz (drop off b)"] by (simp add: field_def)

lemma kv_bytes_decode: "length b = 32 \<Longrightarrow> kv_bytes (decode_kv b) = b"
  by (simp add: kv_bytes_def decode_kv_def)

lemma concat_pieces:
  "length b = w * n \<Longrightarrow> concat (map (\<lambda>i. take w (drop (w * i) b)) [0..<n]) = b"
proof (induction n arbitrary: b)
  case (Suc n)
  have "concat (map (\<lambda>i. take w (drop (w * i) (take (w * n) b))) [0..<n]) = take (w * n) b"
    using Suc.prems by (intro Suc.IH) simp
  moreover have "take w (drop (w * i) (take (w * n) b)) = take w (drop (w * i) b)" if "i < n" for i
  proof -
    have "w * i + w \<le> w * n" using that mult_le_mono2 [of "Suc i" n w] by simp
    then show ?thesis by (simp add: drop_take take_take min_def)
  qed
  then have "map (\<lambda>i. take w (drop (w * i) (take (w * n) b))) [0..<n] = map (\<lambda>i. take w (drop (w * i) b)) [0..<n]"
    by (intro map_cong) simp_all
  moreover have "take w (drop (w * n) b) = drop (w * n) b" using Suc.prems by simp
  ultimately show ?case by simp
qed simp

lemma encode_decode_node:
  assumes "length b = 560"
  shows "encode_node (decode_node b) = take 18 b @ [0, 0] @ take 536 (drop 20 b) @ replicate 4 0"
proof -
  let ?p = "\<lambda>i. take 32 (drop (32 * i) (take 512 (drop 44 b)))"
  have f: "unat (of_nat (field 0 8 b) :: u64) = field 0 8 b" "unat (of_nat (field 8 8 b) :: u64) = field 8 8 b"
    "unat (of_nat (field 16 2 b) :: u16) = field 16 2 b" "unat (of_nat (field 20 4 b) :: u32) = field 20 4 b"
    "unat (of_nat (field 24 4 b) :: u32) = field 24 4 b"
    using assms field_bound [of 0 8 b] field_bound [of 8 8 b] field_bound [of 16 2 b] field_bound [of 20 4 b] field_bound [of 24 4 b]
    by (auto intro!: of_nat_unat_small)
  have p: "take 32 (drop (44 + 32 * i) b) = ?p i" if "i < 16" for i
    using that by (simp add: drop_take take_take min_def add.commute)
  have "pairs_bytes (map (\<lambda>i. decode_kv (take 32 (drop (44 + 32 * i) b))) [0..<16]) =
      concat (map (\<lambda>i. kv_bytes (decode_kv (take 32 (drop (44 + 32 * i) b)))) [0..<16])"
    by (simp only: pairs_bytes_def map_map comp_def)
  also have "\<dots> = concat (map ?p [0..<16])"
    using assms p by (intro arg_cong [where f = concat] map_cong) (simp_all add: kv_bytes_decode)
  also have "\<dots> = take 512 (drop 44 b)" using assms by (intro concat_pieces) simp
  finally have ps: "pairs_bytes (map (\<lambda>i. decode_kv (take 32 (drop (44 + 32 * i) b))) [0..<16]) = take 512 (drop 44 b)" .
  have "encode_node (decode_node b) = take 8 b @ take 8 (drop 8 b) @ take 2 (drop 16 b) @ [0, 0] @
      take 4 (drop 20 b) @ take 4 (drop 24 b) @ take 16 (drop 28 b) @ take 512 (drop 44 b) @ replicate 4 0"
    using assms unfolding encode_node_def decode_node_def linked_node.simps f ps by (simp add: field_bytes del: upt_rec_numeral)
  also have "\<dots> = take 18 b @ [0, 0] @ take 536 (drop 20 b) @ replicate 4 0"
  proof -
    have "take 18 b = take 8 b @ take 8 (drop 8 b) @ take 2 (drop 16 b)"
      using take_add [of 8 "8 + 2" b] take_add [of 8 2 "drop 8 b"] by simp
    moreover have "take 536 (drop 20 b) = take 4 (drop 20 b) @ take 4 (drop 24 b) @ take 16 (drop 28 b) @ take 512 (drop 44 b)"
      using take_add [of 4 "4 + (16 + 512)" "drop 20 b"] take_add [of 4 "16 + 512" "drop 24 b"] take_add [of 16 512 "drop 28 b"] by simp
    ultimately show ?thesis by simp
  qed
  finally show ?thesis .
qed

text \<open>Two nodes that agree in everything but the records from \<open>N\<close> on.\<close>

definition agree :: "nat \<Rightarrow> linked_node \<Rightarrow> linked_node \<Rightarrow> bool" where
  "agree N a b \<longleftrightarrow> a\<lparr>pairs := take N (pairs a)\<rparr> = b\<lparr>pairs := take N (pairs b)\<rparr>"

lemma slice_cong:
  assumes "take m (drop l a) = take m (drop l b)" "l \<le> off" "off + sz \<le> l + m"
  shows "take sz (drop off a) = take sz (drop off b)"
proof -
  have s: "take sz (drop off x) = take sz (drop (off - l) (take m (drop l x)))" for x :: "'a list"
    using assms(2,3) by (simp add: drop_take take_take min_def)
  show ?thesis unfolding s [of a] s [of b] assms(1) ..
qed

lemma decode_agree:
  assumes "take 18 a = take 18 b" "take (24 + 32 * N) (drop 20 a) = take (24 + 32 * N) (drop 20 b)" "N \<le> 16"
  shows "agree N (decode_node a) (decode_node b)"
proof -
  have h: "take 18 (drop 0 a) = take 18 (drop 0 b)" using assms(1) by simp
  note l = slice_cong [OF h] and r = slice_cong [OF assms(2)]
  have f: "field 0 8 a = field 0 8 b" "field 8 8 a = field 8 8 b" "field 16 2 a = field 16 2 b"
    "field 20 4 a = field 20 4 b" "field 24 4 a = field 24 4 b"
    unfolding field_def by (intro arg_cong [where f = le_val], rule l r, simp_all)+
  have p: "take 16 (drop 28 a) = take 16 (drop 28 b)" by (rule r) simp_all
  have "map (\<lambda>i. decode_kv (take 32 (drop (44 + 32 * i) a))) [0..<N] = map (\<lambda>i. decode_kv (take 32 (drop (44 + 32 * i) b))) [0..<N]"
    by (intro map_cong arg_cong [where f = decode_kv] r) simp_all
  then have "take N (map (\<lambda>i. decode_kv (take 32 (drop (44 + 32 * i) a))) [0..<16]) =
      take N (map (\<lambda>i. decode_kv (take 32 (drop (44 + 32 * i) b))) [0..<16])"
    using assms(3) by (simp add: take_map del: upt_rec_numeral)
  with f p show ?thesis by (simp add: agree_def decode_node_def del: upt_rec_numeral)
qed

lemma agree_16: "node_shape a \<Longrightarrow> node_shape b \<Longrightarrow> agree 16 a b \<longleftrightarrow> a = b"
  by (auto simp: agree_def node_shape_def)

lemma decode_cong:
  assumes "take 18 a = take 18 b" "take 536 (drop 20 a) = take 536 (drop 20 b)" "length a = 560" "length b = 560"
  shows "decode_node a = decode_node b"
  using decode_agree [OF assms(1), of 16] assms decode_shape agree_16 by auto

subsection \<open>Views\<close>

lemma put_view_length:
  assumes "node_shape n" "off + 560 \<le> length b"
  shows "length (put_view off n b) = length b"
  using assms by (simp add: put_view_def Let_def length_encode_node)

lemma put_view_parts:
  assumes "node_shape n" "off + 560 \<le> length b"
  shows "take off (put_view off n b) = take off b" "drop (off + 560) (put_view off n b) = drop (off + 560) b"
    "take 18 (drop off (put_view off n b)) = take 18 (encode_node n)"
    "take 536 (drop (off + 20) (put_view off n b)) = take 536 (drop 20 (encode_node n))"
  using assms by (simp_all add: put_view_def Let_def length_encode_node add.commute)

lemma view_shape: "off + 560 \<le> length b \<Longrightarrow> node_shape (view off b)"
  by (simp add: view_def sizeof16_def decode_shape)

lemma view_put_same [simp]:
  assumes "node_shape n" "off + 560 \<le> length b"
  shows "view off (put_view off n b) = n"
proof -
  let ?v = "take 560 (drop off (put_view off n b))"
  have "decode_node ?v = decode_node (encode_node n)"
    using put_view_parts [OF assms] put_view_length [OF assms] assms
    by (intro decode_cong) (simp_all add: length_encode_node drop_take take_take add.commute)
  then show ?thesis using assms(1) by (simp add: view_def sizeof16_def decode_encode_node)
qed

lemma view_put_other:
  assumes "node_shape n" "off + 560 \<le> length b" "off' + 560 \<le> off \<or> off + 560 \<le> off'"
  shows "view off' (put_view off n b) = view off' b"
  using assms(3)
proof
  assume "off' + 560 \<le> off"
  then have "take 560 (drop off' x) = take 560 (drop off' (take off x))" for x :: bytes
    by (simp add: drop_take take_take min_def)
  then have "take 560 (drop off' (put_view off n b)) = take 560 (drop off' b)"
    using put_view_parts(1) [OF assms(1,2)] by metis
  then show ?thesis by (simp add: view_def sizeof16_def)
next
  assume le: "off + 560 \<le> off'"
  have "drop off' x = drop (off' - (off + 560)) (drop (off + 560) x)" for x :: bytes using le by simp
  then have "drop off' (put_view off n b) = drop off' b" using put_view_parts(2) [OF assms(1,2)] by metis
  then show ?thesis by (simp add: view_def)
qed

lemma put_view_view:
  assumes "off + 560 \<le> length b"
  shows "put_view off (view off b) b = b"
proof -
  let ?s = "take 560 (drop off b)"
  have e: "encode_node (view off b) = take 18 ?s @ [0, 0] @ take 536 (drop 20 ?s) @ replicate 4 0"
    unfolding view_def sizeof16_def using assms by (intro encode_decode_node) simp
  have l: "length (take 18 ?s) = 18" "length (take 536 (drop 20 ?s)) = 536" using assms by simp_all
  have "take 18 (encode_node (view off b)) = take 18 (drop off b)" unfolding e using l by simp
  moreover have "take 536 (drop 20 (encode_node (view off b))) = take 536 (drop (off + 20) b)"
    unfolding e using l by (simp add: drop_take take_take add.commute)
  moreover have "b = take off b @ take 18 (drop off b) @ take 2 (drop (off + 18) b) @ take 536 (drop (off + 20) b) @ drop (off + 556) b"
  proof -
    have s: "drop k b = take m (drop k b) @ drop (k + m) b" for k m by (metis append_take_drop_id drop_drop add.commute)
    have "drop off b = take 18 (drop off b) @ take 2 (drop (off + 18) b) @ take 536 (drop (off + 20) b) @ drop (off + 556) b"
      using s [of off 18] s [of "off + 18" 2] s [of "off + 20" 536] by (simp add: add.commute)
    then show ?thesis by (metis append_take_drop_id)
  qed
  ultimately show ?thesis unfolding put_view_def Let_def by simp
qed

subsection \<open>Agreement\<close>

lemma agree_fields:
  assumes "agree N a b"
  shows "llink a = llink b" "rlink a = rlink b" "crc a = crc b" "ntype a = ntype b" "nxt a = nxt b"
    "fingerprints a = fingerprints b" "take N (pairs a) = take N (pairs b)"
  using assms by (cases a; cases b; simp add: agree_def)+

lemma agree_refl [simp]: "agree N a a" by (simp add: agree_def)

lemma agree_sym: "agree N a b \<Longrightarrow> agree N b a" by (simp add: agree_def)

lemma agree_trans: "agree N a b \<Longrightarrow> agree N b c \<Longrightarrow> agree N a c" by (simp add: agree_def)

lemma agree_records:
  assumes "agree N a b" "unat (nxt a) \<le> N"
  shows "records a = records b"
proof -
  have "take (unat (nxt a)) (pairs x) = take (unat (nxt a)) (take N (pairs x))" for x :: linked_node
    using assms(2) by simp
  then have "take (unat (nxt a)) (pairs a) = take (unat (nxt a)) (pairs b)"
    using agree_fields(7) [OF assms(1)] by metis
  then show ?thesis using agree_fields(5) [OF assms(1)] by (simp add: records_def)
qed

lemma agree_inv:
  assumes "agree N a b" "node_inv N a" "node_shape b" "N \<le> 16"
  shows "node_inv N b"
proof -
  note f = agree_fields [OF assms(1)]
  have le: "unat (nxt a) \<le> N" using assms(2) by (simp add: node_inv_def)
  have t: "take (unat (nxt b)) (pairs b) = take (unat (nxt a)) (pairs a)"
    using le f(5,7) by (metis min.absorb1 take_take)
  have "nkey b i = nkey a i" if "i < unat (nxt a)" for i
    using that le f(7) nth_take [of i N "pairs a"] nth_take [of i N "pairs b"] by (simp add: nkey_def)
  then show ?thesis using assms(2,3,4) f(5,6) t by (simp add: node_inv_def node_shape_def)
qed

lemma take_pairs_bytes: "list_all kv_ok ps \<Longrightarrow> take (32 * N) (pairs_bytes ps) = pairs_bytes (take N ps)"
proof (induction ps arbitrary: N)
  case (Cons p ps)
  then show ?case by (cases N) (simp_all add: pairs_bytes_def kv_bytes_length)
qed (simp add: pairs_bytes_def)

text \<open>Storing in two nodes that agree on their slots.\<close>

lemma append_agree:
  assumes "agree N a b" "append_record k v a = Inr a'" "unat (nxt a) < N" "N \<le> length (pairs b)"
  shows "\<exists>b'. append_record k v b = Inr b' \<and> agree N a' b'"
proof -
  let ?i = "unat (nxt a)"
  note f = agree_fields [OF assms(1)]
  obtain g fps p k' v' where a: "fingerprint k = Inr g" "wr (fingerprints a) ?i g = Inr fps" "rd (pairs a) ?i = Inr p"
    "memcpy (kv_key p) k (length k) = Inr k'" "memcpy (kv_value p) v (length v) = Inr v'"
    "a' = a\<lparr>fingerprints := fps, pairs := (pairs a)[?i := \<lparr>kv_key = k', kv_value = v'\<rparr>], nxt := nxt a + 1\<rparr>"
    using assms(2) by (auto simp: append_record_def Let_def res_bind_eq_Inr)
  have "?i < length (pairs a)" "p = pairs a ! ?i" using a(3) by (auto simp: rd_def split: if_splits)
  then have "p = take N (pairs a) ! ?i" using assms(3) by simp
  then have "rd (pairs b) ?i = Inr p" using assms(3,4) by (simp add: f(7))
  then have "append_record k v b =
      Inr (b\<lparr>fingerprints := fps, pairs := (pairs b)[?i := \<lparr>kv_key = k', kv_value = v'\<rparr>], nxt := nxt b + 1\<rparr>)"
    using a f by (simp add: append_record_def Let_def)
  moreover have "agree N a' (b\<lparr>fingerprints := fps, pairs := (pairs b)[?i := \<lparr>kv_key = k', kv_value = v'\<rparr>], nxt := nxt b + 1\<rparr>)"
    using f by (cases a; cases b) (simp add: agree_def a(6) take_update_swap)
  ultimately show ?thesis by blast
qed

lemma store_agree:
  assumes "agree N a b" "node_inv N a" "node_shape b" "N \<le> 16" "wide k" "node_map a k = None" "room N a \<noteq> 0"
    and "store_kv N k v a = Inr (True, a')"
  shows "\<exists>b'. store_kv N k v b = Inr (True, b') \<and> agree N a' b'"
proof -
  have ib: "node_inv N b" by (rule agree_inv [OF assms(1-4)])
  have n: "unat (nxt a) < N" "unat (nxt b) < N" using assms(7) agree_fields(5) [OF assms(1)] by (simp_all add: room_def)
  have "records a = records b" using n by (intro agree_records [OF assms(1)]) simp
  then have mb: "node_map b k = None" using assms(6) by (simp add: node_map_def)
  have "append_record k v a = Inr a'"
    using assms(8) n find_kv_eq [OF assms(2), of k] assms(5,6) by (auto simp: store_kv_def available_def res_bind_eq_Inr)
  moreover have "N \<le> length (pairs b)" using assms(3,4) by (simp add: node_shape_def)
  ultimately obtain b' where "append_record k v b = Inr b'" "agree N a' b'" using append_agree [OF assms(1) _ n(1)] by blast
  then show ?thesis using n find_kv_eq [OF ib, of k] assms(5) mb by (simp add: store_kv_def available_def)
qed

lemma agree_crc:
  assumes "agree N a b" "node_shape a" "node_shape b" "cap t = Some N"
  shows "crc_validate f a t = crc_validate f b t"
proof -
  have "take (32 * N) (pairs_bytes (pairs a)) = take (32 * N) (pairs_bytes (pairs b))"
    using assms(2,3) agree_fields(7) [OF assms(1)] by (simp add: node_shape_def take_pairs_bytes)
  then show ?thesis using assms(4) by (auto simp: crc_validate_def cap_def split: option.splits node_type.splits)
qed

subsection \<open>Remote memory\<close>

lemma read_write_rem:
  assumes "length bs \<le> len" "len < 2 ^ 64"
  shows "read_rem (write_rem m a bs) a len = bs @ drop (length bs) (read_rem m a len)"
proof (rule nth_equalityI)
  fix i assume "i < length (read_rem (write_rem m a bs) a len)"
  then have i: "i < len" by simp
  then have "unat (of_nat i :: u64) = i" using assms(2) by (simp add: unat_of_nat)
  then show "read_rem (write_rem m a bs) a len ! i = (bs @ drop (length bs) (read_rem m a len)) ! i"
    using i assms(1) by (simp add: read_rem_def write_rem_def nth_append)
qed (use assms in simp)

text \<open>The node that a remote pointer refers to, read as \<open>get\<close> reads it.\<close>

definition node_in :: "memory \<Rightarrow> remote_ptr \<Rightarrow> linked_node" where
  "node_in m p = decode_node (read_rem m (get_as p) sizeof16)"

lemma node_in_shape: "node_shape (node_in m p)"
  by (simp add: node_in_def sizeof16_def decode_shape)

text \<open>Reading the node of capacity \<open>N\<close> into the buffer and writing it back.\<close>

lemma fetched_agrees:
  assumes "off + 560 \<le> length b" "N \<le> 16" "L = sizeof_linked_node 16 N"
  shows "agree N (view off (put_bytes off (read_rem m (get_as p) L) b)) (node_in m p)"
proof -
  have L: "44 + 32 * N \<le> L" "L \<le> 560" using assms(2) by (simp_all add: assms(3) sizeof_linked_node_def)
  have r: "take k (drop j (read_rem m (get_as p) L)) = take k (drop j (read_rem m (get_as p) 560))" if "j + k \<le> L" for j k
    using that L by (simp add: read_rem_def take_map drop_map)
  have d: "take k (drop j (take 560 (drop off (put_bytes off (read_rem m (get_as p) L) b)))) = take k (drop j (read_rem m (get_as p) L))"
    if "j + k \<le> L" for j k
    using that L assms(1) by (simp add: put_bytes_def drop_take take_take min_def)
  show ?thesis
    unfolding view_def node_in_def sizeof16_def
    using L assms(2) d [of 0 18] d [of 20 "24 + 32 * N"] r [of 0 18] r [of 20 "24 + 32 * N"]
    by (intro decode_agree) simp_all
qed

lemma written_agrees:
  assumes "off + 560 \<le> length b" "N \<le> 16" "L = sizeof_linked_node 16 N"
  shows "agree N (node_in (write_rem m (get_as p) (take L (drop off b))) p) (view off b)"
proof -
  have L: "44 + 32 * N \<le> L" "L \<le> 560" using assms(2) by (simp_all add: assms(3) sizeof_linked_node_def)
  have "read_rem (write_rem m (get_as p) (take L (drop off b))) (get_as p) 560 =
      take L (drop off b) @ drop L (read_rem m (get_as p) 560)"
    using L assms(1) read_write_rem [of "take L (drop off b)" 560 m "get_as p"] by (simp add: min_def)
  then show ?thesis
    unfolding view_def node_in_def sizeof16_def using L assms(1,2)
    by (intro decode_agree) (auto simp: drop_take take_take min_def)
qed

subsection \<open>Helping within the room there is\<close>

lemma append_shape:
  assumes "append_record k v b = Inr b'" "node_shape b" "wide k" "wide v"
  shows "node_shape b'" "nxt b' = nxt b + 1"
proof -
  let ?i = "unat (nxt b)"
  have i: "?i < length (fingerprints b)" "?i < length (pairs b)"
    using assms(1) by (auto simp: append_record_def Let_def res_bind_eq_Inr wr_eq_Inr rd_eq_Inr)
  then have "kv_ok (pairs b ! ?i)" using assms(2) by (simp add: node_shape_def list_all_length)
  then have "b' = b\<lparr>fingerprints := (fingerprints b)[?i := fp k], pairs := (pairs b)[?i := \<lparr>kv_key = k, kv_value = v\<rparr>], nxt := nxt b + 1\<rparr>"
    using assms(1,3,4) i by (simp add: append_record_def Let_def kv_ok_def)
  with assms(2-4) show "node_shape b'" "nxt b' = nxt b + 1"
    by (auto simp: node_shape_def list_all_iff kv_ok_def dest!: set_update_subset_insert [THEN subsetD])
qed

lemma store_shape:
  assumes "store_kv N k v b = Inr (s, b')" "node_shape b" "wide k" "wide v"
  shows "node_shape b' \<and> room N b \<le> Suc (room N b')"
proof -
  have "unat (nxt b + 1) \<le> Suc (unat (nxt b))" by (simp add: unat_word_ariths)
  moreover have "b' = b \<or> append_record k v b = Inr b'"
    using assms(1) by (auto simp: store_kv_def res_bind_eq_Inr split: if_splits)
  ultimately show ?thesis using append_shape [OF _ assms(2-4), of b'] assms(2) by (auto simp: room_def)
qed

lemma help_pred_shape:
  assumes "help_pred b k v = Inr (s, b')" "node_shape b" "wide k" "wide v"
  shows "node_shape b'"
  using assms store_shape [of _ k v b s b'] by (auto simp: help_pred_eq split: option.splits)

lemma help_others_shape:
  "help_others N anch pred rb q ans = Inr (pred', rb', ans', q') \<Longrightarrow> list_all wide_request q \<Longrightarrow>
   node_shape pred \<Longrightarrow> node_shape rb \<Longrightarrow>
   node_shape pred' \<and> node_shape rb' \<and> room N rb + length ans \<le> room N rb' + length ans'"
proof (induction q arbitrary: pred rb ans)
  case (Cons r q)
  have w0: "wide_request r" and w3: "list_all wide_request q" using Cons.prems(2) by simp_all
  then have w: "wide (tag r)" "wide (content r)" "list_all wide_request q" by (simp_all only: wide_request_def)
  show ?case
  proof (cases "tag r < anch")
    case True
    with Cons.prems(1) obtain s p where p: "help_pred pred (tag r) (content r) = Inr (s, p)"
      "help_others N anch p rb q (ans @ [r\<lparr>succeed := s, retry := \<not> s, is_done := True\<rparr>]) = Inr (pred', rb', ans', q')"
      by (auto simp: res_bind_eq_Inr)
    from Cons.IH [OF p(2) w(3) help_pred_shape [OF p(1) Cons.prems(3) w(1,2)] Cons.prems(4)] show ?thesis by simp
  next
    case False
    with Cons.prems(1) obtain s b where b: "store_kv N (tag r) (content r) rb = Inr (s, b)"
      "(if \<not> s then Inr (pred, b, ans, q @ [r]) else help_others N anch pred b q
          (ans @ [r\<lparr>succeed := s, retry := False, is_done := True\<rparr>])) = Inr (pred', rb', ans', q')"
      by (auto simp: res_bind_eq_Inr)
    note sh = store_shape [OF b(1) Cons.prems(4) w(1,2)]
    show ?thesis
    proof (cases s)
      case True
      with b(2) Cons.IH [of pred b] w(3) Cons.prems(3) sh show ?thesis by fastforce
    next
      case False
      have "room N b = room N rb"
        using b(1) False by (auto simp: store_kv_def res_bind_eq_Inr split: if_splits)
      with b(2) False sh Cons.prems(3) show ?thesis by auto
    qed
  qed
qed auto

lemma body_simps [simp]: "body (r\<lparr>succeed := a, retry := b, is_done := c\<rparr>) = body r"
  by (simp add: body_def)

lemma help_others_bodies:
  "help_others N anch pred rb q ans = Inr (pred', rb', ans', q') \<Longrightarrow> list_all is_done ans \<Longrightarrow>
   mset (map body ans') + mset (map body q') = mset (map body ans) + mset (map body q) \<and> list_all is_done ans'"
proof (induction N anch pred rb q ans rule: help_others.induct)
  case (2 N anch pred rb r q ans)
  show ?case
  proof (cases "tag r < anch")
    case True
    with 2(3) obtain s p where "help_pred pred (tag r) (content r) = Inr (s, p)"
      "help_others N anch p rb q (ans @ [r\<lparr>succeed := s, retry := \<not> s, is_done := True\<rparr>]) = Inr (pred', rb', ans', q')"
      by (auto simp: res_bind_eq_Inr)
    with 2(1) [OF True, of "(s, p)" s p] 2(4) show ?thesis by simp
  next
    case False
    with 2(3) obtain s b where b: "store_kv N (tag r) (content r) rb = Inr (s, b)"
      "(if \<not> s then Inr (pred, b, ans, q @ [r]) else help_others N anch pred b q
          (ans @ [r\<lparr>succeed := s, retry := False, is_done := True\<rparr>])) = Inr (pred', rb', ans', q')"
      by (auto simp: res_bind_eq_Inr)
    with 2(2) [OF False, of "(s, b)" s b] 2(4) show ?thesis by (cases s) auto
  qed
qed auto

text \<open>With room for all of them, every request is answered, and those not below the anchor are
  stored.\<close>

lemma help_others_room:
  assumes "typed_inv pred" "node_inv N rb" "node_shape pred" "node_shape rb" "list_all wide_request q" "length q \<le> room N rb"
  obtains pred' rb' ans where "help_others N anch pred rb q [] = Inr (pred', rb', ans, [])" "node_shape pred'" "node_shape rb'"
    "typed_inv pred'" "node_inv N rb'" "same_meta rb' rb" "list_all (answered anch pred' rb') ans"
    "mset (map body ans) = mset (map body q)"
    "node_map rb' = map_of (filter (\<lambda>(k, _). \<not> k < anch) (map body ans)) ++ node_map rb"
proof -
  have "list_all (answered anch pred rb) []" by simp
  from help_others_ok [OF assms(1,2,5) this] obtain pred' rb' ans q' where
    h: "help_others N anch pred rb q [] = Inr (pred', rb', ans, q')" "typed_inv pred'" "node_inv N rb'" "same_meta rb' rb"
      "list_all (answered anch pred' rb') ans" "mset (map body ans) + mset (map body q') = mset (map body q)"
      "q' = [] \<or> room N rb' = 0" "node_map rb' = map_of (filter (\<lambda>(k, _). \<not> k < anch) (map body ans)) ++ node_map rb"
    by (auto simp only: append_Nil)
  note sh = help_others_shape [OF h(1) assms(5,3,4)]
  have "size (mset (map body ans) + mset (map body q')) = size (mset (map body q))" by (simp only: h(6))
  then have "length ans + length q' = length q" by simp
  then have "length q' \<le> 0" using sh h(7) assms(6) by (cases q') auto
  then have "q' = []" by simp
  with h sh show ?thesis by (intro that [of pred' rb' ans]) simp_all
qed

end
