(* ===== verification/WinnerProofs.thy ===== *)
theory WinnerProofs
  imports ComputeProofs
begin

text \<open>
  The operations of a thread that wins a node, run inside the contract \<open>rdma_fabric\<close>: reading,
  winning two nodes, storing into the node in the buffer, writing it back and leaving.
\<close>

subsection \<open>Steps\<close>

named_theorems step_simps \<open>one step of a computation whose outcome is known\<close>

definition upd_node :: "skiplist \<Rightarrow> nat \<Rightarrow> skip_node \<Rightarrow> skiplist" where
  "upd_node sl a n = sl\<lparr>heap := (heap sl)(a \<mapsto> n)\<rparr>"

lemma deref_upd [simp]: "deref (upd_node sl a n) p = (if p = Some a then Inr n else deref sl p)"
  by (auto simp: upd_node_def deref_def split: option.split)

lemma upd_node_simps [simp]: "upd_node (upd_node sl a n) a n' = upd_node sl a n'"
  "deref sl (Some a) = Inr n \<Longrightarrow> upd_node sl a n = sl"
  by (auto simp: upd_node_def deref_def fun_upd_idem split: option.splits)

lemma upd_node_commute: "a \<noteq> b \<Longrightarrow> upd_node (upd_node sl a n) b n' = upd_node (upd_node sl b n') a n"
  by (simp add: upd_node_def fun_upd_twist)

lemma ctx_at_bind [step_simps]: "cctx s c = Some x \<Longrightarrow> st_bind (ctx_at c) f s = f x s"
  by (simp add: st_bind_def ctx_at_def)

lemma ctx_mod_bind [step_simps]:
  "cctx s c = Some x \<Longrightarrow> st_bind (ctx_mod c g) f s = f () (s\<lparr>cctx := (cctx s)(c \<mapsto> g x)\<rparr>)"
  by (simp add: st_bind_def ctx_mod_def)

lemma node_at_bind [step_simps]: "deref (slist s) p = Inr n \<Longrightarrow> st_bind (node_at p) f s = f n s"
  by (simp add: st_bind_def node_at_def)

lemma set_node_bind [step_simps]:
  "deref (slist s) (Some a) = Inr n \<Longrightarrow> st_bind (set_node (Some a) g) f s = f () (s\<lparr>slist := upd_node (slist s) a (g n)\<rparr>)"
  by (simp add: st_bind_def set_node_def modify_def upd_node_def)

lemma get_view_bind [step_simps]: "st_bind (get_view off) f s = f (view off (lbuf (net s))) s"
  by (simp add: get_view_def)

lemma set_view_bind [step_simps]:
  "st_bind (set_view off n) f s = f () (s\<lparr>net := (net s)\<lparr>lbuf := put_view off n (lbuf (net s))\<rparr>\<rparr>)"
  by (simp add: set_view_def)

lemma deliver_bind [step_simps]:
  "st_bind (deliver rs) f s = f () (s\<lparr>answers := answers s ++ map_of (map (\<lambda>r. (rid r, r)) rs)\<rparr>)"
  by (simp add: deliver_def)

lemma find_ctx_bind [step_simps]: "cctx s tid \<noteq> None \<Longrightarrow> st_bind (find_ctx tid) f s = f () s"
  by (auto simp: find_ctx_def)

lemma on_net_bind [step_simps]: "g (net s) = Some (Inr (a, n)) \<Longrightarrow> st_bind (on_net g) f s = f a (s\<lparr>net := n\<rparr>)"
  by (simp add: st_bind_def on_net_def)

lemma st_post_run [step_simps]: "g n = Inr (a, n') \<Longrightarrow> st_post g n = Some (Inr (a, n'))"
  by (simp add: st_post_def)

lemma st_poll_run [step_simps]: "poll_one_completion V x True n = Some (a, n') \<Longrightarrow> st_poll V x n = Some (Inr (a, n'))"
  by (simp add: st_poll_def)

lemma cas_ctx_bind [step_simps]:
  "deref (slist s) (Some a) = Inr n \<Longrightarrow> st_bind (cas_ctx (Some a) me) f s =
    (if ctx n = None then f (True, None) (s\<lparr>slist := upd_node (slist s) a (n\<lparr>ctx := Some me\<rparr>)\<rparr>) else f (False, ctx n) s)"
  by (simp add: cas_ctx_def node_at_bind set_node_bind)

subsection \<open>A thread that can work\<close>

text \<open>The contexts of the thread are set up and nothing is outstanding on its buffer.\<close>

definition usable :: "(rdma_context \<Rightarrow> bool) \<Rightarrow> ('w net \<Rightarrow> (nat \<times> send_wr) list) \<Rightarrow> nat \<Rightarrow> 'w cn \<Rightarrow> bool" where
  "usable conn os tid s \<longleftrightarrow>
     (\<exists>xs ys. rdma_ctxs (rm s) tid = Some xs \<and> parallel_rdma_ctxs (rm s) tid = Some ys \<and> length ys = length xs \<and>
        list_all conn xs \<and> list_all conn ys) \<and>
     os (net s) = [] \<and> length (lbuf (net s)) = 8192"

definition reaches :: "(u64 \<Rightarrow> nat \<Rightarrow> bool) \<Rightarrow> nat \<Rightarrow> 'w cn \<Rightarrow> remote_ptr \<Rightarrow> nat \<Rightarrow> bool" where
  "reaches reg tid s p sz \<longleftrightarrow>
     (\<exists>xs. rdma_ctxs (rm s) tid = Some xs \<and> get_node p < length xs) \<and> reg (get_as p) sz"

text \<open>What the other threads do while this one waits is to hand in requests.\<close>

definition enqueue :: "nat \<Rightarrow> request list \<Rightarrow> 'w cn \<Rightarrow> 'w cn" where
  "enqueue tid q s = s\<lparr>cctx := (cctx s)(tid := map_option (\<lambda>c. c\<lparr>requests := requests c @ q\<rparr>) (cctx s tid))\<rparr>"

definition drained :: "nat \<Rightarrow> conc_ctx \<Rightarrow> 'w cn \<Rightarrow> 'w cn" where
  "drained tid c s = s\<lparr>answers := answers s ++ map_of (map (\<lambda>r. (rid r, r\<lparr>succeed := False, retry := True, is_done := True\<rparr>)) (requests c)),
     cctx := (cctx s)(tid \<mapsto> c\<lparr>requests := []\<rparr>)\<rparr>"

lemma drain_pending_run: "cctx s tid = Some c \<Longrightarrow> drain_pending tid s = Some (Inr ((), drained tid c s))"
  by (simp add: drain_pending_def step_simps drained_def comp_def) (simp add: ctx_mod_def)

lemma drained_fields [simp]:
  "slist (drained tid c s) = slist s" "rm (drained tid c s) = rm s" "net (drained tid c s) = net s"
  "cctx (drained tid c s) tid = Some (c\<lparr>requests := []\<rparr>)" "usable cn os tid (drained tid c s) = usable cn os tid s"
  "reaches reg tid (drained tid c s) p sz = reaches reg tid s p sz"
  by (simp_all add: drained_def usable_def reaches_def)

context rdma_fabric
begin

lemma fetch_run:
  assumes "usable connected outstanding tid s" "reaches registered tid s p sz" "off + sz \<le> 8192"
  shows "\<exists>n'. fetch_as V (rm s) tid p sz off (net s) = Some (Inr (Some 0, n')) \<and> outstanding n' = [] \<and>
    lbuf n' = put_bytes off (read_rem (snd (settled (net s))) (get_as p) sz) (lbuf (net s)) \<and>
    snd (settled n') = snd (settled (net s)) \<and> length (lbuf n') = 8192"
proof -
  obtain xs where xs: "rdma_ctxs (rm s) tid = Some xs" "get_node p < length xs" "registered (get_as p) sz"
    and u: "list_all connected xs" "outstanding (net s) = []" "length (lbuf (net s)) = 8192"
    using assms(1,2) by (auto simp: usable_def reaches_def)
  let ?x = "xs ! get_node p"
  have c: "connected ?x" using u(1) xs(2) by (simp add: list_all_length)
  have b: "off + sz \<le> length (lbuf (net s))" "length (lbuf (net s)) < 2 ^ 32" using u(3) assms(3) by simp_all
  obtain n1 n2 k where "post_read V ?x (get_as p) sz off (net s) = Inr ((status.Ok, 0), n1)"
    "poll_one_completion V ?x True n1 = Some ((False, k), n2)" "outstanding n2 = []"
    "lbuf n2 = put_bytes off (read_rem (snd (settled (net s))) (get_as p) sz) (lbuf (net s))"
    "snd (settled n2) = snd (settled (net s))" "length (lbuf n2) = length (lbuf (net s))"
    by (rule read_sync [OF c u(2) b xs(3)])
  with xs u show ?thesis by (intro exI [of _ n2]) (simp add: fetch_as_def st_bind_def st_post_def st_poll_def st_lift_def st_ret_def)
qed

lemma write_back_run:
  assumes "usable connected outstanding tid s" "reaches registered tid s p sz" "560 + sz \<le> 8192"
  shows "\<exists>n'. write_back_current V (rm s) tid p sz (net s) = Some (Inr (True, n')) \<and> outstanding n' = [] \<and>
    lbuf n' = lbuf (net s) \<and> snd (settled n') = write_rem (snd (settled (net s))) (get_as p) (take sz (drop 560 (lbuf (net s))))"
proof -
  obtain xs where xs: "rdma_ctxs (rm s) tid = Some xs" "get_node p < length xs" "registered (get_as p) sz"
    and u: "list_all connected xs" "outstanding (net s) = []" "length (lbuf (net s)) = 8192"
    using assms(1,2) by (auto simp: usable_def reaches_def)
  let ?x = "xs ! get_node p"
  have c: "connected ?x" using u(1) xs(2) by (simp add: list_all_length)
  have b: "560 + sz \<le> length (lbuf (net s))" "length (lbuf (net s)) < 2 ^ 32" using u(3) assms(3) by simp_all
  obtain n1 n2 k where "post_write V ?x (get_as p) None sz 560 (net s) = Inr ((status.Ok, 0), n1)"
    "poll_one_completion V ?x True n1 = Some ((False, k), n2)" "outstanding n2 = []" "lbuf n2 = lbuf (net s)"
    "snd (settled n2) = write_rem (snd (settled (net s))) (get_as p) (take sz (drop 560 (lbuf (net s))))"
    by (rule write_sync [OF c u(2) b xs(3)])
  with xs u show ?thesis
    by (intro exI [of _ n2]) (simp add: write_back_current_def st_bind_def st_post_def st_poll_def st_lift_def st_ret_def non_null_def)
qed

lemma fetch_two_run:
  assumes "usable connected outstanding tid s" "vb E = V"
    and "deref (slist s) l = Inr nl" "deref (slist s) r = Inr nr"
    and "reaches registered tid s (data_node nl) (sizeof_node (sn_type nl))"
    and "registered (get_as (data_node nr)) (sizeof_node (sn_type nr))"
    and "sizeof_node (sn_type nl) \<le> 560" "sizeof_node (sn_type nr) \<le> 560"
  shows "\<exists>n'. fetch_two E tid par l r s = Some (Inr ((0, sizeof16), s\<lparr>net := n'\<rparr>)) \<and> outstanding n' = [] \<and>
    lbuf n' = put_bytes 0 (read_rem (snd (settled (net s))) (get_as (data_node nl)) (sizeof_node (sn_type nl)))
      (put_bytes 560 (read_rem (snd (settled (net s))) (get_as (data_node nr)) (sizeof_node (sn_type nr))) (lbuf (net s))) \<and>
    snd (settled n') = snd (settled (net s)) \<and> length (lbuf n') = 8192"
proof -
  obtain xs ys where xs: "rdma_ctxs (rm s) tid = Some xs" "parallel_rdma_ctxs (rm s) tid = Some ys" "length ys = length xs"
      "get_node (data_node nl) < length xs" "registered (get_as (data_node nl)) (sizeof_node (sn_type nl))"
    and u: "list_all connected xs" "list_all connected ys" "outstanding (net s) = []" "length (lbuf (net s)) = 8192"
    using assms(1,5) by (auto simp: usable_def reaches_def)
  define x where "x = xs ! get_node (data_node nl)"
  define y where "y = (if par then ys ! get_node (data_node nl) else x)"
  have c: "connected x" "connected y" using u(1,2) xs(3,4) by (simp_all add: list_all_length x_def y_def)
  have x: "res_bind (get_rdma (rm s) tid (data_node nl)) non_null = Inr x"
    using xs by (simp add: get_rdma_def non_null_def x_def)
  have y: "par \<Longrightarrow> res_bind (get_parallel_rdma (rm s) tid (data_node nl)) non_null = Inr y" "\<not> par \<Longrightarrow> y = x"
    using xs by (simp_all add: get_parallel_rdma_def non_null_def y_def)
  have b: "560 + sizeof_node (sn_type nr) \<le> length (lbuf (net s))" "length (lbuf (net s)) < 2 ^ 32"
    using u(4) assms(8) by simp_all
  obtain n1 n2 n3 n4 k k' where
      p: "post_read V x (get_as (data_node nr)) (sizeof_node (sn_type nr)) 560 (net s) = Inr ((status.Ok, 0), n1)"
      "post_read V y (get_as (data_node nl)) (sizeof_node (sn_type nl)) 0 n1 = Inr ((status.Ok, 0), n2)"
      "poll_one_completion V x True n2 = Some ((False, k), n3)" "poll_one_completion V y True n3 = Some ((False, k'), n4)"
    and r: "outstanding n4 = []" "snd (settled n4) = snd (settled (net s))" "length (lbuf n4) = length (lbuf (net s))"
      "lbuf n4 = put_bytes 0 (read_rem (snd (settled (net s))) (get_as (data_node nl)) (sizeof_node (sn_type nl)))
        (put_bytes 560 (read_rem (snd (settled (net s))) (get_as (data_node nr)) (sizeof_node (sn_type nr))) (lbuf (net s)))"
    by (rule read_two_sync [OF c u(3) b(1) assms(7) b(2) assms(6) xs(5)])
  have "fetch_two E tid par l r s = Some (Inr ((0, sizeof16), s\<lparr>net := n4\<rparr>))"
    using assms(2,3,4) x y p by (cases par) (simp_all add: fetch_two_def step_simps sizeof16_def, simp_all add: st_ret_def)
  with r u(4) show ?thesis by (intro exI [of _ n4]) simp
qed

lemma win_insert_run:
  assumes u: "usable connected outstanding tid s" and E: "vb E = V" "others E = enqueue tid q"
    and c: "cctx s tid = Some c"
    and d: "deref (slist s) (Some d) = Inr n" "ctx n = None" "backward n = Some b"
    and b: "b \<noteq> d" "deref (slist s) (Some b) = Inr nb" "ctx nb = None"
    and r: "reaches registered tid s (data_node nb) (sizeof_node (sn_type nb))"
      "registered (get_as (data_node n)) (sizeof_node (sn_type n))"
      "sizeof_node (sn_type nb) \<le> 560" "sizeof_node (sn_type n) \<le> 560"
  shows "\<exists>n'. try_win_for_insert E tid par d t s = Some (Inr ((True, Some tid),
      s\<lparr>slist := upd_node (upd_node (slist s) d (n\<lparr>ctx := Some tid\<rparr>)) b (nb\<lparr>ctx := Some tid\<rparr>),
        cctx := (cctx s)(tid \<mapsto> c\<lparr>ctype := t, requests := requests c @ q, user_context := Some 0, max_depth := - 1\<rparr>), net := n'\<rparr>)) \<and>
    outstanding n' = [] \<and> length (lbuf n') = 8192 \<and> snd (settled n') = snd (settled (net s)) \<and>
    lbuf n' = put_bytes 0 (read_rem (snd (settled (net s))) (get_as (data_node nb)) (sizeof_node (sn_type nb)))
      (put_bytes 560 (read_rem (snd (settled (net s))) (get_as (data_node n)) (sizeof_node (sn_type n))) (lbuf (net s)))"
proof -
  let ?sl = "upd_node (upd_node (slist s) d (n\<lparr>ctx := Some tid\<rparr>)) b (nb\<lparr>ctx := Some tid\<rparr>)"
  let ?s = "s\<lparr>slist := ?sl, cctx := (cctx s)(tid \<mapsto> c\<lparr>ctype := t, max_depth := 4, requests := requests c @ q\<rparr>)\<rparr>"
  have u': "usable connected outstanding tid ?s" using u by (simp add: usable_def)
  have r': "reaches registered tid ?s (data_node (nb\<lparr>ctx := Some tid\<rparr>)) (sizeof_node (sn_type (nb\<lparr>ctx := Some tid\<rparr>)))"
    using r(1) by (simp add: reaches_def)
  have dr: "deref (slist ?s) (Some b) = Inr (nb\<lparr>ctx := Some tid\<rparr>)" "deref (slist ?s) (Some d) = Inr (n\<lparr>ctx := Some tid\<rparr>)"
    using b(1) by simp_all
  have rr: "registered (get_as (data_node (n\<lparr>ctx := Some tid\<rparr>))) (sizeof_node (sn_type (n\<lparr>ctx := Some tid\<rparr>)))"
    "sizeof_node (sn_type (nb\<lparr>ctx := Some tid\<rparr>)) \<le> 560" "sizeof_node (sn_type (n\<lparr>ctx := Some tid\<rparr>)) \<le> 560"
    using r(2-4) by simp_all
  obtain n' where f: "fetch_two E tid par (Some b) (Some d) ?s = Some (Inr ((0, sizeof16), ?s\<lparr>net := n'\<rparr>))"
    and n': "outstanding n' = []" "length (lbuf n') = 8192" "snd (settled n') = snd (settled (net ?s))"
      "lbuf n' = put_bytes 0 (read_rem (snd (settled (net ?s))) (get_as (data_node (nb\<lparr>ctx := Some tid\<rparr>))) (sizeof_node (sn_type (nb\<lparr>ctx := Some tid\<rparr>))))
        (put_bytes 560 (read_rem (snd (settled (net ?s))) (get_as (data_node (n\<lparr>ctx := Some tid\<rparr>))) (sizeof_node (sn_type (n\<lparr>ctx := Some tid\<rparr>)))) (lbuf (net ?s)))"
    using fetch_two_run [OF u' E(1) dr r' rr, of par] by blast
  have "try_win_for_insert E tid par d t s = st_bind (fetch_two E tid par (Some b) (Some d)) (\<lambda>(buffer, _).
          st_bind (ctx_mod tid (\<lambda>c. c\<lparr>user_context := Some buffer, max_depth := - 1\<rparr>)) (\<lambda>_. st_ret (True, Some tid))) ?s"
    using b d c E(2) by (simp add: try_win_for_insert_def step_simps Let_def enqueue_def)
  also have "\<dots> = Some (Inr ((True, Some tid),
      s\<lparr>slist := ?sl, cctx := (cctx s)(tid \<mapsto> c\<lparr>ctype := t, requests := requests c @ q, user_context := Some 0, max_depth := - 1\<rparr>), net := n'\<rparr>))"
    unfolding st_bind_Inr [of "fetch_two E tid par (Some b) (Some d)", OF f] by (simp add: step_simps) (simp add: st_ret_def)
  finally show ?thesis using n' by (intro exI [of _ n']) simp
qed

text \<open>Leaving: both nodes are released, and nothing of the search layer has changed.\<close>

end

lemma leave_run:
  assumes c: "cctx s tid = Some c"
    and d: "deref (slist s) (Some d) = Inr n" "backward n = Some b" "b \<noteq> d" "deref (slist s) (Some b) = Inr nb"
  shows "leave tid d True s = Some (Inr ((True, False),
    s\<lparr>slist := upd_node (upd_node (slist s) d (n\<lparr>ctx := None\<rparr>)) b (nb\<lparr>ctx := None\<rparr>),
      cctx := (cctx s)(tid \<mapsto> c\<lparr>max_depth := 4\<rparr>)\<rparr>))"
  using assms by (simp add: leave_def step_simps) (simp add: st_ret_def)

context rdma_fabric
begin

text \<open>Storing into the fetched node, helping the waiting threads and writing the node back.\<close>

lemma try_put_run:
  fixes s :: "'w cn"
  assumes u: "usable connected outstanding tid s" and E: "vb E = V"
    and c: "cctx s tid = Some c" "user_context c = Some 0" and d: "deref (slist s) (Some d) = Inr n"
    and st: "store_kv N key val (view 560 (lbuf (net s))) = Inr (True, real1)" "node_shape real1"
    and h: "help_others N (anchor n) (view 0 (lbuf (net s))) real1 (requests c) [] = Inr (pred', real2, ans, [])"
      "node_shape pred'" "node_shape real2"
    and r: "reaches registered tid s (data_node n) (sizeof_linked_node 16 N)" "N \<le> 16"
  shows "\<exists>n'. try_put_to_existing_node E tid N d key val s = Some (Inr ((True, 0),
      s\<lparr>answers := answers s ++ map_of (map (\<lambda>r. (rid r, r)) ans), cctx := (cctx s)(tid \<mapsto> c\<lparr>requests := []\<rparr>), net := n'\<rparr>)) \<and>
    outstanding n' = [] \<and> length (lbuf n') = 8192 \<and> view 0 (lbuf n') = pred' \<and> view 560 (lbuf n') = real2 \<and>
    snd (settled n') = write_rem (snd (settled (net s))) (get_as (data_node n))
      (take (sizeof_linked_node 16 N) (drop 560 (lbuf n')))"
proof -
  let ?b = "lbuf (net s)" and ?L = "sizeof_linked_node 16 N"
  let ?b1 = "put_view 560 real1 ?b"
  let ?b2 = "put_view 560 real2 (put_view 0 pred' ?b1)"
  let ?s = "s\<lparr>net := (net s)\<lparr>lbuf := ?b2\<rparr>, answers := answers s ++ map_of (map (\<lambda>r. (rid r, r)) ans),
    cctx := (cctx s)(tid \<mapsto> c\<lparr>requests := []\<rparr>)\<rparr>"
  have l: "length ?b = 8192" "outstanding (net s) = []" using u by (simp_all add: usable_def)
  have l1: "length ?b1 = 8192" "length (put_view 0 pred' ?b1) = 8192" "length ?b2 = 8192"
    using l st(2) h(2,3) by (simp_all add: put_view_length)
  have v: "view 0 ?b1 = view 0 ?b" "view 560 ?b1 = real1" "view 0 ?b2 = pred'" "view 560 ?b2 = real2"
    using l l1 st(2) h(2,3) by (simp_all add: view_put_other)
  note w = cpu_write [OF l(2), of ?b2]
  have u': "usable connected outstanding tid ?s" using u w l1 by (simp add: usable_def)
  have r': "reaches registered tid ?s (data_node n) ?L" using r(1) by (simp add: reaches_def)
  have L: "560 + ?L \<le> 8192" using r(2) by (simp add: sizeof_linked_node_def)
  obtain n' where f: "write_back_current V (rm ?s) tid (data_node n) ?L (net ?s) = Some (Inr (True, n'))"
    and n': "outstanding n' = []" "lbuf n' = lbuf (net ?s)"
      "snd (settled n') = write_rem (snd (settled (net ?s))) (get_as (data_node n)) (take ?L (drop 560 (lbuf (net ?s))))"
    using write_back_run [OF u' r' L] by blast
  have "try_put_to_existing_node E tid N d key val s =
      st_bind (on_net (write_back_current V (rm ?s) tid (data_node n) ?L)) (\<lambda>ret. st_ret (ret, 0)) ?s"
    using c d st h v E by (simp add: try_put_to_existing_node_def help_in_buffer_def step_simps non_null_def sizeof16_def)
  also have "\<dots> = Some (Inr ((True, 0), ?s\<lparr>net := n'\<rparr>))"
    using f by (simp add: step_simps) (simp add: st_ret_def)
  finally show ?thesis using n' w l1 v by (intro exI [of _ n']) simp
qed

end

subsection \<open>Insertion into a node with room\<close>

lemma cap_size: "cap t = Some N \<Longrightarrow> sizeof_node t = sizeof_linked_node 16 N \<and> N \<le> 16 \<and> 10 \<le> N"
  by (auto simp: cap_def sizeof_node_def split: option.splits node_type.splits)

lemma drop_put_bytes: "length m \<le> k \<Longrightarrow> drop k (put_bytes 0 m b) = drop k b"
  by (simp add: put_bytes_def)

lemma sizeof_node_le: "sizeof_node t \<le> 560"
  by (auto simp: sizeof_node_def split: option.split node_type.split)

text \<open>Each of the four insertions that stores in place.\<close>

lemma dispatch_fast:
  assumes "deref (slist s) (Some d) = Inr n" "cap (sn_type n) = Some N"
    and "drain_pending tid s = Some (Inr ((), s1))"
    and "try_win_for_insert E tid par d Insert s1 = Some (Inr ((True, Some tid), s2))"
    and "try_put_to_existing_node E tid N d key val s2 = Some (Inr ((True, 0), s3))"
    and "cctx s3 tid = Some c3" "user_context c3 \<noteq> None"
    and "leave tid d True s3 = Some (Inr ((True, False), s4))"
  shows "put_dispatcher E tid par (Some d) key val s = Some (Inr (True, s4))"
proof -
  have p: "put10 E tid par d key val s = Some (Inr ((True, False), s4))" if "N = 10"
    using assms(3-8) that
    by (auto simp: put10_def st_bind_Inr [of "drain_pending tid"] st_bind_Inr [of "try_win_for_insert E tid par d Insert"]
        st_bind_Inr [of "try_put_to_existing_node E tid 10 d key val"] ctx_at_bind non_null_def)
  have q: "put12 E tid par d key val s = Some (Inr ((True, False), s4))" if "N = 12"
    using assms(3-8) that
    by (simp add: put12_def st_bind_Inr [of "drain_pending tid"] st_bind_Inr [of "try_win_for_insert E tid par d Insert"]
        st_bind_Inr [of "try_put_to_existing_node E tid 12 d key val"])
  have r: "put14 E tid par d key val s = Some (Inr ((True, False), s4))" if "N = 14"
    using assms(3-8) that
    by (simp add: put14_def st_bind_Inr [of "drain_pending tid"] st_bind_Inr [of "try_win_for_insert E tid par d Insert"]
        st_bind_Inr [of "try_put_to_existing_node E tid 14 d key val"])
  have t: "put16 E tid par d key val s = Some (Inr ((True, False), s4))" if "N = 16"
    using assms(3-8) that
    by (simp add: put16_def st_bind_Inr [of "drain_pending tid"] st_bind_Inr [of "try_win_for_insert E tid par d Insert"]
        st_bind_Inr [of "try_put_to_existing_node E tid 16 d key val"])
  show ?thesis
    using assms(2) p q r t unfolding put_dispatcher.simps [of E tid par "Some d" key val s] node_at_bind [OF assms(1)] cap_def
    by (auto simp: st_bind_Inr [of "put10 E tid par d key val"] st_bind_Inr [of "put12 E tid par d key val"]
        st_bind_Inr [of "put14 E tid par d key val"] st_bind_Inr [of "put16 E tid par d key val"] st_ret_def
        split: option.splits node_type.splits)
qed

context rdma_fabric
begin

lemma put_fast_run:
  fixes s :: "'w cn"
  defines "mem \<equiv> snd (settled (net s))"
  assumes u: "usable connected outstanding tid s" and E: "vb E = V" "others E = enqueue tid q" and c: "cctx s tid = Some c"
    and d: "deref (slist s) (Some d) = Inr n" "ctx n = None" "backward n = Some b" "cap (sn_type n) = Some N"
    and b: "b \<noteq> d" "deref (slist s) (Some b) = Inr nb" "ctx nb = None"
    and r: "reaches registered tid s (data_node nb) (sizeof_node (sn_type nb))"
      "reaches registered tid s (data_node n) (sizeof_node (sn_type n))"
    and k: "wide key" "wide val" "node_inv N (node_in mem (data_node n))" "node_map (node_in mem (data_node n)) key = None"
    and q: "list_all wide_request q" "length q < room N (node_in mem (data_node n))"
      "q = [] \<or> (\<exists>M. cap (sn_type nb) = Some M \<and> ntype (node_in mem (data_node nb)) = sn_type nb \<and>
                      node_inv M (node_in mem (data_node nb)))"
  shows "\<exists>s' pred rb pred' rb' ans bs. put_dispatcher E tid par (Some d) key val s = Some (Inr (True, s')) \<and>
    help_others N (anchor n) pred rb q [] = Inr (pred', rb', ans, []) \<and>
    (\<forall>M. cap (sn_type nb) = Some M \<longrightarrow> agree M pred (node_in mem (data_node nb))) \<and>
    slist s' = slist s \<and> rm s' = rm s \<and> usable connected outstanding tid s' \<and> cctx s' tid \<noteq> None \<and>
    answers s' = answers (drained tid c s) ++ map_of (map (\<lambda>r. (rid r, r)) ans) \<and>
    snd (settled (net s')) = write_rem mem (get_as (data_node n)) bs \<and> length bs = sizeof_linked_node 16 N \<and>
    (let node = node_in (snd (settled (net s'))) (data_node n) in
       node_inv N node \<and> crc node = crc (node_in mem (data_node n)) \<and>
       node_map node = map_of (filter (\<lambda>(k, _). \<not> k < anchor n) (map body ans)) ++ (node_map (node_in mem (data_node n)))(key \<mapsto> val) \<and>
       (q = [] \<longrightarrow> records node = records (node_in mem (data_node n)) @ [(key, val)] \<and>
          (\<exists>new. store_kv N key val (node_in mem (data_node n)) = Inr (True, new) \<and> agree N node new)))"
proof -
  let ?old = "node_in mem (data_node n)" and ?L = "sizeof_linked_node 16 N"
  let ?s1 = "drained tid c s" and ?c1 = "c\<lparr>requests := []\<rparr>"
  let ?c2 = "?c1\<lparr>ctype := Insert, requests := requests ?c1 @ q, user_context := Some 0, max_depth := - 1\<rparr>"
  let ?sl = "upd_node (upd_node (slist s) d (n\<lparr>ctx := Some tid\<rparr>)) b (nb\<lparr>ctx := Some tid\<rparr>)"
  have N: "N \<le> 16" "10 \<le> N" "sizeof_node (sn_type n) = ?L" using cap_size [OF d(4)] by simp_all
  have u1: "usable connected outstanding tid ?s1" and c1: "cctx ?s1 tid = Some ?c1" using u by simp_all
  have d1: "deref (slist ?s1) (Some d) = Inr n" and b1: "deref (slist ?s1) (Some b) = Inr nb"
    and r1: "reaches registered tid ?s1 (data_node nb) (sizeof_node (sn_type nb))"
    using d b r by simp_all
  have rn: "registered (get_as (data_node n)) (sizeof_node (sn_type n))" using r(2) by (simp add: reaches_def)
  obtain n2 where w: "try_win_for_insert E tid par d Insert ?s1 = Some (Inr ((True, Some tid),
      ?s1\<lparr>slist := upd_node (upd_node (slist ?s1) d (n\<lparr>ctx := Some tid\<rparr>)) b (nb\<lparr>ctx := Some tid\<rparr>),
        cctx := (cctx ?s1)(tid \<mapsto> ?c2), net := n2\<rparr>))"
    and n2: "outstanding n2 = []" "length (lbuf n2) = 8192" "snd (settled n2) = snd (settled (net ?s1))"
      "lbuf n2 = put_bytes 0 (read_rem (snd (settled (net ?s1))) (get_as (data_node nb)) (sizeof_node (sn_type nb)))
        (put_bytes 560 (read_rem (snd (settled (net ?s1))) (get_as (data_node n)) (sizeof_node (sn_type n))) (lbuf (net ?s1)))"
    using win_insert_run [OF u1 E c1 d1 d(2,3) b(1) b1 b(3) r1 rn sizeof_node_le sizeof_node_le, of par Insert] by blast
  let ?s2 = "?s1\<lparr>slist := ?sl, cctx := (cctx ?s1)(tid \<mapsto> ?c2), net := n2\<rparr>"
  have w': "try_win_for_insert E tid par d Insert ?s1 = Some (Inr ((True, Some tid), ?s2))" using w by simp
  have mem2: "snd (settled n2) = mem" using n2(3) by (simp add: mem_def)
  let ?pred = "view 0 (lbuf n2)" and ?real = "view 560 (lbuf n2)"
  have l0: "length (lbuf (net s)) = 8192" using u by (simp add: usable_def)
  have sh: "node_shape ?pred" "node_shape ?real" using n2(2) by (simp_all add: view_shape)
  let ?bn = "put_bytes 560 (read_rem mem (get_as (data_node n)) ?L) (lbuf (net s))"
  have lb: "lbuf n2 = put_bytes 0 (read_rem mem (get_as (data_node nb)) (sizeof_node (sn_type nb))) ?bn"
    using n2(4) N(3) by (simp add: mem_def)
  have "?L \<le> 560" using N(1) by (simp add: sizeof_linked_node_def)
  then have lbn: "length ?bn = 8192" using l0 by (simp add: put_bytes_length)
  have ar: "agree N ?real ?old"
  proof -
    have "drop 560 (lbuf n2) = drop 560 ?bn"
      unfolding lb by (rule drop_put_bytes) (use sizeof_node_le [of "sn_type nb"] in simp)
    then have "?real = view 560 ?bn" by (simp add: view_def)
    then show ?thesis using fetched_agrees [of 560 "lbuf (net s)" N ?L mem "data_node n"] l0 N by simp
  qed
  have ap: "agree M ?pred (node_in mem (data_node nb))" if "cap (sn_type nb) = Some M" for M
    using fetched_agrees [of 0 ?bn M _ mem "data_node nb"] cap_size [OF that] lbn by (simp add: lb)
  have inv: "node_inv N ?real" by (rule agree_inv [OF agree_sym [OF ar] k(3) sh(2) N(1)])
  have nx: "unat (nxt ?real) \<le> N" using inv by (simp add: node_inv_def)
  have rec: "records ?real = records ?old" by (rule agree_records [OF ar nx])
  have rm0: "room N ?real = room N ?old" using agree_fields(5) [OF ar] by (simp add: room_def)
  have mp: "node_map ?real = node_map ?old" using rec by (simp add: node_map_def)
  have cr: "crc ?real = crc ?old" using agree_fields(3) [OF ar] .
  have nn: "room N ?real \<noteq> 0" "node_map ?real key = None" using q(2) k(4) rm0 mp by simp_all
  obtain real1 where st: "store_kv N key val ?real = Inr (True, real1)" "node_inv N real1" "records real1 = records ?real @ [(key, val)]"
    "room N real1 = room N ?real - 1" "crc real1 = crc ?real"
    by (rule store_kv_absent [OF inv k(1,2) nn])
  have sh1: "node_shape real1" using store_shape [OF st(1) sh(2) k(1,2)] by simp
  have m1: "node_map real1 = (node_map ?old)(key \<mapsto> val)" using node_map_append [OF st(3) nn(2)] mp by simp
  have "\<exists>pred' rb' ans. help_others N (anchor n) ?pred real1 q [] = Inr (pred', rb', ans, []) \<and> node_shape pred' \<and> node_shape rb' \<and>
      node_inv N rb' \<and> crc rb' = crc real1 \<and> node_map rb' = map_of (filter (\<lambda>(k, _). \<not> k < anchor n) (map body ans)) ++ node_map real1 \<and>
      (q = [] \<longrightarrow> rb' = real1)"
  proof (cases "q = []")
    case True
    then show ?thesis using sh sh1 st(2) by (intro exI [of _ ?pred] exI [of _ real1] exI [of _ "[]"]) simp
  next
    case False
    with q(3) obtain M where M: "cap (sn_type nb) = Some M" "ntype (node_in mem (data_node nb)) = sn_type nb"
      "node_inv M (node_in mem (data_node nb))" by blast
    have "node_inv M ?pred" using agree_inv [OF agree_sym [OF ap [OF M(1)]] M(3) sh(1)] cap_size [OF M(1)] by simp
    then have ti: "typed_inv ?pred" using agree_fields(4) [OF ap [OF M(1)]] M(1,2) by (simp add: typed_inv_def)
    have "length q \<le> room N real1" using q(2) st(4) rm0 by simp
    from help_others_room [OF ti st(2) sh(1) sh1 q(1) this, of "anchor n"] False show ?thesis
      unfolding same_meta_def by metis
  qed
  then obtain pred' rb' ans where h: "help_others N (anchor n) ?pred real1 q [] = Inr (pred', rb', ans, [])"
    "node_shape pred'" "node_shape rb'" "node_inv N rb'" "crc rb' = crc real1"
    "node_map rb' = map_of (filter (\<lambda>(k, _). \<not> k < anchor n) (map body ans)) ++ node_map real1" "q = [] \<Longrightarrow> rb' = real1" by blast
  have u2: "usable connected outstanding tid ?s2" using u n2 by (simp add: usable_def)
  have c2: "cctx ?s2 tid = Some ?c2" "user_context ?c2 = Some 0" by simp_all
  have d2: "deref (slist ?s2) (Some d) = Inr (n\<lparr>ctx := Some tid\<rparr>)" using b(1) by simp
  have r2: "reaches registered tid ?s2 (data_node (n\<lparr>ctx := Some tid\<rparr>)) ?L" using r(2) N(3) by (simp add: reaches_def)
  have st2: "store_kv N key val (view 560 (lbuf (net ?s2))) = Inr (True, real1)" using st(1) by simp
  have h2: "help_others N (anchor (n\<lparr>ctx := Some tid\<rparr>)) (view 0 (lbuf (net ?s2))) real1 (requests ?c2) [] = Inr (pred', rb', ans, [])"
    using h(1) by simp
  obtain n3 where p: "try_put_to_existing_node E tid N d key val ?s2 = Some (Inr ((True, 0),
      ?s2\<lparr>answers := answers ?s2 ++ map_of (map (\<lambda>r. (rid r, r)) ans), cctx := (cctx ?s2)(tid \<mapsto> ?c2\<lparr>requests := []\<rparr>), net := n3\<rparr>))"
    and n3: "outstanding n3 = []" "length (lbuf n3) = 8192" "view 560 (lbuf n3) = rb'"
      "snd (settled n3) = write_rem (snd (settled (net ?s2))) (get_as (data_node (n\<lparr>ctx := Some tid\<rparr>))) (take ?L (drop 560 (lbuf n3)))"
    using try_put_run [OF u2 E(1) c2 d2 st2 sh1 h2 h(2,3) r2 N(1)] by blast
  let ?s3 = "?s2\<lparr>answers := answers ?s2 ++ map_of (map (\<lambda>r. (rid r, r)) ans), cctx := (cctx ?s2)(tid \<mapsto> ?c2\<lparr>requests := []\<rparr>), net := n3\<rparr>"
  have c3: "cctx ?s3 tid = Some (?c2\<lparr>requests := []\<rparr>)" "user_context (?c2\<lparr>requests := []\<rparr>) \<noteq> None" by simp_all
  have d3: "deref (slist ?s3) (Some d) = Inr (n\<lparr>ctx := Some tid\<rparr>)" "backward (n\<lparr>ctx := Some tid\<rparr>) = Some b"
    "deref (slist ?s3) (Some b) = Inr (nb\<lparr>ctx := Some tid\<rparr>)" using d b(1) by simp_all
  note lv = leave_run [OF c3(1) d3(1,2) b(1) d3(3)]
  let ?s4 = "?s3\<lparr>slist := upd_node (upd_node (slist ?s3) d (n\<lparr>ctx := Some tid\<rparr>\<lparr>ctx := None\<rparr>)) b (nb\<lparr>ctx := Some tid\<rparr>\<lparr>ctx := None\<rparr>),
      cctx := (cctx ?s3)(tid \<mapsto> ?c2\<lparr>requests := [], max_depth := 4\<rparr>)\<rparr>"
  have f: "put_dispatcher E tid par (Some d) key val s = Some (Inr (True, ?s4))"
    by (rule dispatch_fast [OF d(1,4) drain_pending_run [OF c] w' p c3]) (use lv in simp)
  have nc: "n\<lparr>ctx := None\<rparr> = n" "nb\<lparr>ctx := None\<rparr> = nb" using d(2) b(3) by simp_all
  have sl: "slist ?s4 = slist s"
    using b d(1) nc by (simp add: upd_node_commute [of d b])
  let ?mem3 = "snd (settled n3)"
  have ag: "agree N (node_in ?mem3 (data_node n)) rb'"
    using written_agrees [of 560 "lbuf n3" N ?L mem "data_node n"] n3 N(1) mem2 by simp
  have nv: "node_inv N (node_in ?mem3 (data_node n))" by (rule agree_inv [OF agree_sym [OF ag] h(4) node_in_shape N(1)])
  have "unat (nxt (node_in ?mem3 (data_node n))) \<le> N" using nv by (simp add: node_inv_def)
  then have r3: "records (node_in ?mem3 (data_node n)) = records rb'" by (rule agree_records [OF ag])
  then have "node_map (node_in ?mem3 (data_node n)) = node_map rb'" by (simp add: node_map_def)
  then have mp3: "node_map (node_in ?mem3 (data_node n)) =
      map_of (filter (\<lambda>(k, _). \<not> k < anchor n) (map body ans)) ++ (node_map ?old)(key \<mapsto> val)" using h(6) m1 by simp
  obtain new where new: "store_kv N key val ?old = Inr (True, new)" "agree N real1 new"
    using store_agree [OF ar inv node_in_shape N(1) k(1) nn(2,1) st(1)] by blast
  have rc3: "q = [] \<longrightarrow> records (node_in ?mem3 (data_node n)) = records ?old @ [(key, val)] \<and>
      (\<exists>new. store_kv N key val ?old = Inr (True, new) \<and> agree N (node_in ?mem3 (data_node n)) new)"
    using r3 h(7) st(3) rec new agree_trans [OF ag] by auto
  have cr3: "crc (node_in ?mem3 (data_node n)) = crc ?old" using agree_fields(3) [OF ag] h(5) st(5) cr by simp
  have ln: "length (take ?L (drop 560 (lbuf n3))) = ?L" using n3(2) \<open>?L \<le> 560\<close> by simp
  have us: "usable connected outstanding tid ?s4" using u n3 by (simp add: usable_def)
  have m4: "snd (settled n3) = write_rem mem (get_as (data_node n)) (take ?L (drop 560 (lbuf n3)))" using n3(4) mem2 by simp
  have e: "net ?s4 = n3" "rm ?s4 = rm s" by simp_all
  have an: "answers ?s4 = answers (drained tid c s) ++ map_of (map (\<lambda>r. (rid r, r)) ans)" "cctx ?s4 tid \<noteq> None" by simp_all
  have aps: "\<forall>M. cap (sn_type nb) = Some M \<longrightarrow> agree M ?pred (node_in mem (data_node nb))" using ap by blast
  show ?thesis
    unfolding Let_def
    by (rule exI [of _ ?s4], rule exI [of _ ?pred], rule exI [of _ real1], rule exI [of _ pred'], rule exI [of _ rb'],
        rule exI [of _ ans], rule exI [of _ "take ?L (drop 560 (lbuf n3))"], unfold e, intro conjI f h(1) aps sl refl us an m4 ln nv cr3 mp3 rc3)
qed

end

end
