(* ===== verification/ReaderProofs.thy ===== *)
theory ReaderProofs
  imports WinnerProofs
begin

text \<open>
  Runs of \<open>get\<close> and \<open>update\<close> inside the contract \<open>rdma_fabric\<close>: one turn of the read path, and an
  update that wins its node.
\<close>

lemma view_fetched:
  assumes "560 \<le> length b"
  shows "view 0 (put_bytes 0 (read_rem m (get_as p) 560) b) = node_in m p"
  using assms by (simp add: view_def node_in_def put_bytes_def sizeof16_def)

lemma search_bind [step_simps]:
  "fuzzy_search key (slist s) = Some (Inr p) \<Longrightarrow> st_bind (search key) f s = f p s"
  by (simp add: st_bind_def search_def)

lemma usable_net:
  "usable conn os tid s \<Longrightarrow> os n' = [] \<Longrightarrow> length (lbuf n') = 8192 \<Longrightarrow> usable conn os tid (s\<lparr>net := n'\<rparr>)"
  by (simp add: usable_def)

text \<open>One turn of \<open>get\<close>; \<open>again\<close> is the next.\<close>

definition get_turn :: "'w env \<Rightarrow> nat \<Rightarrow> bytes \<Rightarrow> ('w cn \<Rightarrow> (bytes option \<times> 'w cn) run) \<Rightarrow> 'w cn \<Rightarrow> (bytes option \<times> 'w cn) run" where
  "get_turn E tid key again s =
     st_bind (drain_pending tid) (\<lambda>_.
     st_bind (search key) (\<lambda>p.
     st_bind (node_at p) (\<lambda>n.
     st_bind (st_get rm) (\<lambda>m.
     st_bind (on_net (fetch_as (vb E) m tid (data_node n) sizeof16 0)) (\<lambda>buffer.
     st_bind (st_lift (non_null buffer)) (\<lambda>off.
     st_bind (get_view off) (\<lambda>b t.
     if crc_validate (crcer E) b (sn_type n) \<noteq> crc b then again (others E t)
     else st_lift (find_kv key b) t))))))) s"

lemma get_remote_turn: "get_remote E tid key s = get_turn E tid key (get_remote E tid key) s"
  unfolding get_turn_def by (rule get_remote.simps)

context rdma_fabric
begin

lemma get_turn_run:
  fixes s :: "'w cn"
  assumes u: "usable connected outstanding tid s" and E: "vb E = V" and c: "cctx s tid = Some c"
    and d: "fuzzy_search key (slist s) = Some (Inr (Some d))" "deref (slist s) (Some d) = Inr n"
    and r: "reaches registered tid s (data_node n) sizeof16"
  shows "\<exists>n'. (\<forall>again. get_turn E tid key again s =
      (let b = node_in (snd (settled (net s))) (data_node n); t = (drained tid c s)\<lparr>net := n'\<rparr>
       in if crc_validate (crcer E) b (sn_type n) \<noteq> crc b then again (others E t) else st_lift (find_kv key b) t)) \<and>
    outstanding n' = [] \<and> snd (settled n') = snd (settled (net s)) \<and> length (lbuf n') = 8192"
proof -
  let ?s = "drained tid c s"
  have u': "usable connected outstanding tid ?s" and r': "reaches registered tid ?s (data_node n) sizeof16" using u r by simp_all
  have l: "0 + sizeof16 \<le> 8192" "length (lbuf (net s)) = 8192" using u by (simp_all add: sizeof16_def usable_def)
  obtain n' where f: "fetch_as V (rm ?s) tid (data_node n) sizeof16 0 (net ?s) = Some (Inr (Some 0, n'))"
    and n': "outstanding n' = []" "lbuf n' = put_bytes 0 (read_rem (snd (settled (net ?s))) (get_as (data_node n)) sizeof16) (lbuf (net ?s))"
      "snd (settled n') = snd (settled (net ?s))" "length (lbuf n') = 8192"
    using fetch_run [OF u' r' l(1)] by blast
  have v: "view 0 (lbuf n') = node_in (snd (settled (net s))) (data_node n)"
    using view_fetched [of "lbuf (net s)"] l(2) n'(2) by (simp add: sizeof16_def)
  have "get_turn E tid key again s =
      (let b = node_in (snd (settled (net s))) (data_node n); t = ?s\<lparr>net := n'\<rparr>
       in if crc_validate (crcer E) b (sn_type n) \<noteq> crc b then again (others E t) else st_lift (find_kv key b) t)" for again
    using d f v E by (simp add: get_turn_def st_bind_Inr [of "drain_pending tid", OF drain_pending_run [OF c]] step_simps non_null_def Let_def)
  with n' show ?thesis by (intro exI [of _ n']) simp
qed

text \<open>A read that keeps meeting a checksum that does not fit never returns.\<close>

lemma get_never:
  fixes s :: "'w cn"
  assumes "usable connected outstanding tid s" "vb E = V" "others E = (\<lambda>s. s)" "cctx s tid \<noteq> None"
    and "fuzzy_search key (slist s) = Some (Inr (Some d))" "deref (slist s) (Some d) = Inr n"
    and "reaches registered tid s (data_node n) sizeof16"
    and "crc_validate (crcer E) (node_in (snd (settled (net s))) (data_node n)) (sn_type n) \<noteq>
      crc (node_in (snd (settled (net s))) (data_node n))"
  shows "get_remote E tid key s = None"
proof -
  let ?P = "\<lambda>E' tid' key' s'. E' = E \<and> tid' = tid \<and> key' = key \<and> usable connected outstanding tid s' \<and> cctx s' tid \<noteq> None \<and>
    slist s' = slist s \<and> rm s' = rm s \<and> snd (settled (net s')) = snd (settled (net s))"
  have "get_remote E tid key s \<noteq> Some r" for r
  proof
    assume some: "get_remote E tid key s = Some r"
    have "\<not> ?P E tid key s"
    proof (rule get_remote.raw_induct [of "\<lambda>E' tid' key' s' r. \<not> ?P E' tid' key' s'", OF _ some])
      fix f and E' :: "'w env" and tid' key' s' r
      assume ih: "\<And>E' tid' key' s' r. f E' tid' key' s' = Some r \<Longrightarrow> \<not> ?P E' tid' key' s'"
        and step: "st_bind (drain_pending tid') (\<lambda>_.
          st_bind (search key') (\<lambda>p. st_bind (node_at p) (\<lambda>n. st_bind (st_get rm) (\<lambda>m.
          st_bind (on_net (fetch_as (vb E') m tid' (data_node n) sizeof16 0)) (\<lambda>buffer.
          st_bind (st_lift (non_null buffer)) (\<lambda>off. st_bind (get_view off) (\<lambda>b t.
          if crc_validate (crcer E') b (sn_type n) \<noteq> crc b then f E' tid' key' (others E' t)
          else st_lift (find_kv key' b) t))))))) s' = Some r"
      show "\<not> ?P E' tid' key' s'"
      proof
        assume P: "?P E' tid' key' s'"
        then obtain c where c: "cctx s' tid = Some c" by blast
        have e: "E' = E" "tid' = tid" "key' = key" using P by blast+
        have "get_turn E tid key (f E tid key) s' = Some r" unfolding get_turn_def by (rule step [unfolded e])
        moreover have "fuzzy_search key (slist s') = Some (Inr (Some d))" "deref (slist s') (Some d) = Inr n"
          "reaches registered tid s' (data_node n) sizeof16" using P assms(5-7) by (simp_all add: reaches_def)
        then obtain n' where "get_turn E tid key (f E tid key) s' =
          (let b = node_in (snd (settled (net s'))) (data_node n); t = (drained tid c s')\<lparr>net := n'\<rparr>
           in if crc_validate (crcer E) b (sn_type n) \<noteq> crc b then f E tid key (others E t) else st_lift (find_kv key b) t)"
          and n': "outstanding n' = []" "snd (settled n') = snd (settled (net s'))" "length (lbuf n') = 8192"
          using get_turn_run [OF _ assms(2) c, of key d n] P by blast
        ultimately have "f E tid key ((drained tid c s')\<lparr>net := n'\<rparr>) = Some r" using P assms(3,8) by (simp add: Let_def)
        moreover have "?P E tid key ((drained tid c s')\<lparr>net := n'\<rparr>)"
          using P n' usable_net [of connected outstanding tid "drained tid c s'" n'] by simp
        ultimately show False using ih by blast
      qed
    qed
    then show False using assms by simp
  qed
  then show ?thesis by (cases "get_remote E tid key s") auto
qed

end

subsection \<open>A winning update\<close>

lemma enqueue_Nil: "enqueue tid [] = (\<lambda>s. s)"
proof
  fix s :: "'w cn"
  have "(cctx s)(tid := map_option (\<lambda>c. c) (cctx s tid)) = cctx s" by (auto simp: option.map_ident)
  then show "enqueue tid [] s = s" by (simp add: enqueue_def)
qed

lemma update_kv_shape:
  assumes "update_kv k v b = Inr (s, b')" "node_shape b" "wide v"
  shows "node_shape b' \<and> ntype b' = ntype b"
proof (cases "b' = b")
  case False
  then obtain i where i: "i < length (pairs b)" "\<exists>w. memcpy (kv_value (pairs b ! i)) v (length v) = Inr w \<and>
      b' = b\<lparr>pairs := (pairs b)[i := (pairs b ! i)\<lparr>kv_value := w\<rparr>]\<rparr>"
    using assms(1) by (auto simp: update_kv_def res_bind_eq_Inr rd_eq_Inr split: option.splits)
  then have "kv_ok (pairs b ! i)" using assms(2) by (simp add: node_shape_def list_all_length)
  with i assms(2,3) show ?thesis
    by (auto simp: node_shape_def list_all_iff kv_ok_def dest!: set_update_subset_insert [THEN subsetD] memcpy_length)
qed (use assms in simp)

context rdma_fabric
begin

lemma win_update_run:
  assumes u: "usable connected outstanding tid s" and E: "vb E = V" "others E = enqueue tid q" and c: "cctx s tid = Some c"
    and d: "deref (slist s) (Some d) = Inr n" "ctx n = None"
    and r: "reaches registered tid s (data_node n) 560"
  shows "\<exists>n'. try_win_for_update E tid 16 d t s = Some (Inr ((True, Some tid),
      s\<lparr>slist := upd_node (slist s) d (n\<lparr>ctx := Some tid\<rparr>),
        cctx := (cctx s)(tid \<mapsto> c\<lparr>ctype := t, requests := requests c @ q, user_context := Some 0, max_depth := - 1\<rparr>), net := n'\<rparr>)) \<and>
    outstanding n' = [] \<and> length (lbuf n') = 8192 \<and> snd (settled n') = snd (settled (net s)) \<and>
    lbuf n' = put_bytes 0 (read_rem (snd (settled (net s))) (get_as (data_node n)) 560) (lbuf (net s))"
proof -
  let ?s = "s\<lparr>slist := upd_node (slist s) d (n\<lparr>ctx := Some tid\<rparr>),
    cctx := (cctx s)(tid \<mapsto> c\<lparr>ctype := t, max_depth := 4, requests := requests c @ q\<rparr>)\<rparr>"
  have u': "usable connected outstanding tid ?s" and r': "reaches registered tid ?s (data_node n) 560"
    using u r by (simp_all add: usable_def reaches_def)
  obtain n' where f: "fetch_as V (rm ?s) tid (data_node n) 560 0 (net ?s) = Some (Inr (Some 0, n'))"
    and n': "outstanding n' = []" "lbuf n' = put_bytes 0 (read_rem (snd (settled (net ?s))) (get_as (data_node n)) 560) (lbuf (net ?s))"
      "snd (settled n') = snd (settled (net ?s))" "length (lbuf n') = 8192"
    using fetch_run [OF u' r', of 0] by auto
  have "try_win_for_update E tid 16 d t s =
      st_bind (on_net (fetch_as V (rm ?s) tid (data_node n) 560 0)) (\<lambda>buffer.
      st_bind (ctx_mod tid (\<lambda>c. c\<lparr>user_context := buffer, max_depth := - 1\<rparr>)) (\<lambda>_. st_ret (True, Some tid))) ?s"
    using d c E by (simp add: try_win_for_update_def step_simps enqueue_def)
  also have "\<dots> = Some (Inr ((True, Some tid),
      s\<lparr>slist := upd_node (slist s) d (n\<lparr>ctx := Some tid\<rparr>),
        cctx := (cctx s)(tid \<mapsto> c\<lparr>ctype := t, requests := requests c @ q, user_context := Some 0, max_depth := - 1\<rparr>), net := n'\<rparr>))"
    using f by (simp add: step_simps) (simp add: st_ret_def)
  finally show ?thesis using n' by (intro exI [of _ n']) simp
qed

lemma update_run:
  fixes s :: "'w cn"
  defines "mem \<equiv> snd (settled (net s))"
  assumes u: "usable connected outstanding tid s" "remote_put s" and E: "vb E = V" "others E = enqueue tid q" and c: "cctx s tid = Some c"
    and d: "fuzzy_search key (slist s) = Some (Inr (Some d))" "deref (slist s) (Some d) = Inr n" "ctx n = None"
    and k: "update_kv key val (node_in mem (data_node n)) = Inr (ret, b1)" "update_others b1 q = Inr (b2, ans)" "node_shape b2"
    and r: "reaches registered tid s (data_node n) 560" "registered (get_as (data_node n)) (sizeof_node (ntype b2))"
  shows "\<exists>s'. update E tid key val s = Some (Inr (ret, s')) \<and> slist s' = slist s \<and> rm s' = rm s \<and>
    answers s' = answers (drained tid c s) ++ map_of (map (\<lambda>r. (rid r, r)) ans) \<and>
    snd (settled (net s')) = write_rem mem (get_as (data_node n)) (take (sizeof_node (ntype b2)) (drop 560 (lbuf (net s))))"
proof -
  let ?s1 = "drained tid c s" and ?c1 = "c\<lparr>requests := []\<rparr>"
  let ?c2 = "?c1\<lparr>ctype := Update, requests := requests ?c1 @ q, user_context := Some 0, max_depth := - 1\<rparr>"
  let ?L = "sizeof_node (ntype b2)"
  have d1: "deref (slist ?s1) (Some d) = Inr n" and c1: "cctx ?s1 tid = Some ?c1" and u1: "usable connected outstanding tid ?s1"
    and r1: "reaches registered tid ?s1 (data_node n) 560"
    using d u r by simp_all
  obtain n2 where w: "try_win_for_update E tid 16 d Update ?s1 = Some (Inr ((True, Some tid),
      ?s1\<lparr>slist := upd_node (slist ?s1) d (n\<lparr>ctx := Some tid\<rparr>), cctx := (cctx ?s1)(tid \<mapsto> ?c2), net := n2\<rparr>))"
    and n2: "outstanding n2 = []" "length (lbuf n2) = 8192" "snd (settled n2) = snd (settled (net ?s1))"
      "lbuf n2 = put_bytes 0 (read_rem (snd (settled (net ?s1))) (get_as (data_node n)) 560) (lbuf (net ?s1))"
    using win_update_run [OF u1 E c1 d1 d(3) r1] by blast
  let ?s2 = "?s1\<lparr>slist := upd_node (slist ?s1) d (n\<lparr>ctx := Some tid\<rparr>), cctx := (cctx ?s1)(tid \<mapsto> ?c2), net := n2\<rparr>"
  let ?b = "put_view 0 (set_crc E b2) (lbuf n2)"
  let ?s3 = "?s2\<lparr>answers := answers ?s2 ++ map_of (map (\<lambda>r. (rid r, r)) ans),
    cctx := (cctx ?s2)(tid \<mapsto> ?c2\<lparr>requests := []\<rparr>), net := n2\<lparr>lbuf := ?b\<rparr>\<rparr>"
  have v: "view 0 (lbuf n2) = node_in mem (data_node n)"
    using view_fetched [of "lbuf (net s)"] u(1) n2(4) by (simp add: usable_def mem_def)
  have sh: "node_shape (set_crc E b2)" using k(3) by (simp add: set_crc_def node_shape_def)
  have lb: "length ?b = 8192" using sh n2(2) by (simp add: put_view_length)
  note cw = cpu_write [OF n2(1), of ?b]
  have u3: "usable connected outstanding tid ?s3" using u(1) cw lb by (simp add: usable_def)
  have r3: "reaches registered tid ?s3 (data_node n) ?L" using r by (simp add: reaches_def)
  have L: "560 + ?L \<le> 8192" using sizeof_node_le [of "ntype b2"] by simp
  obtain n4 where f: "write_back_current V (rm ?s3) tid (data_node n) ?L (net ?s3) = Some (Inr (True, n4))"
    and n4: "snd (settled n4) = write_rem (snd (settled (net ?s3))) (get_as (data_node n)) (take ?L (drop 560 (lbuf (net ?s3))))"
    using write_back_run [OF u3 r3 L] by blast
  have dr: "drop 560 ?b = drop 560 (lbuf (net s))"
    using put_view_parts(2) [OF sh, of 0 "lbuf n2"] n2(2,4) drop_put_bytes [of "read_rem mem (get_as (data_node n)) 560" 560]
    by (simp add: mem_def)
  have d2: "deref (slist ?s2) (Some d) = Inr (n\<lparr>ctx := Some tid\<rparr>)" by simp
  have "win_update E tid d key val ?s2 =
      st_bind (on_net (write_back_current V (rm ?s3) tid (data_node n) ?L)) (\<lambda>_.
      st_bind (set_node (Some d) (\<lambda>n. n\<lparr>ctx := None\<rparr>)) (\<lambda>_.
      st_bind (ctx_mod tid (\<lambda>c. c\<lparr>max_depth := 4\<rparr>)) (\<lambda>_. st_ret ret))) ?s3"
    using k v E by (simp add: win_update_def step_simps non_null_def)
  also have "\<dots> = Some (Inr (ret, ?s3\<lparr>net := n4, slist := slist s, cctx := (cctx s)(tid \<mapsto> ?c2\<lparr>requests := [], max_depth := 4\<rparr>)\<rparr>))"
    using f d by (simp add: step_simps) (simp add: st_ret_def drained_def)
  finally have wu: "win_update E tid d key val ?s2 =
    Some (Inr (ret, ?s3\<lparr>net := n4, slist := slist s, cctx := (cctx s)(tid \<mapsto> ?c2\<lparr>requests := [], max_depth := 4\<rparr>)\<rparr>))" .
  have "update E tid key val s = win_update E tid d key val ?s2"
    using u(2) d(1) w
    by (subst update.simps) (simp add: step_simps st_bind_Inr [of "drain_pending tid", OF drain_pending_run [OF c]]
        st_bind_Inr [of "try_win_for_update E tid 16 d Update", OF w])
  with wu n4 cw dr n2(3) show ?thesis
    by (intro exI [of _ "?s3\<lparr>net := n4, slist := slist s, cctx := (cctx s)(tid \<mapsto> ?c2\<lparr>requests := [], max_depth := 4\<rparr>)\<rparr>"])
      (simp add: mem_def)
qed

end

end
