(* ===== verification/ComputeProps.thy ===== *)
theory ComputeProps
  imports ReaderProofs
begin

text \<open>
  Properties of \<open>put\<close>, \<open>get\<close>, \<open>update\<close> and \<open>scan\<close> over remote memory, for every verbs library that
  meets the contract \<open>rdma_fabric\<close>.
\<close>

subsection \<open>A demonstration state\<close>

text \<open>Two data nodes of type 10, with anchors of ones and of fives, each holding its anchor's
  record, behind the list's head.\<close>

definition demo_nb :: skip_node where
  "demo_nb = \<lparr>anchor = b16 1, data_node = 0x1000, sn_type = 10, ctx = None, backward = Some 0, forwards = [Some 3]\<rparr>"

definition demo_n :: skip_node where
  "demo_n = \<lparr>anchor = b16 5, data_node = 0x2000, sn_type = 10, ctx = None, backward = Some 2, forwards = [None]\<rparr>"

definition demo_list :: skiplist where
  "demo_list =
     \<lparr>heap = [0 \<mapsto> make_skip_node 16 [] 0 (type_num TypeHead) (Some 2) None, 2 \<mapsto> demo_nb, 3 \<mapsto> demo_n],
      brk = 4, head = 0, current_level = 1\<rparr>"

lemma demo_node_simps [simp]:
  "anchor demo_nb = b16 1" "data_node demo_nb = 0x1000" "sn_type demo_nb = 10" "ctx demo_nb = None" "backward demo_nb = Some 0"
  "forwards demo_nb = [Some 3]" "anchor demo_n = b16 5" "data_node demo_n = 0x2000" "sn_type demo_n = 10" "ctx demo_n = None"
  "backward demo_n = Some 2" "forwards demo_n = [None]"
  by (simp_all add: demo_nb_def demo_n_def)

definition demo_mem :: memory where
  "demo_mem = write_rem (write_rem (\<lambda>_. 0) 0x1000 (encode_node (demo_node [1] 10))) 0x2000 (encode_node (demo_node [5] 10))"

definition demo_context :: rdma_context where
  "demo_context = \<lparr>rc_out_cq = 1, rc_in_cq = 2, rc_lkey = 3, rc_qp = 1, local_cert = zero_cert, remote_cert = zero_cert, rc_buf = sim_base\<rparr>"

definition demo_state :: "sim cn" where
  "demo_state =
     \<lparr>slist = demo_list, cctx = [7 \<mapsto> new_conc_ctx], answers = Map.empty, next_req = 0,
      calloc = undefined,
      rm = \<lparr>rm_current = 0, memory_nodes = [\<lparr>mn_node_id = 0, mn_base = 0\<rparr>], rdma_ctxs = [7 \<mapsto> [demo_context]],
            parallel_rdma_ctxs = [7 \<mapsto> [demo_context]], rpc_infos = []\<rparr>,
      update_queue = [], remote_put = True, local_nodes = [], local_anchors = [[], []], flush_node = demo_node [] 12,
      net = \<lparr>lbuf = replicate 8192 0, wire = \<lparr>sim_mem = demo_mem, sim_out = []\<rparr>\<rparr>\<rparr>"

definition demo_env :: "(sim cn \<Rightarrow> sim cn) \<Rightarrow> (bytes \<Rightarrow> u16) \<Rightarrow> sim env" where
  "demo_env oth f = \<lparr>vb = sim_verbs, crcer = f, rpc = (\<lambda>_ _. None), draws = (\<lambda>_. []), junk = [], others = oth\<rparr>"

lemma demo_derefs [simp]:
  "deref demo_list (Some 3) = Inr demo_n" "deref demo_list (Some 2) = Inr demo_nb"
  "deref demo_list (Some 0) = Inr (make_skip_node 16 [] 0 (type_num TypeHead) (Some 2) None)"
  by (simp_all add: deref_def demo_list_def)

lemma demo_search [simp]: "fuzzy_search (b16 6) demo_list = Some (Inr (Some 3))"
proof -
  have w3: "walk demo_list 0 (b16 6) 3 = Some (Inr 3)"
    by (subst walk.simps) (simp add: get_forward_def)
  have w2: "walk demo_list 0 (b16 6) 2 = Some (Inr 3)"
    by (subst walk.simps) (use w3 in \<open>simp add: get_forward_def b16_less\<close>)
  have "walk demo_list 0 (b16 6) 0 = Some (Inr 3)"
    by (subst walk.simps) (use w2 in \<open>simp add: get_forward_def make_skip_node_def b16_less\<close>)
  then have "descend demo_list (b16 6) 0 1 0 no_update = Some (Inr (3, no_update[0 := Some 3]))"
    by (simp add: no_update_def)
  moreover have "current_level demo_list = 1" "head demo_list = 0" by (simp_all add: demo_list_def)
  ultimately show ?thesis by (simp add: fuzzy_search_def)
qed

lemma read_rem_other:
  assumes "\<And>i. i < len \<Longrightarrow> length bs \<le> unat (p + of_nat i - a)"
  shows "read_rem (write_rem m a bs) p len = read_rem m p len"
  using assms by (simp add: read_rem_def write_rem_def leD cong: map_cong)

lemma apart_nodes:
  assumes "i < 560"
  shows "560 \<le> unat ((0x1000 :: u64) + of_nat i - 0x2000)" "560 \<le> unat ((0x2000 :: u64) + of_nat i - 0x1000)"
proof -
  have "(0x1000 :: u64) + of_nat i - 0x2000 = of_nat (18446744073709547520 + i)" "(0x2000 :: u64) + of_nat i - 0x1000 = of_nat (0x1000 + i)"
    by simp_all
  then show "560 \<le> unat ((0x1000 :: u64) + of_nat i - 0x2000)" "560 \<le> unat ((0x2000 :: u64) + of_nat i - 0x1000)"
    using assms by (simp_all only: unat_of_nat) simp_all
qed

lemma demo_nodes:
  "node_in demo_mem 0x2000 = demo_node [5] 10" "node_in demo_mem 0x1000 = demo_node [1] 10"
proof -
  have l: "length (encode_node (demo_node [x] 10)) = 560" for x by (simp add: length_encode_node demo_shape)
  have p: "get_as 0x2000 = 0x2000" "get_as 0x1000 = 0x1000" by (simp_all add: get_as_def)
  have r: "read_rem (write_rem m a (encode_node (demo_node [x] 10))) a 560 = encode_node (demo_node [x] 10)" for m a x
    using read_write_rem [of "encode_node (demo_node [x] 10)" 560 m a] l by simp
  show "node_in demo_mem 0x2000 = demo_node [5] 10"
    unfolding node_in_def demo_mem_def p sizeof16_def r by (simp add: decode_encode_node demo_shape)
  have "read_rem demo_mem 0x1000 560 = encode_node (demo_node [1] 10)"
    unfolding demo_mem_def using apart_nodes l by (subst read_rem_other) (simp_all add: r)
  then show "node_in demo_mem 0x1000 = demo_node [1] 10"
    unfolding node_in_def p sizeof16_def by (simp add: decode_encode_node demo_shape)
qed

subsection \<open>Insertion\<close>

text \<open>A data node and its predecessor that no thread holds and this thread can reach.\<close>

definition winnable :: "(u64 \<Rightarrow> nat \<Rightarrow> bool) \<Rightarrow> nat \<Rightarrow> 'w cn \<Rightarrow> nat \<Rightarrow> skip_node \<Rightarrow> skip_node \<Rightarrow> bool" where
  "winnable reg tid s d n nb \<longleftrightarrow>
     deref (slist s) (Some d) = Inr n \<and> ctx n = None \<and> backward n \<noteq> Some d \<and>
     deref (slist s) (backward n) = Inr nb \<and> ctx nb = None \<and>
     reaches reg tid s (data_node nb) (sizeof_node (sn_type nb)) \<and> reaches reg tid s (data_node n) (sizeof_node (sn_type n))"

lemma put_dispatches:
  "remote_put s \<Longrightarrow> fuzzy_search key (slist s) = Some (Inr p) \<Longrightarrow> put E tid par key val s = put_dispatcher E tid par p key val s"
  by (simp add: put_def step_simps)

text \<open>The hypotheses of an insertion that finds room in its node.\<close>

definition roomy :: "memory \<Rightarrow> skip_node \<Rightarrow> bytes \<Rightarrow> nat \<Rightarrow> bool" where
  "roomy m n key k \<longleftrightarrow>
     (\<exists>N. cap (sn_type n) = Some N \<and> node_inv N (node_in m (data_node n)) \<and>
          node_map (node_in m (data_node n)) key = None \<and> k < room N (node_in m (data_node n)))"

lemma winnable_cases:
  assumes "winnable reg tid s d n nb"
  obtains b where "deref (slist s) (Some d) = Inr n" "ctx n = None" "backward n = Some b" "b \<noteq> d"
    "deref (slist s) (Some b) = Inr nb" "ctx nb = None" "reaches reg tid s (data_node nb) (sizeof_node (sn_type nb))"
    "reaches reg tid s (data_node n) (sizeof_node (sn_type n))"
proof (cases "backward n")
  case None
  then show ?thesis using assms by (simp add: winnable_def deref_def)
next
  case (Some b)
  with assms show ?thesis by (intro that [of b]) (auto simp: winnable_def)
qed

text \<open>C6: an insertion whose key is routed to a node with room for it and for the requests that the
  waiting threads hand in reports success; the node in remote memory then holds the new record
  and those of the requests not below its anchor, next to what it held; every request is
  answered; the search layer is unchanged and both nodes are free again.\<close>

theorem put_stores_in_place:
  assumes "rdma_fabric V base reg conn os settled" "usable conn os tid s" "remote_put s" "cctx s tid = Some c"
    and "vb E = V" "others E = enqueue tid q" "list_all wide_request q" "wide key" "wide val"
    and "fuzzy_search key (slist s) = Some (Inr (Some d))" "winnable reg tid s d n nb"
    and "roomy (snd (settled (net s))) n key (length q)"
    and "q = [] \<or> (ntype (node_in (snd (settled (net s))) (data_node nb)) = sn_type nb \<and>
      (\<exists>M. cap (sn_type nb) = Some M \<and> node_inv M (node_in (snd (settled (net s))) (data_node nb))))"
  shows "\<exists>s' ans. put E tid par key val s = Some (Inr (True, s')) \<and> slist s' = slist s \<and> usable conn os tid s' \<and>
    answers s' = answers (drained tid c s) ++ map_of (map (\<lambda>r. (rid r, r)) ans) \<and>
    list_all is_done ans \<and> mset (map body ans) = mset (map body q) \<and>
    node_map (node_in (snd (settled (net s'))) (data_node n)) =
      map_of (filter (\<lambda>(k, _). anchor n \<le> k) (map body ans)) ++
      (node_map (node_in (snd (settled (net s))) (data_node n)))(key \<mapsto> val)"
proof -
  obtain b where b: "deref (slist s) (Some d) = Inr n" "ctx n = None" "backward n = Some b" "b \<noteq> d"
    "deref (slist s) (Some b) = Inr nb" "ctx nb = None" "reaches reg tid s (data_node nb) (sizeof_node (sn_type nb))"
    "reaches reg tid s (data_node n) (sizeof_node (sn_type n))"
    by (rule winnable_cases [OF assms(11)])
  obtain N where N: "cap (sn_type n) = Some N" "node_inv N (node_in (snd (settled (net s))) (data_node n))"
    "node_map (node_in (snd (settled (net s))) (data_node n)) key = None"
    "length q < room N (node_in (snd (settled (net s))) (data_node n))"
    using assms(12) by (auto simp: roomy_def)
  have q: "q = [] \<or> (\<exists>M. cap (sn_type nb) = Some M \<and> ntype (node_in (snd (settled (net s))) (data_node nb)) = sn_type nb \<and>
      node_inv M (node_in (snd (settled (net s))) (data_node nb)))" using assms(13) by blast
  from rdma_fabric.put_fast_run [OF assms(1,2,5,6,4) b(1-3) N(1) b(4-8) assms(8,9) N(2,3) assms(7) N(4) q, of par]
  obtain s' pred rb pred' rb' ans where r: "put_dispatcher E tid par (Some d) key val s = Some (Inr (True, s'))"
    "help_others N (anchor n) pred rb q [] = Inr (pred', rb', ans, [])" "slist s' = slist s" "usable conn os tid s'"
    "answers s' = answers (drained tid c s) ++ map_of (map (\<lambda>r. (rid r, r)) ans)"
    "node_map (node_in (snd (settled (net s'))) (data_node n)) =
      map_of (filter (\<lambda>(k, _). \<not> k < anchor n) (map body ans)) ++ (node_map (node_in (snd (settled (net s))) (data_node n)))(key \<mapsto> val)"
    unfolding Let_def by blast
  with help_others_bodies [OF r(2)] put_dispatches [OF assms(3,10), of E tid par val] show ?thesis
    by (intro exI [of _ s'] exI [of _ ans]) (simp add: not_less)
qed

lemma demo_fields [simp]:
  "slist demo_state = demo_list" "remote_put demo_state" "cctx demo_state 7 = Some new_conc_ctx"
  "snd (sim_settled (net demo_state)) = demo_mem" "sim_mem (wire (net demo_state)) = demo_mem" "lbuf (net demo_state) = replicate 8192 0"
  "vb (demo_env oth f) = sim_verbs" "others (demo_env oth f) = oth" "crcer (demo_env oth f) = f"
  by (simp_all add: demo_state_def demo_env_def sim_settled_def)

lemma demo_usable: "usable sim_connected (\<lambda>n. sim_out (wire n)) 7 demo_state"
  by (simp add: usable_def demo_state_def demo_context_def sim_connected_def)

lemma demo_reaches: "get_node p = 0 \<Longrightarrow> reaches (\<lambda>a n. True) 7 demo_state p sz"
  by (simp add: reaches_def demo_state_def)

lemma demo_node_numbers [simp]: "get_node 0x2000 = 0" "get_node 0x1000 = 0"
  by (simp_all add: get_node_def)

lemma demo_winnable: "winnable (\<lambda>a n. True) 7 demo_state 3 demo_n demo_nb"
  by (simp add: winnable_def demo_reaches)

lemma cap_10: "cap 10 = Some 10"
  by (simp add: cap_def enumerator_def)

lemma demo_map: "node_map (demo_node [x] 10) = [b16 x \<mapsto> b16 9]"
  by (simp add: node_map_def demo_simps)

lemma demo_roomy: "k < 9 \<Longrightarrow> roomy demo_mem demo_n (b16 6) k"
  using demo_node_inv [of "[5]" 10 10]
  by (simp add: roomy_def cap_10 demo_nodes demo_map room_def demo_simps)

lemma put_stores_in_place_witness:
  "\<exists>s'. put (demo_env (enqueue 7 [new_request 3 (b16 7) (b16 2), new_request 4 (b16 2) (b16 2)]) (\<lambda>_. 0)) 7 False (b16 6) (b16 8) demo_state =
      Some (Inr (True, s')) \<and> slist s' = demo_list \<and>
    node_map (node_in (sim_mem (wire (net s'))) 0x2000) (b16 6) = Some (b16 8)"
proof -
  let ?q = "[new_request 3 (b16 7) (b16 2), new_request 4 (b16 2) (b16 2)]"
  have "list_all wide_request ?q" by (simp add: wide_request_def new_request_def)
  moreover have "roomy (snd (sim_settled (net demo_state))) demo_n (b16 6) (length ?q)" by (simp add: demo_roomy)
  moreover have "node_inv 10 (node_in demo_mem 0x1000)" "ntype (node_in demo_mem 0x1000) = 10"
    by (simp_all add: demo_nodes demo_node_inv demo_simps)
  moreover have "fuzzy_search (b16 6) (slist demo_state) = Some (Inr (Some 3))" by (simp add: demo_search)
  ultimately obtain s' ans where s': "put (demo_env (enqueue 7 ?q) (\<lambda>_. 0)) 7 False (b16 6) (b16 8) demo_state = Some (Inr (True, s'))"
    "slist s' = demo_list" "mset (map body ans) = mset (map body ?q)"
    "node_map (node_in (snd (sim_settled (net s'))) (data_node demo_n)) =
      map_of (filter (\<lambda>(k, _). anchor demo_n \<le> k) (map body ans)) ++
      (node_map (node_in (snd (sim_settled (net demo_state))) (data_node demo_n)))(b16 6 \<mapsto> b16 8)"
    using put_stores_in_place [OF simulated.rdma_fabric_axioms demo_usable, of new_conc_ctx "demo_env (enqueue 7 ?q) (\<lambda>_. 0)" ?q
        "b16 6" "b16 8" 3 demo_n demo_nb False]
    by (auto simp: demo_winnable cap_10)
  then have "node_map (node_in (sim_mem (wire (net s'))) 0x2000) (b16 6) = Some (b16 8)"
    by (simp add: sim_settled_def)
  with s'(1,2) show ?thesis by blast
qed

text \<open>C7: when an insertion of a thread that runs alone stores in place, the checksum written with the
  node is the one of before the insertion.  A later \<open>get\<close> that is routed to the node, for the new key
  or any other, then reads again and again and never returns exactly when the checksum of the node
  with the new record, over all its slots, is not that old one (as long as no other thread writes
  the node).\<close>

theorem put_leaves_stale_checksum:
  assumes "rdma_fabric V base reg conn os settled" "usable conn os tid s" "remote_put s" "cctx s tid = Some c"
    and "vb E = V" "others E = (\<lambda>s. s)" "wide key" "wide val"
    and "fuzzy_search key (slist s) = Some (Inr (Some d))" "winnable reg tid s d n nb"
    and "reaches reg tid s (data_node n) sizeof16" "roomy (snd (settled (net s))) n key 0"
    and "cap (sn_type n) = Some N" "fuzzy_search key' (slist s) = Some (Inr (Some d))"
  shows "\<exists>s' new. put E tid par key val s = Some (Inr (True, s')) \<and>
    store_kv N key val (node_in (snd (settled (net s))) (data_node n)) = Inr (True, new) \<and>
    records (node_in (snd (settled (net s'))) (data_node n)) = records new \<and>
    crc (node_in (snd (settled (net s'))) (data_node n)) = crc (node_in (snd (settled (net s))) (data_node n)) \<and>
    (get_remote E tid key' s' = None \<longleftrightarrow>
       crc_validate (crcer E) new (sn_type n) \<noteq> crc (node_in (snd (settled (net s))) (data_node n)))"
proof -
  let ?old = "node_in (snd (settled (net s))) (data_node n)"
  obtain b where b: "deref (slist s) (Some d) = Inr n" "ctx n = None" "backward n = Some b" "b \<noteq> d"
    "deref (slist s) (Some b) = Inr nb" "ctx nb = None" "reaches reg tid s (data_node nb) (sizeof_node (sn_type nb))"
    "reaches reg tid s (data_node n) (sizeof_node (sn_type n))"
    by (rule winnable_cases [OF assms(10)])
  have N: "node_inv N ?old" "node_map ?old key = None" "length ([] :: request list) < room N ?old"
    using assms(12,13) by (auto simp: roomy_def)
  have E: "others E = enqueue tid []" by (simp add: assms(6) enqueue_Nil)
  have q: "list_all wide_request []" by simp
  from rdma_fabric.put_fast_run [OF assms(1,2,5) E assms(4) b(1-3) assms(13) b(4-8) assms(7,8) N(1,2) q N(3), of par]
  obtain s' new where r: "put_dispatcher E tid par (Some d) key val s = Some (Inr (True, s'))" "slist s' = slist s" "rm s' = rm s"
    "usable conn os tid s'" "cctx s' tid \<noteq> None"
    "crc (node_in (snd (settled (net s'))) (data_node n)) = crc ?old" "node_inv N (node_in (snd (settled (net s'))) (data_node n))"
    and w: "store_kv N key val ?old = Inr (True, new)" "agree N (node_in (snd (settled (net s'))) (data_node n)) new"
    unfolding Let_def by blast
  let ?node = "node_in (snd (settled (net s'))) (data_node n)"
  have "node_shape new" using store_shape [OF w(1) node_in_shape assms(7,8)] by simp
  then have cr: "crc_validate (crcer E) ?node (sn_type n) = crc_validate (crcer E) new (sn_type n)"
    by (rule agree_crc [OF w(2) node_in_shape _ assms(13)])
  have "unat (nxt ?node) \<le> N" using r(7) by (simp add: node_inv_def)
  then have rc: "records ?node = records new" by (rule agree_records [OF w(2)])
  have re: "reaches reg tid s' (data_node n) sizeof16" using assms(11) r(3) by (simp add: reaches_def)
  have f: "fuzzy_search key' (slist s') = Some (Inr (Some d))" "deref (slist s') (Some d) = Inr n" using assms(14) b(1) r(2) by simp_all
  obtain c' where c': "cctx s' tid = Some c'" using r(5) by blast
  have "get_remote E tid key' s' = None \<longleftrightarrow> crc_validate (crcer E) ?node (sn_type n) \<noteq> crc ?node"
  proof (cases "crc_validate (crcer E) ?node (sn_type n) = crc ?node")
    case True
    with rdma_fabric.get_turn_run [OF assms(1) r(4) assms(5) c' f re] show ?thesis
      unfolding get_remote_turn [of E tid key' s'] by (auto simp: Let_def st_lift_def)
  next
    case False
    with rdma_fabric.get_never [OF assms(1) r(4) assms(5,6) r(5) f re] show ?thesis by simp
  qed
  with put_dispatches [OF assms(3,9)] r w(1) rc cr show ?thesis by auto
qed

text \<open>A checksum that looks at the second record's key only.\<close>

definition demo_crc :: "bytes \<Rightarrow> u16" where
  "demo_crc b = (if take 16 (drop 32 b) = b16 6 then 1 else 0)"

lemma demo_crc_tells:
  assumes "records b = records (demo_node [5] 10) @ [(b16 6, v)]" "node_shape b"
  shows "crc_validate demo_crc b 10 = 1"
proof -
  have "map (\<lambda>p. (kv_key p, kv_value p)) (take (unat (nxt b)) (pairs b)) = [(b16 5, b16 9), (b16 6, v)]"
    using assms(1) by (simp add: demo_simps) (simp add: records_def)
  then obtain p0 p1 where p: "take (unat (nxt b)) (pairs b) = [p0, p1]" "kv_key p1 = b16 6"
    by (auto simp: map_eq_Cons_conv)
  then have pb: "pairs b = p0 # p1 # drop (unat (nxt b)) (pairs b)" by (metis append_take_drop_id append_Cons append_Nil)
  have "kv_ok p0" "kv_ok p1" using assms(2) p(1) set_take_subset [of "unat (nxt b)" "pairs b"] by (auto simp: node_shape_def list_all_iff)
  then have "take 16 (drop 32 (take 320 (pairs_bytes (p0 # p1 # rest)))) = b16 6" for rest
    using p(2) by (simp add: pairs_bytes_def kv_bytes_length drop_take take_take) (simp add: kv_bytes_def)
  then have "take 16 (drop 32 (take 320 (pairs_bytes (pairs b)))) = b16 6" by (subst pb)
  then show ?thesis by (simp add: crc_validate_def enumerator_def demo_crc_def)
qed

lemma put_leaves_stale_checksum_witness:
  "\<exists>s'. put (demo_env (\<lambda>s. s) demo_crc) 7 False (b16 6) (b16 8) demo_state = Some (Inr (True, s')) \<and>
    get_remote (demo_env (\<lambda>s. s) demo_crc) 7 (b16 6) s' = None"
proof -
  have f: "fuzzy_search (b16 6) (slist demo_state) = Some (Inr (Some 3))" by (simp add: demo_search)
  have ro: "roomy (snd (sim_settled (net demo_state))) demo_n (b16 6) 0" by (simp add: demo_roomy)
  have i: "node_inv 10 (demo_node [5] 10)" "node_map (demo_node [5] 10) (b16 6) = None" "room 10 (demo_node [5] 10) \<noteq> 0"
    using ro by (auto simp: roomy_def demo_nodes cap_def enumerator_def)
  have "crc_validate demo_crc new 10 \<noteq> crc (demo_node [5] 10)" if "store_kv 10 (b16 6) (b16 8) (demo_node [5] 10) = Inr (True, new)" for new
  proof -
    obtain n' where "store_kv 10 (b16 6) (b16 8) (demo_node [5] 10) = Inr (True, n')" "records n' = records (demo_node [5] 10) @ [(b16 6, b16 8)]"
      by (rule store_kv_absent [OF i(1) _ _ i(3,2)]) auto
    moreover have "node_shape new" using store_shape [OF that demo_shape] by simp
    ultimately have "crc_validate demo_crc new 10 = 1" using that by (intro demo_crc_tells) auto
    then show ?thesis by (simp add: demo_node_def)
  qed
  then show ?thesis
    using put_leaves_stale_checksum [OF simulated.rdma_fabric_axioms demo_usable, of new_conc_ctx "demo_env (\<lambda>s. s) demo_crc"
        "b16 6" "b16 8" 3 demo_n demo_nb 10 "b16 6" False] ro
    by (auto simp: demo_winnable demo_nodes demo_reaches f cap_def enumerator_def)
qed

text \<open>C20: the requests of waiting threads that belong to the predecessor are stored only in the
  buffer when the insertion itself stores in place: the waiting thread is told that its record
  is stored, yet the predecessor in remote memory does not have it.\<close>

theorem helped_predecessor_lost:
  assumes "rdma_fabric V base reg conn os settled" "usable conn os tid s" "remote_put s" "cctx s tid = Some c"
    and "vb E = V" "others E = enqueue tid [req]" "wide_request req" "wide key" "wide val" "tag req < anchor n"
    and "fuzzy_search key (slist s) = Some (Inr (Some d))" "winnable reg tid s d n nb"
    and "roomy (snd (settled (net s))) n key 1" "roomy (snd (settled (net s))) nb (tag req) 0"
    and "ntype (node_in (snd (settled (net s))) (data_node nb)) = sn_type nb"
    and "\<And>i. i < sizeof16 \<Longrightarrow> sizeof_node (sn_type n) \<le> unat (get_as (data_node nb) + of_nat i - get_as (data_node n))"
  shows "\<exists>s'. put E tid par key val s = Some (Inr (True, s')) \<and>
    answers s' (rid req) = Some (req\<lparr>succeed := True, retry := False, is_done := True\<rparr>) \<and>
    node_map (node_in (snd (settled (net s'))) (data_node nb)) (tag req) = None"
proof -
  let ?m = "snd (settled (net s))"
  obtain b where b: "deref (slist s) (Some d) = Inr n" "ctx n = None" "backward n = Some b" "b \<noteq> d"
    "deref (slist s) (Some b) = Inr nb" "ctx nb = None" "reaches reg tid s (data_node nb) (sizeof_node (sn_type nb))"
    "reaches reg tid s (data_node n) (sizeof_node (sn_type n))"
    by (rule winnable_cases [OF assms(12)])
  obtain N where N: "cap (sn_type n) = Some N" "node_inv N (node_in ?m (data_node n))"
    "node_map (node_in ?m (data_node n)) key = None" "length [req] < room N (node_in ?m (data_node n))"
    using assms(13) by (auto simp: roomy_def)
  obtain M where M: "cap (sn_type nb) = Some M" "node_inv M (node_in ?m (data_node nb))"
    "node_map (node_in ?m (data_node nb)) (tag req) = None" "0 < room M (node_in ?m (data_node nb))"
    using assms(14) by (auto simp: roomy_def)
  have q: "[req] = [] \<or> (\<exists>M. cap (sn_type nb) = Some M \<and> ntype (node_in ?m (data_node nb)) = sn_type nb \<and>
      node_inv M (node_in ?m (data_node nb)))" using M assms(15) by blast
  have w: "list_all wide_request [req]" using assms(7) by simp
  from rdma_fabric.put_fast_run [OF assms(1,2,5,6,4) b(1-3) N(1) b(4-8) assms(8,9) N(2,3) w N(4) q, of par]
  obtain s' pred rb pred' rb' ans bs where r: "put_dispatcher E tid par (Some d) key val s = Some (Inr (True, s'))"
    "help_others N (anchor n) pred rb [req] [] = Inr (pred', rb', ans, [])"
    "\<forall>M. cap (sn_type nb) = Some M \<longrightarrow> agree M pred (node_in ?m (data_node nb))"
    "answers s' = answers (drained tid c s) ++ map_of (map (\<lambda>r. (rid r, r)) ans)"
    "snd (settled (net s')) = write_rem ?m (get_as (data_node n)) bs" "length bs = sizeof_linked_node 16 N"
    unfolding Let_def by blast
  have a: "agree M pred (node_in ?m (data_node nb))" using r(3) M(1) by blast
  then have "room M pred \<noteq> 0" "cap (ntype pred) = Some M"
    using M(1,4) assms(15) agree_fields(4,5) [OF a] by (simp_all add: room_def)
  then have "fst (projr (help_pred pred (tag req) (content req)))" if "help_pred pred (tag req) (content req) = Inr x" for x
    using that by (auto simp: help_pred_eq store_kv_def available_def room_def res_bind_eq_Inr split: if_splits)
  then have "ans = [req\<lparr>succeed := True, retry := False, is_done := True\<rparr>]"
    using r(2) assms(10) by (auto simp: res_bind_eq_Inr)
  then have "answers s' (rid req) = Some (req\<lparr>succeed := True, retry := False, is_done := True\<rparr>)" using r(4) by simp
  moreover have "node_in (snd (settled (net s'))) (data_node nb) = node_in ?m (data_node nb)"
    unfolding node_in_def r(5) using assms(16) r(6) cap_size [OF N(1)] by (subst read_rem_other) simp_all
  ultimately show ?thesis using r(1) M(3) put_dispatches [OF assms(3,11)] by auto
qed

lemma helped_predecessor_lost_witness:
  "\<exists>s'. put (demo_env (enqueue 7 [new_request 4 (b16 2) (b16 2)]) (\<lambda>_. 0)) 7 False (b16 6) (b16 8) demo_state = Some (Inr (True, s')) \<and>
    map_option succeed (answers s' 4) = Some True \<and> node_map (node_in (sim_mem (wire (net s'))) 0x1000) (b16 2) = None"
proof -
  let ?r = "new_request 4 (b16 2) (b16 2)"
  have f: "fuzzy_search (b16 6) (slist demo_state) = Some (Inr (Some 3))" by (simp add: demo_search)
  have "wide_request ?r" "tag ?r = b16 2" "rid ?r = 4" by (simp_all add: wide_request_def new_request_def)
  moreover have "roomy (snd (sim_settled (net demo_state))) demo_n (b16 6) 1" by (simp add: demo_roomy)
  moreover have "roomy demo_mem demo_nb (b16 2) 0"
    using demo_node_inv [of "[1]" 10 10] by (simp add: roomy_def cap_10 demo_nodes demo_map room_def demo_simps)
  moreover have "368 \<le> unat ((0x1000 :: u64) + of_nat i - 0x2000)" if "i < sizeof16" for i
    using apart_nodes(1) [of i] that by (simp add: sizeof16_def)
  moreover have "sizeof_node 10 = 368" "get_as 0x1000 = 0x1000" "get_as 0x2000 = 0x2000"
    by (simp_all add: sizeof_node_def enumerator_def get_as_def)
  ultimately show ?thesis
    using helped_predecessor_lost [OF simulated.rdma_fabric_axioms demo_usable, of new_conc_ctx "demo_env (enqueue 7 [?r]) (\<lambda>_. 0)" ?r
        "b16 6" "b16 8" demo_n 3 demo_nb False]
    by (auto simp: demo_winnable demo_nodes demo_simps b16_less f sim_settled_def)
qed

subsection \<open>Lookup\<close>

text \<open>C8: a lookup whose key is routed to a node with a fitting checksum returns, with what the node
  in remote memory holds for the key, and changes neither the search layer nor remote memory;
  requests left in the thread's queue have been told to try again.\<close>

theorem get_returns_stored:
  assumes "rdma_fabric V base reg conn os settled" "usable conn os tid s" "remote_put s" "cctx s tid = Some c" "vb E = V"
    and "fuzzy_search key (slist s) = Some (Inr (Some d))" "deref (slist s) (Some d) = Inr n" "wide key"
    and "reaches reg tid s (data_node n) sizeof16" "node_inv N (node_in (snd (settled (net s))) (data_node n))"
    and "crc_validate (crcer E) (node_in (snd (settled (net s))) (data_node n)) (sn_type n) = crc (node_in (snd (settled (net s))) (data_node n))"
  shows "\<exists>s'. get E tid key s = Some (Inr (node_map (node_in (snd (settled (net s))) (data_node n)) key, s')) \<and>
    slist s' = slist s \<and> snd (settled (net s')) = snd (settled (net s)) \<and>
    (\<forall>a. answers s' a = (case map_of (map (\<lambda>r. (rid r, r)) (requests c)) a of
        None \<Rightarrow> answers s a | Some r \<Rightarrow> Some (r\<lparr>succeed := False, retry := True, is_done := True\<rparr>)))"
proof -
  let ?b = "node_in (snd (settled (net s))) (data_node n)"
  from rdma_fabric.get_turn_run [OF assms(1,2,5,4,6,7,9)] obtain n' where
    t: "get_turn E tid key (get_remote E tid key) s =
      (let b = ?b; t = (drained tid c s)\<lparr>net := n'\<rparr>
       in if crc_validate (crcer E) b (sn_type n) \<noteq> crc b then get_remote E tid key (others E t) else st_lift (find_kv key b) t)"
    "snd (settled n') = snd (settled (net s))" by blast
  have "get E tid key s = get_remote E tid key s" using assms(3) by (simp add: get_def)
  also have "\<dots> = Some (Inr (node_map ?b key, (drained tid c s)\<lparr>net := n'\<rparr>))"
    unfolding get_remote_turn [of E tid key s] t(1)
    using assms(11) find_kv_eq [OF assms(10,8)] by (simp add: Let_def st_lift_def)
  finally have g: "get E tid key s = Some (Inr (node_map ?b key, (drained tid c s)\<lparr>net := n'\<rparr>))" .
  have m: "map_of (map (\<lambda>r. (rid r, f r)) rs) a = map_option f (map_of (map (\<lambda>r. (rid r, r)) rs) a)" for f :: "request \<Rightarrow> request" and rs a
    by (induction rs) auto
  have an: "answers ((drained tid c s)\<lparr>net := n'\<rparr>) a = (case map_of (map (\<lambda>r. (rid r, r)) (requests c)) a of
        None \<Rightarrow> answers s a | Some r \<Rightarrow> Some (r\<lparr>succeed := False, retry := True, is_done := True\<rparr>))" for a
    by (simp add: drained_def m [of "\<lambda>r. r\<lparr>succeed := False, retry := True, is_done := True\<rparr>"] map_add_def split: option.split)
  show ?thesis
    by (rule exI [of _ "(drained tid c s)\<lparr>net := n'\<rparr>"], intro conjI g allI an) (simp_all add: t(2))
qed

lemma get_returns_stored_witness:
  "\<exists>s'. get (demo_env (\<lambda>s. s) demo_crc) 7 (b16 6) demo_state = Some (Inr (None, s'))"
proof -
  have "crc_validate demo_crc (demo_node [5] 10) 10 = crc (demo_node [5] 10)"
  proof -
    have "pairs (demo_node [5] 10) = \<lparr>kv_key = b16 5, kv_value = b16 9\<rparr> # kv_zero # replicate 14 kv_zero"
      by (simp add: demo_node_def numeral_eq_Suc)
    then have "take 16 (drop 32 (take 320 (pairs_bytes (pairs (demo_node [5] 10))))) = b16 0"
      using kv_ok_zero by (simp add: pairs_bytes_def kv_bytes_length drop_take take_take)
        (simp add: kv_bytes_def kv_zero_def b16_def)
    then show ?thesis by (simp add: crc_validate_def enumerator_def demo_crc_def) (simp add: demo_node_def)
  qed
  then show ?thesis
    using get_returns_stored [OF simulated.rdma_fabric_axioms demo_usable, of new_conc_ctx "demo_env (\<lambda>s. s) demo_crc" "b16 6" 3 demo_n 10]
    by (auto simp: demo_nodes demo_reaches demo_node_inv demo_map)
qed

subsection \<open>Update\<close>

text \<open>C21: an update that wins its node changes the record in the first part of the buffer, where the
  node was read to, but writes back the second part: remote memory then holds whatever the last
  operation of the thread left there, and the update is reported as successful.\<close>

theorem update_writes_other_half:
  assumes "rdma_fabric V base reg conn os settled" "usable conn os tid s" "remote_put s" "cctx s tid = Some c"
    and "vb E = V" "others E = (\<lambda>s. s)" "wide key" "wide val"
    and "fuzzy_search key (slist s) = Some (Inr (Some d))" "deref (slist s) (Some d) = Inr n" "ctx n = None"
    and "reaches reg tid s (data_node n) 560" "cap (ntype (node_in (snd (settled (net s))) (data_node n))) = Some N"
    and "node_inv N (node_in (snd (settled (net s))) (data_node n))" "reg (get_as (data_node n)) (sizeof_linked_node 16 N)"
  shows "\<exists>s'. update E tid key val s = Some (Inr (node_map (node_in (snd (settled (net s))) (data_node n)) key \<noteq> None, s')) \<and>
    slist s' = slist s \<and> agree N (node_in (snd (settled (net s'))) (data_node n)) (view 560 (lbuf (net s)))"
proof -
  let ?b = "node_in (snd (settled (net s))) (data_node n)"
  obtain b1 where b1: "update_kv key val ?b = Inr (node_map ?b key \<noteq> None, b1)"
    using update_kv_eq [OF assms(14,7,8)] by blast
  have sh: "node_shape b1" "ntype b1 = ntype ?b" using update_kv_shape [OF b1 node_in_shape assms(8)] by simp_all
  have sz: "sizeof_node (ntype b1) = sizeof_linked_node 16 N" "N \<le> 16" using cap_size [OF assms(13)] sh(2) by simp_all
  have E: "others E = enqueue tid []" by (simp add: assms(6) enqueue_Nil)
  have o: "update_others b1 [] = Inr (b1, [])" by simp
  have r: "reg (get_as (data_node n)) (sizeof_node (ntype b1))" using assms(15) sz by simp
  obtain s' where s': "update E tid key val s = Some (Inr (node_map ?b key \<noteq> None, s'))" "slist s' = slist s"
    "snd (settled (net s')) = write_rem (snd (settled (net s))) (get_as (data_node n)) (take (sizeof_node (ntype b1)) (drop 560 (lbuf (net s))))"
    using rdma_fabric.update_run [OF assms(1-3,5) E assms(4,9-11) b1 o sh(1) assms(12) r] by blast
  have "length (lbuf (net s)) = 8192" using assms(2) by (simp add: usable_def)
  then have "agree N (node_in (snd (settled (net s'))) (data_node n)) (view 560 (lbuf (net s)))"
    unfolding s'(3) sz(1) using sz(2) by (intro written_agrees) simp_all
  with s' show ?thesis by blast
qed

text \<open>In the demonstration the buffer is empty, and so is the node after the update.\<close>

lemma update_writes_other_half_witness:
  "\<exists>s'. update (demo_env (\<lambda>s. s) demo_crc) 7 (b16 6) (b16 8) demo_state = Some (Inr (False, s')) \<and>
    nxt (node_in (sim_mem (wire (net s'))) 0x2000) = 0"
proof -
  have f: "nxt (view 560 (replicate 8192 0)) = 0"
    by (simp add: view_def sizeof16_def decode_node_def field_def numeral_eq_Suc)
  obtain s' where "update (demo_env (\<lambda>s. s) demo_crc) 7 (b16 6) (b16 8) demo_state = Some (Inr (False, s'))"
    "agree 10 (node_in (snd (sim_settled (net s'))) 0x2000) (view 560 (replicate 8192 0))"
    using update_writes_other_half [OF simulated.rdma_fabric_axioms demo_usable, of new_conc_ctx "demo_env (\<lambda>s. s) demo_crc" "b16 6" "b16 8" 3 demo_n 10]
    by (auto simp: demo_nodes demo_reaches demo_node_inv demo_map demo_simps cap_10)
  with f agree_fields(5) show ?thesis by (auto simp: sim_settled_def)
qed

subsection \<open>Scan\<close>

text \<open>C22: a scan that starts in the last but one node faults: it has read both nodes, finds no node
  behind them, and polls the completion of a batch it has never posted, on a null context.\<close>

theorem scan_of_last_two_faults:
  assumes "rdma_fabric V base reg conn os settled" "usable conn os tid s" "vb E = V"
    and "fuzzy_search key (slist s) = Some (Inr (Some d))" "deref (slist s) (Some d) = Inr n"
    and "forwards n \<noteq> []" "forwards n ! 0 = Some e" "deref (slist s) (Some e) = Inr ne" "forwards ne \<noteq> []" "forwards ne ! 0 = None"
    and "key \<le> anchor ne" "reaches reg tid s (data_node n) (sizeof_node (sn_type n))"
    and "reg (get_as (data_node ne)) (sizeof_node (sn_type ne))"
  shows "scan E tid ls rs key ct s = Some (Inl NullDeref)"
proof -
  obtain n' where f: "fetch_two E tid False (Some d) (Some e) s = Some (Inr ((0, sizeof16), s\<lparr>net := n'\<rparr>))"
    using rdma_fabric.fetch_two_run [OF assms(1-3,5,8,12,13) sizeof_node_le sizeof_node_le] by blast
  have "fetch_two_into_buffer E tid (Some d) (Some e) s = Some (Inr ((view 0 (lbuf n'), view sizeof16 (lbuf n')), s\<lparr>net := n'\<rparr>))"
    by (simp add: fetch_two_into_buffer_def st_bind_Inr [of "fetch_two E tid False (Some d) (Some e)", OF f] step_simps) (simp add: st_ret_def)
  note g = st_bind_Inr [of "fetch_two_into_buffer E tid (Some d) (Some e)", OF this]
  have "scan_loop E tid key ct (Some e) None ls' rs' 0 0 [] (s\<lparr>net := n'\<rparr>) = Some (Inl NullDeref)" for ls' rs'
    using assms(8-10) by (subst scan_loop.simps) (simp add: step_simps poll_fetch_two_async_def non_null_def)
  then show ?thesis
    using assms(4-8,11) by (simp add: scan_def step_simps g)
qed

lemma scan_of_last_two_faults_witness: "scan (demo_env (\<lambda>s. s) demo_crc) 7 [] [] (b16 2) 5 demo_state = Some (Inl NullDeref)"
proof -
  have w2: "walk demo_list 0 (b16 2) 2 = Some (Inr 2)" by (subst walk.simps) (simp add: get_forward_def b16_less)
  have "walk demo_list 0 (b16 2) 0 = Some (Inr 2)"
    by (subst walk.simps) (use w2 in \<open>simp add: get_forward_def make_skip_node_def b16_less\<close>)
  then have "descend demo_list (b16 2) 0 1 0 no_update = Some (Inr (2, no_update[0 := Some 2]))" by (simp add: no_update_def)
  moreover have "current_level demo_list = 1" "head demo_list = 0" by (simp_all add: demo_list_def)
  ultimately have f: "fuzzy_search (b16 2) demo_list = Some (Inr (Some 2))"
    using order.strict_implies_order [of "b16 1" "b16 2"] by (simp add: fuzzy_search_def b16_less)
  show ?thesis
    by (rule scan_of_last_two_faults [OF simulated.rdma_fabric_axioms demo_usable, of _ "b16 2" 2 demo_nb 3 demo_n])
      (use f b16_less [of 2 5] in \<open>simp_all add: demo_reaches order.strict_implies_order\<close>)
qed

end
