(* ===== verification/LocalStage.thy ===== *)
theory LocalStage
  imports ComputeProps
begin

text \<open>
  The local stage of \<open>ComputeNode\<close>, before its two nodes are flushed to remote memory: the
  well-formedness of the two nodes with their anchors, and \<open>quick_put\<close>, \<open>get\<close> and \<open>update\<close>
  against a map.
\<close>

subsection \<open>Two nodes as a map\<close>

definition local_inv :: "'w cn \<Rightarrow> bool" where
  "local_inv s \<longleftrightarrow>
     (\<exists>a0 a1 n0 n1. local_anchors s = [a0, a1] \<and> local_nodes s = [n0, n1] \<and> node_inv 10 n0 \<and> node_inv 10 n1 \<and>
        (a0 = [] \<longrightarrow> a1 = [] \<and> node_map n0 = Map.empty) \<and> (a0 \<noteq> [] \<longrightarrow> wide a0) \<and>
        (a1 = [] \<longrightarrow> node_map n1 = Map.empty \<and> (a0 \<noteq> [] \<longrightarrow> dom (node_map n0) = {a0})) \<and>
        (a1 \<noteq> [] \<longrightarrow> wide a1 \<and> a0 \<le> a1 \<and> a1 \<in> dom (node_map n1) \<and>
           (\<forall>k \<in> dom (node_map n0). k \<le> a1) \<and> (\<forall>k \<in> dom (node_map n1). a1 \<le> k)))"

definition local_map :: "'w cn \<Rightarrow> bytes \<rightharpoonup> bytes" where
  "local_map s = (\<lambda>k. node_map (local_nodes s ! (if local_anchors s ! 1 \<noteq> [] \<and> local_anchors s ! 1 \<le> k then 1 else 0)) k)"

lemma local_inv_cases:
  assumes "local_inv s"
  obtains a0 a1 n0 n1 where "local_anchors s = [a0, a1]" "local_nodes s = [n0, n1]" "node_inv 10 n0" "node_inv 10 n1"
    "a0 = [] \<longrightarrow> a1 = [] \<and> node_map n0 = Map.empty" "a0 \<noteq> [] \<longrightarrow> wide a0"
    "a1 = [] \<longrightarrow> node_map n1 = Map.empty \<and> (a0 \<noteq> [] \<longrightarrow> dom (node_map n0) = {a0})"
    "a1 \<noteq> [] \<longrightarrow> wide a1 \<and> a0 \<le> a1 \<and> a1 \<in> dom (node_map n1) \<and>
       (\<forall>k \<in> dom (node_map n0). k \<le> a1) \<and> (\<forall>k \<in> dom (node_map n1). a1 \<le> k)"
  using assms unfolding local_inv_def by metis

lemma get_local_run:
  assumes "local_inv s" "wide k"
  shows "get_local k s = Some (Inr (local_map s k, s))"
  by (rule local_inv_cases [OF assms(1)]) (simp add: get_local_def local_map_def find_kv_eq assms(2))

text \<open>A node that takes one more record.\<close>

lemma store_room:
  assumes "store_kv N k v n = Inr (ok, n')"
  shows "room N n \<le> Suc (room N n')"
proof -
  have "n' = n \<or> nxt n' = nxt n + 1"
    using assms by (auto simp: store_kv_def append_record_def Let_def res_bind_eq_Inr split: if_splits)
  moreover have "unat (nxt n + 1) \<le> Suc (unat (nxt n))" by (simp add: unat_word_ariths)
  ultimately show ?thesis by (auto simp: room_def)
qed

lemma store_local:
  assumes "node_inv 10 n" "wide k" "wide v" "room 10 n \<noteq> 0"
  obtains n' where "store_kv 10 k v n = Inr (True, n')" "node_inv 10 n'" "node_map n' = [k \<mapsto> v] ++ node_map n"
    "room 10 n \<le> Suc (room 10 n')"
proof -
  obtain n' where "store_kv 10 k v n = Inr (room 10 n \<noteq> 0, n')" "node_inv 10 n'"
    "node_map n' = (if room 10 n = 0 then node_map n else [k \<mapsto> v] ++ node_map n)"
    by (rule store_kv_cases [OF assms(1-3)])
  with assms(4) that store_room [of 10 k v n] show ?thesis by simp
qed

lemma quick_put_stores:
  assumes "\<not> remote_put s" "quick_put_pick_node key s = Some (Inr (i, s1))" "store_kv 10 key val (local_nodes s1 ! i) = Inr (True, n')"
  shows "quick_put E tid key val s = Some (Inr (True, s1\<lparr>local_nodes := (local_nodes s1)[i := n']\<rparr>))"
  using assms by (simp add: quick_put_def st_bind_Inr [of "quick_put_pick_node key"]) (simp add: st_ret_def)

lemma dom_first [simp]: "dom ([k \<mapsto> v] ++ m) = insert k (dom m)"
  by auto

lemma first_same: "m k = Some w \<Longrightarrow> [k \<mapsto> v] ++ m = m"
  by (auto simp: fun_eq_iff map_add_def split: option.splits)

lemma local_map_eq:
  assumes "local_anchors s = [a0, a1]" "local_nodes s = [n0, n1]"
  shows "local_map s k = (if a1 \<noteq> [] \<and> a1 \<le> k then node_map n1 k else node_map n0 k)"
  using assms by (simp add: local_map_def)

lemma first_at [simp]: "([k \<mapsto> v] ++ m) x = (case m x of None \<Rightarrow> if x = k then Some v else None | Some w \<Rightarrow> Some w)"
  by (simp add: map_add_def split: option.split)

lemma local_invI:
  assumes "local_anchors s = [a0, a1]" "local_nodes s = [n0, n1]" "node_inv 10 n0" "node_inv 10 n1" "wide a0"
    and "a1 = [] \<Longrightarrow> node_map n1 = Map.empty \<and> (a0 \<noteq> [] \<longrightarrow> dom (node_map n0) = {a0})"
    and "a1 \<noteq> [] \<Longrightarrow> wide a1 \<and> a0 \<le> a1 \<and> a1 \<in> dom (node_map n1) \<and>
       (\<forall>k \<in> dom (node_map n0). k \<le> a1) \<and> (\<forall>k \<in> dom (node_map n1). a1 \<le> k)"
  shows "local_inv s"
  unfolding local_inv_def using assms by - (rule exI [of _ a0], rule exI [of _ a1], rule exI [of _ n0], rule exI [of _ n1], auto)

definition local_room :: "'w cn \<Rightarrow> nat" where
  "local_room s = min (room 10 (local_nodes s ! 0)) (room 10 (local_nodes s ! 1))"

text \<open>One insertion at the local stage, in the five cases of \<open>quick_put_pick_node\<close>.\<close>

lemma quick_put_local:
  assumes s: "local_inv s" "\<not> remote_put s" and k: "wide key" "wide val"
    and r: "local_room s \<noteq> 0"
  shows "\<exists>s'. quick_put E tid key val s = Some (Inr (True, s')) \<and> local_inv s' \<and> \<not> remote_put s' \<and> local_room s \<le> Suc (local_room s') \<and>
    local_anchors s' ! 0 \<noteq> [] \<and> (local_anchors s ! 0 \<noteq> [] \<longrightarrow> local_anchors s' ! 1 \<noteq> []) \<and>
    (local_anchors s ! 0 = [] \<longrightarrow> local_anchors s' = [key, []]) \<and>
    (key \<noteq> local_anchors s ! 0 \<or> local_anchors s ! 1 \<noteq> [] \<longrightarrow> local_map s' = [key \<mapsto> val] ++ local_map s) \<and>
    (key = local_anchors s ! 0 \<and> local_anchors s ! 1 = [] \<longrightarrow> local_map s' = [key \<mapsto> val])"
proof -
  obtain a0 a1 n0 n1 where i: "local_anchors s = [a0, a1]" "local_nodes s = [n0, n1]" "node_inv 10 n0" "node_inv 10 n1"
    "a0 = [] \<longrightarrow> a1 = [] \<and> node_map n0 = Map.empty" "a0 \<noteq> [] \<longrightarrow> wide a0"
    "a1 = [] \<longrightarrow> node_map n1 = Map.empty \<and> (a0 \<noteq> [] \<longrightarrow> dom (node_map n0) = {a0})"
    "a1 \<noteq> [] \<longrightarrow> wide a1 \<and> a0 \<le> a1 \<and> a1 \<in> dom (node_map n1) \<and>
       (\<forall>k \<in> dom (node_map n0). k \<le> a1) \<and> (\<forall>k \<in> dom (node_map n1). a1 \<le> k)"
    by (rule local_inv_cases [OF s(1)])
  have kn: "key \<noteq> []" using k(1) by auto
  have r0: "room 10 n0 \<noteq> 0" "room 10 n1 \<noteq> 0" using r i(2) by (simp_all add: local_room_def)
  obtain m0 where m0: "store_kv 10 key val n0 = Inr (True, m0)" "node_inv 10 m0" "node_map m0 = [key \<mapsto> val] ++ node_map n0"
    "room 10 n0 \<le> Suc (room 10 m0)"
    by (rule store_local [OF i(3) k r0(1)])
  obtain m1 where m1: "store_kv 10 key val n1 = Inr (True, m1)" "node_inv 10 m1" "node_map m1 = [key \<mapsto> val] ++ node_map n1"
    "room 10 n1 \<le> Suc (room 10 m1)"
    by (rule store_local [OF i(4) k r0(2)])
  consider (empty) "a0 = []" | (swap) "a0 \<noteq> []" "key < a0" "a1 = []" | (lower) "a0 \<noteq> []" "key < a0" "a1 \<noteq> []"
    | (second) "a0 \<noteq> []" "\<not> key < a0" "a1 = []" | (upper) "a0 \<noteq> []" "\<not> key < a0" "a1 \<noteq> []" "a1 < key"
    | (middle) "a0 \<noteq> []" "\<not> key < a0" "a1 \<noteq> []" "\<not> a1 < key" by blast
  then show ?thesis
  proof cases
    case empty
    let ?s = "s\<lparr>local_anchors := [key, []], local_nodes := [m0, n1]\<rparr>"
    have "quick_put E tid key val s = Some (Inr (True, ?s))"
      using quick_put_stores [OF s(2), of key 0 "s\<lparr>local_anchors := [key, []]\<rparr>" val m0] i(1,2,5) m0(1) empty by (simp add: quick_put_pick_node_def)
    moreover have "local_inv ?s" using i m0 k(1) empty by (intro local_invI [of _ key "[]" m0 n1]) simp_all
    moreover have "local_map ?s x = ([key \<mapsto> val] ++ local_map s) x" for x
      using i(5) m0(3) empty by (simp add: local_map_eq [of ?s key "[]" m0 n1] local_map_eq [OF i(1,2)])
    ultimately show ?thesis using s(2) i(1,2,8) kn empty m0(4) m1(4)
      by (intro exI [of _ ?s]) (auto simp: local_room_def intro: ext)
  next
    case swap
    let ?s = "s\<lparr>local_nodes := [m1, n0], local_anchors := [key, a0]\<rparr>"
    have "quick_put E tid key val s = Some (Inr (True, ?s))"
      using quick_put_stores [OF s(2), of key 0 "s\<lparr>local_nodes := [n1, n0], local_anchors := [key, a0]\<rparr>" val m1] i(1,2) m1(1) swap
      by (simp add: quick_put_pick_node_def)
    moreover have "local_inv ?s" using i m1 k(1) swap by (intro local_invI [of _ key a0 m1 n0]) auto
    moreover have "local_map ?s x = ([key \<mapsto> val] ++ local_map s) x" for x
    proof -
      have "dom (node_map n0) = {a0}" "node_map n1 = Map.empty" using i(7) swap by simp_all
      moreover from this(1) have "x \<noteq> a0 \<Longrightarrow> node_map n0 x = None" by (metis domIff singletonD)
      ultimately show ?thesis
        using m1(3) swap by (cases "x = a0") (auto simp: local_map_eq [of ?s key a0 m1 n0] local_map_eq [OF i(1,2)] split: option.split)
    qed
    ultimately show ?thesis using s(2) i(1,2,8) kn swap m0(4) m1(4)
      by (intro exI [of _ ?s]) (auto simp: local_room_def intro: ext)
  next
    case lower
    let ?s = "s\<lparr>local_anchors := [key, a1], local_nodes := [m0, n1]\<rparr>"
    have "quick_put E tid key val s = Some (Inr (True, ?s))"
      using quick_put_stores [OF s(2), of key 0 "s\<lparr>local_anchors := [key, a1]\<rparr>" val m0] i(1,2) m0(1) lower by (simp add: quick_put_pick_node_def)
    moreover have "key < a1" using i(8) lower by auto
    moreover have "local_inv ?s" using i m0 k(1) lower \<open>key < a1\<close> by (intro local_invI [of _ key a1 m0 n1]) auto
    moreover have "local_map ?s x = ([key \<mapsto> val] ++ local_map s) x" for x
      using m0(3) lower \<open>key < a1\<close> by (auto simp: local_map_eq [of ?s key a1 m0 n1] local_map_eq [OF i(1,2)] split: option.split)
    ultimately show ?thesis using s(2) i(1,2,8) kn lower m0(4) m1(4)
      by (intro exI [of _ ?s]) (auto simp: local_room_def intro: ext)
  next
    case second
    let ?s = "s\<lparr>local_anchors := [a0, key], local_nodes := [n0, m1]\<rparr>"
    have "quick_put E tid key val s = Some (Inr (True, ?s))"
      using quick_put_stores [OF s(2), of key 1 "s\<lparr>local_anchors := [a0, key]\<rparr>" val m1] i(1,2) m1(1) second by (simp add: quick_put_pick_node_def)
    moreover have "local_inv ?s" using i m1 k(1) second by (intro local_invI [of _ a0 key n0 m1]) auto
    moreover have "local_map ?s = (if key = a0 then [key \<mapsto> val] else [key \<mapsto> val] ++ local_map s)"
    proof
      fix x
      have d: "dom (node_map n0) = {a0}" "node_map n1 = Map.empty" using i(7) second by simp_all
      from d(1) have "x \<noteq> a0 \<Longrightarrow> node_map n0 x = None" by (metis domIff singletonD)
      moreover have "\<not> key \<le> a0" if "key \<noteq> a0" using second that by auto
      ultimately show "local_map ?s x = (if key = a0 then [key \<mapsto> val] else [key \<mapsto> val] ++ local_map s) x"
        using d m1(3) second kn by (cases "x = a0") (auto simp: local_map_eq [of ?s a0 key n0 m1] local_map_eq [OF i(1,2)] split: option.split)
    qed
    ultimately show ?thesis using s(2) i(1,2,8) kn second m0(4) m1(4)
      by (intro exI [of _ ?s]) (auto simp: local_room_def)
  next
    case upper
    let ?s = "s\<lparr>local_nodes := [n0, m1]\<rparr>"
    have "quick_put E tid key val s = Some (Inr (True, ?s))"
      using quick_put_stores [OF s(2), of key 1 s val m1] i(1,2) m1(1) upper by (simp add: quick_put_pick_node_def)
    moreover have "local_inv ?s" using i m1 k(1) upper by (intro local_invI [of _ a0 a1 n0 m1]) auto
    moreover have "local_map ?s x = ([key \<mapsto> val] ++ local_map s) x" for x
      using m1(3) upper by (auto simp: local_map_eq [of ?s a0 a1 n0 m1] i(1) local_map_eq [OF i(1,2)] split: option.split)
    ultimately show ?thesis using s(2) i(1,2,8) kn upper m0(4) m1(4)
      by (intro exI [of _ ?s]) (auto simp: local_room_def intro: ext)
  next
    case middle
    let ?s = "s\<lparr>local_nodes := [m0, n1]\<rparr>"
    have "quick_put E tid key val s = Some (Inr (True, ?s))"
      using quick_put_stores [OF s(2), of key 0 s val m0] i(1,2) m0(1) middle by (simp add: quick_put_pick_node_def)
    moreover have "local_inv ?s" using i m0 k(1) middle by (intro local_invI [of _ a0 a1 m0 n1]) auto
    moreover have "local_map ?s x = ([key \<mapsto> val] ++ local_map s) x" for x
    proof -
      have "key = a1 \<Longrightarrow> node_map n1 key \<noteq> None" using i(8) middle by auto
      then show ?thesis
        using m0(3) middle by (auto simp: local_map_eq [of ?s a0 a1 m0 n1] i(1) local_map_eq [OF i(1,2)] split: option.split)
    qed
    ultimately show ?thesis using s(2) i(1,2,8) kn middle m0(4) m1(4)
      by (intro exI [of _ ?s]) (auto simp: local_room_def intro: ext)
  qed
qed

subsection \<open>Sequences of insertions\<close>

fun put_each :: "(bytes \<Rightarrow> bytes \<Rightarrow> ('s, bool) prog) \<Rightarrow> (bytes \<times> bytes) list \<Rightarrow> ('s, bool) prog" where
  "put_each f [] = st_ret True"
| "put_each f ((k, v) # kvs) = st_bind (f k v) (\<lambda>ok. if ok then put_each f kvs else st_ret False)"

text \<open>The state after initialisation: two fresh nodes and no anchors.\<close>

definition local_fresh :: "'w cn \<Rightarrow> bool" where
  "local_fresh s \<longleftrightarrow> \<not> remote_put s \<and> local_anchors s = [[], []] \<and>
     (\<exists>j0 j1 c0 c1. local_nodes s = [new_linked_node 16 10 c0 j0, new_linked_node 16 10 c1 j1] \<and>
        10 \<le> length j0 \<and> 10 \<le> length j1 \<and> list_all kv_ok j0 \<and> list_all kv_ok j1)"

lemma put_local: "quick_put E tid k v s = Some (Inr (True, s')) \<Longrightarrow> \<not> remote_put s \<Longrightarrow> put E tid par k v s = Some (Inr (True, s'))"
  by (simp add: put_def st_bind_Inr [of "quick_put E tid k v"]) (simp add: st_ret_def)

lemma new_node_inv:
  assumes "10 \<le> length j" "list_all kv_ok j"
  shows "node_inv 10 (new_linked_node 16 10 c j)" "node_map (new_linked_node 16 10 c j) = Map.empty" "room 10 (new_linked_node 16 10 c j) = 10"
proof -
  have "list_all kv_ok (take 10 j)" using assms(2) by (auto simp: list_all_iff dest: in_set_takeD)
  with assms show "node_inv 10 (new_linked_node 16 10 c j)" "node_map (new_linked_node 16 10 c j) = Map.empty"
      "room 10 (new_linked_node 16 10 c j) = 10"
    by (simp_all add: node_inv_def new_linked_node_def node_map_def records_def room_def)
qed

lemma fresh_inv:
  assumes "local_fresh s"
  shows "local_inv s" "local_room s = 10" "local_map s = Map.empty" "local_anchors s = [[], []]" "\<not> remote_put s"
proof -
  obtain j0 j1 c0 c1 where n: "local_nodes s = [new_linked_node 16 10 c0 j0, new_linked_node 16 10 c1 j1]"
    "10 \<le> length j0" "10 \<le> length j1" "list_all kv_ok j0" "list_all kv_ok j1" using assms by (auto simp: local_fresh_def)
  show a: "local_anchors s = [[], []]" "\<not> remote_put s" using assms by (simp_all add: local_fresh_def)
  with n show "local_inv s" "local_room s = 10" "local_map s = Map.empty"
    by (simp_all add: local_inv_def local_room_def local_map_def new_node_inv)
qed

lemma put_each_local:
  assumes "local_inv s" "\<not> remote_put s" "list_all (\<lambda>(k, v). wide k \<and> wide v) kvs" "length kvs \<le> local_room s" "local_anchors s ! 1 \<noteq> []"
  shows "\<exists>s'. put_each (put E tid par) kvs s = Some (Inr (True, s')) \<and> local_inv s' \<and> \<not> remote_put s' \<and>
    local_map s' = map_of kvs ++ local_map s"
  using assms
proof (induction kvs arbitrary: s)
  case (Cons x kvs)
  obtain k v where x: "x = (k, v)" by (cases x)
  have w: "wide k" "wide v" "local_room s \<noteq> 0" and ws: "list_all (\<lambda>(k, v). wide k \<and> wide v) kvs" using Cons.prems x by auto
  have a: "local_anchors s ! 0 \<noteq> []" by (rule local_inv_cases [OF Cons.prems(1)]) (use Cons.prems(5) in auto)
  obtain s1 where s1: "quick_put E tid k v s = Some (Inr (True, s1))" "local_inv s1" "\<not> remote_put s1"
    "local_room s \<le> Suc (local_room s1)" "local_anchors s1 ! 1 \<noteq> []" "local_map s1 = [k \<mapsto> v] ++ local_map s"
    using quick_put_local [OF Cons.prems(1,2) w, of E tid] Cons.prems(5) a by blast
  have "length kvs \<le> local_room s1" using s1(4) Cons.prems(4) by simp
  from Cons.IH [OF s1(2,3) ws this s1(5)] obtain s' where s': "put_each (put E tid par) kvs s1 = Some (Inr (True, s'))" "local_inv s'"
    "\<not> remote_put s'" "local_map s' = map_of kvs ++ local_map s1" by blast
  have "map_of kvs ++ ([k \<mapsto> v] ++ local_map s) = map_of (x # kvs) ++ local_map s"
    by (auto simp: x fun_eq_iff map_add_def split: option.splits)
  then have "local_map s' = map_of (x # kvs) ++ local_map s" unfolding s'(4) s1(6) .
  moreover have "put_each (put E tid par) (x # kvs) s = Some (Inr (True, s'))"
    using s'(1) by (simp add: x st_bind_Inr [of "put E tid par k v", OF put_local [OF s1(1) Cons.prems(2)]])
  ultimately show ?case using s'(2,3) by blast
qed (simp add: st_ret_def)

subsection \<open>Properties\<close>

text \<open>C10: at the local stage every insertion keeps the two nodes well formed: the records of each lie
  on its side of the second anchor, both anchors are in place once there are two keys, and the
  nodes are exchanged when a key below the only anchor arrives.\<close>

theorem local_stage_well_formed:
  assumes "local_inv s" "\<not> remote_put s" "wide key" "wide val" "local_room s \<noteq> 0"
  shows "\<exists>s'. put E tid par key val s = Some (Inr (True, s')) \<and> local_inv s' \<and> \<not> remote_put s'"
  using quick_put_local [OF assms, of E tid] put_local [OF _ assms(2)] by blast

definition demo_local :: "sim cn" where
  "demo_local = demo_state\<lparr>remote_put := False,
     local_nodes := [new_linked_node 16 10 0 (replicate 16 kv_zero), new_linked_node 16 10 0 (replicate 16 kv_zero)]\<rparr>"

lemma demo_local_fresh: "local_fresh demo_local"
proof -
  have "list_all kv_ok (replicate 16 kv_zero)" by (rule zeros_ok)
  then show ?thesis unfolding local_fresh_def demo_local_def
    by (intro conjI exI [of _ "replicate 16 kv_zero"] exI [of _ 0]) (simp_all add: demo_state_def)
qed

lemma local_stage_well_formed_witness:
  "\<exists>s'. put (demo_env (\<lambda>s. s) demo_crc) 7 False (b16 1) (b16 2) demo_local = Some (Inr (True, s')) \<and> local_inv s'"
  using local_stage_well_formed [OF fresh_inv(1,5) [OF demo_local_fresh], of "b16 1" "b16 2" "demo_env (\<lambda>s. s) demo_crc" 7 False]
    fresh_inv(2) [OF demo_local_fresh] by auto

text \<open>What the local stage holds after a list of insertions: the first value of each key, but when the
  second insertion repeats the key of the first one, its value replaces that of the first.\<close>

fun local_outcome :: "(bytes \<times> bytes) list \<Rightarrow> bytes \<rightharpoonup> bytes" where
  "local_outcome ((k, v) # (k', v') # kvs) = map_of (if k = k' then (k', v') # kvs else (k, v) # (k', v') # kvs)"
| "local_outcome kvs = map_of kvs"

lemma put_first:
  assumes "local_fresh s" "wide k" "wide v"
  obtains s' where "put E tid par k v s = Some (Inr (True, s'))" "local_inv s'" "\<not> remote_put s'" "9 \<le> local_room s'"
    "local_anchors s' = [k, []]" "local_map s' = [k \<mapsto> v]"
proof -
  note f = fresh_inv [OF assms(1)]
  obtain s1 where s1: "quick_put E tid k v s = Some (Inr (True, s1))" "local_inv s1" "\<not> remote_put s1"
    "local_room s \<le> Suc (local_room s1)" "local_anchors s1 = [k, []]" "local_map s1 = [k \<mapsto> v] ++ local_map s"
    using quick_put_local [OF f(1,5) assms(2,3), of E tid] f(2,4) assms(2) by auto
  show ?thesis by (rule that [OF put_local [OF s1(1) f(5)] s1(2,3)]) (use s1(4-) f(2,3) in simp_all)
qed

text \<open>C9: from the start, up to ten insertions are all accepted at the local stage, and a lookup then
  returns the value first inserted for its key, with one exception: when the second insertion
  repeats the key of the first one, its value replaces that of the first (\<open>local_outcome\<close>).\<close>

theorem local_stage_first_wins:
  assumes "local_fresh s" "list_all (\<lambda>(k, v). wide k \<and> wide v) kvs" "length kvs \<le> 10"
  shows "\<exists>s'. put_each (put E tid par) kvs s = Some (Inr (True, s')) \<and>
    (\<forall>k. wide k \<longrightarrow> get E tid k s' = Some (Inr (local_outcome kvs k, s')))"
proof -
  note f = fresh_inv [OF assms(1)]
  have g: "get E tid k t = Some (Inr (local_map t k, t))" if "local_inv t" "\<not> remote_put t" "wide k" for k t
    using get_local_run [OF that(1,3)] that(2) by (simp add: get_def)
  consider (none) "kvs = []" | (one) k v where "kvs = [(k, v)]" | (more) k v k' v' r where "kvs = (k, v) # (k', v') # r"
    by (metis list.exhaust surj_pair)
  then show ?thesis
  proof cases
    case none
    then show ?thesis using g [OF f(1,5)] f(3) by (simp add: st_ret_def)
  next
    case (one k v)
    then have w: "wide k" "wide v" using assms(2) by simp_all
    obtain s1 where "put E tid par k v s = Some (Inr (True, s1))" "local_inv s1" "\<not> remote_put s1" "local_map s1 = [k \<mapsto> v]"
      by (rule put_first [OF assms(1) w])
    with g one show ?thesis
      by (intro exI [of _ s1]) (simp add: st_bind_Inr [of "put E tid par k v"], simp add: st_ret_def)
  next
    case (more k v k' v' r)
    then have w: "wide k" "wide v" "wide k'" "wide v'" "list_all (\<lambda>(k, v). wide k \<and> wide v) r" using assms(2) by simp_all
    obtain s1 where s1: "put E tid par k v s = Some (Inr (True, s1))" "local_inv s1" "\<not> remote_put s1" "9 \<le> local_room s1"
      "local_anchors s1 = [k, []]" "local_map s1 = [k \<mapsto> v]"
      by (rule put_first [OF assms(1) w(1,2)])
    have "local_room s1 \<noteq> 0" "local_anchors s1 ! 0 \<noteq> []" using s1(4,5) w(1) by auto
    then obtain s2 where s2: "quick_put E tid k' v' s1 = Some (Inr (True, s2))" "local_inv s2" "\<not> remote_put s2"
      "local_room s1 \<le> Suc (local_room s2)" "local_anchors s2 ! 1 \<noteq> []"
      and m: "k' \<noteq> k \<longrightarrow> local_map s2 = [k' \<mapsto> v'] ++ [k \<mapsto> v]" "k' = k \<longrightarrow> local_map s2 = [k' \<mapsto> v']"
      using quick_put_local [OF s1(2,3) w(3,4), of E tid] unfolding s1(6) by (auto simp: s1(5))
    have m2: "local_map s2 = (if k = k' then [k' \<mapsto> v'] else [k' \<mapsto> v'] ++ [k \<mapsto> v])" using m by simp
    have "length r \<le> local_room s2" using s1(4) s2(4) assms(3) more by simp
    from put_each_local [OF s2(2,3) w(5) this s2(5), of E tid par] obtain s' where
      s': "put_each (put E tid par) r s2 = Some (Inr (True, s'))" "local_inv s'" "\<not> remote_put s'" "local_map s' = map_of r ++ local_map s2"
      by blast
    have "local_map s' = local_outcome kvs"
      unfolding s'(4) m2 more by (auto simp: fun_eq_iff map_add_def split: option.splits)
    moreover have "put_each (put E tid par) kvs s = Some (Inr (True, s'))"
      using s'(1) by (simp add: more st_bind_Inr [of "put E tid par k v", OF s1(1)]
          st_bind_Inr [of "put E tid par k' v'", OF put_local [OF s2(1) s1(3)]])
    ultimately show ?thesis using g [OF s'(2,3)] by (intro exI [of _ s']) simp
  qed
qed

lemma local_stage_first_wins_witness:
  "\<exists>s'. put_each (put (demo_env (\<lambda>s. s) demo_crc) 7 False) [(b16 2, b16 7), (b16 1, b16 8), (b16 2, b16 9)] demo_local = Some (Inr (True, s')) \<and>
    get (demo_env (\<lambda>s. s) demo_crc) 7 (b16 2) s' = Some (Inr (Some (b16 7), s'))"
proof -
  have "list_all (\<lambda>(k, v). wide k \<and> wide v) [(b16 2, b16 7), (b16 1, b16 8), (b16 2, b16 9)]"
    "length [(b16 2, b16 7), (b16 1, b16 8), (b16 2, b16 9)] \<le> 10" "b16 2 \<noteq> b16 1" by simp_all
  from local_stage_first_wins [OF demo_local_fresh this(1,2), of "demo_env (\<lambda>s. s) demo_crc" 7 False] show ?thesis by auto
qed

text \<open>An insertion of the first key again, before any other, replaces its value instead of
  keeping it: the key becomes the second anchor too and is stored in both nodes.\<close>

theorem first_key_again_replaces:
  assumes "local_fresh s" "wide k" "wide v" "wide v'"
  shows "\<exists>s'. put_each (put E tid par) [(k, v), (k, v')] s = Some (Inr (True, s')) \<and> local_anchors s' = [k, k] \<and>
    get E tid k s' = Some (Inr (Some v', s')) \<and> node_map (local_nodes s' ! 0) k = Some v"
proof -
  note f = fresh_inv [OF assms(1)]
  obtain n0 n1 where n: "local_nodes s = [n0, n1]" "node_inv 10 n0" "node_inv 10 n1" "node_map n0 = Map.empty" "node_map n1 = Map.empty"
    by (rule local_inv_cases [OF f(1)]) (use f(4) in auto)
  have r: "room 10 n0 \<noteq> 0" "room 10 n1 \<noteq> 0" using f(2) n(1) by (simp_all add: local_room_def min_def split: if_splits)
  obtain m0 where m0: "store_kv 10 k v n0 = Inr (True, m0)" "node_inv 10 m0" "node_map m0 = [k \<mapsto> v] ++ node_map n0"
    by (rule store_local [OF n(2) assms(2,3) r(1)])
  obtain m1 where m1: "store_kv 10 k v' n1 = Inr (True, m1)" "node_inv 10 m1" "node_map m1 = [k \<mapsto> v'] ++ node_map n1"
    by (rule store_local [OF n(3) assms(2,4) r(2)])
  have kn: "k \<noteq> []" using assms(2) by auto
  let ?s1 = "s\<lparr>local_anchors := [k, []], local_nodes := [m0, n1]\<rparr>"
  let ?s2 = "s\<lparr>local_anchors := [k, k], local_nodes := [m0, m1]\<rparr>"
  have p1: "put E tid par k v s = Some (Inr (True, ?s1))"
    using quick_put_stores [OF f(5), of k 0 "s\<lparr>local_anchors := [k, []]\<rparr>" v m0 E tid] f(4,5) n(1) m0(1)
    by (intro put_local) (simp_all add: quick_put_pick_node_def)
  have p2: "put E tid par k v' ?s1 = Some (Inr (True, ?s2))"
    using quick_put_stores [of ?s1 k 1 "?s1\<lparr>local_anchors := [k, k]\<rparr>" v' m1 E tid] f(5) m1(1) kn
    by (intro put_local) (simp_all add: quick_put_pick_node_def)
  have "find_kv k m1 = Inr (Some v')" using find_kv_eq [OF m1(2) assms(2)] m1(3) n(5) by simp
  then have "get E tid k ?s2 = Some (Inr (Some v', ?s2))" using f(5) kn by (simp add: get_def get_local_def)
  moreover have "put_each (put E tid par) [(k, v), (k, v')] s = Some (Inr (True, ?s2))"
    by (simp add: st_bind_Inr [of "put E tid par k v", OF p1] st_bind_Inr [of "put E tid par k v'", OF p2]) (simp add: st_ret_def)
  ultimately show ?thesis using m0(3) n(4) by (intro exI [of _ ?s2]) simp
qed

lemma first_key_again_replaces_witness:
  "\<exists>s'. put_each (put (demo_env (\<lambda>s. s) demo_crc) 7 False) [(b16 2, b16 7), (b16 2, b16 8)] demo_local = Some (Inr (True, s')) \<and>
    get (demo_env (\<lambda>s. s) demo_crc) 7 (b16 2) s' = Some (Inr (Some (b16 8), s'))"
  using first_key_again_replaces [OF demo_local_fresh, of "b16 2" "b16 7" "b16 8" "demo_env (\<lambda>s. s) demo_crc" 7 False] by auto

text \<open>C26: at the local stage an update of the key that is the second anchor reports that there is no
  such key, although a lookup finds it: \<open>update\<close> takes the first node unless the key is greater
  than the anchor, \<open>get\<close> the second one from the anchor on.\<close>

theorem local_update_misses_anchor:
  assumes "local_inv s" "\<not> remote_put s" "local_anchors s ! 1 = key" "key \<noteq> []" "wide val"
    and "node_map (local_nodes s ! 0) key = None"
  shows "\<exists>v s'. get E tid key s = Some (Inr (Some v, s)) \<and> update E tid key val s = Some (Inr (False, s')) \<and>
    local_map s' = local_map s"
proof -
  obtain a0 a1 n0 n1 where i: "local_anchors s = [a0, a1]" "local_nodes s = [n0, n1]" "node_inv 10 n0" "node_inv 10 n1"
    "a1 \<noteq> [] \<longrightarrow> wide a1 \<and> a1 \<in> dom (node_map n1)"
    using assms(1) unfolding local_inv_def by metis
  have w: "wide key" and v: "key \<in> dom (node_map n1)" using i(1,5) assms(3,4) by auto
  then obtain x where "node_map n1 key = Some x" by blast
  then have g: "get E tid key s = Some (Inr (Some x, s))"
    using get_local_run [OF assms(1) w] assms(2-4) i(1,2) by (simp add: get_def local_map_def)
  obtain n' where n': "update_kv key val n0 = Inr (False, n')" "node_map n' = node_map n0"
    using update_kv_eq [OF i(3) w assms(5)] assms(6) i(2) by auto
  let ?s = "s\<lparr>local_nodes := [n', n1]\<rparr>"
  have "update E tid key val s = Some (Inr (False, ?s))"
    using n'(1) assms(2,3) i(1,2) by (subst update.simps) (simp add: update_local_def)
  moreover have "local_map ?s = local_map s" using n'(2) i(1,2) by (auto simp: local_map_def)
  ultimately show ?thesis using g by blast
qed

definition demo_two :: "sim cn" where
  "demo_two = demo_state\<lparr>remote_put := False, local_anchors := [b16 1, b16 2], local_nodes := [demo_node [1] 10, demo_node [2] 10]\<rparr>"

lemma b16_not_Nil: "b16 x \<noteq> []"
  by (simp add: b16_def numeral_eq_Suc)

lemma demo_two_inv: "local_inv demo_two"
  using order.strict_implies_order [of "b16 1" "b16 2"]
  by (intro local_invI [of _ "b16 1" "b16 2" "demo_node [1] 10" "demo_node [2] 10"])
    (simp_all add: demo_two_def demo_node_inv demo_map b16_less b16_not_Nil)

lemma local_update_misses_anchor_witness:
  "\<exists>v s'. get (demo_env (\<lambda>s. s) demo_crc) 7 (b16 2) demo_two = Some (Inr (Some v, demo_two)) \<and>
    update (demo_env (\<lambda>s. s) demo_crc) 7 (b16 2) (b16 8) demo_two = Some (Inr (False, s'))"
  using local_update_misses_anchor [OF demo_two_inv, of "b16 2" "b16 8" "demo_env (\<lambda>s. s) demo_crc" 7]
  by (auto simp: demo_two_def demo_map b16_not_Nil)

end
