(* ===== verification/Cluster.thy ===== *)
theory Cluster
  imports Prelude
begin

text \<open>
  \<open>components/node/node.hpp\<close> and \<open>node.cpp\<close>: addresses, what a node knows of itself and the reading
  of its configuration; with \<open>RemoteMemoryManager::parse_config_file\<close> and the searches in the
  configuration of \<open>node/memory_node/memory_node.hpp\<close> and \<open>node/compute_node/compute_node.hpp\<close>.
  The regular expressions of the code are the matchers below: each of them is deterministic, as a
  run of digits is always followed by something that is no digit.
\<close>

subsection \<open>Matching\<close>

text \<open>\<open>std::regex_search\<close>: the first place where a matcher succeeds.\<close>

fun regex_search :: "(string \<Rightarrow> 'a option) \<Rightarrow> string \<Rightarrow> 'a option" where
  "regex_search m [] = m []"
| "regex_search m (c # s) = (case m (c # s) of Some r \<Rightarrow> Some r | None \<Rightarrow> regex_search m s)"

definition is_digit :: "char \<Rightarrow> bool" where
  "is_digit c \<longleftrightarrow> 48 \<le> (of_char c :: nat) \<and> (of_char c :: nat) \<le> 57"

definition is_space :: "char \<Rightarrow> bool" where
  "is_space c \<longleftrightarrow> (of_char c :: nat) = 32 \<or> 9 \<le> (of_char c :: nat) \<and> (of_char c :: nat) \<le> 13"

definition literal :: "string \<Rightarrow> string \<Rightarrow> string option" where
  "literal p s = (if take (length p) s = p then Some (drop (length p) s) else None)"

definition digits :: "string \<Rightarrow> (string \<times> string) option" where
  "digits s = (let d = takeWhile is_digit s in if d = [] then None else Some (d, dropWhile is_digit s))"

definition octet :: "string \<Rightarrow> (string \<times> string) option" where
  "octet s = Option.bind (digits s) (\<lambda>(d, r). if length d \<le> 3 then Some (d, r) else None)"

definition match_octets :: "string \<Rightarrow> (string list \<times> string) option" where
  "match_octets s =
     Option.bind (octet s) (\<lambda>(a, s1). Option.bind (literal ''.'' s1) (\<lambda>s2.
     Option.bind (octet s2) (\<lambda>(b, s3). Option.bind (literal ''.'' s3) (\<lambda>s4.
     Option.bind (octet s4) (\<lambda>(c, s5). Option.bind (literal ''.'' s5) (\<lambda>s6.
     Option.bind (octet s6) (\<lambda>(d, s7). Some ([a, b, c, d], s7))))))))"

text \<open>The number a run of digits stands for; \<open>atoi\<close> is undefined when it does not fit into an \<open>int\<close>.\<close>

definition decimal :: "string \<Rightarrow> nat" where
  "decimal d = foldl (\<lambda>n c. 10 * n + ((of_char c :: nat) - 48)) 0 d"

definition atoi :: "string \<Rightarrow> int res" where
  "atoi d = (if decimal d < 2 ^ 31 then Inr (int (decimal d)) else Inl InvalidArgument)"

text \<open>\<open>std::to_string\<close> of a number that is not negative.\<close>

fun dec_string :: "nat \<Rightarrow> string" where
  "dec_string n = (if n < 10 then [char_of (48 + n)] else dec_string (n div 10) @ [char_of (48 + n mod 10)])"

declare dec_string.simps [simp del]

subsection \<open>Addresses\<close>

record ipv4_addr =
  addr_content :: bytes

definition make_ipv4_addr :: "string \<Rightarrow> ipv4_addr option" where
  "make_ipv4_addr inp =
     (case match_octets inp of
        Some (ds, r) \<Rightarrow> if r = [] then Some \<lparr>addr_content = map (\<lambda>d. of_nat (decimal d)) ds\<rparr> else None
      | None \<Rightarrow> None)"

definition addr_to_string :: "ipv4_addr \<Rightarrow> string res" where
  "addr_to_string a =
     (case addr_content a of
        [b0, b1, b2, b3] \<Rightarrow> Inr (dec_string (unat b0) @ ''.'' @ dec_string (unat b1) @ ''.'' @ dec_string (unat b2) @ ''.'' @ dec_string (unat b3))
      | _ \<Rightarrow> Inl OutOfBounds)"

definition addr_to_uri :: "ipv4_addr \<Rightarrow> nat \<Rightarrow> string res" where
  "addr_to_uri a port = res_bind (addr_to_string a) (\<lambda>s. Inr (s @ '':'' @ dec_string port))"

subsection \<open>Configurations\<close>

record node_info =
  node_id :: int
  tcp_addr :: ipv4_addr
  tcp_port :: int
  roce_addr :: ipv4_addr
  roce_port :: int
  erpc_addr :: ipv4_addr
  erpc_port :: int
  socket :: int

text \<open>A node fresh from \<open>std::make_unique\<close>, which sets its memory to zero.\<close>

definition zero_info :: node_info where
  "zero_info =
     (let z = \<lparr>addr_content = [0, 0, 0, 0]\<rparr>
      in \<lparr>node_id = 0, tcp_addr = z, tcp_port = 0, roce_addr = z, roce_port = 0, erpc_addr = z, erpc_port = 0, socket = 0\<rparr>)"

text \<open>\<open>std::getline\<close> until the end of the file.\<close>

fun getlines :: "string \<Rightarrow> string list" where
  "getlines [] = []"
| "getlines (c # s) =
     (if c = CHR 0x0A then [] # getlines s
      else (case getlines s of [] \<Rightarrow> [[c]] | l # ls \<Rightarrow> (c # l) # ls))"

definition match_nid :: "string \<Rightarrow> string option" where
  "match_nid s = Option.bind (literal ''node'' s) (\<lambda>r. map_option fst (digits r))"

text \<open>The two groups of the expression for an address with its port, and what is behind the match.\<close>

definition match_uri :: "string \<Rightarrow> (string \<times> string \<times> string) option" where
  "match_uri s =
     Option.bind (match_octets s) (\<lambda>(ds, r). Option.bind (literal '':'' r) (\<lambda>r1. Option.bind (digits r1) (\<lambda>(p, r2).
     Some (concat (map (\<lambda>d. d @ ''.'') (butlast ds)) @ last ds, p, r2))))"

definition next_uri :: "string \<Rightarrow> (string \<times> string \<times> string) option" where
  "next_uri s = regex_search match_uri s"

text \<open>\<open>make_ipv4_addr(...).value()\<close>, which throws, and the two fields read from one match; an iterator
  at its end must not be read.\<close>

definition read_uri :: "string \<Rightarrow> (ipv4_addr \<times> int \<times> string) res" where
  "read_uri s =
     (case next_uri s of
        None \<Rightarrow> Inl NullDeref
      | Some (a, p, r) \<Rightarrow>
          (case make_ipv4_addr a of
             None \<Rightarrow> Inl InvalidArgument
           | Some x \<Rightarrow> res_bind (atoi p) (\<lambda>q. Inr (x, q, r))))"

definition read_nid :: "string \<Rightarrow> node_info \<Rightarrow> node_info res" where
  "read_nid buffer n =
     (case regex_search match_nid buffer of
        None \<Rightarrow> Inr n
      | Some d \<Rightarrow> res_bind (atoi d) (\<lambda>i. Inr (n\<lparr>node_id := i\<rparr>)))"

definition read_uris :: "string \<Rightarrow> node_info \<Rightarrow> node_info res" where
  "read_uris buffer n =
     res_bind (read_uri buffer) (\<lambda>(a1, p1, r1).
     res_bind (read_uri r1) (\<lambda>(a2, p2, r2).
     res_bind (read_uri r2) (\<lambda>(a3, p3, r3).
     Inr (n\<lparr>tcp_addr := a1, tcp_port := p1, roce_addr := a2, roce_port := p2, erpc_addr := a3, erpc_port := p3\<rparr>))))"

definition node_line :: "string \<Rightarrow> node_info \<Rightarrow> node_info res" where
  "node_line buffer n =
     res_bind (read_nid buffer n) (\<lambda>n1.
     if next_uri buffer = None then Inr n1
     else res_bind (read_uris buffer n1) (\<lambda>n2. Inr (n2\<lparr>socket := - 1\<rparr>)))"

fun node_lines :: "string list \<Rightarrow> node_info \<Rightarrow> node_info res" where
  "node_lines [] n = Inr n"
| "node_lines (l # ls) n = res_bind (node_line l n) (\<lambda>n'. node_lines ls n')"

definition node_initialize :: "string \<Rightarrow> node_info \<Rightarrow> (bool \<times> node_info) res" where
  "node_initialize config n =
     res_bind (node_lines (getlines config) (n\<lparr>node_id := - 1, tcp_port := - 1, roce_port := - 1, erpc_port := - 1\<rparr>)) (\<lambda>n'.
     Inr (node_id n' \<noteq> - 1 \<and> tcp_port n' \<noteq> - 1 \<and> roce_port n' \<noteq> - 1 \<and> erpc_port n' \<noteq> - 1, n'))"

text \<open>The configuration that lists the memory nodes, one on each line.  White space before an address
  belongs to the match there, which changes neither group.\<close>

definition memory_line :: "string \<Rightarrow> node_info res" where
  "memory_line buffer = res_bind (read_nid buffer zero_info) (\<lambda>n. read_uris buffer n)"

fun memory_lines :: "string list \<Rightarrow> node_info list \<Rightarrow> node_info list res" where
  "memory_lines [] ns = Inr ns"
| "memory_lines (l # ls) ns = res_bind (memory_line l) (\<lambda>n. memory_lines ls (ns @ [n]))"

text \<open>A file that cannot be opened is \<open>None\<close>.\<close>

definition parse_config_file :: "string option \<Rightarrow> node_info list \<Rightarrow> (bool \<times> node_info list) res" where
  "parse_config_file file ns =
     (case file of None \<Rightarrow> Inr (False, ns) | Some s \<Rightarrow> res_bind (memory_lines (getlines s) ns) (\<lambda>ns'. Inr (True, ns')))"

text \<open>The device, its port and the index of its \<open>gid\<close>, and the capacity of a memory node.\<close>

definition match_word :: "string \<Rightarrow> string \<Rightarrow> string option" where
  "match_word p s =
     Option.bind (literal p s) (\<lambda>r. if takeWhile is_space r = [] then None
       else (let w = takeWhile (\<lambda>c. \<not> is_space c) (dropWhile is_space r) in if w = [] then None else Some w))"

definition match_number :: "string \<Rightarrow> string \<Rightarrow> string option" where
  "match_number p s =
     Option.bind (literal p s) (\<lambda>r. if takeWhile is_space r = [] then None else map_option fst (digits (dropWhile is_space r)))"

text \<open>The missing entry that is reported first is \<open>None\<close>.\<close>

definition read_rdma_config :: "string \<Rightarrow> (string \<times> int \<times> int) option res" where
  "read_rdma_config content =
     (case regex_search (match_word ''rdma_device:'') content of None \<Rightarrow> Inr None | Some device \<Rightarrow>
     (case regex_search (match_number ''rdma_port:'') content of None \<Rightarrow> Inr None | Some vport \<Rightarrow>
      res_bind (atoi vport) (\<lambda>prt.
     (case regex_search (match_number ''gid_idx:'') content of None \<Rightarrow> Inr None | Some vgid \<Rightarrow>
      res_bind (atoi vgid) (\<lambda>gid. Inr (Some (device, prt, gid)))))))"

definition read_mem_cap :: "string \<Rightarrow> nat option res" where
  "read_mem_cap content =
     (case regex_search (\<lambda>s. Option.bind (literal ''mem_cap: '' s) (\<lambda>r. map_option fst (digits r))) content of
        None \<Rightarrow> Inr None
      | Some d \<Rightarrow> if decimal d < 2 ^ 63 then Inr (Some (decimal d)) else Inl InvalidArgument)"

subsection \<open>Numbers and their digits\<close>

lemma decimal_snoc: "decimal (d @ [c]) = 10 * decimal d + ((of_char c :: nat) - 48)"
  by (simp add: decimal_def)

lemma is_digit_char: "(n :: nat) < 10 \<Longrightarrow> is_digit (char_of (48 + n))"
  by (simp add: is_digit_def)

lemma dec_string_digits: "list_all is_digit (dec_string n)" "dec_string n \<noteq> []" "decimal (dec_string n) = n"
proof -
  have "list_all is_digit (dec_string n) \<and> decimal (dec_string n) = n"
  proof (induction n rule: dec_string.induct)
    case (1 n)
    then show ?case
      by (subst (1 2) dec_string.simps) (auto simp: is_digit_char decimal_snoc, simp add: decimal_def)
  qed
  then show "list_all is_digit (dec_string n)" "decimal (dec_string n) = n" by simp_all
  show "dec_string n \<noteq> []" by (subst dec_string.simps) simp
qed

lemma dec_string_length: "n < 10 ^ Suc k \<Longrightarrow> length (dec_string n) \<le> Suc k"
proof (induction k arbitrary: n)
  case 0
  then show ?case by (subst dec_string.simps) simp
next
  case (Suc k)
  then have "n div 10 < 10 ^ Suc k" by (simp add: div_less_iff_less_mult mult.commute)
  from Suc.IH [OF this] show ?case by (subst dec_string.simps) simp
qed

lemma atoi_dec_string: "n < 2 ^ 31 \<Longrightarrow> atoi (dec_string n) = Inr (int n)"
  by (simp add: atoi_def dec_string_digits)

subsection \<open>What the matchers do\<close>

lemma literal_append [simp]: "literal p (p @ r) = Some r"
  by (simp add: literal_def)

lemma literal_Cons [simp]: "literal [c] (x # r) = (if x = c then Some r else None)" "literal [c] [] = None"
  by (simp_all add: literal_def)

lemma find_literal: "p \<noteq> [] \<Longrightarrow> c \<noteq> hd p \<Longrightarrow> literal p (c # s) = None" "p \<noteq> [] \<Longrightarrow> literal p [] = None"
  by (cases p; simp add: literal_def)+

lemma digits_append:
  assumes "list_all is_digit d" "d \<noteq> []" "r = [] \<or> \<not> is_digit (hd r)"
  shows "digits (d @ r) = Some (d, r)"
proof -
  have "takeWhile is_digit (d @ r) = d @ takeWhile is_digit r" "dropWhile is_digit (d @ r) = dropWhile is_digit r"
    using assms(1) by (simp_all add: list_all_iff)
  moreover have "takeWhile is_digit r = []" "dropWhile is_digit r = r" using assms(3) by (cases r; simp)+
  ultimately show ?thesis using assms(2) by (simp add: digits_def)
qed

lemma digits_none: "\<not> is_digit c \<Longrightarrow> digits (c # s) = None"
  by (simp add: digits_def)

lemma not_digits [simp]: "\<not> is_digit CHR ''.''" "\<not> is_digit CHR '':''" "\<not> is_digit CHR '',''" "\<not> is_digit CHR '' ''"
  "\<not> is_digit CHR ''n''" "\<not> is_digit CHR ''o''" "\<not> is_digit CHR ''d''" "\<not> is_digit CHR ''e''" "\<not> is_digit (CHR 0x0A)"
  by (simp_all add: is_digit_def)

text \<open>An address as its four numbers in decimal.\<close>

lemma addr_to_string_cases:
  assumes "addr_to_string a = Inr t"
  obtains b0 b1 b2 b3 where "a = \<lparr>addr_content = [b0, b1, b2, b3]\<rparr>"
    "t = dec_string (unat b0) @ ''.'' @ dec_string (unat b1) @ ''.'' @ dec_string (unat b2) @ ''.'' @ dec_string (unat b3)"
  using assms by (cases a) (auto simp: addr_to_string_def split: list.splits)

lemma octet_dec:
  assumes "r = [] \<or> \<not> is_digit (hd r)"
  shows "octet (dec_string (unat (b :: byte_t)) @ r) = Some (dec_string (unat b), r)"
proof -
  have "unat b < 10 ^ Suc 2" using unsigned_less [of b, where ?'a = nat] by simp
  from dec_string_length [OF this] show ?thesis
    by (simp add: octet_def digits_append [OF dec_string_digits(1,2) assms])
qed

lemma match_octets_addr:
  assumes "r = [] \<or> \<not> is_digit (hd r)"
  shows "match_octets (dec_string (unat (b0 :: byte_t)) @ ''.'' @ dec_string (unat (b1 :: byte_t)) @ ''.'' @
      dec_string (unat (b2 :: byte_t)) @ ''.'' @ dec_string (unat (b3 :: byte_t)) @ r) =
    Some ([dec_string (unat b0), dec_string (unat b1), dec_string (unat b2), dec_string (unat b3)], r)"
  using assms by (simp add: match_octets_def octet_dec)

lemma make_ipv4_addr_text:
  assumes "addr_to_string a = Inr t"
  shows "make_ipv4_addr t = Some a"
proof -
  obtain b0 b1 b2 b3 where a: "a = \<lparr>addr_content = [b0, b1, b2, b3]\<rparr>"
    "t = dec_string (unat b0) @ ''.'' @ dec_string (unat b1) @ ''.'' @ dec_string (unat b2) @ ''.'' @ dec_string (unat b3)"
    by (rule addr_to_string_cases [OF assms])
  show ?thesis using match_octets_addr [of "[]" b0 b1 b2 b3] by (simp add: make_ipv4_addr_def a dec_string_digits)
qed

lemma regex_search_skip: "m (c # s) = None \<Longrightarrow> regex_search m (c # s) = regex_search m s"
  by simp

lemma match_uri_none: "\<not> is_digit c \<Longrightarrow> match_uri (c # s) = None"
  by (simp add: match_uri_def match_octets_def octet_def digits_none)

lemma next_uri_skip: "\<not> is_digit c \<Longrightarrow> next_uri (c # s) = next_uri s"
  by (simp add: next_uri_def match_uri_none)

lemma next_uri_digits: "list_all is_digit d \<Longrightarrow> next_uri (d @ CHR '':'' # s) = next_uri s"
proof (induction d)
  case Nil
  then show ?case by (simp add: next_uri_skip)
next
  case (Cons c d)
  have "digits ((c # d) @ CHR '':'' # s) = Some (c # d, CHR '':'' # s)"
    by (rule digits_append) (use Cons.prems in simp_all)
  then have "match_uri (c # d @ CHR '':'' # s) = None" by (simp add: match_uri_def match_octets_def octet_def)
  with Cons show ?case by (simp add: next_uri_def)
qed

lemma regex_search_hit: "m s = Some r \<Longrightarrow> regex_search m s = Some r"
  by (cases s) simp_all

lemma read_uri_text:
  assumes "addr_to_uri a p = Inr u" "p < 2 ^ 31" "r = [] \<or> \<not> is_digit (hd r)"
  shows "read_uri (u @ r) = Inr (a, int p, r)" "next_uri (u @ r) \<noteq> None"
proof -
  obtain t where t: "addr_to_string a = Inr t" "u = t @ '':'' @ dec_string p"
    using assms(1) by (auto simp: addr_to_uri_def res_bind_eq_Inr)
  obtain b0 b1 b2 b3 where a: "a = \<lparr>addr_content = [b0, b1, b2, b3]\<rparr>"
    "t = dec_string (unat b0) @ ''.'' @ dec_string (unat b1) @ ''.'' @ dec_string (unat b2) @ ''.'' @ dec_string (unat b3)"
    by (rule addr_to_string_cases [OF t(1)])
  have "match_octets (u @ r) = Some ([dec_string (unat b0), dec_string (unat b1), dec_string (unat b2), dec_string (unat b3)],
      CHR '':'' # dec_string p @ r)"
    using match_octets_addr [of "CHR '':'' # dec_string p @ r" b0 b1 b2 b3] by (simp add: t(2) a(2))
  then have "match_uri (u @ r) = Some (t, dec_string p, r)"
    by (simp add: match_uri_def digits_append [OF dec_string_digits(1,2) assms(3)] a(2))
  then have n: "next_uri (u @ r) = Some (t, dec_string p, r)" by (simp add: next_uri_def regex_search_hit)
  then show "read_uri (u @ r) = Inr (a, int p, r)" "next_uri (u @ r) \<noteq> None"
    using make_ipv4_addr_text [OF t(1)] atoi_dec_string [OF assms(2)] by (simp_all add: read_uri_def)
qed

lemma read_uri_next: "next_uri s = next_uri s' \<Longrightarrow> read_uri s = read_uri s'"
  by (simp add: read_uri_def)

subsection \<open>One line of a configuration\<close>

text \<open>The line of a node in the format of the comments: a label, its number or nothing, and the three
  addresses with their ports.\<close>

definition node_text :: "string \<Rightarrow> string \<Rightarrow> string \<Rightarrow> string \<Rightarrow> string" where
  "node_text label u1 u2 u3 = ''node'' @ label @ '': '' @ u1 @ '', '' @ u2 @ '', '' @ u3"

lemma next_uri_label: "list_all is_digit d \<Longrightarrow> next_uri (node_text d u1 u2 u3) = next_uri (u1 @ '', '' @ u2 @ '', '' @ u3)"
  by (simp add: node_text_def next_uri_skip next_uri_digits)

lemma read_uris_text:
  assumes "list_all is_digit d" "addr_to_uri a1 p1 = Inr u1" "addr_to_uri a2 p2 = Inr u2" "addr_to_uri a3 p3 = Inr u3"
    "p1 < 2 ^ 31" "p2 < 2 ^ 31" "p3 < 2 ^ 31"
  shows "read_uris (node_text d u1 u2 u3) n = Inr (n\<lparr>tcp_addr := a1, tcp_port := int p1, roce_addr := a2, roce_port := int p2,
      erpc_addr := a3, erpc_port := int p3\<rparr>)"
    and "next_uri (node_text d u1 u2 u3) \<noteq> None"
proof -
  have s: "read_uri ('', '' @ r) = read_uri r" for r by (rule read_uri_next) (simp add: next_uri_skip)
  have "read_uri (node_text d u1 u2 u3) = read_uri (u1 @ '', '' @ u2 @ '', '' @ u3)"
    by (rule read_uri_next [OF next_uri_label [OF assms(1)]])
  also have "\<dots> = Inr (a1, int p1, '', '' @ u2 @ '', '' @ u3)" by (rule read_uri_text(1) [OF assms(2,5)]) simp
  finally have 1: "read_uri (node_text d u1 u2 u3) = Inr (a1, int p1, '', '' @ u2 @ '', '' @ u3)" .
  have 2: "read_uri ('', '' @ u2 @ '', '' @ u3) = Inr (a2, int p2, '', '' @ u3)"
    unfolding s by (rule read_uri_text(1) [OF assms(3,6)]) simp
  have 3: "read_uri ('', '' @ u3) = Inr (a3, int p3, [])"
    using read_uri_text(1) [OF assms(4,7), of "[]"] unfolding s by simp
  show "read_uris (node_text d u1 u2 u3) n = Inr (n\<lparr>tcp_addr := a1, tcp_port := int p1, roce_addr := a2, roce_port := int p2,
      erpc_addr := a3, erpc_port := int p3\<rparr>)"
    by (simp only: read_uris_def 1 2 3 res_bind_Inr prod.case)
  show "next_uri (node_text d u1 u2 u3) \<noteq> None"
    using read_uri_text(2) [OF assms(2,5), of "'', '' @ u2 @ '', '' @ u3"] by (simp only: next_uri_label [OF assms(1)]) simp
qed

text \<open>The characters of an address with its port.\<close>

definition uri_char :: "char \<Rightarrow> bool" where
  "uri_char c \<longleftrightarrow> is_digit c \<or> c = CHR ''.'' \<or> c = CHR '':''"

lemma uri_chars:
  assumes "addr_to_uri a p = Inr u"
  shows "list_all uri_char u"
proof -
  have d: "list_all uri_char (dec_string n)" for n
    by (rule list.pred_mono_strong [OF dec_string_digits(1)]) (simp add: uri_char_def)
  have c: "uri_char CHR ''.''" "uri_char CHR '':''" by (simp_all add: uri_char_def)
  obtain t where t: "addr_to_string a = Inr t" "u = t @ '':'' @ dec_string p"
    using assms by (auto simp: addr_to_uri_def res_bind_eq_Inr)
  show ?thesis by (rule addr_to_string_cases [OF t(1)]) (simp add: t(2) d c)
qed

lemma uri_char_not: "list_all uri_char u \<Longrightarrow> CHR ''n'' \<notin> set u" "list_all uri_char u \<Longrightarrow> CHR 0x0A \<notin> set u"
  by (auto simp: list_all_iff uri_char_def is_digit_def)

lemma no_nid: "CHR ''n'' \<notin> set s \<Longrightarrow> regex_search match_nid s = None"
  by (induction s) (auto simp: match_nid_def literal_def)

lemma read_nid_text:
  assumes "list_all is_digit d" "list_all uri_char u1" "list_all uri_char u2" "list_all uri_char u3"
  shows "read_nid (node_text d u1 u2 u3) n = (if d = [] then Inr n else res_bind (atoi d) (\<lambda>i. Inr (n\<lparr>node_id := i\<rparr>)))"
proof (cases "d = []")
  case True
  have "CHR ''n'' \<notin> set ('': '' @ u1 @ '', '' @ u2 @ '', '' @ u3)" using uri_char_not(1) assms(2-4) by simp
  from no_nid [OF this] have "regex_search match_nid (node_text [] u1 u2 u3) = None"
    by (simp add: node_text_def match_nid_def literal_def digits_none del: regex_search.simps(1))
  with True show ?thesis by (simp add: read_nid_def)
next
  case False
  have "match_nid (node_text d u1 u2 u3) = Some d"
    using literal_append [of "''node''" "d @ '': '' @ u1 @ '', '' @ u2 @ '', '' @ u3"]
      digits_append [OF assms(1) False, of "'': '' @ u1 @ '', '' @ u2 @ '', '' @ u3"]
    by (simp add: match_nid_def node_text_def)
  from regex_search_hit [of match_nid, OF this] False show ?thesis by (simp add: read_nid_def)
qed

lemma getlines_one: "CHR 0x0A \<notin> set l \<Longrightarrow> getlines l = (if l = [] then [] else [l])"
  by (induction l) auto

lemma getlines_more: "CHR 0x0A \<notin> set l \<Longrightarrow> getlines (l @ CHR 0x0A # t) = l # getlines t"
  by (induction l) auto

text \<open>A line without a node and without an address changes nothing.\<close>

definition other_line :: "string \<Rightarrow> bool" where
  "other_line l \<longleftrightarrow> regex_search match_nid l = None \<and> next_uri l = None"

lemma other_lines: "list_all other_line ls \<Longrightarrow> node_lines ls n = Inr n"
  by (induction ls arbitrary: n) (simp_all add: other_line_def node_line_def read_nid_def)

text \<open>A node written down, its addresses as \<open>to_uri\<close> writes them.\<close>

definition info_ok :: "node_info \<Rightarrow> bool" where
  "info_ok i \<longleftrightarrow> list_all (\<lambda>x. 0 \<le> x \<and> x < 2 ^ 31) [node_id i, tcp_port i, roce_port i, erpc_port i]"

definition written :: "node_info \<Rightarrow> string \<Rightarrow> string res" where
  "written i label =
     res_bind (addr_to_uri (tcp_addr i) (nat (tcp_port i))) (\<lambda>u1.
     res_bind (addr_to_uri (roce_addr i) (nat (roce_port i))) (\<lambda>u2.
     res_bind (addr_to_uri (erpc_addr i) (nat (erpc_port i))) (\<lambda>u3. Inr (node_text label u1 u2 u3))))"

lemma written_read:
  assumes "info_ok i" "written i label = Inr l" "list_all is_digit label"
  shows "read_nid l n = (if label = [] then Inr n else res_bind (atoi label) (\<lambda>x. Inr (n\<lparr>node_id := x\<rparr>)))"
    and "read_uris l n = Inr (n\<lparr>tcp_addr := tcp_addr i, tcp_port := tcp_port i, roce_addr := roce_addr i, roce_port := roce_port i,
      erpc_addr := erpc_addr i, erpc_port := erpc_port i\<rparr>)"
    and "next_uri l \<noteq> None" "CHR 0x0A \<notin> set l" "l \<noteq> []"
proof -
  obtain u1 u2 u3 where u: "addr_to_uri (tcp_addr i) (nat (tcp_port i)) = Inr u1" "addr_to_uri (roce_addr i) (nat (roce_port i)) = Inr u2"
    "addr_to_uri (erpc_addr i) (nat (erpc_port i)) = Inr u3" and l: "l = node_text label u1 u2 u3"
    using assms(2) by (auto simp: written_def res_bind_eq_Inr)
  have p: "nat (tcp_port i) < 2 ^ 31" "nat (roce_port i) < 2 ^ 31" "nat (erpc_port i) < 2 ^ 31"
    "int (nat (tcp_port i)) = tcp_port i" "int (nat (roce_port i)) = roce_port i" "int (nat (erpc_port i)) = erpc_port i"
    using assms(1) by (auto simp: info_ok_def)
  note c = u [THEN uri_chars]
  show "read_nid l n = (if label = [] then Inr n else res_bind (atoi label) (\<lambda>x. Inr (n\<lparr>node_id := x\<rparr>)))"
    unfolding l by (rule read_nid_text [OF assms(3) c])
  show "read_uris l n = Inr (n\<lparr>tcp_addr := tcp_addr i, tcp_port := tcp_port i, roce_addr := roce_addr i, roce_port := roce_port i,
      erpc_addr := erpc_addr i, erpc_port := erpc_port i\<rparr>)" "next_uri l \<noteq> None"
    using read_uris_text(1) [OF assms(3) u p(1-3), of n] read_uris_text(2) [OF assms(3) u p(1-3)] unfolding l p(4-6) by simp_all
  have "list_all uri_char label" by (rule list.pred_mono_strong [OF assms(3)]) (simp add: uri_char_def)
  then show "CHR 0x0A \<notin> set l" using uri_char_not(2) c by (simp add: l node_text_def)
  show "l \<noteq> []" by (simp add: l node_text_def)
qed

text \<open>What may follow the line of the node: lines that name no node and no address.\<close>

definition other_text :: "string \<Rightarrow> bool" where
  "other_text r \<longleftrightarrow> r = [] \<or> hd r = CHR 0x0A \<and> list_all other_line (getlines (tl r))"

lemma node_lines_of:
  assumes "CHR 0x0A \<notin> set l" "l \<noteq> []" "other_text r"
  shows "node_lines (getlines (l @ r)) n = node_line l n"
proof (cases r)
  case Nil
  then show ?thesis using assms(1,2) by (cases "node_line l n") (simp_all add: getlines_one)
next
  case (Cons c t)
  with assms(3) have "c = CHR 0x0A" "list_all other_line (getlines t)" by (simp_all add: other_text_def)
  with Cons show ?thesis using assms(1) by (cases "node_line l n") (simp_all add: getlines_more other_lines)
qed

subsection \<open>Properties\<close>

lemma node_initialize_written:
  assumes "info_ok i" "written i (dec_string (nat (node_id i))) = Inr l" "other_text r"
  shows "node_initialize (l @ r) n = Inr (True, i\<lparr>socket := - 1\<rparr>)"
proof -
  note w = written_read [OF assms(1,2) dec_string_digits(1)]
  have p: "nat (node_id i) < 2 ^ 31" "int (nat (node_id i)) = node_id i" "node_id i \<noteq> - 1" "tcp_port i \<noteq> - 1" "roce_port i \<noteq> - 1" "erpc_port i \<noteq> - 1"
    using assms(1) by (auto simp: info_ok_def)
  show ?thesis
    using w(3) p unfolding node_initialize_def node_lines_of [OF w(4,5) assms(3)] node_line_def
    by (cases n; cases i) (simp add: w(1,2) dec_string_digits atoi_dec_string)
qed

text \<open>A label with no number behind \<open>node\<close>, as the comment in \<open>node/compute_node/compute_node.hpp\<close> has
  it, is refused.\<close>

theorem unnumbered_node_refused:
  assumes "info_ok i" "written i [] = Inr l" "other_text r"
  shows "\<exists>n'. node_initialize (l @ r) n = Inr (False, n') \<and> node_id n' = - 1"
proof -
  have d: "list_all is_digit []" by simp
  note w = written_read [OF assms(1,2) d]
  show ?thesis
    using w(3) unfolding node_initialize_def node_lines_of [OF w(4,5) assms(3)] node_line_def by (simp add: w(1,2))
qed

text \<open>C39: what is written down of a node in the form of the comments and the files in
  \<open>config_files\<close>, with its number behind \<open>node\<close> (\<open>node7: ...\<close>), is read back as it was, whatever was
  in memory before and whatever lines follow that name no node; with a label that has no number,
  as the comment on the configuration of a compute node shows it, the same line is refused.  An
  address alone is read back too.\<close>

theorem node_config_read_back:
  assumes "info_ok i" "written i (dec_string (nat (node_id i))) = Inr l" "written i [] = Inr l'" "other_text r"
  shows "node_initialize (l @ r) n = Inr (True, i\<lparr>socket := - 1\<rparr>) \<and>
    (\<exists>n'. node_initialize (l' @ r) n = Inr (False, n')) \<and>
    map_sum id make_ipv4_addr (addr_to_string (tcp_addr i)) = Inr (Some (tcp_addr i))"
proof -
  have "\<exists>n'. node_initialize (l' @ r) n = Inr (False, n')" using unnumbered_node_refused [OF assms(1,3,4)] by blast
  then show ?thesis
    using node_initialize_written [OF assms(1,2,4)] assms(2) make_ipv4_addr_text
    by (auto simp: written_def addr_to_uri_def res_bind_eq_Inr)
qed

definition some_node :: node_info where
  "some_node = \<lparr>node_id = 7, tcp_addr = \<lparr>addr_content = [127, 0, 0, 1]\<rparr>, tcp_port = 1234, roce_addr = \<lparr>addr_content = [10, 0, 0, 255]\<rparr>,
     roce_port = 4321, erpc_addr = \<lparr>addr_content = [127, 0, 0, 1]\<rparr>, erpc_port = 3124, socket = 0\<rparr>"

lemma some_node_text:
  "written some_node [] = Inr ''node: 127.0.0.1:1234, 10.0.0.255:4321, 127.0.0.1:3124''"
  "written some_node (dec_string (nat (node_id some_node))) = Inr ''node7: 127.0.0.1:1234, 10.0.0.255:4321, 127.0.0.1:3124''"
  "info_ok some_node"
  by (simp_all add: written_def some_node_def addr_to_uri_def addr_to_string_def node_text_def info_ok_def dec_string.simps char_of_def bit_0)

lemma node_config_read_back_witness:
  "node_initialize (''node7: 127.0.0.1:1234, 10.0.0.255:4321, 127.0.0.1:3124'' @ CHR 0x0A # ''mem_cap: 1024'') zero_info =
    Inr (True, some_node\<lparr>socket := - 1\<rparr>)"
proof -
  have "other_text (CHR 0x0A # ''mem_cap: 1024'')" by code_simp
  from node_config_read_back [OF some_node_text(3,2,1) this] show ?thesis by simp
qed

lemma unnumbered_node_refused_witness:
  "\<exists>n'. node_initialize ''node: 127.0.0.1:1234, 10.0.0.255:4321, 127.0.0.1:3124'' zero_info = Inr (False, n')"
  using unnumbered_node_refused [OF some_node_text(3,1), of "[]" zero_info] by (auto simp: other_text_def)

lemma getlines_concat:
  "list_all (\<lambda>l. CHR 0x0A \<notin> set l) ls \<Longrightarrow> getlines (concat (map (\<lambda>l. l @ [CHR 0x0A]) ls) @ t) = ls @ getlines t"
  by (induction ls) (simp_all add: getlines_more)

lemma memory_lines_append: "memory_lines (ls @ ls') ns = res_bind (memory_lines ls ns) (\<lambda>ns'. memory_lines ls' ns')"
  by (induction ls arbitrary: ns) (simp_all add: res_bind_assoc)

definition written_node :: "node_info \<Rightarrow> string \<Rightarrow> bool" where
  "written_node i l \<longleftrightarrow> info_ok i \<and> written i (dec_string (nat (node_id i))) = Inr l"

lemma memory_line_written:
  assumes "written_node i l"
  shows "memory_line l = Inr (i\<lparr>socket := 0\<rparr>)" "CHR 0x0A \<notin> set l"
proof -
  have i: "info_ok i" "written i (dec_string (nat (node_id i))) = Inr l" using assms by (simp_all add: written_node_def)
  note w = written_read [OF i dec_string_digits(1)]
  show "CHR 0x0A \<notin> set l" by (rule w(4))
  have "nat (node_id i) < 2 ^ 31" "int (nat (node_id i)) = node_id i" using i(1) by (auto simp: info_ok_def)
  then show "memory_line l = Inr (i\<lparr>socket := 0\<rparr>)"
    by (cases i) (simp add: memory_line_def w(1,2) dec_string_digits atoi_dec_string, simp add: zero_info_def Let_def)
qed

lemma memory_lines_written:
  "list_all2 written_node is ls \<Longrightarrow> memory_lines ls ns = Inr (ns @ map (\<lambda>i. i\<lparr>socket := 0\<rparr>) is)"
  by (induction "is" ls arbitrary: ns rule: list_all2_induct) (simp_all add: memory_line_written(1))

lemma parse_written:
  assumes "list_all2 written_node is ls"
  shows "parse_config_file (Some (concat (map (\<lambda>l. l @ [CHR 0x0A]) ls))) ns = Inr (True, ns @ map (\<lambda>i. i\<lparr>socket := 0\<rparr>) is)"
    and "parse_config_file (Some (concat (map (\<lambda>l. l @ [CHR 0x0A]) ls) @ [CHR 0x0A])) ns = Inl NullDeref"
proof -
  have "list_all (\<lambda>l. CHR 0x0A \<notin> set l) ls"
    using assms memory_line_written(2) by (auto simp: list_all2_conv_all_nth list_all_length)
  note g = getlines_concat [OF this]
  have "memory_line [] = Inl NullDeref"
    by (simp add: memory_line_def read_nid_def match_nid_def literal_def read_uris_def read_uri_def next_uri_def
        match_uri_def match_octets_def octet_def digits_def)
  then show "parse_config_file (Some (concat (map (\<lambda>l. l @ [CHR 0x0A]) ls) @ [CHR 0x0A])) ns = Inl NullDeref"
    using g [of "[CHR 0x0A]"] memory_lines_written [OF assms, of ns] by (simp add: parse_config_file_def memory_lines_append)
  show "parse_config_file (Some (concat (map (\<lambda>l. l @ [CHR 0x0A]) ls))) ns = Inr (True, ns @ map (\<lambda>i. i\<lparr>socket := 0\<rparr>) is)"
    using g [of "[]"] memory_lines_written [OF assms, of ns] by (simp add: parse_config_file_def)
qed

text \<open>A list of memory nodes, one on each line, is read back in order behind the nodes there were;
  an empty line behind them faults, as the search for an address there has no result.\<close>

theorem memory_config_read_back:
  assumes "list_all2 written_node is ls"
  shows "parse_config_file (Some (concat (map (\<lambda>l. l @ [CHR 0x0A]) ls))) ns = Inr (True, ns @ map (\<lambda>i. i\<lparr>socket := 0\<rparr>) is) \<and>
    parse_config_file (Some (concat (map (\<lambda>l. l @ [CHR 0x0A]) ls) @ [CHR 0x0A])) ns = Inl NullDeref"
  using parse_written [OF assms] by simp

lemma memory_config_read_back_witness:
  "parse_config_file (Some (''node7: 127.0.0.1:1234, 10.0.0.255:4321, 127.0.0.1:3124'' @ [CHR 0x0A])) [] = Inr (True, [some_node])"
proof -
  have "list_all2 written_node [some_node] [''node7: 127.0.0.1:1234, 10.0.0.255:4321, 127.0.0.1:3124'']"
    using some_node_text by (simp add: written_node_def)
  from memory_config_read_back [OF this, of "[]"] show ?thesis by (simp add: some_node_def)
qed

end
