(* ===== verification/SegmentService.thy ===== *)
theory SegmentService
  imports RemoteMemory SegmentAllocator
begin

text \<open>
  Where the memory nodes' allocators (\<open>SegmentAllocator\<close>) and the compute nodes' requests for
  segments (\<open>RemoteMemory\<close>) meet: the answers of the RPC library are those of the handlers of
  \<open>components/node/memory_node/memory_node.cpp\<close>, each node with an allocator of its own.
\<close>

subsection \<open>The memory nodes behind the RPC library\<close>

text \<open>The world is the allocator of each node, by the node's number; every request is answered.\<close>

definition serve :: "int \<Rightarrow> (int \<Rightarrow> mn_allocator) net \<Rightarrow> (remote_ptr \<times> (int \<Rightarrow> mn_allocator) net) option" where
  "serve i n = (case allocation_handler (nat i) (wire n i) of (p, a) \<Rightarrow> Some (p, n\<lparr>wire := (wire n)(i := a)\<rparr>))"

text \<open>Requests made one after another.\<close>

fun offer_each :: "nat \<Rightarrow> rmm \<times> (int \<Rightarrow> mn_allocator) net \<Rightarrow> (remote_ptr list \<times> rmm \<times> (int \<Rightarrow> mn_allocator) net) run" where
  "offer_each 0 mw = Some (Inr ([], mw))"
| "offer_each (Suc k) mw =
     run_bind (offer_remote_segment serve mw) (\<lambda>(p, mw1).
     run_bind (offer_each k mw1) (\<lambda>(ps, mw2). Some (Inr (p # ps, mw2))))"

text \<open>The memory nodes that are known have numbers that fit into a pointer and are connected, and
  their allocators are in order.\<close>

definition service_inv :: "rmm \<times> (int \<Rightarrow> mn_allocator) net \<Rightarrow> bool" where
  "service_inv mw \<longleftrightarrow> memory_nodes (fst mw) \<noteq> [] \<and>
     list_all (\<lambda>n. mn_node_id n \<in> {0..<64} \<and> select_first_info (rpc_infos (fst mw)) (mn_node_id n) \<noteq> None \<and>
       mna_inv (wire (snd mw) (mn_node_id n))) (memory_nodes (fst mw))"

text \<open>The slots handed out, and the pointer that stands for one.\<close>

definition taken :: "(int \<Rightarrow> mn_allocator) net \<Rightarrow> (int \<times> nat) set" where
  "taken n = {(i, no). no \<in> bm_used (mna_bitmap (wire n i))}"

definition seg_ptr :: "(int \<Rightarrow> mn_allocator) net \<Rightarrow> int \<times> nat \<Rightarrow> remote_ptr" where
  "seg_ptr n = (\<lambda>(i, no). make_remote_pointer_ptr (of_nat (nat i)) (seg_addr (wire n i) no))"

definition full :: "mn_allocator \<Rightarrow> bool" where
  "full a \<longleftrightarrow> bm_used (mna_bitmap a) = {..<bm_cap (mna_bitmap a)}"

subsection \<open>One request\<close>

lemma serve_full:
  assumes "mna_inv (wire n i)" "full (wire n i)"
  shows "\<exists>p. serve i n = Some (p, n) \<and> is_nullptr p"
proof -
  have inv: "bm_inv (mna_bitmap (wire n i))" using assms(1) by (simp add: mna_inv_def)
  obtain r bm where g: "get_empty (mna_bitmap (wire n i)) = (r, bm)" by (cases "get_empty (mna_bitmap (wire n i))")
  have r: "r = None"
  proof (cases r)
    case (Some s)
    from bitmap_slots.tk_some [OF inv g [unfolded Some]] assms(2) show ?thesis by (auto simp: full_def)
  qed simp
  have "bm = mna_bitmap (wire n i)" using bitmap_slots.tk_none [OF inv g [unfolded r]] by simp
  then have "mna_allocate (wire n i) = (0, wire n i)" using g r by (simp add: mna_allocate_eq)
  then show ?thesis
    by (simp add: serve_def allocation_handler_def make_remote_pointer_overloads_agree is_nullptr_make)
qed

lemma seg_addr_mask: "mna_inv a \<Longrightarrow> no < bm_cap (mna_bitmap a) \<Longrightarrow> seg_addr a no AND mask 48 = seg_addr a no"
  using unat_seg_addr(2) [of a no] by (intro and_mask_48_eq) (simp add: SEGMENT_SIZE_def)

lemma serve_some:
  assumes "mna_inv (wire n i)" "\<not> full (wire n i)"
  obtains no n' where "serve i n = Some (seg_ptr n (i, no), n')" "\<not> is_nullptr (seg_ptr n (i, no))"
    "no < bm_cap (mna_bitmap (wire n i))" "(i, no) \<notin> taken n" "taken n' = insert (i, no) (taken n)"
    "\<forall>j. mna_this (wire n' j) = mna_this (wire n j)" "\<forall>j. mna_inv (wire n j) \<longrightarrow> mna_inv (wire n' j)"
    "\<forall>j. bm_cap (mna_bitmap (wire n' j)) = bm_cap (mna_bitmap (wire n j))"
proof -
  obtain p a' where al: "mna_allocate (wire n i) = (p, a')" by (cases "mna_allocate (wire n i)")
  obtain no where no: "p = seg_addr (wire n i) no" "no < bm_cap (mna_bitmap (wire n i))" "no \<notin> bm_used (mna_bitmap (wire n i))"
    "bm_used (mna_bitmap a') = insert no (bm_used (mna_bitmap (wire n i)))"
    "bm_cap (mna_bitmap a') = bm_cap (mna_bitmap (wire n i))" "mna_this a' = mna_this (wire n i)" "mna_inv a'"
    by (rule mna_allocate_some [OF assms(1) al]) (use assms(2) in \<open>simp_all add: full_def\<close>)
  have "p \<noteq> 0" using unat_seg_addr(1) [OF assms(1) no(2)] no(1) by (auto simp: MEMORY_PAGE_SIZE_def)
  then have "\<not> is_nullptr (seg_ptr n (i, no))"
    using seg_addr_mask [OF assms(1) no(2)] no(1) by (simp add: seg_ptr_def make_remote_pointer_overloads_agree is_nullptr_make)
  moreover have "serve i n = Some (seg_ptr n (i, no), n\<lparr>wire := (wire n)(i := a')\<rparr>)"
    using al no(1) by (simp add: serve_def allocation_handler_def seg_ptr_def)
  moreover have "taken (n\<lparr>wire := (wire n)(i := a')\<rparr>) = insert (i, no) (taken n)"
    using no(4) by (auto simp: taken_def split: if_splits)
  ultimately show ?thesis using no by (intro that [of no "n\<lparr>wire := (wire n)(i := a')\<rparr>"]) (auto simp: taken_def)
qed

lemma offer_step:
  assumes "memory_nodes (fst mw) \<noteq> []"
  defines "i \<equiv> mn_node_id (memory_nodes (fst mw) ! (rm_current (fst mw) mod length (memory_nodes (fst mw))))"
  assumes "select_first_info (rpc_infos (fst mw)) i \<noteq> None"
  shows "offer_remote_segment serve mw =
    (case serve i (snd mw) of
       None \<Rightarrow> None
     | Some (p, n) \<Rightarrow>
         if is_nullptr p
         then run_bind (offer_remote_segment serve ((fst mw)\<lparr>rm_current := rm_current (fst mw) + 1\<rparr>, n)) (\<lambda>r'. Some (Inr (p, snd r')))
         else Some (Inr (p, (fst mw)\<lparr>rm_current := rm_current (fst mw) + 1\<rparr>, n)))"
  using assms by (subst offer_remote_segment.simps) (auto simp: non_null_def split: option.splits)



text \<open>What a request leaves as it is, and what it may add to.\<close>

definition grown :: "rmm \<times> (int \<Rightarrow> mn_allocator) net \<Rightarrow> rmm \<times> (int \<Rightarrow> mn_allocator) net \<Rightarrow> bool" where
  "grown mw mw' \<longleftrightarrow> memory_nodes (fst mw') = memory_nodes (fst mw) \<and> rpc_infos (fst mw') = rpc_infos (fst mw) \<and>
     taken (snd mw) \<subseteq> taken (snd mw') \<and>
     (\<forall>j. mna_this (wire (snd mw') j) = mna_this (wire (snd mw) j) \<and>
          bm_cap (mna_bitmap (wire (snd mw') j)) = bm_cap (mna_bitmap (wire (snd mw) j)) \<and>
          (mna_inv (wire (snd mw) j) \<longrightarrow> mna_inv (wire (snd mw') j)))"

lemma grown_refl: "grown mw mw"
  by (simp add: grown_def)

lemma grown_trans: "grown a b \<Longrightarrow> grown b c \<Longrightarrow> grown a c"
  by (auto simp: grown_def)

lemma grown_inv: "grown mw mw' \<Longrightarrow> service_inv mw \<Longrightarrow> service_inv mw'"
  by (auto simp: grown_def service_inv_def list_all_iff)

lemma grown_seg_ptr: "grown mw mw' \<Longrightarrow> seg_ptr (snd mw') = seg_ptr (snd mw)"
  by (auto simp: grown_def seg_ptr_def seg_addr_def fun_eq_iff)

lemma grown_current: "grown ((fst mw)\<lparr>rm_current := k\<rparr>, n) mw' \<longleftrightarrow> grown (fst mw, n) mw'"
  by (simp add: grown_def)

text \<open>Whether some node still has a slot.\<close>

definition some_free :: "rmm \<times> (int \<Rightarrow> mn_allocator) net \<Rightarrow> bool" where
  "some_free mw \<longleftrightarrow> list_ex (\<lambda>n. \<not> full (wire (snd mw) (mn_node_id n))) (memory_nodes (fst mw))"

definition slot_of :: "rmm \<times> (int \<Rightarrow> mn_allocator) net \<Rightarrow> int \<times> nat \<Rightarrow> bool" where
  "slot_of mw x \<longleftrightarrow> fst x \<in> mn_node_id ` set (memory_nodes (fst mw)) \<and> snd x < bm_cap (mna_bitmap (wire (snd mw) (fst x)))"

definition offered :: "rmm \<times> (int \<Rightarrow> mn_allocator) net \<Rightarrow> (remote_ptr \<times> rmm \<times> (int \<Rightarrow> mn_allocator) net) res \<Rightarrow> bool" where
  "offered mw r \<longleftrightarrow> some_free mw \<and>
     (case r of Inl e \<Rightarrow> False
      | Inr (p, mw') \<Rightarrow> grown mw mw' \<and>
          (\<not> is_nullptr p \<longrightarrow> (\<exists>x. slot_of mw x \<and> x \<notin> taken (snd mw) \<and> taken (snd mw') = insert x (taken (snd mw)) \<and> p = seg_ptr (snd mw) x)))"

lemma current_node:
  assumes "service_inv mw"
  defines "n \<equiv> memory_nodes (fst mw) ! (rm_current (fst mw) mod length (memory_nodes (fst mw)))"
  shows "memory_nodes (fst mw) \<noteq> []" "n \<in> set (memory_nodes (fst mw))" "mn_node_id n \<in> {0..<64}"
    "select_first_info (rpc_infos (fst mw)) (mn_node_id n) \<noteq> None" "mna_inv (wire (snd mw) (mn_node_id n))"
proof -
  show ne: "memory_nodes (fst mw) \<noteq> []" using assms(1) by (simp add: service_inv_def)
  then show m: "n \<in> set (memory_nodes (fst mw))" by (simp add: n_def)
  show "mn_node_id n \<in> {0..<64}" "select_first_info (rpc_infos (fst mw)) (mn_node_id n) \<noteq> None"
    "mna_inv (wire (snd mw) (mn_node_id n))"
    using assms(1) m unfolding service_inv_def list_all_iff by blast+
qed

lemma offered_fresh:
  assumes "service_inv mw"
  defines "i \<equiv> mn_node_id (memory_nodes (fst mw) ! (rm_current (fst mw) mod length (memory_nodes (fst mw))))"
  assumes "\<not> full (wire (snd mw) i)"
  obtains p n where "serve i (snd mw) = Some (p, n)" "\<not> is_nullptr p"
    "offered mw (Inr (p, (fst mw)\<lparr>rm_current := k\<rparr>, n))"
proof -
  note c = current_node [OF assms(1), folded i_def]
  have fr: "some_free mw" using c(2) assms(3) by (auto simp: some_free_def list_ex_iff i_def)
  obtain no n where n: "serve i (snd mw) = Some (seg_ptr (snd mw) (i, no), n)" "\<not> is_nullptr (seg_ptr (snd mw) (i, no))"
    "no < bm_cap (mna_bitmap (wire (snd mw) i))" "(i, no) \<notin> taken (snd mw)" "taken n = insert (i, no) (taken (snd mw))"
    "\<forall>j. mna_this (wire n j) = mna_this (wire (snd mw) j)" "\<forall>j. mna_inv (wire (snd mw) j) \<longrightarrow> mna_inv (wire n j)"
    "\<forall>j. bm_cap (mna_bitmap (wire n j)) = bm_cap (mna_bitmap (wire (snd mw) j))"
    by (rule serve_some [OF c(5) assms(3)])
  moreover have "slot_of mw (i, no)" using c(2) n(3) by (auto simp: slot_of_def i_def)
  ultimately show ?thesis using fr
    by (intro that [OF n(1,2)]) (auto simp: offered_def grown_def intro!: exI [of _ i] exI [of _ no])
qed

lemma offered_nested:
  assumes "offered ((fst mw)\<lparr>rm_current := k\<rparr>, snd mw) (Inr (q, mw'))" "is_nullptr p"
  shows "offered mw (Inr (p, mw'))"
  using assms by (simp add: offered_def grown_current some_free_def)

lemma service_current [simp]: "service_inv ((fst mw)\<lparr>rm_current := k\<rparr>, snd mw) = service_inv mw"
  by (simp add: service_inv_def)

lemma offer_offered:
  assumes "offer_remote_segment serve mw = Some r" "service_inv mw"
  shows "offered mw r"
proof -
  have "rpc = serve \<longrightarrow> service_inv mw \<longrightarrow> offered mw r" if "offer_remote_segment rpc mw = Some r" for rpc mw r
  proof (rule offer_remote_segment.raw_induct [of "\<lambda>rpc mw r. rpc = serve \<longrightarrow> service_inv mw \<longrightarrow> offered mw r", OF _ that], intro impI)
    fix f rpc mw r
    assume ih: "\<And>rpc mw r. f rpc mw = Some r \<Longrightarrow> rpc = serve \<longrightarrow> service_inv mw \<longrightarrow> offered mw r"
      and r: "(if memory_nodes (fst mw) = [] then Some (Inl InvalidArgument)
        else run_bind (Some (rd (memory_nodes (fst mw)) (rm_current (fst mw) mod length (memory_nodes (fst mw))))) (\<lambda>n.
          run_bind (Some (non_null (select_first_info (rpc_infos (fst mw)) (mn_node_id n)))) (\<lambda>info.
          run_bind (case rpc (mn_node_id n) (snd mw) of None \<Rightarrow> None | Some r \<Rightarrow> Some (Inr r)) (\<lambda>r.
          if is_nullptr (fst r)
          then run_bind (f rpc ((fst mw)\<lparr>rm_current := rm_current (fst mw) + 1\<rparr>, snd r)) (\<lambda>r'. Some (Inr (fst r, snd r')))
          else Some (Inr (fst r, (fst mw)\<lparr>rm_current := rm_current (fst mw) + 1\<rparr>, snd r)))))) = Some r"
      and s: "rpc = serve" and inv: "service_inv mw"
    let ?i = "mn_node_id (memory_nodes (fst mw) ! (rm_current (fst mw) mod length (memory_nodes (fst mw))))"
    note c = current_node [OF inv]
    have rd: "rd (memory_nodes (fst mw)) (rm_current (fst mw) mod length (memory_nodes (fst mw))) =
        Inr (memory_nodes (fst mw) ! (rm_current (fst mw) mod length (memory_nodes (fst mw))))" using c(1) by simp
    obtain info where info: "select_first_info (rpc_infos (fst mw)) ?i = Some info" using c(4) by blast
    show "offered mw r"
    proof (cases "full (wire (snd mw) ?i)")
      case True
      obtain p where p: "serve ?i (snd mw) = Some (p, snd mw)" "is_nullptr p" using serve_full [OF c(5) True] by blast
      with r c(1) rd info s obtain r1 where
        r1: "f serve ((fst mw)\<lparr>rm_current := rm_current (fst mw) + 1\<rparr>, snd mw) = Some r1"
          "run_bind (Some r1) (\<lambda>r'. Some (Inr (p, snd r'))) = Some r"
        by (cases "f serve ((fst mw)\<lparr>rm_current := rm_current (fst mw) + 1\<rparr>, snd mw)") (auto simp: non_null_def)
      have o: "offered ((fst mw)\<lparr>rm_current := rm_current (fst mw) + 1\<rparr>, snd mw) r1" using ih [OF r1(1)] inv by simp
      then obtain q mw1 where "r1 = Inr (q, mw1)" by (cases r1) (auto simp: offered_def)
      with o r1(2) offered_nested [where mw = mw and q = q and mw' = mw1 and p = p] p(2) show ?thesis by auto
    next
      case False
      obtain p n where p: "serve ?i (snd mw) = Some (p, n)" "\<not> is_nullptr p"
        "offered mw (Inr (p, (fst mw)\<lparr>rm_current := rm_current (fst mw) + 1\<rparr>, n))"
        by (rule offered_fresh [OF inv False])
      with r c(1) rd info s show ?thesis by (auto simp: non_null_def)
    qed
  qed
  with assms show ?thesis by blast
qed

text \<open>From a node with a slot in a number of steps, the request is answered.\<close>

lemma offer_reaches:
  "service_inv mw \<Longrightarrow>
   \<not> full (wire (snd mw) (mn_node_id (memory_nodes (fst mw) ! ((rm_current (fst mw) + d) mod length (memory_nodes (fst mw)))))) \<Longrightarrow>
   \<exists>r. offer_remote_segment serve mw = Some r"
proof (induction d arbitrary: mw)
  case 0
  note c = current_node [OF 0(1)]
  have "\<not> full (wire (snd mw) (mn_node_id (memory_nodes (fst mw) ! (rm_current (fst mw) mod length (memory_nodes (fst mw))))))"
    using 0(2) by simp
  then obtain p n where "serve (mn_node_id (memory_nodes (fst mw) ! (rm_current (fst mw) mod length (memory_nodes (fst mw))))) (snd mw) = Some (p, n)"
    "\<not> is_nullptr p" by (rule offered_fresh [OF 0(1)])
  then show ?case by (simp add: offer_step [OF c(1,4)])
next
  case (Suc d)
  note c = current_node [OF Suc.prems(1)]
  let ?i = "mn_node_id (memory_nodes (fst mw) ! (rm_current (fst mw) mod length (memory_nodes (fst mw))))"
  show ?case
  proof (cases "full (wire (snd mw) ?i)")
    case True
    obtain p where p: "serve ?i (snd mw) = Some (p, snd mw)" "is_nullptr p" using serve_full [OF c(5) True] by blast
    let ?mw = "((fst mw)\<lparr>rm_current := rm_current (fst mw) + 1\<rparr>, snd mw)"
    obtain r where r: "offer_remote_segment serve ?mw = Some r" using Suc.IH [of ?mw] Suc.prems by auto
    with p show ?thesis by (cases r) (simp_all add: offer_step [OF c(1,4)])
  next
    case False
    obtain p n where "serve ?i (snd mw) = Some (p, n)" "\<not> is_nullptr p" by (rule offered_fresh [OF Suc.prems(1) False])
    then show ?thesis by (simp add: offer_step [OF c(1,4)])
  qed
qed

lemma slots_apart:
  assumes "service_inv mw" "slot_of mw x" "slot_of mw y" "x \<noteq> y"
  shows "get_node (seg_ptr (snd mw) x) \<noteq> get_node (seg_ptr (snd mw) y) \<or>
    unat (get_as (seg_ptr (snd mw) x)) + SEGMENT_SIZE \<le> unat (get_as (seg_ptr (snd mw) y)) \<or>
    unat (get_as (seg_ptr (snd mw) y)) + SEGMENT_SIZE \<le> unat (get_as (seg_ptr (snd mw) x))"
proof -
  have node: "get_node (seg_ptr (snd mw) (i, no)) = nat i" if "slot_of mw (i, no)" for i no
  proof -
    have "nat i < 64" using that assms(1) by (auto simp: slot_of_def service_inv_def list_all_iff)
    then show ?thesis by (simp add: seg_ptr_def make_remote_pointer_overloads_agree unat_of_nat)
  qed
  have addr: "unat (get_as (seg_ptr (snd mw) (i, no))) = unat (mna_this (wire (snd mw) i)) + MEMORY_PAGE_SIZE + no * SEGMENT_SIZE"
    if "slot_of mw (i, no)" for i no
  proof -
    have "mna_inv (wire (snd mw) i)" "no < bm_cap (mna_bitmap (wire (snd mw) i))"
      using that assms(1) by (auto simp: slot_of_def service_inv_def list_all_iff)
    from unat_seg_addr(1) [OF this] seg_addr_mask [OF this] show ?thesis
      by (simp add: seg_ptr_def make_remote_pointer_overloads_agree get_as_make_mask)
  qed
  obtain i no j no' where xy: "x = (i, no)" "y = (j, no')" by (cases x, cases y)
  show ?thesis
  proof (cases "i = j")
    case True
    then have "Suc no \<le> no' \<or> Suc no' \<le> no" using assms(4) xy by auto
    then have "Suc no * SEGMENT_SIZE \<le> no' * SEGMENT_SIZE \<or> Suc no' * SEGMENT_SIZE \<le> no * SEGMENT_SIZE"
      using mult_le_mono1 by blast
    then show ?thesis using addr assms(2,3) True unfolding xy by auto
  next
    case False
    have "0 \<le> i" "0 \<le> j" using assms(1-3) xy by (auto simp: slot_of_def service_inv_def list_all_iff)
    with False show ?thesis using node assms(2,3) unfolding xy by auto
  qed
qed

lemma offer_each_slots:
  "service_inv mw \<Longrightarrow> offer_each k mw = Some (Inr (ps, mw')) \<Longrightarrow> list_all (\<lambda>p. \<not> is_nullptr p) ps \<Longrightarrow>
   length ps = k \<and> (\<exists>xs. ps = map (seg_ptr (snd mw)) xs \<and> list_all (slot_of mw) xs \<and> distinct xs \<and> set xs \<inter> taken (snd mw) = {})"
proof (induction k arbitrary: mw ps)
  case 0
  then show ?case by simp
next
  case (Suc k)
  obtain p mw1 qs where o: "offer_remote_segment serve mw = Some (Inr (p, mw1))" "offer_each k mw1 = Some (Inr (qs, mw'))" "ps = p # qs"
    using Suc.prems(2) by (auto simp: run_bind_def split: option.splits sum.splits)
  have g: "grown mw mw1" "\<exists>x. slot_of mw x \<and> x \<notin> taken (snd mw) \<and> taken (snd mw1) = insert x (taken (snd mw)) \<and> p = seg_ptr (snd mw) x"
    using offer_offered [OF o(1) Suc.prems(1)] Suc.prems(3) o(3) by (auto simp: offered_def)
  then obtain x where x: "slot_of mw x" "x \<notin> taken (snd mw)" "taken (snd mw1) = insert x (taken (snd mw))" "p = seg_ptr (snd mw) x" by blast
  obtain xs where xs: "length qs = k" "qs = map (seg_ptr (snd mw1)) xs" "list_all (slot_of mw1) xs" "distinct xs" "set xs \<inter> taken (snd mw1) = {}"
    using Suc.IH [OF grown_inv [OF g(1) Suc.prems(1)] o(2)] Suc.prems(3) o(3) by auto
  have "slot_of mw1 = slot_of mw" using g(1) by (auto simp: slot_of_def grown_def fun_eq_iff)
  with x xs o(3) grown_seg_ptr [OF g(1)] show ?case by (intro conjI exI [of _ "x # xs"]) auto
qed

subsection \<open>Properties\<close>

text \<open>C17: segments that memory nodes hand out to requests made one after another never overlap: two of
  them lie on different nodes or a whole segment apart, as long as none of the answers is null.\<close>

theorem offered_segments_apart:
  assumes "service_inv mw" "offer_each k mw = Some (Inr (ps, mw'))" "list_all (\<lambda>p. \<not> is_nullptr p) ps" "i < j" "j < k"
  shows "get_node (ps ! i) \<noteq> get_node (ps ! j) \<or>
    unat (get_as (ps ! i)) + SEGMENT_SIZE \<le> unat (get_as (ps ! j)) \<or>
    unat (get_as (ps ! j)) + SEGMENT_SIZE \<le> unat (get_as (ps ! i))"
proof -
  obtain xs where xs: "length ps = k" "ps = map (seg_ptr (snd mw)) xs" "list_all (slot_of mw) xs" "distinct xs"
    using offer_each_slots [OF assms(1-3)] by blast
  then have "xs ! i \<noteq> xs ! j" "slot_of mw (xs ! i)" "slot_of mw (xs ! j)"
    using assms(4,5) by (auto simp: nth_eq_iff_index_eq list_all_length)
  from slots_apart [OF assms(1) this(2,3,1)] xs(1,2) assms(4,5) show ?thesis by auto
qed

text \<open>C16: a request for a segment returns exactly when some memory node has a slot left; with all of
  them full it asks one after the other for ever.\<close>

theorem request_returns_iff_some_free:
  assumes "service_inv mw"
  shows "(\<exists>r. offer_remote_segment serve mw = Some r) \<longleftrightarrow> some_free mw"
proof
  assume "\<exists>r. offer_remote_segment serve mw = Some r"
  then show "some_free mw" using offer_offered [OF _ assms] by (auto simp: offered_def)
next
  assume "some_free mw"
  then obtain k where k: "k < length (memory_nodes (fst mw))" "\<not> full (wire (snd mw) (mn_node_id (memory_nodes (fst mw) ! k)))"
    by (auto simp: some_free_def list_ex_iff in_set_conv_nth)
  let ?l = "length (memory_nodes (fst mw))" and ?c = "rm_current (fst mw)"
  have "\<exists>d. (?c + d) mod ?l = k"
  proof (intro exI)
    have "?c mod ?l < ?l" using k(1) by (intro mod_less_divisor) linarith
    then have "(?c mod ?l + (?l - ?c mod ?l + k)) mod ?l = k" using k(1) by simp
    then show "(?c + (?l - ?c mod ?l + k)) mod ?l = k" by (simp add: mod_add_left_eq)
  qed
  then obtain d where "(?c + d) mod ?l = k" by blast
  with k(2) show "\<exists>r. offer_remote_segment serve mw = Some r" by (intro offer_reaches [OF assms, of d]) simp
qed

text \<open>The node that a request asks after \<open>d\<close> others.\<close>

definition asked :: "rmm \<times> (int \<Rightarrow> mn_allocator) net \<Rightarrow> nat \<Rightarrow> int" where
  "asked mw d = mn_node_id (memory_nodes (fst mw) ! ((rm_current (fst mw) + d) mod length (memory_nodes (fst mw))))"

text \<open>C18: when the node asked first is full and the next one is not, the segment the next one hands out
  is lost: it stays taken, and the caller gets a null pointer.\<close>

theorem nested_request_leaks:
  assumes "service_inv mw" "full (wire (snd mw) (asked mw 0))" "\<not> full (wire (snd mw) (asked mw 1))"
  shows "\<exists>p m n no. offer_remote_segment serve mw = Some (Inr (p, m, n)) \<and> is_nullptr p \<and>
    (asked mw 1, no) \<notin> taken (snd mw) \<and> taken n = insert (asked mw 1, no) (taken (snd mw))"
proof -
  let ?mw = "((fst mw)\<lparr>rm_current := rm_current (fst mw) + 1\<rparr>, snd mw)"
  have a: "mn_node_id (memory_nodes (fst mw) ! (rm_current (fst mw) mod length (memory_nodes (fst mw)))) = asked mw 0"
    "mn_node_id (memory_nodes (fst ?mw) ! (rm_current (fst ?mw) mod length (memory_nodes (fst ?mw)))) = asked mw 1"
    by (simp_all add: asked_def)
  have inv: "service_inv ?mw" using assms(1) by simp
  note c = current_node [OF assms(1), unfolded a] and c' = current_node [OF inv, unfolded a]
  obtain p where p: "serve (asked mw 0) (snd mw) = Some (p, snd mw)" "is_nullptr p"
    using serve_full [OF c(5) assms(2)] by blast
  obtain no n where n: "serve (asked mw 1) (snd mw) = Some (seg_ptr (snd mw) (asked mw 1, no), n)"
    "\<not> is_nullptr (seg_ptr (snd mw) (asked mw 1, no))" "(asked mw 1, no) \<notin> taken (snd mw)"
    "taken n = insert (asked mw 1, no) (taken (snd mw))"
    by (rule serve_some [OF c'(5)]) (use assms(3) in simp_all)
  have "offer_remote_segment serve ?mw = Some (Inr (seg_ptr (snd mw) (asked mw 1, no), (fst ?mw)\<lparr>rm_current := rm_current (fst ?mw) + 1\<rparr>, n))"
    using n(1,2) offer_step [of ?mw, unfolded a, OF c'(1,4)] by simp
  then have "offer_remote_segment serve mw = Some (Inr (p, (fst ?mw)\<lparr>rm_current := rm_current (fst ?mw) + 1\<rparr>, n))"
    using p offer_step [of mw, unfolded a, OF c(1,4)] by simp
  with p(2) n(3,4) show ?thesis by blast
qed

subsection \<open>Two nodes, for the witnesses\<close>

definition two_nodes :: "mn_allocator \<Rightarrow> rmm \<times> (int \<Rightarrow> mn_allocator) net" where
  "two_nodes a = (\<lparr>rm_current = 0, memory_nodes = [\<lparr>mn_node_id = 0, mn_base = 0\<rparr>, \<lparr>mn_node_id = 1, mn_base = 0\<rparr>],
     rdma_ctxs = Map.empty, parallel_rdma_ctxs = Map.empty,
     rpc_infos = [\<lparr>self_id = 0, info_node_id = 0, remote_id = 0, session = 0\<rparr>, \<lparr>self_id = 1, info_node_id = 1, remote_id = 0, session = 1\<rparr>]\<rparr>,
     \<lparr>lbuf = [], wire = (\<lambda>i. node3)(0 := a)\<rparr>)"

lemma two_nodes_inv: "mna_inv a \<Longrightarrow> service_inv (two_nodes a)"
  by (simp add: service_inv_def two_nodes_def node3_inv)

lemma node3_not_full: "\<not> full node3"
  using node3_empty by (simp add: full_def)

definition full3 :: mn_allocator where
  "full3 = snd (mna_allocate_n 8 node3)"

lemma full3_facts: "mna_inv full3" "full full3"
proof -
  obtain a where "mna_allocate_n 8 node3 = (map (seg_addr node3) [0..<0 + 8], a)" "mna_inv a" "bm_used (mna_bitmap a) = {..<8}"
    "bm_cap (mna_bitmap a) = 8"
    using mna_allocate_n_from [OF node3_inv, of 0 8] by (auto simp: node3_def make_allocator_simps)
  then show "mna_inv full3" "full full3" by (simp_all add: full3_def full_def)
qed

lemma nested_request_leaks_witness:
  "\<exists>p m n. offer_remote_segment serve (two_nodes full3) = Some (Inr (p, m, n)) \<and> is_nullptr p \<and> taken n \<noteq> taken (snd (two_nodes full3))"
proof -
  have "asked (two_nodes full3) 0 = 0" "asked (two_nodes full3) 1 = 1" by (simp_all add: asked_def two_nodes_def)
  moreover have "wire (snd (two_nodes full3)) 0 = full3" "wire (snd (two_nodes full3)) 1 = node3" by (simp_all add: two_nodes_def)
  ultimately show ?thesis
    using nested_request_leaks [OF two_nodes_inv [OF full3_facts(1)]] full3_facts(2) node3_not_full by auto
qed

lemma request_returns_iff_some_free_witness:
  "\<exists>r. offer_remote_segment serve (two_nodes full3) = Some r"
  using request_returns_iff_some_free [OF two_nodes_inv [OF full3_facts(1)]] node3_not_full
  by (simp add: some_free_def two_nodes_def)

lemma fresh_offer:
  assumes "service_inv mw" "\<not> full (wire (snd mw) (asked mw 0))"
  obtains no n where "offer_remote_segment serve mw =
      Some (Inr (seg_ptr (snd mw) (asked mw 0, no), (fst mw)\<lparr>rm_current := rm_current (fst mw) + 1\<rparr>, n))"
    "\<not> is_nullptr (seg_ptr (snd mw) (asked mw 0, no))" "slot_of mw (asked mw 0, no)"
    "service_inv ((fst mw)\<lparr>rm_current := rm_current (fst mw) + 1\<rparr>, n)" "\<forall>j. j \<noteq> asked mw 0 \<longrightarrow> wire n j = wire (snd mw) j"
proof -
  have a: "mn_node_id (memory_nodes (fst mw) ! (rm_current (fst mw) mod length (memory_nodes (fst mw)))) = asked mw 0"
    by (simp add: asked_def)
  note c = current_node [OF assms(1), unfolded a]
  obtain no n where n: "serve (asked mw 0) (snd mw) = Some (seg_ptr (snd mw) (asked mw 0, no), n)"
    "\<not> is_nullptr (seg_ptr (snd mw) (asked mw 0, no))" "no < bm_cap (mna_bitmap (wire (snd mw) (asked mw 0)))"
    by (rule serve_some [OF c(5) assms(2)])
  then have o: "offer_remote_segment serve mw =
      Some (Inr (seg_ptr (snd mw) (asked mw 0, no), (fst mw)\<lparr>rm_current := rm_current (fst mw) + 1\<rparr>, n))"
    using offer_step [of mw, unfolded a, OF c(1,4)] by simp
  from offer_offered [OF this assms(1)] have "grown mw ((fst mw)\<lparr>rm_current := rm_current (fst mw) + 1\<rparr>, n)"
    by (simp add: offered_def)
  moreover have "slot_of mw (asked mw 0, no)" using c(2) n(3) by (auto simp: slot_of_def asked_def)
  ultimately show ?thesis using grown_inv [OF _ assms(1)] o n
    by (intro that) (auto simp: serve_def split: prod.splits)
qed

lemma offered_segments_apart_witness:
  "\<exists>p q mw'. offer_each 2 (two_nodes node3) = Some (Inr ([p, q], mw')) \<and>
    (get_node p \<noteq> get_node q \<or> unat (get_as p) + SEGMENT_SIZE \<le> unat (get_as q) \<or> unat (get_as q) + SEGMENT_SIZE \<le> unat (get_as p))"
proof -
  let ?mw = "two_nodes node3"
  have i: "service_inv ?mw" by (rule two_nodes_inv [OF node3_inv])
  have a: "asked ?mw 0 = 0" and w: "wire (snd ?mw) j = node3" for j by (simp_all add: asked_def two_nodes_def)
  obtain p n where p: "offer_remote_segment serve ?mw = Some (Inr (p, (fst ?mw)\<lparr>rm_current := rm_current (fst ?mw) + 1\<rparr>, n))"
    "\<not> is_nullptr p" "service_inv ((fst ?mw)\<lparr>rm_current := rm_current (fst ?mw) + 1\<rparr>, n)"
    "\<forall>j. j \<noteq> asked ?mw 0 \<longrightarrow> wire n j = wire (snd ?mw) j"
    using fresh_offer [OF i] node3_not_full w by metis
  let ?m1 = "((fst ?mw)\<lparr>rm_current := rm_current (fst ?mw) + 1\<rparr>, n)"
  have "asked ?m1 0 = 1" by (simp add: asked_def two_nodes_def)
  then have "\<not> full (wire (snd ?m1) (asked ?m1 0))" using p(4) a w node3_not_full by simp
  then obtain q n' where q: "offer_remote_segment serve ?m1 = Some (Inr (q, (fst ?m1)\<lparr>rm_current := rm_current (fst ?m1) + 1\<rparr>, n'))"
    "\<not> is_nullptr q" using fresh_offer [OF p(3)] by metis
  have e: "offer_each 2 ?mw = Some (Inr ([p, q], (fst ?m1)\<lparr>rm_current := rm_current (fst ?m1) + 1\<rparr>, n'))"
    by (simp only: numeral_2_eq_2 offer_each.simps p(1) q(1) run_bind_simps prod.case)
  have "list_all (\<lambda>p. \<not> is_nullptr p) [p, q]" using p(2) q(2) by simp
  from offered_segments_apart [OF i e this, of 0 1] e show ?thesis by auto
qed

end
