(* ===== verification/Startup.thy ===== *)
theory Startup
  imports LocalStage Cluster SegmentService ChunkSource
begin

text \<open>
  How the two kinds of node start: \<open>MemoryNode::initialize\<close> of
  \<open>components/node/memory_node/memory_node.hpp\<close> and \<open>.cpp\<close>, \<open>ComputeNode::initialize\<close> and
  \<open>register_thread\<close> of \<open>components/node/compute_node/\<close>.  They compose the configuration
  (\<open>Cluster\<close>), the device (\<open>Rdma\<close>), the memory nodes (\<open>RemoteMemory\<close>) and the allocators.  Whether
  eRPC's \<open>Nexus\<close> can be made at an address is a parameter, \<open>nexus\<close>; so is the address at which a
  memory node's region lies.
\<close>

subsection \<open>Memory nodes\<close>

record memory_server =
  ms_info :: node_info
  ms_cap :: u64
  ms_base :: remote_ptr
  ms_allocator :: "mn_allocator option"
  ms_device :: "rdma_device option"

text \<open>A missing capacity is \<open>None\<close>; the capacity left behind the first page is a \<open>size_t\<close>.\<close>

definition initialize_memory :: "string \<Rightarrow> u64 \<Rightarrow> memory_server \<Rightarrow> (bool \<times> memory_server) res" where
  "initialize_memory cfg region s =
     res_bind (read_mem_cap cfg) (\<lambda>c.
     case c of
       None \<Rightarrow> Inr (False, s)
     | Some capacity \<Rightarrow>
         Inr (True, s\<lparr>ms_cap := of_nat capacity - of_nat MEMORY_PAGE_SIZE,
           ms_base := make_remote_pointer_ptr (of_int (node_id (ms_info s))) (region + of_nat MEMORY_PAGE_SIZE),
           ms_allocator := Some (make_allocator region capacity)\<rparr>))"

definition server_rdma :: "'w verbs \<Rightarrow> 'w net \<Rightarrow> string \<Rightarrow> memory_server \<Rightarrow> (bool \<times> memory_server) res" where
  "server_rdma V n cfg s =
     res_bind (read_rdma_config cfg) (\<lambda>d.
     case d of
       None \<Rightarrow> Inr (False, s)
     | Some (device, prt, gid) \<Rightarrow>
         (case make_rdma V n device (nat prt) gid of (x, st) \<Rightarrow>
            if st \<noteq> status.Ok then Inr (False, s) else Inr (True, s\<lparr>ms_device := x\<rparr>)))"

text \<open>What \<open>NodeInfo::initialize\<close> reports is not looked at.\<close>

definition memory_initialize :: "'w verbs \<Rightarrow> 'w net \<Rightarrow> (string \<Rightarrow> bool) \<Rightarrow> u64 \<Rightarrow> string option \<Rightarrow> memory_server \<Rightarrow> (bool \<times> memory_server) res" where
  "memory_initialize V n nexus region file s =
     (case file of
        None \<Rightarrow> Inr (False, s)
      | Some config \<Rightarrow>
          res_bind (node_initialize config (ms_info s)) (\<lambda>(_, i).
          res_bind (addr_to_uri (erpc_addr i) (nat (erpc_port i))) (\<lambda>uri.
          if \<not> nexus uri then Inr (False, s\<lparr>ms_info := i\<rparr>)
          else
            res_bind (initialize_memory config region (s\<lparr>ms_info := i\<rparr>)) (\<lambda>(ok, s1).
            if \<not> ok then Inr (False, s1) else server_rdma V n config s1))))"

subsection \<open>Compute nodes\<close>

record 'w compute_start =
  self_info :: node_info
  rdma_dev :: "rdma_device option"
  cs_node :: "'w cn"

definition initialize_rdma_dev :: "'w verbs \<Rightarrow> string \<Rightarrow> 'w compute_start \<Rightarrow> (bool \<times> 'w compute_start) res" where
  "initialize_rdma_dev V cfg s =
     res_bind (read_rdma_config cfg) (\<lambda>d.
     case d of
       None \<Rightarrow> Inr (False, s)
     | Some (device, prt, gid) \<Rightarrow>
         (case make_rdma V (net (cs_node s)) device (nat prt) gid of (x, st) \<Rightarrow>
            if st \<noteq> status.Ok then Inr (False, s) else Inr (True, s\<lparr>rdma_dev := x\<rparr>)))"

text \<open>The memory nodes read are those the manager then connects to; what \<open>parse_config_file\<close> reports
  is not looked at.  \<open>greet\<close>, \<open>create_session\<close> and \<open>established\<close> stand for the sockets and the RPC
  library as in \<open>connect_memory_nodes\<close>.\<close>

definition connect_all :: "(int \<Rightarrow> (remote_ptr \<times> int) option) \<Rightarrow> (int \<Rightarrow> int \<Rightarrow> int) \<Rightarrow> (int \<Rightarrow> bool) \<Rightarrow> string option \<Rightarrow>
    ('w cn, bool) prog" where
  "connect_all greet create_session established file s =
     run_bind (Some (parse_config_file file [])) (\<lambda>(_, infos).
     case connect_memory_nodes greet create_session established (map (\<lambda>i. \<lparr>mn_node_id = node_id i, mn_base = 0\<rparr>) infos)
            (0, rpc_infos (rm s)) of
       None \<Rightarrow> None
     | Some (ok, nodes, _, rpcs) \<Rightarrow> Some (Inr (ok, s\<lparr>rm := (rm s)\<lparr>memory_nodes := nodes, rpc_infos := rpcs\<rparr>\<rparr>)))"

text \<open>The first part of a data node that marks the head, and two nodes for the local stage.\<close>

definition start_lists :: "'w env \<Rightarrow> nat \<Rightarrow> u16 \<times> u16 \<Rightarrow> kv list \<times> kv list \<Rightarrow> ('w cn, unit) prog" where
  "start_lists E tid crcs junks =
     st_bind (allocate E tid (sizeof_node (type_num TypeHead))) (\<lambda>p.
     st_bind (\<lambda>s. Some (res_bind (fake_head p (slist s)) (\<lambda>sl. Inr ((), s\<lparr>slist := sl\<rparr>)))) (\<lambda>_.
     st_mod (\<lambda>s. s\<lparr>remote_put := False,
       local_nodes := [new_linked_node 16 10 (fst crcs) (fst junks), new_linked_node 16 10 (snd crcs) (snd junks)]\<rparr>)))"

definition compute_erpc :: "(string \<Rightarrow> bool) \<Rightarrow> node_info \<Rightarrow> bool res" where
  "compute_erpc nexus i = res_bind (addr_to_uri (erpc_addr i) (nat (erpc_port i))) (\<lambda>uri. Inr (nexus uri))"

definition compute_initialize :: "'w env \<Rightarrow> (string \<Rightarrow> bool) \<Rightarrow> (int \<Rightarrow> (remote_ptr \<times> int) option) \<Rightarrow> (int \<Rightarrow> int \<Rightarrow> int) \<Rightarrow>
    (int \<Rightarrow> bool) \<Rightarrow> nat \<Rightarrow> u16 \<times> u16 \<Rightarrow> kv list \<times> kv list \<Rightarrow> string option \<Rightarrow> string option \<Rightarrow> ('w compute_start, bool) prog" where
  "compute_initialize E nexus greet create_session established tid crcs junks file memory_file s =
     (case file of
        None \<Rightarrow> Some (Inr (False, s))
      | Some config \<Rightarrow>
          run_bind (Some (node_initialize config (self_info s))) (\<lambda>(ok, i).
          let s1 = s\<lparr>self_info := i\<rparr> in
          if \<not> ok then Some (Inr (False, s1))
          else run_bind (Some (compute_erpc nexus i)) (\<lambda>ok.
          if \<not> ok then Some (Inr (False, s1))
          else run_bind (Some (initialize_rdma_dev (vb E) config s1)) (\<lambda>(ok, s2).
          if \<not> ok then Some (Inr (False, s2))
          else run_bind (connect_all greet create_session established memory_file (cs_node s2)) (\<lambda>(ok, c).
          if \<not> ok then Some (Inr (False, s2\<lparr>cs_node := c\<rparr>))
          else run_bind (start_lists E tid crcs junks c) (\<lambda>(_, c').
          Some (Inr (True, s2\<lparr>cs_node := c'\<rparr>))))))))"

definition make_compute_node :: "('w compute_start, bool) prog \<Rightarrow> 'w compute_start \<Rightarrow> 'w compute_start option run" where
  "make_compute_node ini s = run_bind (ini s) (\<lambda>(ok, s'). Some (Inr (if ok then Some s' else None)))"

text \<open>Registering a thread: its RDMA contexts over a new buffer, then its concurrency context, unless
  it has one.\<close>

definition register_thread :: "'w env \<Rightarrow> verbs_consts \<Rightarrow> (memory_node \<Rightarrow> 'w net \<Rightarrow> nat \<times> 'w net) \<Rightarrow> u64 \<Rightarrow> bytes \<Rightarrow> nat \<Rightarrow>
    ('w compute_start, bool) prog" where
  "register_thread E K connect buf jnk tid s =
     (case rdma_dev s of
        None \<Rightarrow> Some (Inl NullDeref)
      | Some d \<Rightarrow>
          (let c = cs_node s in
           case setup_rdma_per_thread (vb E) K d connect buf jnk tid (rm c) (net c) of ((ok, m), n) \<Rightarrow>
             let c1 = c\<lparr>rm := m, net := n\<rparr> in
             if \<not> ok then Some (Inr (False, s\<lparr>cs_node := c1\<rparr>))
             else Some (Inr (True, s\<lparr>cs_node := c1\<lparr>cctx := (if cctx c1 tid = None then (cctx c1)(tid \<mapsto> new_conc_ctx) else cctx c1)\<rparr>\<rparr>))))"

subsection \<open>Connecting to the memory nodes\<close>

lemma select_first_append: "select_first_info (is @ js) n = (case select_first_info is n of Some x \<Rightarrow> Some x | None \<Rightarrow> select_first_info js n)"
  by (induction "is") auto

text \<open>Every node greets with its base and an endpoint, and accepts a session.\<close>

definition reachable :: "(int \<Rightarrow> (remote_ptr \<times> int) option) \<Rightarrow> (int \<Rightarrow> int \<Rightarrow> int) \<Rightarrow> (int \<Rightarrow> bool) \<Rightarrow> int \<Rightarrow> bool" where
  "reachable greet create_session established i \<longleftrightarrow>
     (case greet i of None \<Rightarrow> False
      | Some (b, r) \<Rightarrow> r \<noteq> - 1 \<and> create_session i r \<noteq> - 1 \<and> established (create_session i r))"

lemma connect_reachable:
  "list_all (\<lambda>n. reachable greet create_session established (mn_node_id n)) ns \<Longrightarrow>
   \<exists>nodes cur infos. connect_memory_nodes greet create_session established ns (c, is) = Some (True, nodes, cur, infos) \<and>
     map mn_node_id nodes = map mn_node_id ns \<and>
     (\<forall>i. (\<exists>x. select_first_info is i = Some x) \<or> i \<in> mn_node_id ` set ns \<longrightarrow> select_first_info infos i \<noteq> None)"
proof (induction ns arbitrary: c "is")
  case Nil
  then show ?case by auto
next
  case (Cons n ns)
  obtain b r where g: "greet (mn_node_id n) = Some (b, r)" "r \<noteq> - 1" "create_session (mn_node_id n) r \<noteq> - 1"
    "established (create_session (mn_node_id n) r)"
    using Cons.prems by (auto simp: reachable_def split: option.splits)
  let ?x = "\<lparr>self_id = c, info_node_id = mn_node_id n, remote_id = r, session = create_session (mn_node_id n) r\<rparr>"
  obtain nodes cur infos where o: "connect_memory_nodes greet create_session established ns (c + 1, is @ [?x]) = Some (True, nodes, cur, infos)"
    "map mn_node_id nodes = map mn_node_id ns"
    "\<forall>i. (\<exists>x. select_first_info (is @ [?x]) i = Some x) \<or> i \<in> mn_node_id ` set ns \<longrightarrow> select_first_info infos i \<noteq> None"
    using Cons.IH [of "c + 1" "is @ [?x]"] Cons.prems by auto
  have "connect_memory_nodes greet create_session established (n # ns) (c, is) = Some (True, n\<lparr>mn_base := b\<rparr> # nodes, cur, infos)"
    using g o(1) by (simp add: connect_remote_connected)
  moreover have y: "\<exists>y. select_first_info (is @ [?x]) i = Some y" if "(\<exists>x. select_first_info is i = Some x) \<or> i = mn_node_id n" for i
    using that by (auto simp: select_first_append split: option.split)
  have "select_first_info infos i \<noteq> None"
    if "(\<exists>x. select_first_info is i = Some x) \<or> i \<in> mn_node_id ` set (n # ns)" for i
    using that o(3) y by (metis image_insert insert_iff list.simps(15))
  ultimately show ?case using o(2) by (intro exI [of _ "n\<lparr>mn_base := b\<rparr> # nodes"] exI [of _ cur] exI [of _ infos]) auto
qed

subsection \<open>The first segment\<close>

lemma first_chunk_none: "cna_allocate tid 64 cn_allocator_init = Inr (0, cn_allocator_init)"
  by (simp add: cna_allocate_def refill_def tracker_available_def cn_allocator_init_def MEMORY_PAGE_SIZE_def)

lemma segment_fits:
  assumes "unat (a :: u64) + SEGMENT_SIZE < 2 ^ 48" "a AND mask 48 = a"
  shows "unat (make_remote_pointer_ptr n a) + SEGMENT_SIZE \<le> 2 ^ 64"
proof -
  let ?p = "make_remote_pointer_ptr n a"
  have "?p AND mask 48 = a AND mask 48"
    by (rule bit_word_eqI) (auto simp: make_remote_pointer_overloads_agree bit_make_remote_pointer bit_simps)
  then have "unat ?p mod 2 ^ 48 = unat a"
    using assms(2) by (metis take_bit_eq_mask take_bit_eq_mod unsigned_take_bit_eq)
  moreover have "unat ?p < 2 ^ 64" using unsigned_less [of ?p, where ?'a = nat] by simp
  ultimately have "unat ?p = 2 ^ 48 * (unat ?p div 2 ^ 48) + unat a" "unat ?p div 2 ^ 48 < 2 ^ 16"
    by (simp_all add: div_less_iff_less_mult) (metis div_mult_mod_eq mult.commute)
  moreover from this(2) have "2 ^ 48 * (unat ?p div 2 ^ 48) \<le> 2 ^ 48 * (2 ^ 16 - 1)" by (intro mult_le_mono2) simp
  ultimately show ?thesis using assms(1) by simp
qed


lemma slot_node: "service_inv mw \<Longrightarrow> slot_of mw (i, no) \<Longrightarrow> get_node (seg_ptr n (i, no)) = nat i"
  by (auto simp: slot_of_def service_inv_def list_all_iff seg_ptr_def make_remote_pointer_overloads_agree unat_of_nat)

lemma first_offer:
  assumes "rpc E = serve" "calloc c = cn_allocator_init" "service_inv (rm c, net c)" "\<not> full (wire (net c) (asked (rm c, net c) 0))"
  obtains p n where "unat p + SEGMENT_SIZE \<le> 2 ^ 64" "get_node p = nat (asked (rm c, net c) 0)"
    "allocate E tid 64 c =
      (case get_base_addr (rm c) (get_node p) of
         Inl e \<Rightarrow> Some (Inl e)
       | Inr base \<Rightarrow>
           (case cna_allocate tid 64 (apply_for_memory p base cn_allocator_init) of
              Inl e \<Rightarrow> Some (Inl e)
            | Inr (r, a) \<Rightarrow> Some (Inr (r, c\<lparr>rm := (rm c)\<lparr>rm_current := rm_current (rm c) + 1\<rparr>, net := n, calloc := a\<rparr>))))"
proof -
  let ?mw = "(rm c, net c)"
  obtain no n where o: "offer_remote_segment serve ?mw =
      Some (Inr (seg_ptr (net c) (asked ?mw 0, no), (rm c)\<lparr>rm_current := rm_current (rm c) + 1\<rparr>, n))"
    "slot_of ?mw (asked ?mw 0, no)"
    using fresh_offer [OF assms(3)] assms(4) by (metis fst_conv snd_conv)
  let ?p = "seg_ptr (net c) (asked ?mw 0, no)" and ?m = "(rm c)\<lparr>rm_current := rm_current (rm c) + 1\<rparr>"
  have "mna_inv (wire (net c) (asked ?mw 0))" "no < bm_cap (mna_bitmap (wire (net c) (asked ?mw 0)))"
    using o(2) assms(3) by (auto simp: slot_of_def service_inv_def list_all_iff)
  from segment_fits [OF unat_seg_addr(2) [OF this] seg_addr_mask [OF this]]
  have "unat ?p + SEGMENT_SIZE \<le> 2 ^ 64" by (simp add: seg_ptr_def)
  moreover have "get_base_addr ?m (get_node ?p) = get_base_addr (rm c) (get_node ?p)" by (simp add: get_base_addr_def)
  then have "allocate E tid 64 c =
      (case get_base_addr (rm c) (get_node ?p) of
         Inl e \<Rightarrow> Some (Inl e)
       | Inr base \<Rightarrow>
           (case cna_allocate tid 64 (apply_for_memory ?p base cn_allocator_init) of
              Inl e \<Rightarrow> Some (Inl e)
            | Inr (r, a) \<Rightarrow> Some (Inr (r, c\<lparr>rm := ?m, net := n, calloc := a\<rparr>))))"
    using o(1) assms(1,2)
    by (simp add: allocate_def alloc_chunk_def offer_segment_def st_bind_def first_chunk_none is_nullptr_def st_get_def st_lift_def
        st_mod_def res_bind_def run_bind_def split: sum.split prod.split)
  ultimately show ?thesis using slot_node [OF assms(3) o(2)] by (intro that)
qed

lemma first_allocation:
  assumes "rpc E = serve" "calloc c = cn_allocator_init" "service_inv (rm c, net c)" "\<not> full (wire (net c) (asked (rm c, net c) 0))"
    and "nat (asked (rm c, net c) 0) < length (memory_nodes (rm c))"
  shows "\<exists>p a m n. allocate E tid 64 c = Some (Inr (p, c\<lparr>rm := m, net := n, calloc := a\<rparr>)) \<and> cna_inv a \<and>
    memory_nodes m = memory_nodes (rm c)"
proof -
  let ?m = "(rm c)\<lparr>rm_current := rm_current (rm c) + 1\<rparr>"
  obtain p n where p: "unat p + SEGMENT_SIZE \<le> 2 ^ 64" "get_node p = nat (asked (rm c, net c) 0)"
    "allocate E tid 64 c =
      (case get_base_addr (rm c) (get_node p) of
         Inl e \<Rightarrow> Some (Inl e)
       | Inr base \<Rightarrow>
           (case cna_allocate tid 64 (apply_for_memory p base cn_allocator_init) of
              Inl e \<Rightarrow> Some (Inl e)
            | Inr (r, a) \<Rightarrow> Some (Inr (r, c\<lparr>rm := ?m, net := n, calloc := a\<rparr>))))"
    by (rule first_offer [OF assms(1-4)])
  obtain base where b: "get_base_addr (rm c) (get_node p) = Inr base" using assms(5) p(2) by (simp add: get_base_addr_def)
  have inv: "cna_inv (apply_for_memory p base cn_allocator_init)"
    by (rule apply_for_memory_inv(1) [OF cna_inv_init p(1)]) (simp_all add: cn_allocator_init_def)
  obtain r a where a: "cna_allocate tid 64 (apply_for_memory p base cn_allocator_init) = Inr (r, a)" "cna_inv a"
    using cna_allocate_ok [OF inv, of 64 tid] by (auto simp: MEMORY_PAGE_SIZE_def served_def)
  with p(3) b show ?thesis by (intro exI [of _ r] exI [of _ a] exI [of _ ?m] exI [of _ n]) simp
qed

lemma first_allocation_beyond:
  assumes "rpc E = serve" "calloc c = cn_allocator_init" "service_inv (rm c, net c)" "\<not> full (wire (net c) (asked (rm c, net c) 0))"
    and "length (memory_nodes (rm c)) \<le> nat (asked (rm c, net c) 0)"
  shows "allocate E tid 64 c = Some (Inl OutOfBounds)"
  by (rule first_offer [OF assms(1-4), of tid]) (use assms(5) in \<open>simp add: get_base_addr_def rd_out\<close>)

subsection \<open>Properties\<close>

text \<open>What a compute node starts with, and a cluster it can start in.\<close>

definition fresh_cn :: "(int \<Rightarrow> mn_allocator) cn \<Rightarrow> bool" where
  "fresh_cn c \<longleftrightarrow> calloc c = cn_allocator_init \<and> rm_current (rm c) = 0 \<and> rpc_infos (rm c) = [] \<and>
     local_anchors c = [[], []] \<and> slist c = make_skiplist"

definition startable :: "(int \<Rightarrow> (remote_ptr \<times> int) option) \<Rightarrow> (int \<Rightarrow> int \<Rightarrow> int) \<Rightarrow> (int \<Rightarrow> bool) \<Rightarrow> (int \<Rightarrow> mn_allocator) \<Rightarrow> node_info list \<Rightarrow> bool" where
  "startable greet create_session established w is \<longleftrightarrow> is \<noteq> [] \<and>
     list_all (\<lambda>i. reachable greet create_session established (node_id i) \<and> node_id i \<in> {0..<64} \<and> mna_inv (w (node_id i))) is \<and>
     \<not> full (w (node_id (hd is)))"

definition junk_ok :: "kv list \<times> kv list \<Rightarrow> bool" where
  "junk_ok j \<longleftrightarrow> list_all (\<lambda>k. 10 \<le> length k \<and> list_all kv_ok k) [fst j, snd j]"

lemma head_deref: "\<exists>n. fake_head p make_skiplist = Inr n"
  by (simp add: fake_head_def modify_def make_skiplist_def deref_def res_bind_def)

lemma connect_all_ok:
  assumes "startable greet create_session established (wire (net c)) is" "list_all2 written_node is ls" "fresh_cn c"
  obtains m where "connect_all greet create_session established (Some (concat (map (\<lambda>l. l @ [CHR 0x0A]) ls))) c = Some (Inr (True, c\<lparr>rm := m\<rparr>))"
    "service_inv (m, net c)" "map mn_node_id (memory_nodes m) = map node_id is" "rm_current m = 0"
proof -
  let ?ns = "map (\<lambda>i. \<lparr>mn_node_id = node_id i, mn_base = 0\<rparr>) (map (\<lambda>i. i\<lparr>socket := 0\<rparr>) is)"
  have r: "list_all (\<lambda>n. reachable greet create_session established (mn_node_id n)) ?ns"
    using assms(1) by (auto simp: startable_def list_all_iff)
  obtain nodes cur infos where
    c: "connect_memory_nodes greet create_session established ?ns (0, []) = Some (True, nodes, cur, infos)"
      "map mn_node_id nodes = map mn_node_id ?ns"
      "\<forall>i. (\<exists>x. select_first_info [] i = Some x) \<or> i \<in> mn_node_id ` set ?ns \<longrightarrow> select_first_info infos i \<noteq> None"
    using connect_reachable [OF r, of 0 "[]"] by (elim exE conjE) (rule that)
  let ?m = "(rm c)\<lparr>memory_nodes := nodes, rpc_infos := infos\<rparr>"
  have ids: "map mn_node_id nodes = map node_id is" using c(2) by (simp add: comp_def)
  have "mn_node_id n \<in> node_id ` set is" if "n \<in> set nodes" for n
    using that arg_cong [OF ids, of set] by auto
  moreover have "select_first_info infos (node_id i) \<noteq> None" if "i \<in> set is" for i
    using c(3) that by (simp add: image_image)
  moreover have "nodes \<noteq> []" using ids assms(1) by (auto simp: startable_def)
  ultimately have "service_inv (?m, net c)"
    using assms(1) by (fastforce simp: service_inv_def startable_def list_all_iff)
  moreover have "connect_all greet create_session established (Some (concat (map (\<lambda>l. l @ [CHR 0x0A]) ls))) c = Some (Inr (True, c\<lparr>rm := ?m\<rparr>))"
    using c(1) assms(3) by (simp add: connect_all_def parse_written(1) [OF assms(2)] fresh_cn_def)
  moreover have "map mn_node_id (memory_nodes ?m) = map node_id is" using ids by simp
  moreover have "rm_current ?m = 0" using assms(3) by (simp add: fresh_cn_def)
  ultimately show ?thesis by (intro that [of ?m])
qed

lemma start_lists_ok:
  assumes "rpc E = serve" "calloc c = cn_allocator_init" "service_inv (rm c, net c)" "slist c = make_skiplist" "local_anchors c = [[], []]"
    and "\<not> full (wire (net c) (asked (rm c, net c) 0))" "nat (asked (rm c, net c) 0) < length (memory_nodes (rm c))" "junk_ok junks"
  obtains c' where "start_lists E tid crcs junks c = Some (Inr ((), c'))" "local_fresh c'" "cna_inv (calloc c')"
    "memory_nodes (rm c') = memory_nodes (rm c)"
proof -
  obtain p a m n where al: "allocate E tid 64 c = Some (Inr (p, c\<lparr>rm := m, net := n, calloc := a\<rparr>))" "cna_inv a"
    "memory_nodes m = memory_nodes (rm c)" using first_allocation [OF assms(1-3,6,7), of tid] by blast
  have sz: "sizeof_node 1 = 64" by (simp add: sizeof_node_def enumerator_def sizeof_linked_node_def)
  obtain sl where "fake_head p (slist c) = Inr sl" using head_deref assms(4) by auto
  let ?c = "c\<lparr>slist := sl, rm := m, net := n, calloc := a, remote_put := False,
      local_nodes := [new_linked_node 16 10 (fst crcs) (fst junks), new_linked_node 16 10 (snd crcs) (snd junks)]\<rparr>"
  have "start_lists E tid crcs junks c = Some (Inr ((), ?c))" using \<open>fake_head p (slist c) = Inr sl\<close>
    by (simp add: start_lists_def sz st_bind_Inr [of "allocate E tid 64", OF al(1)]) (simp add: st_bind_def st_mod_def)
  moreover have "local_fresh ?c"
    using assms(5,8) unfolding local_fresh_def junk_ok_def by (intro conjI exI [of _ "fst junks"] exI [of _ "snd junks"]) auto
  ultimately show ?thesis using al(2,3) by (intro that [of ?c]) simp_all
qed

lemma initialize_to_lists:
  assumes "info_ok i" "written i (dec_string (nat (node_id i))) = Inr l" "other_text r"
    and "read_rdma_config (l @ r) = Inr (Some (dev, prt, gid))" "make_rdma (vb E) (net (cs_node s)) dev (nat prt) gid = (Some d, status.Ok)"
    and "addr_to_uri (erpc_addr i) (nat (erpc_port i)) = Inr u" "nexus u" "list_all2 written_node is ls"
    and "startable greet create_session established (wire (net (cs_node s))) is" "fresh_cn (cs_node s)"
  obtains m where "compute_initialize E nexus greet create_session established tid crcs junks (Some (l @ r))
      (Some (concat (map (\<lambda>l. l @ [CHR 0x0A]) ls))) s =
    run_bind (start_lists E tid crcs junks ((cs_node s)\<lparr>rm := m\<rparr>)) (\<lambda>(_, c').
      Some (Inr (True, s\<lparr>self_info := i\<lparr>socket := - 1\<rparr>, rdma_dev := Some d, cs_node := c'\<rparr>)))"
    "service_inv (m, net (cs_node s))" "map mn_node_id (memory_nodes m) = map node_id is"
    "asked (m, net (cs_node s)) 0 = node_id (hd is)" "length (memory_nodes m) = length is"
proof -
  obtain m where m: "connect_all greet create_session established (Some (concat (map (\<lambda>l. l @ [CHR 0x0A]) ls))) (cs_node s) =
      Some (Inr (True, (cs_node s)\<lparr>rm := m\<rparr>))" "service_inv (m, net (cs_node s))" "map mn_node_id (memory_nodes m) = map node_id is" "rm_current m = 0"
    by (rule connect_all_ok [OF assms(9,8,10)])
  have ne: "is \<noteq> []" "memory_nodes m \<noteq> []" using assms(9) m(3) by (auto simp: startable_def)
  then have "mn_node_id (memory_nodes m ! 0) = node_id (hd is)" using m(3) by (metis hd_conv_nth hd_map)
  then have a: "asked (m, net (cs_node s)) 0 = node_id (hd is)" using m(4) by (simp add: asked_def)
  have "length (memory_nodes m) = length is" using arg_cong [OF m(3), of length] by simp
  moreover have "compute_initialize E nexus greet create_session established tid crcs junks (Some (l @ r))
      (Some (concat (map (\<lambda>l. l @ [CHR 0x0A]) ls))) s =
    run_bind (start_lists E tid crcs junks ((cs_node s)\<lparr>rm := m\<rparr>)) (\<lambda>(_, c').
      Some (Inr (True, s\<lparr>self_info := i\<lparr>socket := - 1\<rparr>, rdma_dev := Some d, cs_node := c'\<rparr>)))"
    using m(1) assms(4-7)
    by (simp add: compute_initialize_def compute_erpc_def node_initialize_written [OF assms(1-3)] initialize_rdma_dev_def Let_def)
  ultimately show ?thesis using m(2,3) a by (intro that)
qed

text \<open>C5: a compute node starts: with its configuration and the list of memory nodes in the form that
  the files in \<open>config_files\<close> have, every label with the number of its node (\<open>node7: ...\<close>; a label without
  one, as in the comment on the configuration of a compute node, is refused, \<open>Cluster\<close>), a device of the
  name configured, memory nodes that answer and a slot left on the first of them, whose number is a
  position in the list, \<open>initialize\<close> returns true; it has then read itself and all memory nodes, and its
  local stage is fresh.\<close>

theorem compute_node_starts:
  assumes "info_ok i" "written i (dec_string (nat (node_id i))) = Inr l" "other_text r"
    and "read_rdma_config (l @ r) = Inr (Some (dev, prt, gid))" "make_rdma (vb E) (net (cs_node s)) dev (nat prt) gid = (Some d, status.Ok)"
    and "addr_to_uri (erpc_addr i) (nat (erpc_port i)) = Inr u" "nexus u" "list_all2 written_node is ls"
    and "startable greet create_session established (wire (net (cs_node s))) is" "fresh_cn (cs_node s)"
    and "rpc E = serve" "junk_ok junks" "nat (node_id (hd is)) < length is"
  shows "\<exists>s'. compute_initialize E nexus greet create_session established tid crcs junks (Some (l @ r))
      (Some (concat (map (\<lambda>l. l @ [CHR 0x0A]) ls))) s = Some (Inr (True, s')) \<and>
    local_fresh (cs_node s') \<and> cna_inv (calloc (cs_node s')) \<and> self_info s' = i\<lparr>socket := - 1\<rparr> \<and> rdma_dev s' = Some d \<and>
    map mn_node_id (memory_nodes (rm (cs_node s'))) = map node_id is"
proof -
  obtain m where m: "compute_initialize E nexus greet create_session established tid crcs junks (Some (l @ r))
      (Some (concat (map (\<lambda>l. l @ [CHR 0x0A]) ls))) s =
    run_bind (start_lists E tid crcs junks ((cs_node s)\<lparr>rm := m\<rparr>)) (\<lambda>(_, c').
      Some (Inr (True, s\<lparr>self_info := i\<lparr>socket := - 1\<rparr>, rdma_dev := Some d, cs_node := c'\<rparr>)))"
    "service_inv (m, net (cs_node s))" "map mn_node_id (memory_nodes m) = map node_id is"
    "asked (m, net (cs_node s)) 0 = node_id (hd is)" "length (memory_nodes m) = length is"
    by (rule initialize_to_lists [where nexus = nexus and u = u, OF assms(1-10)])
  obtain c' where c': "start_lists E tid crcs junks ((cs_node s)\<lparr>rm := m\<rparr>) = Some (Inr ((), c'))" "local_fresh c'" "cna_inv (calloc c')"
    "memory_nodes (rm c') = memory_nodes m"
    using start_lists_ok [of E "(cs_node s)\<lparr>rm := m\<rparr>" junks tid crcs] assms(9-13) m(2,4,5) by (auto simp: fresh_cn_def startable_def)
  let ?s = "s\<lparr>self_info := i\<lparr>socket := - 1\<rparr>, rdma_dev := Some d, cs_node := c'\<rparr>"
  have "compute_initialize E nexus greet create_session established tid crcs junks (Some (l @ r))
      (Some (concat (map (\<lambda>l. l @ [CHR 0x0A]) ls))) s = Some (Inr (True, ?s))" using m(1) c'(1) by simp
  moreover have "self_info ?s = i\<lparr>socket := - 1\<rparr>" "rdma_dev ?s = Some d" "cs_node ?s = c'" by simp_all
  ultimately show ?thesis using c'(2-4) m(3) by metis
qed

text \<open>When the number of the first memory node is not a position in the list of memory nodes, as
  with a single node numbered 1, the start faults: the base address is looked up by number in a
  vector by position.\<close>

theorem node_number_beyond_list_faults:
  assumes "info_ok i" "written i (dec_string (nat (node_id i))) = Inr l" "other_text r"
    and "read_rdma_config (l @ r) = Inr (Some (dev, prt, gid))" "make_rdma (vb E) (net (cs_node s)) dev (nat prt) gid = (Some d, status.Ok)"
    and "addr_to_uri (erpc_addr i) (nat (erpc_port i)) = Inr u" "nexus u" "list_all2 written_node is ls"
    and "startable greet create_session established (wire (net (cs_node s))) is" "fresh_cn (cs_node s)"
    and "rpc E = serve" "length is \<le> nat (node_id (hd is))"
  shows "compute_initialize E nexus greet create_session established tid crcs junks (Some (l @ r))
      (Some (concat (map (\<lambda>l. l @ [CHR 0x0A]) ls))) s = Some (Inl OutOfBounds)"
proof -
  obtain m where m: "compute_initialize E nexus greet create_session established tid crcs junks (Some (l @ r))
      (Some (concat (map (\<lambda>l. l @ [CHR 0x0A]) ls))) s =
    run_bind (start_lists E tid crcs junks ((cs_node s)\<lparr>rm := m\<rparr>)) (\<lambda>(_, c').
      Some (Inr (True, s\<lparr>self_info := i\<lparr>socket := - 1\<rparr>, rdma_dev := Some d, cs_node := c'\<rparr>)))"
    "service_inv (m, net (cs_node s))" "map mn_node_id (memory_nodes m) = map node_id is"
    "asked (m, net (cs_node s)) 0 = node_id (hd is)" "length (memory_nodes m) = length is"
    by (rule initialize_to_lists [where nexus = nexus and u = u, OF assms(1-10)])
  let ?c = "(cs_node s)\<lparr>rm := m\<rparr>"
  have "calloc ?c = cn_allocator_init" "service_inv (rm ?c, net ?c)" "\<not> full (wire (net ?c) (asked (rm ?c, net ?c) 0))"
    using assms(9,10) m(2,4) by (simp_all add: fresh_cn_def startable_def)
  from first_allocation_beyond [OF assms(11) this, of tid] have "allocate E tid 64 ?c = Some (Inl OutOfBounds)"
    using m(4,5) assms(12) by simp
  then show ?thesis using m(1)
    by (simp add: start_lists_def st_bind_Inl sizeof_node_def enumerator_def sizeof_linked_node_def)
qed

lemma regex_search_prefix: "(\<And>c t. c \<in> set p \<Longrightarrow> m (c # t) = None) \<Longrightarrow> regex_search m (p @ s) = regex_search m s"
  by (induction p) simp_all

text \<open>A memory node configured with a capacity below the size of a page, as in the example file,
  registers almost the whole address space: the capacity left behind the first page wraps.\<close>

theorem small_capacity_wraps:
  assumes "capacity < MEMORY_PAGE_SIZE" "CHR ''m'' \<notin> set before" "r = [] \<or> \<not> is_digit (hd r)"
  shows "\<exists>s'. initialize_memory (before @ ''mem_cap: '' @ dec_string capacity @ r) region s = Inr (True, s') \<and>
    unat (ms_cap s') = 2 ^ 64 - (MEMORY_PAGE_SIZE - capacity) \<and> ms_allocator s' = Some (make_allocator region capacity)"
proof -
  let ?m = "\<lambda>s. Option.bind (literal ''mem_cap: '' s) (\<lambda>r. map_option fst (digits r))"
  let ?s = "s\<lparr>ms_cap := of_nat capacity - of_nat MEMORY_PAGE_SIZE,
      ms_base := make_remote_pointer_ptr (of_int (node_id (ms_info s))) (region + of_nat MEMORY_PAGE_SIZE),
      ms_allocator := Some (make_allocator region capacity)\<rparr>"
  have "?m (c # t) = None" if "c \<in> set before" for c t
  proof -
    have "c \<noteq> CHR ''m''" using that assms(2) by blast
    then show ?thesis by (simp add: find_literal)
  qed
  moreover have "?m (''mem_cap: '' @ dec_string capacity @ r) = Some (dec_string capacity)"
    by (simp only: literal_append Option.bind.bind_lunit digits_append [OF dec_string_digits(1,2) assms(3)] option.map fst_conv)
  ultimately have "regex_search ?m (before @ ''mem_cap: '' @ dec_string capacity @ r) = Some (dec_string capacity)"
    by (simp only: regex_search_prefix regex_search_hit)
  then have "read_mem_cap (before @ ''mem_cap: '' @ dec_string capacity @ r) = Inr (Some capacity)"
    using assms(1) by (simp only: read_mem_cap_def) (simp add: dec_string_digits MEMORY_PAGE_SIZE_def)
  then have "initialize_memory (before @ ''mem_cap: '' @ dec_string capacity @ r) region s = Inr (True, ?s)"
    by (simp only: initialize_memory_def res_bind_Inr option.case)
  moreover have "unat ((of_nat capacity :: u64) - of_nat MEMORY_PAGE_SIZE) = 2 ^ 64 - (MEMORY_PAGE_SIZE - capacity)"
  proof -
    have "(of_nat (2 ^ 64) :: u64) = 0" by simp
    then have "(of_nat capacity :: u64) - of_nat MEMORY_PAGE_SIZE = of_nat (2 ^ 64 - (MEMORY_PAGE_SIZE - capacity))"
      using assms(1) by (subst of_nat_diff) (simp_all add: of_nat_diff MEMORY_PAGE_SIZE_def)
    moreover have "2 ^ 64 - (MEMORY_PAGE_SIZE - capacity) < 2 ^ 64" using assms(1) by simp
    ultimately show ?thesis by (simp add: unat_of_nat)
  qed
  ultimately show ?thesis by (intro exI [of _ ?s]) simp
qed

text \<open>A library with one device, a memory node of three gibibytes, and a compute node before it starts.\<close>

definition one_device :: "'w verbs" where
  "one_device =
     \<lparr>ibv_post_send = (\<lambda>q ws n. (0, n)), ibv_post_recv = (\<lambda>q s n. (0, n)), ibv_poll_cq = (\<lambda>c k n. (1, n)),
      ibv_modify_qp = (\<lambda>q a m n. (0, n)), sock_write = (\<lambda>s b n. (int (length b), n)),
      sock_read = (\<lambda>s l n. (int l, replicate l 0, n)), ibv_alloc_pd = (\<lambda>n. (Some 0, n)),
      ibv_create_cq = (\<lambda>c n. (Some 0, n)), ibv_reg_mr = (\<lambda>p b s a n. (Some (0, 0), n)),
      ibv_create_qp = (\<lambda>p s r a n. (Some (0, 0), n)), ibv_query_gid = (\<lambda>p i n. (0, replicate 16 0)),
      ibv_query_port = (\<lambda>p n. (0, 0)), ibv_get_device_list = (\<lambda>n. Some [''sim'']), ibv_open_device = (\<lambda>i n. True)\<rparr>"

definition server_env :: "(int \<Rightarrow> mn_allocator) env" where
  "server_env = \<lparr>vb = one_device, crcer = (\<lambda>_. 0), rpc = serve, draws = (\<lambda>_. []), junk = [], others = (\<lambda>s. s)\<rparr>"

definition before_start :: "(int \<Rightarrow> mn_allocator) compute_start" where
  "before_start = \<lparr>self_info = zero_info, rdma_dev = None,
     cs_node = \<lparr>slist = make_skiplist, cctx = Map.empty, answers = Map.empty, next_req = 0, calloc = cn_allocator_init,
       rm = \<lparr>rm_current = 0, memory_nodes = [], rdma_ctxs = Map.empty, parallel_rdma_ctxs = Map.empty, rpc_infos = []\<rparr>,
       update_queue = [], remote_put = False, local_nodes = [], local_anchors = [[], []], flush_node = new_linked_node 16 12 0 [],
       net = \<lparr>lbuf = [], wire = (\<lambda>_. node3)\<rparr>\<rparr>\<rparr>"

definition device_text :: string where
  "device_text = CHR 0x0A # ''rdma_device: sim'' @ CHR 0x0A # ''rdma_port: 1'' @ CHR 0x0A # ''gid_idx: 4''"

lemma device_text_other: "other_text device_text"
  by (simp add: other_text_def device_text_def other_line_def match_nid_def find_literal next_uri_def match_uri_def match_octets_def
      octet_def digits_def is_digit_def)

lemma device_text_read:
  "read_rdma_config (''node7: 127.0.0.1:1234, 10.0.0.255:4321, 127.0.0.1:3124'' @ device_text) = Inr (Some (''sim'', 1, 4))"
  by (simp add: device_text_def read_rdma_config_def match_word_def match_number_def find_literal literal_def is_space_def digits_def
      is_digit_def atoi_def decimal_def)

lemma node0_text:
  "written_node (some_node\<lparr>node_id := 0\<rparr>) ''node0: 127.0.0.1:1234, 10.0.0.255:4321, 127.0.0.1:3124''"
  by (simp add: written_node_def info_ok_def written_def some_node_def addr_to_uri_def addr_to_string_def node_text_def
      dec_string.simps char_of_def bit_0)

lemma compute_node_starts_witness:
  "\<exists>s'. compute_initialize server_env (\<lambda>_. True) (\<lambda>i. Some (0, 0)) (\<lambda>i r. 0) (\<lambda>x. True) 7 (0, 0) (replicate 10 kv_zero, replicate 10 kv_zero)
     (Some (''node7: 127.0.0.1:1234, 10.0.0.255:4321, 127.0.0.1:3124'' @ device_text))
     (Some (''node0: 127.0.0.1:1234, 10.0.0.255:4321, 127.0.0.1:3124'' @ [CHR 0x0A])) before_start = Some (Inr (True, s')) \<and>
   local_fresh (cs_node s')"
proof -
  let ?is = "[some_node\<lparr>node_id := 0\<rparr>]" and ?w = "wire (net (cs_node before_start))"
  have w: "?w i = node3" for i by (simp add: before_start_def)
  have "startable (\<lambda>i. Some (0, 0)) (\<lambda>i r. 0) (\<lambda>x. True) ?w ?is"
    by (simp add: startable_def w reachable_def node3_inv node3_not_full)
  moreover have "fresh_cn (cs_node before_start)" by (simp add: fresh_cn_def before_start_def)
  moreover have "junk_ok (replicate 10 kv_zero, replicate 10 kv_zero)" using zeros_ok by (simp add: junk_ok_def)
  moreover have "make_rdma (vb server_env) (net (cs_node before_start)) ''sim'' (nat 1) 4 =
      (Some \<lparr>dev_name = ''sim'', dev_index = 0, ib_port = 1, gid_idx = 4\<rparr>, status.Ok)"
    by (simp add: make_rdma_def server_env_def one_device_def)
  moreover have "addr_to_uri (erpc_addr some_node) (nat (erpc_port some_node)) = Inr ''127.0.0.1:3124''"
    by (simp add: some_node_def addr_to_uri_def addr_to_string_def dec_string.simps char_of_def bit_0)
  moreover have "list_all2 written_node ?is [''node0: 127.0.0.1:1234, 10.0.0.255:4321, 127.0.0.1:3124'']"
    using node0_text by simp
  moreover have "rpc server_env = serve" by (simp add: server_env_def)
  ultimately show ?thesis
    using compute_node_starts [OF some_node_text(3,2) device_text_other device_text_read, of server_env before_start _ _ "\<lambda>_. True" ?is] by fastforce
qed

lemma node_number_beyond_list_faults_witness:
  "compute_initialize server_env (\<lambda>_. True) (\<lambda>i. Some (0, 0)) (\<lambda>i r. 0) (\<lambda>x. True) 7 (0, 0) ([], [])
     (Some (''node7: 127.0.0.1:1234, 10.0.0.255:4321, 127.0.0.1:3124'' @ device_text))
     (Some (''node7: 127.0.0.1:1234, 10.0.0.255:4321, 127.0.0.1:3124'' @ [CHR 0x0A])) before_start = Some (Inl OutOfBounds)"
proof -
  let ?w = "wire (net (cs_node before_start))"
  have w: "?w i = node3" for i by (simp add: before_start_def)
  have st: "startable (\<lambda>i. Some (0, 0)) (\<lambda>i r. 0) (\<lambda>x. True) ?w [some_node]"
    by (simp add: startable_def w reachable_def node3_inv node3_not_full some_node_def)
  have dv: "make_rdma (vb server_env) (net (cs_node before_start)) ''sim'' (nat 1) 4 =
      (Some \<lparr>dev_name = ''sim'', dev_index = 0, ib_port = 1, gid_idx = 4\<rparr>, status.Ok)"
    by (simp add: make_rdma_def server_env_def one_device_def)
  have ad: "addr_to_uri (erpc_addr some_node) (nat (erpc_port some_node)) = Inr ''127.0.0.1:3124''"
    by (simp add: some_node_def addr_to_uri_def addr_to_string_def dec_string.simps char_of_def bit_0)
  have wn: "list_all2 written_node [some_node] [''node7: 127.0.0.1:1234, 10.0.0.255:4321, 127.0.0.1:3124'']"
    using some_node_text by (simp add: written_node_def)
  have fr: "fresh_cn (cs_node before_start)" by (simp add: fresh_cn_def before_start_def)
  have "rpc server_env = serve" "length [some_node] \<le> nat (node_id (hd [some_node]))" by (simp_all add: server_env_def some_node_def)
  from node_number_beyond_list_faults [where nexus = "\<lambda>_. True", OF some_node_text(3,2) device_text_other device_text_read dv ad TrueI wn st fr this]
  show ?thesis by simp
qed

lemma small_capacity_wraps_witness:
  "\<exists>s'. initialize_memory (''node1: 1.1.1.1:1'' @ CHR 0x0A # ''mem_cap: 1024'') 0x10000
      \<lparr>ms_info = zero_info, ms_cap = 0, ms_base = 0, ms_allocator = None, ms_device = None\<rparr> = Inr (True, s') \<and>
    unat (ms_cap s') = 2 ^ 64 - 3072"
  using small_capacity_wraps [where capacity = 1024 and before = "''node1: 1.1.1.1:1'' @ [CHR 0x0A]" and r = "[]" and region = "0x10000"
      and s = "\<lparr>ms_info = zero_info, ms_cap = 0, ms_base = 0, ms_allocator = None, ms_device = None\<rparr>"]
  by (auto simp: MEMORY_PAGE_SIZE_def dec_string.simps char_of_def bit_0)

end
