(* ===== verification/KvString.thy ===== *)
theory KvString
  imports Prelude
begin

text \<open>
  \<open>DiStoreString\<close> of \<open>components/kv/kv.hpp\<close>: a string with a two-byte header, one bit that says
  whether it is valid and 15 bits of length, and its bytes behind it.  The rest of the program
  holds its keys in \<open>std::string\<close>; this type is offered for keys and values in memory.  Its
  comparisons are related to the order of the texts, bytes compared as unsigned numbers.
\<close>

subsection \<open>Representation\<close>

text \<open>\<open>content\<close> is the memory of the chunk behind the header.\<close>

record distore_string =
  ds_valid :: bool
  ds_length :: "15 word"
  ds_content :: bytes

definition sizeof_header :: nat where "sizeof_header = 2"

definition make_string :: "bytes \<Rightarrow> bytes \<Rightarrow> nat \<Rightarrow> distore_string res" where
  "make_string chunk bs sz =
     res_bind (memcpy chunk bs sz) (\<lambda>c. Inr \<lparr>ds_valid = True, ds_length = of_nat sz, ds_content = c\<rparr>)"

definition ds_size :: "distore_string \<Rightarrow> nat" where
  "ds_size s = unat (ds_length s)"

definition object_size :: "distore_string \<Rightarrow> nat" where
  "object_size s = ds_size s + sizeof_header"

definition ds_to_string :: "distore_string \<Rightarrow> bytes res" where
  "ds_to_string s = (if ds_size s \<le> length (ds_content s) then Inr (take (ds_size s) (ds_content s)) else Inl OutOfBounds)"

definition validate :: "distore_string \<Rightarrow> distore_string" where
  "validate s = s\<lparr>ds_valid := True\<rparr>"

definition invalidate :: "distore_string \<Rightarrow> distore_string" where
  "invalidate s = s\<lparr>ds_valid := False\<rparr>"

definition inplace_update :: "bytes \<Rightarrow> nat \<Rightarrow> distore_string \<Rightarrow> (bool \<times> distore_string) res" where
  "inplace_update bs sz s =
     (if ds_size s < sz then Inr (False, s)
      else res_bind (memcpy (ds_content s) bs sz) (\<lambda>c. Inr (True, s\<lparr>ds_length := of_nat sz, ds_content := c\<rparr>)))"

subsection \<open>Comparisons\<close>

text \<open>\<open>strncmp\<close> of the C library: it compares at most \<open>n\<close> bytes and stops behind a common null byte;
  of its result only the sign is specified.\<close>

fun strncmp :: "bytes \<Rightarrow> bytes \<Rightarrow> nat \<Rightarrow> int res" where
  "strncmp a b 0 = Inr 0"
| "strncmp [] b (Suc n) = Inl OutOfBounds"
| "strncmp (x # a) [] (Suc n) = Inl OutOfBounds"
| "strncmp (x # a) (y # b) (Suc n) =
     (if x < y then Inr (- 1) else if y < x then Inr 1 else if x = 0 then Inr 0 else strncmp a b n)"

text \<open>The difference of the lengths is taken in \<open>size_t\<close> and returned as an \<open>int\<close>.\<close>

definition ds_compare :: "distore_string \<Rightarrow> bytes \<Rightarrow> nat \<Rightarrow> int res" where
  "ds_compare s rhs r_sz =
     res_bind (strncmp (ds_content s) rhs (min (ds_size s) r_sz)) (\<lambda>ret.
     Inr (if ret \<noteq> 0 then ret else sint (ucast ((of_nat (ds_size s) :: u64) - of_nat r_sz) :: u32)))"

fun eq_from :: "nat \<Rightarrow> nat \<Rightarrow> bytes \<Rightarrow> bytes \<Rightarrow> bool res" where
  "eq_from i 0 a b = Inr True"
| "eq_from i (Suc k) a b =
     res_bind (rd a i) (\<lambda>x. res_bind (rd b i) (\<lambda>y. if x \<noteq> y then Inr False else eq_from (Suc i) k a b))"

definition ds_eq :: "distore_string \<Rightarrow> distore_string \<Rightarrow> bool res" where
  "ds_eq s t =
     (if ds_length s \<noteq> ds_length t then Inr False
      else eq_from 0 (ds_size s) (ds_content s) (ds_content t))"

definition ds_neq :: "distore_string \<Rightarrow> distore_string \<Rightarrow> bool res" where
  "ds_neq s t = res_bind (ds_eq s t) (\<lambda>b. Inr (\<not> b))"

text \<open>The loops of the four orderings; \<open>None\<close> when they end without having returned.\<close>

fun less_from :: "nat \<Rightarrow> nat \<Rightarrow> bytes \<Rightarrow> bytes \<Rightarrow> bool option res" where
  "less_from i 0 a b = Inr None"
| "less_from i (Suc k) a b =
     res_bind (rd a i) (\<lambda>x. res_bind (rd b i) (\<lambda>y.
     if y < x then Inr (Some False) else if x < y then Inr (Some True) else less_from (Suc i) k a b))"

fun greater_from :: "nat \<Rightarrow> nat \<Rightarrow> bytes \<Rightarrow> bytes \<Rightarrow> bool option res" where
  "greater_from i 0 a b = Inr None"
| "greater_from i (Suc k) a b =
     res_bind (rd a i) (\<lambda>x. res_bind (rd b i) (\<lambda>y.
     if y < x then Inr (Some True) else if x < y then Inr (Some False) else greater_from (Suc i) k a b))"

fun less_eq_from :: "nat \<Rightarrow> nat \<Rightarrow> bytes \<Rightarrow> bytes \<Rightarrow> bool option res" where
  "less_eq_from i 0 a b = Inr None"
| "less_eq_from i (Suc k) a b =
     res_bind (rd a i) (\<lambda>x. res_bind (rd b i) (\<lambda>y.
     if x < y then Inr (Some True) else if y < x then Inr (Some False) else less_eq_from (Suc i) k a b))"

fun greater_eq_from :: "nat \<Rightarrow> nat \<Rightarrow> bytes \<Rightarrow> bytes \<Rightarrow> bool option res" where
  "greater_eq_from i 0 a b = Inr None"
| "greater_eq_from i (Suc k) a b =
     res_bind (rd a i) (\<lambda>x. res_bind (rd b i) (\<lambda>y.
     if y < x then Inr (Some True) else if x < y then Inr (Some False) else greater_eq_from (Suc i) k a b))"

definition ds_less :: "distore_string \<Rightarrow> distore_string \<Rightarrow> bool res" where
  "ds_less s t =
     res_bind (less_from 0 (min (ds_size s) (ds_size t)) (ds_content s) (ds_content t)) (\<lambda>r.
     Inr (case r of Some b \<Rightarrow> b | None \<Rightarrow> ds_length s < ds_length t))"

definition ds_greater :: "distore_string \<Rightarrow> distore_string \<Rightarrow> bool res" where
  "ds_greater s t =
     res_bind (greater_from 0 (min (ds_size s) (ds_size t)) (ds_content s) (ds_content t)) (\<lambda>r.
     Inr (case r of Some b \<Rightarrow> b | None \<Rightarrow> ds_length t < ds_length s))"

definition ds_less_eq :: "distore_string \<Rightarrow> distore_string \<Rightarrow> bool res" where
  "ds_less_eq s t =
     res_bind (less_eq_from 0 (min (ds_size s) (ds_size t)) (ds_content s) (ds_content t)) (\<lambda>r.
     Inr (case r of Some b \<Rightarrow> b | None \<Rightarrow> ds_length s \<le> ds_length t))"

definition ds_greater_eq :: "distore_string \<Rightarrow> distore_string \<Rightarrow> bool res" where
  "ds_greater_eq s t =
     res_bind (greater_eq_from 0 (min (ds_size s) (ds_size t)) (ds_content s) (ds_content t)) (\<lambda>r.
     Inr (case r of Some b \<Rightarrow> b | None \<Rightarrow> ds_length t \<le> ds_length s))"

subsection \<open>The first difference of two texts\<close>

text \<open>Whether the first text is smaller at the first place where they differ.\<close>

fun first_difference :: "bytes \<Rightarrow> bytes \<Rightarrow> bool option" where
  "first_difference (x # a) (y # b) = (if x < y then Some True else if y < x then Some False else first_difference a b)"
| "first_difference a b = None"

lemma first_difference_take:
  "first_difference (take (min (length a) (length b)) a) (take (min (length a) (length b)) b) = first_difference a b"
  by (induction a b rule: first_difference.induct) auto

lemma Nil_less: "([] :: bytes) < b \<longleftrightarrow> b \<noteq> []"
  by (cases b) simp_all

lemma first_difference_less:
  "a < b \<longleftrightarrow> (case first_difference a b of Some r \<Rightarrow> r | None \<Rightarrow> length a < length b)"
  by (induction a b rule: first_difference.induct) (auto simp: Nil_less split: option.splits)

lemma first_difference_eq: "a = b \<longleftrightarrow> first_difference a b = None \<and> length a = length b"
  by (induction a b rule: first_difference.induct) auto

lemma first_difference_swap: "first_difference b a = map_option Not (first_difference a b)"
  by (induction a b rule: first_difference.induct) auto

lemma first_difference_None: "first_difference a b = None \<longleftrightarrow> take (length b) a = take (length a) b"
  by (induction a b rule: first_difference.induct) auto

text \<open>The loops from a place on.\<close>

lemma loops_eq:
  assumes "i + k \<le> length a" "i + k \<le> length b"
  shows "less_from i k a b = Inr (first_difference (take k (drop i a)) (take k (drop i b)))"
    and "greater_from i k a b = Inr (map_option Not (first_difference (take k (drop i a)) (take k (drop i b))))"
    and "less_eq_from i k a b = Inr (first_difference (take k (drop i a)) (take k (drop i b)))"
    and "greater_eq_from i k a b = Inr (map_option Not (first_difference (take k (drop i a)) (take k (drop i b))))"
    and "eq_from i k a b = Inr (take k (drop i a) = take k (drop i b))"
  using assms
  by (induction k arbitrary: i) (auto simp: take_Suc_conv_app_nth Cons_nth_drop_Suc [symmetric])

text \<open>A string whose length lies within its chunk, and its text.\<close>

definition ds_ok :: "distore_string \<Rightarrow> bool" where
  "ds_ok s \<longleftrightarrow> ds_size s \<le> length (ds_content s)"

definition ds_text :: "distore_string \<Rightarrow> bytes" where
  "ds_text s = take (ds_size s) (ds_content s)"

lemma ds_text_length [simp]: "ds_ok s \<Longrightarrow> length (ds_text s) = ds_size s"
  by (simp add: ds_ok_def ds_text_def)

lemma ds_length_size: "ds_length s < ds_length t \<longleftrightarrow> ds_size s < ds_size t"
  "ds_length s \<le> ds_length t \<longleftrightarrow> ds_size s \<le> ds_size t" "ds_length s = ds_length t \<longleftrightarrow> ds_size s = ds_size t"
  by (simp_all add: ds_size_def word_less_nat_alt word_le_nat_alt word_unat_eq_iff)

lemma ds_difference:
  assumes "ds_ok s" "ds_ok t"
  shows "first_difference (take (min (ds_size s) (ds_size t)) (ds_content s)) (take (min (ds_size s) (ds_size t)) (ds_content t)) =
    first_difference (ds_text s) (ds_text t)"
  using assms first_difference_take [of "ds_text s" "ds_text t"] by (simp add: ds_text_def ds_ok_def min.commute)

subsection \<open>Properties\<close>

lemma ds_loops:
  assumes "ds_ok s" "ds_ok t"
  defines "k \<equiv> min (ds_size s) (ds_size t)"
  shows "less_from 0 k (ds_content s) (ds_content t) = Inr (first_difference (ds_text s) (ds_text t))"
    and "greater_from 0 k (ds_content s) (ds_content t) = Inr (map_option Not (first_difference (ds_text s) (ds_text t)))"
    and "less_eq_from 0 k (ds_content s) (ds_content t) = Inr (first_difference (ds_text s) (ds_text t))"
    and "greater_eq_from 0 k (ds_content s) (ds_content t) = Inr (map_option Not (first_difference (ds_text s) (ds_text t)))"
  using assms(1,2) ds_difference [OF assms(1,2)] by (simp_all add: k_def loops_eq ds_ok_def)

lemma ds_eq_text: "ds_ok s \<Longrightarrow> ds_ok t \<Longrightarrow> ds_eq s t = Inr (ds_text s = ds_text t)"
  using first_difference_eq [of "ds_text s" "ds_text t"]
  by (cases "ds_size s = ds_size t") (auto simp: ds_eq_def ds_length_size loops_eq, simp_all add: ds_ok_def ds_text_def loops_eq)

text \<open>The six comparison operators, each with a loop of its own, are those of the texts as
  \<open>std::string\<close> has them, bytes compared as unsigned numbers and a proper prefix smaller, and never
  read outside the two chunks.\<close>

theorem string_order_of_texts:
  assumes "ds_ok s" "ds_ok t"
  shows "ds_eq s t = Inr (ds_text s = ds_text t) \<and> ds_neq s t = Inr (ds_text s \<noteq> ds_text t) \<and>
    ds_less s t = Inr (ds_text s < ds_text t) \<and> ds_greater s t = Inr (ds_text t < ds_text s) \<and>
    ds_less_eq s t = Inr (ds_text s \<le> ds_text t) \<and> ds_greater_eq s t = Inr (ds_text t \<le> ds_text s)"
proof -
  note l = first_difference_less [of "ds_text s" "ds_text t"] first_difference_less [of "ds_text t" "ds_text s"]
    first_difference_swap [of "ds_text t" "ds_text s"]
  have "ds_less s t = Inr (ds_text s < ds_text t)" "ds_greater s t = Inr (ds_text t < ds_text s)"
    using l assms by (simp_all add: ds_less_def ds_greater_def ds_loops ds_length_size split: option.split)
  moreover have "ds_less_eq s t = Inr (ds_text s \<le> ds_text t)" "ds_greater_eq s t = Inr (ds_text t \<le> ds_text s)"
    unfolding not_less [symmetric] using l assms
    by (auto simp: ds_less_eq_def ds_greater_eq_def ds_loops ds_length_size split: option.split)
  ultimately show ?thesis using assms by (simp add: ds_neq_def ds_eq_text)
qed

lemma string_order_of_texts_witness:
  "ds_less \<lparr>ds_valid = True, ds_length = 2, ds_content = [97, 98, 99]\<rparr> \<lparr>ds_valid = True, ds_length = 3, ds_content = [97, 98, 99]\<rparr> = Inr True \<and>
   ds_greater_eq \<lparr>ds_valid = True, ds_length = 1, ds_content = [98]\<rparr> \<lparr>ds_valid = True, ds_length = 1, ds_content = [97]\<rparr> = Inr True"
proof -
  have "([97, 98] :: bytes) < [97, 98, 99]" "([97] :: bytes) \<le> [98]" by (simp_all add: Nil_less)
  then show ?thesis
    using string_order_of_texts [of "\<lparr>ds_valid = True, ds_length = 2, ds_content = [97, 98, 99]\<rparr>" "\<lparr>ds_valid = True, ds_length = 3, ds_content = [97, 98, 99]\<rparr>"]
      string_order_of_texts [of "\<lparr>ds_valid = True, ds_length = 1, ds_content = [98]\<rparr>" "\<lparr>ds_valid = True, ds_length = 1, ds_content = [97]\<rparr>"]
    by (simp add: ds_ok_def ds_size_def ds_text_def)
qed

text \<open>\<open>strncmp\<close> on texts.\<close>

lemma strncmp_texts:
  assumes "n \<le> length a" "n \<le> length b" "0 \<notin> set (take n a)"
  shows "strncmp a b n = Inr (case first_difference (take n a) (take n b) of None \<Rightarrow> 0 | Some b \<Rightarrow> if b then - 1 else 1)"
  using assms by (induction a b n rule: strncmp.induct) auto

lemma strncmp_nul:
  "n \<le> length a \<Longrightarrow> n \<le> length b \<Longrightarrow> strncmp (p @ 0 # a) (p @ 0 # b) (length p + Suc n) = Inr 0"
  by (induction p) auto

lemma make_string_eq:
  assumes "sz \<le> length chunk" "sz \<le> length bs"
  shows "make_string chunk bs sz = Inr \<lparr>ds_valid = True, ds_length = of_nat sz, ds_content = take sz bs @ drop sz chunk\<rparr>"
  using assms by (simp add: make_string_def memcpy_def)

text \<open>\<open>compare\<close> has the sign of the comparison of the texts, unless a null byte hides the rest.\<close>

lemma ds_compare_sign:
  assumes "ds_ok s" "r_sz \<le> length rhs" "r_sz < 2 ^ 31" "0 \<notin> set (ds_text s)"
  shows "\<exists>r. ds_compare s rhs r_sz = Inr r \<and> (r < 0 \<longleftrightarrow> ds_text s < take r_sz rhs) \<and> (r = 0 \<longleftrightarrow> ds_text s = take r_sz rhs)"
proof -
  let ?n = "min (ds_size s) r_sz"
  have len: "length (ds_text s) = ds_size s" "length (take r_sz rhs) = r_sz" using assms(1,2) by simp_all
  have "ds_size s < 2 ^ 15" unfolding ds_size_def using unsigned_less [of "ds_length s"] by simp
  then have "- (2 ^ 31) \<le> int (ds_size s) - int r_sz" "int (ds_size s) - int r_sz < 2 ^ 31" using assms(3) by simp_all
  moreover have "ucast (of_int x :: u64) = (of_int x :: u32)" for x by transfer simp
  moreover have "(of_nat (ds_size s) :: u64) - of_nat r_sz = of_int (int (ds_size s) - int r_sz)" by simp
  ultimately have d: "sint (ucast ((of_nat (ds_size s) :: u64) - of_nat r_sz) :: u32) = int (ds_size s) - int r_sz"
    by (simp add: signed_take_bit_int_eq_self signed_of_int del: of_int_diff)
  have "0 \<notin> set (take ?n (ds_content s))"
    using assms(4) set_take_subset_set_take [of ?n "ds_size s" "ds_content s"] by (auto simp: ds_text_def)
  then have "strncmp (ds_content s) rhs ?n =
      Inr (case first_difference (ds_text s) (take r_sz rhs) of None \<Rightarrow> 0 | Some b \<Rightarrow> if b then - 1 else 1)"
    using assms(1,2) first_difference_take [of "ds_text s" "take r_sz rhs"]
    by (subst strncmp_texts) (simp_all add: ds_ok_def ds_text_def min.commute)
  moreover note first_difference_less [of "ds_text s" "take r_sz rhs"] first_difference_eq [of "ds_text s" "take r_sz rhs"]
  ultimately show ?thesis using len
    by (cases "first_difference (ds_text s) (take r_sz rhs)") (auto simp: ds_compare_def d split: if_splits)
qed

text \<open>A string made from bytes gives them back as long as there are fewer than \<open>2 ^ 15\<close> of them;
  of more, only as many as the length modulo \<open>2 ^ 15\<close> come back.  The text can then be replaced
  in place by one that is not longer, and only by such a one.\<close>

theorem make_string_gives_back:
  assumes "sz \<le> length chunk" "sz \<le> length bs" "n \<le> length cs"
  shows "\<exists>s. make_string chunk bs sz = Inr s \<and> ds_ok s \<and> ds_valid s \<and> ds_to_string s = Inr (take (sz mod 2 ^ 15) bs) \<and>
    (if sz mod 2 ^ 15 < n then inplace_update cs n s = Inr (False, s)
     else \<exists>t. inplace_update cs n s = Inr (True, t) \<and> ds_ok t \<and> ds_to_string t = Inr (take n cs))"
proof -
  let ?s = "\<lparr>ds_valid = True, ds_length = of_nat sz, ds_content = take sz bs @ drop sz chunk\<rparr>"
  have z: "ds_size ?s = sz mod 2 ^ 15" by (simp add: ds_size_def unat_of_nat)
  have m: "sz mod 2 ^ 15 \<le> sz" by simp
  have "inplace_update cs n ?s = Inr (True, ?s\<lparr>ds_length := of_nat n, ds_content := take n cs @ drop n (ds_content ?s)\<rparr>)"
    if "n \<le> sz mod 2 ^ 15" using that m assms z by (simp add: inplace_update_def memcpy_def)
  moreover have "unat (of_nat n :: 15 word) = n" if "n \<le> sz mod 2 ^ 15"
    using that mod_less_divisor [of "2 ^ 15" sz] by (simp add: unat_of_nat)
  ultimately show ?thesis
    using z m assms by (intro exI [of _ ?s]) (auto simp: make_string_eq ds_ok_def ds_to_string_def inplace_update_def ds_size_def)
qed

lemma make_string_gives_back_witness:
  "\<exists>s. make_string [0, 0, 0, 0] [1, 2, 3] 3 = Inr s \<and> ds_to_string s = Inr [1, 2, 3]"
  using make_string_gives_back [of 3 "[0, 0, 0, 0]" "[1, 2, 3]" 0 "[]"] by auto

end
