(* ===== verification/Handover.thy ===== *)
theory Handover
  imports ComputeProofs
begin

text \<open>
  \<open>put10\<close> and the remote half of \<open>get\<close> of \<open>components/node/compute_node/compute_node.cpp\<close> as many threads
  run them at once, on the search layer, the concurrency contexts and the remote memory they share.  \<open>ComputeOps\<close> follows
  one thread through the whole handler; here each access to shared memory (a compare-exchange, a
  store to a context, one \<open>try_pop\<close>, one read or write of remote memory) is a step of its own, so
  that every interleaving of threads is a sequence of steps.  The program counter of a thread names
  the statement it is at and carries its local variables.  A thread that finds a node of another
  type than \<open>LinkedNode10\<close> goes \<open>Elsewhere\<close>, before it has taken anything.  Transfers succeed;
  the places the allocator hands out
  are a list, and a thread that finds it empty waits (\<open>SegmentService\<close> shows that asking for memory
  does not return then); the checksum is a parameter.
\<close>

subsection \<open>Shared state and threads\<close>

datatype pc =
    Idle
  | Dispatch nat bytes bytes
  | Drain nat bytes bytes
  | Enter nat bytes bytes
  | CasRight nat bytes bytes "nat option"
  | CasLeft nat bytes bytes "nat option"
  | Undo nat bytes bytes
  | GiveBack nat bytes bytes
  | Open nat bytes bytes "nat option"
  | Fetch nat bytes bytes "nat option"
  | Shut nat bytes bytes
  | Own nat bytes bytes
  | Help nat
  | Size nat
  | GrowOwn nat bytes bytes
  | Rest nat
  | Grow nat
  | LeaveRight nat bool
  | LeaveLeft nat bool
  | LeaveDepth nat bool
  | Spin nat nat bytes bytes
  | Sub nat nat bytes bytes
  | Queue nat nat bytes bytes
  | Await nat nat bytes bytes
  | GetDrain nat bytes
  | GetRead nat bytes
  | Got "bytes option"
  | Elsewhere
  | Thrown
  | Done bool

record hs =
  nodes :: skiplist
  ctxs :: "nat \<rightharpoonup> conc_ctx"
  told :: "nat \<rightharpoonup> request"
  fresh :: nat
  remote :: "remote_ptr \<rightharpoonup> linked_node"
  spare :: "remote_ptr list"
  bufs :: "nat \<Rightarrow> linked_node \<times> linked_node"
  pcs :: "nat \<Rightarrow> pc"

definition go :: "nat \<Rightarrow> pc \<Rightarrow> hs \<Rightarrow> hs" where
  "go t p s = s\<lparr>pcs := (pcs s)(t := p)\<rparr>"

definition shared_ctx :: "nat \<Rightarrow> hs \<Rightarrow> conc_ctx res" where
  "shared_ctx c s = (case ctxs s c of None \<Rightarrow> Inl NullDeref | Some x \<Rightarrow> Inr x)"

definition set_ctx :: "nat \<Rightarrow> conc_ctx \<Rightarrow> hs \<Rightarrow> hs" where
  "set_ctx c x s = s\<lparr>ctxs := (ctxs s)(c \<mapsto> x)\<rparr>"

definition load_remote :: "remote_ptr \<Rightarrow> hs \<Rightarrow> linked_node res" where
  "load_remote p s = (case remote s p of None \<Rightarrow> Inl NullDeref | Some n \<Rightarrow> Inr n)"

text \<open>A transfer of \<open>sz\<close> bytes of a node leaves the rest of what is at its destination.\<close>

definition overlay :: "nat \<Rightarrow> linked_node \<Rightarrow> linked_node \<Rightarrow> linked_node" where
  "overlay sz new old = decode_node (take sz (encode_node new) @ drop sz (encode_node old))"

definition store_remote :: "remote_ptr \<Rightarrow> nat \<Rightarrow> linked_node \<Rightarrow> hs \<Rightarrow> hs res" where
  "store_remote p sz new s =
     res_bind (load_remote p s) (\<lambda>old. Inr (s\<lparr>remote := (remote s)(p \<mapsto> overlay sz new old)\<rparr>))"

text \<open>Storing to the context pointer of a node.\<close>

definition store_owner :: "nat option \<Rightarrow> nat option \<Rightarrow> hs \<Rightarrow> hs res" where
  "store_owner p c s = res_bind (modify (nodes s) p (\<lambda>n. Inr (n\<lparr>ctx := c\<rparr>))) (\<lambda>sl. Inr (s\<lparr>nodes := sl\<rparr>))"

text \<open>\<open>compare_exchange_strong\<close> from null: whether it succeeded, and what it found.\<close>

definition cas_owner :: "nat option \<Rightarrow> nat \<Rightarrow> hs \<Rightarrow> (bool \<times> nat option \<times> hs) res" where
  "cas_owner p t s =
     res_bind (deref (nodes s) p) (\<lambda>n.
     if ctx n = None then res_bind (store_owner p (Some t) s) (\<lambda>s'. Inr (True, None, s'))
     else Inr (False, ctx n, s))"

definition tell :: "request \<Rightarrow> hs \<Rightarrow> hs" where
  "tell r s = s\<lparr>told := (told s)(rid r \<mapsto> r)\<rparr>"

subsection \<open>The winner\<close>

definition step_dispatch :: "nat \<Rightarrow> nat \<Rightarrow> bytes \<Rightarrow> bytes \<Rightarrow> hs \<Rightarrow> hs res" where
  "step_dispatch t d k v s =
     res_bind (deref (nodes s) (Some d)) (\<lambda>n.
     Inr (go t (if enumerator (sn_type n) = Some Type10 then Drain d k v else Elsewhere) s))"

text \<open>One turn of the loop of \<open>drain_pending\<close>, then the statement after it.\<close>

definition drain_turn :: "nat \<Rightarrow> pc \<Rightarrow> hs \<Rightarrow> hs res" where
  "drain_turn t after s =
     res_bind (shared_ctx t s) (\<lambda>c.
     case requests c of
       [] \<Rightarrow> Inr (go t after s)
     | r # rs \<Rightarrow> Inr (tell (r\<lparr>succeed := False, retry := True, is_done := True\<rparr>) (set_ctx t (c\<lparr>requests := rs\<rparr>) s)))"

definition step_drain :: "nat \<Rightarrow> nat \<Rightarrow> bytes \<Rightarrow> bytes \<Rightarrow> hs \<Rightarrow> hs res" where
  "step_drain t d k v s = drain_turn t (Enter d k v) s"

definition step_enter :: "nat \<Rightarrow> nat \<Rightarrow> bytes \<Rightarrow> bytes \<Rightarrow> hs \<Rightarrow> hs res" where
  "step_enter t d k v s =
     res_bind (shared_ctx t s) (\<lambda>c.
     res_bind (deref (nodes s) (Some d)) (\<lambda>n.
     Inr (go t (CasRight d k v (backward n)) (set_ctx t (c\<lparr>max_depth := - 1, ctype := Insert\<rparr>) s))))"

text \<open>The node itself: a loser goes on to the context it found, all of them of type \<open>Insert\<close>
  while only insertions run.\<close>

definition step_cas_right :: "nat \<Rightarrow> nat \<Rightarrow> bytes \<Rightarrow> bytes \<Rightarrow> nat option \<Rightarrow> hs \<Rightarrow> hs res" where
  "step_cas_right t d k v l s =
     res_bind (cas_owner (Some d) t s) (\<lambda>(won, expect, s').
     if won then Inr (go t (CasLeft d k v l) s')
     else case expect of
         None \<Rightarrow> Inr (go t (Dispatch d k v) s')
       | Some c \<Rightarrow> res_bind (shared_ctx c s') (\<lambda>x.
           Inr (go t (if ctype x = Insert then Spin c d k v else Dispatch d k v) s')))"

text \<open>Its predecessor: losing it gives the node back and tries again.\<close>

definition step_cas_left :: "nat \<Rightarrow> nat \<Rightarrow> bytes \<Rightarrow> bytes \<Rightarrow> nat option \<Rightarrow> hs \<Rightarrow> hs res" where
  "step_cas_left t d k v l s =
     res_bind (cas_owner l t s) (\<lambda>(won, _, s').
     Inr (go t (if won then Open d k v l else Undo d k v) s'))"

definition set_depth :: "nat \<Rightarrow> int \<Rightarrow> hs \<Rightarrow> hs res" where
  "set_depth t i s = res_bind (shared_ctx t s) (\<lambda>c. Inr (set_ctx t (c\<lparr>max_depth := i\<rparr>) s))"

definition step_undo :: "nat \<Rightarrow> nat \<Rightarrow> bytes \<Rightarrow> bytes \<Rightarrow> hs \<Rightarrow> hs res" where
  "step_undo t d k v s = res_bind (set_depth t 0 s) (\<lambda>s'. Inr (go t (GiveBack d k v) s'))"

definition step_give_back :: "nat \<Rightarrow> nat \<Rightarrow> bytes \<Rightarrow> bytes \<Rightarrow> hs \<Rightarrow> hs res" where
  "step_give_back t d k v s = res_bind (store_owner (Some d) None s) (\<lambda>s'. Inr (go t (Dispatch d k v) s'))"

definition step_open :: "nat \<Rightarrow> nat \<Rightarrow> bytes \<Rightarrow> bytes \<Rightarrow> nat option \<Rightarrow> hs \<Rightarrow> hs res" where
  "step_open t d k v l s = res_bind (set_depth t 4 s) (\<lambda>s'. Inr (go t (Fetch d k v l) s'))"

text \<open>Both nodes come into the buffer of the thread.\<close>

definition step_fetch :: "nat \<Rightarrow> nat \<Rightarrow> bytes \<Rightarrow> bytes \<Rightarrow> nat option \<Rightarrow> hs \<Rightarrow> hs res" where
  "step_fetch t d k v l s =
     res_bind (deref (nodes s) l) (\<lambda>nl.
     res_bind (deref (nodes s) (Some d)) (\<lambda>nr.
     res_bind (load_remote (data_node nl) s) (\<lambda>p.
     res_bind (load_remote (data_node nr) s) (\<lambda>r.
     (let (p0, r0) = bufs s t in
      Inr (go t (Shut d k v) (s\<lparr>bufs := (bufs s)(t :=
             (overlay (sizeof_node (sn_type nl)) p p0, overlay (sizeof_node (sn_type nr)) r r0))\<rparr>)))))))"

definition step_shut :: "nat \<Rightarrow> nat \<Rightarrow> bytes \<Rightarrow> bytes \<Rightarrow> hs \<Rightarrow> hs res" where
  "step_shut t d k v s = res_bind (set_depth t (- 1) s) (\<lambda>s'. Inr (go t (Own d k v) s'))"

definition set_bufs :: "nat \<Rightarrow> linked_node \<Rightarrow> linked_node \<Rightarrow> hs \<Rightarrow> hs" where
  "set_bufs t p r s = s\<lparr>bufs := (bufs s)(t := (p, r))\<rparr>"

definition step_own :: "nat \<Rightarrow> nat \<Rightarrow> bytes \<Rightarrow> bytes \<Rightarrow> hs \<Rightarrow> hs res" where
  "step_own t d k v s =
     (let (p, r) = bufs s t in
      res_bind (store_kv 10 k v r) (\<lambda>(ok, r').
      Inr (if ok then go t (Help d) (set_bufs t p r' s) else go t (GrowOwn d k v) s)))"

text \<open>One turn of the loop of \<open>help_others\<close>.\<close>

definition step_help :: "nat \<Rightarrow> nat \<Rightarrow> hs \<Rightarrow> hs res" where
  "step_help t d s =
     res_bind (shared_ctx t s) (\<lambda>c.
     res_bind (deref (nodes s) (Some d)) (\<lambda>n.
     (let (p, r) = bufs s t in
      case requests c of
        [] \<Rightarrow> Inr (go t (Size d) s)
      | q # qs \<Rightarrow>
          if tag q < anchor n
          then res_bind (help_pred p (tag q) (content q)) (\<lambda>(ok, p').
               Inr (tell (q\<lparr>succeed := ok, retry := \<not> ok, is_done := True\<rparr>)
                 (set_ctx t (c\<lparr>requests := qs\<rparr>) (set_bufs t p' r s))))
          else res_bind (store_kv 10 (tag q) (content q) r) (\<lambda>(ok, r').
               Inr (if ok
                    then tell (q\<lparr>succeed := ok, retry := False, is_done := True\<rparr>)
                           (set_ctx t (c\<lparr>requests := qs\<rparr>) (set_bufs t p r' s))
                    else go t (Size d) (set_ctx t (c\<lparr>requests := qs @ [q]\<rparr>) (set_bufs t p r' s)))))))"

text \<open>Only the node is written back, not its predecessor.\<close>

definition step_size :: "nat \<Rightarrow> nat \<Rightarrow> hs \<Rightarrow> hs res" where
  "step_size t d s =
     res_bind (shared_ctx t s) (\<lambda>c.
     res_bind (deref (nodes s) (Some d)) (\<lambda>n.
     if requests c = []
     then res_bind (store_remote (data_node n) (sizeof_linked_node 16 10) (snd (bufs s t)) s) (\<lambda>s'.
          Inr (go t (LeaveRight d True) s'))
     else Inr (go t (Rest d) s)))"

subsection \<open>A node that has to grow\<close>

definition step_grow_own :: "nat \<Rightarrow> nat \<Rightarrow> bytes \<Rightarrow> bytes \<Rightarrow> hs \<Rightarrow> hs res" where
  "step_grow_own t d k v s =
     (let (p, r) = bufs s t in
      res_bind (store_kv 16 k v r) (\<lambda>(_, r'). Inr (go t (Rest d) (set_bufs t p r' s))))"

definition step_rest :: "nat \<Rightarrow> nat \<Rightarrow> hs \<Rightarrow> hs res" where
  "step_rest t d s =
     res_bind (shared_ctx t s) (\<lambda>c.
     res_bind (deref (nodes s) (Some d)) (\<lambda>n.
     (let (p, r) = bufs s t in
      case requests c of
        [] \<Rightarrow> Inr (go t (Grow d) s)
      | q # qs \<Rightarrow>
          res_bind (if anchor n \<le> tag q
                    then res_bind (store_kv 16 (tag q) (content q) r) (\<lambda>(ok, r'). Inr (ok, p, r'))
                    else res_bind (help_pred p (tag q) (content q)) (\<lambda>(ok, p'). Inr (ok, p', r)))
            (\<lambda>(ok, p', r').
          Inr (tell (q\<lparr>succeed := ok, retry := \<not> ok, is_done := True\<rparr>)
                 (set_ctx t (c\<lparr>requests := qs\<rparr>) (set_bufs t p' r' s)))))))"

text \<open>The node moves to a new place; its predecessor is written back with the new link.\<close>

definition step_grow :: "(bytes \<Rightarrow> u16) \<Rightarrow> nat \<Rightarrow> nat \<Rightarrow> hs \<Rightarrow> hs res" where
  "step_grow crcf t d s =
     (let (p, r) = bufs s t in
      res_bind (morph_node r) (\<lambda>ty.
      case spare s of
        [] \<Rightarrow> Inr s
      | a # as \<Rightarrow>
          res_bind (deref (nodes s) (Some d)) (\<lambda>n.
          res_bind (deref (nodes s) (backward n)) (\<lambda>b.
          (let r' = r\<lparr>ntype := ty, crc := crc_validate crcf r ty\<rparr>; p' = p\<lparr>rlink := a\<rparr> in
           res_bind (store_remote (data_node b) (sizeof_node (ntype p)) p' s) (\<lambda>s1.
           res_bind (store_remote a (sizeof_node ty) r' s1) (\<lambda>s2.
           res_bind (modify (nodes s) (Some d) (\<lambda>n. Inr (n\<lparr>data_node := a, sn_type := ty\<rparr>))) (\<lambda>sl.
           Inr (go t (LeaveRight d (a \<noteq> 0)) (set_bufs t p' r' (s2\<lparr>nodes := sl, spare := as\<rparr>)))))))))))"

subsection \<open>Leaving\<close>

definition step_leave_right :: "nat \<Rightarrow> nat \<Rightarrow> bool \<Rightarrow> hs \<Rightarrow> hs res" where
  "step_leave_right t d ret s = res_bind (store_owner (Some d) None s) (\<lambda>s'. Inr (go t (LeaveLeft d ret) s'))"

definition step_leave_left :: "nat \<Rightarrow> nat \<Rightarrow> bool \<Rightarrow> hs \<Rightarrow> hs res" where
  "step_leave_left t d ret s =
     res_bind (deref (nodes s) (Some d)) (\<lambda>n.
     res_bind (store_owner (backward n) None s) (\<lambda>s'. Inr (go t (LeaveDepth d ret) s')))"

definition step_leave_depth :: "nat \<Rightarrow> bool \<Rightarrow> hs \<Rightarrow> hs res" where
  "step_leave_depth t ret s =
     res_bind (set_depth t 4 s) (\<lambda>s'. Inr (go t (if ret then Done True else Thrown) s'))"

subsection \<open>The loser\<close>

definition step_spin :: "nat \<Rightarrow> nat \<Rightarrow> nat \<Rightarrow> bytes \<Rightarrow> bytes \<Rightarrow> hs \<Rightarrow> hs res" where
  "step_spin t c d k v s =
     res_bind (shared_ctx c s) (\<lambda>x. Inr (if max_depth x = - 1 then s else go t (Sub c d k v) s))"

definition step_sub :: "nat \<Rightarrow> nat \<Rightarrow> nat \<Rightarrow> bytes \<Rightarrow> bytes \<Rightarrow> hs \<Rightarrow> hs res" where
  "step_sub t c d k v s =
     res_bind (shared_ctx c s) (\<lambda>x.
     Inr (go t (if 0 < max_depth x then Queue c d k v else Dispatch d k v)
           (set_ctx c (x\<lparr>max_depth := max_depth x - 1\<rparr>) s)))"

definition step_queue :: "nat \<Rightarrow> nat \<Rightarrow> nat \<Rightarrow> bytes \<Rightarrow> bytes \<Rightarrow> hs \<Rightarrow> hs res" where
  "step_queue t c d k v s =
     res_bind (shared_ctx c s) (\<lambda>x.
     Inr (go t (Await (fresh s) d k v)
           (set_ctx c (x\<lparr>requests := requests x @ [new_request (fresh s) k v]\<rparr>) (s\<lparr>fresh := fresh s + 1\<rparr>))))"

definition step_await :: "nat \<Rightarrow> nat \<Rightarrow> nat \<Rightarrow> bytes \<Rightarrow> bytes \<Rightarrow> hs \<Rightarrow> hs res" where
  "step_await t a d k v s =
     Inr (case told s a of None \<Rightarrow> s
          | Some r \<Rightarrow> go t (if retry r then Dispatch d k v else Done (succeed r)) s)"

subsection \<open>The reader\<close>

text \<open>\<open>get\<close> drains its queue too, then reads the whole node into the first half of its buffer and
  starts again unless the checksum fits.\<close>

definition step_get_drain :: "nat \<Rightarrow> nat \<Rightarrow> bytes \<Rightarrow> hs \<Rightarrow> hs res" where
  "step_get_drain t d k s = drain_turn t (GetRead d k) s"

definition step_get_read :: "(bytes \<Rightarrow> u16) \<Rightarrow> nat \<Rightarrow> nat \<Rightarrow> bytes \<Rightarrow> hs \<Rightarrow> hs res" where
  "step_get_read crcf t d k s =
     res_bind (deref (nodes s) (Some d)) (\<lambda>n.
     res_bind (load_remote (data_node n) s) (\<lambda>x.
     (let (p, r) = bufs s t; b = overlay 560 x p; s' = set_bufs t b r s in
      if crc_validate crcf b (sn_type n) \<noteq> crc b then Inr (go t (GetDrain d k) s')
      else res_bind (find_kv k b) (\<lambda>v. Inr (go t (Got v) s')))))"

subsection \<open>One step of a thread, and runs\<close>

fun act :: "(bytes \<Rightarrow> u16) \<Rightarrow> nat \<Rightarrow> pc \<Rightarrow> hs \<Rightarrow> hs res" where
  "act crcf t (Dispatch d k v) s = step_dispatch t d k v s"
| "act crcf t (Drain d k v) s = step_drain t d k v s"
| "act crcf t (Enter d k v) s = step_enter t d k v s"
| "act crcf t (CasRight d k v l) s = step_cas_right t d k v l s"
| "act crcf t (CasLeft d k v l) s = step_cas_left t d k v l s"
| "act crcf t (Undo d k v) s = step_undo t d k v s"
| "act crcf t (GiveBack d k v) s = step_give_back t d k v s"
| "act crcf t (Open d k v l) s = step_open t d k v l s"
| "act crcf t (Fetch d k v l) s = step_fetch t d k v l s"
| "act crcf t (Shut d k v) s = step_shut t d k v s"
| "act crcf t (Own d k v) s = step_own t d k v s"
| "act crcf t (Help d) s = step_help t d s"
| "act crcf t (Size d) s = step_size t d s"
| "act crcf t (GrowOwn d k v) s = step_grow_own t d k v s"
| "act crcf t (Rest d) s = step_rest t d s"
| "act crcf t (Grow d) s = step_grow crcf t d s"
| "act crcf t (LeaveRight d ret) s = step_leave_right t d ret s"
| "act crcf t (LeaveLeft d ret) s = step_leave_left t d ret s"
| "act crcf t (LeaveDepth d ret) s = step_leave_depth t ret s"
| "act crcf t (Spin c d k v) s = step_spin t c d k v s"
| "act crcf t (Sub c d k v) s = step_sub t c d k v s"
| "act crcf t (Queue c d k v) s = step_queue t c d k v s"
| "act crcf t (Await a d k v) s = step_await t a d k v s"
| "act crcf t (GetDrain d k) s = step_get_drain t d k s"
| "act crcf t (GetRead d k) s = step_get_read crcf t d k s"
| "act crcf t _ s = Inr s"

fun at_rest :: "pc \<Rightarrow> bool" where
  "at_rest Idle = True"
| "at_rest (Done b) = True"
| "at_rest (Got x) = True"
| "at_rest _ = False"

text \<open>A thread at rest calls \<open>put_dispatcher\<close> with a key and value of its client, or \<open>get\<close>, whose search
  leads it to a node; any other thread takes its next step.\<close>

inductive step :: "(bytes \<Rightarrow> bytes \<Rightarrow> bool) \<Rightarrow> (bytes \<Rightarrow> u16) \<Rightarrow> hs \<Rightarrow> hs \<Rightarrow> bool"
  for client crcf where
  step_call: "at_rest (pcs s t) \<Longrightarrow> client k v \<Longrightarrow> step client crcf s (go t (Dispatch d k v) s)"
| step_get: "at_rest (pcs s t) \<Longrightarrow> step client crcf s (go t (GetDrain d k) s)"
| step_act: "act crcf t (pcs s t) s = Inr s' \<Longrightarrow> step client crcf s s'"

inductive reach :: "(bytes \<Rightarrow> bytes \<Rightarrow> bool) \<Rightarrow> (bytes \<Rightarrow> u16) \<Rightarrow> hs \<Rightarrow> hs \<Rightarrow> bool"
  for client crcf s0 where
  reach_start: "reach client crcf s0 s0"
| reach_step: "reach client crcf s0 s \<Longrightarrow> step client crcf s s' \<Longrightarrow> reach client crcf s0 s'"

subsection \<open>Who holds what\<close>

definition owner :: "hs \<Rightarrow> nat \<Rightarrow> nat option" where
  "owner s n = (case heap (nodes s) n of None \<Rightarrow> None | Some x \<Rightarrow> ctx x)"

definition behind :: "hs \<Rightarrow> nat \<Rightarrow> nat option" where
  "behind s n = (case heap (nodes s) n of None \<Rightarrow> None | Some x \<Rightarrow> backward x)"

text \<open>The nodes a thread has taken, by the statement it is at.\<close>

fun held :: "(nat \<Rightarrow> nat option) \<Rightarrow> pc \<Rightarrow> nat set" where
  "held bk (CasLeft d k v l) = {d}"
| "held bk (Undo d k v) = {d}"
| "held bk (GiveBack d k v) = {d}"
| "held bk (Open d k v l) = insert d (set_option (bk d))"
| "held bk (Fetch d k v l) = insert d (set_option (bk d))"
| "held bk (Shut d k v) = insert d (set_option (bk d))"
| "held bk (Own d k v) = insert d (set_option (bk d))"
| "held bk (Help d) = insert d (set_option (bk d))"
| "held bk (Size d) = insert d (set_option (bk d))"
| "held bk (GrowOwn d k v) = insert d (set_option (bk d))"
| "held bk (Rest d) = insert d (set_option (bk d))"
| "held bk (Grow d) = insert d (set_option (bk d))"
| "held bk (LeaveRight d b) = insert d (set_option (bk d))"
| "held bk (LeaveLeft d b) = set_option (bk d)"
| "held bk _ = {}"

text \<open>A remembered predecessor is the predecessor, and no thread has both locks on one node.\<close>

fun local_ok :: "(nat \<Rightarrow> nat option) \<Rightarrow> pc \<Rightarrow> bool" where
  "local_ok bk (CasRight d k v l) = (l = bk d)"
| "local_ok bk (CasLeft d k v l) = (l = bk d)"
| "local_ok bk (Open d k v l) = (l = bk d \<and> bk d \<noteq> Some d)"
| "local_ok bk (Fetch d k v l) = (l = bk d \<and> bk d \<noteq> Some d)"
| "local_ok bk (Shut d k v) = (bk d \<noteq> Some d)"
| "local_ok bk (Own d k v) = (bk d \<noteq> Some d)"
| "local_ok bk (Help d) = (bk d \<noteq> Some d)"
| "local_ok bk (Size d) = (bk d \<noteq> Some d)"
| "local_ok bk (GrowOwn d k v) = (bk d \<noteq> Some d)"
| "local_ok bk (Rest d) = (bk d \<noteq> Some d)"
| "local_ok bk (Grow d) = (bk d \<noteq> Some d)"
| "local_ok bk (LeaveRight d b) = (bk d \<noteq> Some d)"
| "local_ok bk _ = True"

definition lock_inv :: "(nat \<Rightarrow> nat option) \<Rightarrow> (nat \<Rightarrow> nat option) \<Rightarrow> (nat \<Rightarrow> pc) \<Rightarrow> bool" where
  "lock_inv own bk ps \<longleftrightarrow> (\<forall>t n. n \<in> held bk (ps t) \<longleftrightarrow> own n = Some t) \<and> (\<forall>t. local_ok bk (ps t))"

text \<open>The three kinds of step: taking a node, giving one up, and everything else.\<close>

lemma lock_inv_keep:
  assumes "lock_inv own bk ps" "held bk p = held bk (ps t)" "local_ok bk p"
  shows "lock_inv own bk (ps(t := p))"
  using assms by (auto simp: lock_inv_def)

lemma lock_inv_take:
  assumes "lock_inv own bk ps" "own n = None" "held bk p = insert n (held bk (ps t))" "local_ok bk p"
  shows "lock_inv (own(n := Some t)) bk (ps(t := p))"
  using assms by (force simp: lock_inv_def)

lemma lock_inv_drop:
  assumes "lock_inv own bk ps" "n \<in> held bk (ps t)" "held bk p = held bk (ps t) - {n}" "local_ok bk p"
  shows "lock_inv (own(n := None)) bk (ps(t := p))"
  using assms by (force simp: lock_inv_def)

named_theorems step_defs \<open>the steps of the handover protocol\<close>

lemmas [step_defs] = step_dispatch_def step_drain_def drain_turn_def step_get_drain_def step_get_read_def step_enter_def step_undo_def step_open_def
  step_fetch_def step_shut_def step_own_def step_help_def step_size_def step_grow_own_def step_rest_def
  step_leave_depth_def step_spin_def step_sub_def step_queue_def step_await_def

lemma view_simps [simp]:
  "owner (go t p s) = owner s" "behind (go t p s) = behind s" "pcs (go t p s) = (pcs s)(t := p)"
  "owner (set_ctx c x s) = owner s" "behind (set_ctx c x s) = behind s" "pcs (set_ctx c x s) = pcs s"
  "owner (set_bufs t a b s) = owner s" "behind (set_bufs t a b s) = behind s" "pcs (set_bufs t a b s) = pcs s"
  "owner (tell r s) = owner s" "behind (tell r s) = behind s" "pcs (tell r s) = pcs s"
  "owner (remote_update f s) = owner s" "behind (remote_update f s) = behind s" "pcs (remote_update f s) = pcs s"
  "owner (bufs_update g s) = owner s" "behind (bufs_update g s) = behind s" "pcs (bufs_update g s) = pcs s"
  "owner (fresh_update h s) = owner s" "behind (fresh_update h s) = behind s" "pcs (fresh_update h s) = pcs s"
  by (simp_all add: go_def set_ctx_def set_bufs_def tell_def owner_def behind_def fun_eq_iff)

lemma deref_some [simp]: "deref sl (Some d) = Inr n \<longleftrightarrow> heap sl d = Some n"
  by (simp add: deref_def split: option.splits)

lemma store_owner_view:
  assumes "store_owner p c s = Inr s'"
  obtains n where "p = Some n" "owner s' = (owner s)(n := c)" "behind s' = behind s" "pcs s' = pcs s"
  using assms
  by (cases p) (auto simp: store_owner_def modify_def deref_def owner_def behind_def fun_eq_iff res_simps
      split: option.splits)

lemma cas_owner_view:
  assumes "cas_owner p t s = Inr (won, expect, s')"
  obtains n where "p = Some n" "won" "owner s n = None" "owner s' = (owner s)(n := Some t)" "behind s' = behind s" "pcs s' = pcs s"
  | "\<not> won" "s' = s"
proof -
  from assms obtain x where x: "deref (nodes s) p = Inr x" by (auto simp: cas_owner_def res_simps)
  then obtain n where n: "p = Some n" "heap (nodes s) n = Some x" by (cases p) (auto simp: deref_def split: option.splits)
  show ?thesis
  proof (cases "ctx x = None")
    case True
    with assms x obtain "store_owner p (Some t) s = Inr s'" "won" by (auto simp: cas_owner_def res_simps)
    with n True show ?thesis by (elim store_owner_view) (auto intro!: that(1) simp: owner_def)
  next
    case False
    with assms x show ?thesis by (auto simp: cas_owner_def intro: that(2))
  qed
qed

text \<open>Every step is of one of the three kinds.\<close>

definition locks_ok :: "hs \<Rightarrow> bool" where
  "locks_ok s \<longleftrightarrow> lock_inv (owner s) (behind s) (pcs s)"

lemma locks_keep:
  assumes "locks_ok s" "owner s' = owner s" "behind s' = behind s" "pcs s' = (pcs s)(t := p)"
    "held (behind s) p = held (behind s) (pcs s t)" "local_ok (behind s) p"
  shows "locks_ok s'"
  using lock_inv_keep [where own = "owner s" and bk = "behind s" and ps = "pcs s" and p = p and t = t] assms
  by (simp add: locks_ok_def)

lemma locks_same:
  assumes "locks_ok s" "owner s' = owner s" "behind s' = behind s" "pcs s' = pcs s"
  shows "locks_ok s'"
  using assms by (simp add: locks_ok_def)

lemma locks_local: "locks_ok s \<Longrightarrow> local_ok (behind s) (pcs s t)"
  by (simp add: locks_ok_def lock_inv_def)

lemma locks_held: "locks_ok s \<Longrightarrow> n \<in> held (behind s) (pcs s t) \<longleftrightarrow> owner s n = Some t"
  by (simp add: locks_ok_def lock_inv_def)

lemma set_depth_view:
  assumes "set_depth t i s = Inr s'"
  shows "owner s' = owner s" "behind s' = behind s" "pcs s' = pcs s"
  using assms by (auto simp: set_depth_def res_simps)

lemma store_remote_view:
  assumes "store_remote p sz n s = Inr s'"
  shows "owner s' = owner s" "behind s' = behind s" "pcs s' = pcs s"
  using assms by (auto simp: store_remote_def res_simps owner_def behind_def fun_eq_iff)

lemma store_remote_frame:
  assumes "store_remote p sz n s = Inr s'"
  shows "nodes s' = nodes s" "ctxs s' = ctxs s" "bufs s' = bufs s" "spare s' = spare s" "pcs s' = pcs s"
  using assms by (auto simp: store_remote_def res_simps)

lemma step_grow_eq:
  assumes "step_grow crcf t d s = Inr s'" "spare s = a # as" "bufs s t = (p, r)"
  obtains ty n nb s1 s2 sl where "morph_node r = Inr ty" "heap (nodes s) d = Some n" "deref (nodes s) (backward n) = Inr nb"
    "store_remote (data_node nb) (sizeof_node (ntype p)) (p\<lparr>rlink := a\<rparr>) s = Inr s1"
    "store_remote a (sizeof_node ty) (r\<lparr>ntype := ty, crc := crc_validate crcf r ty\<rparr>) s1 = Inr s2"
    "modify (nodes s) (Some d) (\<lambda>n. Inr (n\<lparr>data_node := a, sn_type := ty\<rparr>)) = Inr sl"
    "s' = go t (LeaveRight d (a \<noteq> 0)) (set_bufs t (p\<lparr>rlink := a\<rparr>) (r\<lparr>ntype := ty, crc := crc_validate crcf r ty\<rparr>)
       (s2\<lparr>nodes := sl, spare := as\<rparr>))"
  using assms by (auto simp: step_grow_def Let_def res_simps)

lemma step_grow_stays: "step_grow crcf t d s = Inr s' \<Longrightarrow> spare s = [] \<Longrightarrow> s' = s"
  by (auto simp: step_grow_def res_simps split: prod.splits)

lemma step_grow_view:
  assumes "step_grow crcf t d s = Inr s'" "s' \<noteq> s"
  obtains b where "owner s' = owner s" "behind s' = behind s" "pcs s' = (pcs s)(t := LeaveRight d b)"
proof -
  obtain p r where b: "bufs s t = (p, r)" by (cases "bufs s t")
  obtain a as where a: "spare s = a # as" using step_grow_stays [OF assms(1)] assms(2) by (cases "spare s") auto
  show ?thesis
  proof (rule step_grow_eq [OF assms(1) a b])
    fix ty n and nb :: skip_node and s1 s2 sl
    assume n: "heap (nodes s) d = Some n"
      and w: "store_remote (data_node nb) (sizeof_node (ntype p)) (p\<lparr>rlink := a\<rparr>) s = Inr s1"
        "store_remote a (sizeof_node ty) (r\<lparr>ntype := ty, crc := crc_validate crcf r ty\<rparr>) s1 = Inr s2"
      and m: "modify (nodes s) (Some d) (\<lambda>n. Inr (n\<lparr>data_node := a, sn_type := ty\<rparr>)) = Inr sl"
      and s': "s' = go t (LeaveRight d (a \<noteq> 0)) (set_bufs t (p\<lparr>rlink := a\<rparr>) (r\<lparr>ntype := ty, crc := crc_validate crcf r ty\<rparr>)
        (s2\<lparr>nodes := sl, spare := as\<rparr>))"
    have h: "heap sl = (heap (nodes s))(d \<mapsto> n\<lparr>data_node := a, sn_type := ty\<rparr>)" using m n by (auto simp: modify_def res_simps)
    have q: "pcs s2 = pcs s" using store_remote_frame [OF w(1)] store_remote_frame [OF w(2)] by simp
    show ?thesis
      by (rule that [of "a \<noteq> 0"]) (use h n q in \<open>auto simp: s' owner_def behind_def go_def set_bufs_def fun_eq_iff\<close>)
  qed
qed

lemma locks_take:
  assumes "locks_ok s" "owner s n = None" "owner s' = (owner s)(n := Some t)" "behind s' = behind s"
    "pcs s' = (pcs s)(t := p)" "held (behind s) p = insert n (held (behind s) (pcs s t))" "local_ok (behind s) p"
  shows "locks_ok s'"
  using lock_inv_take [where own = "owner s" and bk = "behind s" and ps = "pcs s" and p = p and t = t and n = n] assms
  by (simp add: locks_ok_def)

lemma locks_drop:
  assumes "locks_ok s" "n \<in> held (behind s) (pcs s t)" "owner s' = (owner s)(n := None)" "behind s' = behind s"
    "pcs s' = (pcs s)(t := p)" "held (behind s) p = held (behind s) (pcs s t) - {n}" "local_ok (behind s) p"
  shows "locks_ok s'"
  using lock_inv_drop [where own = "owner s" and bk = "behind s" and ps = "pcs s" and p = p and t = t and n = n] assms
  by (simp add: locks_ok_def)

lemma step_cas_right_inv:
  assumes "locks_ok s" "pcs s t = CasRight d k v l" "step_cas_right t d k v l s = Inr s'"
  shows "locks_ok s'"
proof -
  obtain won expect s1 where c: "cas_owner (Some d) t s = Inr (won, expect, s1)"
    using assms(3) by (auto simp: step_cas_right_def res_simps)
  have l: "l = behind s d" using locks_local [OF assms(1), of t] assms(2) by simp
  from c show ?thesis
  proof (cases rule: cas_owner_view)
    case (1 n)
    with assms(3) c have "s' = go t (CasLeft d k v l) s1" by (simp add: step_cas_right_def)
    with 1 l assms(2) show ?thesis by (intro locks_take [OF assms(1), of n _ t "CasLeft d k v l"]) auto
  next
    case 2
    from assms(3) c 2 consider "s' = go t (Dispatch d k v) s" | c' where "s' = go t (Spin c' d k v) s"
      by (auto simp: step_cas_right_def res_simps split: option.splits if_splits)
    then show ?thesis
      by cases (use assms(2) in \<open>auto intro!: locks_keep [OF assms(1), of _ t]\<close>)
  qed
qed

lemma step_cas_left_inv:
  assumes "locks_ok s" "pcs s t = CasLeft d k v l" "step_cas_left t d k v l s = Inr s'"
  shows "locks_ok s'"
proof -
  obtain won expect s1 where c: "cas_owner l t s = Inr (won, expect, s1)"
    and s': "s' = go t (if won then Open d k v l else Undo d k v) s1"
    using assms(3) by (auto simp: step_cas_left_def res_simps)
  have l: "l = behind s d" using locks_local [OF assms(1), of t] assms(2) by simp
  have d: "owner s d = Some t" using locks_held [OF assms(1), of d t] assms(2) by simp
  from c show ?thesis
  proof (cases rule: cas_owner_view)
    case (1 n)
    with l d s' assms(2) show ?thesis by (intro locks_take [OF assms(1), of n _ t "Open d k v l"]) auto
  next
    case 2
    with s' assms(2) show ?thesis by (intro locks_keep [OF assms(1), of _ t "Undo d k v"]) auto
  qed
qed

lemma step_release_inv:
  assumes "locks_ok s" "store_owner p None s = Inr s1" "s' = go t q s1"
    "\<And>n. p = Some n \<Longrightarrow> n \<in> held (behind s) (pcs s t) \<and> held (behind s) q = held (behind s) (pcs s t) - {n}"
    "local_ok (behind s) q"
  shows "locks_ok s'"
proof -
  from assms(2) obtain n where n: "p = Some n" "owner s1 = (owner s)(n := None)" "behind s1 = behind s" "pcs s1 = pcs s"
    by (rule store_owner_view)
  show ?thesis using n assms(3) assms(4) [OF n(1)] assms(5)
    by (intro locks_drop [OF assms(1), of n t _ q]) auto
qed

lemma step_give_back_inv:
  assumes "locks_ok s" "pcs s t = GiveBack d k v" "step_give_back t d k v s = Inr s'"
  shows "locks_ok s'"
proof -
  obtain s1 where "store_owner (Some d) None s = Inr s1" "s' = go t (Dispatch d k v) s1"
    using assms(3) by (auto simp: step_give_back_def res_simps)
  from step_release_inv [OF assms(1) this] assms(2) show ?thesis by simp
qed

lemma step_leave_right_inv:
  assumes "locks_ok s" "pcs s t = LeaveRight d b" "step_leave_right t d b s = Inr s'"
  shows "locks_ok s'"
proof -
  obtain s1 where "store_owner (Some d) None s = Inr s1" "s' = go t (LeaveLeft d b) s1"
    using assms(3) by (auto simp: step_leave_right_def res_simps)
  from step_release_inv [OF assms(1) this] assms(2) locks_local [OF assms(1), of t] show ?thesis by fastforce
qed

lemma step_leave_left_inv:
  assumes "locks_ok s" "pcs s t = LeaveLeft d b" "step_leave_left t d b s = Inr s'"
  shows "locks_ok s'"
proof -
  obtain n s1 where n: "heap (nodes s) d = Some n" and "store_owner (backward n) None s = Inr s1"
    "s' = go t (LeaveDepth d b) s1"
    using assms(3) by (auto simp: step_leave_left_def res_simps)
  moreover have "behind s d = backward n" using n by (simp add: behind_def)
  ultimately show ?thesis using step_release_inv [OF assms(1), of "backward n" s1 s' t "LeaveDepth d b"] assms(2) by simp
qed

text \<open>A step that touches no context pointer leaves the thread with the nodes it had.\<close>

definition keeps :: "nat \<Rightarrow> hs \<Rightarrow> hs \<Rightarrow> bool" where
  "keeps t s s' \<longleftrightarrow> owner s' = owner s \<and> behind s' = behind s \<and>
     (\<exists>p. pcs s' = (pcs s)(t := p) \<and> held (behind s) p = held (behind s) (pcs s t) \<and> local_ok (behind s) p)"

lemma keepsI:
  "owner s' = owner s \<Longrightarrow> behind s' = behind s \<Longrightarrow> pcs s' = (pcs s)(t := p) \<Longrightarrow>
    held (behind s) p = held (behind s) (pcs s t) \<Longrightarrow> local_ok (behind s) p \<Longrightarrow> keeps t s s'"
  by (auto simp: keeps_def)

lemma keeps_stay:
  "locks_ok s \<Longrightarrow> owner s' = owner s \<Longrightarrow> behind s' = behind s \<Longrightarrow> pcs s' = pcs s \<Longrightarrow> keeps t s s'"
  by (rule keepsI [of _ _ _ "pcs s t"]) (simp_all add: locks_local)

lemma keeps_inv: "locks_ok s \<Longrightarrow> keeps t s s' \<Longrightarrow> locks_ok s'"
  unfolding keeps_def by (elim conjE exE) (rule locks_keep)

lemma drain_turn_keeps:
  assumes "locks_ok s" "drain_turn t p s = Inr s'" "held (behind s) p = held (behind s) (pcs s t)" "local_ok (behind s) p"
  shows "keeps t s s'"
proof -
  obtain c where c: "shared_ctx t s = Inr c" using assms(2) by (auto simp: drain_turn_def res_simps)
  show ?thesis
  proof (cases "requests c")
    case Nil with assms c show ?thesis by (intro keepsI [of _ _ _ p]) (auto simp: drain_turn_def)
  next
    case (Cons r rs) with assms c show ?thesis by (intro keeps_stay) (auto simp: drain_turn_def)
  qed
qed

lemma step_get_read_keeps:
  assumes "pcs s t = GetRead d k" "step_get_read crcf t d k s = Inr s'"
  shows "keeps t s s'"
proof -
  obtain p r where "bufs s t = (p, r)" by (cases "bufs s t")
  with assms(2) consider "pcs s' = (pcs s)(t := GetDrain d k)" "owner s' = owner s" "behind s' = behind s"
    | v where "pcs s' = (pcs s)(t := Got v)" "owner s' = owner s" "behind s' = behind s"
    by (auto simp: step_get_read_def Let_def res_simps split: if_splits)
  then show ?thesis by cases (use assms(1) in \<open>auto intro: keepsI\<close>)
qed

lemma step_help_keeps:
  assumes "locks_ok s" "pcs s t = Help d" "step_help t d s = Inr s'"
  shows "keeps t s s'"
proof -
  obtain c n where c: "shared_ctx t s = Inr c" "heap (nodes s) d = Some n" using assms(3) by (auto simp: step_defs res_simps)
  obtain p r where b: "bufs s t = (p, r)" by (cases "bufs s t")
  have l: "behind s d \<noteq> Some d" using locks_local [OF assms(1), of t] assms(2) by simp
  show ?thesis
  proof (cases "requests c")
    case Nil with assms c b l show ?thesis by (intro keepsI [of _ _ _ "Size d"]) (auto simp: step_defs res_simps)
  next
    case (Cons q qs)
    with assms c b have "pcs s' = pcs s \<or> pcs s' = (pcs s)(t := Size d)" and "owner s' = owner s" "behind s' = behind s"
      by (auto simp: step_defs res_simps split: if_splits)
    then show ?thesis using assms(1,2) l by (auto intro: keeps_stay keepsI)
  qed
qed

lemma step_rest_keeps:
  assumes "locks_ok s" "pcs s t = Rest d" "step_rest t d s = Inr s'"
  shows "keeps t s s'"
proof -
  obtain c n where c: "shared_ctx t s = Inr c" "heap (nodes s) d = Some n" using assms(3) by (auto simp: step_defs res_simps)
  obtain p r where b: "bufs s t = (p, r)" by (cases "bufs s t")
  have l: "behind s d \<noteq> Some d" using locks_local [OF assms(1), of t] assms(2) by simp
  show ?thesis
  proof (cases "requests c")
    case Nil with assms c b l show ?thesis by (intro keepsI [of _ _ _ "Grow d"]) (auto simp: step_defs res_simps)
  next
    case (Cons q qs)
    with assms c b show ?thesis by (intro keeps_stay) (auto simp: step_defs res_simps split: if_splits)
  qed
qed

lemma set_depth_keeps:
  assumes "locks_ok s" "set_depth t i s = Inr s1" "s' = go t p s1"
    "held (behind s) p = held (behind s) (pcs s t)" "local_ok (behind s) p"
  shows "keeps t s s'"
  using set_depth_view [OF assms(2)] assms(3-) by (intro keepsI [of _ _ _ p]) simp_all

lemma act_inv:
  assumes i: "locks_ok s" and a: "act crcf t (pcs s t) s = Inr s'"
  shows "locks_ok s'"
proof -
  note l = locks_local [OF i, of t]
  have "keeps t s s' \<or> locks_ok s'"
  proof (cases "pcs s t")
    case (Drain d k v) with a show ?thesis by (auto simp: step_drain_def intro: drain_turn_keeps [OF i])
  next
    case (GetDrain d k) with a show ?thesis by (auto simp: step_get_drain_def intro: drain_turn_keeps [OF i])
  next
    case (GetRead d k) with a step_get_read_keeps [OF GetRead] show ?thesis by simp
  next
    case (Help d) with a step_help_keeps [OF i] show ?thesis by simp
  next
    case (Rest d) with a step_rest_keeps [OF i] show ?thesis by simp
  next
    case (CasRight d k v l) with a step_cas_right_inv [OF i] show ?thesis by simp
  next
    case (CasLeft d k v l) with a step_cas_left_inv [OF i] show ?thesis by simp
  next
    case (GiveBack d k v) with a step_give_back_inv [OF i] show ?thesis by simp
  next
    case (LeaveRight d b) with a step_leave_right_inv [OF i] show ?thesis by simp
  next
    case (LeaveLeft d b) with a step_leave_left_inv [OF i] show ?thesis by simp
  next
    case (Dispatch d k v) with a show ?thesis by (auto simp: step_defs res_simps intro!: disjI1 intro: keepsI split: if_splits)
  next
    case (Enter d k v) with a show ?thesis
      by (intro disjI1 keepsI [of _ _ _ "CasRight d k v (behind s d)"]) (auto simp: step_defs res_simps behind_def)
  next
    case (Undo d k v) with a show ?thesis
      by (auto simp: step_defs res_simps intro!: disjI1 set_depth_keeps [OF i])
  next
    case (Open d k v p) with a l show ?thesis
      by (auto simp: step_defs res_simps intro!: disjI1 set_depth_keeps [OF i])
  next
    case (Fetch d k v p)
    obtain p0 r0 where "bufs s t = (p0, r0)" by (cases "bufs s t")
    with Fetch a l show ?thesis
      by (intro disjI1 keepsI [of _ _ _ "Shut d k v"]) (auto simp: step_defs res_simps)
  next
    case (Shut d k v) with a l show ?thesis
      by (auto simp: step_defs res_simps intro!: disjI1 set_depth_keeps [OF i])
  next
    case (Own d k v) with a l show ?thesis
      by (auto simp: step_defs res_simps intro!: disjI1 intro: keepsI split: prod.splits if_splits)
  next
    case (Size d) with a l show ?thesis
      by (auto simp: step_defs res_simps store_remote_view intro!: disjI1 intro: keepsI split: if_splits)
  next
    case (GrowOwn d k v) with a l show ?thesis
      by (intro disjI1 keepsI [of _ _ _ "Rest d"]) (auto simp: step_defs res_simps split: prod.splits)
  next
    case (Grow d) with a l show ?thesis
      by (cases "s' = s") (use i in simp, simp, erule step_grow_view, auto intro!: disjI1 intro: keepsI)
  next
    case (LeaveDepth d b) with a show ?thesis
      by (cases b) (auto simp: step_defs res_simps intro!: disjI1 set_depth_keeps [OF i])
  next
    case (Spin c d k v) with a i show ?thesis
      by (auto simp: step_defs res_simps intro!: disjI1 intro: keepsI keeps_stay split: if_splits)
  next
    case (Sub c d k v) with a show ?thesis
      by (auto simp: step_defs res_simps intro!: disjI1 intro: keepsI split: if_splits)
  next
    case (Queue c d k v) with a show ?thesis
      by (intro disjI1 keepsI [of _ _ _ "Await (fresh s) d k v"]) (auto simp: step_defs res_simps)
  next
    case (Await x d k v) with a i show ?thesis
      by (auto simp: step_defs intro!: disjI1 intro: keepsI keeps_stay split: option.splits if_splits)
  qed (use a i in simp_all)
  then show ?thesis using keeps_inv [OF i] by blast
qed

lemma step_inv: "step client crcf s s' \<Longrightarrow> locks_ok s \<Longrightarrow> locks_ok s'"
proof (induction rule: step.induct)
  case (step_call s t k v d)
  have "keeps t s (go t (Dispatch d k v) s)"
    using step_call.hyps by (intro keepsI [of _ _ _ "Dispatch d k v"]) (cases "pcs s t"; simp)+
  with step_call.prems show ?case by (rule keeps_inv)
next
  case (step_get s t d k)
  have "keeps t s (go t (GetDrain d k) s)"
    using step_get.hyps by (intro keepsI [of _ _ _ "GetDrain d k"]) (cases "pcs s t"; simp)+
  with step_get.prems show ?case by (rule keeps_inv)
qed (rule act_inv)

definition quiet :: "hs \<Rightarrow> bool" where
  "quiet s \<longleftrightarrow> (\<forall>t. at_rest (pcs s t)) \<and> (\<forall>n. owner s n = None)"

lemma quiet_locks_ok: "quiet s \<Longrightarrow> locks_ok s"
proof -
  assume q: "quiet s"
  have "held bk p = {} \<and> local_ok bk p" if "at_rest p" for bk p using that by (cases p) simp_all
  with q show ?thesis by (simp add: quiet_def locks_ok_def lock_inv_def)
qed

lemma locks_ok_quiet:
  assumes "locks_ok s" "\<forall>u. at_rest (pcs s u)"
  shows "quiet s"
proof -
  have "held (behind s) (pcs s u) = {}" for u using assms(2) [rule_format, of u] by (cases "pcs s u") simp_all
  then have "owner s m \<noteq> Some u" for m u using locks_held [OF assms(1), of m u] by simp
  then have "owner s m = None" for m by (cases "owner s m") auto
  with assms(2) show ?thesis by (simp add: quiet_def)
qed

lemma reach_locks_ok: "reach client crcf s0 s \<Longrightarrow> quiet s0 \<Longrightarrow> locks_ok s"
  by (induction rule: reach.induct) (auto intro: quiet_locks_ok step_inv)

text \<open>C2: However many insertions run and however their steps interleave, the context pointer of a
  node names a thread exactly while that thread is between taking the node (or the successor of it)
  and giving it up.  So two threads are never in possession of one node at the same time, neither
  as the node inserted to nor as its predecessor, and once every thread is at rest no node is left
  taken.\<close>

theorem one_winner:
  assumes "reach client crcf s0 s" "quiet s0"
  shows "(n \<in> held (behind s) (pcs s t) \<longleftrightarrow> owner s n = Some t) \<and>
    (t \<noteq> t' \<longrightarrow> held (behind s) (pcs s t) \<inter> held (behind s) (pcs s t') = {}) \<and>
    ((\<forall>u. at_rest (pcs s u)) \<longrightarrow> quiet s)"
proof (intro conjI impI)
  note i = reach_locks_ok [OF assms]
  show "n \<in> held (behind s) (pcs s t) \<longleftrightarrow> owner s n = Some t" by (rule locks_held [OF i])
  show "held (behind s) (pcs s t) \<inter> held (behind s) (pcs s t') = {}" if "t \<noteq> t'"
    using that locks_held [OF i, of _ t] locks_held [OF i, of _ t'] by auto
  show "quiet s" if "\<forall>u. at_rest (pcs s u)" using i that by (rule locks_ok_quiet)
qed

subsection \<open>Runs that can be evaluated\<close>

datatype event = Call nat nat bytes bytes | Act nat

fun exec :: "(bytes \<Rightarrow> u16) \<Rightarrow> event list \<Rightarrow> hs \<Rightarrow> hs res" where
  "exec crcf [] s = Inr s"
| "exec crcf (Call t d k v # es) s =
     (if at_rest (pcs s t) then exec crcf es (go t (Dispatch d k v) s) else Inl InvalidArgument)"
| "exec crcf (Act t # es) s = res_bind (act crcf t (pcs s t) s) (exec crcf es)"

definition wide_client :: "bytes \<Rightarrow> bytes \<Rightarrow> bool" where
  "wide_client k v \<longleftrightarrow> wide k \<and> wide v"

lemma exec_reach:
  assumes "exec crcf es s = Inr s'" "reach client crcf s0 s" "\<And>t d k v. Call t d k v \<in> set es \<Longrightarrow> client k v"
  shows "reach client crcf s0 s'"
  using assms
proof (induction es arbitrary: s)
  case (Cons e es)
  note IH = Cons.IH [OF _ reach_step [OF Cons.prems(2)] Cons.prems(3) [OF list.set_intros(2)]]
  show ?case
  proof (cases e)
    case (Call t d k v)
    with Cons.prems have "at_rest (pcs s t)" "client k v" "exec crcf es (go t (Dispatch d k v) s) = Inr s'"
      by (auto split: if_splits)
    from IH [OF this(3) step_call [where client = client and k = k and v = v, OF this(1,2)]] show ?thesis .
  next
    case (Act t)
    with Cons.prems(1) obtain x where "act crcf t (pcs s t) s = Inr x" "exec crcf es x = Inr s'"
      by (auto simp: res_simps)
    from IH [OF this(2) step_act [OF this(1)]] show ?thesis .
  qed
qed simp

text \<open>Five nodes of type \<open>LinkedNode10\<close>, all empty, their anchors ten apart, and no thread running.\<close>

definition key16 :: "nat \<Rightarrow> bytes" where
  "key16 n = replicate 16 (of_nat n)"

definition empty_node :: linked_node where
  "empty_node = (new_linked_node 16 16 0 (replicate 16 kv_zero))\<lparr>ntype := type_num Type10\<rparr>"

definition start :: hs where
  "start = \<lparr>nodes = \<lparr>heap = (\<lambda>i. if i < 5 then Some ((make_skip_node 1 (key16 (10 * i)) (of_nat (1000 + i)) (type_num Type10)
                               (if i < 4 then Some (i + 1) else None) (if 0 < i then Some (i - 1) else None))) else None),
                     brk = 5, head = 0, current_level = 1\<rparr>,
            ctxs = (\<lambda>_. Some new_conc_ctx), told = Map.empty, fresh = 0,
            remote = (\<lambda>_. Some empty_node), spare = [2000, 2001], bufs = (\<lambda>_. (empty_node, empty_node)), pcs = (\<lambda>_. Idle)\<rparr>"

definition stored_at :: "hs \<Rightarrow> nat \<Rightarrow> bytes \<Rightarrow> bytes option res" where
  "stored_at s d k = res_bind (deref (nodes s) (Some d)) (\<lambda>n. res_bind (load_remote (data_node n) s) (find_kv k))"

definition late_run :: "event list" where
  "late_run =
     [Call 0 4 (key16 41) (key16 11), Act 0, Act 0, Act 0, Act 0,
      Call 1 4 (key16 45) (key16 12), Act 1, Act 1, Act 1, Act 1,
      Act 0, Act 0, Act 0, Act 0, Act 0, Act 0, Act 0, Act 0, Act 0, Act 0, Act 1, Act 1,
      Call 0 2 (key16 21) (key16 13), Act 0, Act 0, Act 1,
      Act 0, Act 0, Act 0, Act 0, Act 0, Act 0, Act 0, Act 0, Act 0, Act 0, Act 0, Act 0, Act 0, Act 1]"

lemmas run_simps = step_defs step_cas_right_def step_cas_left_def step_give_back_def step_leave_right_def step_leave_left_def
  go_def shared_ctx_def set_ctx_def load_remote_def store_owner_def cas_owner_def tell_def set_depth_def set_bufs_def
  deref_def modify_def new_conc_ctx_def new_request_def

lemma start_quiet: "quiet start"
  by (simp add: quiet_def start_def owner_def make_skip_node_def)

lemma type10: "enumerator 10 = Some Type10"
  by (simp add: enumerator_def)

lemma key16_simps [simp]: "length (key16 n) = 16" "key16 m = key16 n \<longleftrightarrow> (of_nat m :: 8 word) = of_nat n"
  by (simp_all add: key16_def)

lemma replicate_less: "0 < n \<Longrightarrow> replicate n x < replicate n y \<longleftrightarrow> x < (y :: 8 word)"
  by (induction n) (auto simp: gr0_conv_Suc)

lemma key16_order: "\<not> key16 45 < key16 20" "key16 40 \<le> key16 45"
  by (simp_all add: key16_def replicate_less le_less)

lemma empty_node_inv: "node_inv 10 empty_node" "records empty_node = []" "room 10 empty_node = 10" "node_shape empty_node"
  by (simp_all add: node_shape_def empty_node_def new_linked_node_def node_inv_def records_def room_def kv_zero_def kv_ok_def list_all_iff)

lemma overlay_agree:
  assumes "node_shape new" "node_shape old" "44 + 32 * N \<le> sz" "sz \<le> 560" "N \<le> 16"
  shows "agree N (overlay sz new old) new" "node_shape (overlay sz new old)"
proof -
  let ?b = "take sz (encode_node new) @ drop sz (encode_node old)"
  have l: "length (encode_node new) = 560" "length (encode_node old) = 560"
    using assms(1,2) by (simp_all add: length_encode_node)
  have t: "take m (drop off ?b) = take m (drop off (encode_node new))" if "off + m \<le> sz" for off m
    using that l assms(4) by (auto simp: drop_take take_take min_def)
  have "agree N (decode_node ?b) (decode_node (encode_node new))"
    using t [of 0 18] t [of 20 "24 + 32 * N"] assms(3,5) by (intro decode_agree) simp_all
  then show "agree N (overlay sz new old) new" using assms(1) by (simp add: overlay_def decode_encode_node)
  show "node_shape (overlay sz new old)" unfolding overlay_def by (rule decode_shape) (use l assms(4) in simp)
qed

lemma overlay_records:
  assumes "node_inv N new" "node_shape new" "node_shape old" "44 + 32 * N \<le> sz" "sz \<le> 560" "N \<le> 16"
  shows "node_inv N (overlay sz new old)" "records (overlay sz new old) = records new" "room N (overlay sz new old) = room N new"
    "node_shape (overlay sz new old)" "ntype (overlay sz new old) = ntype new"
proof -
  note o = overlay_agree [OF assms(2-)]
  show "node_inv N (overlay sz new old)" by (rule agree_inv [OF agree_sym [OF o(1)] assms(1) o(2) assms(6)])
  show "node_shape (overlay sz new old)" by (rule o(2))
  show "room N (overlay sz new old) = room N new" "ntype (overlay sz new old) = ntype new"
    using agree_fields [OF o(1)] by (simp_all add: room_def)
  have "unat (nxt (overlay sz new old)) \<le> N" using agree_fields [OF o(1)] assms(1) by (simp add: node_inv_def)
  then show "records (overlay sz new old) = records new" by (rule agree_records [OF o(1)])
qed

text \<open>What the three insertions of the run do to their nodes.\<close>

lemma run_stores:
  obtains n1 n2 n3 where "store_kv 10 (key16 41) (key16 11) empty_node = Inr (True, n1)"
    "store_kv 10 (key16 21) (key16 13) (overlay 368 empty_node n1) = Inr (True, n2)"
    "store_kv 10 (key16 45) (key16 12) n2 = Inr (True, n3)"
    "find_kv (key16 45) (overlay 368 n1 empty_node) = Inr None"
    "find_kv (key16 45) (overlay 368 n3 empty_node) = Inr (Some (key16 12))"
proof -
  have none: "node_map n k = None" if "records n = []" for n k using that by (simp add: node_map_def)
  note e = empty_node_inv
  obtain n1 where n1: "store_kv 10 (key16 41) (key16 11) empty_node = Inr (True, n1)" "node_inv 10 n1"
    "records n1 = [(key16 41, key16 11)]"
    by (rule store_kv_absent [OF e(1) _ _ _ none, of "key16 41" "key16 11"]) (auto simp: e)
  have s1: "node_shape n1" using store_shape [OF n1(1) e(4)] by simp
  note m = overlay_records [OF e(1,4) s1, of 368, simplified]
  obtain n2 where n2: "store_kv 10 (key16 21) (key16 13) (overlay 368 empty_node n1) = Inr (True, n2)" "node_inv 10 n2"
    "records n2 = [(key16 21, key16 13)]" "room 10 n2 = 9"
    by (rule store_kv_absent [OF m(1) _ _ _ none, of "key16 21" "key16 13"]) (auto simp: e m)
  have s2: "node_shape n2" using store_shape [OF n2(1) m(4)] by simp
  have m2: "node_map n2 (key16 45) = None" using n2(3) by (simp add: node_map_def)
  obtain n3 where n3: "store_kv 10 (key16 45) (key16 12) n2 = Inr (True, n3)" "node_inv 10 n3"
    "records n3 = [(key16 21, key16 13), (key16 45, key16 12)]"
    by (rule store_kv_absent [OF n2(2) _ _ _ m2, of "key16 12"]) (auto simp: n2)
  have s3: "node_shape n3" using store_shape [OF n3(1) s2] by simp
  note o1 = overlay_records [OF n1(2) s1 e(4), of 368, simplified] and o3 = overlay_records [OF n3(2) s3 e(4), of 368, simplified]
  have "find_kv (key16 45) (overlay 368 n1 empty_node) = Inr None"
    "find_kv (key16 45) (overlay 368 n3 empty_node) = Inr (Some (key16 12))"
    using find_kv_eq [OF o1(1)] find_kv_eq [OF o3(1)] o1(2) o3(2) n1(3) n3(3) by (simp_all add: node_map_def)
  with n1(1) n2(1) n3(1) show ?thesis by (rule that)
qed

lemma overlay_empty [simp]: "overlay sz empty_node empty_node = empty_node"
  by (simp add: overlay_def decode_encode_node empty_node_inv)

definition taking_run :: "event list" where
  "taking_run = [Call 0 4 (key16 41) (key16 11), Act 0, Act 0, Act 0, Act 0, Act 0,
     Call 1 3 (key16 35) (key16 12), Act 1, Act 1, Act 1, Act 1]"

lemma one_winner_witness:
  "\<exists>s. reach wide_client (\<lambda>_. 0) start s \<and> pcs s 0 = Open 4 (key16 41) (key16 11) (Some 3) \<and>
     pcs s 1 = Spin 0 3 (key16 35) (key16 12) \<and> owner s 3 = Some 0 \<and> owner s 4 = Some 0"
proof -
  have "\<exists>s. exec (\<lambda>_. 0) taking_run start = Inr s \<and> pcs s 0 = Open 4 (key16 41) (key16 11) (Some 3) \<and>
     pcs s 1 = Spin 0 3 (key16 35) (key16 12) \<and> behind s 4 = Some 3"
    by (simp add: taking_run_def start_def run_simps make_skip_node_def type10 behind_def)
  then obtain s where s: "exec (\<lambda>_. 0) taking_run start = Inr s" "pcs s 0 = Open 4 (key16 41) (key16 11) (Some 3)"
     "pcs s 1 = Spin 0 3 (key16 35) (key16 12)" "behind s 4 = Some 3"
    by (elim exE conjE) (rule that)
  have r: "reach wide_client (\<lambda>_. 0) start s"
    by (rule exec_reach [OF s(1) reach_start]) (auto simp: taking_run_def wide_client_def)
  from one_winner [OF r start_quiet, of 3 0] one_winner [OF r start_quiet, of 4 0] s(2,4)
  have "owner s 3 = Some 0" "owner s 4 = Some 0" by simp_all
  with r s show ?thesis by blast
qed

text \<open>C11: A request can be served in the wrong node.  A waiting thread that passes the decrement of
  the depth after the winner has left puts its request into the queue of a thread that no longer
  owns the node; if that thread has drained its queue for its next insertion just before, it takes
  the request for one of the node it wins next.  In the run of the statement thread 1 inserts a key
  that belongs to node 4, is told that it was stored, and the key is in node 2 and not in node 4,
  where every search for it looks.\<close>

theorem late_request_in_wrong_node:
  "\<exists>s. reach wide_client crcf start s \<and> quiet s \<and> pcs s 1 = Done True \<and> pcs s 0 = Done True \<and>
     (\<exists>n. heap (nodes s) 4 = Some n \<and> anchor n \<le> key16 45) \<and>
     stored_at s 4 (key16 45) = Inr None \<and> stored_at s 2 (key16 45) = Inr (Some (key16 12))"
proof -
  obtain n1 n2 n3 where n: "store_kv 10 (key16 41) (key16 11) empty_node = Inr (True, n1)"
    "store_kv 10 (key16 21) (key16 13) (overlay 368 empty_node n1) = Inr (True, n2)"
    "store_kv 10 (key16 45) (key16 12) n2 = Inr (True, n3)"
    "find_kv (key16 45) (overlay 368 n1 empty_node) = Inr None"
    "find_kv (key16 45) (overlay 368 n3 empty_node) = Inr (Some (key16 12))"
    by (rule run_stores)
  have "\<exists>s. exec crcf late_run start = Inr s \<and> pcs s 1 = Done True \<and> pcs s 0 = Done True \<and>
     (\<forall>t. at_rest (pcs s t)) \<and> (\<exists>n. heap (nodes s) 4 = Some n \<and> anchor n \<le> key16 45) \<and>
     stored_at s 4 (key16 45) = Inr None \<and> stored_at s 2 (key16 45) = Inr (Some (key16 12))"
    by (simp add: late_run_def start_def run_simps make_skip_node_def type10 n key16_order stored_at_def sizeof_node_def store_remote_def)
  then obtain s where e: "exec crcf late_run start = Inr s" and s: "pcs s 1 = Done True" "pcs s 0 = Done True"
     "\<forall>t. at_rest (pcs s t)" "\<exists>n. heap (nodes s) 4 = Some n \<and> anchor n \<le> key16 45"
     "stored_at s 4 (key16 45) = Inr None" "stored_at s 2 (key16 45) = Inr (Some (key16 12))"
    by (elim exE conjE) (rule that, (assumption | blast)+)
  have r: "reach wide_client crcf start s"
    by (rule exec_reach [OF e reach_start]) (auto simp: late_run_def wide_client_def)
  have "quiet s" by (rule locks_ok_quiet [OF reach_locks_ok [OF r start_quiet] s(3)])
  with r s show ?thesis by blast
qed

end
