(* ===== verification/HandoverSafe.thy ===== *)
theory HandoverSafe
  imports Handover WinnerProofs
begin

text \<open>
  No insertion loses a record.  Threads exclude each other by the context pointers
  (\<open>Handover.one_winner\<close>); on top of that this theory follows the contents: what is in the remote
  memory of a node is in the buffer of the thread that has taken it, buffers only gain records, and
  a write back covers all the slots in use.
\<close>

subsection \<open>Nodes that only gain records\<close>

definition key_ok :: "bytes \<Rightarrow> bool" where
  "key_ok k \<longleftrightarrow> wide k \<and> fp k \<noteq> 0"

definition sound :: "nat \<Rightarrow> linked_node \<Rightarrow> bool" where
  "sound N n \<longleftrightarrow> N \<le> 16 \<and> node_shape n \<and> node_inv N n \<and> (\<forall>k. node_map n k \<noteq> None \<longrightarrow> fp k \<noteq> 0)"

lemma node_inv_resize:
  assumes "node_shape n" "node_inv N n" "unat (nxt n) \<le> M" "M \<le> 16"
  shows "node_inv M n"
  using assms by (simp add: node_inv_def node_shape_def)

lemma sound_resize: "sound N n \<Longrightarrow> unat (nxt n) \<le> M \<Longrightarrow> M \<le> 16 \<Longrightarrow> sound M n"
  by (auto simp: sound_def intro: node_inv_resize)

lemma sound_up: "sound N n \<Longrightarrow> N \<le> M \<Longrightarrow> M \<le> 16 \<Longrightarrow> sound M n"
  by (rule sound_resize, assumption) (simp_all add: sound_def node_inv_def)

lemma store_grows:
  assumes "sound M b" "N \<le> 16" "key_ok k" "wide v" "store_kv N k v b = Inr (ok, b')"
  shows "sound 16 b' \<and> (sound N b \<longrightarrow> sound N b') \<and> (ok \<longrightarrow> sound N b' \<and> node_map b' k \<noteq> None) \<and>
    ntype b' = ntype b \<and> node_map b \<subseteq>\<^sub>m node_map b'"
proof (cases "available N b")
  case False
  then have e: "b' = b" "\<not> ok" using assms(5) by (simp_all add: store_kv_def)
  have "M \<le> 16" using assms(1) by (simp add: sound_def)
  with sound_up [OF assms(1), of 16] show ?thesis by (simp add: e)
next
  case True
  have w: "wide k" using assms(3) by (simp add: key_ok_def)
  have sN: "sound N b" using True assms(1,2) by (auto simp: available_def intro: sound_resize)
  then have iN: "node_inv N b" and rN: "room N b \<noteq> 0" using True by (simp_all add: sound_def available_def room_def)
  obtain b2 where b2: "store_kv N k v b = Inr (room N b \<noteq> 0, b2)" "node_inv N b2" "same_meta b2 b"
    "node_map b2 = (if room N b = 0 then node_map b else [k \<mapsto> v] ++ node_map b)"
    by (rule store_kv_cases [OF iN w assms(4)])
  with assms(5) rN have e: "b' = b2" "ok" by simp_all
  have m: "node_map b' = [k \<mapsto> v] ++ node_map b" using b2(4) rN e by simp
  have sh: "node_shape b'" using store_shape [OF assms(5) _ w assms(4)] sN by (simp add: sound_def)
  have "\<forall>x. node_map b' x \<noteq> None \<longrightarrow> fp x \<noteq> 0"
    using sN assms(3) by (auto simp: sound_def m map_add_def key_ok_def split: option.splits if_splits)
  then have sN': "sound N b'" using b2(2) sh assms(2) by (simp add: sound_def e)
  moreover have "sound 16 b'" by (rule sound_up [OF sN' assms(2)]) simp
  moreover have "node_map b \<subseteq>\<^sub>m node_map b'" unfolding m by (rule map_le_map_add)
  moreover have "node_map b' k \<noteq> None" by (simp add: m map_add_def split: option.splits)
  moreover have "ntype b' = ntype b" using b2(3) by (simp add: e same_meta_def)
  ultimately show ?thesis by blast
qed

lemma help_pred_grows:
  assumes "sound M b" "cap (ntype b) = Some M" "key_ok k" "wide v" "help_pred b k v = Inr (ok, b')"
  shows "sound M b' \<and> ntype b' = ntype b \<and> node_map b \<subseteq>\<^sub>m node_map b'"
  using store_grows [OF assms(1) _ assms(3,4), of M ok b'] assms by (auto simp: help_pred_eq sound_def)

lemma overlay_sound:
  assumes "sound N new" "node_shape old" "44 + 32 * N \<le> sz" "sz \<le> 560"
  shows "sound N (overlay sz new old)" "node_map (overlay sz new old) = node_map new" "ntype (overlay sz new old) = ntype new"
  using overlay_records [of N new old sz] assms by (simp_all add: sound_def node_map_def)

text \<open>The type chosen for a node has room for its records, whose fingerprints are not zero.\<close>

lemma morph_fits:
  assumes "sound 16 r" "morph_node r = Inr ty"
  obtains M where "cap ty = Some M" "unat (nxt r) \<le> M"
proof -
  let ?f = "filter (\<lambda>f. f \<noteq> 0) (take 16 (fingerprints r))"
  have l: "length (fingerprints r) = 16" "unat (nxt r) \<le> 16" using assms(1) by (simp_all add: sound_def node_shape_def node_inv_def)
  have nz: "fingerprints r ! i \<noteq> 0" if "i < unat (nxt r)" for i
  proof -
    have v: "node_inv 16 r" using assms(1) by (simp add: sound_def)
    then have "node_map r (nkey r i) \<noteq> None" using that node_map_None [OF v, of "nkey r i"] by blast
    with assms(1) have "fp (nkey r i) \<noteq> 0" by (simp add: sound_def)
    with node_inv_nth(4) [OF v that] show ?thesis by simp
  qed
  have "unat (nxt r) = length (filter (\<lambda>f. f \<noteq> 0) (take (unat (nxt r)) (fingerprints r)))"
    using nz l by (subst filter_True) (auto simp: in_set_conv_nth)
  also have "\<dots> \<le> length ?f"
    using l filter_append [of "\<lambda>f. f \<noteq> 0" "take (unat (nxt r)) (fingerprints r)" "drop (unat (nxt r)) (fingerprints r)"] by simp
  finally have c: "unat (nxt r) \<le> length ?f" .
  have c16: "length ?f \<le> 16" using length_filter_le [of _ "take 16 (fingerprints r)"] l by simp
  have t: "ty = type_num (if length ?f \<le> 10 then Type10 else if length ?f \<le> 12 then Type12
      else if length ?f \<le> 14 then Type14 else Type16)"
    using assms(2) c16 l by (simp add: morph_node_def Let_def split: if_splits)
  consider "length ?f \<le> 10" | "10 < length ?f" "length ?f \<le> 12" | "12 < length ?f" "length ?f \<le> 14" | "14 < length ?f" by linarith
  then show ?thesis
    by cases (use t c c16 that in \<open>auto simp: cap_def simp del: type_num.simps\<close>)
qed

subsection \<open>What a state keeps\<close>

definition kind :: "hs \<Rightarrow> nat \<Rightarrow> nat option" where
  "kind s d = (case heap (nodes s) d of None \<Rightarrow> None | Some n \<Rightarrow> cap (sn_type n))"

definition stored :: "hs \<Rightarrow> nat \<Rightarrow> linked_node option" where
  "stored s d = (case heap (nodes s) d of None \<Rightarrow> None | Some n \<Rightarrow> remote s (data_node n))"

fun args :: "pc \<Rightarrow> (bytes \<times> bytes) option" where
  "args (Dispatch d k v) = Some (k, v)"
| "args (Drain d k v) = Some (k, v)"
| "args (Enter d k v) = Some (k, v)"
| "args (CasRight d k v l) = Some (k, v)"
| "args (CasLeft d k v l) = Some (k, v)"
| "args (Undo d k v) = Some (k, v)"
| "args (GiveBack d k v) = Some (k, v)"
| "args (Open d k v l) = Some (k, v)"
| "args (Fetch d k v l) = Some (k, v)"
| "args (Shut d k v) = Some (k, v)"
| "args (Own d k v) = Some (k, v)"
| "args (GrowOwn d k v) = Some (k, v)"
| "args (Spin c d k v) = Some (k, v)"
| "args (Sub c d k v) = Some (k, v)"
| "args (Queue c d k v) = Some (k, v)"
| "args (Await a d k v) = Some (k, v)"
| "args _ = None"

text \<open>The node a thread is about to take, and the one whose copy it has in its buffer, with the
  number of slots it may use there.\<close>

fun target :: "pc \<Rightarrow> nat option" where
  "target (Drain d k v) = Some d"
| "target (Enter d k v) = Some d"
| "target (CasRight d k v l) = Some d"
| "target (CasLeft d k v l) = Some d"
| "target (Open d k v l) = Some d"
| "target (Fetch d k v l) = Some d"
| "target _ = None"

fun phase :: "pc \<Rightarrow> (nat \<times> nat) option" where
  "phase (Shut d k v) = Some (d, 16)"
| "phase (Own d k v) = Some (d, 16)"
| "phase (GrowOwn d k v) = Some (d, 16)"
| "phase (Help d) = Some (d, 10)"
| "phase (Size d) = Some (d, 10)"
| "phase (Rest d) = Some (d, 16)"
| "phase (Grow d) = Some (d, 16)"
| "phase _ = None"

definition good_request :: "request \<Rightarrow> bool" where
  "good_request r \<longleftrightarrow> key_ok (tag r) \<and> wide (content r)"

definition good_queue :: "hs \<Rightarrow> bool" where
  "good_queue s \<longleftrightarrow> (\<forall>c x. ctxs s c = Some x \<longrightarrow> list_all good_request (requests x))"

text \<open>A buffered copy has at least the records of the node it was read from.\<close>

definition covers :: "nat \<Rightarrow> linked_node option \<Rightarrow> linked_node \<Rightarrow> bool" where
  "covers N old new \<longleftrightarrow> sound N new \<and> (\<exists>x. old = Some x \<and> ntype new = ntype x \<and> node_map x \<subseteq>\<^sub>m node_map new)"

definition copy_ok :: "hs \<Rightarrow> nat \<Rightarrow> nat \<times> nat \<Rightarrow> bool" where
  "copy_ok s t = (\<lambda>(d, N). kind s d \<noteq> None \<and> covers N (stored s d) (snd (bufs s t)) \<and>
     (\<forall>l M. behind s d = Some l \<longrightarrow> kind s l = Some M \<longrightarrow> covers M (stored s l) (fst (bufs s t))))"

definition thread_ok :: "hs \<Rightarrow> nat \<Rightarrow> bool" where
  "thread_ok s t \<longleftrightarrow> node_shape (fst (bufs s t)) \<and> node_shape (snd (bufs s t)) \<and>
     (\<forall>k v. args (pcs s t) = Some (k, v) \<longrightarrow> key_ok k \<and> wide v) \<and>
     (\<forall>d. target (pcs s t) = Some d \<longrightarrow> kind s d \<noteq> None) \<and>
     (\<forall>p. phase (pcs s t) = Some p \<longrightarrow> copy_ok s t p)"

definition nodes_ok :: "hs \<Rightarrow> bool" where
  "nodes_ok s \<longleftrightarrow> (\<forall>p x. remote s p = Some x \<longrightarrow> node_shape x) \<and>
     (\<forall>d M. kind s d = Some M \<longrightarrow> (\<exists>x. stored s d = Some x \<and> sound M x \<and> cap (ntype x) = Some M)) \<and>
     (\<forall>d n. heap (nodes s) d = Some n \<longrightarrow> cap (sn_type n) \<noteq> None \<longrightarrow> (\<forall>x. remote s (data_node n) = Some x \<longrightarrow> ntype x = sn_type n)) \<and>
     (\<forall>d d' n n'. heap (nodes s) d = Some n \<longrightarrow> heap (nodes s) d' = Some n' \<longrightarrow> data_node n = data_node n' \<longrightarrow> d = d')"

definition places_ok :: "hs \<Rightarrow> bool" where
  "places_ok s \<longleftrightarrow> distinct (spare s) \<and> (\<forall>d n. heap (nodes s) d = Some n \<longrightarrow> data_node n \<notin> set (spare s))"

definition safe :: "hs \<Rightarrow> bool" where
  "safe s \<longleftrightarrow> locks_ok s \<and> nodes_ok s \<and> places_ok s \<and> good_queue s \<and> (\<forall>t. thread_ok s t)"

subsection \<open>Steps that leave remote memory alone\<close>

definition same_nodes :: "hs \<Rightarrow> hs \<Rightarrow> bool" where
  "same_nodes s s' \<longleftrightarrow> (\<forall>d. map_option (\<lambda>n. (data_node n, sn_type n, backward n)) (heap (nodes s') d) =
     map_option (\<lambda>n. (data_node n, sn_type n, backward n)) (heap (nodes s) d)) \<and> remote s' = remote s \<and> spare s' = spare s"

lemma same_nodesD:
  assumes "same_nodes s s'" "heap (nodes s') d = Some n'"
  obtains n where "heap (nodes s) d = Some n" "data_node n = data_node n'" "sn_type n = sn_type n'" "backward n = backward n'"
proof -
  have "map_option (\<lambda>n. (data_node n, sn_type n, backward n)) (heap (nodes s) d) = Some (data_node n', sn_type n', backward n')"
    using assms(1) [unfolded same_nodes_def, THEN conjunct1, rule_format, of d] assms(2) by simp
  then show ?thesis by (cases "heap (nodes s) d") (auto intro: that)
qed

lemma same_nodes_sym: "same_nodes s s' \<Longrightarrow> same_nodes s' s"
  by (simp add: same_nodes_def)

lemma same_views:
  assumes "same_nodes s s'"
  shows "kind s' d = kind s d" "stored s' d = stored s d" "behind s' d = behind s d"
proof -
  have r: "remote s' = remote s" using assms by (simp add: same_nodes_def)
  have "kind s' d = kind s d \<and> stored s' d = stored s d \<and> behind s' d = behind s d"
  proof (cases "heap (nodes s') d")
    case None
    then have "heap (nodes s) d = None"
      using assms [unfolded same_nodes_def, THEN conjunct1, rule_format, of d] by simp
    with None show ?thesis by (simp add: kind_def stored_def behind_def)
  next
    case (Some n')
    from same_nodesD [OF assms this] obtain n where "heap (nodes s) d = Some n" "data_node n = data_node n'"
      "sn_type n = sn_type n'" "backward n = backward n'" .
    with Some r show ?thesis by (simp add: kind_def stored_def behind_def)
  qed
  then show "kind s' d = kind s d" "stored s' d = stored s d" "behind s' d = behind s d" by simp_all
qed

lemma same_nodes_ok:
  assumes "same_nodes s s'" "nodes_ok s"
  shows "nodes_ok s'"
proof -
  note v = same_views [OF assms(1)]
  have r: "remote s' = remote s" using assms(1) by (simp add: same_nodes_def)
  have "ntype x = sn_type n'" if "heap (nodes s') d = Some n'" "cap (sn_type n') \<noteq> None" "remote s (data_node n') = Some x" for d n' x
  proof -
    from same_nodesD [OF assms(1) that(1)] obtain n where "heap (nodes s) d = Some n" "data_node n = data_node n'"
      "sn_type n = sn_type n'" .
    with that(2,3) assms(2) show ?thesis unfolding nodes_ok_def by metis
  qed
  moreover have "d = d'" if "heap (nodes s') d = Some n" "heap (nodes s') d' = Some n'" "data_node n = data_node n'" for d d' n n'
  proof -
    from same_nodesD [OF assms(1) that(1)] obtain m where "heap (nodes s) d = Some m" "data_node m = data_node n" .
    moreover from same_nodesD [OF assms(1) that(2)] obtain m' where "heap (nodes s) d' = Some m'" "data_node m' = data_node n'" .
    ultimately show ?thesis using that(3) assms(2) unfolding nodes_ok_def by metis
  qed
  ultimately show ?thesis using assms(2) unfolding nodes_ok_def v r by blast
qed

lemma safe_local:
  assumes "safe s" "locks_ok s'" "same_nodes s s'" "good_queue s'"
    "\<And>u. u \<noteq> t \<Longrightarrow> bufs s' u = bufs s u \<and> pcs s' u = pcs s u" "thread_ok s' t"
  shows "safe s'"
proof -
  note v = same_views [OF assms(3)]
  have "thread_ok s' u" if "u \<noteq> t" for u
  proof -
    have "thread_ok s u" using assms(1) by (simp add: safe_def)
    then show ?thesis using assms(5) [OF that] by (simp add: thread_ok_def copy_ok_def v split_beta)
  qed
  then have "thread_ok s' u" for u using assms(6) by (cases "u = t") simp_all
  moreover have "places_ok s'"
  proof -
    have "data_node n' \<notin> set (spare s)" if "heap (nodes s') d = Some n'" for d n'
    proof -
      from same_nodesD [OF assms(3) that(1)] obtain n where "heap (nodes s) d = Some n" "data_node n = data_node n'" .
      with assms(1) show ?thesis unfolding safe_def places_ok_def by metis
    qed
    moreover have "spare s' = spare s" using assms(3) by (simp add: same_nodes_def)
    ultimately show ?thesis using assms(1) by (simp add: safe_def places_ok_def)
  qed
  ultimately show ?thesis using assms(1,2,4) same_nodes_ok [OF assms(3)] by (simp add: safe_def)
qed

definition moves :: "nat \<Rightarrow> hs \<Rightarrow> hs \<Rightarrow> bool" where
  "moves t s s' \<longleftrightarrow> same_nodes s s' \<and> good_queue s' \<and> (\<forall>u. u \<noteq> t \<longrightarrow> bufs s' u = bufs s u \<and> pcs s' u = pcs s u) \<and> thread_ok s' t"

lemma moves_safe: "safe s \<Longrightarrow> locks_ok s' \<Longrightarrow> moves t s s' \<Longrightarrow> safe s'"
  by (rule safe_local [of s s' t]) (simp_all add: moves_def)

lemma copy_ok_same: "same_nodes s s' \<Longrightarrow> bufs s' t = bufs s t \<Longrightarrow> copy_ok s' t = copy_ok s t"
  by (simp add: copy_ok_def same_views fun_eq_iff)

lemma copy_ok_weaken: "copy_ok s t (d, 10) \<Longrightarrow> copy_ok s t (d, 16)"
  by (auto simp: copy_ok_def covers_def intro: sound_up)

lemma thread_move:
  assumes "thread_ok s t" "same_nodes s s'" "bufs s' t = bufs s t" "pcs s' t = p"
    "args p = None \<or> args p = args (pcs s t)" "target p = None \<or> target p = target (pcs s t)"
    "phase p = None \<or> phase p = phase (pcs s t)"
  shows "thread_ok s' t"
  using assms by (elim disjE) (simp_all add: thread_ok_def copy_ok_same same_views)

lemma same_simps [simp]:
  "same_nodes s s" "same_nodes s (go t p s') = same_nodes s s'" "same_nodes s (set_ctx c x s') = same_nodes s s'"
  "same_nodes s (set_bufs t a b s') = same_nodes s s'" "same_nodes s (tell r s') = same_nodes s s'"
  "same_nodes s (bufs_update f s') = same_nodes s s'" "same_nodes s (fresh_update g s') = same_nodes s s'"
  by (simp_all add: same_nodes_def go_def set_ctx_def set_bufs_def tell_def)

lemma bufs_simps [simp]:
  "bufs (go t p s) = bufs s" "bufs (set_ctx c x s) = bufs s" "bufs (tell r s) = bufs s"
  "bufs (set_bufs t a b s) = (bufs s)(t := (a, b))"
  by (simp_all add: go_def set_ctx_def tell_def set_bufs_def)

lemma node_view_simps [simp]:
  "kind (go t p s) = kind s" "kind (set_ctx c x s) = kind s" "kind (tell r s) = kind s" "kind (set_bufs t a b s) = kind s"
  "stored (go t p s) = stored s" "stored (set_ctx c x s) = stored s" "stored (tell r s) = stored s"
  "stored (set_bufs t a b s) = stored s"
  by (auto simp: kind_def stored_def go_def set_ctx_def tell_def set_bufs_def fun_eq_iff split: option.splits)

lemma queue_simps [simp]:
  "good_queue (go t p s) = good_queue s" "good_queue (tell r s) = good_queue s" "good_queue (set_bufs t a b s) = good_queue s"
  "good_queue (bufs_update f s) = good_queue s" "good_queue (fresh_update g s) = good_queue s"
  by (simp_all add: good_queue_def go_def tell_def set_bufs_def)

lemma good_queue_set:
  "good_queue s \<Longrightarrow> list_all good_request (requests x) \<Longrightarrow> good_queue (set_ctx c x s)"
  by (auto simp: good_queue_def set_ctx_def)

lemma good_queue_get:
  assumes "good_queue s" "shared_ctx c s = Inr x"
  shows "list_all good_request (requests x)"
  using assms by (auto simp: good_queue_def shared_ctx_def split: option.splits)

lemma store_owner_same:
  assumes "store_owner p c s = Inr s'"
  shows "same_nodes s s'" "bufs s' = bufs s" "pcs s' = pcs s" "good_queue s' = good_queue s"
  using assms by (auto simp: store_owner_def modify_def res_simps deref_def same_nodes_def good_queue_def split: option.splits)

lemma cas_owner_same:
  assumes "cas_owner p c s = Inr (won, e, s')"
  shows "same_nodes s s'" "bufs s' = bufs s" "pcs s' = pcs s" "good_queue s' = good_queue s"
  using assms store_owner_same [of p "Some c" s s'] by (auto simp: cas_owner_def res_simps split: if_splits)

lemma set_depth_same:
  assumes "set_depth t i s = Inr s'" "good_queue s"
  shows "same_nodes s s'" "bufs s' = bufs s" "pcs s' = pcs s" "good_queue s'"
  using assms good_queue_get [OF assms(2), of t] by (auto simp: set_depth_def res_simps intro!: good_queue_set)

text \<open>Moving on after something that leaves the nodes alone.\<close>

lemma moves_go:
  assumes "thread_ok s t" "same_nodes s s1" "bufs s1 = bufs s" "pcs s1 = pcs s" "good_queue s1"
    "args p = None \<or> args p = args (pcs s t)" "target p = None \<or> target p = target (pcs s t)"
    "phase p = None \<or> phase p = phase (pcs s t)"
  shows "moves t s (go t p s1)"
  using assms thread_move [OF assms(1), of "go t p s1" p] by (simp add: moves_def)

lemma moves_stay:
  assumes "thread_ok s t" "same_nodes s s'" "bufs s' = bufs s" "pcs s' = pcs s" "good_queue s'"
  shows "moves t s s'"
  using assms thread_move [OF assms(1,2), of "pcs s t"] by (simp add: moves_def)

lemma step_dispatch_moves:
  assumes "thread_ok s t" "good_queue s" "pcs s t = Dispatch d k v" "step_dispatch t d k v s = Inr s'"
  shows "moves t s s'"
proof -
  obtain n where n: "heap (nodes s) d = Some n"
    and s': "s' = go t (if enumerator (sn_type n) = Some Type10 then Drain d k v else Elsewhere) s"
    using assms(4) by (auto simp: step_defs res_simps)
  have "kind s d \<noteq> None" if "enumerator (sn_type n) = Some Type10" using n that by (simp add: kind_def cap_def)
  then have "thread_ok s' t" using assms(1,3) s' by (auto simp: thread_ok_def)
  then show ?thesis using s' assms(2) by (simp add: moves_def)
qed

lemma drain_turn_moves:
  assumes "thread_ok s t" "good_queue s" "drain_turn t p s = Inr s'"
    "args p = None \<or> args p = args (pcs s t)" "target p = None \<or> target p = target (pcs s t)" "phase p = None"
  shows "moves t s s'"
proof -
  obtain c where c: "shared_ctx t s = Inr c" using assms(3) by (auto simp: drain_turn_def res_simps)
  note g = good_queue_get [OF assms(2) c]
  show ?thesis
  proof (cases "requests c")
    case Nil
    with assms(3) c have "s' = go t p s" by (simp add: drain_turn_def)
    with moves_go [OF assms(1), of s p] assms(2,4-) show ?thesis by simp
  next
    case (Cons r rs)
    with assms(3) c have s': "s' = tell (r\<lparr>succeed := False, retry := True, is_done := True\<rparr>) (set_ctx t (c\<lparr>requests := rs\<rparr>) s)"
      by (simp add: drain_turn_def)
    show ?thesis unfolding s' using g Cons assms(2) by (intro moves_stay [OF assms(1)]) (simp_all add: good_queue_set)
  qed
qed

text \<open>A reader changes nothing but its own buffer.\<close>

lemma step_get_read_moves:
  assumes "nodes_ok s" "thread_ok s t" "good_queue s" "step_get_read crcf t d k s = Inr s'"
  shows "moves t s s'"
proof -
  obtain p r where b: "bufs s t = (p, r)" by (cases "bufs s t")
  obtain n x where n: "deref (nodes s) (Some d) = Inr n" and x: "load_remote (data_node n) s = Inr x"
    using assms(4) by (auto simp: step_get_read_def res_bind_eq_Inr)
  obtain q where s': "s' = go t q (set_bufs t (overlay 560 x p) r s)" and q: "args q = None" "target q = None" "phase q = None"
    using assms(4) b n x by (auto simp: step_get_read_def Let_def res_bind_eq_Inr split: if_splits)
  have "node_shape x" using x assms(1) by (auto simp: load_remote_def nodes_ok_def split: option.splits)
  then have "node_shape (overlay 560 x p)" "node_shape r"
    using assms(2) b overlay_agree(2) [of x p 16 560] by (simp_all add: thread_ok_def)
  then show ?thesis using s' q assms(3) by (simp add: moves_def thread_ok_def)
qed

lemma step_enter_moves:
  assumes "thread_ok s t" "good_queue s" "pcs s t = Enter d k v" "step_enter t d k v s = Inr s'"
  shows "moves t s s'"
proof -
  obtain c and n :: skip_node where c: "shared_ctx t s = Inr c" and
    s': "s' = go t (CasRight d k v (backward n)) (set_ctx t (c\<lparr>max_depth := - 1, ctype := Insert\<rparr>) s)"
    using assms(4) by (auto simp: step_defs res_simps)
  show ?thesis unfolding s' using good_queue_get [OF assms(2) c] assms(2,3)
    by (intro moves_go [OF assms(1)]) (simp_all add: good_queue_set)
qed

lemma step_cas_right_moves:
  assumes "thread_ok s t" "good_queue s" "pcs s t = CasRight d k v l" "step_cas_right t d k v l s = Inr s'"
  shows "moves t s s'"
proof -
  obtain won e s1 where c: "cas_owner (Some d) t s = Inr (won, e, s1)"
    using assms(4) by (auto simp: step_cas_right_def res_simps)
  note f = cas_owner_same [OF c]
  from assms(4) c consider "s' = go t (CasLeft d k v l) s1" | "s' = go t (Dispatch d k v) s1" | c' where "s' = go t (Spin c' d k v) s1"
    by (auto simp: step_cas_right_def res_simps split: option.splits if_splits)
  then show ?thesis by cases (use f assms(2,3) in \<open>auto intro!: moves_go [OF assms(1)]\<close>)
qed

lemma step_cas_left_moves:
  assumes "thread_ok s t" "good_queue s" "pcs s t = CasLeft d k v l" "step_cas_left t d k v l s = Inr s'"
  shows "moves t s s'"
proof -
  obtain won e s1 where c: "cas_owner l t s = Inr (won, e, s1)" and s': "s' = go t (if won then Open d k v l else Undo d k v) s1"
    using assms(4) by (auto simp: step_cas_left_def res_simps)
  note f = cas_owner_same [OF c]
  show ?thesis unfolding s' using f assms(2,3) by (intro moves_go [OF assms(1)]) simp_all
qed

lemma set_depth_moves:
  assumes "thread_ok s t" "good_queue s" "set_depth t i s = Inr s1" "s' = go t p s1"
    "args p = None \<or> args p = args (pcs s t)" "target p = None \<or> target p = target (pcs s t)"
    "phase p = None \<or> phase p = phase (pcs s t)"
  shows "moves t s s'"
  unfolding assms(4) using set_depth_same [OF assms(3,2)] assms(5-) by (intro moves_go [OF assms(1)])

lemma release_moves:
  assumes "thread_ok s t" "good_queue s" "store_owner q None s = Inr s1" "s' = go t p s1"
    "args p = None \<or> args p = args (pcs s t)" "target p = None \<or> target p = target (pcs s t)"
    "phase p = None \<or> phase p = phase (pcs s t)"
  shows "moves t s s'"
  unfolding assms(4) using store_owner_same [OF assms(3)] assms(2,5-) by (intro moves_go [OF assms(1)]) simp_all

text \<open>Reading both nodes makes the copies.\<close>

lemma fetched_covers:
  assumes "nodes_ok s" "heap (nodes s) d = Some n" "cap (sn_type n) = Some M" "load_remote (data_node n) s = Inr x" "node_shape b"
  shows "covers M (stored s d) (overlay (sizeof_node (sn_type n)) x b)"
proof -
  have x: "remote s (data_node n) = Some x" using assms(4) by (simp add: load_remote_def split: option.splits)
  then have st: "stored s d = Some x" using assms(2) by (simp add: stored_def)
  have "kind s d = Some M" using assms(2,3) by (simp add: kind_def)
  with assms(1) st have sx: "sound M x" unfolding nodes_ok_def by fastforce
  have "sizeof_node (sn_type n) = sizeof_linked_node 16 M" "M \<le> 16" using cap_size [OF assms(3)] by simp_all
  then have sz: "44 + 32 * M \<le> sizeof_node (sn_type n)" "sizeof_node (sn_type n) \<le> 560"
    by (simp_all add: sizeof_linked_node_def)
  show ?thesis using overlay_sound [OF sx assms(5) sz] st by (simp add: covers_def)
qed

lemma covers_up: "covers M old n \<Longrightarrow> M \<le> N \<Longrightarrow> N \<le> 16 \<Longrightarrow> covers N old n"
  by (auto simp: covers_def intro: sound_up)

lemma overlay_shape:
  assumes "node_shape new" "node_shape old" "sz \<le> 560"
  shows "node_shape (overlay sz new old)"
  unfolding overlay_def using assms by (intro decode_shape) (simp add: length_encode_node)

lemma step_fetch_moves:
  assumes "nodes_ok s" "thread_ok s t" "good_queue s" "l = behind s d" "pcs s t = Fetch d k v l" "step_fetch t d k v l s = Inr s'"
  shows "moves t s s'"
proof -
  obtain p0 r0 where b: "bufs s t = (p0, r0)" by (cases "bufs s t")
  obtain nl nr p r where n: "deref (nodes s) l = Inr nl" "heap (nodes s) d = Some nr"
    "load_remote (data_node nl) s = Inr p" "load_remote (data_node nr) s = Inr r"
    and s': "s' = go t (Shut d k v) (s\<lparr>bufs := (bufs s)(t :=
       (overlay (sizeof_node (sn_type nl)) p p0, overlay (sizeof_node (sn_type nr)) r r0))\<rparr>)"
    using assms(6) b by (auto simp: step_defs res_simps)
  let ?P = "overlay (sizeof_node (sn_type nl)) p p0" and ?R = "overlay (sizeof_node (sn_type nr)) r r0"
  have s2: "s' = go t (Shut d k v) (set_bufs t ?P ?R s)" by (simp add: s' set_bufs_def)
  have sh: "node_shape p0" "node_shape r0" using assms(2) b by (simp_all add: thread_ok_def)
  have sh2: "node_shape p" "node_shape r" using assms(1) n(3,4) by (auto simp: nodes_ok_def load_remote_def split: option.splits)
  have kd: "kind s d \<noteq> None" using assms(2,5) by (simp add: thread_ok_def)
  then obtain M where M: "cap (sn_type nr) = Some M" using n(2) by (auto simp: kind_def)
  have cr: "covers 16 (stored s d) ?R"
    using covers_up [OF fetched_covers [OF assms(1) n(2) M n(4) sh(2)]] cap_size [OF M] by simp
  have cp: "covers K (stored s l') ?P" if "behind s d = Some l'" "kind s l' = Some K" for l' K
  proof -
    have h: "heap (nodes s) l' = Some nl" using n(1) that(1) assms(4) by simp
    moreover have "cap (sn_type nl) = Some K" using h that(2) by (simp add: kind_def)
    ultimately show ?thesis by (rule fetched_covers [OF assms(1) _ _ n(3) sh(1)])
  qed
  have "copy_ok s' t (d, 16)" using kd cr cp by (auto simp: copy_ok_def s2)
  moreover have "node_shape ?P" "node_shape ?R" using sh sh2 by (simp_all add: overlay_shape sizeof_node_le)
  moreover have "key_ok k" "wide v" using assms(2,5) by (simp_all add: thread_ok_def)
  ultimately have "thread_ok s' t" by (simp add: thread_ok_def s2)
  then show ?thesis using assms(3) by (simp add: moves_def s2)
qed

lemma covers_trans:
  "covers N old b \<Longrightarrow> sound N' b' \<Longrightarrow> ntype b' = ntype b \<Longrightarrow> node_map b \<subseteq>\<^sub>m node_map b' \<Longrightarrow> covers N' old b'"
  by (auto simp: covers_def intro: map_le_trans)

text \<open>What may happen to the copies of a thread: both only gain records.\<close>

definition richer :: "linked_node \<Rightarrow> linked_node \<Rightarrow> bool" where
  "richer p p' \<longleftrightarrow> (node_shape p \<longrightarrow> node_shape p') \<and>
     (\<forall>M. sound M p \<longrightarrow> cap (ntype p) = Some M \<longrightarrow> sound M p' \<and> ntype p' = ntype p \<and> node_map p \<subseteq>\<^sub>m node_map p')"

lemma richer_refl [simp]: "richer p p"
  by (simp add: richer_def map_le_refl)

lemma help_pred_richer:
  assumes "key_ok k" "wide v" "help_pred p k v = Inr (ok, p')"
  shows "richer p p'"
  using help_pred_grows [OF _ _ assms(1,2,3)] help_pred_shape [OF assms(3)] assms(1,2) by (auto simp: richer_def key_ok_def)

lemma copies_move:
  assumes "nodes_ok s" "thread_ok s t" "phase (pcs s t) = Some (d, N)" "bufs s t = (p, r)"
    "sound N' r'" "ntype r' = ntype r" "node_map r \<subseteq>\<^sub>m node_map r'" "richer p p'"
    "same_nodes s s'" "bufs s' = (bufs s)(t := (p', r'))" "good_queue s'" "\<forall>u. u \<noteq> t \<longrightarrow> pcs s' u = pcs s u"
    "args (pcs s' t) = None \<or> args (pcs s' t) = args (pcs s t)" "target (pcs s' t) = None"
    "phase (pcs s' t) = None \<or> phase (pcs s' t) = Some (d, N')"
  shows "moves t s s'"
proof -
  have c: "copy_ok s t (d, N)" using assms(2,3) by (simp add: thread_ok_def)
  have sh: "node_shape p'" "node_shape r'" using assms(2,4,5,8) by (auto simp: thread_ok_def richer_def sound_def)
  have kd: "kind s d \<noteq> None" using c by (simp add: copy_ok_def)
  have cr: "covers N' (stored s d) r'" using c assms(4-7) by (auto simp: copy_ok_def intro: covers_trans)
  have cp: "covers M (stored s l) p'" if lM: "behind s d = Some l" "kind s l = Some M" for l M
  proof -
    have v: "covers M (stored s l) p" using c lM assms(4) by (simp add: copy_ok_def)
    then obtain x where x: "stored s l = Some x" "ntype p = ntype x" "sound M p" by (auto simp: covers_def)
    have "cap (ntype x) = Some M" using assms(1) lM(2) x(1) unfolding nodes_ok_def by fastforce
    with x(2,3) assms(8) have "sound M p'" "ntype p' = ntype p" "node_map p \<subseteq>\<^sub>m node_map p'" by (simp_all add: richer_def)
    then show ?thesis by (rule covers_trans [OF v])
  qed
  note sv = same_views [OF assms(9)]
  have "copy_ok s' t (d, N')" using kd cr cp assms(10) by (simp add: copy_ok_def sv)
  then have "thread_ok s' t" using assms(13,15) by (elim disjE) (use assms(2,10,14) sh in \<open>simp_all add: thread_ok_def\<close>)
  then show ?thesis using assms(9-12) by (simp add: moves_def)
qed

lemma thread_copy:
  assumes "thread_ok s t" "phase (pcs s t) = Some (d, N)" "bufs s t = (p, r)"
  shows "sound N r"
  using assms by (auto simp: thread_ok_def copy_ok_def covers_def)

lemma step_own_moves:
  assumes "nodes_ok s" "thread_ok s t" "good_queue s" "pcs s t = Own d k v" "step_own t d k v s = Inr s'"
  shows "moves t s s'"
proof -
  obtain p r where b: "bufs s t = (p, r)" by (cases "bufs s t")
  obtain ok r' where st: "store_kv 10 k v r = Inr (ok, r')"
    and s': "s' = (if ok then go t (Help d) (set_bufs t p r' s) else go t (GrowOwn d k v) s)"
    using assms(5) b by (auto simp: step_defs res_simps)
  have kv: "key_ok k" "wide v" using assms(2,4) by (simp_all add: thread_ok_def)
  have sr: "sound 16 r" using thread_copy [OF assms(2) _ b] assms(4) by simp
  note g = store_grows [OF sr _ kv st]
  show ?thesis
  proof (cases ok)
    case True
    with g have "sound 10 r'" "ntype r' = ntype r" "node_map r \<subseteq>\<^sub>m node_map r'" by simp_all
    then show ?thesis unfolding s' using True b assms(3,4)
      by (intro copies_move [OF assms(1,2) _ b, where d = d and N = 16 and N' = 10]) simp_all
  next
    case False
    then show ?thesis unfolding s' using assms(3,4) by (simp, intro moves_go [OF assms(2)]) simp_all
  qed
qed

lemma step_grow_own_moves:
  assumes "nodes_ok s" "thread_ok s t" "good_queue s" "pcs s t = GrowOwn d k v" "step_grow_own t d k v s = Inr s'"
  shows "moves t s s'"
proof -
  obtain p r where b: "bufs s t = (p, r)" by (cases "bufs s t")
  obtain ok r' where st: "store_kv 16 k v r = Inr (ok, r')" and s': "s' = go t (Rest d) (set_bufs t p r' s)"
    using assms(5) b by (auto simp: step_defs res_simps)
  have kv: "key_ok k" "wide v" using assms(2,4) by (simp_all add: thread_ok_def)
  have sr: "sound 16 r" using thread_copy [OF assms(2) _ b] assms(4) by simp
  from store_grows [OF sr _ kv st] have "sound 16 r'" "ntype r' = ntype r" "node_map r \<subseteq>\<^sub>m node_map r'" by simp_all
  then show ?thesis unfolding s' using b assms(3,4)
    by (intro copies_move [OF assms(1,2) _ b, where d = d and N = 16 and N' = 16]) simp_all
qed

lemma step_help_moves:
  assumes "nodes_ok s" "thread_ok s t" "good_queue s" "pcs s t = Help d" "step_help t d s = Inr s'"
  shows "moves t s s'"
proof -
  obtain p r where b: "bufs s t = (p, r)" by (cases "bufs s t")
  obtain c n where c: "shared_ctx t s = Inr c" "heap (nodes s) d = Some n" using assms(5) by (auto simp: step_defs res_simps)
  have sr: "sound 10 r" using thread_copy [OF assms(2) _ b] assms(4) by simp
  note gq = good_queue_get [OF assms(3) c(1)]
  show ?thesis
  proof (cases "requests c")
    case Nil
    with assms c b have "s' = go t (Size d) s" by (simp add: step_defs res_simps)
    with moves_go [OF assms(2), of s "Size d"] assms(3,4) show ?thesis by simp
  next
    case (Cons q qs)
    with gq have q: "key_ok (tag q)" "wide (content q)" and qs: "list_all good_request qs" by (simp_all add: good_request_def)
    note mv = copies_move [OF assms(1,2) _ b, where d = d and N = 10 and N' = 10]
    show ?thesis
    proof (cases "tag q < anchor n")
      case True
      obtain ok p' where h: "help_pred p (tag q) (content q) = Inr (ok, p')" and
        s': "s' = tell (q\<lparr>succeed := ok, retry := \<not> ok, is_done := True\<rparr>) (set_ctx t (c\<lparr>requests := qs\<rparr>) (set_bufs t p' r s))"
        using assms(5) c b Cons True by (auto simp: step_defs res_simps)
      show ?thesis unfolding s' using help_pred_richer [OF q h] sr qs assms(3,4)
        by (intro mv) (simp_all add: good_queue_set map_le_refl)
    next
      case False
      obtain ok r' where h: "store_kv 10 (tag q) (content q) r = Inr (ok, r')" and
        s': "s' = (if ok then tell (q\<lparr>succeed := ok, retry := False, is_done := True\<rparr>) (set_ctx t (c\<lparr>requests := qs\<rparr>) (set_bufs t p r' s))
                   else go t (Size d) (set_ctx t (c\<lparr>requests := qs @ [q]\<rparr>) (set_bufs t p r' s)))"
        using assms(5) c b Cons False by (auto simp: step_defs res_simps)
      have "good_request q" using gq Cons by simp
      with store_grows [OF sr _ q h] sr qs assms(3,4) show ?thesis unfolding s'
        by (intro mv) (simp_all add: good_queue_set)
    qed
  qed
qed

lemma step_rest_moves:
  assumes "nodes_ok s" "thread_ok s t" "good_queue s" "pcs s t = Rest d" "step_rest t d s = Inr s'"
  shows "moves t s s'"
proof -
  obtain p r where b: "bufs s t = (p, r)" by (cases "bufs s t")
  obtain c n where c: "shared_ctx t s = Inr c" "heap (nodes s) d = Some n" using assms(5) by (auto simp: step_defs res_simps)
  have sr: "sound 16 r" using thread_copy [OF assms(2) _ b] assms(4) by simp
  note gq = good_queue_get [OF assms(3) c(1)]
  show ?thesis
  proof (cases "requests c")
    case Nil
    with assms c b have "s' = go t (Grow d) s" by (simp add: step_defs res_simps)
    with moves_go [OF assms(2), of s "Grow d"] assms(3,4) show ?thesis by simp
  next
    case (Cons q qs)
    with gq have q: "key_ok (tag q)" "wide (content q)" and qs: "list_all good_request qs" by (simp_all add: good_request_def)
    note mv = copies_move [OF assms(1,2) _ b, where d = d and N = 16 and N' = 16]
    show ?thesis
    proof (cases "anchor n \<le> tag q")
      case True
      obtain ok r' where h: "store_kv 16 (tag q) (content q) r = Inr (ok, r')" and
        s': "s' = tell (q\<lparr>succeed := ok, retry := \<not> ok, is_done := True\<rparr>) (set_ctx t (c\<lparr>requests := qs\<rparr>) (set_bufs t p r' s))"
        using assms(5) c b Cons True by (auto simp: step_defs res_simps)
      show ?thesis unfolding s' using store_grows [OF sr _ q h] qs assms(3,4) by (intro mv) (simp_all add: good_queue_set)
    next
      case False
      obtain ok p' where h: "help_pred p (tag q) (content q) = Inr (ok, p')" and
        s': "s' = tell (q\<lparr>succeed := ok, retry := \<not> ok, is_done := True\<rparr>) (set_ctx t (c\<lparr>requests := qs\<rparr>) (set_bufs t p' r s))"
        using assms(5) c b Cons False by (auto simp: step_defs res_simps)
      show ?thesis unfolding s' using help_pred_richer [OF q h] sr qs assms(3,4)
        by (intro mv) (simp_all add: good_queue_set map_le_refl)
    qed
  qed
qed

lemma step_loser_moves:
  assumes "thread_ok s t" "good_queue s" "act crcf t (pcs s t) s = Inr s'"
    "\<exists>c d k v. pcs s t \<in> {Spin c d k v, Sub c d k v, Queue c d k v, Await c d k v}"
  shows "moves t s s'"
proof -
  obtain c d k v where p: "pcs s t \<in> {Spin c d k v, Sub c d k v, Queue c d k v, Await c d k v}" using assms(4) by blast
  then have kv: "key_ok k" "wide v" using assms(1) by (auto simp: thread_ok_def)
  from p consider "pcs s t = Spin c d k v" | "pcs s t = Sub c d k v" | "pcs s t = Queue c d k v" | "pcs s t = Await c d k v" by blast
  then show ?thesis
  proof cases
    case 1
    with assms(3) have "s' = s \<or> s' = go t (Sub c d k v) s" by (auto simp: step_defs res_simps split: if_splits)
    then show ?thesis
    proof
      assume "s' = s"
      then show ?thesis using moves_stay [OF assms(1), of s] assms(2) by simp
    next
      assume "s' = go t (Sub c d k v) s"
      then show ?thesis using moves_go [OF assms(1), of s "Sub c d k v"] assms(2) 1 by simp
    qed
  next
    case 2
    with assms(3) obtain x where x: "shared_ctx c s = Inr x"
      "s' = go t (if 0 < max_depth x then Queue c d k v else Dispatch d k v) (set_ctx c (x\<lparr>max_depth := max_depth x - 1\<rparr>) s)"
      by (auto simp: step_defs res_simps)
    show ?thesis unfolding x(2) using good_queue_get [OF assms(2) x(1)] assms(2) 2
      by (intro moves_go [OF assms(1)]) (simp_all add: good_queue_set)
  next
    case 3
    with assms(3) obtain x where x: "shared_ctx c s = Inr x" "s' = go t (Await (fresh s) d k v)
        (set_ctx c (x\<lparr>requests := requests x @ [new_request (fresh s) k v]\<rparr>) (s\<lparr>fresh := fresh s + 1\<rparr>))"
      by (auto simp: step_defs res_simps)
    have "good_request (new_request (fresh s) k v)" using kv by (simp add: good_request_def new_request_def)
    then show ?thesis unfolding x(2) using good_queue_get [OF assms(2) x(1)] assms(2) 3
      by (intro moves_go [OF assms(1)]) (simp_all add: good_queue_set)
  next
    case 4
    with assms(3) have "s' = s \<or> s' = go t (Dispatch d k v) s \<or> (\<exists>b. s' = go t (Done b) s)"
      by (cases "told s c") (auto simp: step_defs split: if_splits)
    then show ?thesis
    proof (elim disjE exE)
      assume "s' = s"
      then show ?thesis using moves_stay [OF assms(1), of s] assms(2) by simp
    next
      assume "s' = go t (Dispatch d k v) s"
      then show ?thesis using moves_go [OF assms(1), of s "Dispatch d k v"] assms(2) 4 by simp
    next
      fix b assume "s' = go t (Done b) s"
      then show ?thesis using moves_go [OF assms(1), of s "Done b"] assms(2) 4 by simp
    qed
  qed
qed

subsection \<open>Steps that write remote memory\<close>

text \<open>Every node keeps its records.\<close>

definition keeps_records :: "hs \<Rightarrow> hs \<Rightarrow> bool" where
  "keeps_records s s' \<longleftrightarrow> (\<forall>d x. kind s d \<noteq> None \<longrightarrow> stored s d = Some x \<longrightarrow>
     kind s' d \<noteq> None \<and> (\<exists>x'. stored s' d = Some x' \<and> node_map x \<subseteq>\<^sub>m node_map x'))"

lemma same_keeps: "same_nodes s s' \<Longrightarrow> keeps_records s s'"
  by (auto simp: keeps_records_def same_views map_le_refl)

lemma keeps_trans: "keeps_records s s' \<Longrightarrow> keeps_records s' s'' \<Longrightarrow> keeps_records s s''"
  unfolding keeps_records_def by (blast intro: map_le_trans)

lemma inj_nodes:
  "nodes_ok s \<Longrightarrow> heap (nodes s) d = Some n \<Longrightarrow> heap (nodes s) d' = Some n' \<Longrightarrow> data_node n = data_node n' \<Longrightarrow> d = d'"
  unfolding nodes_ok_def by metis

lemma stored_typed:
  assumes "nodes_ok s" "kind s d = Some M"
  obtains n x where "heap (nodes s) d = Some n" "cap (sn_type n) = Some M" "remote s (data_node n) = Some x" "stored s d = Some x"
    "sound M x" "ntype x = sn_type n"
proof -
  obtain n where n: "heap (nodes s) d = Some n" "cap (sn_type n) = Some M" using assms(2) by (auto simp: kind_def split: option.splits)
  moreover obtain x where "stored s d = Some x" "sound M x" using assms unfolding nodes_ok_def by blast
  moreover from this n(1) have "remote s (data_node n) = Some x" by (simp add: stored_def)
  moreover from this n assms(1) have "ntype x = sn_type n" unfolding nodes_ok_def by blast
  ultimately show ?thesis by (intro that)
qed

text \<open>A node is written by the thread that has taken it, so the copies of the others stay good.\<close>

lemma other_copy:
  assumes "locks_ok s" "u \<noteq> t" "phase (pcs s u) = Some (d', N)" "n \<in> held (behind s) (pcs s t)"
  shows "n \<noteq> d'" "behind s d' \<noteq> Some n"
proof -
  have "held (behind s) (pcs s u) = insert d' (set_option (behind s d'))" using assms(3) by (cases "pcs s u") simp_all
  moreover have "n \<notin> held (behind s) (pcs s u)"
    using locks_held [OF assms(1), of n t] locks_held [OF assms(1), of n u] assms(2,4) by simp
  ultimately show "n \<noteq> d'" "behind s d' \<noteq> Some n" by auto
qed

lemma other_thread:
  assumes "locks_ok s" "thread_ok s u" "u \<noteq> t" "pcs s' u = pcs s u" "bufs s' u = bufs s u" "behind s' = behind s"
    "\<And>d. kind s d \<noteq> None \<Longrightarrow> kind s' d \<noteq> None"
    "\<And>d. d \<notin> held (behind s) (pcs s t) \<Longrightarrow> kind s' d = kind s d \<and> stored s' d = stored s d"
  shows "thread_ok s' u"
proof -
  have "copy_ok s' u (d', N)" if ph: "phase (pcs s u) = Some (d', N)" for d' N
  proof -
    have c: "copy_ok s u (d', N)" using assms(2) ph by (simp add: thread_ok_def)
    have "d' \<notin> held (behind s) (pcs s t)" using other_copy [OF assms(1,3) ph, of d'] by blast
    with c assms(8) have 1: "kind s' d' \<noteq> None" "covers N (stored s' d') (snd (bufs s u))" by (simp_all add: copy_ok_def)
    have "covers M (stored s' l) (fst (bufs s u))" if l: "behind s d' = Some l" "kind s' l = Some M" for l M
    proof -
      have "l \<notin> held (behind s) (pcs s t)" using other_copy [OF assms(1,3) ph, of l] l(1) by blast
      with assms(8) l c show ?thesis by (simp add: copy_ok_def)
    qed
    with 1 show ?thesis by (simp add: copy_ok_def assms(5,6))
  qed
  then show ?thesis using assms(2,4,5,7) by (simp add: thread_ok_def)
qed

lemma nodes_okI:
  assumes "\<And>q y. remote s q = Some y \<Longrightarrow> node_shape y"
    "\<And>e N. kind s e = Some N \<Longrightarrow> \<exists>y. stored s e = Some y \<and> sound N y \<and> cap (ntype y) = Some N"
    "\<And>e m y. heap (nodes s) e = Some m \<Longrightarrow> cap (sn_type m) \<noteq> None \<Longrightarrow> remote s (data_node m) = Some y \<Longrightarrow> ntype y = sn_type m"
    "\<And>e e' m m'. heap (nodes s) e = Some m \<Longrightarrow> heap (nodes s) e' = Some m' \<Longrightarrow> data_node m = data_node m' \<Longrightarrow> e = e'"
  shows "nodes_ok s"
  using assms unfolding nodes_ok_def by blast

lemma write_node:
  assumes "nodes_ok s" "heap (nodes s) d = Some n" "nodes s' = nodes s" "remote s' = (remote s)(data_node n \<mapsto> x)"
    "node_shape x" "\<And>M. cap (sn_type n) = Some M \<Longrightarrow> sound M x \<and> ntype x = sn_type n"
  shows "nodes_ok s'" "stored s' = (stored s)(d := Some x)" "kind s' = kind s" "behind s' = behind s"
proof -
  show k: "kind s' = kind s" and "behind s' = behind s" by (simp_all add: kind_def behind_def assms(3) fun_eq_iff)
  have ne: "data_node m \<noteq> data_node n" if "heap (nodes s) e = Some m" "e \<noteq> d" for e m
    using inj_nodes [OF assms(1) that(1) assms(2)] that(2) by blast
  show st: "stored s' = (stored s)(d := Some x)"
    using ne assms(2) by (auto simp: stored_def assms(3,4) fun_eq_iff split: option.splits)
  have "\<exists>y. stored s' e = Some y \<and> sound M y \<and> cap (ntype y) = Some M" if "kind s e = Some M" for e M
  proof (cases "e = d")
    case True
    with that assms(2) have "cap (sn_type n) = Some M" by (simp add: kind_def)
    with assms(6) st True show ?thesis by simp
  next
    case False
    then show ?thesis using assms(1) that unfolding st nodes_ok_def by simp
  qed
  moreover have "ntype y = sn_type m" if "heap (nodes s) e = Some m" "cap (sn_type m) \<noteq> None" "remote s' (data_node m) = Some y" for e m y
  proof (cases "e = d")
    case True
    with that assms(2,4,6) show ?thesis by auto
  next
    case False
    with ne that assms(1,4) show ?thesis unfolding nodes_ok_def by (metis fun_upd_other)
  qed
  moreover have "node_shape y" if "remote s' q = Some y" for q y
    using that assms(1,4,5) by (auto simp: nodes_ok_def split: if_splits)
  ultimately show "nodes_ok s'" using assms(1) unfolding nodes_ok_def k assms(3) by blast
qed

lemma write_fresh:
  assumes "nodes_ok s" "nodes s' = nodes s" "remote s' = (remote s)(a \<mapsto> x)" "node_shape x"
    "\<And>d n. heap (nodes s) d = Some n \<Longrightarrow> data_node n \<noteq> a"
  shows "nodes_ok s'" "stored s' = stored s" "kind s' = kind s" "behind s' = behind s"
proof -
  show k: "kind s' = kind s" and "behind s' = behind s" by (simp_all add: kind_def behind_def assms(2) fun_eq_iff)
  show st: "stored s' = stored s" using assms(5) by (auto simp: stored_def assms(2,3) fun_eq_iff split: option.splits)
  have "remote s' (data_node n) = remote s (data_node n)" if "heap (nodes s) d = Some n" for d n
    using assms(5) [OF that] by (simp add: assms(3))
  moreover have sh: "node_shape y" if "remote s' q = Some y" for q y
    using that assms(1,3,4) by (auto simp: nodes_ok_def split: if_splits)
  ultimately have "ntype y = sn_type n" if "heap (nodes s) d = Some n" "cap (sn_type n) \<noteq> None" "remote s' (data_node n) = Some y" for d n y
    using that assms(1) unfolding nodes_ok_def by simp
  with sh assms(1) show "nodes_ok s'" unfolding nodes_ok_def k st assms(2) by blast
qed

lemma point_node:
  assumes "nodes_ok s" "heap (nodes s) d = Some n" "heap (nodes s') = (heap (nodes s))(d \<mapsto> n\<lparr>data_node := a, sn_type := ty\<rparr>)"
    "remote s' = remote s" "remote s a = Some x" "cap ty = Some M" "sound M x" "ntype x = ty"
    "\<And>e m. heap (nodes s) e = Some m \<Longrightarrow> data_node m \<noteq> a"
  shows "nodes_ok s'" "stored s' = (stored s)(d := Some x)" "kind s' = (kind s)(d := Some M)" "behind s' = behind s"
proof -
  show k: "kind s' = (kind s)(d := Some M)" and "behind s' = behind s"
    using assms(2,6) by (auto simp: kind_def behind_def assms(3) fun_eq_iff)
  show st: "stored s' = (stored s)(d := Some x)" using assms(2,5) by (auto simp: stored_def assms(3,4) fun_eq_iff split: option.splits)
  have "\<exists>y. stored s' e = Some y \<and> sound N y \<and> cap (ntype y) = Some N" if "kind s' e = Some N" for e N
    using that assms(1,6-8) unfolding st k nodes_ok_def by (cases "e = d") auto
  moreover have "ntype y = sn_type m" if "heap (nodes s') e = Some m" "cap (sn_type m) \<noteq> None" "remote s (data_node m) = Some y" for e m y
    using that assms(1,5,8) unfolding assms(3) nodes_ok_def by (cases "e = d") auto
  moreover have "e = e'" if "heap (nodes s') e = Some m" "heap (nodes s') e' = Some m'" "data_node m = data_node m'" for e e' m m'
    using that assms(9) [of e m] assms(9) [of e' m'] inj_nodes [OF assms(1), of e m e' m'] unfolding assms(3)
    by (cases "e = d"; cases "e' = d") auto
  moreover have "node_shape y" if "remote s q = Some y" for q y using that assms(1) by (simp add: nodes_ok_def)
  ultimately show "nodes_ok s'" by (intro nodes_okI) (simp_all only: assms(4))
qed

lemma store_remote_eq:
  assumes "store_remote q sz x s = Inr s'"
  obtains old where "remote s q = Some old" "s' = s\<lparr>remote := (remote s)(q \<mapsto> overlay sz x old)\<rparr>"
  using assms by (auto simp: store_remote_def load_remote_def res_simps split: option.splits)

lemma step_size_safe:
  assumes sf: "safe s" and lo: "locks_ok s'" and pc: "pcs s t = Size d" and st: "step_size t d s = Inr s'"
  shows "safe s' \<and> keeps_records s s'"
proof -
  have ok: "nodes_ok s" "good_queue s" "\<And>u. thread_ok s u" "locks_ok s" "places_ok s" using sf by (simp_all add: safe_def)
  obtain c n where c: "shared_ctx t s = Inr c" "heap (nodes s) d = Some n" using st by (auto simp: step_defs res_simps)
  show ?thesis
  proof (cases "requests c = []")
    case False
    with st c have s': "s' = go t (Rest d) s" by (simp add: step_defs res_simps)
    have "copy_ok s t (d, 16)" using ok(3) [of t] pc by (intro copy_ok_weaken) (simp add: thread_ok_def)
    moreover have "copy_ok s' t = copy_ok s t" by (rule copy_ok_same) (simp_all add: s')
    ultimately have "copy_ok s' t (d, 16)" by simp
    then have "thread_ok s' t" using ok(3) [of t] by (simp add: s' thread_ok_def)
    then have "moves t s s'" using ok(2) by (simp add: s' moves_def)
    then show ?thesis using moves_safe [OF sf lo] same_keeps by (auto simp: moves_def)
  next
    case True
    obtain p r where b: "bufs s t = (p, r)" by (cases "bufs s t")
    obtain s1 where s1: "store_remote (data_node n) 368 r s = Inr s1" and s': "s' = go t (LeaveRight d True) s1"
      using st c True b by (auto simp: step_defs res_simps)
    obtain old where old: "remote s (data_node n) = Some old"
      and s1': "s1 = s\<lparr>remote := (remote s)(data_node n \<mapsto> overlay 368 r old)\<rparr>"
      using s1 by (rule store_remote_eq)
    let ?x = "overlay 368 r old"
    have co: "copy_ok s t (d, 10)" using ok(3) [of t] pc by (simp add: thread_ok_def)
    then have cv: "covers 10 (stored s d) r" using b by (simp add: copy_ok_def)
    have so: "stored s d = Some old" using c(2) old by (simp add: stored_def)
    have osh: "node_shape old" using ok(1) old by (simp add: nodes_ok_def)
    have r: "sound 10 r" "ntype r = ntype old" "node_map old \<subseteq>\<^sub>m node_map r" using cv so by (simp_all add: covers_def)
    have x: "sound 10 ?x" "node_map ?x = node_map r" "ntype ?x = ntype r"
      using overlay_sound [OF r(1) osh, of 368] by simp_all
    have w: "nodes_ok s1" "stored s1 = (stored s)(d := Some ?x)" "kind s1 = kind s" "behind s1 = behind s"
    proof -
      have a: "sound M ?x \<and> ntype ?x = sn_type n" if "cap (sn_type n) = Some M" for M
      proof -
        have "ntype old = sn_type n" using ok(1) c(2) old that unfolding nodes_ok_def by (metis option.distinct(1))
        then show ?thesis using sound_up [OF x(1)] cap_size [OF that] x(3) r(2) by simp
      qed
      note wn = write_node [OF ok(1) c(2), of s1 ?x, OF _ _ _ a]
      show "nodes_ok s1" "stored s1 = (stored s)(d := Some ?x)" "kind s1 = kind s" "behind s1 = behind s"
        using wn x(1) by (simp_all add: s1' sound_def)
    qed
    have g: "kind s' = kind s" "stored s' = (stored s)(d := Some ?x)" "behind s' = behind s" using w by (simp_all add: s')
    have kr: "keeps_records s s'" using so x(2) r(3) by (auto simp: keeps_records_def g map_le_refl)
    have th: "thread_ok s' u" for u
    proof (cases "u = t")
      case True
      then show ?thesis using ok(3) [of t] by (simp add: s' s1' thread_ok_def)
    next
      case False
      have "d \<in> held (behind s) (pcs s t)" using pc by simp
      then show ?thesis using False g
        by (intro other_thread [OF ok(4) ok(3) False]) (auto simp: s' s1')
    qed
    have "nodes_ok s'" by (rule same_nodes_ok [OF _ w(1)]) (simp add: s')
    then have "safe s'" using lo th ok(2,5) by (simp add: safe_def s' s1' places_ok_def go_def good_queue_def)
    with kr show ?thesis by simp
  qed
qed

text \<open>Growing: the predecessor is written back, the node goes to a fresh place and the search layer
  points there.\<close>

lemma step_grow_safe:
  assumes sf: "safe s" and lo: "locks_ok s'" and pc: "pcs s t = Grow d" and st: "step_grow crcf t d s = Inr s'"
  shows "safe s' \<and> keeps_records s s'"
proof -
  have ok: "nodes_ok s" "good_queue s" "\<And>u. thread_ok s u" "locks_ok s" "places_ok s" using sf by (simp_all add: safe_def)
  obtain p r where b: "bufs s t = (p, r)" by (cases "bufs s t")
  show ?thesis
  proof (cases "spare s")
  case Nil
  with step_grow_stays [OF st] sf show ?thesis by (simp add: same_keeps)
  next
  case (Cons a as)
  obtain ty n nb s1 s2 sl where g: "morph_node r = Inr ty" "heap (nodes s) d = Some n" "deref (nodes s) (backward n) = Inr nb"
    "store_remote (data_node nb) (sizeof_node (ntype p)) (p\<lparr>rlink := a\<rparr>) s = Inr s1"
    "store_remote a (sizeof_node ty) (r\<lparr>ntype := ty, crc := crc_validate crcf r ty\<rparr>) s1 = Inr s2"
    "modify (nodes s) (Some d) (\<lambda>n. Inr (n\<lparr>data_node := a, sn_type := ty\<rparr>)) = Inr sl"
    and s': "s' = go t (LeaveRight d (a \<noteq> 0)) (set_bufs t (p\<lparr>rlink := a\<rparr>) (r\<lparr>ntype := ty, crc := crc_validate crcf r ty\<rparr>)
       (s2\<lparr>nodes := sl, spare := as\<rparr>))"
    by (rule step_grow_eq [OF st Cons b])
  let ?p = "p\<lparr>rlink := a\<rparr>" and ?r = "r\<lparr>ntype := ty, crc := crc_validate crcf r ty\<rparr>"
  obtain l where l: "backward n = Some l" "heap (nodes s) l = Some nb" "behind s d = Some l"
    using g(2,3) by (cases "backward n") (auto simp: deref_def behind_def split: option.splits)
  have co: "copy_ok s t (d, 16)" using ok(3) [of t] pc by (simp add: thread_ok_def)
  have bsh: "node_shape p" "node_shape r" using ok(3) [of t] b by (simp_all add: thread_ok_def)
  have fr: "data_node m \<noteq> a" if "heap (nodes s) e = Some m" for e m using ok(5) that Cons unfolding places_ok_def by fastforce
  have ld: "l \<noteq> d" using locks_local [OF ok(4), of t] pc l(3) by auto

  \<comment> \<open>the predecessor\<close>
  obtain old1 where o1: "remote s (data_node nb) = Some old1"
    and s1: "s1 = s\<lparr>remote := (remote s)(data_node nb \<mapsto> overlay (sizeof_node (ntype p)) ?p old1)\<rparr>"
    using g(4) by (rule store_remote_eq)
  let ?x1 = "overlay (sizeof_node (ntype p)) ?p old1"
  have osh1: "node_shape old1" using ok(1) o1 by (simp add: nodes_ok_def)
  have psh: "node_shape ?p" using bsh by (simp add: node_shape_def)
  have x1: "node_shape ?x1" by (rule overlay_shape [OF psh osh1 sizeof_node_le])
  have a1: "sound M ?x1 \<and> ntype ?x1 = sn_type nb \<and> node_map old1 \<subseteq>\<^sub>m node_map ?x1" if M: "cap (sn_type nb) = Some M" for M
  proof -
    have "kind s l = Some M" using l(2) M by (simp add: kind_def)
    then have "covers M (stored s l) p" using co l(3) b by (simp add: copy_ok_def)
    then have p: "sound M p" "ntype p = ntype old1" "node_map old1 \<subseteq>\<^sub>m node_map p"
      using l(2) o1 by (simp_all add: covers_def stored_def)
    have t1: "ntype old1 = sn_type nb" using ok(1) l(2) M o1 unfolding nodes_ok_def by (metis option.distinct(1))
    have "sizeof_node (ntype p) = sizeof_linked_node 16 M" "M \<le> 16" using cap_size [of "ntype p" M] M p(2) t1 by simp_all
    then have sz: "44 + 32 * M \<le> sizeof_node (ntype p)" by (simp add: sizeof_linked_node_def)
    have sp: "sound M ?p" "node_map ?p = node_map p"
      using p(1) by (simp_all add: sound_def node_shape_def node_inv_def node_map_def records_def nkey_def)
    from overlay_sound [OF sp(1) osh1 sz sizeof_node_le] p sp(2) t1 show ?thesis by simp
  qed
  have w1: "nodes_ok s1" "stored s1 = (stored s)(l := Some ?x1)" "kind s1 = kind s" "behind s1 = behind s"
    using write_node [OF ok(1) l(2), of s1 ?x1] a1 x1 by (simp_all add: s1)

  \<comment> \<open>the node at its new place\<close>
  obtain old2 where o2: "remote s1 a = Some old2"
    and s2: "s2 = s1\<lparr>remote := (remote s1)(a \<mapsto> overlay (sizeof_node ty) ?r old2)\<rparr>"
    using g(5) by (rule store_remote_eq)
  let ?x2 = "overlay (sizeof_node ty) ?r old2"
  have osh2: "node_shape old2" using w1(1) o2 by (simp add: nodes_ok_def)
  have cv: "covers 16 (stored s d) r" using co b by (simp add: copy_ok_def)
  then obtain x where x: "stored s d = Some x" "sound 16 r" "node_map x \<subseteq>\<^sub>m node_map r" by (auto simp: covers_def)
  obtain M where M: "cap ty = Some M" "unat (nxt r) \<le> M" by (rule morph_fits [OF x(2) g(1)])
  have "sizeof_node ty = sizeof_linked_node 16 M" "M \<le> 16" using cap_size [OF M(1)] by simp_all
  then have sz: "44 + 32 * M \<le> sizeof_node ty" by (simp add: sizeof_linked_node_def)
  have sr: "sound M r" using sound_resize [OF x(2) M(2)] \<open>M \<le> 16\<close> by simp
  have sr2: "sound M ?r" "node_map ?r = node_map r"
    using sr by (simp_all add: sound_def node_shape_def node_inv_def node_map_def records_def nkey_def)
  have x2: "sound M ?x2" "node_map ?x2 = node_map r" "ntype ?x2 = ty"
    using overlay_sound [OF sr2(1) osh2 sz sizeof_node_le] sr2(2) by simp_all
  have n1: "nodes s1 = nodes s" "nodes s2 = nodes s" by (simp_all add: s1 s2)
  have w2: "nodes_ok s2" "stored s2 = stored s1" "kind s2 = kind s1" "behind s2 = behind s1"
    using write_fresh [OF w1(1), of s2 a ?x2] fr x2(1) by (simp_all add: s2 n1(1) sound_def)

  \<comment> \<open>the search layer\<close>
  have sl: "heap sl = (heap (nodes s))(d \<mapsto> n\<lparr>data_node := a, sn_type := ty\<rparr>)" using g(2,6) by (auto simp: modify_def res_simps)
  let ?s3 = "s2\<lparr>nodes := sl, spare := as\<rparr>"
  have h2: "heap (nodes s2) d = Some n" using g(2) n1 by simp
  note w3 = point_node [OF w2(1) h2, of ?s3 ty a ?x2 M]
  have w3: "nodes_ok ?s3" "stored ?s3 = (stored s2)(d := Some ?x2)" "kind ?s3 = (kind s2)(d := Some M)" "behind ?s3 = behind s2"
    using w3 sl M(1) x2 fr by (simp_all add: n1 s2)
  have eq: "same_nodes ?s3 s'" by (simp add: s')
  have fs: "stored s' = (stored s)(l := Some ?x1, d := Some ?x2)" "kind s' = (kind s)(d := Some M)" "behind s' = behind s"
    using w1 w2 w3 by (simp_all add: s')
  have kr: "keeps_records s s'"
  proof -
    have "\<exists>x'. stored s' e = Some x' \<and> node_map y \<subseteq>\<^sub>m node_map x'" if y: "kind s e \<noteq> None" "stored s e = Some y" for e y
    proof (cases "e = d")
      case True
      with y(2) x x2(2) show ?thesis by (simp add: fs)
    next
      case False
      show ?thesis
      proof (cases "e = l")
        case True
        obtain K where "cap (sn_type nb) = Some K" using y(1) True l(2) by (auto simp: kind_def)
        from a1 [OF this] y(2) True l(2) o1 ld show ?thesis by (simp add: fs stored_def)
      next
        case nl: False
        with False y(2) show ?thesis by (simp add: fs map_le_refl)
      qed
    qed
    then show ?thesis by (simp add: keeps_records_def fs)
  qed
  have bf: "bufs s' = (bufs s)(t := (?p, ?r))" "pcs s' = (pcs s)(t := LeaveRight d (a \<noteq> 0))" "ctxs s' = ctxs s"
    "spare s' = as" "nodes s' = sl"
    by (simp_all add: s' s2 s1 go_def set_bufs_def)
  have th: "thread_ok s' u" for u
  proof (cases "u = t")
    case True
    have "node_shape ?r" using sr2(1) by (simp add: sound_def)
    then show ?thesis using True psh by (simp add: thread_ok_def bf)
  next
    case False
    have "d \<in> held (behind s) (pcs s t)" "l \<in> held (behind s) (pcs s t)" using pc l(3) by simp_all
    then show ?thesis using False
      by (intro other_thread [OF ok(4) ok(3) False]) (auto simp: bf fs)
  qed
  have "places_ok s'"
  proof -
    have "data_node m \<notin> set as" if "heap sl e = Some m" for e m
      using that sl ok(5) Cons unfolding places_ok_def by (cases "e = d") auto
    then show ?thesis using ok(5) Cons by (simp add: places_ok_def bf)
  qed
  moreover have "nodes_ok s'" by (rule same_nodes_ok [OF eq w3(1)])
  ultimately have "safe s'" using lo th ok(2) by (simp add: safe_def good_queue_def bf)
  with kr show ?thesis by simp
  qed
qed

subsection \<open>All steps\<close>

lemma act_moves:
  assumes sf: "safe s" and a: "act crcf t (pcs s t) s = Inr s'" and n: "\<And>d. pcs s t \<noteq> Size d \<and> pcs s t \<noteq> Grow d"
  shows "moves t s s'"
proof -
  have th: "thread_ok s t" and q: "good_queue s" and nd: "nodes_ok s" and lo: "locks_ok s" using sf by (simp_all add: safe_def)
  note dm = set_depth_moves [OF th q]
  show ?thesis
  proof (cases "pcs s t")
    case (Dispatch d k v) with a step_dispatch_moves [OF th q] show ?thesis by simp
  next
    case (Drain d k v) with a show ?thesis by (auto simp: step_drain_def intro: drain_turn_moves [OF th q])
  next
    case (GetDrain d k) with a show ?thesis by (auto simp: step_get_drain_def intro: drain_turn_moves [OF th q])
  next
    case (GetRead d k) with a step_get_read_moves [OF nd th q] show ?thesis by simp
  next
    case (Enter d k v) with a step_enter_moves [OF th q] show ?thesis by simp
  next
    case (CasRight d k v l) with a step_cas_right_moves [OF th q] show ?thesis by simp
  next
    case (CasLeft d k v l) with a step_cas_left_moves [OF th q] show ?thesis by simp
  next
    case (Undo d k v) with a dm show ?thesis by (auto simp: step_defs res_simps)
  next
    case (GiveBack d k v) with a release_moves [OF th q] show ?thesis by (auto simp: step_give_back_def res_simps)
  next
    case (Open d k v l) with a dm show ?thesis by (auto simp: step_defs res_simps)
  next
    case (Fetch d k v l)
    moreover have "l = behind s d" using locks_local [OF lo, of t] Fetch by simp
    ultimately show ?thesis using a step_fetch_moves [OF nd th q] by simp
  next
    case (Shut d k v) with a dm show ?thesis by (auto simp: step_defs res_simps)
  next
    case (Own d k v) with a step_own_moves [OF nd th q] show ?thesis by simp
  next
    case (Help d) with a step_help_moves [OF nd th q] show ?thesis by simp
  next
    case (GrowOwn d k v) with a step_grow_own_moves [OF nd th q] show ?thesis by simp
  next
    case (Rest d) with a step_rest_moves [OF nd th q] show ?thesis by simp
  next
    case (LeaveRight d b) with a release_moves [OF th q] show ?thesis by (auto simp: step_leave_right_def res_simps)
  next
    case (LeaveLeft d b) with a release_moves [OF th q] show ?thesis by (auto simp: step_leave_left_def res_simps)
  next
    case (LeaveDepth d b) with a dm show ?thesis by (cases b) (auto simp: step_defs res_simps)
  next
    case (Spin c d k v) with step_loser_moves [OF th q a] show ?thesis by blast
  next
    case (Sub c d k v) with step_loser_moves [OF th q a] show ?thesis by blast
  next
    case (Queue c d k v) with step_loser_moves [OF th q a] show ?thesis by blast
  next
    case (Await c d k v) with step_loser_moves [OF th q a] show ?thesis by blast
  qed (use a n moves_stay [OF th _ _ _ q] in simp_all)
qed

lemma step_safe:
  assumes "step client crcf s s'" "safe s" "\<forall>k v. client k v \<longrightarrow> key_ok k \<and> wide v"
  shows "safe s' \<and> keeps_records s s'"
proof -
  have lo: "locks_ok s'" using step_inv [OF assms(1)] assms(2) by (simp add: safe_def)
  from assms(1) show ?thesis
  proof cases
    case (step_call t k v d)
    have th: "thread_ok s t" "good_queue s" using assms(2) by (simp_all add: safe_def)
    have "key_ok k" "wide v" using assms(3) step_call(3) by blast+
    then have "thread_ok s' t" using th(1) step_call(1) by (simp add: thread_ok_def)
    then have "moves t s s'" using th(2) by (simp add: moves_def step_call(1))
    then show ?thesis using moves_safe [OF assms(2) lo] by (auto simp: moves_def intro: same_keeps)
  next
    case (step_get t d k)
    have th: "thread_ok s t" "good_queue s" using assms(2) by (simp_all add: safe_def)
    then have "moves t s s'" unfolding step_get(1) by (intro moves_go) simp_all
    then show ?thesis using moves_safe [OF assms(2) lo] by (auto simp: moves_def intro: same_keeps)
  next
    case (step_act t)
    show ?thesis
    proof (cases "\<exists>d. pcs s t = Size d \<or> pcs s t = Grow d")
      case True
      then show ?thesis using step_act step_size_safe [OF assms(2) lo] step_grow_safe [OF assms(2) lo] by auto
    next
      case False
      then have "moves t s s'" using act_moves [OF assms(2) step_act] by blast
      then show ?thesis using moves_safe [OF assms(2) lo] by (auto simp: moves_def intro: same_keeps)
    qed
  qed
qed

lemma reach_safe:
  assumes "reach client crcf s s'" "safe s" "\<forall>k v. client k v \<longrightarrow> key_ok k \<and> wide v"
  shows "safe s' \<and> keeps_records s s'"
  using assms(1)
proof induction
  case reach_start
  with assms(2) show ?case by (simp add: same_keeps)
next
  case (reach_step s1 s2)
  then have 1: "safe s1" "keeps_records s s1" by simp_all
  have "safe s2 \<and> keeps_records s1 s2" by (rule step_safe [OF reach_step.hyps(2) 1(1) assms(3)])
  with 1 show ?case by (blast intro: keeps_trans)
qed

lemma stored_at_eq:
  assumes "nodes_ok s" "kind s d \<noteq> None" "wide k"
  shows "\<exists>x. stored s d = Some x \<and> stored_at s d k = Inr (node_map x k)"
proof -
  obtain M where "kind s d = Some M" using assms(2) by blast
  from stored_typed [OF assms(1) this] obtain n x where x: "heap (nodes s) d = Some n" "remote s (data_node n) = Some x"
    "stored s d = Some x" "sound M x" .
  then have "find_kv k x = Inr (node_map x k)" using find_kv_eq [of M x k] assms(3) by (simp add: sound_def)
  with x show ?thesis by (simp add: stored_at_def load_remote_def deref_def)
qed

text \<open>What a system looks like before the insertions start: nobody runs, the nodes are stored where
  the search layer points, each with its type, and new places are new.\<close>

definition set_up :: "hs \<Rightarrow> bool" where
  "set_up s \<longleftrightarrow> quiet s \<and> nodes_ok s \<and> places_ok s \<and> (\<forall>c x. ctxs s c = Some x \<longrightarrow> requests x = []) \<and>
     (\<forall>t. node_shape (fst (bufs s t)) \<and> node_shape (snd (bufs s t)))"

lemma set_up_safe: "set_up s \<Longrightarrow> safe s"
proof -
  assume u: "set_up s"
  have "thread_ok s t" for t
  proof -
    have "at_rest (pcs s t)" using u by (simp add: set_up_def quiet_def)
    then show ?thesis using u by (cases "pcs s t") (simp_all add: set_up_def thread_ok_def)
  qed
  moreover have "good_queue s" using u by (auto simp: set_up_def good_queue_def)
  ultimately show ?thesis using u quiet_locks_ok by (simp add: safe_def set_up_def)
qed

text \<open>C1: No interleaving of threads in \<open>put10\<close> and \<open>get\<close> loses a record of a node that is stored as one
  of \<open>LinkedNode10\<close> to \<open>LinkedNode16\<close>: once a lookup in the remote memory of the node finds a key,
  every later lookup there finds it with the same value, whatever these threads insert in the
  meantime, help one another, back off, read, or let a \<open>LinkedNode10\<close> grow.  The keys and values
  inserted have 16 bytes and no key has the fingerprint 0: \<open>morph_node\<close> does not count such records,
  and they can be lost.  A thread that comes to a larger node stops before it takes anything:
  \<open>put12\<close>, \<open>put14\<close>, \<open>put16\<close>, with the splits that move records to another node, are outside of this
  property, and so are updates.\<close>

theorem records_survive:
  assumes "\<forall>k v. client k v \<longrightarrow> key_ok k \<and> wide v" "set_up s0"
    "reach client crcf s0 s" "reach client crcf s s'"
    "kind s d \<noteq> None" "wide k" "stored_at s d k = Inr (Some v)"
  shows "stored_at s' d k = Inr (Some v)"
proof -
  have s: "safe s" using reach_safe [OF assms(3) set_up_safe [OF assms(2)] assms(1)] by simp
  have s': "safe s'" "keeps_records s s'" using reach_safe [OF assms(4) s assms(1)] by simp_all
  obtain x where x: "stored s d = Some x" "stored_at s d k = Inr (node_map x k)"
    using stored_at_eq [OF _ assms(5,6)] s by (auto simp: safe_def)
  with s'(2) assms(5) obtain x' where x': "kind s' d \<noteq> None" "stored s' d = Some x'" "node_map x \<subseteq>\<^sub>m node_map x'"
    unfolding keeps_records_def by blast
  have "node_map x k = Some v" using x(2) assms(7) by simp
  then have "node_map x' k = Some v" using x'(3) by (metis domI map_le_def)
  moreover obtain y where "stored s' d = Some y" "stored_at s' d k = Inr (node_map y k)"
    using stored_at_eq [OF _ x'(1) assms(6)] s'(1) by (auto simp: safe_def)
  ultimately show ?thesis using x'(2) by simp
qed

lemma start_set_up: "set_up start"
proof -
  have k: "kind start d = (if d < 5 then Some 10 else None)" and st: "stored start d = (if d < 5 then Some empty_node else None)" for d
    by (simp_all add: kind_def stored_def start_def make_skip_node_def cap_def type10)
  have h: "heap (nodes start) d = Some n \<Longrightarrow> d < 5 \<and> data_node n = of_nat (1000 + d) \<and> sn_type n = 10" for d n
    by (auto simp: start_def make_skip_node_def split: if_splits)
  have none: "node_map empty_node x = None" for x by (simp add: node_map_def empty_node_inv)
  have ty: "ntype empty_node = 10" by (simp add: empty_node_def)
  have so: "sound 10 empty_node" by (simp add: sound_def empty_node_inv none)
  have u: "unat (of_nat (1000 + d) :: 64 word) = 1000 + d" if "d < 5" for d
    using that by (simp add: unat_of_nat del: of_nat_add)
  have inj: "d = d'" if "(of_nat (1000 + d) :: 64 word) = of_nat (1000 + d')" "d < 5" "d' < 5" for d d'
    using arg_cong [OF that(1), of unat] unfolding u [OF that(2)] u [OF that(3)] by simp
  have rem: "remote start = (\<lambda>_. Some empty_node)" by (simp add: start_def)
  have "nodes_ok start"
  proof (rule nodes_okI)
    show "node_shape y" if "remote start q = Some y" for q y using that by (auto simp: rem empty_node_inv)
    show "\<exists>y. stored start e = Some y \<and> sound N y \<and> cap (ntype y) = Some N" if "kind start e = Some N" for e N
      using that so by (simp add: k st ty cap_def type10 split: if_splits)
    show "ntype y = sn_type m" if "heap (nodes start) e = Some m" "remote start (data_node m) = Some y" for e m y
      using h [OF that(1)] that(2) ty by (auto simp: rem)
    show "e = e'" if "heap (nodes start) e = Some m" "heap (nodes start) e' = Some m'" "data_node m = data_node m'" for e e' m m'
      using h [OF that(1)] h [OF that(2)] that(3) inj by metis
  qed
  moreover have "places_ok start"
  proof -
    have "(of_nat (1000 + d) :: 64 word) \<notin> {2000, 2001}" if "d < 5" for d
    proof -
      note u [OF that]
      moreover have "unat (2000 :: 64 word) = 2000" "unat (2001 :: 64 word) = 2001" by simp_all
      ultimately show ?thesis using that by auto
    qed
    then have "data_node n \<notin> {2000, 2001}" if "heap (nodes start) d = Some n" for d n using h [OF that] by metis
    moreover have "spare start = [2000, 2001]" by (simp add: start_def)
    ultimately show ?thesis by (simp add: places_ok_def)
  qed
  ultimately show ?thesis using start_quiet
    by (simp add: set_up_def) (simp add: start_def new_conc_ctx_def empty_node_inv)
qed

definition first_run :: "event list" where
  "first_run = [Call 0 4 (key16 41) (key16 11), Act 0, Act 0, Act 0, Act 0, Act 0, Act 0, Act 0, Act 0, Act 0, Act 0, Act 0, Act 0, Act 0, Act 0]"

definition second_run :: "event list" where
  "second_run = [Call 1 4 (key16 45) (key16 12), Act 1, Act 1, Act 1, Act 1, Act 1, Act 1, Act 1, Act 1]"

lemma run_key_ok: "key_ok (key16 41)" "key_ok (key16 45)"
proof -
  have e: "key16 n = b16 (of_nat n)" for n by (simp add: key16_def b16_def)
  have "fp (b16 41) \<noteq> 0" "fp (b16 45) \<noteq> 0"
    by (simp_all add: fp_b16 HashLen16_def Hash128to64_def RotateByAtLeast1_def Let_def)
  then show "key_ok (key16 41)" "key_ok (key16 45)" by (simp_all add: key_ok_def e)
qed

lemma records_survive_witness:
  "\<exists>s s'. reach (\<lambda>k v. key_ok k \<and> wide v) (\<lambda>_. 0) start s \<and> reach (\<lambda>k v. key_ok k \<and> wide v) (\<lambda>_. 0) s s' \<and>
     pcs s' 1 = Own 4 (key16 45) (key16 12) \<and> stored_at s' 4 (key16 41) = Inr (Some (key16 11))"
proof -
  let ?c = "\<lambda>k v. key_ok k \<and> wide v"
  obtain n1 where n1: "store_kv 10 (key16 41) (key16 11) empty_node = Inr (True, n1)" "node_inv 10 n1"
    "records n1 = [(key16 41, key16 11)]"
    by (rule store_kv_absent [OF empty_node_inv(1), of "key16 41" "key16 11"]) (auto simp: node_map_def empty_node_inv)
  have s1: "node_shape n1" using store_shape [OF n1(1) empty_node_inv(4)] by simp
  note o1 = overlay_records [OF n1(2) s1 empty_node_inv(4), of 368, simplified]
  have f: "find_kv (key16 41) (overlay 368 n1 empty_node) = Inr (Some (key16 11))"
    using find_kv_eq [OF o1(1)] o1(2) n1(3) by (simp add: node_map_def)
  have "\<exists>s s'. exec (\<lambda>_. 0) first_run start = Inr s \<and> exec (\<lambda>_. 0) second_run s = Inr s' \<and>
     pcs s' 1 = Own 4 (key16 45) (key16 12) \<and> kind s 4 = Some 10 \<and> stored_at s 4 (key16 41) = Inr (Some (key16 11))"
    by (simp add: first_run_def second_run_def start_def run_simps make_skip_node_def type10 n1 f stored_at_def sizeof_node_def
        store_remote_def kind_def cap_def)
  then obtain s s' where e: "exec (\<lambda>_. 0) first_run start = Inr s" "exec (\<lambda>_. 0) second_run s = Inr s'"
     "pcs s' 1 = Own 4 (key16 45) (key16 12)" "kind s 4 = Some 10" "stored_at s 4 (key16 41) = Inr (Some (key16 11))"
    by (elim exE conjE) (rule that)
  have r: "reach ?c (\<lambda>_. 0) start s"
    by (rule exec_reach [OF e(1) reach_start]) (auto simp: first_run_def run_key_ok)
  have r': "reach ?c (\<lambda>_. 0) s s'"
    by (rule exec_reach [OF e(2) reach_start]) (auto simp: second_run_def run_key_ok)
  have "stored_at s' 4 (key16 41) = Inr (Some (key16 11))"
    by (rule records_survive [OF _ start_set_up r r' _ _ e(5)]) (simp_all add: e(4))
  with r r' e(3) show ?thesis by blast
qed

end
