(* ===== verification/HandoverStuck.thy ===== *)
theory HandoverStuck
  imports Handover
begin

text \<open>
  A waiting thread that is never answered: what the steps of other threads leave as it is, and a run
  after which one thread waits although all others are at rest.
\<close>

subsection \<open>A request that nobody serves\<close>

text \<open>Thread \<open>u\<close> is at \<open>z\<close>, request \<open>a\<close> has no answer, and it is in no queue but that of thread \<open>w\<close>.\<close>

definition stranded :: "nat \<Rightarrow> nat \<Rightarrow> nat \<Rightarrow> pc \<Rightarrow> hs \<Rightarrow> bool" where
  "stranded w a u z s \<longleftrightarrow> pcs s u = z \<and> a < fresh s \<and> told s a = None \<and>
     (\<forall>c x. c \<noteq> w \<longrightarrow> ctxs s c = Some x \<longrightarrow> a \<notin> rid ` set (requests x))"

lemma stranded_simps [simp]:
  "stranded w a u z (set_bufs t p r s) = stranded w a u z s"
  "stranded w a u z (nodes_update f s) = stranded w a u z s" "stranded w a u z (remote_update g s) = stranded w a u z s"
  "stranded w a u z (bufs_update h s) = stranded w a u z s" "stranded w a u z (spare_update i s) = stranded w a u z s"
  by (simp_all add: stranded_def set_bufs_def)

lemma stranded_go [simp]: "t \<noteq> u \<Longrightarrow> stranded w a u z (go t p s) = stranded w a u z s"
  by (auto simp: stranded_def go_def)

lemma stranded_tell [simp]: "rid r \<noteq> a \<Longrightarrow> stranded w a u z (tell r s) = stranded w a u z s"
  by (simp add: stranded_def tell_def)






subsection \<open>Steps of other threads\<close>

















subsection \<open>Runs in which one thread does nothing\<close>

inductive runs_without :: "nat \<Rightarrow> (bytes \<Rightarrow> bytes \<Rightarrow> bool) \<Rightarrow> (bytes \<Rightarrow> u16) \<Rightarrow> hs \<Rightarrow> hs \<Rightarrow> bool" for w client crcf s0 where
  without_start: "runs_without w client crcf s0 s0"
| without_call: "runs_without w client crcf s0 s \<Longrightarrow> t \<noteq> w \<Longrightarrow> at_rest (pcs s t) \<Longrightarrow> client k v \<Longrightarrow>
    runs_without w client crcf s0 (go t (Dispatch d k v) s)"
| without_get: "runs_without w client crcf s0 s \<Longrightarrow> t \<noteq> w \<Longrightarrow> at_rest (pcs s t) \<Longrightarrow>
    runs_without w client crcf s0 (go t (GetDrain d k) s)"
| without_act: "runs_without w client crcf s0 s \<Longrightarrow> t \<noteq> w \<Longrightarrow> act crcf t (pcs s t) s = Inr s' \<Longrightarrow>
    runs_without w client crcf s0 s'"

text \<open>Such runs are runs, and the waiting thread goes on waiting in them.\<close>

lemma runs_without_reach: "runs_without w client crcf s s' \<Longrightarrow> reach client crcf s0 s \<Longrightarrow> reach client crcf s0 s'"
  by (induction rule: runs_without.induct) (auto intro: reach_step step_call step_get step_act)





subsection \<open>Property\<close>



end
