(* ===== verification/Sockets.thy ===== *)
theory Sockets
  imports Prelude
begin

text \<open>
  \<open>components/misc/misc.cpp\<close>: sending and receiving a number of bytes over a socket, and
  opening sockets.  The system calls are parameters that change a world; a loop that need not end is a partial
  function.  For the properties there is a stream: the pieces in which the bytes of a peer arrive,
  after which the peer has closed the connection.
\<close>

subsection \<open>The code\<close>

type_synonym 'w sys_write = "nat \<Rightarrow> bytes \<Rightarrow> 'w \<Rightarrow> int \<times> 'w"
type_synonym 'w sys_read = "nat \<Rightarrow> nat \<Rightarrow> 'w \<Rightarrow> int \<times> bytes \<times> 'w"

text \<open>From \<open>sent\<close> bytes on; a negative answer is returned when it is the first one.\<close>

partial_function (option) send_loop :: "'w sys_write \<Rightarrow> nat \<Rightarrow> bytes \<Rightarrow> nat \<Rightarrow> 'w \<Rightarrow> (int \<times> 'w) option" where
  "send_loop wrt sock buf sent w =
     (case wrt sock (drop sent buf) w of (ret, w') \<Rightarrow>
        if ret < 0 then Some (if sent = 0 then ret else int sent, w')
        else if sent + nat ret < length buf then send_loop wrt sock buf (sent + nat ret) w'
        else Some (int (sent + nat ret), w'))"

definition send_all :: "'w sys_write \<Rightarrow> nat \<Rightarrow> bytes \<Rightarrow> 'w \<Rightarrow> (int \<times> 'w) option" where
  "send_all wrt sock buf w = send_loop wrt sock buf 0 w"

text \<open>Waiting for ever, and the contents of a file, which the file system gives.\<close>

definition pend :: "unit run" where
  "pend = None"

definition file_as_string :: "(string \<Rightarrow> string option) \<Rightarrow> string \<Rightarrow> string option" where
  "file_as_string files file_name = files file_name"

text \<open>The bytes received so far are those at the start of the buffer.\<close>

partial_function (option) recv_loop :: "'w sys_read \<Rightarrow> nat \<Rightarrow> nat \<Rightarrow> bytes \<Rightarrow> 'w \<Rightarrow> (int \<times> bytes \<times> 'w) option" where
  "recv_loop red sock count buf w =
     (case red sock (count - length buf) w of (ret, bs, w') \<Rightarrow>
        if ret < 0 then Some (if buf = [] then ret else int (length buf), buf, w')
        else if length buf + length bs < count then recv_loop red sock count (buf @ bs) w'
        else Some (int (length buf + length bs), buf @ bs, w'))"

definition recv_all :: "'w sys_read \<Rightarrow> nat \<Rightarrow> nat \<Rightarrow> 'w \<Rightarrow> (int \<times> bytes \<times> 'w) option" where
  "recv_all red sock count w = recv_loop red sock count [] w"

definition syncop :: "'w sys_write \<Rightarrow> 'w sys_read \<Rightarrow> nat \<Rightarrow> 'w \<Rightarrow> bool \<times> 'w" where
  "syncop wrt red sock w =
     (case wrt sock [97] w of (n, w1) \<Rightarrow>
        if n \<noteq> 1 then (False, w1)
        else (case red sock 1 w1 of (m, _, w2) \<Rightarrow> (m = 1, w2)))"

text \<open>Opening sockets.  The system calls are a parameter; \<open>None\<close> is \<open>exit\<close>, which ends the process.\<close>

record 'w sys =
  sys_socket :: "'w \<Rightarrow> int \<times> 'w"
  sys_bind :: "int \<Rightarrow> int \<Rightarrow> 'w \<Rightarrow> int \<times> 'w"
  sys_listen :: "int \<Rightarrow> nat \<Rightarrow> 'w \<Rightarrow> int \<times> 'w"
  sys_nonblock :: "int \<Rightarrow> 'w \<Rightarrow> 'w"
  sys_connect :: "int \<Rightarrow> int \<Rightarrow> string \<Rightarrow> 'w \<Rightarrow> int \<times> 'w"
  sys_accept :: "int \<Rightarrow> 'w \<Rightarrow> int \<times> 'w"
  sys_accept4 :: "int \<Rightarrow> 'w \<Rightarrow> int \<times> 'w"

definition make_socket :: "'w sys \<Rightarrow> bool \<Rightarrow> int \<Rightarrow> 'w \<Rightarrow> (int \<times> 'w) option" where
  "make_socket S is_server port w =
     (case sys_socket S w of (sockfd, w1) \<Rightarrow>
        if sockfd = - 1 then None
        else if \<not> is_server then Some (sockfd, w1)
        else (case sys_bind S sockfd port w1 of (b, w2) \<Rightarrow>
          if b = - 1 then None
          else (case sys_listen S sockfd 1 w2 of (l, w3) \<Rightarrow>
            if l = - 1 then None else Some (sockfd, w3))))"

definition make_async_socket :: "'w sys \<Rightarrow> bool \<Rightarrow> int \<Rightarrow> 'w \<Rightarrow> (int \<times> 'w) option" where
  "make_async_socket S is_server port w =
     Option.bind (make_socket S is_server port w) (\<lambda>(sockfd, w1).
     Some (sockfd, if sockfd = - 1 then w1 else sys_nonblock S sockfd w1))"

definition connect_socket :: "'w sys \<Rightarrow> int \<Rightarrow> int \<Rightarrow> string \<Rightarrow> 'w \<Rightarrow> int \<times> 'w" where
  "connect_socket S sockfd port server w =
     (case sys_connect S sockfd port server w of (c, w1) \<Rightarrow> (if c = - 1 then - 1 else sockfd, w1))"

definition accept_blocking :: "'w sys \<Rightarrow> int \<Rightarrow> 'w \<Rightarrow> int \<times> 'w" where
  "accept_blocking S sockfd w = sys_accept S sockfd w"

text \<open>The new socket is set not to block.\<close>

definition accept_nonblocking :: "'w sys \<Rightarrow> int \<Rightarrow> 'w \<Rightarrow> int \<times> 'w" where
  "accept_nonblocking S sockfd w = sys_accept4 S sockfd w"

definition socket_connect :: "'w sys \<Rightarrow> bool \<Rightarrow> int \<Rightarrow> string option \<Rightarrow> 'w \<Rightarrow> (int \<times> 'w) option" where
  "socket_connect S is_server port server w =
     Option.bind (make_socket S is_server port w) (\<lambda>(sockfd, w1).
     if \<not> is_server
     then (case server of None \<Rightarrow> Some (- 1, w1) | Some a \<Rightarrow> Some (connect_socket S sockfd port a w1))
     else (case accept_blocking S sockfd w1 of (ret, w2) \<Rightarrow> if ret = - 1 then None else Some (ret, w2)))"

text \<open>\<open>again\<close> is whether \<open>errno\<close> says that the call would block.\<close>

definition check_socket_read_write :: "int \<Rightarrow> bool \<Rightarrow> unit res" where
  "check_socket_read_write ret again =
     (if ret = - 1 then (if again then Inr () else Inl RuntimeError)
      else if ret = 0 then Inl RuntimeError else Inr ())"

subsection \<open>A peer's stream\<close>

text \<open>A read gives a piece, or the start of one; after all pieces it answers zero for ever, as the
  peer has closed.\<close>

fun stream_read :: "bytes list sys_read" where
  "stream_read sock n [] = (0, [], [])"
| "stream_read sock n (c # cs) =
     (if length c \<le> n then (int (length c), c, cs) else (int n, take n c, drop n c # cs))"

lemma stream_read_some:
  assumes "[] \<notin> set cs" "cs \<noteq> []" "0 < n"
  obtains bs cs' where "stream_read sock n cs = (int (length bs), bs, cs')" "bs \<noteq> []" "length bs \<le> n" "[] \<notin> set cs'"
    "concat cs = bs @ concat cs'"
proof (cases cs)
  case (Cons c ds)
  show ?thesis
  proof (cases "length c \<le> n")
    case True
    then show ?thesis using assms(1) Cons by (intro that [of c ds]) auto
  next
    case False
    then show ?thesis using assms Cons by (intro that [of "take n c" "drop n c # ds"]) (auto simp: min_def)
  qed
qed (use assms(2) in simp)

lemma recv_loop_gets:
  "[] \<notin> set cs \<Longrightarrow> length buf < count \<Longrightarrow> count \<le> length buf + length (concat cs) \<Longrightarrow>
   \<exists>cs'. recv_loop stream_read sock count buf cs = Some (int count, buf @ take (count - length buf) (concat cs), cs') \<and>
     concat cs' = drop (count - length buf) (concat cs) \<and> [] \<notin> set cs'"
proof (induction "count - length buf" arbitrary: buf cs rule: less_induct)
  case less
  have "cs \<noteq> []" using less.prems(2,3) by auto
  then obtain bs cs' where r: "stream_read sock (count - length buf) cs = (int (length bs), bs, cs')" "bs \<noteq> []"
    "length bs \<le> count - length buf" "[] \<notin> set cs'" "concat cs = bs @ concat cs'"
    using stream_read_some [OF less.prems(1), of "count - length buf"] less.prems(2) by auto
  show ?case
  proof (cases "length buf + length bs < count")
    case True
    have "count - length (buf @ bs) < count - length buf" using r(2) less.prems(2) by (cases bs) auto
    from less.hyps [OF this r(4)] True r(5) less.prems(3) obtain cs'' where
      "recv_loop stream_read sock count (buf @ bs) cs' =
         Some (int count, (buf @ bs) @ take (count - length (buf @ bs)) (concat cs'), cs'')"
      "concat cs'' = drop (count - length (buf @ bs)) (concat cs')" "[] \<notin> set cs''" by auto
    with r True show ?thesis by (subst recv_loop.simps) (auto simp: diff_diff_left)
  next
    case False
    then have "length bs = count - length buf" using r(3) by simp
    with r False less.prems(2) show ?thesis by (subst recv_loop.simps) auto
  qed
qed

lemma recv_loop_some:
  assumes "recv_loop stream_read sock count buf cs = Some r"
  shows "length buf < count \<longrightarrow> [] \<notin> set cs \<longrightarrow> count \<le> length buf + length (concat cs)"
proof -
  have "red = stream_read \<longrightarrow> length buf < count \<longrightarrow> [] \<notin> set cs \<longrightarrow> count \<le> length buf + length (concat cs)"
    if "recv_loop red sock count buf cs = Some r" for red sock count buf cs r
  proof (rule recv_loop.raw_induct [of "\<lambda>red sock count buf cs r. red = stream_read \<longrightarrow> length buf < count \<longrightarrow> [] \<notin> set cs \<longrightarrow>
      count \<le> length buf + length (concat cs)", OF _ that], intro impI)
    fix f :: "bytes list sys_read \<Rightarrow> nat \<Rightarrow> nat \<Rightarrow> bytes \<Rightarrow> bytes list \<Rightarrow> (int \<times> bytes \<times> bytes list) option" and red sock count buf cs r
    assume ih: "\<And>red sock count buf cs r. f red sock count buf cs = Some r \<Longrightarrow>
        red = stream_read \<longrightarrow> length buf < count \<longrightarrow> [] \<notin> set cs \<longrightarrow> count \<le> length buf + length (concat cs)"
      and r: "(case red sock (count - length buf) cs of (ret, bs, w') \<Rightarrow>
        if ret < 0 then Some (if buf = [] then ret else int (length buf), buf, w')
        else if length buf + length bs < count then f red sock count (buf @ bs) w'
        else Some (int (length buf + length bs), buf @ bs, w')) = Some r"
      and s: "red = stream_read" "length buf < count" "[] \<notin> set cs"
    show "count \<le> length buf + length (concat cs)"
    proof (cases cs)
      case Nil
      with r s have "f stream_read sock count buf [] = Some r" by simp
      from ih [OF this] s(2) Nil show ?thesis by simp
    next
      case (Cons c ds)
      then obtain bs cs' where b: "stream_read sock (count - length buf) cs = (int (length bs), bs, cs')" "bs \<noteq> []"
        "length bs \<le> count - length buf" "[] \<notin> set cs'" "concat cs = bs @ concat cs'"
        using stream_read_some [OF s(3), of "count - length buf"] s(2) by auto
      show ?thesis
      proof (cases "length buf + length bs < count")
        case True
        with r b s(1) have "f stream_read sock count (buf @ bs) cs' = Some r" by simp
        from ih [OF this] True b(4,5) show ?thesis by simp
      qed (use b(5) in simp)
    qed
  qed
  with assms show ?thesis by blast
qed

subsection \<open>Properties\<close>

text \<open>C19: receiving a number of bytes from a peer that sends its bytes in pieces of any size and then
  closes the connection gives the first bytes of the stream, in order, and leaves the rest; if the
  peer closes before it has sent as many, it never returns.\<close>

theorem recv_all_of_stream:
  assumes "[] \<notin> set cs" "0 < count"
  shows "(case recv_all stream_read sock count cs of
      Some (ret, bs, cs') \<Rightarrow> count \<le> length (concat cs) \<and> ret = int count \<and> bs = take count (concat cs) \<and> concat cs' = drop count (concat cs)
    | None \<Rightarrow> length (concat cs) < count)"
proof (cases "count \<le> length (concat cs)")
  case True
  then show ?thesis using recv_loop_gets [OF assms(1), of "[]" count sock] assms(2) by (auto simp: recv_all_def)
next
  case False
  then have "recv_all stream_read sock count cs = None"
    using recv_loop_some [of sock count "[]" cs] assms by (cases "recv_all stream_read sock count cs") (auto simp: recv_all_def)
  with False show ?thesis by simp
qed

lemma recv_all_of_stream_witness:
  "recv_all stream_read 3 12 [[1, 2], [3]] = None"
  using recv_all_of_stream [of "[[1, 2], [3]]" 12 3] by (auto split: option.splits)

end
