(* ===== verification/MemoryServer.thy ===== *)
theory MemoryServer
  imports Startup Sockets RdmaProps
begin

text \<open>
  What a memory node runs once it is initialised: the RPC endpoint of
  \<open>components/erpc_wrapper/erpc_wrapper.hpp\<close> and \<open>.cpp\<close> with the two handlers, and the threads of
  \<open>components/node/memory_node/memory_node.cpp\<close> that greet compute nodes and connect queue pairs.
  The other ends of both are \<open>connect_memory_nodes\<close> and \<open>setup_contexts\<close> of \<open>RemoteMemory\<close>.  A turn
  of a thread's endless loop is a function of the socket that it accepted, if any.
\<close>

subsection \<open>The endpoint\<close>

datatype rpc_operation = RemoteAllocation | RemoteDeallocation

type_synonym handler = "bytes \<Rightarrow> memory_server \<Rightarrow> (bytes \<times> memory_server) res"

record server_rpc =
  srv_current_id :: int
  srv_info :: "rpc_info option"
  srv_funcs :: "rpc_operation \<rightharpoonup> handler"

definition register_req_func :: "rpc_operation \<Rightarrow> handler \<Rightarrow> server_rpc \<Rightarrow> server_rpc" where
  "register_req_func req_type req_func c = c\<lparr>srv_funcs := (srv_funcs c)(req_type \<mapsto> req_func)\<rparr>"

definition server_new_rpc :: "server_rpc \<Rightarrow> rpc_info \<times> server_rpc" where
  "server_new_rpc c =
     (\<lparr>self_id = srv_current_id c, info_node_id = - 1, remote_id = - 1, session = - 1\<rparr>,
      c\<lparr>srv_current_id := srv_current_id c + 1\<rparr>)"

text \<open>The calling thread waits until the new one has made the endpoint.\<close>

definition loop_thread :: "server_rpc \<Rightarrow> server_rpc" where
  "loop_thread c = (case server_new_rpc c of (i, c') \<Rightarrow> c'\<lparr>srv_info := Some i\<rparr>)"

text \<open>The handlers write the response: eight bytes of a pointer, or one of a truth value.\<close>

definition handle_allocation :: handler where
  "handle_allocation req s =
     (case ms_allocator s of
        None \<Rightarrow> Inl NullDeref
      | Some a \<Rightarrow>
          (case allocation_handler (nat (node_id (ms_info s))) a of (p, a') \<Rightarrow>
             Inr (le_bytes 8 (unat p), s\<lparr>ms_allocator := Some a'\<rparr>)))"

definition handle_deallocation :: handler where
  "handle_deallocation req s =
     (case ms_allocator s of
        None \<Rightarrow> Inl NullDeref
      | Some a \<Rightarrow>
          res_bind (deallocation_handler req a) (\<lambda>(y, a').
          Inr ([if y then 1 else 0], s\<lparr>ms_allocator := Some a'\<rparr>)))"

definition initialize_nexus :: "(string \<Rightarrow> bool) \<Rightarrow> ipv4_addr \<Rightarrow> nat \<Rightarrow> bool res" where
  "initialize_nexus nexus ip port = res_bind (addr_to_string ip) (\<lambda>a. Inr (nexus (a @ '':'' @ dec_string port)))"

definition initialize_erpc :: "(string \<Rightarrow> bool) \<Rightarrow> memory_server \<Rightarrow> server_rpc \<Rightarrow> (bool \<times> server_rpc) res" where
  "initialize_erpc nexus s c =
     res_bind (addr_to_uri (erpc_addr (ms_info s)) (nat (erpc_port (ms_info s)))) (\<lambda>uri.
     res_bind (initialize_nexus nexus (erpc_addr (ms_info s)) (nat (erpc_port (ms_info s)))) (\<lambda>ok.
     Inr (if \<not> ok then (False, c)
          else (True, register_req_func RemoteDeallocation handle_deallocation
                        (register_req_func RemoteAllocation handle_allocation c)))))"

definition make_memory_node :: "'w verbs \<Rightarrow> 'w net \<Rightarrow> (string \<Rightarrow> bool) \<Rightarrow> u64 \<Rightarrow> string option \<Rightarrow> memory_server \<Rightarrow> memory_server option res" where
  "make_memory_node V n nexus region file s =
     res_bind (memory_initialize V n nexus region file s) (\<lambda>(ok, s'). Inr (if ok then Some s' else None))"

subsection \<open>Greeting compute nodes\<close>

text \<open>A turn of the thread of \<open>launch_tcp_thread\<close>: what \<open>send_all\<close> returns is not looked at.\<close>

definition tcp_turn :: "'w sys_write \<Rightarrow> remote_ptr \<Rightarrow> int \<Rightarrow> nat option \<Rightarrow> 'w \<Rightarrow> 'w option" where
  "tcp_turn wrt base rpc_id sock w =
     (case sock of
        None \<Rightarrow> Some w
      | Some k \<Rightarrow>
          Option.bind (send_all wrt k (le_bytes 8 (unat base)) w) (\<lambda>(_, w1).
          Option.bind (send_all wrt k (le_bytes 4 (unat (of_int rpc_id :: u32))) w1) (\<lambda>(_, w2). Some w2)))"

text \<open>What the thread is started with: the base address and the endpoint's number at that time.\<close>

definition launch_tcp_thread :: "int \<Rightarrow> memory_server \<Rightarrow> server_rpc \<Rightarrow> (remote_ptr \<times> int) option res" where
  "launch_tcp_thread sock s c =
     (if sock = - 1 then Inr None
      else case srv_info c of None \<Rightarrow> Inl NullDeref | Some i \<Rightarrow> Inr (Some (ms_base s, self_id i)))"

definition launch_erpc_thread :: "server_rpc \<Rightarrow> server_rpc" where
  "launch_erpc_thread c = loop_thread c"

text \<open>The other end, in \<open>connect_memory_nodes\<close>: the base is refused unless all its bytes came; the
  number keeps its initial \<open>-1\<close> where no byte came.\<close>

definition receive_greeting :: "'w sys_read \<Rightarrow> nat \<Rightarrow> 'w \<Rightarrow> ((remote_ptr \<times> int) option \<times> 'w) option" where
  "receive_greeting red sock w =
     Option.bind (recv_all red sock 8 w) (\<lambda>(s, b, w1).
     if s \<noteq> 8 then Some (None, w1)
     else Option.bind (recv_all red sock 4 w1) (\<lambda>(_, i, w2).
       Some (Some (of_nat (le_val b), sint (of_nat (le_val (i @ drop (length i) (replicate 4 255))) :: u32)), w2)))"

subsection \<open>Connecting queue pairs\<close>

text \<open>A turn of the thread of \<open>launch_rdma_thread\<close>: a device that cannot be opened ends it (\<open>None\<close>);
  whether the connection succeeded is not looked at.\<close>

definition rdma_turn :: "'w verbs \<Rightarrow> verbs_consts \<Rightarrow> memory_server \<Rightarrow> nat option \<Rightarrow> rdma_context list \<Rightarrow> 'w net \<Rightarrow>
    (rdma_context list option \<times> 'w net) res" where
  "rdma_turn V K s sock xs w =
     (case sock of
        None \<Rightarrow> Inr (Some xs, w)
      | Some k \<Rightarrow>
          (case ms_device s of
             None \<Rightarrow> Inl NullDeref
           | Some d \<Rightarrow>
               (case rdma_open V d (get_as (ms_base s)) (unat (ms_cap s)) 1 (get_default_mr_access K) get_default_qp_init_attr w of
                  ((x, st), w1) \<Rightarrow>
                    if st \<noteq> status.Ok then Inr (None, w1)
                    else (case x of
                        None \<Rightarrow> Inl NullDeref
                      | Some x \<Rightarrow>
                          (case default_connect V K d k x w1 of ((_, x'), w2) \<Rightarrow> Inr (Some (xs @ [x']), w2))))))"

subsection \<open>Sockets that take their bytes in pieces\<close>

text \<open>A write takes a nonempty beginning of what it is given; \<open>out\<close> is what was sent so far.\<close>

locale stream_socket =
  fixes wrt :: "'w sys_write" and out :: "'w \<Rightarrow> bytes"
  assumes takes: "b \<noteq> [] \<Longrightarrow> \<exists>n w'. wrt k b w = (int n, w') \<and> 0 < n \<and> n \<le> length b \<and> out w' = out w @ take n b"
begin

lemma send_loop_sends:
  "sent < length buf \<Longrightarrow> \<exists>w'. send_loop wrt k buf sent w = Some (int (length buf), w') \<and> out w' = out w @ drop sent buf"
proof (induction "length buf - sent" arbitrary: sent w rule: less_induct)
  case less
  obtain n w1 where n: "wrt k (drop sent buf) w = (int n, w1)" "0 < n" "n \<le> length buf - sent" "out w1 = out w @ take n (drop sent buf)"
    using takes [of "drop sent buf" k w] less.prems by auto
  show ?case
  proof (cases "sent + n < length buf")
    case True
    have "length buf - (sent + n) < length buf - sent" using True n(2) by linarith
    then obtain w' where "send_loop wrt k buf (sent + n) w1 = Some (int (length buf), w')" "out w' = out w1 @ drop (sent + n) buf"
      using less.hyps [of "sent + n" w1] True by auto
    then show ?thesis using n True by (subst send_loop.simps) (auto simp: add.commute simp flip: drop_drop)
  next
    case False
    then show ?thesis using n by (subst send_loop.simps) auto
  qed
qed

lemma send_all_sends: "buf \<noteq> [] \<Longrightarrow> \<exists>w'. send_all wrt k buf w = Some (int (length buf), w') \<and> out w' = out w @ buf"
  using send_loop_sends [of 0 buf k w] by (simp add: send_all_def)

text \<open>So a turn of the greeting thread sends the base and the number of the endpoint.\<close>

lemma tcp_turn_sends:
  "\<exists>w'. tcp_turn wrt base rpc_id (Some k) w = Some w' \<and> out w' = out w @ le_bytes 8 (unat base) @ le_bytes 4 (unat (of_int rpc_id :: u32))"
proof -
  have ne: "le_bytes 8 v \<noteq> []" "le_bytes 4 v \<noteq> []" for v by (simp_all flip: length_0_conv)
  obtain w1 where w1: "send_all wrt k (le_bytes 8 (unat base)) w = Some (8, w1)" "out w1 = out w @ le_bytes 8 (unat base)"
    using send_all_sends [OF ne(1)] by fastforce
  obtain w2 where "send_all wrt k (le_bytes 4 (unat (of_int rpc_id :: u32))) w1 = Some (4, w2)"
    "out w2 = out w1 @ le_bytes 4 (unat (of_int rpc_id :: u32))"
    using send_all_sends [OF ne(2)] by fastforce
  with w1 show ?thesis by (simp add: tcp_turn_def)
qed

end

text \<open>A socket that takes up to three bytes at a time, each time as a piece of the peer's stream.\<close>

definition piece_write :: "bytes list sys_write" where
  "piece_write k b w = (int (min 3 (length b)), w @ [take 3 b])"

interpretation pieces: stream_socket piece_write concat
proof
  fix b :: bytes and k w
  assume "b \<noteq> []"
  then show "\<exists>n w'. piece_write k b w = (int n, w') \<and> 0 < n \<and> n \<le> length b \<and> concat w' = concat w @ take n b"
    by (intro exI [of _ "min 3 (length b)"]) (auto simp: piece_write_def min_def)
qed

lemma receive_greeting_of:
  assumes "[] \<notin> set cs" "concat cs = le_bytes 8 (unat base) @ le_bytes 4 (unat (of_int rpc_id :: u32)) @ rest"
    and "- (2 ^ 31) \<le> rpc_id" "rpc_id < 2 ^ 31"
  shows "\<exists>cs'. receive_greeting stream_read k cs = Some (Some (base, rpc_id), cs') \<and> concat cs' = rest"
proof -
  let ?i = "le_bytes 4 (unat (of_int rpc_id :: u32))"
  obtain cs1 where c1: "recv_all stream_read k 8 cs = Some (8, le_bytes 8 (unat base), cs1)" "concat cs1 = ?i @ rest" "[] \<notin> set cs1"
    using recv_loop_gets [OF assms(1), of "[]" 8 k] by (auto simp: recv_all_def assms(2))
  obtain cs2 where c2: "recv_all stream_read k 4 cs1 = Some (4, ?i, cs2)" "concat cs2 = rest"
    using recv_loop_gets [OF c1(3), of "[]" 4 k] by (auto simp: recv_all_def c1(2))
  have b: "of_nat (le_val (le_bytes 8 (unat base))) = base" by (rule of_nat_le_val_le_bytes) simp
  have i: "(of_nat (le_val ?i) :: u32) = of_int rpc_id" by (rule of_nat_le_val_le_bytes) simp
  have "sint (of_int rpc_id :: u32) = rpc_id" using assms(3,4) by (simp add: signed_of_int signed_take_bit_int_eq_self)
  with c1(1) c2 b i show ?thesis by (simp add: receive_greeting_def)
qed

subsection \<open>The registered handlers\<close>

lemma initialised_handlers:
  assumes "initialize_erpc nexus s c = Inr (True, c')"
  shows "srv_funcs c' RemoteAllocation = Some handle_allocation" "srv_funcs c' RemoteDeallocation = Some handle_deallocation"
  using assms by (auto simp: initialize_erpc_def res_simps register_req_func_def split: if_splits)

lemma eight_bytes: "length (le_bytes 8 (unat (p :: remote_ptr))) = 8" "of_nat (le_val (le_bytes 8 (unat p))) = p"
  by (simp, rule of_nat_le_val_le_bytes, simp)

text \<open>The answer to a request for a segment, and to the request that gives it back: the operation code,
  then the pointer as it was received.\<close>

lemma handle_allocation_some:
  assumes "ms_allocator s = Some a" "mna_inv a" "\<not> full a" "0 \<le> node_id (ms_info s)" "node_id (ms_info s) < 64"
  obtains no p a' where "handle_allocation req s = Inr (le_bytes 8 (unat p), s\<lparr>ms_allocator := Some a'\<rparr>)"
    "int (get_node p) = node_id (ms_info s)" "get_as p = seg_addr a no" "\<not> is_nullptr p" "no < bm_cap (mna_bitmap a)"
    "no \<notin> bm_used (mna_bitmap a)" "{..<no} \<subseteq> bm_used (mna_bitmap a)" "bm_used (mna_bitmap a') = insert no (bm_used (mna_bitmap a))"
    "mna_allocate a = (seg_addr a no, a')" "mna_inv a'"
proof -
  obtain x a' where al: "mna_allocate a = (x, a')" by (cases "mna_allocate a")
  have ne: "bm_used (mna_bitmap a) \<noteq> {..<bm_cap (mna_bitmap a)}" using assms(3) by (simp add: full_def)
  obtain no where no: "x = seg_addr a no" "no < bm_cap (mna_bitmap a)" "no \<notin> bm_used (mna_bitmap a)" "{..<no} \<subseteq> bm_used (mna_bitmap a)"
    "bm_used (mna_bitmap a') = insert no (bm_used (mna_bitmap a))" "mna_inv a'"
    by (rule mna_allocate_some [OF assms(2) al ne])
  have "seg_addr a no \<noteq> 0" using unat_seg_addr(1) [OF assms(2) no(2)] by (auto simp: MEMORY_PAGE_SIZE_def)
  moreover have "unat (of_nat (nat (node_id (ms_info s))) :: u64) mod 64 = nat (node_id (ms_info s))"
    using assms(5) by (simp add: unat_of_nat take_bit_nat_eq_self)
  ultimately show ?thesis
    using seg_addr_mask [OF assms(2) no(2)] no al assms(1,4)
    by (intro that [of "make_remote_pointer_ptr (of_nat (nat (node_id (ms_info s)))) x" a' no])
      (simp_all add: handle_allocation_def allocation_handler_def make_remote_pointer_overloads_agree is_nullptr_make get_as_make_mask)
qed

lemma handle_deallocation_pointer:
  assumes "ms_allocator s = Some a"
  shows "handle_deallocation (op # le_bytes 8 (unat p) @ rest) s =
    res_bind (mna_deallocate (get_as p) a) (\<lambda>a'. Inr ([1], s\<lparr>ms_allocator := Some a'\<rparr>))"
  using assms eight_bytes [of p]
  by (cases "mna_deallocate (get_as p) a") (simp_all add: handle_deallocation_def deallocation_handler_def)

subsection \<open>Properties\<close>

text \<open>C15: a memory node's greeting reaches the compute node: over a socket that takes the bytes in
  pieces of any size, one turn of the greeting thread sends the base address and the number of the
  endpoint, and \<open>connect_memory_nodes\<close>, reading a stream of the same bytes in pieces of any size,
  receives both and nothing more.\<close>

theorem greeting_received:
  assumes "stream_socket wrt out" "out w = []" "- (2 ^ 31) \<le> rpc_id" "rpc_id < 2 ^ 31"
  shows "\<exists>w'. tcp_turn wrt base rpc_id (Some k) w = Some w' \<and>
    (\<forall>cs. [] \<notin> set cs \<and> concat cs = out w' \<longrightarrow>
       (\<exists>cs'. receive_greeting stream_read j cs = Some (Some (base, rpc_id), cs') \<and> concat cs' = []))"
proof -
  obtain w' where "tcp_turn wrt base rpc_id (Some k) w = Some w'"
    "out w' = le_bytes 8 (unat base) @ le_bytes 4 (unat (of_int rpc_id :: u32))"
    using stream_socket.tcp_turn_sends [OF assms(1), of base rpc_id k w] assms(2) by auto
  then show ?thesis using receive_greeting_of [OF _ _ assms(3,4), of _ base "[]" j] by auto
qed

lemma greeting_received_witness:
  "\<exists>w' cs'. tcp_turn piece_write 0x1234 (- 7) (Some 3) [] = Some w' \<and>
     receive_greeting stream_read 5 [concat w'] = Some (Some (0x1234, - 7), cs') \<and> concat cs' = []"
proof -
  obtain w' where w: "tcp_turn piece_write 0x1234 (- 7) (Some 3) [] = Some w'"
    and r: "\<And>cs. [] \<notin> set cs \<and> concat cs = concat w' \<Longrightarrow>
       \<exists>cs'. receive_greeting stream_read 5 cs = Some (Some (0x1234, - 7), cs') \<and> concat cs' = []"
    using greeting_received [OF pieces.stream_socket_axioms, of "[]" "- 7" "0x1234" 3 5] by auto
  have "concat w' \<noteq> []" using pieces.tcp_turn_sends [of "0x1234" "- 7" 3 "[]"] w by (auto simp flip: length_0_conv)
  with w r [of "[concat w']"] show ?thesis by auto
qed

text \<open>C13: the handlers that a memory node registers serve segments.  Once its endpoint is initialised,
  with an allocator that has a slot left, the handler for allocations answers any request with the
  eight bytes of a pointer that carries the node's number and the address of the lowest free
  segment, and marks just that one; the handler for deallocations, sent the operation code and
  these eight bytes, answers that it is done, and the slots taken are those of before.\<close>

theorem handlers_serve_segments:
  assumes "initialize_erpc nexus s c = Inr (True, c')" "ms_allocator s = Some a" "mna_inv a" "\<not> full a"
    and "0 \<le> node_id (ms_info s)" "node_id (ms_info s) < 64"
  shows "\<exists>h h' resp no a1 a2. srv_funcs c' RemoteAllocation = Some h \<and> srv_funcs c' RemoteDeallocation = Some h' \<and>
    h req s = Inr (resp, s\<lparr>ms_allocator := Some a1\<rparr>) \<and> length resp = 8 \<and>
    (let p = of_nat (le_val resp) in int (get_node p) = node_id (ms_info s) \<and> \<not> is_nullptr p \<and>
       unat (get_as p) = unat (mna_this a) + MEMORY_PAGE_SIZE + no * SEGMENT_SIZE) \<and>
    no \<notin> bm_used (mna_bitmap a) \<and> {..<no} \<subseteq> bm_used (mna_bitmap a) \<and>
    bm_used (mna_bitmap a1) = insert no (bm_used (mna_bitmap a)) \<and>
    h' (op # resp @ rest) (s\<lparr>ms_allocator := Some a1\<rparr>) = Inr ([1], s\<lparr>ms_allocator := Some a2\<rparr>) \<and>
    bm_used (mna_bitmap a2) = bm_used (mna_bitmap a)"
proof -
  obtain no p a1 where h: "handle_allocation req s = Inr (le_bytes 8 (unat p), s\<lparr>ms_allocator := Some a1\<rparr>)"
    "int (get_node p) = node_id (ms_info s)" "get_as p = seg_addr a no" "\<not> is_nullptr p" "no < bm_cap (mna_bitmap a)"
    "no \<notin> bm_used (mna_bitmap a)" "{..<no} \<subseteq> bm_used (mna_bitmap a)" "bm_used (mna_bitmap a1) = insert no (bm_used (mna_bitmap a))"
    "mna_allocate a = (seg_addr a no, a1)"
    by (rule handle_allocation_some [OF assms(2-)])
  obtain a2 where a2: "mna_deallocate (seg_addr a no) a1 = Inr a2" "bm_used (mna_bitmap a2) = bm_used (mna_bitmap a)"
    using segment_allocate_deallocate [OF assms(3) _ h(9)] assms(4) by (auto simp: full_def)
  have d: "handle_deallocation (op # le_bytes 8 (unat p) @ rest) (s\<lparr>ms_allocator := Some a1\<rparr>) = Inr ([1], s\<lparr>ms_allocator := Some a2\<rparr>)"
    by (simp add: handle_deallocation_pointer [of _ a1] h(3) a2(1))
  have "unat (get_as p) = unat (mna_this a) + MEMORY_PAGE_SIZE + no * SEGMENT_SIZE"
    using unat_seg_addr(1) [OF assms(3) h(5)] h(3) by simp
  then show ?thesis
    using initialised_handlers [OF assms(1)] h d a2(2) eight_bytes [of p]
    by (intro exI [of _ handle_allocation] exI [of _ handle_deallocation] exI [of _ "le_bytes 8 (unat p)"] exI [of _ no]
        exI [of _ a1] exI [of _ a2]) (simp add: Let_def)
qed

definition some_info :: node_info where
  "some_info = \<lparr>node_id = 0, tcp_addr = \<lparr>addr_content = [127, 0, 0, 1]\<rparr>, tcp_port = 1, roce_addr = \<lparr>addr_content = [127, 0, 0, 1]\<rparr>,
     roce_port = 2, erpc_addr = \<lparr>addr_content = [127, 0, 0, 1]\<rparr>, erpc_port = 3, socket = 0\<rparr>"

definition some_server :: memory_server where
  "some_server = \<lparr>ms_info = some_info, ms_cap = 4096, ms_base = 4096, ms_allocator = Some node3,
     ms_device = Some \<lparr>dev_name = ''sim'', dev_index = 0, ib_port = 1, gid_idx = 0\<rparr>\<rparr>"

definition some_rpc :: server_rpc where
  "some_rpc = \<lparr>srv_current_id = 0, srv_info = None, srv_funcs = Map.empty\<rparr>"

lemma handlers_serve_segments_witness:
  "\<exists>c h h' resp s1 s2. initialize_erpc (\<lambda>_. True) some_server some_rpc = Inr (True, c) \<and> srv_funcs c RemoteAllocation = Some h \<and>
     srv_funcs c RemoteDeallocation = Some h' \<and> h [] some_server = Inr (resp, s1) \<and> h' (2 # resp @ []) s1 = Inr ([1], s2)"
proof -
  obtain c where c: "initialize_erpc (\<lambda>_. True) some_server some_rpc = Inr (True, c)"
    by (simp add: initialize_erpc_def initialize_nexus_def addr_to_uri_def addr_to_string_def some_server_def some_info_def)
  have a: "ms_allocator some_server = Some node3" "\<not> full node3" "0 \<le> node_id (ms_info some_server)" "node_id (ms_info some_server) < 64"
    using node3_empty by (simp_all add: some_server_def some_info_def full_def)
  from handlers_serve_segments [OF c a(1) node3_inv a(2-4), of "[]" 2 "[]"] c show ?thesis by blast
qed

text \<open>C14: a connection can be made at one end only: the memory node's sockets do not block, so when a
  compute node's certificate has not come yet, the read answers \<open>-1\<close>; the memory node keeps the
  queue pair all the same, never made ready and without its peer's certificate, while the compute
  node reads the certificate it was sent and reports success.\<close>

theorem late_certificate_connects_one_end:
  assumes "ms_device s = Some d"
    and "rdma_open V d (get_as (ms_base s)) (unat (ms_cap s)) 1 (get_default_mr_access K) get_default_qp_init_attr w = ((Some x, status.Ok), w1)"
    and "sock_write V k (cert_message (local_cert x)) w1 = (34, w2)" "sock_read V k sizeof_certificate w2 = (- 1, b, w3)"
    and "length (c_gid (local_cert x)) = 16"
    and "sock_write V' k' (cert_message (local_cert y)) v = (34, v1)"
      "sock_read V' k' sizeof_certificate v1 = (34, cert_message (local_cert x), v2)"
    and "default_get_qp_ready V' K' d' (y\<lparr>remote_cert := local_cert x\<rparr>) v2 = (0, v3)"
  shows "rdma_turn V K s (Some k) xs w = Inr (Some (xs @ [x]), w3) \<and> remote_cert x = zero_cert \<and>
    default_connect V' K' d' k' y v = ((0, y\<lparr>remote_cert := local_cert x\<rparr>), v3)"
proof (intro conjI)
  show "rdma_turn V K s (Some k) xs w = Inr (Some (xs @ [x]), w3)"
    using assms(1-4) by (simp add: rdma_turn_def default_connect_def exchange_certificate_def sizeof_certificate_def)
  show "remote_cert x = zero_cert"
    using assms(2) by (auto simp: rdma_open_def Let_def split: if_splits option.splits prod.splits)
  show "default_connect V' K' d' k' y v = ((0, y\<lparr>remote_cert := local_cert x\<rparr>), v3)"
    using assms(5-8) by (simp add: default_connect_def exchange_certificate_def cert_received_message sizeof_certificate_def)
qed

text \<open>The context that \<open>some_server\<close> opens on the simulated network.\<close>

definition opened :: rdma_context where
  "opened = \<lparr>rc_out_cq = 0, rc_in_cq = 0, rc_lkey = 0, rc_qp = 0,
     local_cert = \<lparr>c_addr = 4096, c_rkey = 0, c_qp_num = 0, c_lid = 0, c_gid = replicate 16 0\<rparr>,
     remote_cert = zero_cert, rc_buf = 4096\<rparr>"

lemma some_server_opens:
  "rdma_open (sim_verbs\<lparr>sock_read := r\<rparr>) \<lparr>dev_name = ''sim'', dev_index = 0, ib_port = 1, gid_idx = 0\<rparr> (get_as (ms_base some_server))
     (unat (ms_cap some_server)) 1 acc get_default_qp_init_attr w = ((Some opened, status.Ok), w)"
proof -
  have "get_as 4096 = 4096" by (simp add: get_as_def)
  then show ?thesis by (simp add: rdma_open_def sim_verbs_def opened_def some_server_def)
qed

lemma late_certificate_connects_one_end_witness:
  "\<forall>K. \<exists>w. rdma_turn (sim_verbs\<lparr>sock_read := (\<lambda>s l n. (- 1, [], n))\<rparr>) K some_server (Some 7) [] some_net = Inr (Some [opened], w) \<and>
     remote_cert opened = zero_cert \<and>
     default_connect (sim_verbs\<lparr>sock_read := (\<lambda>s l n. (int l, cert_message (local_cert opened), n))\<rparr>) K
       \<lparr>dev_name = ''sim'', dev_index = 0, ib_port = 1, gid_idx = 0\<rparr> 8 some_context some_net =
       ((0, some_context\<lparr>remote_cert := local_cert opened\<rparr>), some_net)"
proof
  fix K :: verbs_consts
  have l: "length (c_gid (local_cert opened)) = 16" "length (c_gid (local_cert some_context)) = 16"
    by (simp_all add: opened_def some_context_def)
  note m = cert_received_message(2) [OF l(1)] cert_received_message(2) [OF l(2)]
  have q: "default_get_qp_ready (sim_verbs\<lparr>sock_read := r\<rparr>) K d x n = (0, n)" for r d x n
    by (simp add: default_get_qp_ready_def modify_qp_def sim_verbs_def)
  have d: "ms_device some_server = Some \<lparr>dev_name = ''sim'', dev_index = 0, ib_port = 1, gid_idx = 0\<rparr>"
    by (simp add: some_server_def)
  show "\<exists>w. rdma_turn (sim_verbs\<lparr>sock_read := (\<lambda>s l n. (- 1, [], n))\<rparr>) K some_server (Some 7) [] some_net = Inr (Some [opened], w) \<and>
     remote_cert opened = zero_cert \<and>
     default_connect (sim_verbs\<lparr>sock_read := (\<lambda>s l n. (int l, cert_message (local_cert opened), n))\<rparr>) K
       \<lparr>dev_name = ''sim'', dev_index = 0, ib_port = 1, gid_idx = 0\<rparr> 8 some_context some_net =
       ((0, some_context\<lparr>remote_cert := local_cert opened\<rparr>), some_net)"
    using late_certificate_connects_one_end [OF d some_server_opens, where k = 7 and xs = "[]" and ?w2.0 = some_net and ?w3.0 = some_net
        and b = "[]" and y = some_context and V' = "sim_verbs\<lparr>sock_read := (\<lambda>s l n. (int l, cert_message (local_cert opened), n))\<rparr>"
        and k' = 8 and v = some_net and ?v1.0 = some_net and ?v2.0 = some_net and ?v3.0 = some_net and K' = K and K = K,
        OF _ _ l(1) _ _ q, of "\<lambda>s l n. (- 1, [], n)"] m
    by (simp add: sim_verbs_def sizeof_certificate_def)
qed

text \<open>Launched in the wrong order, the greeting thread has no endpoint to tell of.\<close>

lemma greeting_before_endpoint:
  "sock \<noteq> - 1 \<Longrightarrow> srv_info c = None \<Longrightarrow> launch_tcp_thread sock s c = Inl NullDeref"
  "sock \<noteq> - 1 \<Longrightarrow> launch_tcp_thread sock s (launch_erpc_thread c) = Inr (Some (ms_base s, srv_current_id c))"
  by (simp_all add: launch_tcp_thread_def launch_erpc_thread_def loop_thread_def server_new_rpc_def)

end
