(* ===== verification/Workload.thy ===== *)
theory Workload
  imports Cluster
begin

text \<open>
  \<open>components/workload/workload.hpp\<close>: the request generators of the benchmarks.  What draws the
  numbers is a parameter with a state of its own: \<open>UniformGenerator\<close> is the standard library's
  distribution, and \<open>ZipfGenerator\<close> (\<open>components/workload/zipf/\<close>) computes in floating point.
\<close>

subsection \<open>Numbers\<close>

datatype workload_type = Uniform | Zipf

type_synonym 'g drawn = "'g \<Rightarrow> u64 \<times> 'g"

record 'g bench_workload =
  generator :: 'g
  bw_num_ops :: u64
  workload :: "u64 list"

text \<open>Making a generator for a range is the parameter \<open>gen\<close>; a type that the program does not know gives
  none.\<close>

definition make_bench_workload :: "(workload_type \<Rightarrow> u64 \<Rightarrow> 'g option) \<Rightarrow> u64 \<Rightarrow> u64 \<Rightarrow> workload_type \<Rightarrow> 'g bench_workload option" where
  "make_bench_workload gen n rng t =
     map_option (\<lambda>g. \<lparr>generator = g, bw_num_ops = n, workload = []\<rparr>) (gen t rng)"

definition next_unrecorded :: "'g drawn \<Rightarrow> 'g bench_workload \<Rightarrow> u64 \<times> 'g bench_workload" where
  "next_unrecorded draw b = (case draw (generator b) of (x, g) \<Rightarrow> (x, b\<lparr>generator := g\<rparr>))"

definition bench_next :: "'g drawn \<Rightarrow> 'g bench_workload \<Rightarrow> u64 \<times> 'g bench_workload" where
  "bench_next draw b = (case draw (generator b) of (x, g) \<Rightarrow> (x, b\<lparr>generator := g, workload := workload b @ [x]\<rparr>))"

definition get_all :: "'g drawn \<Rightarrow> 'g bench_workload \<Rightarrow> u64 list \<times> 'g bench_workload" where
  "get_all draw b =
     (let b' = (if of_nat (length (workload b)) < bw_num_ops b
                then (case bench_next draw b of (x, c) \<Rightarrow> c\<lparr>workload := workload c @ [x]\<rparr>) else b)
      in (workload b', b'))"

subsection \<open>Requests\<close>

datatype ycsb_type = YCSB_A | YCSB_B | YCSB_C | YCSB_D | YCSB_E | YCSB_L | YCSB_R

datatype ycsb_operation = Insert | Update | Search | Scan

record 'g ycsb_workload =
  load_generator :: "'g bench_workload"
  op_generator :: "'g bench_workload"
  yw_num_ops :: u64
  ycsb :: ycsb_type

text \<open>The operations are drawn from the range 99; a generator that could not be made is dereferenced
  when the first request is asked for.\<close>

definition make_ycsb_workload :: "(workload_type \<Rightarrow> u64 \<Rightarrow> 'g option) \<Rightarrow> u64 \<Rightarrow> u64 \<Rightarrow> ycsb_type \<Rightarrow> 'g ycsb_workload option" where
  "make_ycsb_workload gen n rng t =
     (case (make_bench_workload gen n rng Zipf, make_bench_workload gen n 99 Uniform) of
        (Some l, Some p) \<Rightarrow> Some \<lparr>load_generator = l, op_generator = p, yw_num_ops = n, ycsb = t\<rparr>
      | _ \<Rightarrow> None)"

definition KEY_SIZE :: nat where "KEY_SIZE = 16"

text \<open>Padding on the left: the number of zeros is a \<open>size_t\<close>, and \<open>insert\<close> throws when the string would be
  longer than a string can be.\<close>

definition padded_key :: "u64 \<Rightarrow> string res" where
  "padded_key x =
     (let k = dec_string (unat x)
      in if KEY_SIZE < length k then Inl LengthError else Inr (replicate (KEY_SIZE - length k) CHR ''0'' @ k))"

fun ycsb_op :: "ycsb_type \<Rightarrow> u64 \<Rightarrow> ycsb_operation" where
  "ycsb_op YCSB_A op = (if op < 49 then Update else Search)"
| "ycsb_op YCSB_B op = (if op < 4 then Update else Search)"
| "ycsb_op YCSB_C op = Search"
| "ycsb_op YCSB_D op = (if op < 4 then Insert else Search)"
| "ycsb_op YCSB_E op = (if op < 4 then Insert else Scan)"
| "ycsb_op YCSB_L op = Insert"
| "ycsb_op YCSB_R op = Scan"

definition ycsb_next :: "'g drawn \<Rightarrow> 'g ycsb_workload \<Rightarrow> ((ycsb_operation \<times> string) \<times> 'g ycsb_workload) res" where
  "ycsb_next draw y =
     (case next_unrecorded draw (load_generator y) of (x, l) \<Rightarrow>
      res_bind (padded_key x) (\<lambda>k.
      case next_unrecorded draw (op_generator y) of (op, p) \<Rightarrow>
      Inr ((ycsb_op (ycsb y) op, k), y\<lparr>load_generator := l, op_generator := p\<rparr>)))"

subsection \<open>Keys as numbers\<close>

text \<open>The bytes of a key, as the store compares them.\<close>

definition key_bytes :: "string \<Rightarrow> bytes" where
  "key_bytes k = map of_char k"

lemma decimal_Cons: "decimal (c # d) = ((of_char c :: nat) - 48) * 10 ^ length d + decimal d"
proof (induction d rule: rev_induct)
  case (snoc x d)
  have "decimal (c # d @ [x]) = decimal ((c # d) @ [x])" by simp
  then show ?case unfolding decimal_snoc using snoc by (simp add: algebra_simps decimal_snoc)
qed (simp add: decimal_def)

lemma decimal_bound: "list_all is_digit d \<Longrightarrow> decimal d < 10 ^ length d"
proof (induction d)
  case (Cons c d)
  then have "(of_char c :: nat) - 48 \<le> 9" "decimal d < 10 ^ length d" by (auto simp: is_digit_def)
  then have "((of_char c :: nat) - 48) * 10 ^ length d + decimal d < 9 * 10 ^ length d + 10 ^ length d"
    by (intro add_le_less_mono mult_right_mono) simp_all
  then show ?case by (simp add: decimal_Cons)
qed (simp add: decimal_def)

lemma of_char_byte: "unat (of_char c :: byte_t) = of_char c"
proof -
  have "(of_char c :: nat) < 256" by simp
  moreover have "of_nat (of_char c) = (of_char c :: byte_t)" by (rule of_nat_of_char)
  ultimately show ?thesis using unat_of_nat [of "of_char c :: nat", where 'a = 8] by simp
qed

lemma sub48: "(of_char x :: nat) - 48 = of_char y - 48 \<Longrightarrow> 48 \<le> (of_char x :: nat) \<Longrightarrow> 48 \<le> (of_char y :: nat) \<Longrightarrow> x = y"
  by (metis eq_diff_iff of_char_eq_iff)

text \<open>Digits of one length are ordered as their numbers.\<close>

lemma digits_order:
  "list_all is_digit a \<Longrightarrow> list_all is_digit b \<Longrightarrow> length a = length b \<Longrightarrow> key_bytes a < key_bytes b \<longleftrightarrow> decimal a < decimal b"
proof (induction a b rule: list_induct2')
  case (4 x a y b)
  let ?p = "10 ^ length b :: nat" and ?x = "(of_char x :: nat) - 48" and ?y = "(of_char y :: nat) - 48"
  have l: "length a = length b" "decimal a < ?p" "decimal b < ?p" and d: "is_digit x" "is_digit y"
    using 4 decimal_bound [of a] decimal_bound [of b] by simp_all
  have c: "(of_char x :: byte_t) < of_char y \<longleftrightarrow> ?x < ?y" "(of_char x :: byte_t) = of_char y \<longleftrightarrow> ?x = ?y"
    using d sub48 [of x y] by (auto simp: word_less_nat_alt word_unat_eq_iff of_char_byte is_digit_def)
  have e: "decimal (x # a) = ?x * ?p + decimal a" "decimal (y # b) = ?y * ?p + decimal b" using l(1) by (simp_all add: decimal_Cons)
  have lt: "m * ?p + decimal u < n * ?p + decimal v" if "m < n" "decimal u < ?p" for m n :: nat and u v
  proof -
    have "m * ?p + decimal u < Suc m * ?p" using that(2) by simp
    also have "\<dots> \<le> n * ?p" using that(1) by (intro mult_right_mono) simp_all
    finally show ?thesis by simp
  qed
  have "key_bytes a < key_bytes b \<longleftrightarrow> decimal a < decimal b" using 4 by simp
  moreover have "key_bytes (x # a) < key_bytes (y # b) \<longleftrightarrow> ?x < ?y \<or> ?x = ?y \<and> key_bytes a < key_bytes b"
    using c by (simp add: key_bytes_def)
  moreover have "decimal (x # a) < decimal (y # b) \<longleftrightarrow> ?x < ?y \<or> ?x = ?y \<and> decimal a < decimal b"
  proof (cases ?x ?y rule: linorder_cases)
    case less
    with lt [OF this l(2)] show ?thesis unfolding e by simp
  next
    case equal
    then show ?thesis unfolding e by simp
  next
    case greater
    with lt [OF this l(3), of a] show ?thesis unfolding e by (simp add: not_less less_imp_le)
  qed
  ultimately show ?case by simp
qed (simp_all add: key_bytes_def decimal_def)

lemma decimal_zeros: "decimal (replicate n CHR ''0'' @ d) = decimal d"
  by (induction n) (simp_all add: decimal_Cons)

lemma padded_key_some:
  assumes "unat x < 10 ^ 16"
  obtains k where "padded_key x = Inr k" "length k = 16" "list_all is_digit k" "decimal k = unat x"
proof -
  have "length (dec_string (unat x)) \<le> 16" using dec_string_length [of "unat x" 15] assms by simp
  moreover have "list_all is_digit (replicate n CHR ''0'')" for n by (simp add: list_all_iff is_digit_def)
  ultimately show ?thesis using dec_string_digits [of "unat x"]
    by (intro that [of "replicate (16 - length (dec_string (unat x))) CHR ''0'' @ dec_string (unat x)"])
      (simp_all add: padded_key_def KEY_SIZE_def decimal_zeros Let_def)
qed

lemma padded_key_long:
  assumes "10 ^ 16 \<le> unat x"
  shows "padded_key x = Inl LengthError"
proof -
  have "decimal (dec_string (unat x)) < 10 ^ length (dec_string (unat x))"
    by (rule decimal_bound) (rule dec_string_digits(1))
  then have "(10 :: nat) ^ 16 < 10 ^ length (dec_string (unat x))" using assms by (simp add: dec_string_digits)
  then have "16 < length (dec_string (unat x))" by (rule power_less_imp_less_exp [rotated]) simp
  then show ?thesis by (simp add: padded_key_def KEY_SIZE_def)
qed

subsection \<open>Properties\<close>

text \<open>C38: the key of a request is 16 characters and is compared as the number it stands for, for all
  numbers below \<open>10 ^ 16\<close>; when a larger one is drawn, asking for a request throws.\<close>

theorem ycsb_keys_ordered:
  "(if unat x < 10 ^ 16 \<and> unat y < 10 ^ 16
    then \<exists>k l. padded_key x = Inr k \<and> padded_key y = Inr l \<and> length k = 16 \<and> length l = 16 \<and>
        (key_bytes k < key_bytes l \<longleftrightarrow> x < y) \<and> (k = l \<longleftrightarrow> x = y)
    else padded_key x = Inl LengthError \<or> padded_key y = Inl LengthError) \<and>
   (ycsb_next draw z = Inl LengthError \<longleftrightarrow> 10 ^ 16 \<le> unat (fst (draw (generator (load_generator z)))))"
proof
  show "if unat x < 10 ^ 16 \<and> unat y < 10 ^ 16
    then \<exists>k l. padded_key x = Inr k \<and> padded_key y = Inr l \<and> length k = 16 \<and> length l = 16 \<and>
        (key_bytes k < key_bytes l \<longleftrightarrow> x < y) \<and> (k = l \<longleftrightarrow> x = y)
    else padded_key x = Inl LengthError \<or> padded_key y = Inl LengthError"
  proof (cases "unat x < 10 ^ 16 \<and> unat y < 10 ^ 16")
    case True
    then obtain k l where k: "padded_key x = Inr k" "length k = 16" "list_all is_digit k" "decimal k = unat x"
      and l: "padded_key y = Inr l" "length l = 16" "list_all is_digit l" "decimal l = unat y"
      by (metis padded_key_some)
    have "key_bytes k < key_bytes l \<longleftrightarrow> x < y" using digits_order [of k l] k l by (simp add: word_less_nat_alt)
    moreover have "x = y" if "k = l" using that k(4) l(4) by (simp add: word_unat_eq_iff)
    moreover have "k = l" if "x = y" using that k(1) l(1) by simp
    ultimately show ?thesis using True k(1,2) l(1,2) by auto
  next
    case False
    then show ?thesis using padded_key_long [of x] padded_key_long [of y] by auto
  qed
  obtain x g where d: "draw (generator (load_generator z)) = (x, g)" by fastforce
  show "ycsb_next draw z = Inl LengthError \<longleftrightarrow> 10 ^ 16 \<le> unat (fst (draw (generator (load_generator z))))"
  proof (cases "unat x < 10 ^ 16")
    case True
    then obtain k where "padded_key x = Inr k" by (rule padded_key_some)
    with True d show ?thesis by (simp add: ycsb_next_def next_unrecorded_def split: prod.splits)
  next
    case False
    then have "padded_key x = Inl LengthError" by (intro padded_key_long) simp
    with False d show ?thesis by (simp add: ycsb_next_def next_unrecorded_def)
  qed
qed

text \<open>Of the hundred numbers an operation is drawn from, 49 make an update of workload A and 4 one of B.\<close>

lemma ycsb_shares:
  "length (filter (\<lambda>i. ycsb_op YCSB_A (of_nat i) = Update) [0..<100]) = 49"
  "length (filter (\<lambda>i. ycsb_op YCSB_B (of_nat i) = Update) [0..<100]) = 4"
  "length (filter (\<lambda>i. ycsb_op YCSB_D (of_nat i) = Insert) [0..<100]) = 4"
  "length (filter (\<lambda>i. ycsb_op YCSB_E (of_nat i) = Insert) [0..<100]) = 4"
  by (simp_all add: upt_conv_Cons)

text \<open>\<open>get_all\<close> draws one number, however many are missing, and records it twice.\<close>

lemma get_all_twice:
  assumes "draw (generator b) = (x, g)" "workload b = []" "bw_num_ops b \<noteq> 0"
  shows "get_all draw b = ([x, x], b\<lparr>generator := g, workload := [x, x]\<rparr>)"
  using assms by (simp add: get_all_def bench_next_def word_gt_0)

end
