(* ===== verification/CmdLine.thy ===== *)
theory CmdLine
  imports Cluster
begin

text \<open>
  \<open>components/cmd_parser/cmd_parser.hpp\<close> and \<open>.cpp\<close>: the options of the programs.  The expressions that
  find an option are its name followed by \<open>=*\s*(\S+)\<close> or \<open>\s*(\S+)\<close>; they are the matchers below, for
  names without characters that are special in an expression.  The two hash tables are maps: each
  turn of the loop of \<open>parse\<close> changes the entry of its own option only, so their order does not matter.
\<close>

subsection \<open>Finding an option in the command line\<close>

text \<open>A group \<open>(\S+)\<close> after any number of spaces.\<close>

definition spaced_word :: "string \<Rightarrow> string option" where
  "spaced_word s =
     (let r = dropWhile is_space s in if r = [] then None else Some (takeWhile (\<lambda>c. \<not> is_space c) r))"

text \<open>With nothing but spaces behind the equals signs, the last of these is given back and is the word.\<close>

definition long_match :: "string \<Rightarrow> string \<Rightarrow> string option" where
  "long_match full s =
     Option.bind (literal full s) (\<lambda>r.
     case spaced_word (dropWhile (\<lambda>c. c = CHR ''='') r) of
       Some v \<Rightarrow> Some v
     | None \<Rightarrow> if takeWhile (\<lambda>c. c = CHR ''='') r = [] then None else Some ''='')"

definition short_match :: "string \<Rightarrow> string \<Rightarrow> string option" where
  "short_match shrt s = Option.bind (literal shrt s) spaced_word"

subsection \<open>The parser\<close>

datatype basic_value = BoolValue bool | IntValue int | StringValue string

record parser =
  plain_map :: "string \<rightharpoonup> string"
  regex_map :: "string \<rightharpoonup> string \<times> string"
  parsed_map :: "string \<rightharpoonup> basic_value"

definition new_parser :: parser where
  "new_parser = \<lparr>plain_map = Map.empty, regex_map = Map.empty, parsed_map = Map.empty\<rparr>"

text \<open>\<open>insert\<close> leaves an entry that is there and reports whether it was new.\<close>

definition add_option :: "string \<Rightarrow> string \<Rightarrow> parser \<Rightarrow> bool \<times> parser" where
  "add_option full shrt p =
     (if regex_map p full \<noteq> None then (False, p) else (True, p\<lparr>regex_map := (regex_map p)(full \<mapsto> (full, shrt))\<rparr>))"

definition insert_plain :: "string \<Rightarrow> string \<Rightarrow> parser \<Rightarrow> bool \<times> parser" where
  "insert_plain k v p =
     (if plain_map p k \<noteq> None then (False, p) else (True, p\<lparr>plain_map := (plain_map p)(k \<mapsto> v)\<rparr>))"

text \<open>The default as it is printed to a stream.\<close>

definition add_option_default :: "string \<Rightarrow> string \<Rightarrow> string \<Rightarrow> parser \<Rightarrow> bool \<times> parser" where
  "add_option_default full shrt v p =
     (case add_option full shrt p of (ok, p') \<Rightarrow> if \<not> ok then (False, p') else insert_plain full v p')"

definition add_switch :: "string \<Rightarrow> string \<Rightarrow> parser \<Rightarrow> bool \<times> parser" where
  "add_switch full shrt p =
     (if regex_map p full \<noteq> None then (False, p) else (True, p\<lparr>regex_map := (regex_map p)(full \<mapsto> (full, shrt))\<rparr>))"

definition add_switch_default :: "string \<Rightarrow> string \<Rightarrow> bool \<Rightarrow> parser \<Rightarrow> bool \<times> parser" where
  "add_switch_default full shrt b p =
     (case add_switch full shrt p of (ok, p') \<Rightarrow>
        if \<not> ok then (False, p') else insert_plain full (if b then ''true'' else ''false'') p')"

definition more_option :: "string \<Rightarrow> string \<Rightarrow> parser \<Rightarrow> parser" where
  "more_option full shrt p = snd (add_option full shrt p)"

definition more_option_default :: "string \<Rightarrow> string \<Rightarrow> string \<Rightarrow> parser \<Rightarrow> parser" where
  "more_option_default full shrt v p = snd (add_option_default full shrt v p)"

definition more_switch :: "string \<Rightarrow> string \<Rightarrow> parser \<Rightarrow> parser" where
  "more_switch full shrt p = snd (add_switch full shrt p)"

definition more_switch_default :: "string \<Rightarrow> string \<Rightarrow> bool \<Rightarrow> parser \<Rightarrow> parser" where
  "more_switch_default full shrt b p = snd (add_switch_default full shrt b p)"

text \<open>The arguments behind the program's name, each followed by a space.\<close>

definition command_line :: "string list \<Rightarrow> string" where
  "command_line args = concat (map (\<lambda>a. a @ '' '') args)"

text \<open>The long name first, anywhere in the line; then the short one.\<close>

definition find_option :: "string \<times> string \<Rightarrow> string \<Rightarrow> string option" where
  "find_option names line =
     (case regex_search (long_match (fst names)) line of
        Some v \<Rightarrow> Some v
      | None \<Rightarrow> regex_search (short_match (snd names)) line)"

definition parse :: "string list \<Rightarrow> parser \<Rightarrow> parser" where
  "parse argv p =
     p\<lparr>plain_map := (\<lambda>k. case regex_map p k of
          None \<Rightarrow> plain_map p k
        | Some names \<Rightarrow> (case find_option names (command_line (tl argv)) of None \<Rightarrow> plain_map p k | Some v \<Rightarrow> Some v))\<rparr>"

definition get_plain :: "string \<Rightarrow> parser \<Rightarrow> string option" where
  "get_plain opt p = plain_map p opt"

text \<open>\<open>regex_match\<close> with \<open>(f|F)(alse)?|0\<close>.\<close>

definition false_text :: "string \<Rightarrow> bool" where
  "false_text s \<longleftrightarrow> s \<in> {''f'', ''F'', ''false'', ''False'', ''0''}"

text \<open>A value that was parsed before is cast to the type asked for; a failed cast is a null pointer, and
  it is dereferenced.\<close>

definition get_bool :: "string \<Rightarrow> parser \<Rightarrow> (bool option \<times> parser) res" where
  "get_bool opt p =
     (case parsed_map p opt of
        Some (BoolValue b) \<Rightarrow> Inr (Some b, p)
      | Some _ \<Rightarrow> Inl NullDeref
      | None \<Rightarrow>
          (case plain_map p opt of
             None \<Rightarrow> Inr (None, p)
           | Some s \<Rightarrow> Inr (Some (\<not> false_text s), p\<lparr>parsed_map := (parsed_map p)(opt \<mapsto> BoolValue (\<not> false_text s))\<rparr>)))"

text \<open>The other types: reading from a stream, wrapping and casting differ.\<close>

definition get_target :: "(string \<Rightarrow> 'a option) \<Rightarrow> ('a \<Rightarrow> basic_value) \<Rightarrow> (basic_value \<Rightarrow> 'a option) \<Rightarrow> string \<Rightarrow> parser \<Rightarrow>
    ('a option \<times> parser) res" where
  "get_target parse_value wrap cast opt p =
     (case parsed_map p opt of
        Some v \<Rightarrow> (case cast v of None \<Rightarrow> Inl NullDeref | Some x \<Rightarrow> Inr (Some x, p))
      | None \<Rightarrow>
          (case plain_map p opt of
             None \<Rightarrow> Inr (None, p)
           | Some s \<Rightarrow>
               (case parse_value s of
                  None \<Rightarrow> Inr (None, p)
                | Some x \<Rightarrow> Inr (Some x, p\<lparr>parsed_map := (parsed_map p)(opt \<mapsto> wrap x)\<rparr>))))"

text \<open>\<open>operator>>\<close> for \<open>int\<close> and for \<open>std::string\<close>; a number that is out of range fails.\<close>

definition parse_int :: "string \<Rightarrow> int option" where
  "parse_int s =
     (let r = dropWhile is_space s;
          neg = (r \<noteq> [] \<and> hd r = CHR ''-'');
          r' = (if r \<noteq> [] \<and> hd r \<in> {CHR ''-'', CHR ''+''} then tl r else r)
      in case digits r' of
           None \<Rightarrow> None
         | Some (d, _) \<Rightarrow>
             (let x = (if neg then - int (decimal d) else int (decimal d))
              in if - (2 ^ 31) \<le> x \<and> x < 2 ^ 31 then Some x else None))"

definition get_int :: "string \<Rightarrow> parser \<Rightarrow> (int option \<times> parser) res" where
  "get_int = get_target parse_int IntValue (\<lambda>v. case v of IntValue x \<Rightarrow> Some x | _ \<Rightarrow> None)"

definition get_string :: "string \<Rightarrow> parser \<Rightarrow> (string option \<times> parser) res" where
  "get_string = get_target spaced_word StringValue (\<lambda>v. case v of StringValue x \<Rightarrow> Some x | _ \<Rightarrow> None)"

definition get_converted :: "(string \<Rightarrow> 'a option) \<Rightarrow> string \<Rightarrow> parser \<Rightarrow> 'a option" where
  "get_converted convertor opt p = Option.bind (plain_map p opt) convertor"

subsection \<open>Options that are given\<close>

text \<open>A name occurs in a text.\<close>

definition occurs :: "string \<Rightarrow> string \<Rightarrow> bool" where
  "occurs n s \<longleftrightarrow> (\<exists>a b. s = a @ n @ b)"

lemma occurs_Cons: "occurs n (c # s) \<longleftrightarrow> literal n (c # s) \<noteq> None \<or> occurs n s"
proof
  assume "occurs n (c # s)"
  then obtain a b where ab: "c # s = a @ n @ b" by (auto simp: occurs_def)
  show "literal n (c # s) \<noteq> None \<or> occurs n s"
  proof (cases a)
    case Nil
    with ab show ?thesis by simp
  next
    case (Cons x xs)
    with ab show ?thesis by (auto simp: occurs_def)
  qed
next
  assume "literal n (c # s) \<noteq> None \<or> occurs n s"
  then show "occurs n (c # s)"
  proof
    assume "literal n (c # s) \<noteq> None"
    then have n: "take (length n) (c # s) = n" by (auto simp: literal_def split: if_splits)
    have "c # s = [] @ take (length n) (c # s) @ drop (length n) (c # s)" by (simp only: append_take_drop_id append_Nil)
    then show ?thesis unfolding n occurs_def by blast
  next
    assume "occurs n s"
    then show ?thesis unfolding occurs_def by (metis append_Cons)
  qed
qed

lemma search_absent:
  assumes "\<not> occurs n s" "\<And>t. literal n t = None \<Longrightarrow> m t = None" "n \<noteq> []"
  shows "regex_search m s = None"
  using assms(1)
proof (induction s)
  case Nil
  then show ?case using assms(2,3) by (simp add: literal_def)
next
  case (Cons c s)
  then show ?case using assms(2) [of "c # s"] by (simp add: occurs_Cons)
qed

lemma spaced_word_next:
  assumes "v \<noteq> []" "list_all (\<lambda>c. \<not> is_space c) v"
  shows "spaced_word ('' '' @ v @ '' '' @ r) = Some v"
proof -
  have sp: "is_space CHR '' ''" by (simp add: is_space_def)
  obtain c cs where v: "v = c # cs" using assms(1) by (cases v) auto
  have "takeWhile (\<lambda>c. \<not> is_space c) (v @ '' '' @ r) = v"
    using assms(2) sp by (simp add: list_all_iff)
  then show ?thesis using assms(2) sp by (simp add: spaced_word_def v)
qed

text \<open>A name without spaces that is no part of an argument is not found up to its end.\<close>

lemma search_past:
  assumes "\<not> occurs n a" "n \<noteq> []" "list_all (\<lambda>c. \<not> is_space c) n" "\<And>t. literal n t = None \<Longrightarrow> m t = None"
  shows "regex_search m (a @ '' '' @ r) = regex_search m r"
  using assms(1)
proof (induction a)
  case Nil
  have "literal n (CHR '' '' # r) = None"
  proof (rule find_literal(1) [OF assms(2)])
    show "CHR '' '' \<noteq> hd n" using assms(2,3) by (cases n) (auto simp: is_space_def)
  qed
  then show ?case using assms(4) by simp
next
  case (Cons c a)
  have "literal n (c # a @ '' '' @ r) = None"
  proof (rule ccontr)
    assume "literal n (c # a @ '' '' @ r) \<noteq> None"
    then have t: "take (length n) (c # a @ '' '' @ r) = n" by (auto simp: literal_def split: if_splits)
    have "length n \<le> length (c # a)"
    proof (rule ccontr)
      assume "\<not> length n \<le> length (c # a)"
      then have i: "Suc (length a) < length n" by simp
      have "(c # a @ '' '' @ r) ! Suc (length a) = CHR '' ''" by simp
      then have "n ! Suc (length a) = CHR '' ''" using t i by (metis nth_take)
      moreover have "\<not> is_space (n ! Suc (length a))" using assms(3) i by (simp add: list_all_length)
      ultimately show False by (simp add: is_space_def)
    qed
    then have "take (length n) (c # a) = n" using t by (simp add: take_Cons' split: if_splits)
    then have "literal n (c # a) \<noteq> None" by (simp add: literal_def)
    with Cons.prems show False by (simp add: occurs_Cons)
  qed
  then show ?case using Cons assms(4) by (simp add: occurs_Cons)
qed

lemma search_past_all:
  assumes "\<forall>a \<in> set args. \<not> occurs n a" "n \<noteq> []" "list_all (\<lambda>c. \<not> is_space c) n" "\<And>t. literal n t = None \<Longrightarrow> m t = None"
  shows "regex_search m (command_line args @ r) = regex_search m r"
  using assms(1)
proof (induction args)
  case (Cons a args)
  then show ?case using search_past [of n a m "command_line args @ r"] assms(2-4) by (simp add: command_line_def)
qed (simp add: command_line_def)

lemma match_needs_name: "literal n t = None \<Longrightarrow> long_match n t = None" "literal n t = None \<Longrightarrow> short_match n t = None"
  by (simp_all add: long_match_def short_match_def)

lemma long_match_next:
  assumes "v \<noteq> []" "list_all (\<lambda>c. \<not> is_space c) v"
  shows "long_match n (n @ '' '' @ v @ '' '' @ r) = Some v"
  using spaced_word_next [OF assms, of r] by (simp add: long_match_def)

text \<open>An option that is not given keeps its default.\<close>

lemma option_not_given:
  assumes "regex_map p opt = Some (full, shrt)" "\<forall>a \<in> set args. \<not> occurs full a \<and> \<not> occurs shrt a"
    and "full \<noteq> []" "list_all (\<lambda>c. \<not> is_space c) full" "shrt \<noteq> []" "list_all (\<lambda>c. \<not> is_space c) shrt"
  shows "get_plain opt (parse (prog # args) p) = get_plain opt p"
proof -
  have "regex_search (long_match full) (command_line args) = None"
    using search_past_all [of args full "long_match full" "[]"] assms match_needs_name(1) [of full] find_literal(2) [of full] by simp
  moreover have "regex_search (short_match shrt) (command_line args) = None"
    using search_past_all [of args shrt "short_match shrt" "[]"] assms match_needs_name(2) [of shrt] find_literal(2) [of shrt] by simp
  ultimately show ?thesis using assms(1) by (simp add: parse_def get_plain_def find_option_def)
qed

subsection \<open>Properties\<close>

text \<open>An option that is given is read back: when its long name stands behind the other arguments,
  none of which contains it, the word after it is the value that \<open>parse\<close> stores, whatever follows.\<close>

theorem option_read_back:
  assumes "regex_map p opt = Some (full, shrt)" "full \<noteq> []" "list_all (\<lambda>c. \<not> is_space c) full"
    and "\<forall>a \<in> set before. \<not> occurs full a" "v \<noteq> []" "list_all (\<lambda>c. \<not> is_space c) v"
  shows "get_plain opt (parse (prog # before @ full # v # after) p) = Some v"
proof -
  let ?r = "full @ '' '' @ v @ '' '' @ command_line after"
  have l: "command_line (before @ full # v # after) = command_line before @ ?r" by (simp add: command_line_def)
  have "long_match full ?r = Some v" by (rule long_match_next [OF assms(5,6)])
  then have "regex_search (long_match full) ?r = Some v" using assms(2) by (cases full) simp_all
  then have "regex_search (long_match full) (command_line before @ ?r) = Some v"
    using search_past_all [OF assms(4,2,3) match_needs_name(1)] by simp
  then show ?thesis using assms(1) l by (simp add: parse_def get_plain_def find_option_def)
qed

text \<open>The options of the benchmark program, for the witness and the next property.\<close>

definition benchmark_options :: parser where
  "benchmark_options = more_option_default ''--threads'' ''-T'' ''1'' (more_option_default ''--type'' ''-t'' ''compute'' new_parser)"

lemma option_read_back_witness:
  "get_plain ''--threads'' (parse [''store'', ''--type'', ''memory'', ''--threads'', ''8'', ''-c'', ''x''] benchmark_options) = Some ''8''"
proof -
  have "\<not> occurs ''--threads'' ''--type''" "\<not> occurs ''--threads'' ''memory''"
    using search_absent
    by (auto simp: occurs_Cons literal_def) (auto simp: occurs_def)
  then show ?thesis
    using option_read_back [of benchmark_options "''--threads''" "''--threads''" "''-T''" "[''--type'', ''memory'']" "''8''" "''store''" "[''-c'', ''x'']"]
    by (simp add: benchmark_options_def more_option_default_def add_option_default_def add_option_def insert_plain_def new_parser_def is_space_def)
qed

text \<open>An option that is not given can take its value from another one: the short name is looked for
  anywhere in the line, so the \<open>-t\<close> of \<open>--type\<close> is found within \<open>--threads\<close>, and the type of the
  program becomes \<open>hreads\<close> instead of its default.\<close>

theorem short_name_found_in_long:
  "get_plain ''--type'' (parse [''store'', ''--threads'', ''8''] benchmark_options) = Some ''hreads''"
  by (simp add: benchmark_options_def more_option_default_def add_option_default_def add_option_def insert_plain_def new_parser_def
      get_plain_def parse_def find_option_def command_line_def long_match_def short_match_def literal_def spaced_word_def is_space_def)

end
