(* ===== verification/CityHash128.thy ===== *)
theory CityHash128
  imports CityHash
begin

unbundle bit_operations_syntax

text \<open>
  The 128-bit hashes of \<open>components/city/city.cpp\<close>, on the loads and rounds of \<open>CityHash\<close>.  A hash is
  a pair of its low and high half; a pointer into the buffer is a position in it.
\<close>

subsection \<open>Short inputs\<close>

record murmur =
  ma :: u64
  mb :: u64
  mc :: u64
  md :: u64

text \<open>The \<open>do ... while (l > 0)\<close> loop over pieces of 16 bytes.\<close>

definition murmur_round :: "bytes \<Rightarrow> nat \<Rightarrow> murmur \<Rightarrow> murmur res" where
  "murmur_round s p st =
     res_bind (Fetch64 s p) (\<lambda>f0.
     res_bind (Fetch64 s (p + 8)) (\<lambda>f8.
     (let a = (ma st XOR (ShiftMix (f0 * k1) * k1)) * k1;
          b = mb st XOR a;
          c = (mc st XOR (ShiftMix (f8 * k1) * k1)) * k1;
          d = md st XOR c
      in Inr \<lparr>ma = a, mb = b, mc = c, md = d\<rparr>)))"

function murmur_rounds :: "bytes \<Rightarrow> nat \<Rightarrow> int \<Rightarrow> murmur \<Rightarrow> murmur res" where
  "murmur_rounds s p l st =
     res_bind (murmur_round s p st) (\<lambda>st'. if 0 < l - 16 then murmur_rounds s (p + 16) (l - 16) st' else Inr st')"
  by pat_completeness auto
termination by (relation "measure (\<lambda>(s, p, l, st). nat l)") auto

declare murmur_rounds.simps [simp del]

definition murmur_end :: "murmur \<Rightarrow> u64 \<times> u64" where
  "murmur_end st =
     (let a = HashLen16 (ma st) (mc st);
          b = HashLen16 (md st) (mb st)
      in (a XOR b, HashLen16 b a))"

definition CityMurmur :: "bytes \<Rightarrow> nat \<Rightarrow> u64 \<times> u64 \<Rightarrow> (u64 \<times> u64) res" where
  "CityMurmur s len seed =
     (let a = fst seed; b = snd seed; l = int len - 16 in
      if l \<le> 0 then
        (let a = ShiftMix (a * k1) * k1 in
         res_bind (HashLen0to16 s len) (\<lambda>h.
         let c = b * k1 + h in
         res_bind (if 8 \<le> len then Fetch64 s 0 else Inr c) (\<lambda>f.
         Inr (murmur_end \<lparr>ma = a, mb = b, mc = c, md = ShiftMix (a + f)\<rparr>))))
      else
        res_bind (Fetch64 s (len - 8)) (\<lambda>e8.
        res_bind (Fetch64 s (len - 16)) (\<lambda>e16.
        let c = HashLen16 (e8 + k1) a;
            d = HashLen16 (b + of_nat len) (c + e16)
        in res_bind (murmur_rounds s 0 l \<lparr>ma = a + d, mb = b, mc = c, md = d\<rparr>) (\<lambda>st. Inr (murmur_end st)))))"

subsection \<open>Long inputs\<close>

text \<open>The \<open>do ... while (len >= 128)\<close> loop: two rounds in each turn; it gives the position reached and the
  length left too.\<close>

function city_turns :: "bytes \<Rightarrow> nat \<Rightarrow> nat \<Rightarrow> city_state \<Rightarrow> (city_state \<times> nat \<times> nat) res" where
  "city_turns s p len st =
     res_bind (city_round s p st) (\<lambda>st1.
     res_bind (city_round s (p + 64) st1) (\<lambda>st2.
     if 128 \<le> len - 128 then city_turns s (p + 128) (len - 128) st2 else Inr (st2, p + 128, len - 128)))"
  by pat_completeness auto
termination by (relation "measure (\<lambda>(s, p, len, st). len)") auto

declare city_turns.simps [simp del]

text \<open>The rest in pieces of 32 bytes from the end; the first piece may begin before what is left.\<close>

definition tail_round :: "bytes \<Rightarrow> nat \<Rightarrow> city_state \<Rightarrow> city_state res" where
  "tail_round s off st =
     (let y = Rotate (cx st + cy st) 42 * k0 + snd (cv st) in
      res_bind (Fetch64 s (off + 16)) (\<lambda>f16.
      let w1 = fst (cw st) + f16;
          x = cx st * k0 + w1 in
      res_bind (Fetch64 s off) (\<lambda>f0.
      let z = cz st + (snd (cw st) + f0);
          w2 = snd (cw st) + fst (cv st) in
      res_bind (WeakHashLen32WithSeeds s off (fst (cv st) + z) (snd (cv st))) (\<lambda>v.
      Inr \<lparr>cx = x, cy = y, cz = z, cv = v, cw = (w1, w2)\<rparr>))))"

function tail_rounds :: "bytes \<Rightarrow> nat \<Rightarrow> nat \<Rightarrow> nat \<Rightarrow> city_state \<Rightarrow> city_state res" where
  "tail_rounds s p len tail_done st =
     (if tail_done < len
      then (if tail_done + 32 \<le> p + len
            then res_bind (tail_round s (p + len - (tail_done + 32)) st) (tail_rounds s p len (tail_done + 32))
            else Inl OutOfBounds)
      else Inr st)"
  by pat_completeness auto
termination by (relation "measure (\<lambda>(s, p, len, d, st). len - d)") auto

declare tail_rounds.simps [simp del]

definition CityHash128WithSeed :: "bytes \<Rightarrow> nat \<Rightarrow> u64 \<times> u64 \<Rightarrow> (u64 \<times> u64) res" where
  "CityHash128WithSeed s len seed =
     (if len < 128 then CityMurmur s len seed
      else
        res_bind (Fetch64 s 0) (\<lambda>f0.
        res_bind (Fetch64 s 8) (\<lambda>f8.
        res_bind (Fetch64 s 88) (\<lambda>f88.
        let x = fst seed; y = snd seed; z = of_nat len * k1;
            v1 = Rotate (y XOR k1) 49 * k1 + f0;
            v2 = Rotate v1 42 * k1 + f8;
            w1 = Rotate (y + z) 35 * k1 + x;
            w2 = Rotate (x + f88) 53 * k1
        in res_bind (city_turns s 0 len \<lparr>cx = x, cy = y, cz = z, cv = (v1, v2), cw = (w1, w2)\<rparr>) (\<lambda>(st, p, rest).
           let st = st\<lparr>cx := cx st + Rotate (fst (cv st) + cz st) 49 * k0, cz := cz st + Rotate (fst (cw st)) 37 * k0\<rparr>
           in res_bind (tail_rounds s p rest 0 st) (\<lambda>st.
              let x = HashLen16 (cx st) (fst (cv st));
                  y = HashLen16 (cy st + cz st) (fst (cw st))
              in Inr (HashLen16 (x + snd (cv st)) (snd (cw st)) + y, HashLen16 (x + snd (cw st)) (y + snd (cv st)))))))))"

definition CityHash128 :: "bytes \<Rightarrow> nat \<Rightarrow> (u64 \<times> u64) res" where
  "CityHash128 s len =
     (if 16 \<le> len then
        res_bind (Fetch64 s 0) (\<lambda>f0.
        res_bind (Fetch64 s 8) (\<lambda>f8. CityHash128WithSeed (drop 16 s) (len - 16) (f0 XOR k3, f8)))
      else if 8 \<le> len then
        res_bind (Fetch64 s 0) (\<lambda>f0.
        res_bind (Fetch64 s (len - 8)) (\<lambda>e8. CityHash128WithSeed [] 0 (f0 XOR of_nat len * k0, e8 XOR k1)))
      else CityHash128WithSeed s len (k0, k1))"

subsection \<open>Every load is in bounds\<close>

lemma murmur_round_ok: "p + 16 \<le> length s \<Longrightarrow> is_ok (murmur_round s p st)"
  unfolding murmur_round_def Let_def by (intro city_ok) simp_all

lemma murmur_rounds_ok:
  "0 < l \<Longrightarrow> int p + l + 15 \<le> int (length s) \<Longrightarrow> is_ok (murmur_rounds s p l st)"
proof (induction s p l st rule: murmur_rounds.induct)
  case (1 s p l st)
  have r: "is_ok (murmur_round s p st)" using 1(2,3) by (intro murmur_round_ok) linarith
  then obtain st' where st': "murmur_round s p st = Inr st'" by (auto simp: is_ok_iff)
  have "is_ok (murmur_rounds s (p + 16) (l - 16) st')" if "0 < l - 16" using 1(1) [OF st' that that] 1(3) by simp
  then show ?case using st' by (subst murmur_rounds.simps) simp
qed

lemma CityMurmur_ok: "len \<le> length s \<Longrightarrow> is_ok (CityMurmur s len seed)"
proof -
  assume len: "len \<le> length s"
  show ?thesis
  proof (cases "int len - 16 \<le> 0")
    case True
    have "is_ok (if 8 \<le> len then Fetch64 s 0 else Inr c)" for c using len by (auto intro: Fetch64_ok)
    with True len show ?thesis unfolding CityMurmur_def Let_def if_P [OF True] by (intro is_ok_bind HashLen0to16_ok) simp_all
  next
    case False
    then have "is_ok (murmur_rounds s 0 (int len - 16) st)" for st using len by (intro murmur_rounds_ok) simp_all
    with False len show ?thesis unfolding CityMurmur_def Let_def if_not_P [OF False] by (intro city_ok) simp_all
  qed
qed

lemma city_turns_ok:
  "128 \<le> len \<Longrightarrow> p + len \<le> length s \<Longrightarrow>
   \<exists>st' p' r. city_turns s p len st = Inr (st', p', r) \<and> p' + r = p + len \<and> p + 128 \<le> p' \<and> r < 128"
proof (induction s p len st rule: city_turns.induct)
  case (1 s p len st)
  have "is_ok (city_round s p st)" using 1(2,3) by (intro city_round_ok) simp
  then obtain st1 where st1: "city_round s p st = Inr st1" by (auto simp: is_ok_iff)
  have "is_ok (city_round s (p + 64) st1)" using 1(2,3) by (intro city_round_ok) simp
  then obtain st2 where st2: "city_round s (p + 64) st1 = Inr st2" by (auto simp: is_ok_iff)
  show ?case
  proof (cases "128 \<le> len - 128")
    case True
    then obtain st' p' r where "city_turns s (p + 128) (len - 128) st2 = Inr (st', p', r)" "p' + r = p + len"
      "p + 256 \<le> p'" "r < 128"
      using 1(1) [OF st1 st2 True True] 1(2,3) by auto
    with True show ?thesis using st1 st2 by (subst city_turns.simps) simp
  next
    case False
    with st1 st2 1(2) show ?thesis by (subst city_turns.simps) simp
  qed
qed

lemma tail_round_ok: "off + 32 \<le> length s \<Longrightarrow> is_ok (tail_round s off st)"
  unfolding tail_round_def Let_def by (intro city_ok WeakHashLen32WithSeeds_ok) simp_all

lemma tail_rounds_ok:
  "32 \<le> p \<Longrightarrow> p + len \<le> length s \<Longrightarrow> is_ok (tail_rounds s p len d st)"
proof (induction s p len d st rule: tail_rounds.induct)
  case (1 s p len d st)
  show ?case
  proof (cases "d < len")
    case True
    then have d: "d + 32 \<le> p + len" using 1(2) by linarith
    then have "is_ok (tail_round s (p + len - (d + 32)) st)" using 1(3) by (intro tail_round_ok) linarith
    then obtain st' where st': "tail_round s (p + len - (d + 32)) st = Inr st'" by (auto simp: is_ok_iff)
    have "is_ok (tail_rounds s p len (d + 32) st')" by (rule 1(1) [OF True d st' 1(2,3)])
    with True d st' show ?thesis by (subst tail_rounds.simps) simp
  next
    case False
    then show ?thesis by (subst tail_rounds.simps) simp
  qed
qed

lemma CityHash128WithSeed_ok: "len \<le> length s \<Longrightarrow> is_ok (CityHash128WithSeed s len seed)"
proof -
  assume len: "len \<le> length s"
  show ?thesis
  proof (cases "len < 128")
    case True
    with CityMurmur_ok [OF len] show ?thesis by (simp add: CityHash128WithSeed_def)
  next
    case False
    have "is_ok (res_bind (city_turns s 0 len st) f)"
      if f: "\<And>st' p r. p + r = len \<Longrightarrow> 128 \<le> p \<Longrightarrow> is_ok (f (st', p, r))" for st f
    proof -
      obtain st' p r where "city_turns s 0 len st = Inr (st', p, r)" "p + r = len" "128 \<le> p"
        using city_turns_ok [of len 0 s st] False len by auto
      with f show ?thesis by simp
    qed
    note turns = this
    have "is_ok (tail_rounds s p r 0 st)" if "p + r = len" "128 \<le> p" for p r st
      using that len by (intro tail_rounds_ok) simp_all
    note tails = this
    show ?thesis unfolding CityHash128WithSeed_def Let_def if_not_P [OF False]
      by (intro city_ok turns) (use False len in \<open>auto intro!: is_ok_bind tails\<close>)
  qed
qed

text \<open>No load of the 128-bit hash lies outside its buffer either, whatever the length.\<close>

theorem CityHash128_in_bounds: "\<exists>h. CityHash128 s (length s) = Inr h"
proof -
  have "is_ok (CityHash128 s (length s))"
    unfolding CityHash128_def by (auto intro!: city_ok CityHash128WithSeed_ok)
  then show ?thesis by (simp add: is_ok_iff)
qed

end
