(* ===== verification/CityCrc.thy ===== *)
theory CityCrc
  imports CityHash128
begin

unbundle bit_operations_syntax

text \<open>
  The variants of \<open>components/city/city.cpp\<close> for processors with a CRC instruction.  The compiler's
  intrinsic \<open>_mm_crc32_u64\<close> is the parameter \<open>crc\<close>; the results written to an array of four are a tuple.
\<close>

subsection \<open>Pieces of 40 bytes\<close>

record crc_state =
  qa :: u64
  qb :: u64
  qc :: u64
  qd :: u64
  qe :: u64
  qf :: u64
  qg :: u64
  qh :: u64
  qi :: u64
  qj :: u64
  qt :: u64

text \<open>\<open>CHUNK (multiplier, z)\<close>; the position moves on where it is used.\<close>

definition CHUNK :: "(u64 \<Rightarrow> u64 \<Rightarrow> u64) \<Rightarrow> u64 \<Rightarrow> nat \<Rightarrow> bytes \<Rightarrow> nat \<Rightarrow> crc_state \<Rightarrow> crc_state res" where
  "CHUNK crc multiplier z s p st =
     res_bind (Fetch64 s p) (\<lambda>f0.
     res_bind (Fetch64 s (p + 8)) (\<lambda>f8.
     res_bind (Fetch64 s (p + 16)) (\<lambda>f16.
     res_bind (Fetch64 s (p + 24)) (\<lambda>f24.
     res_bind (Fetch64 s (p + 32)) (\<lambda>f32.
     let a = Rotate (qb st) (41 XOR z) * multiplier + f0;
         b = Rotate (qc st) (27 XOR z) * multiplier + f8;
         c = Rotate (qd st) (41 XOR z) * multiplier + f16;
         d = Rotate (qe st) (33 XOR z) * multiplier + f24;
         e = Rotate (qt st) (25 XOR z) * multiplier + f32
     in Inr \<lparr>qa = a, qb = b, qc = c, qd = d, qe = e, qf = crc (qf st) a, qg = crc (qg st) b,
              qh = crc (qh st) c, qi = crc (qi st) d, qj = crc (qj st) e, qt = qa st\<rparr>)))))"

text \<open>One turn of the loop takes six pieces, with two kinds of rotation by turns.\<close>

fun chunk_pairs :: "(u64 \<Rightarrow> u64 \<Rightarrow> u64) \<Rightarrow> nat \<Rightarrow> bytes \<Rightarrow> nat \<Rightarrow> crc_state \<Rightarrow> crc_state res" where
  "chunk_pairs crc 0 s p st = Inr st"
| "chunk_pairs crc (Suc n) s p st =
     res_bind (CHUNK crc 1 1 s p st) (\<lambda>st.
     res_bind (CHUNK crc k0 0 s (p + 40) st) (\<lambda>st. chunk_pairs crc n s (p + 80) st))"

text \<open>\<open>do ... while (--iters > 0)\<close>: the count wraps when it starts at zero, which the length rules out.\<close>

fun crc_turns :: "(u64 \<Rightarrow> u64 \<Rightarrow> u64) \<Rightarrow> nat \<Rightarrow> bytes \<Rightarrow> nat \<Rightarrow> crc_state \<Rightarrow> crc_state res" where
  "crc_turns crc 0 s p st = Inl OutOfBounds"
| "crc_turns crc (Suc n) s p st =
     res_bind (chunk_pairs crc 3 s p st) (\<lambda>st. if n = 0 then Inr st else crc_turns crc n s (p + 240) st)"

function crc_rest :: "(u64 \<Rightarrow> u64 \<Rightarrow> u64) \<Rightarrow> bytes \<Rightarrow> nat \<Rightarrow> nat \<Rightarrow> crc_state \<Rightarrow> crc_state res" where
  "crc_rest crc s p len st =
     (if 40 \<le> len then res_bind (CHUNK crc k0 0 s p st) (crc_rest crc s (p + 40) (len - 40))
      else if 0 < len
      then (if 40 \<le> p + len then CHUNK crc k0 0 s (p + len - 40) st else Inl OutOfBounds)
      else Inr st)"
  by pat_completeness auto
termination by (relation "measure (\<lambda>(crc, s, p, len, st). len)") auto

declare crc_rest.simps [simp del]

subsection \<open>The hashes\<close>

type_synonym crc_result = "u64 \<times> u64 \<times> u64 \<times> u64"

definition crc_end :: "u64 \<Rightarrow> u64 \<Rightarrow> crc_state \<Rightarrow> crc_result" where
  "crc_end result0 result1 st =
     (let j = qj st + push_bit 32 (qi st);
          a = HashLen16 (qa st) j;
          h = qh st + push_bit 32 (qg st);
          b = qb st + h;
          c = HashLen16 (qc st) (qf st) + qi st;
          d = HashLen16 (qd st) (qe st + result0);
          j = j + qe st;
          i = qi st + HashLen16 h (qt st);
          e = HashLen16 a d + j;
          f = HashLen16 b c + a;
          g = HashLen16 j i + c;
          result0 = e + f + g + h;
          a = ShiftMix ((a + g) * k0) * k0 + b;
          result1 = result1 + (a + result0);
          a = ShiftMix (a * k0) * k0 + c;
          result2 = a + result1;
          a = ShiftMix ((a + e) * k0) * k0;
          result3 = a + result2
      in (result0, result1, result2, result3))"

definition CityHashCrc256Long :: "(u64 \<Rightarrow> u64 \<Rightarrow> u64) \<Rightarrow> bytes \<Rightarrow> nat \<Rightarrow> u32 \<Rightarrow> crc_result res" where
  "CityHashCrc256Long crc s len seed =
     res_bind (Fetch64 s 56) (\<lambda>f56.
     res_bind (Fetch64 s 96) (\<lambda>f96.
     res_bind (Fetch64 s 120) (\<lambda>f120.
     res_bind (Fetch64 s 184) (\<lambda>f184.
     let a = f56 + k0;
         b = f96 + k0;
         c = HashLen16 b (of_nat len);
         d = f120 * k0 + of_nat len;
         e = f184 + ucast seed;
         iters = len div 240;
         st = \<lparr>qa = a, qb = b, qc = c, qd = d, qe = e, qf = ucast seed, qg = 0, qh = 0, qi = 0, qj = 0, qt = c + d\<rparr>
     in res_bind (crc_turns crc iters s 0 st) (\<lambda>st.
        res_bind (crc_rest crc s (iters * 240) (len - iters * 240) st) (\<lambda>st.
        Inr (crc_end c d st)))))))"

text \<open>A short input is copied to a buffer of 240 bytes, the rest of it zero; a copy past the buffer is an error.\<close>

definition CityHashCrc256Short :: "(u64 \<Rightarrow> u64 \<Rightarrow> u64) \<Rightarrow> bytes \<Rightarrow> nat \<Rightarrow> crc_result res" where
  "CityHashCrc256Short crc s len =
     (if len \<le> length s \<and> len \<le> 240
      then CityHashCrc256Long crc (take len s @ replicate (240 - len) 0) 240 (NOT (of_nat len))
      else Inl OutOfBounds)"

definition CityHashCrc256 :: "(u64 \<Rightarrow> u64 \<Rightarrow> u64) \<Rightarrow> bytes \<Rightarrow> nat \<Rightarrow> crc_result res" where
  "CityHashCrc256 crc s len =
     (if 240 \<le> len then CityHashCrc256Long crc s len 0 else CityHashCrc256Short crc s len)"

definition CityHashCrc128WithSeed :: "(u64 \<Rightarrow> u64 \<Rightarrow> u64) \<Rightarrow> bytes \<Rightarrow> nat \<Rightarrow> u64 \<times> u64 \<Rightarrow> (u64 \<times> u64) res" where
  "CityHashCrc128WithSeed crc s len seed =
     (if len \<le> 900 then CityHash128WithSeed s len seed
      else
        res_bind (CityHashCrc256 crc s len) (\<lambda>(r0, r1, r2, r3).
        let u = snd seed + r0; v = fst seed + r1
        in Inr (HashLen16 u (v + r2), HashLen16 (Rotate v 32) (u * k0 + r3))))"

definition CityHashCrc128 :: "(u64 \<Rightarrow> u64 \<Rightarrow> u64) \<Rightarrow> bytes \<Rightarrow> nat \<Rightarrow> (u64 \<times> u64) res" where
  "CityHashCrc128 crc s len =
     (if len \<le> 900 then CityHash128 s len
      else res_bind (CityHashCrc256 crc s len) (\<lambda>(r0, r1, r2, r3). Inr (r2, r3)))"

subsection \<open>Every load is in bounds\<close>

lemma CHUNK_ok: "p + 40 \<le> length s \<Longrightarrow> is_ok (CHUNK crc m z s p st)"
  unfolding CHUNK_def Let_def by (intro city_ok) simp_all

lemma chunk_pairs_ok: "p + 80 * n \<le> length s \<Longrightarrow> is_ok (chunk_pairs crc n s p st)"
  by (induction n arbitrary: p st) (auto intro!: is_ok_bind CHUNK_ok)

lemma crc_turns_ok: "0 < n \<Longrightarrow> p + 240 * n \<le> length s \<Longrightarrow> is_ok (crc_turns crc n s p st)"
proof (induction n arbitrary: p st)
  case (Suc n)
  have "is_ok (chunk_pairs crc 3 s p st)" using Suc.prems(2) by (intro chunk_pairs_ok) simp
  then obtain st' where st': "chunk_pairs crc 3 s p st = Inr st'" by (auto simp: is_ok_iff)
  show ?case
  proof (cases "n = 0")
    case False
    then have "is_ok (crc_turns crc n s (p + 240) st')" using Suc.prems(2) by (intro Suc.IH) simp_all
    with False st' show ?thesis by simp
  qed (simp add: st')
qed simp

text \<open>The last piece begins before what is left, so something has to lie before it.\<close>

lemma crc_rest_ok: "40 \<le> p \<Longrightarrow> p + len \<le> length s \<Longrightarrow> is_ok (crc_rest crc s p len st)"
proof (induction crc s p len st rule: crc_rest.induct)
  case (1 crc s p len st)
  show ?case
  proof (cases "40 \<le> len")
    case True
    with 1(3) have "is_ok (CHUNK crc k0 0 s p st)" by (intro CHUNK_ok) simp
    then obtain st' where st': "CHUNK crc k0 0 s p st = Inr st'" by (auto simp: is_ok_iff)
    have "is_ok (crc_rest crc s (p + 40) (len - 40) st')" using 1(1) [OF True] st' 1(2,3) True by simp
    with True st' show ?thesis by (subst crc_rest.simps) simp
  next
    case False
    then show ?thesis using 1(2,3) by (subst crc_rest.simps) (auto intro!: CHUNK_ok)
  qed
qed

lemma CityHashCrc256Long_ok: "240 \<le> len \<Longrightarrow> len \<le> length s \<Longrightarrow> is_ok (CityHashCrc256Long crc s len seed)"
proof -
  assume len: "240 \<le> len" "len \<le> length s"
  have i: "0 < len div 240" using len(1) by (simp add: div_greater_zero_iff)
  have t: "is_ok (crc_turns crc (len div 240) s 0 st)" for st
    by (rule crc_turns_ok [OF i]) (use len(2) in simp, linarith?)
  have r: "is_ok (crc_rest crc s (len div 240 * 240) (len - len div 240 * 240) st)" for st
    by (rule crc_rest_ok) (use i len(2) in auto)
  show ?thesis unfolding CityHashCrc256Long_def Let_def
    by (intro city_ok t r) (use len in simp_all)
qed

lemma CityHashCrc256_ok: "len \<le> length s \<Longrightarrow> is_ok (CityHashCrc256 crc s len)"
  by (auto simp: CityHashCrc256_def CityHashCrc256Short_def intro!: CityHashCrc256Long_ok)

text \<open>Neither does a variant with the CRC instruction read outside its buffer, whatever the instruction
  computes and whatever the length.\<close>

theorem CityHashCrc128_in_bounds: "\<exists>h. CityHashCrc128 crc s (length s) = Inr h"
proof -
  have "\<exists>h. CityHash128 s (length s) = Inr h" by (rule CityHash128_in_bounds)
  moreover have "is_ok (CityHashCrc256 crc s (length s))" by (rule CityHashCrc256_ok) simp
  ultimately show ?thesis by (auto simp: CityHashCrc128_def is_ok_iff)
qed

text \<open>Below 900 bytes the instruction plays no part; above, the unseeded hash is the last two words.\<close>

lemma short_ignores_instruction: "len \<le> 900 \<Longrightarrow> CityHashCrc128 crc s len = CityHashCrc128 crc' s len"
  by (simp add: CityHashCrc128_def)

end
