(* ===== verification/GrowProofs.thy ===== *)
theory GrowProofs
  imports ComputeProps
begin

text \<open>
  Lemmas for an insertion whose node is full, run inside the contract \<open>rdma_fabric\<close>: writing a chain
  of nodes back with one completion, the grown node (\<open>write_back_morphed\<close>) and the two parts of a
  split (\<open>write_back_splitted\<close>), and what the records in remote memory are afterwards.
\<close>

subsection \<open>Write requests of a chain\<close>

definition chain_sge :: "rdma_context \<Rightarrow> nat \<Rightarrow> nat \<Rightarrow> sge" where
  "chain_sge x len off = \<lparr>sg_addr = rc_buf x + of_nat off, sg_length = of_nat len, sg_lkey = rc_lkey x\<rparr>"

lemma generate_sge_bind [step_simps]:
  "st_bind (on_net (st_post (generate_sge x None len off))) f s = f (chain_sge x len off) s"
  by (simp add: st_bind_def on_net_def st_post_def generate_sge_def fill_buf_def chain_sge_def)

definition chain_request :: "rdma_context \<Rightarrow> nat \<Rightarrow> nat \<Rightarrow> nat \<Rightarrow> u64 \<Rightarrow> bool \<Rightarrow> send_wr" where
  "chain_request x i len off ptr sig =
     \<lparr>wr_id = i, sg_list = chain_sge x len off, wr_opcode = WR_RDMA_WRITE, signaled = sig, remote_addr = ptr, wr_rkey = c_rkey (remote_cert x)\<rparr>"

lemma chain_request_fields:
  assumes "rc_buf x = base" "off + len \<le> 8192"
  shows "wr_off base (chain_request x i len off ptr sig) = off" "wr_len (chain_request x i len off ptr sig) = len"
  using assms by (simp_all add: chain_request_def chain_sge_def wr_off_def wr_len_def unat_of_nat)

lemma chain_request_generated: "generate_send_wr x i (chain_sge x len off) ptr WR_RDMA_WRITE = chain_request x i len off ptr True"
  by (simp add: generate_send_wr_def chain_request_def)

lemma chain_request_unsignaled: "(chain_request x i len off ptr True)\<lparr>signaled := False\<rparr> = chain_request x i len off ptr False"
  by (simp add: chain_request_def)

lemma chain_signaled [simp]: "signaled (chain_request x i len off ptr sig) = sig"
  by (simp add: chain_request_def)

context rdma_fabric
begin

lemma apply_chain:
  assumes "connected x" "off + len \<le> 8192"
  shows "apply_wr base (chain_request x i len off ptr sig) (b, m) = (b, write_rem m ptr (take len (drop off b)))"
  using chain_request_fields [OF buffer_at [OF assms(1)] assms(2)]
  by (simp add: apply_wr_def) (simp add: chain_request_def)

lemma chain_ok:
  assumes "connected x" "off + len \<le> 8192" "registered ptr len"
  shows "wr_ok base registered x 8192 (chain_request x i len off ptr sig)"
  using chain_request_fields [OF buffer_at [OF assms(1)] assms(2)] assms(2,3)
  by (simp add: wr_ok_def) (simp add: chain_request_def chain_sge_def)

text \<open>A chain posted and polled.\<close>

lemma post_chain_run:
  assumes "connected x" "outstanding n = []" "length (lbuf n) = 8192" "last_signaled wrs" "length wrs \<le> MAX_QP_DEPTH"
    and "list_all (wr_ok base registered x 8192) wrs"
    and "fold (apply_wr base) wrs (lbuf n, snd (settled n)) = (lbuf n, m)"
  obtains n1 n2 k where "post_batch_write V x wrs n = ((status.Ok, 0), n1)" "poll_one_completion V x True n1 = Some ((False, k), n2)"
    "outstanding n2 = []" "lbuf n2 = lbuf n" "snd (settled n2) = m"
proof -
  have ok: "list_all (wr_ok base registered x (length (lbuf n))) wrs" using assms(3,6) by simp
  obtain n1 n2 k where "ibv_post_send V (rc_qp x) wrs n = (0, n1)" "poll_one_completion V x True n1 = Some ((False, k), n2)"
    "outstanding n2 = []" "settled n2 = fold (apply_wr base) wrs (lbuf n, snd (settled n))" "lbuf n2 = fst (settled n2)"
    by (rule batch_sync [OF assms(1,2,4,5) ok])
  with assms(7) show ?thesis by (intro that [of n1 k n2]) (simp_all add: post_batch_write_def)
qed

end

subsection \<open>Writing a grown node back\<close>

lemma allocate_bind [step_simps]:
  assumes "cna_allocate tid sz (calloc s) = Inr (r, a)" "\<not> is_nullptr r"
  shows "st_bind (allocate E tid sz) f s = f r (s\<lparr>calloc := a\<rparr>)"
proof -
  have "allocate E tid sz s = Some (Inr (r, s\<lparr>calloc := a\<rparr>))"
    using assms by (simp add: allocate_def st_bind_def alloc_chunk_def st_ret_def)
  then show ?thesis by (rule st_bind_Inr)
qed

lemma not_null: "\<not> is_nullptr r \<Longrightarrow> r \<noteq> 0"
  by (auto simp: is_nullptr_def get_as_def)

context rdma_fabric
begin

lemma write_back_morphed_run:
  fixes s :: "'w cn"
  assumes u: "usable connected outstanding tid s" and E: "vb E = V"
    and d: "deref (slist s) (Some d) = Inr n" "backward n = Some b" "b \<noteq> d" "deref (slist s) (Some b) = Inr nb"
    and a: "cna_allocate tid (sizeof_node (ntype (view 560 (lbuf (net s))))) (calloc s) = Inr (r, a)" "\<not> is_nullptr r"
    and r: "reaches registered tid s r (sizeof_node (ntype (view 560 (lbuf (net s)))))"
      "registered (get_as (data_node nb)) (sizeof_node (ntype (view 0 (lbuf (net s)))))"
  shows "\<exists>n'. write_back_morphed E tid d 0 s = Some (Inr (r, s\<lparr>calloc := a, slist := upd_node (slist s) d (n\<lparr>data_node := r\<rparr>), net := n'\<rparr>)) \<and>
    outstanding n' = [] \<and> lbuf n' = put_view 0 ((view 0 (lbuf (net s)))\<lparr>rlink := r\<rparr>) (lbuf (net s)) \<and>
    snd (settled n') =
      write_rem (write_rem (snd (settled (net s))) (get_as (data_node nb)) (take (sizeof_node (ntype (view 0 (lbuf (net s))))) (lbuf n')))
        (get_as r) (take (sizeof_node (ntype (view 560 (lbuf (net s))))) (drop 560 (lbuf (net s))))"
proof -
  let ?b = "lbuf (net s)" and ?p = "view 0 (lbuf (net s))" and ?m = "view 560 (lbuf (net s))"
  let ?b' = "put_view 0 (?p\<lparr>rlink := r\<rparr>) ?b"
  let ?lp = "sizeof_node (ntype ?p)" and ?lm = "sizeof_node (ntype ?m)"
  obtain xs where xs: "rdma_ctxs (rm s) tid = Some xs" "get_node r < length xs" "registered (get_as r) ?lm"
    and cs: "list_all connected xs" "outstanding (net s) = []" "length ?b = 8192"
    using u r(1) by (auto simp: usable_def reaches_def)
  define x where "x = xs ! get_node r"
  have x: "connected x" using cs(1) xs(2) by (simp add: list_all_length x_def)
  have gx: "res_bind (get_rdma (rm s) tid r) non_null = Inr x" using xs by (simp add: get_rdma_def non_null_def x_def)
  have sh: "node_shape (?p\<lparr>rlink := r\<rparr>)" using view_shape [of 0 ?b] cs(3) by (simp add: node_shape_def)
  have lb: "length ?b' = 8192" using sh cs(3) by (simp add: put_view_length)
  let ?n = "(net s)\<lparr>lbuf := ?b'\<rparr>"
  have q: "outstanding ?n = []" "snd (settled ?n) = snd (settled (net s))" using cpu_write [OF cs(2), of ?b'] by simp_all
  have le: "0 + ?lp \<le> 8192" "560 + ?lm \<le> 8192" using sizeof_node_le [of "ntype ?p"] sizeof_node_le [of "ntype ?m"] by simp_all
  let ?wp = "chain_request x 0 ?lp 0 (get_as (data_node nb)) False" and ?wr = "chain_request x 1 ?lm 560 (get_as r) True"
  have dr: "drop 560 ?b' = drop 560 ?b" using put_view_parts(2) [OF sh, of 0 ?b] cs(3) by simp
  have f: "fold (apply_wr base) [?wp, ?wr] (lbuf ?n, snd (settled ?n)) =
      (lbuf ?n, write_rem (write_rem (snd (settled (net s))) (get_as (data_node nb)) (take ?lp ?b')) (get_as r) (take ?lm (drop 560 ?b)))"
    using apply_chain [OF x le(1)] apply_chain [OF x le(2)] q(2) dr by simp
  have ok: "list_all (wr_ok base registered x 8192) [?wp, ?wr]"
    using chain_ok [OF x le(1) r(2)] chain_ok [OF x le(2) xs(3)] by simp
  have ls: "last_signaled [?wp, ?wr]" "length [?wp, ?wr] \<le> MAX_QP_DEPTH" "length (lbuf ?n) = 8192"
    using lb by (simp_all add: last_signaled_def MAX_QP_DEPTH_def)
  obtain n1 n2 k where p: "post_batch_write V x [?wp, ?wr] ?n = ((status.Ok, 0), n1)" "poll_one_completion V x True n1 = Some ((False, k), n2)"
    and n2: "outstanding n2 = []" "lbuf n2 = lbuf ?n"
      "snd (settled n2) = write_rem (write_rem (snd (settled (net s))) (get_as (data_node nb)) (take ?lp ?b')) (get_as r) (take ?lm (drop 560 ?b))"
    by (rule post_chain_run [OF x q(1) ls(3,1,2) ok f])
  have "write_back_morphed E tid d 0 s =
      Some (Inr (r, s\<lparr>calloc := a, slist := upd_node (slist s) d (n\<lparr>data_node := r\<rparr>), net := n2\<rparr>))"
    using d a E gx p
    by (simp add: write_back_morphed_def step_simps sizeof16_def Let_def chain_request_generated chain_request_unsignaled)
      (simp add: st_ret_def)
  with n2 show ?thesis by (intro exI [of _ n2]) simp
qed

text \<open>The eager growth to sixteen slots that \<open>put12\<close> and \<open>put14\<close> do: what is written is the predecessor
  with its link, and the node with its new type and checksum.\<close>

lemma eager_morph_run:
  fixes s :: "'w cn"
  assumes u: "usable connected outstanding tid s" and E: "vb E = V" and c: "cctx s tid = Some c" "user_context c = Some 0"
    and d: "deref (slist s) (Some d) = Inr n" "backward n = Some b" "b \<noteq> d" "deref (slist s) (Some b) = Inr nb"
    and st: "store_kv 16 key val (view 560 (lbuf (net s))) = Inr (ok, real1)" "node_shape real1"
    and h: "help_others 16 (anchor n) (view 0 (lbuf (net s))) real1 (requests c) [] = Inr (pred', real2, ans, [])"
      "node_shape pred'" "node_shape real2"
    and a: "cna_allocate tid 560 (calloc s) = Inr (r, a)" "\<not> is_nullptr r"
    and r: "reaches registered tid s r 560" "registered (get_as (data_node nb)) (sizeof_node (ntype pred'))"
  shows "\<exists>n' buf. eager_morph E tid d key val False s = Some (Inr (True,
      s\<lparr>answers := answers s ++ map_of (map (\<lambda>r. (rid r, r)) ans), cctx := (cctx s)(tid \<mapsto> c\<lparr>requests := []\<rparr>), calloc := a,
        slist := upd_node (slist s) d (n\<lparr>data_node := r, sn_type := type_num Type16\<rparr>), net := n'\<rparr>)) \<and>
    outstanding n' = [] \<and> length (lbuf n') = 8192 \<and> length buf = 8192 \<and> view 0 buf = pred'\<lparr>rlink := r\<rparr> \<and>
    view 560 buf = real2\<lparr>ntype := type_num Type16, crc := crc_validate (crcer E) real2 (type_num Type16)\<rparr> \<and>
    snd (settled n') = write_rem (write_rem (snd (settled (net s))) (get_as (data_node nb)) (take (sizeof_node (ntype pred')) buf))
      (get_as r) (take 560 (drop 560 buf))"
proof -
  let ?b = "lbuf (net s)" and ?r3 = "real2\<lparr>ntype := type_num Type16, crc := crc_validate (crcer E) real2 (type_num Type16)\<rparr>"
  let ?b1 = "put_view 560 real1 ?b"
  let ?b2 = "put_view 560 real2 (put_view 0 pred' ?b1)"
  let ?b3 = "put_view 560 ?r3 ?b2"
  let ?b4 = "put_view 0 (pred'\<lparr>rlink := r\<rparr>) ?b3"
  let ?s = "s\<lparr>answers := answers s ++ map_of (map (\<lambda>r. (rid r, r)) ans),
    cctx := (cctx s)(tid \<mapsto> c\<lparr>requests := []\<rparr>), net := (net s)\<lparr>lbuf := ?b3\<rparr>\<rparr>"
  have l: "length ?b = 8192" "outstanding (net s) = []" using u by (simp_all add: usable_def)
  have sh: "node_shape ?r3" "node_shape (pred'\<lparr>rlink := r\<rparr>)" using h(2,3) by (simp_all add: node_shape_def)
  have l1: "length ?b1 = 8192" "length (put_view 0 pred' ?b1) = 8192" "length ?b2 = 8192" "length ?b3 = 8192" "length ?b4 = 8192"
    using l st(2) h(2,3) sh by (simp_all add: put_view_length)
  have v: "view 0 ?b1 = view 0 ?b" "view 560 ?b1 = real1" "view 560 ?b2 = real2" "view 0 ?b3 = pred'" "view 560 ?b3 = ?r3"
    "view 0 ?b4 = pred'\<lparr>rlink := r\<rparr>" "view 560 ?b4 = ?r3"
    using l l1 st(2) h(2,3) sh by (simp_all add: view_put_other)
  note w = cpu_write [OF l(2), of ?b3]
  have u': "usable connected outstanding tid ?s" using u w l1 by (simp add: usable_def)
  have t16: "sizeof_node (type_num Type16) = 560" by (simp add: sizeof_node_def enumerator_def sizeof_linked_node_def)
  have d': "deref (slist ?s) (Some d) = Inr n" "deref (slist ?s) (Some b) = Inr nb" using d by simp_all
  have a': "cna_allocate tid (sizeof_node (ntype (view 560 (lbuf (net ?s))))) (calloc ?s) = Inr (r, a)"
    using a(1) v(5) t16 by simp
  have r': "reaches registered tid ?s r (sizeof_node (ntype (view 560 (lbuf (net ?s)))))"
    "registered (get_as (data_node nb)) (sizeof_node (ntype (view 0 (lbuf (net ?s)))))"
    using r v(4,5) t16 by (simp_all add: reaches_def)
  obtain n' where f: "write_back_morphed E tid d 0 ?s =
      Some (Inr (r, ?s\<lparr>calloc := a, slist := upd_node (slist ?s) d (n\<lparr>data_node := r\<rparr>), net := n'\<rparr>))"
    and n': "outstanding n' = []" "lbuf n' = put_view 0 ((view 0 (lbuf (net ?s)))\<lparr>rlink := r\<rparr>) (lbuf (net ?s))"
      "snd (settled n') =
        write_rem (write_rem (snd (settled (net ?s))) (get_as (data_node nb)) (take (sizeof_node (ntype (view 0 (lbuf (net ?s))))) (lbuf n')))
          (get_as r) (take (sizeof_node (ntype (view 560 (lbuf (net ?s))))) (drop 560 (lbuf (net ?s))))"
    using write_back_morphed_run [OF u' E d'(1) d(2,3) d'(2) a' a(2) r'] by blast
  have lb: "lbuf n' = ?b4" using n'(2) v(4) by simp
  have dr: "drop 560 ?b3 = drop 560 ?b4" using put_view_parts(2) [OF sh(2), of 0 ?b3] l1(4) by simp
  let ?t = "?s\<lparr>calloc := a, slist := upd_node (slist ?s) d (n\<lparr>data_node := r\<rparr>), net := n'\<rparr>"
  let ?n5 = "n'\<lparr>lbuf := put_view 0 ((view 0 ?b4)\<lparr>rlink := r\<rparr>) ?b4\<rparr>"
  note w5 = cpu_write [OF n'(1), of "put_view 0 ((view 0 ?b4)\<lparr>rlink := r\<rparr>) ?b4"]
  have "eager_morph E tid d key val False s = st_bind (write_back_morphed E tid d 0) (\<lambda>r.
     if r = 0 then st_ret False
     else st_bind (get_view 0) (\<lambda>pred. st_bind (set_view 0 (pred\<lparr>rlink := r\<rparr>)) (\<lambda>_.
       st_bind (set_node (Some d) (\<lambda>n. n\<lparr>data_node := r, sn_type := type_num Type16\<rparr>)) (\<lambda>_. st_ret True)))) ?s"
    using c d st h v
    by (simp add: eager_morph_def help_in_buffer_def step_simps non_null_def sizeof16_def del: type_num.simps)
  also have "\<dots> = Some (Inr (True, ?t\<lparr>slist := upd_node (slist s) d (n\<lparr>data_node := r, sn_type := type_num Type16\<rparr>), net := ?n5\<rparr>))"
    unfolding st_bind_Inr [of "write_back_morphed E tid d 0", OF f] using not_null [OF a(2)] d lb
    by (simp add: step_simps del: type_num.simps) (simp add: st_ret_def)
  finally have e: "eager_morph E tid d key val False s =
    Some (Inr (True, ?t\<lparr>slist := upd_node (slist s) d (n\<lparr>data_node := r, sn_type := type_num Type16\<rparr>), net := ?n5\<rparr>))" .
  have m: "snd (settled ?n5) = write_rem (write_rem (snd (settled (net s))) (get_as (data_node nb)) (take (sizeof_node (ntype pred')) ?b4))
      (get_as r) (take 560 (drop 560 ?b4))"
    using n'(3) w w5 v(4,5) t16 lb dr by simp
  have l5: "length (lbuf ?n5) = 8192" using v(6) sh l1(5) by (simp add: put_view_length node_shape_def)
  show ?thesis
    by (rule exI [of _ ?n5], rule exI [of _ ?b4], intro conjI m l5 l1(5) v(6,7) w5 [THEN conjunct1]) (use e in simp)
qed

end

subsection \<open>Two writes apart\<close>

text \<open>The bytes from \<open>p\<close> on, as many as a node of capacity \<open>N\<close> has, are not among those written at \<open>q\<close>.\<close>

definition apart :: "nat \<Rightarrow> u64 \<Rightarrow> u64 \<Rightarrow> nat \<Rightarrow> bool" where
  "apart len p q len' \<longleftrightarrow> list_all (\<lambda>i. len' \<le> unat (p + of_nat i - q)) [0..<len]"

lemma apart_nth: "apart len p q len' \<Longrightarrow> i < len \<Longrightarrow> len' \<le> unat (p + of_nat i - q)"
  by (simp add: apart_def list_all_iff)

lemma node_in_other:
  assumes "apart (sizeof_linked_node 16 N) (get_as p) q (length bs)" "N \<le> 16"
  shows "agree N (node_in (write_rem m q bs) p) (node_in m p)"
proof -
  let ?L = "sizeof_linked_node 16 N"
  have L: "44 + 32 * N \<le> ?L" "?L \<le> 560" using assms(2) by (simp_all add: sizeof_linked_node_def)
  have o: "read_rem (write_rem m q bs) (get_as p) ?L = read_rem m (get_as p) ?L"
    using apart_nth [OF assms(1)] by (rule read_rem_other)
  have s: "take k (drop j (read_rem m' (get_as p) 560)) = take k (drop j (read_rem m' (get_as p) ?L))" if "j + k \<le> ?L" for j k m'
    using that L by (simp add: read_rem_def take_map drop_map)
  show ?thesis
    unfolding node_in_def sizeof16_def
    using L assms(2) s [of 0 18] s [of 20 "24 + 32 * N"] o by (intro decode_agree) simp_all
qed

lemma written_node:
  assumes "length buf = 8192"
  shows "node_in (write_rem m (get_as p) (take 560 (drop 560 buf))) p = view 560 buf"
proof -
  have "agree 16 (node_in (write_rem m (get_as p) (take 560 (drop 560 buf))) p) (view 560 buf)"
    using assms by (intro written_agrees) (simp_all add: sizeof_linked_node_def)
  then show ?thesis using assms by (simp add: agree_16 node_in_shape view_shape)
qed

lemma written_pred:
  assumes "length buf = 8192" "cap t = Some M" "apart (sizeof_node t) (get_as p) q (length bs)"
  shows "agree M (node_in (write_rem (write_rem m (get_as p) (take (sizeof_node t) buf)) q bs) p) (view 0 buf)"
proof -
  note c = cap_size [OF assms(2)]
  have "agree M (node_in (write_rem m (get_as p) (take (sizeof_node t) (drop 0 buf))) p) (view 0 buf)"
    using assms(1) c by (intro written_agrees) simp_all
  with node_in_other [of M p q bs] assms(3) c show ?thesis by (auto intro: agree_trans)
qed

lemma agree_node_map: "agree N a b \<Longrightarrow> node_inv N b \<Longrightarrow> node_map a = node_map b"
  using agree_records [of N b a] agree_sym [of N a b] by (simp add: node_map_def node_inv_def)

subsection \<open>The state after winning\<close>

definition won_ctx :: "conc_ctx \<Rightarrow> request list \<Rightarrow> conc_ctx" where
  "won_ctx c q = c\<lparr>ctype := Insert, requests := q, user_context := Some 0, max_depth := - 1\<rparr>"

definition won_state :: "nat \<Rightarrow> conc_ctx \<Rightarrow> nat \<Rightarrow> skip_node \<Rightarrow> nat \<Rightarrow> skip_node \<Rightarrow> request list \<Rightarrow> 'w net \<Rightarrow> 'w cn \<Rightarrow> 'w cn" where
  "won_state tid c d n b nb q n2 s = (drained tid c s)
     \<lparr>slist := upd_node (upd_node (slist s) d (n\<lparr>ctx := Some tid\<rparr>)) b (nb\<lparr>ctx := Some tid\<rparr>),
      cctx := (cctx (drained tid c s))(tid \<mapsto> won_ctx c q), net := n2\<rparr>"

lemma won_state_simps [simp]:
  "net (won_state tid c d n b nb q n2 s) = n2" "rm (won_state tid c d n b nb q n2 s) = rm s"
  "cctx (won_state tid c d n b nb q n2 s) tid = Some (won_ctx c q)" "calloc (won_state tid c d n b nb q n2 s) = calloc s"
  "slist (won_state tid c d n b nb q n2 s) = upd_node (upd_node (slist s) d (n\<lparr>ctx := Some tid\<rparr>)) b (nb\<lparr>ctx := Some tid\<rparr>)"
  "answers (won_state tid c d n b nb q n2 s) = answers (drained tid c s)"
  "update_queue (won_state tid c d n b nb q n2 s) = update_queue s"
  "requests (won_ctx c q) = q" "user_context (won_ctx c q) = Some 0"
  by (simp_all add: won_state_def won_ctx_def drained_def)

context rdma_fabric
begin

text \<open>Winning both nodes leaves them in the buffer, the predecessor first.\<close>

lemma won_run:
  fixes s :: "'w cn"
  defines "mem \<equiv> snd (settled (net s))"
  assumes u: "usable connected outstanding tid s" and E: "vb E = V" "others E = enqueue tid q" and c: "cctx s tid = Some c"
    and d: "deref (slist s) (Some d) = Inr n" "ctx n = None" "backward n = Some b" "cap (sn_type n) = Some N"
    and b: "b \<noteq> d" "deref (slist s) (Some b) = Inr nb" "ctx nb = None"
    and r: "reaches registered tid s (data_node nb) (sizeof_node (sn_type nb))"
      "reaches registered tid s (data_node n) (sizeof_node (sn_type n))"
  obtains n2 where "try_win_for_insert E tid par d Insert (drained tid c s) = Some (Inr ((True, Some tid), won_state tid c d n b nb q n2 s))"
    "usable connected outstanding tid (won_state tid c d n b nb q n2 s)" "length (lbuf n2) = 8192" "snd (settled n2) = mem"
    "agree N (view 560 (lbuf n2)) (node_in mem (data_node n))"
    "\<And>M. cap (sn_type nb) = Some M \<Longrightarrow> agree M (view 0 (lbuf n2)) (node_in mem (data_node nb))"
proof -
  let ?L = "sizeof_linked_node 16 N"
  let ?s1 = "drained tid c s" and ?c1 = "c\<lparr>requests := []\<rparr>"
  have N: "N \<le> 16" "sizeof_node (sn_type n) = ?L" using cap_size [OF d(4)] by simp_all
  have u1: "usable connected outstanding tid ?s1" and c1: "cctx ?s1 tid = Some ?c1" using u by simp_all
  have d1: "deref (slist ?s1) (Some d) = Inr n" and b1: "deref (slist ?s1) (Some b) = Inr nb"
    and r1: "reaches registered tid ?s1 (data_node nb) (sizeof_node (sn_type nb))"
    using d b r by simp_all
  have rn: "registered (get_as (data_node n)) (sizeof_node (sn_type n))" using r(2) by (simp add: reaches_def)
  obtain n2 where w: "try_win_for_insert E tid par d Insert ?s1 = Some (Inr ((True, Some tid),
      ?s1\<lparr>slist := upd_node (upd_node (slist ?s1) d (n\<lparr>ctx := Some tid\<rparr>)) b (nb\<lparr>ctx := Some tid\<rparr>),
        cctx := (cctx ?s1)(tid \<mapsto> ?c1\<lparr>ctype := Insert, requests := requests ?c1 @ q, user_context := Some 0, max_depth := - 1\<rparr>), net := n2\<rparr>))"
    and n2: "outstanding n2 = []" "length (lbuf n2) = 8192" "snd (settled n2) = snd (settled (net ?s1))"
      "lbuf n2 = put_bytes 0 (read_rem (snd (settled (net ?s1))) (get_as (data_node nb)) (sizeof_node (sn_type nb)))
        (put_bytes 560 (read_rem (snd (settled (net ?s1))) (get_as (data_node n)) (sizeof_node (sn_type n))) (lbuf (net ?s1)))"
    using win_insert_run [OF u1 E c1 d1 d(2,3) b(1) b1 b(3) r1 rn sizeof_node_le sizeof_node_le, of par Insert] by blast
  have "try_win_for_insert E tid par d Insert ?s1 = Some (Inr ((True, Some tid), won_state tid c d n b nb q n2 s))"
    using w by (simp add: won_state_def won_ctx_def)
  moreover have "usable connected outstanding tid (won_state tid c d n b nb q n2 s)" using u n2 by (simp add: usable_def)
  moreover have l0: "length (lbuf (net s)) = 8192" using u by (simp add: usable_def)
  let ?bn = "put_bytes 560 (read_rem mem (get_as (data_node n)) ?L) (lbuf (net s))"
  have lb: "lbuf n2 = put_bytes 0 (read_rem mem (get_as (data_node nb)) (sizeof_node (sn_type nb))) ?bn"
    using n2(4) N(2) by (simp add: mem_def)
  have "?L \<le> 560" using N(1) by (simp add: sizeof_linked_node_def)
  then have lbn: "length ?bn = 8192" using l0 by (simp add: put_bytes_length)
  have "drop 560 (lbuf n2) = drop 560 ?bn"
    unfolding lb by (rule drop_put_bytes) (use sizeof_node_le [of "sn_type nb"] in simp)
  then have "view 560 (lbuf n2) = view 560 ?bn" by (simp add: view_def)
  then have "agree N (view 560 (lbuf n2)) (node_in mem (data_node n))"
    using fetched_agrees [of 560 "lbuf (net s)" N ?L mem "data_node n"] l0 N by simp
  moreover have "agree M (view 0 (lbuf n2)) (node_in mem (data_node nb))" if "cap (sn_type nb) = Some M" for M
    using fetched_agrees [of 0 ?bn M _ mem "data_node nb"] cap_size [OF that] lbn by (simp add: lb)
  ultimately show ?thesis using n2 by (intro that [of n2]) (simp_all add: mem_def)
qed

end

end
