(* ===== verification/GrowProps.thy ===== *)
theory GrowProps
  imports GrowProofs
begin

text \<open>
  An insertion whose node is full and has a larger type to grow into, from \<open>put\<close> to the bytes in
  remote memory and back through \<open>get\<close>.
\<close>

subsection \<open>Routing\<close>

text \<open>Two search layers with the same anchors and forward pointers.\<close>

definition same_routes :: "skiplist \<Rightarrow> skiplist \<Rightarrow> bool" where
  "same_routes sl sl' \<longleftrightarrow> head sl = head sl' \<and> current_level sl = current_level sl' \<and>
     (\<forall>p. map_sum id (\<lambda>n. (anchor n, forwards n)) (deref sl p) = map_sum id (\<lambda>n. (anchor n, forwards n)) (deref sl' p))"

lemma same_routes_deref:
  assumes "same_routes sl sl'"
  shows "deref sl p = Inl e \<Longrightarrow> deref sl' p = Inl e"
    and "deref sl p = Inr n \<Longrightarrow> \<exists>n'. deref sl' p = Inr n' \<and> anchor n' = anchor n \<and> forwards n' = forwards n"
proof -
  have e: "map_sum id (\<lambda>n. (anchor n, forwards n)) (deref sl p) = map_sum id (\<lambda>n. (anchor n, forwards n)) (deref sl' p)"
    using assms by (simp add: same_routes_def)
  show "deref sl p = Inl e \<Longrightarrow> deref sl' p = Inl e" using e by (cases "deref sl' p") auto
  show "deref sl p = Inr n \<Longrightarrow> \<exists>n'. deref sl' p = Inr n' \<and> anchor n' = anchor n \<and> forwards n' = forwards n"
    using e by (cases "deref sl' p") auto
qed

lemma same_routes_sym: "same_routes sl sl' \<Longrightarrow> same_routes sl' sl"
  by (simp add: same_routes_def)

lemma same_routes_forward: "same_routes sl sl' \<Longrightarrow> get_forward sl p i = get_forward sl' p i"
  using same_routes_deref [of sl sl' p] by (cases "deref sl p") (auto simp: get_forward_def)

lemma same_routes_upd:
  assumes "deref sl (Some d) = Inr n" "anchor n' = anchor n" "forwards n' = forwards n"
  shows "same_routes sl (upd_node sl d n')"
  unfolding same_routes_def using assms by (auto simp: upd_node_def) (auto simp: deref_def split: option.split)

lemma same_routes_walk_some:
  assumes "same_routes sl sl'" "walk sl i key w = Some r"
  shows "walk sl' i key w = Some r"
proof -
  have "\<forall>sl'. same_routes sl sl' \<longrightarrow> walk sl' i key w = Some r"
  proof (rule walk.raw_induct [of "\<lambda>sl i key w r. \<forall>sl'. same_routes sl sl' \<longrightarrow> walk sl' i key w = Some r", OF _ assms(2)], intro allI impI)
    fix f sl i key w r and sl' :: skiplist
    assume ih: "\<And>sl i key w r. f sl i key w = Some r \<Longrightarrow> \<forall>sl'. same_routes sl sl' \<longrightarrow> walk sl' i key w = Some r"
      and st: "(case get_forward sl (Some w) i of
        Inl e \<Rightarrow> Some (Inl e)
      | Inr None \<Rightarrow> Some (Inr w)
      | Inr (Some m) \<Rightarrow>
          (case deref sl (Some m) of
             Inl e \<Rightarrow> Some (Inl e)
           | Inr n \<Rightarrow> if anchor n < key then f sl i key m else Some (Inr w))) = Some r"
      and sr: "same_routes sl sl'"
    note fw = same_routes_forward [OF sr, of "Some w" i, symmetric]
    show "walk sl' i key w = Some r"
    proof (cases "get_forward sl (Some w) i")
      case (Inl e)
      with st fw show ?thesis by (subst walk.simps) simp
    next
      case (Inr o1)
      show ?thesis
      proof (cases o1)
        case None
        with Inr st fw show ?thesis by (subst walk.simps) simp
      next
        case (Some m)
        show ?thesis
        proof (cases "deref sl (Some m)")
          case (Inl e)
          with Some Inr st fw same_routes_deref(1) [OF sr Inl] show ?thesis by (subst walk.simps) simp
        next
          case (Inr n)
          obtain n' where n': "deref sl' (Some m) = Inr n'" "anchor n' = anchor n" using same_routes_deref(2) [OF sr Inr] by blast
          have "anchor n < key \<Longrightarrow> walk sl' i key m = Some r"
            using st Some \<open>get_forward sl (Some w) i = Inr o1\<close> Inr ih sr by simp
          with st Some \<open>get_forward sl (Some w) i = Inr o1\<close> Inr n' fw show ?thesis by (subst walk.simps) auto
        qed
      qed
    qed
  qed
  with assms(1) show ?thesis by blast
qed

lemma same_routes_walk: "same_routes sl sl' \<Longrightarrow> walk sl i key w = walk sl' i key w"
  using same_routes_walk_some [of sl sl' i key w] same_routes_walk_some [OF same_routes_sym, of sl sl' i key w]
  by (cases "walk sl i key w"; cases "walk sl' i key w") auto

lemma run_bind_cong: "m = m' \<Longrightarrow> (\<And>x. m' = Some (Inr x) \<Longrightarrow> f x = g x) \<Longrightarrow> run_bind m f = run_bind m' g"
  by (auto simp: run_bind_def split: option.split sum.split)

lemma same_routes_descend: "same_routes sl sl' \<Longrightarrow> descend sl key lo k w upd = descend sl' key lo k w upd"
  by (induction sl key lo k w upd rule: descend.induct) (simp add: same_routes_walk, simp add: same_routes_walk cong: run_bind_cong)

lemma same_routes_search:
  assumes "same_routes sl sl'"
  shows "fuzzy_search key sl = fuzzy_search key sl'"
proof -
  have "(case f of None \<Rightarrow> Some (Inr (Some w))
      | Some m \<Rightarrow> run_bind (Some (deref sl (Some m))) (\<lambda>nm. Some (Inr (if anchor nm = key then Some m
                     else if key < anchor nm \<and> anchor nw \<le> key then Some w else None)))) =
      (case f of None \<Rightarrow> Some (Inr (Some w))
      | Some m \<Rightarrow> run_bind (Some (deref sl' (Some m))) (\<lambda>nm. Some (Inr (if anchor nm = key then Some m
                     else if key < anchor nm \<and> anchor nw' \<le> key then Some w else None))))"
    if "anchor nw' = anchor nw" for f w and nw nw' :: skip_node
  proof (cases f)
    case (Some m)
    then show ?thesis
      using same_routes_deref [OF assms, of "Some m"] that by (cases "deref sl (Some m)") fastforce+
  qed simp
  note c = this
  have h: "head sl = head sl'" "current_level sl = current_level sl'" using assms by (simp_all add: same_routes_def)
  show ?thesis
    unfolding fuzzy_search_def h same_routes_descend [OF assms]
  proof (rule run_bind_cong [OF refl], clarify)
    fix w upd
    show "run_bind (Some (deref sl (Some w))) (\<lambda>nw. run_bind (Some (rd (forwards nw) 0)) (\<lambda>f. case f of None \<Rightarrow> Some (Inr (Some w))
      | Some m \<Rightarrow> run_bind (Some (deref sl (Some m))) (\<lambda>nm. Some (Inr (if anchor nm = key then Some m
                     else if key < anchor nm \<and> anchor nw \<le> key then Some w else None))))) =
      run_bind (Some (deref sl' (Some w))) (\<lambda>nw. run_bind (Some (rd (forwards nw) 0)) (\<lambda>f. case f of None \<Rightarrow> Some (Inr (Some w))
      | Some m \<Rightarrow> run_bind (Some (deref sl' (Some m))) (\<lambda>nm. Some (Inr (if anchor nm = key then Some m
                     else if key < anchor nm \<and> anchor nw \<le> key then Some w else None)))))"
    proof (cases "deref sl (Some w)")
      case (Inl e)
      with same_routes_deref(1) [OF assms Inl] show ?thesis by simp
    next
      case (Inr n)
      obtain n' where n': "deref sl' (Some w) = Inr n'" "anchor n' = anchor n" "forwards n' = forwards n"
        using same_routes_deref(2) [OF assms Inr] by blast
      show ?thesis unfolding Inr n'(1) run_bind_simps n'(3) by (rule run_bind_cong [OF refl]) (rule c [OF n'(2)])
    qed
  qed
qed

subsection \<open>The run\<close>

text \<open>The types that \<open>put12\<close> and \<open>put14\<close> let grow to sixteen slots, with the number of pending
  records, the winner's own included.\<close>

definition may_grow :: "u32 \<Rightarrow> nat \<Rightarrow> bool" where
  "may_grow t pending \<longleftrightarrow> t = type_num Type12 \<and> pending \<le> 4 \<or> t = type_num Type14 \<and> pending \<le> 2"

lemma may_grow_cap: "may_grow t p \<Longrightarrow> \<exists>N. cap t = Some N \<and> N + p \<le> 16"
  by (auto simp: may_grow_def cap_type_num simp del: type_num.simps)

lemma node_inv_larger:
  assumes "node_inv N n" "N \<le> 16" "node_shape n"
  shows "node_inv 16 n"
  using assms by (simp add: node_inv_def node_shape_def)

lemma try_put_full:
  assumes "cctx s tid = Some c" "user_context c = Some off" "room N (view (off + 560) (lbuf (net s))) = 0"
  shows "try_put_to_existing_node E tid N d key val s = Some (Inr ((False, length (requests c) + 1), s))"
  using assms by (simp add: try_put_to_existing_node_def step_simps non_null_def sizeof16_def store_kv_def available_def room_def)
    (simp add: st_ret_def)

lemma dispatch_grow:
  assumes "deref (slist s) (Some d) = Inr n" "cap (sn_type n) = Some N" "may_grow (sn_type n) p" "0 < p"
    and "drain_pending tid s = Some (Inr ((), s1))"
    and "try_win_for_insert E tid par d Insert s1 = Some (Inr ((True, Some tid), s2))"
    and "try_put_to_existing_node E tid N d key val s2 = Some (Inr ((False, p), s2))"
    and "eager_morph E tid d key val False s2 = Some (Inr (True, s3))"
    and "leave tid d True s3 = Some (Inr ((True, False), s4))"
  shows "put_dispatcher E tid par (Some d) key val s = Some (Inr (True, s4))"
proof -
  note b = st_bind_Inr [of "drain_pending tid"] st_bind_Inr [of "try_win_for_insert E tid par d Insert"]
    st_bind_Inr [of "try_put_to_existing_node E tid N d key val"] st_bind_Inr [of "eager_morph E tid d key val False"]
  have q: "put12 E tid par d key val s = Some (Inr ((True, False), s4))" if "N = 12" "p \<le> 4"
    using assms(4-9) that unfolding put12_def that(1) [symmetric] by (simp add: b)
  have r: "put14 E tid par d key val s = Some (Inr ((True, False), s4))" if "N = 14" "p \<le> 2"
    using assms(4-9) that unfolding put14_def that(1) [symmetric] by (simp add: b)
  consider "sn_type n = type_num Type12" "p \<le> 4" "N = 12" | "sn_type n = type_num Type14" "p \<le> 2" "N = 14"
    using assms(2,3) by (auto simp: may_grow_def cap_type_num simp del: type_num.simps)
  then show ?thesis
  proof cases
    case 1
    then show ?thesis
      unfolding put_dispatcher.simps [of E tid par "Some d" key val s] node_at_bind [OF assms(1)]
      by (simp add: st_bind_Inr [of "put12 E tid par d key val", OF q] del: type_num.simps) (simp add: st_ret_def)
  next
    case 2
    then show ?thesis
      unfolding put_dispatcher.simps [of E tid par "Some d" key val s] node_at_bind [OF assms(1)]
      by (simp add: st_bind_Inr [of "put14 E tid par d key val", OF r] del: type_num.simps) (simp add: st_ret_def)
  qed
qed

lemma node_inv_full:
  assumes "node_inv N n" "room N n = 0"
  shows "unat (nxt n) = N"
  using assms by (simp add: node_inv_def room_def)

lemma agree_room: "agree N a b \<Longrightarrow> room M a = room M b"
  using agree_fields(5) by (simp add: room_def)

text \<open>The two nodes in the buffer once the winner's record and those of the waiting threads are in:
  the requests all fit because \<open>put12\<close> and \<open>put14\<close> count them first.\<close>

lemma grow_buffers:
  assumes inv: "node_inv N rb" "room N rb = 0" "N + (length q + 1) \<le> 16" "node_shape rb" and k: "wide key" "wide val" "node_map rb key = None"
    and q: "list_all wide_request q" and p: "typed_inv pred" "node_shape pred"
  obtains real1 pred' rb' ans where "store_kv 16 key val rb = Inr (True, real1)" "node_shape real1"
    "help_others 16 anch pred real1 q [] = Inr (pred', rb', ans, [])" "node_shape pred'" "node_shape rb'" "node_inv 16 rb'"
    "typed_inv pred'" "ntype pred' = ntype pred" "list_all (answered anch pred' rb') ans" "mset (map body ans) = mset (map body q)"
    "node_map rb' = map_of (filter (\<lambda>(k, _). \<not> k < anch) (map body ans)) ++ (node_map rb)(key \<mapsto> val)"
proof -
  have i16: "node_inv 16 rb" by (rule node_inv_larger [OF inv(1) _ inv(4)]) (use inv(3) in simp)
  have rm: "room 16 rb = 16 - N" using node_inv_full [OF inv(1,2)] by (simp add: room_def)
  then have r0: "room 16 rb \<noteq> 0" using inv(3) by simp
  obtain real1 where st: "store_kv 16 key val rb = Inr (True, real1)" "node_inv 16 real1" "records real1 = records rb @ [(key, val)]"
    "room 16 real1 = room 16 rb - 1"
    by (rule store_kv_absent [OF i16 k(1,2) r0 k(3)])
  have sh: "node_shape real1" using store_shape [OF st(1) inv(4) k(1,2)] by simp
  have "length q \<le> room 16 real1" using st(4) rm inv(3) by simp
  moreover have "list_all (answered anch pred real1) []" by simp
  ultimately obtain pred' rb' ans where h: "help_others 16 anch pred real1 q [] = Inr (pred', rb', ans, [])"
    "typed_inv pred'" "node_inv 16 rb'" "list_all (answered anch pred' rb') ans" "mset (map body ans) = mset (map body q)"
    "node_map rb' = map_of (filter (\<lambda>(k, _). \<not> k < anch) (map body ans)) ++ node_map real1" "node_shape pred'" "node_shape rb'"
    using help_others_room [OF p(1) st(2) p(2) sh q] by metis
  have "same_meta pred' pred"
    using help_others_ok [OF p(1) st(2) q, of anch "[]"] h(1) by auto
  moreover have "node_map real1 = (node_map rb)(key \<mapsto> val)" using node_map_append [OF st(3) k(3)] .
  ultimately show ?thesis using st sh h by (intro that [of real1 pred' rb' ans]) (simp_all add: same_meta_def)
qed

context rdma_fabric
begin

lemma put_grow_run:
  fixes s :: "'w cn"
  defines "mem \<equiv> snd (settled (net s))"
  assumes u: "usable connected outstanding tid s" and E: "vb E = V" "others E = enqueue tid q" and c: "cctx s tid = Some c"
    and d: "deref (slist s) (Some d) = Inr n" "ctx n = None" "backward n = Some b"
    and b: "b \<noteq> d" "deref (slist s) (Some b) = Inr nb" "ctx nb = None"
    and r: "reaches registered tid s (data_node nb) (sizeof_node (sn_type nb))"
      "reaches registered tid s (data_node n) (sizeof_node (sn_type n))"
    and g: "may_grow (sn_type n) (length q + 1)" "cap (sn_type n) = Some N"
    and k: "wide key" "wide val" "node_inv N (node_in mem (data_node n))" "node_map (node_in mem (data_node n)) key = None"
      "room N (node_in mem (data_node n)) = 0"
    and q: "list_all wide_request q"
    and p: "cap (sn_type nb) = Some M" "ntype (node_in mem (data_node nb)) = sn_type nb" "node_inv M (node_in mem (data_node nb))"
    and a: "cna_allocate tid 560 (calloc s) = Inr (ra, al)" "\<not> is_nullptr ra" "reaches registered tid s ra 560"
      "apart (sizeof_node (sn_type nb)) (get_as (data_node nb)) (get_as ra) 560"
  shows "\<exists>s' ans. put_dispatcher E tid par (Some d) key val s = Some (Inr (True, s')) \<and>
    slist s' = upd_node (slist s) d (n\<lparr>data_node := ra, sn_type := type_num Type16\<rparr>) \<and> rm s' = rm s \<and> calloc s' = al \<and>
    usable connected outstanding tid s' \<and> cctx s' tid \<noteq> None \<and> remote_put s' = remote_put s \<and>
    answers s' = answers (drained tid c s) ++ map_of (map (\<lambda>r. (rid r, r)) ans) \<and> mset (map body ans) = mset (map body q) \<and>
    (let node = node_in (snd (settled (net s'))) ra; before = node_in (snd (settled (net s'))) (data_node nb) in
       node_inv 16 node \<and> crc_validate (crcer E) node (type_num Type16) = crc node \<and> rlink before = ra \<and>
       list_all (answered (anchor n) before node) ans \<and>
       node_map node = map_of (filter (\<lambda>(k, _). \<not> k < anchor n) (map body ans)) ++ (node_map (node_in mem (data_node n)))(key \<mapsto> val))"
proof -
  let ?old = "node_in mem (data_node n)" and ?c2 = "won_ctx c q"
  obtain n2 where w: "try_win_for_insert E tid par d Insert (drained tid c s) = Some (Inr ((True, Some tid), won_state tid c d n b nb q n2 s))"
    and u2: "usable connected outstanding tid (won_state tid c d n b nb q n2 s)" and n2: "length (lbuf n2) = 8192" "snd (settled n2) = mem"
    and ar: "agree N (view 560 (lbuf n2)) ?old" and ap: "\<And>M. cap (sn_type nb) = Some M \<Longrightarrow> agree M (view 0 (lbuf n2)) (node_in mem (data_node nb))"
    unfolding mem_def by (rule won_run [OF u E c d g(2) b r, of par]) blast
  let ?s2 = "won_state tid c d n b nb q n2 s"
  have N: "N + (length q + 1) \<le> 16" using may_grow_cap [OF g(1)] g(2) by simp
  then have N16: "N \<le> 16" by simp
  have sh: "node_shape (view 0 (lbuf n2))" "node_shape (view 560 (lbuf n2))" using n2(1) by (simp_all add: view_shape)
  have iv: "node_inv N (view 560 (lbuf n2))" by (rule agree_inv [OF agree_sym [OF ar] k(3) sh(2) N16])
  have mp: "node_map (view 560 (lbuf n2)) = node_map ?old" by (rule agree_node_map [OF ar k(3)])
  have rm0: "room N (view 560 (lbuf n2)) = 0" using agree_room [OF ar] k(5) by simp
  have ip: "node_inv M (view 0 (lbuf n2))"
    using agree_inv [OF agree_sym [OF ap [OF p(1)]] p(3) sh(1)] cap_size [OF p(1)] by simp
  have tp: "ntype (view 0 (lbuf n2)) = sn_type nb" using agree_fields(4) [OF ap [OF p(1)]] p(2) by simp
  have ti: "typed_inv (view 0 (lbuf n2))" using ip tp p(1) by (simp add: typed_inv_def)
  have none: "node_map (view 560 (lbuf n2)) key = None" using k(4) mp by simp
  obtain real1 pred' rb' ans where g': "store_kv 16 key val (view 560 (lbuf n2)) = Inr (True, real1)" "node_shape real1"
    "help_others 16 (anchor n) (view 0 (lbuf n2)) real1 q [] = Inr (pred', rb', ans, [])" "node_shape pred'" "node_shape rb'" "node_inv 16 rb'"
    "typed_inv pred'" "ntype pred' = ntype (view 0 (lbuf n2))" "list_all (answered (anchor n) pred' rb') ans" "mset (map body ans) = mset (map body q)"
    "node_map rb' = map_of (filter (\<lambda>(k, _). \<not> k < anchor n) (map body ans)) ++ (node_map (view 560 (lbuf n2)))(key \<mapsto> val)"
    by (rule grow_buffers [OF iv rm0 N sh(2) k(1,2) none q ti sh(1), of "anchor n"])
  have tp': "ntype pred' = sn_type nb" using g'(8) tp by simp
  have d2: "deref (slist ?s2) (Some d) = Inr (n\<lparr>ctx := Some tid\<rparr>)" "backward (n\<lparr>ctx := Some tid\<rparr>) = Some b"
    "deref (slist ?s2) (Some b) = Inr (nb\<lparr>ctx := Some tid\<rparr>)" using d b by simp_all
  have c2: "cctx ?s2 tid = Some ?c2" "user_context ?c2 = Some 0" by simp_all
  have tf: "try_put_to_existing_node E tid N d key val ?s2 = Some (Inr ((False, length q + 1), ?s2))"
    using try_put_full [OF c2, of N E d key val] rm0 by simp
  have st2: "store_kv 16 key val (view 560 (lbuf (net ?s2))) = Inr (True, real1)" using g'(1) by simp
  have h2: "help_others 16 (anchor (n\<lparr>ctx := Some tid\<rparr>)) (view 0 (lbuf (net ?s2))) real1 (requests ?c2) [] = Inr (pred', rb', ans, [])"
    using g'(3) by simp
  have a2: "cna_allocate tid 560 (calloc ?s2) = Inr (ra, al)" using a(1) by simp
  have r2: "reaches registered tid ?s2 ra 560" "registered (get_as (data_node (nb\<lparr>ctx := Some tid\<rparr>))) (sizeof_node (ntype pred'))"
    using a(3) r(1) tp' by (simp_all add: reaches_def)
  let ?S = "\<lambda>n'. ?s2\<lparr>answers := answers ?s2 ++ map_of (map (\<lambda>r. (rid r, r)) ans), cctx := (cctx ?s2)(tid \<mapsto> ?c2\<lparr>requests := []\<rparr>), calloc := al,
        slist := upd_node (slist ?s2) d ((n\<lparr>ctx := Some tid\<rparr>)\<lparr>data_node := ra, sn_type := type_num Type16\<rparr>), net := n'\<rparr>"
  obtain n3 buf where em: "eager_morph E tid d key val False ?s2 = Some (Inr (True, ?S n3))"
    and n3: "outstanding n3 = []" "length (lbuf n3) = 8192" "length buf = 8192" "view 0 buf = pred'\<lparr>rlink := ra\<rparr>"
      "view 560 buf = rb'\<lparr>ntype := type_num Type16, crc := crc_validate (crcer E) rb' (type_num Type16)\<rparr>"
      "snd (settled n3) = write_rem (write_rem (snd (settled (net ?s2))) (get_as (data_node (nb\<lparr>ctx := Some tid\<rparr>))) (take (sizeof_node (ntype pred')) buf))
        (get_as ra) (take 560 (drop 560 buf))"
    using eager_morph_run [OF u2 E(1) c2 d2(1,2) b(1) d2(3) st2 g'(2) h2 g'(4,5) a2 a(2) r2] by blast
  have c3: "cctx (?S n3) tid = Some (?c2\<lparr>requests := []\<rparr>)" by simp
  have d3: "deref (slist (?S n3)) (Some d) = Inr ((n\<lparr>ctx := Some tid\<rparr>)\<lparr>data_node := ra, sn_type := type_num Type16\<rparr>)"
    "backward ((n\<lparr>ctx := Some tid\<rparr>)\<lparr>data_node := ra, sn_type := type_num Type16\<rparr>) = Some b"
    "deref (slist (?S n3)) (Some b) = Inr (nb\<lparr>ctx := Some tid\<rparr>)" using d b by simp_all
  note lv = leave_run [OF c3 d3(1,2) b(1) d3(3)]
  let ?n' = "n\<lparr>data_node := ra, sn_type := type_num Type16\<rparr>"
  let ?s4 = "(?S n3)\<lparr>slist := upd_node (slist s) d ?n', cctx := (cctx (?S n3))(tid \<mapsto> ?c2\<lparr>requests := [], max_depth := 4\<rparr>)\<rparr>"
  have nc: "((n\<lparr>ctx := Some tid\<rparr>)\<lparr>data_node := ra, sn_type := type_num Type16\<rparr>)\<lparr>ctx := None\<rparr> = ?n'" "nb\<lparr>ctx := Some tid\<rparr>\<lparr>ctx := None\<rparr> = nb"
    using d(2) b(3) by simp_all
  have sl: "upd_node (upd_node (slist (?S n3)) d ?n') b nb = upd_node (slist s) d ?n'"
    using b upd_node_simps(2) [of "upd_node (slist s) d ?n'" b nb] by (simp add: upd_node_commute [of d b])
  have lv': "leave tid d True (?S n3) = Some (Inr ((True, False), ?s4))"
    unfolding lv nc sl by simp
  have f: "put_dispatcher E tid par (Some d) key val s = Some (Inr (True, ?s4))"
    by (rule dispatch_grow [OF d(1) g(2,1) _ drain_pending_run [OF c] w tf em lv']) simp
  let ?m3 = "snd (settled n3)"
  have m3: "?m3 = write_rem (write_rem mem (get_as (data_node nb)) (take (sizeof_node (sn_type nb)) buf)) (get_as ra) (take 560 (drop 560 buf))"
    using n3(6) n2(2) tp' by simp
  have nd: "node_in ?m3 ra = rb'\<lparr>ntype := type_num Type16, crc := crc_validate (crcer E) rb' (type_num Type16)\<rparr>"
    unfolding m3 written_node [OF n3(3)] by (rule n3(5))
  have "length (take 560 (drop 560 buf)) = 560" using n3(3) by simp
  then have ag: "agree M (node_in ?m3 (data_node nb)) (pred'\<lparr>rlink := ra\<rparr>)"
    unfolding m3 n3(4) [symmetric] using a(4) by (intro written_pred [OF n3(3) p(1)]) simp
  have "node_inv M pred'" using g'(7) tp' p(1) by (simp add: typed_inv_def)
  then have "node_inv M (pred'\<lparr>rlink := ra\<rparr>)" by (simp add: node_inv_def nkey_def)
  from agree_node_map [OF ag this] have bm: "node_map (node_in ?m3 (data_node nb)) = node_map pred'"
    by (simp add: node_map_def records_def)
  have bt: "ntype (node_in ?m3 (data_node nb)) = ntype pred'" "rlink (node_in ?m3 (data_node nb)) = ra"
    using agree_fields(2,4) [OF ag] by simp_all
  have nm: "node_map (node_in ?m3 ra) = node_map rb'" unfolding nd by (simp add: node_map_def records_def)
  have an: "answered (anchor n) (node_in ?m3 (data_node nb)) (node_in ?m3 ra) x = answered (anchor n) pred' rb' x" for x
    by (simp add: answered_def holds_key_def bm bt nm)
  have nv: "node_inv 16 (node_in ?m3 ra)" unfolding nd using g'(6) by (simp add: node_inv_def nkey_def)
  have cr: "crc_validate (crcer E) (node_in ?m3 ra) (type_num Type16) = crc (node_in ?m3 ra)"
    unfolding nd by (simp add: crc_validate_def del: type_num.simps)
  have us: "usable connected outstanding tid ?s4" using u n3(1,2) by (simp add: usable_def)
  have e: "net ?s4 = n3" "rm ?s4 = rm s" "slist ?s4 = upd_node (slist s) d ?n'" "calloc ?s4 = al" "cctx ?s4 tid \<noteq> None"
    "answers ?s4 = answers (drained tid c s) ++ map_of (map (\<lambda>r. (rid r, r)) ans)" by simp_all
  have rp: "remote_put ?s4 = remote_put s" by (simp add: won_state_def drained_def)
  have la: "list_all (answered (anchor n) (node_in ?m3 (data_node nb)) (node_in ?m3 ra)) ans" using g'(9) by (simp add: an list_all_iff)
  have mm: "node_map (node_in ?m3 ra) = map_of (filter (\<lambda>(k, _). \<not> k < anchor n) (map body ans)) ++ (node_map ?old)(key \<mapsto> val)"
    unfolding nm g'(11) mp ..
  show ?thesis
    unfolding Let_def
    by (rule exI [of _ ?s4], rule exI [of _ ans], unfold e(1), intro conjI f e(2-6) us rp g'(10) nv cr bt(2) la mm)
qed

text \<open>A lookup of a node whose checksum fits.\<close>

lemma get_fits:
  fixes s :: "'w cn"
  assumes "usable connected outstanding tid s" "vb E = V" "cctx s tid \<noteq> None" "remote_put s"
    and "fuzzy_search key (slist s) = Some (Inr (Some d))" "deref (slist s) (Some d) = Inr n" "wide key"
    and "reaches registered tid s (data_node n) 560" "node_inv N (node_in (snd (settled (net s))) (data_node n))"
    and "crc_validate (crcer E) (node_in (snd (settled (net s))) (data_node n)) (sn_type n) = crc (node_in (snd (settled (net s))) (data_node n))"
  shows "\<exists>s'. get E tid key s = Some (Inr (node_map (node_in (snd (settled (net s))) (data_node n)) key, s'))"
proof -
  obtain c where c: "cctx s tid = Some c" using assms(3) by blast
  let ?b = "node_in (snd (settled (net s))) (data_node n)"
  obtain n' where t: "get_turn E tid key (get_remote E tid key) s =
      (let b = ?b; t = (drained tid c s)\<lparr>net := n'\<rparr>
       in if crc_validate (crcer E) b (sn_type n) \<noteq> crc b then get_remote E tid key (others E t) else st_lift (find_kv key b) t)"
    using get_turn_run [OF assms(1,2) c assms(5,6)] assms(8) by (auto simp: sizeof16_def)
  have "get E tid key s = get_remote E tid key s" using assms(4) by (simp add: get_def)
  also have "\<dots> = Some (Inr (node_map ?b key, (drained tid c s)\<lparr>net := n'\<rparr>))"
    unfolding get_remote_turn [of E tid key s] t using assms(10) find_kv_eq [OF assms(9,7)] by (simp add: Let_def st_lift_def)
  finally show ?thesis by blast
qed

end

subsection \<open>The property\<close>

text \<open>A full node that may grow, does not hold the key, and has a well-formed predecessor.\<close>

definition growable :: "memory \<Rightarrow> skip_node \<Rightarrow> skip_node \<Rightarrow> bytes \<Rightarrow> nat \<Rightarrow> bool" where
  "growable m n nb key p \<longleftrightarrow> may_grow (sn_type n) p \<and>
     (\<exists>N. cap (sn_type n) = Some N \<and> node_inv N (node_in m (data_node n)) \<and> room N (node_in m (data_node n)) = 0 \<and>
          node_map (node_in m (data_node n)) key = None) \<and>
     (\<exists>M. cap (sn_type nb) = Some M \<and> node_inv M (node_in m (data_node nb)) \<and> ntype (node_in m (data_node nb)) = sn_type nb)"

text \<open>C4: an insertion into a full node of 12 or 14 slots, with as many waiting threads as \<open>put12\<close> and
  \<open>put14\<close> accept for growing, reports success.  The node is written to a fresh chunk with sixteen
  slots and holds what it held, the new record and those of the requests not below its anchor; its
  checksum fits and the predecessor in remote memory links to it.  Every request is answered, and
  one that is told to have succeeded has its key in the predecessor or the node in remote memory.
  Every later \<open>get\<close> that is routed to the node returns what it holds.\<close>

theorem put_grows_full_node:
  assumes "rdma_fabric V base reg conn os settled" "usable conn os tid s" "remote_put s" "cctx s tid = Some c"
    and "vb E = V" "others E = enqueue tid q" "list_all wide_request q" "wide key" "wide val"
    and "fuzzy_search key (slist s) = Some (Inr (Some d))" "winnable reg tid s d n nb"
    and "growable (snd (settled (net s))) n nb key (length q + 1)"
    and "cna_allocate tid 560 (calloc s) = Inr (r, al)" "\<not> is_nullptr r" "reaches reg tid s r 560"
    and "apart (sizeof_node (sn_type nb)) (get_as (data_node nb)) (get_as r) 560"
  shows "\<exists>s' ans. put E tid par key val s = Some (Inr (True, s')) \<and> calloc s' = al \<and>
    slist s' = upd_node (slist s) d (n\<lparr>data_node := r, sn_type := type_num Type16\<rparr>) \<and>
    answers s' = answers (drained tid c s) ++ map_of (map (\<lambda>r. (rid r, r)) ans) \<and> mset (map body ans) = mset (map body q) \<and>
    (let node = node_in (snd (settled (net s'))) r; before = node_in (snd (settled (net s'))) (data_node nb) in
       node_map node = map_of (filter (\<lambda>(k, _). anchor n \<le> k) (map body ans)) ++
         (node_map (node_in (snd (settled (net s))) (data_node n)))(key \<mapsto> val) \<and>
       rlink before = r \<and> list_all (answered (anchor n) before node) ans \<and>
       (\<forall>key'. wide key' \<and> fuzzy_search key' (slist s) = Some (Inr (Some d)) \<longrightarrow>
          (\<exists>s''. get E tid key' s' = Some (Inr (node_map node key', s'')))))"
proof -
  obtain b where b: "deref (slist s) (Some d) = Inr n" "ctx n = None" "backward n = Some b" "b \<noteq> d"
    "deref (slist s) (Some b) = Inr nb" "ctx nb = None" "reaches reg tid s (data_node nb) (sizeof_node (sn_type nb))"
    "reaches reg tid s (data_node n) (sizeof_node (sn_type n))"
    by (rule winnable_cases [OF assms(11)])
  let ?m = "snd (settled (net s))"
  obtain N M where g: "may_grow (sn_type n) (length q + 1)" "cap (sn_type n) = Some N" "node_inv N (node_in ?m (data_node n))"
    "node_map (node_in ?m (data_node n)) key = None" "room N (node_in ?m (data_node n)) = 0"
    and p: "cap (sn_type nb) = Some M" "ntype (node_in ?m (data_node nb)) = sn_type nb" "node_inv M (node_in ?m (data_node nb))"
    using assms(12) by (auto simp: growable_def)
  obtain s' ans where r: "put_dispatcher E tid par (Some d) key val s = Some (Inr (True, s'))"
    "slist s' = upd_node (slist s) d (n\<lparr>data_node := r, sn_type := type_num Type16\<rparr>)" "rm s' = rm s" "calloc s' = al"
    "usable conn os tid s'" "cctx s' tid \<noteq> None" "remote_put s' = remote_put s"
    "answers s' = answers (drained tid c s) ++ map_of (map (\<lambda>r. (rid r, r)) ans)" "mset (map body ans) = mset (map body q)"
    "node_inv 16 (node_in (snd (settled (net s'))) r)"
    "crc_validate (crcer E) (node_in (snd (settled (net s'))) r) (type_num Type16) = crc (node_in (snd (settled (net s'))) r)"
    "rlink (node_in (snd (settled (net s'))) (data_node nb)) = r"
    "list_all (answered (anchor n) (node_in (snd (settled (net s'))) (data_node nb)) (node_in (snd (settled (net s'))) r)) ans"
    "node_map (node_in (snd (settled (net s'))) r) = map_of (filter (\<lambda>(k, _). \<not> k < anchor n) (map body ans)) ++
      (node_map (node_in ?m (data_node n)))(key \<mapsto> val)"
    using rdma_fabric.put_grow_run [OF assms(1,2,5,6,4) b(1-8) g(1,2) assms(8,9) g(3-5) assms(7) p assms(13-16), of par]
    unfolding Let_def by blast
  have rd: "\<exists>s''. get E tid key' s' = Some (Inr (node_map (node_in (snd (settled (net s'))) r) key', s''))"
    if "wide key'" "fuzzy_search key' (slist s) = Some (Inr (Some d))" for key'
  proof -
    have "same_routes (slist s) (slist s')" unfolding r(2) by (rule same_routes_upd [OF b(1)]) simp_all
    then have fs: "fuzzy_search key' (slist s') = Some (Inr (Some d))" using same_routes_search that(2) by metis
    have dn: "deref (slist s') (Some d) = Inr (n\<lparr>data_node := r, sn_type := type_num Type16\<rparr>)" by (simp add: r(2))
    have "reaches reg tid s' r 560" using assms(15) r(3) by (simp add: reaches_def)
    with rdma_fabric.get_fits [OF assms(1) r(5) assms(5) r(6) _ fs dn that(1)] assms(3) r(7,10,11) show ?thesis by simp
  qed
  show ?thesis
    unfolding Let_def
    by (rule exI [of _ s'], rule exI [of _ ans])
      (use put_dispatches [OF assms(3,10), of E tid par val] r rd in \<open>simp add: not_less\<close>)
qed

text \<open>A full node of twelve records behind the demonstration state's first one, and an allocator with a
  fresh page for the thread.\<close>

definition demo_keys :: "byte_t list" where
  "demo_keys = [5, 7, 8, 9, 10, 11, 12, 13, 14, 15, 16, 17]"

definition full_n :: "skip_node" where
  "full_n = demo_n\<lparr>sn_type := 12\<rparr>"

definition pair_mem :: "byte_t list \<Rightarrow> u32 \<Rightarrow> memory" where
  "pair_mem ks t = write_rem (write_rem (\<lambda>_. 0) 0x1000 (encode_node (demo_node [1] 10))) 0x2000 (encode_node (demo_node ks t))"

definition full_mem :: memory where
  "full_mem = pair_mem demo_keys 12"

definition one_page :: cn_allocator where
  "one_page = cn_allocator_init\<lparr>pm_store := [\<lparr>desc = desc_clear, page_id = 0, page_base = 0x10000\<rparr>], thread_info := [7 \<mapsto> [0]]\<rparr>"

definition full_state :: "sim cn" where
  "full_state = demo_state\<lparr>slist := upd_node demo_list 3 full_n, calloc := one_page,
     net := \<lparr>lbuf = replicate 8192 0, wire = \<lparr>sim_mem = full_mem, sim_out = []\<rparr>\<rparr>\<rparr>"

lemma one_page_allocates: "\<exists>al. cna_allocate 7 560 one_page = Inr (0x10000, al)"
proof -
  have "high_bit 35 = 5" by (simp add: high_bit.simps)
  then show ?thesis
    by (simp add: cna_allocate_def one_page_def MEMORY_PAGE_SIZE_def cn_allocator_init_def get_class_def pg_available_def desc_clear_def
        group_allocate_def desc_initialize_def pm_allocate_def Let_def class_table_def class_size_def allocation_class_size_map_def offset_by_def rd_def)
qed

lemma pair_nodes:
  assumes "length ks \<le> 16"
  shows "node_in (pair_mem ks t) 0x2000 = demo_node ks t" "node_in (pair_mem ks t) 0x1000 = demo_node [1] 10"
proof -
  have k: "length [1::byte_t] \<le> 16" by simp
  have l: "length (encode_node (demo_node xs t)) = 560" if "length xs \<le> 16" for xs t
    by (simp add: length_encode_node demo_shape [OF that])
  have p: "get_as 0x2000 = 0x2000" "get_as 0x1000 = 0x1000" by (simp_all add: get_as_def)
  have r: "read_rem (write_rem m a (encode_node (demo_node xs t))) a 560 = encode_node (demo_node xs t)" if "length xs \<le> 16" for m a xs t
    using read_write_rem [of "encode_node (demo_node xs t)" 560 m a] l [OF that] by simp
  show "node_in (pair_mem ks t) 0x2000 = demo_node ks t"
    unfolding node_in_def pair_mem_def p sizeof16_def r [OF assms] by (rule decode_encode_node) (rule demo_shape [OF assms])
  have o: "read_rem (pair_mem ks t) 0x1000 560 = read_rem (write_rem (\<lambda>_. 0) 0x1000 (encode_node (demo_node [1] 10))) 0x1000 560"
    unfolding pair_mem_def by (rule read_rem_other) (unfold l [OF assms], rule apart_nodes(1))
  show "node_in (pair_mem ks t) 0x1000 = demo_node [1] 10"
    unfolding node_in_def p sizeof16_def o r [OF k] by (rule decode_encode_node) (rule demo_shape [OF k])
qed

lemma full_nodes: "node_in full_mem 0x2000 = demo_node demo_keys 12" "node_in full_mem 0x1000 = demo_node [1] 10"
  using pair_nodes [of demo_keys 12] by (simp_all add: demo_keys_def full_mem_def)

text \<open>A node of the demonstration state is away from the fresh page.\<close>

lemma apart_page:
  assumes "len \<le> 560" "d < 4096" "len' \<le> 4096"
  shows "apart len 0x1000 (0x10000 + of_nat d) len'"
proof -
  have "len' \<le> unat ((0x1000 :: u64) + of_nat i - (0x10000 + of_nat d))" if "i < len" for i
  proof -
    have "(0x1000 :: u64) + of_nat i - (0x10000 + of_nat d) = of_nat (18446744073709490176 - d + i)"
      using assms(2) by (simp add: of_nat_diff)
    moreover have "18446744073709490176 - d + i < 2 ^ 64" using that assms(1) by simp
    ultimately show ?thesis using assms(2,3) by (simp only: unat_of_nat) simp
  qed
  then show ?thesis by (simp add: apart_def list_all_iff)
qed

lemma full_fields [simp]:
  "slist full_state = upd_node demo_list 3 full_n" "remote_put full_state" "cctx full_state 7 = Some new_conc_ctx" "calloc full_state = one_page"
  "snd (sim_settled (net full_state)) = full_mem" "usable sim_connected (\<lambda>n. sim_out (wire n)) 7 full_state"
  using demo_usable by (simp_all add: full_state_def sim_settled_def usable_def)

lemma full_reaches: "get_node p = 0 \<Longrightarrow> reaches (\<lambda>a n. True) 7 full_state p sz"
  using demo_reaches [of p sz] by (simp add: full_state_def reaches_def)

lemma full_n_simps [simp]: "ctx full_n = None" "backward full_n = Some 2" "data_node full_n = 0x2000" "sn_type full_n = 12" "anchor full_n = b16 5"
  by (simp_all add: full_n_def)

lemma full_search: "fuzzy_search (b16 6) (slist full_state) = Some (Inr (Some 3))"
  using same_routes_search [OF same_routes_upd [of demo_list 3 demo_n full_n], of "b16 6"] by (simp add: full_n_def)

lemma full_growable: "growable full_mem full_n demo_nb (b16 6) 3"
proof -
  have k: "length demo_keys = 12" "distinct demo_keys" by (simp_all add: demo_keys_def)
  note d = demo_simps [of demo_keys 12] demo_node_inv [of demo_keys 12 12]
  have "node_map (demo_node demo_keys 12) (b16 6) = None"
    using d(5) k(1) by (simp add: node_map_def map_of_eq_None_iff demo_keys_def image_iff)
  then show ?thesis
    using d k demo_node_inv [of "[1]" 10 10] demo_simps [of "[1]" 10] cap_type_num(1,2)
    by (simp add: growable_def may_grow_def full_nodes room_def)
qed

lemma full_winnable: "winnable (\<lambda>a n. True) 7 full_state 3 full_n demo_nb"
  by (simp add: winnable_def full_reaches)

lemma b16_eq: "b16 x = b16 y \<longleftrightarrow> x = y"
  using b16_less [of x y] b16_less [of y x] by (metis less_irrefl neq_iff)

lemma put_grows_full_node_witness:
  "\<exists>s' s''. put (demo_env (enqueue 7 [new_request 3 (b16 20) (b16 2), new_request 4 (b16 2) (b16 2)]) (\<lambda>_. 0)) 7 False (b16 6) (b16 8) full_state =
      Some (Inr (True, s')) \<and>
    get (demo_env (enqueue 7 [new_request 3 (b16 20) (b16 2), new_request 4 (b16 2) (b16 2)]) (\<lambda>_. 0)) 7 (b16 6) s' = Some (Inr (Some (b16 8), s''))"
proof -
  let ?q = "[new_request 3 (b16 20) (b16 2), new_request 4 (b16 2) (b16 2)]"
  let ?E = "demo_env (enqueue 7 ?q) (\<lambda>_. 0) :: sim env"
  obtain al where al: "cna_allocate 7 560 (calloc full_state) = Inr (0x10000, al)" using one_page_allocates by auto
  have q: "list_all wide_request ?q" by (simp add: wide_request_def new_request_def)
  have r: "\<not> is_nullptr 0x10000" "reaches (\<lambda>a n. True) 7 full_state 0x10000 560" "get_as 0x10000 = 0x10000" "get_as 0x1000 = 0x1000"
    by (simp_all add: is_nullptr_def get_as_def full_reaches get_node_def)
  have ap: "apart (sizeof_node (sn_type demo_nb)) (get_as (data_node demo_nb)) (get_as 0x10000) 560"
  proof -
    have "sizeof_node 10 = 368" by (simp add: sizeof_node_def enumerator_def sizeof_linked_node_def)
    then show ?thesis using apart_page [of 368 0 560] by (simp add: r)
  qed
  have g: "growable (snd (sim_settled (net full_state))) full_n demo_nb (b16 6) (length ?q + 1)" using full_growable by (simp add: eval_nat_numeral)
  have e: "vb ?E = sim_verbs" "others ?E = enqueue 7 ?q" "wide (b16 6)" "wide (b16 8)" by simp_all
  note t = put_grows_full_node [OF simulated.rdma_fabric_axioms full_fields(6,2,3) e(1,2) q e(3,4) full_search full_winnable g al r(1,2) ap,
      where par = False, unfolded Let_def]
  obtain s' ans where s': "put ?E 7 False (b16 6) (b16 8) full_state = Some (Inr (True, s'))" "mset (map body ans) = mset (map body ?q)"
    "node_map (node_in (snd (sim_settled (net s'))) 0x10000) = map_of (filter (\<lambda>(k, _). anchor full_n \<le> k) (map body ans)) ++
         (node_map (node_in (snd (sim_settled (net full_state))) (data_node full_n)))(b16 6 \<mapsto> b16 8)"
    "\<forall>key'. wide key' \<and> fuzzy_search key' (slist full_state) = Some (Inr (Some 3)) \<longrightarrow>
          (\<exists>s''. get ?E 7 key' s' = Some (Inr (node_map (node_in (snd (sim_settled (net s'))) 0x10000) key', s'')))"
    using t by (elim exE conjE) (rule that)
  have "set (map body ans) = set (map body ?q)" using s'(2) by (rule mset_eq_setD)
  then have "fst ` set (map body ans) = {b16 20, b16 2}" by (simp only: list.map set_simps) (simp add: body_def new_request_def)
  moreover have "b16 6 \<notin> {b16 20, b16 2}" by (simp add: b16_eq)
  moreover have "fst ` set (filter (\<lambda>(k, _). anchor full_n \<le> k) (map body ans)) \<subseteq> fst ` set (map body ans)"
    by (intro image_mono filter_is_subset)
  ultimately have "map_of (filter (\<lambda>(k, _). anchor full_n \<le> k) (map body ans)) (b16 6) = None"
    unfolding map_of_eq_None_iff by blast
  then have "node_map (node_in (snd (sim_settled (net s'))) 0x10000) (b16 6) = Some (b16 8)"
    unfolding s'(3) by (simp add: map_add_def)
  then show ?thesis using s'(1) s'(4) [rule_format, OF conjI, OF e(3) full_search] by metis
qed

end
