(* ===== verification/SplitRun.thy ===== *)
theory SplitRun
  imports GrowProps SearchIndex
begin

text \<open>
  Lemmas for an insertion that splits its node: the run of \<open>write_back_splitted\<close> and of the branch of
  \<open>put16\<close> around it inside the contract \<open>rdma_fabric\<close>, the entry of the right part in the search
  layer, and how keys are routed afterwards.
\<close>

subsection \<open>Writing both parts back\<close>

context rdma_fabric
begin

lemma write_back_splitted_run:
  fixes s :: "'w cn"
  assumes u: "usable connected outstanding tid s" and E: "vb E = V"
    and d: "deref (slist s) (Some d) = Inr n" "backward n = Some b" "b \<noteq> d" "deref (slist s) (Some b) = Inr nb"
    and N: "NL \<le> 16" "NR \<le> 16"
    and a: "cna_allocate tid (sizeof_linked_node 16 NL) (calloc s) = Inr (l, a1)" "\<not> is_nullptr l"
      "cna_allocate tid (sizeof_linked_node 16 NR) a1 = Inr (r, a2)" "\<not> is_nullptr r"
    and r: "reaches registered tid s l (sizeof_linked_node 16 NL)" "registered (get_as r) (sizeof_linked_node 16 NR)"
      "registered (get_as (data_node nb)) (sizeof_node (ntype (view 0 (lbuf (net s)))))"
  shows "\<exists>n'. write_back_splitted E tid NL NR d 0 s = Some (Inr (r, s\<lparr>calloc := a2, slist := upd_node (slist s) d (n\<lparr>data_node := l\<rparr>), net := n'\<rparr>)) \<and>
    outstanding n' = [] \<and> length (lbuf n') = 8192 \<and> view 0 (lbuf n') = (view 0 (lbuf (net s)))\<lparr>rlink := l\<rparr> \<and>
    view 560 (lbuf n') = (view 560 (lbuf (net s)))\<lparr>rlink := r\<rparr> \<and>
    view 1120 (lbuf n') = (view 1120 (lbuf (net s)))\<lparr>rlink := rlink (view 560 (lbuf (net s)))\<rparr> \<and>
    snd (settled n') = write_rem (write_rem
        (write_rem (snd (settled (net s))) (get_as (data_node nb)) (take (sizeof_node (ntype (view 0 (lbuf (net s))))) (lbuf n')))
        (get_as l) (take (sizeof_linked_node 16 NL) (drop 560 (lbuf n'))))
      (get_as r) (take (sizeof_linked_node 16 NR) (drop 1120 (lbuf n')))"
proof -
  let ?b = "lbuf (net s)" and ?LL = "sizeof_linked_node 16 NL" and ?LR = "sizeof_linked_node 16 NR"
  let ?p = "view 0 ?b" and ?l = "view 560 ?b" and ?r = "view 1120 ?b"
  let ?lp = "sizeof_node (ntype ?p)"
  let ?b1 = "put_view 0 (?p\<lparr>rlink := l\<rparr>) ?b"
  let ?b2 = "put_view 1120 (?r\<lparr>rlink := rlink ?l\<rparr>) ?b1"
  let ?b3 = "put_view 560 (?l\<lparr>rlink := r\<rparr>) ?b2"
  obtain xs where xs: "rdma_ctxs (rm s) tid = Some xs" "get_node l < length xs" "registered (get_as l) ?LL"
    and cs: "list_all connected xs" "outstanding (net s) = []" "length ?b = 8192"
    using u r(1) by (auto simp: usable_def reaches_def)
  define x where "x = xs ! get_node l"
  have x: "connected x" using cs(1) xs(2) by (simp add: list_all_length x_def)
  have gx: "res_bind (get_rdma (rm s) tid l) non_null = Inr x" using xs by (simp add: get_rdma_def non_null_def x_def)
  have sh: "node_shape (?p\<lparr>rlink := l\<rparr>)" "node_shape (?r\<lparr>rlink := rlink ?l\<rparr>)" "node_shape (?l\<lparr>rlink := r\<rparr>)"
    using view_shape [of 0 ?b] view_shape [of 560 ?b] view_shape [of 1120 ?b] cs(3) by (simp_all add: node_shape_def)
  have lb: "length ?b1 = 8192" "length ?b2 = 8192" "length ?b3 = 8192" using sh cs(3) by (simp_all add: put_view_length)
  have v: "view 560 ?b1 = ?l" "view 1120 ?b1 = ?r" "view 0 ?b2 = ?p\<lparr>rlink := l\<rparr>" "view 560 ?b2 = ?l"
    "view 0 ?b3 = ?p\<lparr>rlink := l\<rparr>" "view 560 ?b3 = ?l\<lparr>rlink := r\<rparr>" "view 1120 ?b3 = ?r\<lparr>rlink := rlink ?l\<rparr>"
    using cs(3) lb sh by (simp_all add: view_put_other)
  let ?n = "(net s)\<lparr>lbuf := ?b3\<rparr>"
  have q: "outstanding ?n = []" "snd (settled ?n) = snd (settled (net s))" using cpu_write [OF cs(2), of ?b3] by simp_all
  have le: "0 + ?lp \<le> 8192" "560 + ?LL \<le> 8192" "1120 + ?LR \<le> 8192"
    using sizeof_node_le [of "ntype ?p"] N by (simp_all add: sizeof_linked_node_def)
  let ?wp = "chain_request x 0 ?lp 0 (get_as (data_node nb)) False" and ?wl = "chain_request x 1 ?LL 560 (get_as l) False"
    and ?wr = "chain_request x 2 ?LR 1120 (get_as r) True"
  let ?m = "write_rem (write_rem (write_rem (snd (settled (net s))) (get_as (data_node nb)) (take ?lp ?b3))
      (get_as l) (take ?LL (drop 560 ?b3))) (get_as r) (take ?LR (drop 1120 ?b3))"
  have f: "fold (apply_wr base) [?wp, ?wl, ?wr] (lbuf ?n, snd (settled ?n)) = (lbuf ?n, ?m)"
    using apply_chain [OF x le(1)] apply_chain [OF x le(2)] apply_chain [OF x le(3)] q(2) by simp
  have ok: "list_all (wr_ok base registered x 8192) [?wp, ?wl, ?wr]"
    using chain_ok [OF x le(1) r(3)] chain_ok [OF x le(2) xs(3)] chain_ok [OF x le(3) r(2)] by simp
  have ls: "last_signaled [?wp, ?wl, ?wr]" "length [?wp, ?wl, ?wr] \<le> MAX_QP_DEPTH" "length (lbuf ?n) = 8192"
    using lb by (simp_all add: last_signaled_def MAX_QP_DEPTH_def)
  obtain n1 n2 k where p: "post_batch_write V x [?wp, ?wl, ?wr] ?n = ((status.Ok, 0), n1)" "poll_one_completion V x True n1 = Some ((False, k), n2)"
    and n2: "outstanding n2 = []" "lbuf n2 = lbuf ?n" "snd (settled n2) = ?m"
    by (rule post_chain_run [OF x q(1) ls(3,1,2) ok f])
  let ?k = "\<lambda>x. st_bind (on_net (st_post (\<lambda>w. Inr (post_batch_write V x [?wp, ?wl, ?wr] w)))) (\<lambda>_.
      st_bind (on_net (st_poll V x)) (\<lambda>(wc, _). if wc then st_ret 0
      else st_bind (set_node (Some d) (\<lambda>n. n\<lparr>data_node := l\<rparr>)) (\<lambda>_. st_ret r)))"
  have "write_back_splitted E tid NL NR d 0 s = ?k x (s\<lparr>calloc := a2, net := ?n\<rparr>)"
    using d a E gx v
    by (simp add: write_back_splitted_def step_simps sizeof16_def Let_def chain_request_generated chain_request_unsignaled)
  also have "\<dots> = Some (Inr (r, s\<lparr>calloc := a2, slist := upd_node (slist s) d (n\<lparr>data_node := l\<rparr>), net := n2\<rparr>))"
    using d p by (simp add: step_simps) (simp add: st_ret_def)
  finally show ?thesis using n2 lb v by (intro exI [of _ n2]) simp
qed

end

subsection \<open>The entry of the right part\<close>

text \<open>What \<open>async_update\<close> makes of the list: the new node behind \<open>d\<close> at the bottom level.\<close>

definition entered :: "skiplist \<Rightarrow> nat \<Rightarrow> skip_node \<Rightarrow> nat \<Rightarrow> bytes \<Rightarrow> u32 \<Rightarrow> remote_ptr \<Rightarrow> skiplist" where
  "entered sl d n level k t r = upd_node (upd_node (sl\<lparr>brk := brk sl + 1\<rparr>) (brk sl)
     (make_skip_node level k r t (hd (forwards n)) (Some d))) d (n\<lparr>forwards := (forwards n)[0 := Some (brk sl)]\<rparr>)"

definition queued :: "(nat \<times> nat) list \<Rightarrow> nat \<Rightarrow> nat \<Rightarrow> (nat \<times> nat) list" where
  "queued q level a = (if level = 1 then q else q @ [(level, a)])"

lemma async_update_eq:
  assumes "deref sl (Some d) = Inr n" "forwards n \<noteq> []" "d \<noteq> brk sl" "random_level dr = Some level"
  shows "async_update dr d k t r (sl, q) = Some (Inr (entered sl d n level k t r, queued q level (brk sl)))"
proof -
  obtain f fs where f: "forwards n = f # fs" using assms(2) by (cases "forwards n") auto
  have h: "heap sl d = Some n" using assms(1) by (auto simp: deref_def split: option.splits)
  show ?thesis
    using assms(3,4) h f
    by (simp add: async_update_def make_new_node_def get_forward_def set_forward_def set_backward_def modify_def deref_def make_skip_node_def
        entered_def queued_def upd_node_def rd_def wr_def fun_upd_twist)
qed

context rdma_fabric
begin

text \<open>The branch of \<open>put12\<close>, \<open>put14\<close> and \<open>put16\<close> that splits.\<close>

lemma split_branch_run:
  fixes s :: "'w cn"
  assumes u: "usable connected outstanding tid s" and E: "vb E = V" and c: "cctx s tid = Some c" "user_context c = Some 0"
    and d: "deref (slist s) (Some d) = Inr n" "backward n = Some b" "b \<noteq> d" "deref (slist s) (Some b) = Inr nb"
    and sp: "out_of_place_split_node (anchor n) (view 0 (lbuf (net s))) (view 560 (lbuf (net s))) (view 1120 (lbuf (net s))) (junk E)
        (requests c) left_cap key val False = Inr (pred', left, right, k, ans, [])"
      "node_shape pred'" "node_shape left" "node_shape right"
    and N: "NL \<le> 16" "NR \<le> 16"
    and a: "cna_allocate tid (sizeof_linked_node 16 NL) (calloc s) = Inr (l, a1)" "\<not> is_nullptr l"
      "cna_allocate tid (sizeof_linked_node 16 NR) a1 = Inr (r, a2)" "\<not> is_nullptr r"
    and r: "reaches registered tid s l (sizeof_linked_node 16 NL)" "registered (get_as r) (sizeof_linked_node 16 NR)"
      "registered (get_as (data_node nb)) (sizeof_node (ntype pred'))"
    and f: "forwards n \<noteq> []" "d \<noteq> brk (slist s)" "random_level (draws E (brk (slist s))) = Some level"
  shows "\<exists>n'. split_branch E tid d left_cap tyl tyr NL NR key val False s = Some (Inr (True,
      s\<lparr>answers := answers s ++ map_of (map (\<lambda>r. (rid r, r)) ans), cctx := (cctx s)(tid \<mapsto> c\<lparr>requests := []\<rparr>), calloc := a2,
        slist := entered (slist s) d (n\<lparr>data_node := l, sn_type := type_num tyl\<rparr>) level k (type_num tyr) r,
        update_queue := queued (update_queue s) level (brk (slist s)), net := n'\<rparr>)) \<and>
    outstanding n' = [] \<and> length (lbuf n') = 8192 \<and> view 0 (lbuf n') = pred'\<lparr>rlink := l\<rparr> \<and>
    view 560 (lbuf n') = left\<lparr>ntype := type_num tyl, crc := crc_validate (crcer E) left (type_num tyl), rlink := r\<rparr> \<and>
    view 1120 (lbuf n') = right\<lparr>ntype := type_num tyr, crc := crc_validate (crcer E) right (type_num tyr), rlink := rlink left\<rparr> \<and>
    snd (settled n') = write_rem (write_rem
        (write_rem (snd (settled (net s))) (get_as (data_node nb)) (take (sizeof_node (ntype pred')) (lbuf n')))
        (get_as l) (take (sizeof_linked_node 16 NL) (drop 560 (lbuf n'))))
      (get_as r) (take (sizeof_linked_node 16 NR) (drop 1120 (lbuf n')))"
proof -
  let ?b = "lbuf (net s)"
  let ?l3 = "left\<lparr>ntype := type_num tyl, crc := crc_validate (crcer E) left (type_num tyl)\<rparr>"
  let ?r3 = "right\<lparr>ntype := type_num tyr, crc := crc_validate (crcer E) right (type_num tyr)\<rparr>"
  let ?b1 = "put_view 0 pred' ?b"
  let ?b2 = "put_view 560 ?l3 ?b1"
  let ?b3 = "put_view 1120 ?r3 ?b2"
  let ?s = "s\<lparr>answers := answers s ++ map_of (map (\<lambda>r. (rid r, r)) ans),
    cctx := (cctx s)(tid \<mapsto> c\<lparr>requests := []\<rparr>), net := (net s)\<lparr>lbuf := ?b3\<rparr>\<rparr>"
  have l: "length ?b = 8192" "outstanding (net s) = []" using u by (simp_all add: usable_def)
  have sh: "node_shape ?l3" "node_shape ?r3" using sp(3,4) by (simp_all add: node_shape_def)
  have l1: "length ?b1 = 8192" "length ?b2 = 8192" "length ?b3 = 8192" using l sp(2) sh by (simp_all add: put_view_length)
  have v: "view 0 ?b3 = pred'" "view 560 ?b3 = ?l3" "view 1120 ?b3 = ?r3" using l l1 sp(2) sh by (simp_all add: view_put_other)
  note w = cpu_write [OF l(2), of ?b3]
  have u': "usable connected outstanding tid ?s" using u w l1 by (simp add: usable_def)
  have d': "deref (slist ?s) (Some d) = Inr n" "deref (slist ?s) (Some b) = Inr nb" using d by simp_all
  have a': "cna_allocate tid (sizeof_linked_node 16 NL) (calloc ?s) = Inr (l, a1)" using a(1) by simp
  have r': "reaches registered tid ?s l (sizeof_linked_node 16 NL)"
    "registered (get_as (data_node nb)) (sizeof_node (ntype (view 0 (lbuf (net ?s)))))"
    using r(1,3) v(1) by (simp_all add: reaches_def)
  obtain n' where f': "write_back_splitted E tid NL NR d 0 ?s =
      Some (Inr (r, ?s\<lparr>calloc := a2, slist := upd_node (slist ?s) d (n\<lparr>data_node := l\<rparr>), net := n'\<rparr>))"
    and n': "outstanding n' = []" "length (lbuf n') = 8192" "view 0 (lbuf n') = (view 0 (lbuf (net ?s)))\<lparr>rlink := l\<rparr>"
      "view 560 (lbuf n') = (view 560 (lbuf (net ?s)))\<lparr>rlink := r\<rparr>"
      "view 1120 (lbuf n') = (view 1120 (lbuf (net ?s)))\<lparr>rlink := rlink (view 560 (lbuf (net ?s)))\<rparr>"
      "snd (settled n') = write_rem (write_rem
        (write_rem (snd (settled (net ?s))) (get_as (data_node nb)) (take (sizeof_node (ntype (view 0 (lbuf (net ?s))))) (lbuf n')))
        (get_as l) (take (sizeof_linked_node 16 NL) (drop 560 (lbuf n'))))
      (get_as r) (take (sizeof_linked_node 16 NR) (drop 1120 (lbuf n')))"
    using write_back_splitted_run [OF u' E d'(1) d(2,3) d'(2) N a' a(2-4) r'(1) r(2) r'(2)] by blast
  let ?t = "s\<lparr>answers := answers s ++ map_of (map (\<lambda>r. (rid r, r)) ans), cctx := (cctx s)(tid \<mapsto> c\<lparr>requests := []\<rparr>), calloc := a2,
    slist := upd_node (slist s) d (n\<lparr>data_node := l\<rparr>), net := n'\<rparr>"
  have ft: "write_back_splitted E tid NL NR d 0 ?s = Some (Inr (r, ?t))" using f' by simp
  let ?sl = "entered (slist s) d (n\<lparr>data_node := l, sn_type := type_num tyl\<rparr>) level k (type_num tyr) r"
  let ?k = "\<lambda>r. st_bind (if is_nullptr r then st_ret False
              else st_bind (async_insert E d k (type_num tyr) r) (\<lambda>_. st_ret True)) (\<lambda>ret.
     st_bind (set_node (Some d) (\<lambda>n. n\<lparr>sn_type := type_num tyl\<rparr>)) (\<lambda>_. st_ret ret))"
  have up: "upd_node (slist s) d (n\<lparr>data_node := l\<rparr>)\<lparr>brk := x\<rparr> = upd_node (slist s\<lparr>brk := x\<rparr>) d (n\<lparr>data_node := l\<rparr>)"
    "brk (upd_node (slist s) d (n\<lparr>data_node := l\<rparr>)) = brk (slist s)" for x
    by (simp_all add: upd_node_def)
  let ?sl1 = "entered (upd_node (slist s) d (n\<lparr>data_node := l\<rparr>)) d (n\<lparr>data_node := l\<rparr>) level k (type_num tyr) r"
  have as: "async_insert E d k (type_num tyr) r ?t = Some (Inr ((), ?t\<lparr>slist := ?sl1, update_queue := queued (update_queue s) level (brk (slist s))\<rparr>))"
    using async_update_eq [of "upd_node (slist s) d (n\<lparr>data_node := l\<rparr>)" d "n\<lparr>data_node := l\<rparr>" "draws E (brk (slist s))" level k "type_num tyr" r "update_queue s"] f
    by (simp add: async_insert_def up)
  have dr: "deref ?sl1 (Some d) = Inr (n\<lparr>data_node := l, forwards := (forwards n)[0 := Some (brk (slist s))]\<rparr>)"
    by (simp add: entered_def up)
  have fin: "upd_node ?sl1 d (n\<lparr>data_node := l, forwards := (forwards n)[0 := Some (brk (slist s))], sn_type := type_num tyl\<rparr>) = ?sl"
  proof -
    have sw: "n\<lparr>data_node := l, forwards := (forwards n)[0 := Some (brk (slist s))], sn_type := type_num tyl\<rparr> =
        n\<lparr>data_node := l, sn_type := type_num tyl, forwards := (forwards n)[0 := Some (brk (slist s))]\<rparr>" by simp
    show ?thesis unfolding sw using f(2) by (simp add: entered_def up upd_node_def fun_upd_twist)
  qed
  have "split_branch E tid d left_cap tyl tyr NL NR key val False s = st_bind (write_back_splitted E tid NL NR d 0) ?k ?s"
    using c d(1) sp v by (simp add: split_branch_def step_simps non_null_def sizeof16_def del: type_num.simps)
  also have "\<dots> = ?k r ?t" by (rule st_bind_Inr [of "write_back_splitted E tid NL NR d 0", OF ft])
  also have "\<dots> = Some (Inr (True, ?t\<lparr>slist := ?sl, update_queue := queued (update_queue s) level (brk (slist s))\<rparr>))"
    using a(4) dr fin by (simp add: st_bind_assoc st_bind_Inr [of "async_insert E d k (type_num tyr) r", OF as] step_simps del: type_num.simps) (simp add: st_ret_def)
  finally have e: "split_branch E tid d left_cap tyl tyr NL NR key val False s =
    Some (Inr (True, ?t\<lparr>slist := ?sl, update_queue := queued (update_queue s) level (brk (slist s))\<rparr>))" .
  have m: "snd (settled n') = write_rem (write_rem
        (write_rem (snd (settled (net s))) (get_as (data_node nb)) (take (sizeof_node (ntype pred')) (lbuf n')))
        (get_as l) (take (sizeof_linked_node 16 NL) (drop 560 (lbuf n'))))
      (get_as r) (take (sizeof_linked_node 16 NR) (drop 1120 (lbuf n')))"
    using n'(6) w v(1) by simp
  show ?thesis
    by (rule exI [of _ n'], intro conjI n'(1,2) m) (use e n'(3-5) v in simp_all)
qed

end

subsection \<open>Routing afterwards\<close>

text \<open>Keys that reached \<open>d\<close> reach it still when they are below the new anchor, and the new node from
  there on.\<close>

lemma pred_after_insert:
  assumes inv: "sl_inv sl xs hgt" and new: "k \<notin> akey sl ` set xs" and d: "pred_of sl xs k = d" "pred_of sl xs key = d"
    and a: "a \<notin> set xs" "akey sl' a = k" "\<And>b. b \<noteq> a \<Longrightarrow> akey sl' b = akey sl b" "head sl' = head sl"
  shows "pred_of sl' (xs_insert sl k a xs) key = (if key < k then d else a)"
proof -
  let ?A = "filter (below sl k) xs" and ?B = "filter (\<lambda>b. \<not> below sl k b) xs"
  have xs: "xs = ?A @ ?B" by (rule sorted_split [OF sl_sorted [OF inv]])
  have dist: "distinct (head sl # xs)" using inv by (simp add: sl_inv_def)
  have bA: "akey sl x < k" if "x \<in> set ?A" for x using that by (simp add: below_def)
  have bB: "k < akey sl x" if "x \<in> set ?B" for x
  proof -
    have "k \<le> akey sl x" "akey sl x \<noteq> k" using that new by (auto simp: below_def)
    then show ?thesis by simp
  qed
  have fx: "filter P xs = filter P ?A @ filter P ?B" for P using xs filter_append [of P ?A ?B] by simp
  have ak: "akey sl' x = akey sl x" if "x \<in> set xs" for x using that a(1,3) by metis
  have e: "filter (\<lambda>x. akey sl' x \<le> key) ?A = filter (\<lambda>x. akey sl x \<le> key) ?A" "filter (\<lambda>x. akey sl' x \<le> key) ?B = filter (\<lambda>x. akey sl x \<le> key) ?B"
    by (intro filter_cong refl; simp add: ak)+
  have p: "pred_of sl' (xs_insert sl k a xs) key =
      last (head sl # filter (\<lambda>x. akey sl x \<le> key) ?A @ (if k \<le> key then [a] else []) @ filter (\<lambda>x. akey sl x \<le> key) ?B)"
    unfolding pred_of_def xs_insert_def filter_append filter.simps e a(2,4) by (cases "k \<le> key") simp_all
  show ?thesis
  proof (cases "key < k")
    case True
    have n: "filter (\<lambda>x. akey sl x \<le> key) ?B = []"
      using bB True by (auto simp: filter_empty_conv) (meson less_trans not_le)
    have "pred_of sl' (xs_insert sl k a xs) key = pred_of sl xs key"
      unfolding p unfolding pred_of_def [of sl xs key] fx [of "\<lambda>x. akey sl x \<le> key"] n using True by (simp add: not_le [symmetric])
    with True d(2) show ?thesis by simp
  next
    case False
    have n: "filter (\<lambda>x. akey sl x \<le> key) ?B = []"
    proof (rule ccontr)
      assume ne: "filter (\<lambda>x. akey sl x \<le> key) ?B \<noteq> []"
      have "filter (\<lambda>x. akey sl x \<le> k) ?B = []" using bB by (auto simp: filter_empty_conv not_le)
      moreover have "filter (\<lambda>x. akey sl x \<le> k) ?A = ?A" using bA by (intro filter_True) (auto intro: less_imp_le)
      ultimately have dl: "d = last (head sl # ?A)"
        using d(1) unfolding pred_of_def fx [of "\<lambda>x. akey sl x \<le> k"] by simp
      have "last (head sl # ?A) \<in> set (head sl # ?A)" by (rule last_in_set) simp
      then have "d \<in> insert (head sl) (set ?A)" by (simp only: dl list.simps(15))
      moreover have db: "d = last (filter (\<lambda>x. akey sl x \<le> key) ?B)"
        using d(2) ne unfolding pred_of_def fx [of "\<lambda>x. akey sl x \<le> key"] by (simp del: filter_filter)
      have "d \<in> set (filter (\<lambda>x. akey sl x \<le> key) ?B)" unfolding db by (rule last_in_set [OF ne])
      then have "d \<in> set ?B" by simp
      ultimately show False using dist by auto
    qed
    have "k \<le> key" using False by simp
    with False show ?thesis unfolding p n by (simp only: if_True if_False) simp
  qed
qed

lemma entered_routes:
  assumes inv: "sl_inv sl xs hgt" "1 \<le> current_level sl" and new: "k \<notin> akey sl ` set xs" "pred_of sl xs k = d"
    and n: "deref sl (Some d) = Inr n" "anchor n' = anchor n" "forwards n' = forwards n" and lev: "random_level dr = Some level"
    and key: "fuzzy_search key sl = Some (Inr (Some d))"
  shows "fuzzy_search key (entered sl d n' level k t r) = Some (Inr (Some (if key < k then d else brk sl)))"
proof -
  have lb: "0 < level" "level \<le> 16" using random_level_bounds [OF lev] by simp_all
  obtain sl1 where s: "async_update dr d k t r (sl, []) = Some (Inr (sl1, if level = 1 then [] else [] @ [(level, brk sl)]))"
    "sl_inv sl1 (xs_insert sl k (brk sl) xs) (hgt(brk sl := 1))" "akey sl1 (brk sl) = k" "head sl1 = head sl" "brk sl \<notin> set xs"
    "\<And>b. b \<noteq> brk sl \<Longrightarrow> akey sl1 b = akey sl b"
    by (rule async_update_ok [OF inv(1) new(1) inv(2) lev lb new(2) [symmetric], of t r "[]"]) blast
  have pk: "pred_of sl xs key = d" using key fuzzy_search_pred [OF inv(1), of key] by simp
  have dx: "d = head sl \<or> d \<in> set xs"
    unfolding new(2) [symmetric] pred_of_def using last_in_set [of "head sl # filter (\<lambda>a. akey sl a \<le> k) xs"] by auto
  have dn: "d \<noteq> brk sl" "d \<in> dom (heap sl)" using sl_inv_dom [OF inv(1) dx] by auto
  have g: "get_forward sl (Some d) 0 = Inr (succ_of sl xs k)"
  proof -
    have "pos sl xs hgt k 0 = d"
    proof -
      have "filter (\<lambda>b. akey sl b \<le> k) xs = filter (below sl k) xs" using new(1) by (intro filter_cong) (auto simp: below_def le_less)
      then show ?thesis using new(2) by (simp add: pred_of_def pos_0 [OF inv(1)])
    qed
    then show ?thesis using pos_succ [OF inv(1), of 0 k] by (simp add: level_list_0 [OF inv(1)])
  qed
  then have fw: "forwards n \<noteq> []" using n(1) by (auto simp: get_forward_def rd_eq_Inr)
  have "sl1 = entered sl d n level k t r" using s(1) async_update_eq [OF n(1) fw dn(1) lev, of k t r "[]"] by simp
  then have sr: "same_routes sl1 (entered sl d n' level k t r)"
    using n(2,3) dn(1) by (auto simp: same_routes_def entered_def) (simp_all add: upd_node_def)
  show ?thesis
    unfolding same_routes_search [OF sr, symmetric] fuzzy_search_pred [OF s(2)]
    using pred_after_insert [OF inv(1) new pk s(5,3,6,4)] by simp
qed

end
