(* ===== verification/PutSplits.thy ===== *)
theory PutSplits
  imports SplitRun
begin

text \<open>
  An insertion whose node of sixteen slots is full, from \<open>put\<close> to the two parts in remote memory, the
  new entry of the search layer, and back through \<open>get\<close>.
\<close>

subsection \<open>The parts in the buffer\<close>

text \<open>What \<open>put16\<close> chooses for a number of pending records: the records of the left part and the two
  types.\<close>

definition split16 :: "nat \<Rightarrow> nat \<times> node_type \<times> node_type" where
  "split16 p = (if p \<le> 2 then (9, Type10, Type10) else if p \<le> 4 then (9, Type10, Type12) else (10, Type12, Type12))"

definition slots :: "node_type \<Rightarrow> nat" where
  "slots t = (case t of Type10 \<Rightarrow> 10 | Type12 \<Rightarrow> 12 | Type14 \<Rightarrow> 14 | Type16 \<Rightarrow> 16 | _ \<Rightarrow> 0)"

lemma split16_fits:
  assumes "split16 p = (lc, tyl, tyr)" "p \<le> 5"
  shows "lc \<le> slots tyl" "16 + p - lc \<le> slots tyr" "5 \<le> lc" "lc < 16" "cap (type_num tyl) = Some (slots tyl)"
    "cap (type_num tyr) = Some (slots tyr)" "slots tyl \<le> 16" "slots tyr \<le> 16"
  using assms by (auto simp: split16_def slots_def cap_type_num simp del: type_num.simps split: if_splits)

lemma put16_split:
  "(if p = 0 then st_ret True
    else if p \<le> 2 then split_branch E tid d 9 Type10 Type10 10 10 key val stored
    else if p \<le> 4 then split_branch E tid d 9 Type10 Type12 10 12 key val stored
    else split_branch E tid d 10 Type12 Type12 12 12 key val stored) =
   (if p = 0 then st_ret True
    else case split16 p of (lc, tyl, tyr) \<Rightarrow> split_branch E tid d lc tyl tyr (slots tyl) (slots tyr) key val stored)"
  by (simp add: split16_def slots_def)

lemma help_others_pred_shape:
  "help_others N anch pred rb q ans = Inr (pred', rb', ans', q') \<Longrightarrow> list_all wide_request q \<Longrightarrow> node_shape pred \<Longrightarrow> node_shape pred'"
proof (induction q arbitrary: pred rb ans)
  case (Cons r q)
  have w0: "wide_request r" and w3: "list_all wide_request q" using Cons.prems(2) by simp_all
  then have w: "wide (tag r)" "wide (content r)" "list_all wide_request q" by (simp_all only: wide_request_def)
  show ?case
  proof (cases "tag r < anch")
    case True
    with Cons.prems(1) obtain s p where "help_pred pred (tag r) (content r) = Inr (s, p)"
      "help_others N anch p rb q (ans @ [r\<lparr>succeed := s, retry := \<not> s, is_done := True\<rparr>]) = Inr (pred', rb', ans', q')"
      by (auto simp: res_bind_eq_Inr)
    with Cons.IH w Cons.prems(3) help_pred_shape show ?thesis by metis
  next
    case False
    with Cons.prems(1) obtain s b where b: "store_kv N (tag r) (content r) rb = Inr (s, b)"
      "(if \<not> s then Inr (pred, b, ans, q @ [r]) else help_others N anch pred b q
          (ans @ [r\<lparr>succeed := s, retry := False, is_done := True\<rparr>])) = Inr (pred', rb', ans', q')"
      by (auto simp: res_bind_eq_Inr)
    then show ?thesis using Cons.IH w Cons.prems(3) by (auto split: if_splits)
  qed
qed auto

lemma map_of_card: "finite (dom (map_of xs))" "card (dom (map_of xs)) \<le> length xs"
  using card_length [of "map fst xs"] by (simp_all add: finite_dom_map_of dom_map_of_conv_image_fst)

lemma node_inv_smaller: "node_inv 16 n \<Longrightarrow> unat (nxt n) \<le> N \<Longrightarrow> N \<le> 16 \<Longrightarrow> node_inv N n"
  by (simp add: node_inv_def)

text \<open>With at most four waiting threads both parts fit the types that \<open>put16\<close> gives them, and no request
  is left over.\<close>

lemma split_buffers:
  assumes inv: "node_inv 16 rb" "room 16 rb = 0" "node_shape rb" "node_shape right0" and j: "length jk = 5" "list_all kv_ok jk"
    and p: "typed_inv pred" "node_shape pred" and q: "list_all wide_request q" "length q \<le> 4"
    and k: "wide key" "wide val" "node_map rb key = None" and sp: "split16 (length q + 1) = (lc, tyl, tyr)"
  obtains pred' left right k ans t where
    "out_of_place_split_node anch pred rb right0 jk q lc key val False = Inr (pred', left, right, k, ans, [])"
    "node_shape pred'" "node_shape left" "node_shape right" "node_inv (slots tyl) left" "node_inv (slots tyr) right" "rlink left = rlink rb"
    "typed_inv pred'" "ntype pred' = ntype pred" "mset (map body ans) = mset (map body q)" "list_all (answered anch pred' t) ans"
    "node_map t = map_of (filter (\<lambda>(x, _). \<not> x < anch) (map body ans)) ++ (node_map rb)(key \<mapsto> val)"
    "node_map left = node_map t |` {x. x < k}" "node_map right = node_map t |` {x. k \<le> x}" "k \<in> dom (node_map t)"
    "\<exists>x\<in>dom (node_map t). x < k" "length k = 16"
proof -
  have p5: "length q + 1 \<le> 5" using q(2) by simp
  note sf = split16_fits [OF sp p5]
  have nx: "unat (nxt rb) = 16" by (rule node_inv_full [OF inv(1,2)])
  have lt: "lc < unat (nxt rb)" using sf(4) nx by simp
  obtain pred' l r k ans q' t1 t where o:
    "out_of_place_split_node anch pred rb right0 jk q lc key val False = Inr (pred', l, r, k, ans, q')"
    "help_others 21 anch pred t1 q [] = Inr (pred', t, ans, q')" "node_inv 16 l" "node_inv 16 r" "same_meta l rb" "same_meta r right0"
    "typed_inv pred'" "same_meta pred' pred" "mset (map body ans) + mset (map body q') = mset (map body q)"
    "list_all (answered anch pred' t) ans" "q' = [] \<or> room 21 t = 0" "node_inv 21 t"
    "node_map t = map_of (filter (\<lambda>(x, _). \<not> x < anch) (map body ans)) ++ (if False then Map.empty else [key \<mapsto> val]) ++ node_map rb"
    "node_map l = node_map t |` {x. x < k}" "node_map r = node_map t |` {x. k \<le> x}"
    "unat (nxt l) = lc" "unat (nxt l) + unat (nxt r) = unat (nxt t)" "k \<in> dom (node_map r)" "length k = 16"
    by (rule out_of_place_split_ok [OF inv(1) order_refl inv(3,4) j p(1) q(1) k(1,2) sf(3) lt, of anch False])
  have mt: "node_map t = map_of (filter (\<lambda>(x, _). \<not> x < anch) (map body ans)) ++ (node_map rb)(key \<mapsto> val)"
  proof -
    have "[key \<mapsto> val] ++ node_map rb = (node_map rb)(key \<mapsto> val)"
      using k(3) by (auto simp: fun_eq_iff map_add_def split: option.split)
    then show ?thesis by (simp only: o(13) if_False map_add_assoc [symmetric])
  qed
  have "size (mset (map body ans) + mset (map body q')) = size (mset (map body q))" by (simp only: o(9))
  then have la: "length ans + length q' = length q" by simp
  let ?a = "map_of (filter (\<lambda>(x, _). \<not> x < anch) (map body ans))"
  have "card (dom (node_map t)) \<le> card (dom ((node_map rb)(key \<mapsto> val))) + card (dom ?a)"
    unfolding mt dom_map_add by (rule card_Un_le)
  moreover have "card (dom ?a) \<le> length ans"
    by (rule order_trans [OF map_of_card(2)], rule order_trans [OF length_filter_le]) simp
  moreover have "card (dom ((node_map rb)(key \<mapsto> val))) \<le> 17"
    using node_dom_card [OF inv(1)] nx card_insert_le_m1 [of 17 "dom (node_map rb)" key] by simp
  ultimately have nt: "unat (nxt t) \<le> 17 + length ans" using node_dom_card [OF o(12)] by simp
  have q0: "q' = []"
  proof (rule ccontr)
    assume "q' \<noteq> []"
    with o(11) have "room 21 t = 0" by simp
    then have "unat (nxt t) = 21" by (rule node_inv_full [OF o(12)])
    moreover have "0 < length q'" using \<open>q' \<noteq> []\<close> by simp
    ultimately show False using nt la q(2) by linarith
  qed
  have "unat (nxt r) \<le> 16 + (length q + 1) - lc" using o(16,17) nt la by linarith
  then have nr: "unat (nxt r) \<le> slots tyr" using sf(2) by linarith
  have iv: "node_inv (slots tyl) l" "node_inv (slots tyr) r"
    using node_inv_smaller [OF o(3)] node_inv_smaller [OF o(4)] o(16) sf(1,7,8) nr by simp_all
  have sh: "node_shape l" "node_shape r"
    using o(3-6) inv(3,4) by (simp_all add: node_shape_def same_meta_def node_inv_def)
  have sp': "node_shape pred'" by (rule help_others_pred_shape [OF o(2) q(1) p(2)])
  have kd: "k \<in> dom (node_map t)" using o(18) unfolding o(15) by (simp add: domIff restrict_map_def split: if_splits)
  have "card (dom (node_map l)) = lc" using node_dom_card [OF o(3)] o(16) by simp
  then have "card (dom (node_map l)) \<noteq> 0" using sf(3) by simp
  then have "dom (node_map l) \<noteq> {}" by (metis card.empty)
  then have kl: "\<exists>x\<in>dom (node_map t). x < k" unfolding o(14) dom_restrict by blast
  show ?thesis
    by (rule that [OF o(1) [unfolded q0] sp' sh iv _ o(7) _ _ o(10) mt o(14,15) kd kl o(19)])
      (use o(5,8,9) q0 in \<open>simp_all add: same_meta_def\<close>)
qed

subsection \<open>The run\<close>

lemma dispatch_split:
  assumes "deref (slist s) (Some d) = Inr n" "sn_type n = type_num Type16" "0 < p" "split16 p = (lc, tyl, tyr)"
    and "drain_pending tid s = Some (Inr ((), s1))"
    and "try_win_for_insert E tid par d Insert s1 = Some (Inr ((True, Some tid), s2))"
    and "try_put_to_existing_node E tid 16 d key val s2 = Some (Inr ((False, p), s2))"
    and "split_branch E tid d lc tyl tyr (slots tyl) (slots tyr) key val False s2 = Some (Inr (True, s3))"
    and "leave tid d True s3 = Some (Inr ((True, False), s4))"
  shows "put_dispatcher E tid par (Some d) key val s = Some (Inr (True, s4))"
proof -
  note b = st_bind_Inr [of "drain_pending tid"] st_bind_Inr [of "try_win_for_insert E tid par d Insert"]
    st_bind_Inr [of "try_put_to_existing_node E tid 16 d key val"]
    st_bind_Inr [of "split_branch E tid d lc tyl tyr (slots tyl) (slots tyr) key val False"]
  have "put16 E tid par d key val s = Some (Inr ((True, False), s4))"
    using assms(3-9) unfolding put16_def put16_split by (simp add: b)
  then show ?thesis
    unfolding put_dispatcher.simps [of E tid par "Some d" key val s] node_at_bind [OF assms(1)]
    using assms(2) by (simp add: st_bind_Inr [of "put16 E tid par d key val"] del: type_num.simps) (simp add: st_ret_def)
qed

text \<open>Releasing both nodes of the list that was entered while they were held.\<close>

lemma entered_released:
  assumes "deref sl (Some d) = Inr n" "deref sl (Some b) = Inr nb" "b \<noteq> d" "brk sl \<notin> {d, b}"
  shows "upd_node (upd_node (entered (upd_node (upd_node sl d nd) b nb') d n1 level k t r) d (n2\<lparr>forwards := (forwards n1)[0 := Some (brk sl)]\<rparr>)) b nb =
    upd_node (upd_node (sl\<lparr>brk := brk sl + 1\<rparr>) (brk sl) (make_skip_node level k r t (hd (forwards n1)) (Some d))) d (n2\<lparr>forwards := (forwards n1)[0 := Some (brk sl)]\<rparr>)"
proof -
  have h: "heap sl b = Some nb" using assms(2) by (auto simp: deref_def split: option.splits)
  then show ?thesis using assms(3,4) by (simp add: entered_def upd_node_def) (simp add: fun_eq_iff)
qed

text \<open>What the two parts are in remote memory.\<close>

lemma written_parts:
  assumes "length buf = 8192" "cap t1 = Some NL" "cap t2 = Some NR" "cap tp = Some M"
    and "apart (sizeof_node tp) (get_as p) (get_as l) (sizeof_node t1)" "apart (sizeof_node tp) (get_as p) (get_as r) (sizeof_node t2)"
    and "apart (sizeof_node t1) (get_as l) (get_as r) (sizeof_node t2)"
    and m: "m = write_rem (write_rem (write_rem m0 (get_as p) (take (sizeof_node tp) buf)) (get_as l) (take (sizeof_node t1) (drop 560 buf)))
      (get_as r) (take (sizeof_node t2) (drop 1120 buf))"
  shows "agree M (node_in m p) (view 0 buf)" "agree NL (node_in m l) (view 560 buf)" "agree NR (node_in m r) (view 1120 buf)"
proof -
  note c = cap_size [OF assms(2)] cap_size [OF assms(3)] cap_size [OF assms(4)]
  have ln: "length (take (sizeof_node t1) (drop 560 buf)) = sizeof_node t1" "length (take (sizeof_node t2) (drop 1120 buf)) = sizeof_node t2"
    using assms(1) sizeof_node_le [of t1] sizeof_node_le [of t2] by simp_all
  let ?m1 = "write_rem m0 (get_as p) (take (sizeof_node tp) buf)"
  let ?m2 = "write_rem ?m1 (get_as l) (take (sizeof_node t1) (drop 560 buf))"
  show "agree NR (node_in m r) (view 1120 buf)"
    unfolding m using assms(1) c by (intro written_agrees) simp_all
  have "agree NL (node_in ?m2 l) (view 560 buf)" using assms(1) c by (intro written_agrees) simp_all
  moreover have "agree NL (node_in m l) (node_in ?m2 l)" unfolding m using assms(7) c ln by (intro node_in_other) simp_all
  ultimately show "agree NL (node_in m l) (view 560 buf)" by (rule agree_trans [rotated])
  have "agree M (node_in ?m2 p) (view 0 buf)" using assms(5) ln by (intro written_pred [OF assms(1,4)]) simp
  moreover have "agree M (node_in m p) (node_in ?m2 p)" unfolding m using assms(6) c ln by (intro node_in_other) simp_all
  ultimately show "agree M (node_in m p) (view 0 buf)" by (rule agree_trans [rotated])
qed

lemma sorted_last:
  assumes "sorted_wrt (\<lambda>a b. f a < (f b :: bytes)) ys" "y \<in> set ys"
  shows "f y \<le> f (last ys)"
proof -
  have e: "ys = butlast ys @ [last ys]" using assms(2) by (metis append_butlast_last_id empty_iff list.set(1))
  then have "sorted_wrt (\<lambda>a b. f a < f b) (butlast ys @ [last ys])" using assms(1) by metis
  then have "\<forall>x\<in>set (butlast ys). f x < f (last ys)" by (simp add: sorted_wrt_append)
  moreover have "y \<in> set (butlast ys) \<or> y = last ys" using assms(2) e by (metis Un_iff empty_iff insert_iff list.set set_append)
  ultimately show ?thesis by auto
qed

lemma crc_validate_meta: "crc_validate f (n\<lparr>ntype := a, crc := c, rlink := x\<rparr>) t = crc_validate f n t"
proof -
  have "pairs (n\<lparr>ntype := a, crc := c, rlink := x\<rparr>) = pairs n" by simp
  then show ?thesis unfolding crc_validate_def by (simp only:)
qed

text \<open>The new anchor is not an anchor yet, since a smaller key has the same predecessor.\<close>

lemma anchor_is_new:
  assumes inv: "sl_inv sl xs hgt" and p: "pred_of sl xs k = d" "pred_of sl xs x = d" "x < k"
  shows "k \<notin> akey sl ` set xs"
proof
  assume "k \<in> akey sl ` set xs"
  then obtain y where y: "y \<in> set xs" "akey sl y = k" by blast
  let ?F = "filter (\<lambda>a. akey sl a \<le> k) xs"
  have yF: "y \<in> set ?F" using y by simp
  then have ne: "?F \<noteq> []" by (metis empty_iff list.set(1))
  have dl: "d = last ?F" using p(1) ne by (simp add: pred_of_def)
  then have dF: "d \<in> set ?F" using last_in_set [OF ne] by simp
  have "akey sl y \<le> akey sl (last ?F)"
    by (rule sorted_last [OF sorted_wrt_filter [OF sl_sorted [OF inv]] yF])
  then have kd: "akey sl d = k" using dF y(2) dl by simp
  have hd: "d \<noteq> head sl" using dF inv by (auto simp: sl_inv_def)
  have "d \<in> set (head sl # filter (\<lambda>a. akey sl a \<le> x) xs)"
    unfolding p(2) [symmetric] pred_of_def by (rule last_in_set) simp
  then have "akey sl d \<le> x" using hd by auto
  with kd p(3) show False by simp
qed

lemma pred_forwards:
  assumes "sl_inv sl xs hgt" "pred_of sl xs k = d" "deref sl (Some d) = Inr n"
  shows "forwards n \<noteq> []"
proof -
  have "d \<in> set (head sl # filter (\<lambda>a. akey sl a \<le> k) xs)"
    unfolding assms(2) [symmetric] pred_of_def by (rule last_in_set) simp
  then have "d = head sl \<or> d \<in> set xs" by auto
  with linked_deref [of sl 0 "head sl" xs d] sl_linked [OF assms(1), of 0] level_list_0 [OF assms(1)] assms(3)
  show ?thesis by (auto simp: deref_def)
qed

text \<open>The chunks that the allocator hands out for the parts, where the thread can reach them.\<close>

definition two_chunks :: "(u64 \<Rightarrow> nat \<Rightarrow> bool) \<Rightarrow> nat \<Rightarrow> 'w cn \<Rightarrow> u32 \<Rightarrow> u32 \<Rightarrow> remote_ptr \<Rightarrow> remote_ptr \<Rightarrow> cn_allocator \<Rightarrow> bool" where
  "two_chunks reg tid s t1 t2 l r a2 \<longleftrightarrow>
     (\<exists>a1. cna_allocate tid (sizeof_node t1) (calloc s) = Inr (l, a1) \<and> cna_allocate tid (sizeof_node t2) a1 = Inr (r, a2)) \<and>
     \<not> is_nullptr l \<and> \<not> is_nullptr r \<and> reaches reg tid s l (sizeof_node t1) \<and> reaches reg tid s r (sizeof_node t2) \<and>
     reaches reg tid s l 560 \<and> reaches reg tid s r 560 \<and> apart (sizeof_node t1) (get_as l) (get_as r) (sizeof_node t2)"

context rdma_fabric
begin

lemma put_split_run:
  fixes s :: "'w cn"
  defines "mem \<equiv> snd (settled (net s))"
  assumes u: "usable connected outstanding tid s" and E: "vb E = V" "others E = enqueue tid q" and c: "cctx s tid = Some c"
    and d: "deref (slist s) (Some d) = Inr n" "ctx n = None" "backward n = Some b"
    and b: "b \<noteq> d" "deref (slist s) (Some b) = Inr nb" "ctx nb = None"
    and r: "reaches registered tid s (data_node nb) (sizeof_node (sn_type nb))"
      "reaches registered tid s (data_node n) (sizeof_node (sn_type n))"
    and t: "sn_type n = type_num Type16" "split16 (length q + 1) = (lc, tyl, tyr)"
    and k: "wide key" "wide val" "node_inv 16 (node_in mem (data_node n))" "node_map (node_in mem (data_node n)) key = None"
      "room 16 (node_in mem (data_node n)) = 0"
    and q: "list_all wide_request q" "length q \<le> 4" and j: "length (junk E) = 5" "list_all kv_ok (junk E)"
    and p: "cap (sn_type nb) = Some M" "ntype (node_in mem (data_node nb)) = sn_type nb" "node_inv M (node_in mem (data_node nb))"
    and a: "two_chunks registered tid s (type_num tyl) (type_num tyr) l rr a2"
      "apart (sizeof_node (sn_type nb)) (get_as (data_node nb)) (get_as l) (sizeof_node (type_num tyl))"
      "apart (sizeof_node (sn_type nb)) (get_as (data_node nb)) (get_as rr) (sizeof_node (type_num tyr))"
    and f: "forwards n \<noteq> []" "brk (slist s) \<notin> {d, b}" "random_level (draws E (brk (slist s))) = Some level"
  shows "\<exists>s' ans k full. put_dispatcher E tid par (Some d) key val s = Some (Inr (True, s')) \<and>
    slist s' = entered (slist s) d (n\<lparr>data_node := l, sn_type := type_num tyl\<rparr>) level k (type_num tyr) rr \<and>
    rm s' = rm s \<and> calloc s' = a2 \<and> usable connected outstanding tid s' \<and> cctx s' tid \<noteq> None \<and> remote_put s' = remote_put s \<and>
    update_queue s' = queued (update_queue s) level (brk (slist s)) \<and>
    answers s' = answers (drained tid c s) ++ map_of (map (\<lambda>r. (rid r, r)) ans) \<and> mset (map body ans) = mset (map body q) \<and>
    full = map_of (filter (\<lambda>(k, _). \<not> k < anchor n) (map body ans)) ++ (node_map (node_in mem (data_node n)))(key \<mapsto> val) \<and>
    k \<in> dom full \<and> (\<exists>x\<in>dom full. x < k) \<and>
    (let m = snd (settled (net s')); left = node_in m l; right = node_in m rr; before = node_in m (data_node nb) in
       node_inv (slots tyl) left \<and> crc_validate (crcer E) left (type_num tyl) = crc left \<and> node_map left = full |` {x. x < k} \<and>
       node_inv (slots tyr) right \<and> crc_validate (crcer E) right (type_num tyr) = crc right \<and> node_map right = full |` {x. k \<le> x} \<and>
       rlink before = l \<and> rlink left = rr \<and> rlink right = rlink (node_in mem (data_node n)) \<and>
       list_all (\<lambda>r. is_done r \<and> (succeed r \<and> tag r < anchor n \<longrightarrow> holds_key before (tag r))) ans)"
proof -
  let ?old = "node_in mem (data_node n)" and ?c2 = "won_ctx c q"
  have c16: "cap (sn_type n) = Some 16" by (simp only: t(1) cap_type_num)
  have p5: "length q + 1 \<le> 5" using q(2) by simp
  note sf = split16_fits [OF t(2) p5]
  obtain n2 where w: "try_win_for_insert E tid par d Insert (drained tid c s) = Some (Inr ((True, Some tid), won_state tid c d n b nb q n2 s))"
    and u2: "usable connected outstanding tid (won_state tid c d n b nb q n2 s)" and n2: "length (lbuf n2) = 8192" "snd (settled n2) = mem"
    and ar: "agree 16 (view 560 (lbuf n2)) ?old" and ap: "\<And>M. cap (sn_type nb) = Some M \<Longrightarrow> agree M (view 0 (lbuf n2)) (node_in mem (data_node nb))"
    unfolding mem_def by (rule won_run [OF u E c d c16 b r, of par]) blast
  let ?s2 = "won_state tid c d n b nb q n2 s"
  have sh: "node_shape (view 0 (lbuf n2))" "node_shape (view 560 (lbuf n2))" "node_shape (view 1120 (lbuf n2))" using n2(1) by (simp_all add: view_shape)
  have old: "view 560 (lbuf n2) = ?old" using ar agree_16 [OF sh(2) node_in_shape] by simp
  have ip: "node_inv M (view 0 (lbuf n2))"
    using agree_inv [OF agree_sym [OF ap [OF p(1)]] p(3) sh(1)] cap_size [OF p(1)] by simp
  have tp: "ntype (view 0 (lbuf n2)) = sn_type nb" using agree_fields(4) [OF ap [OF p(1)]] p(2) by simp
  have ti: "typed_inv (view 0 (lbuf n2))" using ip tp p(1) by (simp add: typed_inv_def)
  note o3 = k(3,5,4) [folded old]
  obtain pred' left right kk ans tt where g: "out_of_place_split_node (anchor n) (view 0 (lbuf n2)) (view 560 (lbuf n2)) (view 1120 (lbuf n2)) (junk E) q lc key val False = Inr (pred', left, right, kk, ans, [])"
    "node_shape pred'" "node_shape left" "node_shape right" "node_inv (slots tyl) left" "node_inv (slots tyr) right" "rlink left = rlink (view 560 (lbuf n2))"
    "typed_inv pred'" "ntype pred' = ntype (view 0 (lbuf n2))" "mset (map body ans) = mset (map body q)" "list_all (answered (anchor n) pred' tt) ans"
    "node_map tt = map_of (filter (\<lambda>(x, _). \<not> x < anchor n) (map body ans)) ++ (node_map (view 560 (lbuf n2)))(key \<mapsto> val)"
    "node_map left = node_map tt |` {x. x < kk}" "node_map right = node_map tt |` {x. kk \<le> x}" "kk \<in> dom (node_map tt)"
    "\<exists>x\<in>dom (node_map tt). x < kk"
    by (rule split_buffers [OF o3(1,2) sh(2,3) j ti sh(1) q k(1,2) o3(3) t(2), of "anchor n"]) blast
  have tp': "ntype pred' = sn_type nb" using g(9) tp by simp
  have d2: "deref (slist ?s2) (Some d) = Inr (n\<lparr>ctx := Some tid\<rparr>)" "backward (n\<lparr>ctx := Some tid\<rparr>) = Some b"
    "deref (slist ?s2) (Some b) = Inr (nb\<lparr>ctx := Some tid\<rparr>)" using d b by simp_all
  have c2: "cctx ?s2 tid = Some ?c2" "user_context ?c2 = Some 0" by simp_all
  have tf: "try_put_to_existing_node E tid 16 d key val ?s2 = Some (Inr ((False, length q + 1), ?s2))"
    using try_put_full [OF c2, of 16 E d key val] o3(2) by simp
  have sp2: "out_of_place_split_node (anchor (n\<lparr>ctx := Some tid\<rparr>)) (view 0 (lbuf (net ?s2))) (view 560 (lbuf (net ?s2))) (view 1120 (lbuf (net ?s2))) (junk E)
        (requests ?c2) lc key val False = Inr (pred', left, right, kk, ans, [])" using g(1) by simp
  have sz: "sizeof_node (type_num tyl) = sizeof_linked_node 16 (slots tyl)" "sizeof_node (type_num tyr) = sizeof_linked_node 16 (slots tyr)"
    using cap_size [OF sf(5)] cap_size [OF sf(6)] by simp_all
  obtain a1 where al: "cna_allocate tid (sizeof_linked_node 16 (slots tyl)) (calloc ?s2) = Inr (l, a1)" "\<not> is_nullptr l"
    "cna_allocate tid (sizeof_linked_node 16 (slots tyr)) a1 = Inr (rr, a2)" "\<not> is_nullptr rr"
    using a(1) by (auto simp: two_chunks_def sz)
  have r2: "reaches registered tid ?s2 l (sizeof_linked_node 16 (slots tyl))" "registered (get_as rr) (sizeof_linked_node 16 (slots tyr))"
    "registered (get_as (data_node (nb\<lparr>ctx := Some tid\<rparr>))) (sizeof_node (ntype pred'))"
    using a(1) r(1) tp' by (simp_all add: two_chunks_def reaches_def sz)
  have bk: "brk (slist ?s2) = brk (slist s)" by (simp add: upd_node_def)
  have f2: "forwards (n\<lparr>ctx := Some tid\<rparr>) \<noteq> []" "d \<noteq> brk (slist ?s2)" "random_level (draws E (brk (slist ?s2))) = Some level"
    using f unfolding bk by simp_all
  let ?n1 = "(n\<lparr>ctx := Some tid\<rparr>)\<lparr>data_node := l, sn_type := type_num tyl\<rparr>"
  let ?S = "\<lambda>n'. ?s2\<lparr>answers := answers ?s2 ++ map_of (map (\<lambda>r. (rid r, r)) ans), cctx := (cctx ?s2)(tid \<mapsto> ?c2\<lparr>requests := []\<rparr>), calloc := a2,
        slist := entered (slist ?s2) d ?n1 level kk (type_num tyr) rr, update_queue := queued (update_queue ?s2) level (brk (slist ?s2)), net := n'\<rparr>"
  obtain n3 where em: "split_branch E tid d lc tyl tyr (slots tyl) (slots tyr) key val False ?s2 = Some (Inr (True, ?S n3))"
    and n3: "outstanding n3 = []" "length (lbuf n3) = 8192" "view 0 (lbuf n3) = pred'\<lparr>rlink := l\<rparr>"
      "view 560 (lbuf n3) = left\<lparr>ntype := type_num tyl, crc := crc_validate (crcer E) left (type_num tyl), rlink := rr\<rparr>"
      "view 1120 (lbuf n3) = right\<lparr>ntype := type_num tyr, crc := crc_validate (crcer E) right (type_num tyr), rlink := rlink left\<rparr>"
      "snd (settled n3) = write_rem (write_rem
        (write_rem (snd (settled (net ?s2))) (get_as (data_node (nb\<lparr>ctx := Some tid\<rparr>))) (take (sizeof_node (ntype pred')) (lbuf n3)))
        (get_as l) (take (sizeof_linked_node 16 (slots tyl)) (drop 560 (lbuf n3))))
      (get_as rr) (take (sizeof_linked_node 16 (slots tyr)) (drop 1120 (lbuf n3)))"
    using split_branch_run [OF u2 E(1) c2 d2(1,2) b(1) d2(3) sp2 g(2-4) sf(7,8) al r2 f2, of tyl tyr] by blast
  let ?n' = "n\<lparr>data_node := l, sn_type := type_num tyl\<rparr>" and ?F = "(forwards n)[0 := Some (brk (slist s))]"
  let ?sl = "entered (slist s) d ?n' level kk (type_num tyr) rr"
  have c3: "cctx (?S n3) tid = Some (?c2\<lparr>requests := []\<rparr>)" by simp
  have d3: "deref (slist (?S n3)) (Some d) = Inr (?n1\<lparr>forwards := ?F\<rparr>)" "backward (?n1\<lparr>forwards := ?F\<rparr>) = Some b"
    "deref (slist (?S n3)) (Some b) = Inr (nb\<lparr>ctx := Some tid\<rparr>)"
    using d b f(2) by (simp_all add: entered_def) (simp_all add: upd_node_def deref_def)
  note lv = leave_run [OF c3 d3(1,2) b(1) d3(3)]
  let ?s4 = "(?S n3)\<lparr>slist := ?sl, cctx := (cctx (?S n3))(tid \<mapsto> ?c2\<lparr>requests := [], max_depth := 4\<rparr>)\<rparr>"
  have nc: "(?n1\<lparr>forwards := ?F\<rparr>)\<lparr>ctx := None\<rparr> = ?n'\<lparr>forwards := (forwards ?n1)[0 := Some (brk (slist s))]\<rparr>" "nb\<lparr>ctx := Some tid\<rparr>\<lparr>ctx := None\<rparr> = nb"
    using d(2) b(3) by simp_all
  have sl: "upd_node (upd_node (slist (?S n3)) d (?n'\<lparr>forwards := (forwards ?n1)[0 := Some (brk (slist s))]\<rparr>)) b nb = ?sl"
    using entered_released [OF d(1) b(2,1) f(2), of "n\<lparr>ctx := Some tid\<rparr>" "nb\<lparr>ctx := Some tid\<rparr>" ?n1 level kk "type_num tyr" rr ?n']
    by (simp add: entered_def)
  have lv': "leave tid d True (?S n3) = Some (Inr ((True, False), ?s4))"
    unfolding lv nc sl by simp
  have ft: "put_dispatcher E tid par (Some d) key val s = Some (Inr (True, ?s4))"
    by (rule dispatch_split [OF d(1) t(1) _ t(2) drain_pending_run [OF c] w tf em lv']) simp
  let ?m = "snd (settled n3)"
  have m3: "?m = write_rem (write_rem (write_rem mem (get_as (data_node nb)) (take (sizeof_node (sn_type nb)) (lbuf n3)))
        (get_as l) (take (sizeof_node (type_num tyl)) (drop 560 (lbuf n3)))) (get_as rr) (take (sizeof_node (type_num tyr)) (drop 1120 (lbuf n3)))"
    using n3(6) n2(2) tp' sz by simp
  have lr: "apart (sizeof_node (type_num tyl)) (get_as l) (get_as rr) (sizeof_node (type_num tyr))" using a(1) by (simp add: two_chunks_def)
  note wp = written_parts [OF n3(2) sf(5,6) p(1) a(2,3) lr m3]
  have le: "slots tyl \<le> 16" "slots tyr \<le> 16" "M \<le> 16" using sf(7,8) cap_size [OF p(1)] by simp_all
  let ?l3 = "left\<lparr>ntype := type_num tyl, crc := crc_validate (crcer E) left (type_num tyl), rlink := rr\<rparr>"
  let ?r3 = "right\<lparr>ntype := type_num tyr, crc := crc_validate (crcer E) right (type_num tyr), rlink := rlink left\<rparr>"
  have agl: "agree (slots tyl) (node_in ?m l) ?l3" and agr: "agree (slots tyr) (node_in ?m rr) ?r3"
    and agp: "agree M (node_in ?m (data_node nb)) (pred'\<lparr>rlink := l\<rparr>)"
    using wp n3(3-5) by simp_all
  have ivs: "node_inv (slots tyl) ?l3" "node_inv (slots tyr) ?r3" "node_shape ?l3" "node_shape ?r3"
    using g(3-6) by (simp_all add: node_inv_def nkey_def node_shape_def)
  have mps: "node_map ?l3 = node_map left" "node_map ?r3 = node_map right" by (simp_all add: node_map_def records_def)
  have ivl: "node_inv (slots tyl) (node_in ?m l)" by (rule agree_inv [OF agree_sym [OF agl] ivs(1) node_in_shape le(1)])
  have ivr: "node_inv (slots tyr) (node_in ?m rr)" by (rule agree_inv [OF agree_sym [OF agr] ivs(2) node_in_shape le(2)])
  have nml: "node_map (node_in ?m l) = node_map left" using agree_node_map [OF agl ivs(1)] mps(1) by simp
  have nmr: "node_map (node_in ?m rr) = node_map right" using agree_node_map [OF agr ivs(2)] mps(2) by simp
  have crl: "crc_validate (crcer E) (node_in ?m l) (type_num tyl) = crc (node_in ?m l)"
    unfolding agree_crc [OF agl node_in_shape ivs(3) sf(5)] agree_fields(3) [OF agl] crc_validate_meta by simp
  have crr: "crc_validate (crcer E) (node_in ?m rr) (type_num tyr) = crc (node_in ?m rr)"
    unfolding agree_crc [OF agr node_in_shape ivs(4) sf(6)] agree_fields(3) [OF agr] crc_validate_meta by simp
  have lk: "rlink (node_in ?m (data_node nb)) = l" "rlink (node_in ?m l) = rr" "rlink (node_in ?m rr) = rlink ?old"
    using agree_fields(2) [OF agp] agree_fields(2) [OF agl] agree_fields(2) [OF agr] g(7) old by simp_all
  have "node_inv M pred'" using g(8) tp' p(1) by (simp add: typed_inv_def)
  then have "node_inv M (pred'\<lparr>rlink := l\<rparr>)" by (simp add: node_inv_def nkey_def)
  from agree_node_map [OF agp this] have bm: "node_map (node_in ?m (data_node nb)) = node_map pred'"
    by (simp add: node_map_def records_def)
  have bt: "ntype (node_in ?m (data_node nb)) = ntype pred'" using agree_fields(4) [OF agp] by simp
  have an: "list_all (\<lambda>r. is_done r \<and> (succeed r \<and> tag r < anchor n \<longrightarrow> holds_key (node_in ?m (data_node nb)) (tag r))) ans"
    using g(11) by (auto simp: list_all_iff answered_def holds_key_def bm bt)
  have us: "usable connected outstanding tid ?s4" using u n3(1,2) by (simp add: usable_def)
  have e: "net ?s4 = n3" "rm ?s4 = rm s" "slist ?s4 = ?sl" "calloc ?s4 = a2" "cctx ?s4 tid \<noteq> None"
    "answers ?s4 = answers (drained tid c s) ++ map_of (map (\<lambda>r. (rid r, r)) ans)" by simp_all
  have rp: "remote_put ?s4 = remote_put s" by (simp add: won_state_def drained_def)
  have uq: "update_queue ?s4 = queued (update_queue s) level (brk (slist s))" using bk by simp
  have fl: "node_map tt = map_of (filter (\<lambda>(k, _). \<not> k < anchor n) (map body ans)) ++ (node_map ?old)(key \<mapsto> val)"
    using g(12) old by simp
  show ?thesis
    unfolding Let_def
    by (rule exI [of _ ?s4], rule exI [of _ ans], rule exI [of _ kk], rule exI [of _ "node_map tt"], unfold e(1),
        intro conjI ft e(2-6) us rp uq g(10) fl g(15,16) ivl crl ivr crr lk an)
      (simp_all only: nml nmr g(13,14))
qed

end

subsection \<open>The property\<close>

text \<open>A full node of sixteen slots without the key, behind a well-formed predecessor, and the keys that
  belong to it: the list routes them to \<open>d\<close>.\<close>

definition splittable :: "memory \<Rightarrow> skip_node \<Rightarrow> skip_node \<Rightarrow> bytes \<Rightarrow> bool" where
  "splittable m n nb key \<longleftrightarrow> sn_type n = type_num Type16 \<and> node_inv 16 (node_in m (data_node n)) \<and>
     room 16 (node_in m (data_node n)) = 0 \<and> node_map (node_in m (data_node n)) key = None \<and>
     (\<exists>M. cap (sn_type nb) = Some M \<and> node_inv M (node_in m (data_node nb)) \<and> ntype (node_in m (data_node nb)) = sn_type nb)"

definition homed :: "skiplist \<Rightarrow> nat \<Rightarrow> bytes set \<Rightarrow> bool" where
  "homed sl d ks \<longleftrightarrow> (\<forall>x\<in>ks. fuzzy_search x sl = Some (Inr (Some d)))"

definition settles_on :: "bytes \<Rightarrow> (bytes \<times> bytes) list \<Rightarrow> (bytes \<rightharpoonup> bytes) \<Rightarrow> bytes \<rightharpoonup> bytes" where
  "settles_on anch rs old = map_of (filter (\<lambda>(k, _). \<not> k < anch) rs) ++ old"

lemma settles_on_dom:
  assumes "mset rs = mset rs'" "k \<in> dom (settles_on anch rs old)"
  shows "k \<in> fst ` set (filter (\<lambda>(k, _). \<not> k < anch) rs') \<union> dom old"
proof -
  have "set (filter (\<lambda>(k, _). \<not> k < anch) rs) = set (filter (\<lambda>(k, _). \<not> k < anch) rs')"
    using mset_eq_setD [OF assms(1)] by simp
  then show ?thesis using assms(2) by (simp add: settles_on_def dom_map_of_conv_image_fst) blast
qed

lemma homed_pred:
  assumes "sl_inv sl xs hgt" "homed sl d (fst ` set (filter (\<lambda>(k, _). \<not> k < anch) rs') \<union> dom old)" "mset rs = mset rs'"
    and "pred_of sl xs key = d" "x \<in> dom (settles_on anch rs (old(key \<mapsto> val)))"
  shows "pred_of sl xs x = d"
proof -
  have "x = key \<or> x \<in> fst ` set (filter (\<lambda>(k, _). \<not> k < anch) rs') \<union> dom old"
    using settles_on_dom [OF assms(3,5)] by auto
  then show ?thesis using assms(2,4) by (auto simp: homed_def fuzzy_search_pred [OF assms(1)])
qed

lemma entered_deref:
  assumes "d \<noteq> brk sl"
  shows "deref (entered sl d n level k t r) (Some d) = Inr (n\<lparr>forwards := (forwards n)[0 := Some (brk sl)]\<rparr>)"
    "deref (entered sl d n level k t r) (Some (brk sl)) = Inr (make_skip_node level k r t (hd (forwards n)) (Some d))"
  using assms by (simp_all add: entered_def upd_node_def deref_def)

context rdma_fabric
begin

text \<open>A lookup of a key that was routed to the node before it was split.\<close>

lemma get_after_split:
  fixes s' :: "'w cn"
  assumes "usable connected outstanding tid s'" "vb E = V" "cctx s' tid \<noteq> None" "remote_put s'"
    and "sl_inv sl xs hgt" "1 \<le> current_level sl" "k \<notin> akey sl ` set xs" "pred_of sl xs k = d"
    and "deref sl (Some d) = Inr n" "random_level dr = Some level" "brk sl \<notin> {d, b}"
    and sl: "slist s' = entered sl d (n\<lparr>data_node := l, sn_type := tyl\<rparr>) level k tyr r"
    and "reaches registered tid s' l 560" "reaches registered tid s' r 560"
    and m: "node_inv NL (node_in (snd (settled (net s'))) l)"
      "crc_validate (crcer E) (node_in (snd (settled (net s'))) l) tyl = crc (node_in (snd (settled (net s'))) l)"
      "node_map (node_in (snd (settled (net s'))) l) = full |` {x. x < k}"
      "node_inv NR (node_in (snd (settled (net s'))) r)"
      "crc_validate (crcer E) (node_in (snd (settled (net s'))) r) tyr = crc (node_in (snd (settled (net s'))) r)"
      "node_map (node_in (snd (settled (net s'))) r) = full |` {x. k \<le> x}"
    and key: "wide key" "fuzzy_search key sl = Some (Inr (Some d))"
  shows "\<exists>s''. get E tid key s' = Some (Inr (full key, s''))"
proof -
  have fs: "fuzzy_search key (slist s') = Some (Inr (Some (if key < k then d else brk sl)))"
    unfolding sl by (rule entered_routes [OF assms(5-9) _ _ assms(10) key(2)]) simp_all
  have dn: "d \<noteq> brk sl" using assms(11) by simp
  note de = entered_deref [OF dn, of "n\<lparr>data_node := l, sn_type := tyl\<rparr>" level k tyr r, folded sl]
  note gf = get_fits [OF assms(1-4)]
  show ?thesis
  proof (cases "key < k")
    case True
    with fs have "fuzzy_search key (slist s') = Some (Inr (Some d))" by simp
    from gf [OF this de(1) key(1)] assms(13) m(1-3) True show ?thesis by simp
  next
    case False
    with fs have "fuzzy_search key (slist s') = Some (Inr (Some (brk sl)))" by simp
    from gf [OF this de(2) key(1)] assms(14) m(4-6) False show ?thesis by (simp add: make_skip_node_def not_less)
  qed
qed

end

text \<open>C3: an insertion into a full node of 16 slots, with at most four waiting threads, splits the node
  and reports success.  What the node held, the new record and the records of the requests not
  below its anchor are divided around a new anchor \<open>k\<close>, both parts nonempty: the lower ones are in
  the chunk the node points to now, the others in the one of the new entry of the search layer.
  In remote memory the predecessor links to the left part, that to the right part, and that to
  what the node linked to.  Every request is answered, and one that is told to have succeeded in
  the predecessor has its key there.  Every later \<open>get\<close> of a key that was routed to the node returns
  what was to be stored, whichever part it is in now.\<close>

theorem put_splits_full_node:
  assumes "rdma_fabric V base reg conn os settled" "usable conn os tid s" "remote_put s" "cctx s tid = Some c"
    and "vb E = V" "others E = enqueue tid q" "list_all wide_request q" "length q \<le> 4" "wide key" "wide val"
    and "fuzzy_search key (slist s) = Some (Inr (Some d))" "winnable reg tid s d n nb"
    and "splittable (snd (settled (net s))) n nb key" "length (junk E) = 5" "list_all kv_ok (junk E)"
    and "split16 (length q + 1) = (lc, tyl, tyr)" "two_chunks reg tid s (type_num tyl) (type_num tyr) l r al"
    and "apart (sizeof_node (sn_type nb)) (get_as (data_node nb)) (get_as l) (sizeof_node (type_num tyl))"
    and "apart (sizeof_node (sn_type nb)) (get_as (data_node nb)) (get_as r) (sizeof_node (type_num tyr))"
    and "sl_inv (slist s) xs hgt" "1 \<le> current_level (slist s)" "random_level (draws E (brk (slist s))) = Some level"
    and "homed (slist s) d (fst ` set (filter (\<lambda>(k, _). \<not> k < anchor n) (map body q)) \<union>
      dom (node_map (node_in (snd (settled (net s))) (data_node n))))"
  shows "\<exists>s' ans k. put E tid par key val s = Some (Inr (True, s')) \<and> calloc s' = al \<and>
    slist s' = entered (slist s) d (n\<lparr>data_node := l, sn_type := type_num tyl\<rparr>) level k (type_num tyr) r \<and>
    answers s' = answers (drained tid c s) ++ map_of (map (\<lambda>r. (rid r, r)) ans) \<and> mset (map body ans) = mset (map body q) \<and>
    (let m = snd (settled (net s')); before = node_in m (data_node nb);
         old = node_in (snd (settled (net s))) (data_node n); full = settles_on (anchor n) (map body ans) ((node_map old)(key \<mapsto> val)) in
       node_map (node_in m l) = full |` {x. x < k} \<and> node_map (node_in m r) = full |` {x. k \<le> x} \<and> k \<in> dom full \<and> (\<exists>x\<in>dom full. x < k) \<and>
       rlink before = l \<and> rlink (node_in m l) = r \<and> rlink (node_in m r) = rlink old \<and>
       list_all (\<lambda>r. is_done r \<and> (succeed r \<and> tag r < anchor n \<longrightarrow> holds_key before (tag r))) ans \<and>
       (\<forall>key'. wide key' \<and> fuzzy_search key' (slist s) = Some (Inr (Some d)) \<longrightarrow>
          (\<exists>s''. get E tid key' s' = Some (Inr (full key', s'')))))"
proof -
  obtain b where b: "deref (slist s) (Some d) = Inr n" "ctx n = None" "backward n = Some b" "b \<noteq> d"
    "deref (slist s) (Some b) = Inr nb" "ctx nb = None" "reaches reg tid s (data_node nb) (sizeof_node (sn_type nb))"
    "reaches reg tid s (data_node n) (sizeof_node (sn_type n))"
    by (rule winnable_cases [OF assms(12)])
  let ?m = "snd (settled (net s))" and ?sl = "slist s"
  let ?old = "node_in ?m (data_node n)"
  obtain M where g: "sn_type n = type_num Type16" "node_inv 16 ?old" "node_map ?old key = None" "room 16 ?old = 0"
    and p: "cap (sn_type nb) = Some M" "ntype (node_in ?m (data_node nb)) = sn_type nb" "node_inv M (node_in ?m (data_node nb))"
    using assms(13) by (auto simp: splittable_def)
  note pk = fuzzy_search_pred [OF assms(20)]
  have dk: "pred_of ?sl xs key = d" using assms(11) by (simp add: pk)
  have nb: "brk ?sl \<notin> {d, b}"
    using assms(20) b(1,5) by (auto simp: sl_inv_def deref_def split: option.splits)
  obtain s' ans k full where r: "put_dispatcher E tid par (Some d) key val s = Some (Inr (True, s'))"
    "slist s' = entered ?sl d (n\<lparr>data_node := l, sn_type := type_num tyl\<rparr>) level k (type_num tyr) r"
    "rm s' = rm s" "calloc s' = al" "usable conn os tid s'" "cctx s' tid \<noteq> None" "remote_put s' = remote_put s"
    "answers s' = answers (drained tid c s) ++ map_of (map (\<lambda>r. (rid r, r)) ans)" "mset (map body ans) = mset (map body q)"
    and fl: "full = settles_on (anchor n) (map body ans) ((node_map ?old)(key \<mapsto> val))" "k \<in> dom full" "\<exists>x\<in>dom full. x < k"
    and m: "node_inv (slots tyl) (node_in (snd (settled (net s'))) l)"
      "crc_validate (crcer E) (node_in (snd (settled (net s'))) l) (type_num tyl) = crc (node_in (snd (settled (net s'))) l)"
      "node_map (node_in (snd (settled (net s'))) l) = full |` {x. x < k}"
      "node_inv (slots tyr) (node_in (snd (settled (net s'))) r)"
      "crc_validate (crcer E) (node_in (snd (settled (net s'))) r) (type_num tyr) = crc (node_in (snd (settled (net s'))) r)"
      "node_map (node_in (snd (settled (net s'))) r) = full |` {x. k \<le> x}"
      "rlink (node_in (snd (settled (net s'))) (data_node nb)) = l" "rlink (node_in (snd (settled (net s'))) l) = r"
      "rlink (node_in (snd (settled (net s'))) r) = rlink ?old"
      "list_all (\<lambda>r. is_done r \<and> (succeed r \<and> tag r < anchor n \<longrightarrow> holds_key (node_in (snd (settled (net s'))) (data_node nb)) (tag r))) ans"
    using rdma_fabric.put_split_run [OF assms(1,2,5,6,4) b(1-8) g(1) assms(16,9,10) g(2-4) assms(7,8,14,15) p assms(17-19)
        pred_forwards [OF assms(20) dk b(1)] nb assms(22), of par]
    unfolding Let_def settles_on_def [symmetric] by (elim exE conjE) (rule that, assumption+)
  have home: "pred_of ?sl xs x = d" if "x \<in> dom full" for x
    using homed_pred [OF assms(20,23) r(9)] that dk unfolding fl(1) by blast
  obtain x where x: "x \<in> dom full" "x < k" using fl(3) by blast
  note new = anchor_is_new [OF assms(20) home [OF fl(2)] home [OF x(1)] x(2)]
  have rc: "reaches reg tid s' l 560" "reaches reg tid s' r 560" using assms(17) r(3) by (simp_all add: two_chunks_def reaches_def)
  have rp: "remote_put s'" using assms(3) r(7) by simp
  note rd = rdma_fabric.get_after_split [OF assms(1) r(5) assms(5) r(6) rp assms(20,21) new home [OF fl(2)] b(1) assms(22) _ r(2) rc m(1-6)]
  show ?thesis
    unfolding Let_def put_dispatches [OF assms(3,11)]
    by (rule exI [of _ s'], rule exI [of _ ans], rule exI [of _ k], unfold fl(1) [symmetric],
        intro conjI r(1,4,2,8,9) m(3,6-10) fl(2,3)) (use rd nb in blast)
qed

text \<open>A full node of sixteen records behind the demonstration state's first one, in a list of two nodes
  of height one; one thread waits with a record above all of them.\<close>

definition packed_keys :: "byte_t list" where
  "packed_keys = [5, 7, 8, 9, 10, 11, 12, 13, 14, 15, 16, 17, 18, 19, 20, 21]"

definition packed_n :: "skip_node" where
  "packed_n = demo_n\<lparr>sn_type := 16\<rparr>"

definition packed_list :: skiplist where
  "packed_list = \<lparr>heap = [0 \<mapsto> (make_skip_node 16 [] 0 (type_num TypeHead) (Some 2) None), 2 \<mapsto> demo_nb, 3 \<mapsto> packed_n],
     brk = 4, head = 0, current_level = 1\<rparr>"

definition packed_state :: "sim cn" where
  "packed_state = full_state\<lparr>slist := packed_list,
     net := \<lparr>lbuf = replicate 8192 0, wire = \<lparr>sim_mem = pair_mem packed_keys 16, sim_out = []\<rparr>\<rparr>\<rparr>"

definition packed_env :: "request list \<Rightarrow> sim env" where
  "packed_env q = (demo_env (enqueue 7 q) (\<lambda>_. 0))\<lparr>draws := (\<lambda>_. [RAND_MAX]), junk := replicate 5 kv_zero\<rparr>"

lemma packed_fields [simp]:
  "slist packed_state = packed_list" "remote_put packed_state" "cctx packed_state 7 = Some new_conc_ctx" "calloc packed_state = one_page"
  "snd (sim_settled (net packed_state)) = pair_mem packed_keys 16" "usable sim_connected (\<lambda>n. sim_out (wire n)) 7 packed_state"
  using full_fields(2,3,4,6) by (simp_all add: packed_state_def sim_settled_def usable_def)

lemma packed_env_simps [simp]:
  "vb (packed_env q) = sim_verbs" "others (packed_env q) = enqueue 7 q" "length (junk (packed_env q)) = 5" "list_all kv_ok (junk (packed_env q))"
  "random_level (draws (packed_env q) a) = Some 1"
  by (simp_all add: packed_env_def demo_env_def list_all_iff kv_ok_def kv_zero_def random_level_def RAND_MAX_def MAX_LEVEL_def)

lemma packed_n_simps [simp]: "ctx packed_n = None" "backward packed_n = Some 2" "data_node packed_n = 0x2000" "sn_type packed_n = 16"
  "anchor packed_n = b16 5" "forwards packed_n = [None]"
  by (simp_all add: packed_n_def)

lemma packed_inv: "sl_inv packed_list [2, 3] (\<lambda>_. 1)" "1 \<le> current_level packed_list" "brk packed_list = 4"
proof -
  have f: "get_forward packed_list (Some 0) i = Inr (if i = 0 then Some 2 else None)" if "i < 16" for i
    using that by (simp add: packed_list_def get_forward_def deref_def make_skip_node_def rd_def nth_Cons')
  have g: "get_forward packed_list (Some 2) 0 = Inr (Some 3)" "get_forward packed_list (Some 3) 0 = Inr None"
    by (simp_all add: packed_list_def get_forward_def deref_def rd_def)
  have "linked packed_list i 0 (level_list (\<lambda>_. 1) i [2, 3])" if "i < 16" for i
    using that f g by (simp add: level_list_def)
  then show "sl_inv packed_list [2, 3] (\<lambda>_. 1)"
    by (simp add: sl_inv_def MAX_LEVEL_def) (simp add: packed_list_def akey_def b16_less make_skip_node_def)
  show "1 \<le> current_level packed_list" "brk packed_list = 4" by (simp_all add: packed_list_def)
qed

lemma packed_search: "5 \<le> x \<Longrightarrow> fuzzy_search (b16 x) packed_list = Some (Inr (Some 3))"
proof -
  assume "5 \<le> x"
  moreover then have "1 < x" using less_le_trans [of 1 5 x] by simp
  ultimately have "b16 5 \<le> b16 x" "b16 1 \<le> b16 x" by (auto simp: le_less b16_less b16_eq)
  then show ?thesis unfolding fuzzy_search_pred [OF packed_inv(1)] by (simp add: pred_of_def akey_def packed_list_def)
qed

lemma packed_winnable: "winnable (\<lambda>a n. True) 7 packed_state 3 packed_n demo_nb"
proof -
  have "reaches (\<lambda>a n. True) 7 packed_state p sz" if "get_node p = 0" for p sz
    using full_reaches [OF that, of sz] by (simp add: packed_state_def reaches_def)
  then show ?thesis by (simp add: winnable_def packed_list_def deref_def)
qed

lemma packed_splittable: "splittable (pair_mem packed_keys 16) packed_n demo_nb (b16 6)"
proof -
  have k: "length packed_keys = 16" "distinct packed_keys" by (simp_all add: packed_keys_def)
  note d = demo_simps [of packed_keys 16] demo_node_inv [of packed_keys 16 16] pair_nodes [of packed_keys 16]
  have "node_map (demo_node packed_keys 16) (b16 6) = None"
    using d(5) k(1) by (simp add: node_map_def map_of_eq_None_iff packed_keys_def image_iff)
  then show ?thesis
    using d k demo_node_inv [of "[1]" 10 10] demo_simps [of "[1]" 10] cap_type_num(1,2)
    by (simp add: splittable_def room_def)
qed

lemma packed_chunks:
  "\<exists>al. two_chunks (\<lambda>a n. True) 7 packed_state (type_num Type10) (type_num Type10) 0x10000 0x10200 al"
proof -
  have hb: "high_bit 23 = 4" by (simp add: high_bit.simps)
  have sz: "sizeof_node (type_num Type10) = 368" by (simp add: sizeof_node_def enumerator_def sizeof_linked_node_def)
  note e = cna_allocate_def MEMORY_PAGE_SIZE_def cn_allocator_init_def get_class_def pg_available_def desc_clear_def
        group_allocate_def desc_initialize_def pm_allocate_def pm_available_def Let_def class_table_def class_size_def
        allocation_class_size_map_def offset_by_def rd_def
  obtain a1 where a1: "cna_allocate 7 368 one_page = Inr (0x10000, a1)" "\<exists>a2. cna_allocate 7 368 a1 = Inr (0x10200, a2)"
    using hb by (simp add: one_page_def e)
  have rc: "reaches (\<lambda>a n. True) 7 packed_state p z" if "get_node p = 0" for p z
    using full_reaches [OF that, of z] by (simp add: packed_state_def reaches_def)
  have ap: "apart 368 0x10000 0x10200 368"
  proof -
    have "368 \<le> unat ((0x10000 :: u64) + of_nat i - 0x10200)" if "i < 368" for i
    proof -
      have "(0x10000 :: u64) + of_nat i - 0x10200 = of_nat (18446744073709551104 + i)" by simp
      then show ?thesis using that by (simp only: unat_of_nat) simp
    qed
    then show ?thesis by (simp add: apart_def list_all_iff)
  qed
  show ?thesis using a1 ap unfolding two_chunks_def sz by (auto simp: is_nullptr_def get_as_def rc get_node_def)
qed

lemma put_splits_full_node_witness:
  "\<exists>s' s''. put (packed_env [new_request 3 (b16 30) (b16 2)]) 7 False (b16 6) (b16 8) packed_state = Some (Inr (True, s')) \<and>
    get (packed_env [new_request 3 (b16 30) (b16 2)]) 7 (b16 6) s' = Some (Inr (Some (b16 8), s''))"
proof -
  let ?q = "[new_request 3 (b16 30) (b16 2)]"
  let ?E = "packed_env ?q"
  obtain al where al: "two_chunks (\<lambda>a n. True) 7 packed_state (type_num Type10) (type_num Type10) 0x10000 0x10200 al"
    using packed_chunks by blast
  have q: "list_all wide_request ?q" "length ?q \<le> 4" by (simp_all add: wide_request_def new_request_def)
  have sz: "sizeof_node 10 = 368" by (simp add: sizeof_node_def enumerator_def sizeof_linked_node_def)
  have ap: "apart (sizeof_node (sn_type demo_nb)) (get_as (data_node demo_nb)) (get_as 0x10000) (sizeof_node (type_num Type10))"
    "apart (sizeof_node (sn_type demo_nb)) (get_as (data_node demo_nb)) (get_as 0x10200) (sizeof_node (type_num Type10))"
    using apart_page [of 368 0 368] apart_page [of 368 512 368] by (simp_all add: sz get_as_def)
  have sp: "split16 (length ?q + 1) = (9, Type10, Type10)" by (simp add: split16_def)
  have hm: "homed (slist packed_state) 3 (fst ` set (filter (\<lambda>(k, _). \<not> k < anchor packed_n) (map body ?q)) \<union>
      dom (node_map (node_in (snd (sim_settled (net packed_state))) (data_node packed_n))))"
  proof -
    have k: "length packed_keys = 16" by (simp add: packed_keys_def)
    have "dom (node_map (node_in (pair_mem packed_keys 16) 0x2000)) = b16 ` set packed_keys"
      using demo_simps(5) [of packed_keys 16] pair_nodes(1) [of packed_keys 16] k
      by (simp add: node_map_def dom_map_of_conv_image_fst image_image)
    moreover have "fst ` set (filter (\<lambda>(k, _). \<not> k < b16 5) (map body ?q)) \<subseteq> b16 ` {30}" by (auto simp: body_def new_request_def)
    ultimately show ?thesis using packed_search by (auto simp: homed_def packed_keys_def)
  qed
  have e: "wide (b16 6)" "wide (b16 8)" by simp_all
  have f: "fuzzy_search (b16 6) (slist packed_state) = Some (Inr (Some 3))" using packed_search by simp
  have sl: "sl_inv (slist packed_state) [2, 3] (\<lambda>_. 1)" "1 \<le> current_level (slist packed_state)" using packed_inv by simp_all
  have sp': "splittable (snd (sim_settled (net packed_state))) packed_n demo_nb (b16 6)" using packed_splittable by simp
  note t = put_splits_full_node [OF simulated.rdma_fabric_axioms packed_fields(6,2,3) packed_env_simps(1,2) q e f packed_winnable sp'
      packed_env_simps(3,4) sp al ap sl packed_env_simps(5) hm, where par = False, unfolded Let_def]
  let ?old = "node_map (node_in (snd (sim_settled (net packed_state))) (data_node packed_n))"
  obtain s' ans where s': "put ?E 7 False (b16 6) (b16 8) packed_state = Some (Inr (True, s'))" "mset (map body ans) = mset (map body ?q)"
    "\<forall>key'. wide key' \<and> fuzzy_search key' (slist packed_state) = Some (Inr (Some 3)) \<longrightarrow>
          (\<exists>s''. get ?E 7 key' s' = Some (Inr (settles_on (anchor packed_n) (map body ans) (?old(b16 6 \<mapsto> b16 8)) key', s'')))"
    using t by (elim exE conjE) (rule that)
  have "map body ans = [(b16 30, b16 2)]"
    using s'(2) by (simp add: body_def new_request_def) (metis mset_single_iff_right mset_map)
  then have "settles_on (anchor packed_n) (map body ans) (?old(b16 6 \<mapsto> b16 8)) (b16 6) = Some (b16 8)"
    by (simp add: settles_on_def map_add_def b16_eq)
  then show ?thesis using s'(1) s'(3) [rule_format, OF conjI, OF e(1) f] by metis
qed

end
