(* ===== verification/Stats.thy ===== *)
theory Stats
  imports Doubles
begin

text \<open>
  \<open>components/stats/\<close> and the averages of \<open>components/misc/misc.hpp\<close>: spans of time are collected per
  operation, every full batch gives its average, and what was collected is summed up by the averages
  of its greatest shares.  The readings of the clock are arguments; \<open>std::sort\<close> is the sorted list,
  which equal numbers do not tell from another one.
\<close>

subsection \<open>Averages\<close>

text \<open>The average of the first elements: as many as the share of the list that \<open>percent\<close> leaves, rounded
  up.  A count beyond the list would read behind it.\<close>

definition partition_size :: "nat \<Rightarrow> double \<Rightarrow> int" where
  "partition_size n percent = \<lceil>rnd (rnd (of_nat n) * rnd (1 - rnd (percent / 100)))\<rceil>"

definition accumulate :: "double list \<Rightarrow> double" where
  "accumulate xs = foldl (\<lambda>a x. rnd (a + x)) 0 xs"

definition percentile :: "double list \<Rightarrow> double \<Rightarrow> double res" where
  "percentile xs percent =
     (if xs = [] then Inr 0
      else let k = partition_size (length xs) percent
           in if int (length xs) < k then Inl OutOfBounds
              else divide (accumulate (take (nat k) xs)) (of_int k))"

definition avg :: "double list \<Rightarrow> double res" where
  "avg xs = percentile xs 0"

definition p50 :: "double list \<Rightarrow> double res" where
  "p50 xs = percentile xs 50"

definition p90 :: "double list \<Rightarrow> double res" where
  "p90 xs = percentile xs 90"

definition p99 :: "double list \<Rightarrow> double res" where
  "p99 xs = percentile xs 99"

definition p999 :: "double list \<Rightarrow> double res" where
  "p999 xs = percentile xs (rnd (999 / 10))"

subsection \<open>The collector\<close>

record lat_stats =
  ls_avg :: double
  ls_p50 :: double
  ls_p90 :: double
  ls_p99 :: double

definition make_lat_stats :: "double \<Rightarrow> double \<Rightarrow> double \<Rightarrow> double \<Rightarrow> lat_stats" where
  "make_lat_stats a b c d = \<lparr>ls_avg = a, ls_p50 = b, ls_p90 = c, ls_p99 = d\<rparr>"

text \<open>The map from names to lists, in the order in which the names came; \<open>std::unordered_map\<close> leaves the
  order open.\<close>

type_synonym collector = "(string \<times> lat_stats list) list"

fun collect :: "string \<Rightarrow> lat_stats \<Rightarrow> collector \<Rightarrow> collector" where
  "collect op st [] = [(op, [st])]"
| "collect op st ((k, v) # c) = (if k = op then (k, v @ [st]) # c else (k, v) # collect op st c)"

fun get_summarized :: "collector \<Rightarrow> (string \<times> lat_stats) list res" where
  "get_summarized [] = Inr []"
| "get_summarized ((k, v) # c) =
     res_bind (avg (map ls_avg v)) (\<lambda>a.
     res_bind (avg (map ls_p50 v)) (\<lambda>b.
     res_bind (avg (map ls_p90 v)) (\<lambda>d.
     res_bind (avg (map ls_p99 v)) (\<lambda>e.
     res_bind (get_summarized c) (\<lambda>ret.
     Inr ((k, \<lparr>ls_avg = a, ls_p50 = b, ls_p90 = d, ls_p99 = e\<rparr>) # ret))))))"

text \<open>\<open>summarize\<close> prints the summary, a row for every name.\<close>

definition summarize :: "collector \<Rightarrow> (string \<times> double \<times> double \<times> double \<times> double) list res" where
  "summarize c =
     res_bind (get_summarized c) (\<lambda>rows.
     Inr (map (\<lambda>(k, l). (k, ls_avg l, ls_p50 l, ls_p90 l, ls_p99 l)) rows))"

subsection \<open>Operation\<close>

datatype store_op = Put | Get | Update | Scan | Delete

record 'k timings =
  batch :: u64
  results :: "'k \<Rightarrow> double list"
  tmp :: "'k \<Rightarrow> double list"
  spans :: "'k \<Rightarrow> int \<times> int"

definition new_timings :: "u64 \<Rightarrow> 'k timings" where
  "new_timings b = \<lparr>batch = b, results = (\<lambda>_. []), tmp = (\<lambda>_. []), spans = (\<lambda>_. (0, 0))\<rparr>"

text \<open>The pair in the map keeps the start; the end of it is written to a copy.\<close>

definition op_begin :: "'k \<Rightarrow> int \<Rightarrow> 'k timings \<Rightarrow> 'k timings" where
  "op_begin k now s = s\<lparr>spans := (spans s)(k := (now, snd (spans s k)))\<rparr>"

definition op_end :: "'k \<Rightarrow> int \<Rightarrow> 'k timings \<Rightarrow> 'k timings res" where
  "op_end k now s =
     (let span = rnd (of_int (now - fst (spans s k)));
          t = tmp s k @ [span] in
      if length t = unat (batch s)
      then res_bind (avg t) (\<lambda>a.
           Inr (s\<lparr>results := (results s)(k := results s k @ [a]), tmp := (tmp s)(k := [])\<rparr>))
      else Inr (s\<lparr>tmp := (tmp s)(k := t)\<rparr>))"

definition ops_table :: "store_op list" where
  "ops_table = [Put, Get, Update, Scan, Delete]"

fun decode_op :: "store_op \<Rightarrow> string" where
  "decode_op Put = ''Put''"
| "decode_op Get = ''Get''"
| "decode_op Update = ''Update''"
| "decode_op Scan = ''Scan''"
| "decode_op Delete = ''Delete''"

text \<open>The four numbers of a list in descending order.\<close>

definition lat_of :: "double list \<Rightarrow> lat_stats res" where
  "lat_of arr =
     res_bind (avg arr) (\<lambda>a. res_bind (p50 arr) (\<lambda>b. res_bind (p90 arr) (\<lambda>c. res_bind (p99 arr) (\<lambda>d.
     Inr (make_lat_stats a b c d)))))"

text \<open>What \<open>report\<close> prints, a row for every operation; it leaves the results sorted.\<close>

fun op_report_from :: "store_op list \<Rightarrow> store_op timings \<Rightarrow> ((string \<times> lat_stats) list \<times> store_op timings) res" where
  "op_report_from [] s = Inr ([], s)"
| "op_report_from (k # ks) s =
     (let arr = rev (sort (results s k)) in
      res_bind (lat_of arr) (\<lambda>l.
      res_bind (op_report_from ks (s\<lparr>results := (results s)(k := arr)\<rparr>)) (\<lambda>(rows, s').
      Inr ((decode_op k, l) # rows, s'))))"

definition op_report :: "store_op timings \<Rightarrow> ((string \<times> lat_stats) list \<times> store_op timings) res" where
  "op_report s = op_report_from ops_table s"

fun op_submit_from :: "store_op list \<Rightarrow> store_op timings \<Rightarrow> collector \<Rightarrow> (store_op timings \<times> collector) res" where
  "op_submit_from [] s c = Inr (s, c)"
| "op_submit_from (k # ks) s c =
     (let arr = rev (sort (results s k)) in
      res_bind (lat_of arr) (\<lambda>l.
      op_submit_from ks (s\<lparr>results := (results s)(k := arr)\<rparr>) (collect (decode_op k) l c)))"

definition op_submit :: "store_op timings \<Rightarrow> collector \<Rightarrow> (store_op timings \<times> collector) res" where
  "op_submit s c = op_submit_from ops_table s c"

definition op_clear :: "store_op timings \<Rightarrow> store_op timings" where
  "op_clear s = fold (\<lambda>k s. s\<lparr>results := (results s)(k := []), tmp := (tmp s)(k := [])\<rparr>) ops_table s"

subsection \<open>Breakdown\<close>

datatype breakdown_op =
    SearchLayerSearch | SearchLayerUpdate
  | DataLayerFetch | DataLayerWriteBack | DataLayerWriteMorphed | DataLayerWriteSplitted
  | DataLayerMorph | DataLayerSplit | DataLayerContention
  | MemoryAllocation | RemoteMemoryAllocation

definition new_breakdown :: "u64 \<Rightarrow> breakdown_op timings" where
  "new_breakdown b = \<lparr>batch = b, results = (\<lambda>_. []), tmp = (\<lambda>_. []), spans = (\<lambda>_. (0, 0))\<rparr>"

definition bd_begin :: "breakdown_op \<Rightarrow> int \<Rightarrow> breakdown_op timings \<Rightarrow> breakdown_op timings" where
  "bd_begin k now s = s\<lparr>spans := (spans s)(k := (now, snd (spans s k)))\<rparr>"

definition bd_end :: "breakdown_op \<Rightarrow> int \<Rightarrow> breakdown_op timings \<Rightarrow> breakdown_op timings res" where
  "bd_end k now s =
     (let span = rnd (of_int (now - fst (spans s k)));
          t = tmp s k @ [span] in
      if length t = unat (batch s)
      then res_bind (avg t) (\<lambda>a.
           Inr (s\<lparr>results := (results s)(k := results s k @ [a]), tmp := (tmp s)(k := [])\<rparr>))
      else Inr (s\<lparr>tmp := (tmp s)(k := t)\<rparr>))"

lemma breakdown_as_operation: "new_breakdown = new_timings" "bd_begin = op_begin" "bd_end = op_end"
  by (simp_all add: new_breakdown_def new_timings_def bd_begin_def op_begin_def bd_end_def op_end_def fun_eq_iff)

definition bd_table :: "breakdown_op list" where
  "bd_table = [SearchLayerSearch, SearchLayerUpdate, DataLayerWriteBack, DataLayerFetch, DataLayerWriteMorphed,
     DataLayerWriteSplitted, DataLayerMorph, DataLayerSplit, DataLayerContention, MemoryAllocation, RemoteMemoryAllocation]"

fun decode_breakdown :: "breakdown_op \<Rightarrow> string" where
  "decode_breakdown SearchLayerSearch = ''SearchLayerSearch''"
| "decode_breakdown SearchLayerUpdate = ''SearchLayerUpdate''"
| "decode_breakdown DataLayerFetch = ''DataLayerFetch''"
| "decode_breakdown DataLayerWriteBack = ''DataLayerWriteBack''"
| "decode_breakdown DataLayerWriteMorphed = ''DataLayerWriteMorphed''"
| "decode_breakdown DataLayerWriteSplitted = ''DataLayerWriteWriteSplitted''"
| "decode_breakdown DataLayerMorph = ''DataLayerMorph''"
| "decode_breakdown DataLayerSplit = ''DataLayerSplit''"
| "decode_breakdown DataLayerContention = ''DataLayerContention''"
| "decode_breakdown MemoryAllocation = ''MemoryAllocation''"
| "decode_breakdown RemoteMemoryAllocation = ''RemoteMemoryAllocation''"

fun bd_report_from :: "breakdown_op list \<Rightarrow> breakdown_op timings \<Rightarrow> ((string \<times> lat_stats) list \<times> breakdown_op timings) res" where
  "bd_report_from [] s = Inr ([], s)"
| "bd_report_from (k # ks) s =
     (let arr = rev (sort (results s k)) in
      res_bind (lat_of arr) (\<lambda>l.
      res_bind (bd_report_from ks (s\<lparr>results := (results s)(k := arr)\<rparr>)) (\<lambda>(rows, s').
      Inr ((decode_breakdown k, l) # rows, s'))))"

definition bd_report :: "breakdown_op timings \<Rightarrow> ((string \<times> lat_stats) list \<times> breakdown_op timings) res" where
  "bd_report s = bd_report_from bd_table s"

text \<open>The average of an unfinished batch is added to the results; what is cleared is a copy.\<close>

fun bd_submit_from :: "breakdown_op list \<Rightarrow> breakdown_op timings \<Rightarrow> collector \<Rightarrow> (breakdown_op timings \<times> collector) res" where
  "bd_submit_from [] s c = Inr (s, c)"
| "bd_submit_from (k # ks) s c =
     res_bind (if tmp s k \<noteq> [] then res_bind (avg (tmp s k)) (\<lambda>a. Inr (results s k @ [a])) else Inr (results s k)) (\<lambda>rs.
     (let arr = rev (sort rs) in
      res_bind (lat_of arr) (\<lambda>l.
      bd_submit_from ks (s\<lparr>results := (results s)(k := arr)\<rparr>) (collect (decode_breakdown k) l c))))"

definition bd_submit :: "breakdown_op timings \<Rightarrow> collector \<Rightarrow> (breakdown_op timings \<times> collector) res" where
  "bd_submit s c = bd_submit_from bd_table s c"

definition bd_clear :: "breakdown_op timings \<Rightarrow> breakdown_op timings" where
  "bd_clear s = fold (\<lambda>k s. s\<lparr>results := (results s)(k := []), tmp := (tmp s)(k := [])\<rparr>) bd_table s"

end
