(* ===== verification/StatsProps.thy ===== *)
theory StatsProps
  imports Stats
begin

text \<open>
  What the statistics compute: averages lie between the numbers they are of, and the results of an
  operation are the averages of the batches of its own spans, whatever other operations do.
\<close>

subsection \<open>Averages of spans\<close>

lemma partition_bounds:
  assumes "0 < n" "n \<le> 2 ^ 53" "0 \<le> p" "p \<le> 999 / 10"
  shows "1 \<le> partition_size n p" "partition_size n p \<le> int n"
proof -
  have d: "is_double (1023 / 1024)" unfolding is_double_def
    by (rule exI [of _ 1023], rule exI [of _ "-10"]) (simp add: two_to_def)
  have d': "is_double (1 / 1024)" unfolding is_double_def
    by (rule exI [of _ 1], rule exI [of _ "-10"]) (simp add: two_to_def)
  have q: "0 \<le> rnd (p / 100)" "rnd (p / 100) \<le> 1023 / 1024"
    using assms(3,4) rnd_nonneg [of "p / 100"] rnd_le [OF _ d, of "p / 100"] by simp_all
  then have s: "1 / 1024 \<le> rnd (1 - rnd (p / 100))" "rnd (1 - rnd (p / 100)) \<le> 1"
    using rnd_ge [OF _ d', of "1 - rnd (p / 100)"] rnd_le [of "1 - rnd (p / 100)" 1] nat_double [of 1] by simp_all
  let ?s = "rnd (1 - rnd (p / 100))"
  have m: "1 / 1024 \<le> of_nat n * ?s" "of_nat n * ?s \<le> of_nat n"
  proof -
    have "1 * (1 / 1024) \<le> of_nat n * ?s" using assms(1) s(1) by (intro mult_mono) simp_all
    then show "1 / 1024 \<le> of_nat n * ?s" by simp
    have "of_nat n * ?s \<le> of_nat n * 1" using s(2) by (intro mult_left_mono) simp_all
    then show "of_nat n * ?s \<le> of_nat n" by simp
  qed
  have r: "1 / 1024 \<le> rnd (of_nat n * ?s)" "rnd (of_nat n * ?s) \<le> of_nat n"
    using rnd_ge [OF m(1) d'] rnd_le [OF m(2) nat_double [OF assms(2)]] m(1) by simp_all
  have e: "partition_size n p = \<lceil>rnd (of_nat n * ?s)\<rceil>" using assms(2) by (simp add: partition_size_def)
  show "1 \<le> partition_size n p" unfolding e using r(1) by linarith
  show "partition_size n p \<le> int n" unfolding e using r(2) by (simp add: ceiling_le_iff)
qed

lemma partition_all: "n \<le> 2 ^ 53 \<Longrightarrow> partition_size n 0 = int n"
  by (simp add: partition_size_def)

text \<open>Sums of numbers of nanoseconds are exact.\<close>

lemma accumulate_from:
  "a + sum_list ns \<le> 2 ^ 53 \<Longrightarrow> foldl (\<lambda>a x. rnd (a + x)) (of_nat a) (map of_nat ns) = of_nat (a + sum_list ns)"
proof (induction ns arbitrary: a)
  case (Cons n ns)
  have "rnd (of_nat a + of_nat n) = of_nat (a + n)" using Cons.prems rnd_nat [of "a + n"] by simp
  then show ?case using Cons.IH [of "a + n"] Cons.prems by (simp add: add.assoc)
qed simp

lemma accumulate_nat: "sum_list ns \<le> 2 ^ 53 \<Longrightarrow> accumulate (map of_nat ns) = of_nat (sum_list ns)"
  using accumulate_from [of 0 ns] by (simp add: accumulate_def)

lemma sum_list_bounds:
  assumes "\<And>x. x \<in> set ns \<Longrightarrow> lo \<le> x \<and> x \<le> hi"
  shows "lo * length ns \<le> sum_list ns" "sum_list ns \<le> hi * length (ns :: nat list)"
  using assms by (induction ns) fastforce+

text \<open>The average of a share of a list of spans, for the shares the program asks for and every other
  up to 99.9 percent: it is that of the first elements, at least one of them and never one behind the
  list, correctly rounded; so it lies between the least and the greatest of them.  With 0 percent
  it is the average of all.\<close>

theorem percentile_of_spans:
  assumes "ns \<noteq> []" "length ns \<le> 2 ^ 53" "sum_list ns \<le> 2 ^ 53" "0 \<le> p" "p \<le> 999 / 10"
  shows "\<exists>k r. 1 \<le> k \<and> k \<le> length ns \<and> (p = 0 \<longrightarrow> k = length ns) \<and> percentile (map of_nat ns) p = Inr r \<and>
    r = rnd (of_nat (sum_list (take k ns)) / of_nat k) \<and>
    of_nat (Min (set (take k ns))) \<le> r \<and> r \<le> of_nat (Max (set (take k ns)))"
proof -
  define k where "k = nat (partition_size (length ns) p)"
  note b = partition_bounds [of "length ns", OF _ assms(2,4,5)]
  have k: "1 \<le> k" "k \<le> length ns" "partition_size (length ns) p = int k" using b assms(1) by (simp_all add: k_def)
  have z: "p = 0 \<longrightarrow> k = length ns" using partition_all [OF assms(2)] by (simp add: k_def)
  let ?xs = "take k ns"
  have ne: "set ?xs \<noteq> {}" "length ?xs = k" using k assms(1) by (cases ns; cases k; simp)+
  have "sum_list ?xs + sum_list (drop k ns) = sum_list ns" by (metis append_take_drop_id sum_list_append)
  then have s: "sum_list ?xs \<le> 2 ^ 53" using assms(3) by linarith
  have e: "percentile (map of_nat ns) p = Inr (rnd (of_nat (sum_list ?xs) / of_nat k))"
    using assms(1) k accumulate_nat [OF s] by (simp add: percentile_def divide_def take_map)
  have sb: "Min (set ?xs) * k \<le> sum_list ?xs" "sum_list ?xs \<le> Max (set ?xs) * k"
    using sum_list_bounds [of ?xs "Min (set ?xs)" "Max (set ?xs)"] ne(2) by simp_all
  have mx: "Max (set ?xs) \<le> 2 ^ 53"
    by (rule order_trans [OF member_le_sum_list s]) (use Max_in [of "set ?xs"] ne(1) in auto)
  moreover have "Min (set ?xs) \<le> Max (set ?xs)" using ne(1) by simp
  ultimately have mn: "Min (set ?xs) \<le> 2 ^ 53" by linarith
  have "of_nat (Min (set ?xs) * k) \<le> (of_nat (sum_list ?xs) :: rat)" "(of_nat (sum_list ?xs) :: rat) \<le> of_nat (Max (set ?xs) * k)"
    using sb by (simp_all only: of_nat_le_iff)
  then have "of_nat (Min (set ?xs)) \<le> (of_nat (sum_list ?xs) / of_nat k :: rat)" "(of_nat (sum_list ?xs) / of_nat k :: rat) \<le> of_nat (Max (set ?xs))"
    using k(1) by (simp_all add: le_divide_eq divide_le_eq)
  then have "of_nat (Min (set ?xs)) \<le> rnd (of_nat (sum_list ?xs) / of_nat k)" "rnd (of_nat (sum_list ?xs) / of_nat k) \<le> of_nat (Max (set ?xs))"
    using nat_double [OF mn] nat_double [OF mx] by (simp_all add: rnd_ge rnd_le)
  then show ?thesis using k(1,2) z e by (intro exI [of _ k] exI [of _ "rnd (of_nat (sum_list ?xs) / of_nat k)"]) simp
qed

lemma percentile_of_spans_witness:
  "\<exists>k r. 1 \<le> k \<and> k \<le> (4 :: nat) \<and> percentile (map of_nat [90, 70, 30, 10 :: nat]) 50 = Inr r \<and> 10 \<le> r \<and> r \<le> 90"
proof -
  obtain k r where k: "1 \<le> k" "k \<le> 4" "percentile (map of_nat [90, 70, 30, 10 :: nat]) 50 = Inr r"
    "of_nat (Min (set (take k [90, 70, 30, 10 :: nat]))) \<le> r" "r \<le> of_nat (Max (set (take k [90, 70, 30, 10 :: nat])))"
    using percentile_of_spans [of "[90, 70, 30, 10]" 50] by auto
  have ne: "set (take k [90, 70, 30, 10 :: nat]) \<noteq> {}" and sub: "set (take k [90, 70, 30, 10 :: nat]) \<subseteq> {90, 70, 30, 10}"
    using k(1) set_take_subset [of k "[90, 70, 30, 10 :: nat]"] by auto
  have "Min (set (take k [90, 70, 30, 10 :: nat])) \<in> {90, 70, 30, 10}" "Max (set (take k [90, 70, 30, 10 :: nat])) \<in> {90, 70, 30, 10}"
    using Min_in [OF _ ne] Max_in [OF _ ne] sub by auto
  then have "10 \<le> Min (set (take k [90, 70, 30, 10 :: nat]))" "Max (set (take k [90, 70, 30, 10 :: nat])) \<le> 90" by auto
  then have "(of_nat 10 :: rat) \<le> of_nat (Min (set (take k [90, 70, 30, 10 :: nat])))" "of_nat (Max (set (take k [90, 70, 30, 10 :: nat]))) \<le> (of_nat 90 :: rat)"
    by (simp_all only: of_nat_le_iff)
  then have "10 \<le> r" "r \<le> 90" using order_trans [OF _ k(4), of 10] order_trans [OF k(5), of 90] by simp_all
  then show ?thesis using k(1-3) by blast
qed

text \<open>The share of one percent is 0.01 with a rest, so of a hundred spans two count for the 99th percentile;
  that of ten percent falls short of 0.1.\<close>

lemma p99_of_hundred: "partition_size 100 99 = 2" "partition_size 99 99 = 1"
proof -
  have "\<lceil>rnd (100 * rnd (1 - rnd (99 / 100)))\<rceil> = 2" "\<lceil>rnd (99 * rnd (1 - rnd (99 / 100)))\<rceil> = 1" by code_simp+
  then show "partition_size 100 99 = 2" "partition_size 99 99 = 1"
    using rnd_nat [of 100] rnd_nat [of 99] by (simp_all add: partition_size_def)
qed

lemma p90_of_ten: "partition_size 10 90 = 1"
proof -
  have "\<lceil>rnd (10 * rnd (1 - rnd (90 / 100)))\<rceil> = 1" by code_simp
  then show ?thesis using rnd_nat [of 10] by (simp add: partition_size_def)
qed

subsection \<open>Batches\<close>

text \<open>What happens to the collection of one thread: an operation begins or ends at some time.\<close>

datatype 'k event = Began 'k int | Ended 'k int

fun run_events :: "'k event list \<Rightarrow> 'k timings \<Rightarrow> 'k timings res" where
  "run_events [] s = Inr s"
| "run_events (Began k now # es) s = run_events es (op_begin k now s)"
| "run_events (Ended k now # es) s = res_bind (op_end k now s) (run_events es)"

text \<open>The spans of one operation, from the start it began last.\<close>

fun measured :: "'k \<Rightarrow> int \<Rightarrow> 'k event list \<Rightarrow> double list" where
  "measured k start [] = []"
| "measured k start (Began j now # es) = measured k (if j = k then now else start) es"
| "measured k start (Ended j now # es) = (if j = k then [rnd (of_int (now - start))] else []) @ measured k start es"

definition mean :: "double list \<Rightarrow> double" where
  "mean xs = rnd (accumulate xs / of_nat (length xs))"

function batches :: "nat \<Rightarrow> 'a list \<Rightarrow> 'a list list" where
  "batches b xs = (if b = 0 \<or> length xs < b then [] else take b xs # batches b (drop b xs))"
  by pat_completeness auto
termination by (relation "measure (\<lambda>(b, xs). length xs)") auto

declare batches.simps [simp del]

definition unfinished :: "nat \<Rightarrow> 'a list \<Rightarrow> 'a list" where
  "unfinished b xs = drop (b * (length xs div b)) xs"

lemma avg_mean: "xs \<noteq> [] \<Longrightarrow> length xs \<le> 2 ^ 53 \<Longrightarrow> avg xs = Inr (mean xs)"
  by (simp add: avg_def percentile_def partition_all divide_def mean_def)

lemma batches_full: "length xs = b \<Longrightarrow> 0 < b \<Longrightarrow> batches b (xs @ ys) = xs # batches b ys"
  by (subst batches.simps) simp

lemma unfinished_full:
  assumes "length xs = b" "0 < b"
  shows "unfinished b (xs @ ys) = unfinished b ys"
proof -
  have "(b + length ys) div b = Suc (length ys div b)" using assms(2) by simp
  then show ?thesis using assms(1) by (simp add: unfinished_def)
qed

lemma batches_short: "b = 0 \<or> length xs < b \<Longrightarrow> batches b xs = [] \<and> unfinished b xs = xs"
  by (subst batches.simps) (auto simp: unfinished_def)

lemma op_end_run:
  assumes "unat (batch s) \<le> 2 ^ 53" "length (tmp s k) < unat (batch s) \<or> unat (batch s) = 0"
  shows "\<exists>s'. op_end k now s = Inr s' \<and> batch s' = batch s \<and> spans s' = spans s \<and>
    (\<forall>j. j \<noteq> k \<longrightarrow> results s' j = results s j \<and> tmp s' j = tmp s j) \<and>
    (let t = tmp s k @ [rnd (of_int (now - fst (spans s k)))] in
     if length t = unat (batch s) then results s' k = results s k @ [mean t] \<and> tmp s' k = []
     else results s' k = results s k \<and> tmp s' k = t)"
  using assms avg_mean [of "tmp s k @ [rnd (of_int (now - fst (spans s k)))]"] by (auto simp: op_end_def Let_def)

lemma run_events_batches:
  assumes "unat (batch s) \<le> 2 ^ 53" "\<And>k. length (tmp s k) < unat (batch s) \<or> unat (batch s) = 0"
  shows "\<exists>s'. run_events es s = Inr s' \<and>
    (\<forall>k. results s' k = results s k @ map mean (batches (unat (batch s)) (tmp s k @ measured k (fst (spans s k)) es)) \<and>
         tmp s' k = unfinished (unat (batch s)) (tmp s k @ measured k (fst (spans s k)) es))"
  using assms
proof (induction es arbitrary: s)
  case Nil
  show ?case
  proof (intro exI [of _ s] conjI allI)
    fix k
    have "unat (batch s) = 0 \<or> length (tmp s k) < unat (batch s)" using Nil.prems(2) [of k] by blast
    from batches_short [OF this]
    show "results s k = results s k @ map mean (batches (unat (batch s)) (tmp s k @ measured k (fst (spans s k)) []))"
      "tmp s k = unfinished (unat (batch s)) (tmp s k @ measured k (fst (spans s k)) [])" by simp_all
  qed simp
next
  case (Cons e es)
  show ?case
  proof (cases e)
    case (Began k now)
    let ?s = "op_begin k now s"
    have "unat (batch ?s) \<le> 2 ^ 53" "\<And>k. length (tmp ?s k) < unat (batch ?s) \<or> unat (batch ?s) = 0"
      using Cons.prems by (simp_all add: op_begin_def)
    from Cons.IH [OF this] show ?thesis
      by (simp add: Began op_begin_def if_distrib [of fst] if_distrib [of "\<lambda>t. measured _ t _"] eq_commute [of k] cong: if_cong)
  next
    case (Ended k now)
    let ?b = "unat (batch s)" and ?t = "tmp s k @ [rnd (of_int (now - fst (spans s k)))]"
    obtain s1 where s1: "op_end k now s = Inr s1" "batch s1 = batch s" "spans s1 = spans s"
      "\<And>j. j \<noteq> k \<Longrightarrow> results s1 j = results s j \<and> tmp s1 j = tmp s j"
      "if length ?t = ?b then results s1 k = results s k @ [mean ?t] \<and> tmp s1 k = [] else results s1 k = results s k \<and> tmp s1 k = ?t"
      using op_end_run [OF Cons.prems(1,2), of k now] unfolding Let_def by blast
    have inv: "length (tmp s1 j) < unat (batch s1) \<or> unat (batch s1) = 0" for j
    proof (cases "j = k")
      case True
      then show ?thesis using s1(2,5) Cons.prems(2) [of k] by (cases "length ?t = ?b") auto
    qed (use s1 Cons.prems(2) in simp)
    obtain s' where s': "run_events es s1 = Inr s'"
      "\<And>j. results s' j = results s1 j @ map mean (batches ?b (tmp s1 j @ measured j (fst (spans s j)) es))"
      "\<And>j. tmp s' j = unfinished ?b (tmp s1 j @ measured j (fst (spans s j)) es)"
      using Cons.IH [of s1, OF _ inv] Cons.prems(1) s1(2,3) by auto
    have "results s' j = results s j @ map mean (batches ?b (tmp s j @ measured j (fst (spans s j)) (e # es))) \<and>
      tmp s' j = unfinished ?b (tmp s j @ measured j (fst (spans s j)) (e # es))" for j
    proof (cases "j = k")
      case False
      then show ?thesis using s' s1(4) Ended by simp
    next
      case True
      show ?thesis
      proof (cases "length ?t = ?b")
        case True
        then have "0 < ?b" by simp
        note f = batches_full [OF True this] unfinished_full [OF True this]
        show ?thesis using s'(2,3) [of k] s1(5) f Ended \<open>j = k\<close> True by simp
      next
        case False
        then show ?thesis using s'(2,3) [of k] s1(5) Ended \<open>j = k\<close> by simp
      qed
    qed
    then show ?thesis using s'(1) s1(1) Ended by (intro exI [of _ s']) simp
  qed
qed

lemma results_of_events:
  assumes "unat b \<le> 2 ^ 53"
  shows "\<exists>s. run_events es (new_timings b) = Inr s \<and>
    (\<forall>k. results s k = map mean (batches (unat b) (measured k 0 es)) \<and> tmp s k = unfinished (unat b) (measured k 0 es))"
  using run_events_batches [of "new_timings b" es] assms by (auto simp: new_timings_def)

text \<open>C35: whatever begins and ends in whatever order, the results kept for an operation are the averages
  of the full batches of its own spans, one after another, and what waits is the rest.  No ending
  faults.\<close>

theorem results_are_batch_averages:
  assumes "unat b \<le> 2 ^ 53"
  shows "\<exists>s. run_events es (new_timings b) = Inr s \<and>
    (\<forall>k. results s k = map mean (batches (unat b) (measured k 0 es)) \<and> tmp s k = unfinished (unat b) (measured k 0 es))"
  by (rule results_of_events [OF assms])

lemma results_are_batch_averages_witness:
  "\<exists>s. run_events [Began Put 10, Began Get 15, Ended Get 25, Ended Put 50, Began Get 60, Ended Get 80] (new_timings 2) = Inr s \<and>
    results s Get = [15] \<and> tmp s Put = [40]"
proof -
  let ?es = "[Began Put 10, Began Get 15, Ended Get 25, Ended Put 50, Began Get 60, Ended Get 80]"
  have r: "rnd 10 = 10" "rnd 20 = 20" "rnd 30 = 30" "rnd 40 = 40" "rnd 15 = 15"
    using rnd_nat [of 10] rnd_nat [of 20] rnd_nat [of 30] rnd_nat [of 40] rnd_nat [of 15] by simp_all
  have m: "measured Get 0 ?es = [10, 20]" "measured Put 0 ?es = [40]" using r by simp_all
  have "batches 2 [10 :: rat, 20] = [[10, 20]]" using batches_full [of "[10 :: rat, 20]" 2 "[]"] batches_short [of 2 "[] :: rat list"] by simp
  moreover have "unfinished 2 [40 :: rat] = [40]" using batches_short [of 2 "[40 :: rat]"] by simp
  moreover have "mean [10, 20] = 15" using r by (simp add: mean_def accumulate_def)
  ultimately show ?thesis using results_are_batch_averages [of 2 ?es] m by auto
qed

text \<open>\<open>submit\<close> of \<open>Operation\<close> leaves the unfinished batch out: when no operation has a full batch, all
  numbers are submitted as zero, whatever was measured.\<close>

definition no_latencies :: lat_stats where
  "no_latencies = \<lparr>ls_avg = 0, ls_p50 = 0, ls_p90 = 0, ls_p99 = 0\<rparr>"

lemma lat_of_Nil: "lat_of [] = Inr no_latencies"
  by (simp add: make_lat_stats_def lat_of_def avg_def p50_def p90_def p99_def percentile_def no_latencies_def)

theorem unfinished_batches_submitted_as_zero:
  assumes "unat b \<le> 2 ^ 53" "run_events es (new_timings b) = Inr s" "\<And>k. length (measured k 0 es) < unat b"
  shows "op_submit s [] = Inr (s, map (\<lambda>k. (decode_op k, [no_latencies])) ops_table)"
proof -
  obtain s' where s': "run_events es (new_timings b) = Inr s'" "\<And>k. results s' k = map mean (batches (unat b) (measured k 0 es))"
    using results_of_events [OF assms(1), of es] by blast
  then have r: "results s k = []" for k using assms(2) batches_short [of "unat b" "measured k 0 es"] assms(3) by simp
  then have "(results s)(k := []) = results s" for k by (simp add: fun_upd_idem)
  then show ?thesis by (simp add: op_submit_def ops_table_def r lat_of_Nil)
qed

lemma unfinished_batches_submitted_as_zero_witness:
  "\<exists>s. run_events [Began Put 10, Ended Put 50] (new_timings 100) = Inr s \<and>
    op_submit s [] = Inr (s, map (\<lambda>k. (decode_op k, [no_latencies])) ops_table)"
proof -
  let ?es = "[Began Put 10, Ended Put 50]"
  obtain s where s: "run_events ?es (new_timings 100) = Inr s" using results_of_events [of 100 ?es] by auto
  have "length (measured k 0 ?es) < unat (100 :: u64)" for k by simp
  from unfinished_batches_submitted_as_zero [OF _ s this] s show ?thesis by auto
qed

text \<open>\<open>submit\<close> of \<open>Breakdown\<close> adds the unfinished batch to the results and clears a copy of it: the next
  submission, and the next full batch, count it again.\<close>

lemma bd_submit_adds_again:
  assumes "tmp s k \<noteq> []" "length (tmp s k) \<le> 2 ^ 53" "lat_of (rev (sort (results s k @ [mean (tmp s k)]))) = Inr l"
  shows "bd_submit_from [k] s c = Inr (s\<lparr>results := (results s)(k := rev (sort (results s k @ [mean (tmp s k)])))\<rparr>, collect (decode_breakdown k) l c)"
  using assms avg_mean [OF assms(1,2)] by (simp add: Let_def)

end
