(* ===== verification/Reports.thy ===== *)
theory Reports
  imports PutSplits StatsProps
begin

text \<open>
  The report functions of a compute node (\<open>components/node/compute_node/compute_node.cpp\<close>) and of
  the search layer (\<open>components/search_layer/search_layer.cpp\<close>): what is printed is the result.  They
  walk the bottom level of the skip list and fetch every data node from remote memory.
\<close>

subsection \<open>The search layer\<close>

definition iter :: "skiplist \<Rightarrow> nat option" where
  "iter sl = Some (head sl)"

text \<open>The anchors of one level, from a node on.\<close>

partial_function (option) dump_level :: "skiplist \<Rightarrow> nat \<Rightarrow> nat \<Rightarrow> bytes list run" where
  "dump_level sl i w =
     (case get_forward sl (Some w) i of
        Inl e \<Rightarrow> Some (Inl e)
      | Inr None \<Rightarrow> Some (Inr [])
      | Inr (Some m) \<Rightarrow>
          (case deref sl (Some m) of
             Inl e \<Rightarrow> Some (Inl e)
           | Inr n \<Rightarrow> run_bind (dump_level sl i m) (\<lambda>as. Some (Inr (anchor n # as)))))"

fun dump_levels :: "skiplist \<Rightarrow> nat \<Rightarrow> bytes list list run" where
  "dump_levels sl 0 = Some (Inr [])"
| "dump_levels sl (Suc i) =
     run_bind (dump_level sl i (head sl)) (\<lambda>as. run_bind (dump_levels sl i) (\<lambda>rest. Some (Inr (as # rest))))"

definition sl_dump :: "skiplist \<Rightarrow> bytes list list run" where
  "sl_dump sl = dump_levels sl (current_level sl)"

text \<open>The lengths of the levels, from the bottom; the array has \<open>MAX_LEVEL\<close> places.  The size of a node
  is the compiler's.\<close>

partial_function (option) level_count :: "skiplist \<Rightarrow> nat \<Rightarrow> nat \<Rightarrow> nat \<Rightarrow> nat run" where
  "level_count sl i w k =
     (case get_forward sl (Some w) i of
        Inl e \<Rightarrow> Some (Inl e)
      | Inr None \<Rightarrow> Some (Inr k)
      | Inr (Some m) \<Rightarrow> level_count sl i m (k + 1))"

fun level_counts :: "skiplist \<Rightarrow> nat \<Rightarrow> nat list \<Rightarrow> nat list run" where
  "level_counts sl 0 acc = Some (Inr acc)"
| "level_counts sl (Suc i) acc =
     (if MAX_LEVEL \<le> i then Some (Inl OutOfBounds)
      else run_bind (level_count sl i (head sl) 0) (\<lambda>k. level_counts sl i (k # acc)))"

definition show_levels :: "nat \<Rightarrow> skiplist \<Rightarrow> (nat \<times> nat \<times> nat list) run" where
  "show_levels node_size sl =
     run_bind (level_counts sl (current_level sl) []) (\<lambda>ls.
     Some (Inr (sum_list ls, sum_list ls * node_size div 2 ^ 20, ls)))"

subsection \<open>Data nodes\<close>

text \<open>\<open>LinkedNode::dump\<close>: type, number of records, fingerprints and keys; \<open>check\<close> asserts that the number is
  at most 16.\<close>

definition node_dump :: "linked_node \<Rightarrow> (u32 \<times> u32 \<times> byte_t list \<times> bytes list) res" where
  "node_dump n =
     (if length (fingerprints n) < unat (nxt n) \<or> length (pairs n) < unat (nxt n) then Inl OutOfBounds
      else Inr (ntype n, nxt n, take (unat (nxt n)) (fingerprints n), map kv_key (take (unat (nxt n)) (pairs n))))"

definition node_check :: "linked_node \<Rightarrow> unit res" where
  "node_check n = (if nxt n \<le> 16 then Inr () else Inl RuntimeError)"

text \<open>The loop of \<open>dump_list\<close>, \<open>check_list\<close> and \<open>report_data_layer_stats\<close>: each node behind \<open>w\<close> is fetched and
  looked at.\<close>

partial_function (option) visit :: "'w env \<Rightarrow> nat \<Rightarrow> (skip_node \<Rightarrow> linked_node \<Rightarrow> 'a res) \<Rightarrow> nat \<Rightarrow> 'w cn \<Rightarrow> ('a list \<times> 'w cn) run" where
  "visit E tid look w s =
     st_bind (st_get slist) (\<lambda>sl.
     st_bind (st_lift (get_forward sl (Some w) 0)) (\<lambda>f.
     case f of
       None \<Rightarrow> st_ret []
     | Some d \<Rightarrow>
         st_bind (node_at (Some d)) (\<lambda>n.
         st_bind (st_get rm) (\<lambda>m.
         st_bind (on_net (fetch_as (vb E) m tid (data_node n) sizeof16 0)) (\<lambda>buffer.
         st_bind (st_lift (non_null buffer)) (\<lambda>off.
         st_bind (get_view off) (\<lambda>b.
         st_bind (st_lift (look n b)) (\<lambda>x.
         st_bind (visit E tid look d) (\<lambda>rest.
         st_ret (x # rest))))))))) ) s"

definition dump_list :: "'w env \<Rightarrow> nat \<Rightarrow> ('w cn, bytes list list \<times> (bytes \<times> u32 \<times> u32 \<times> byte_t list \<times> bytes list) list) prog" where
  "dump_list E tid =
     st_bind (st_get slist) (\<lambda>sl.
     st_bind (st_run (sl_dump sl)) (\<lambda>levels.
     st_bind (visit E tid (\<lambda>n b. res_bind (node_dump b) (\<lambda>t. Inr (anchor n, t))) (head sl)) (\<lambda>rows.
     st_ret (levels, rows))))"

definition check_list :: "'w env \<Rightarrow> nat \<Rightarrow> ('w cn, bytes list list \<times> bytes list) prog" where
  "check_list E tid =
     st_bind (st_get slist) (\<lambda>sl.
     st_bind (st_run (sl_dump sl)) (\<lambda>levels.
     st_bind (visit E tid (\<lambda>n b. res_bind (node_check b) (\<lambda>_. Inr (anchor n))) (head sl)) (\<lambda>rows.
     st_ret (levels, rows))))"

definition report_search_layer_stats :: "nat \<Rightarrow> ('w cn, nat \<times> nat \<times> nat list) prog" where
  "report_search_layer_stats node_size =
     st_bind (st_get slist) (\<lambda>sl. st_run (show_levels node_size sl))"

subsection \<open>Usage of the data layer\<close>

text \<open>The member \<open>data_layer_stats\<close>, a map in the order of the types; it is never cleared.\<close>

type_synonym layer_stats = "(u32 \<times> double list) list"

fun stats_push :: "u32 \<Rightarrow> double \<Rightarrow> layer_stats \<Rightarrow> layer_stats" where
  "stats_push t x [] = [(t, [x])]"
| "stats_push t x ((k, v) # m) =
     (if t = k then (k, v @ [x]) # m
      else if t < k then (t, [x]) # (k, v) # m
      else (k, v) # stats_push t x m)"

definition stats_total :: "layer_stats \<Rightarrow> double" where
  "stats_total m = foldl (\<lambda>t (k, v). rnd (t + rnd (of_nat (length v)))) 0 m"

fun usage_rows :: "layer_stats \<Rightarrow> (u32 \<times> lat_stats) list res" where
  "usage_rows [] = Inr []"
| "usage_rows ((k, v) # m) =
     res_bind (lat_of (sort v)) (\<lambda>l. res_bind (usage_rows m) (\<lambda>rest. Inr ((k, l) # rest)))"

fun share_rows :: "double \<Rightarrow> layer_stats \<Rightarrow> (u32 \<times> double) list res" where
  "share_rows all [] = Inr []"
| "share_rows all ((k, v) # m) =
     res_bind (divide (rnd (of_nat (length v))) all) (\<lambda>x. res_bind (share_rows all m) (\<lambda>rest. Inr ((k, x) # rest)))"

definition report_data_layer_stats ::
    "'w env \<Rightarrow> nat \<Rightarrow> layer_stats \<Rightarrow> ('w cn, layer_stats \<times> (u32 \<times> lat_stats) list \<times> (u32 \<times> double) list) prog" where
  "report_data_layer_stats E tid st =
     st_bind (st_get slist) (\<lambda>sl.
     st_bind (visit E tid (\<lambda>n b. Inr (ntype b, usage b)) (head sl)) (\<lambda>us.
     (let st1 = map (\<lambda>(k, v). (k, sort v)) (fold (\<lambda>(t, x). stats_push t x) us st) in
      st_bind (st_lift (usage_rows st1)) (\<lambda>rows.
      st_bind (st_lift (share_rows (stats_total st1) st1)) (\<lambda>shares.
      st_ret (st1, rows, shares))))))"

subsection \<open>Walking a well-formed list\<close>

lemma dump_level_linked:
  assumes "linked sl i w ys"
  shows "dump_level sl i w = Some (Inr (map (akey sl) ys))"
  using assms
proof (induction ys arbitrary: w)
  case (Cons y ys)
  obtain n where n: "deref sl (Some y) = Inr n"
    using linked_deref [OF Cons.prems, of y] by (auto simp: deref_def)
  show ?case using Cons by (subst dump_level.simps) (simp add: n deref_akey [OF n])
qed (subst dump_level.simps, simp)

lemma level_count_linked: "linked sl i w ys \<Longrightarrow> level_count sl i w k = Some (Inr (k + length ys))"
  by (induction ys arbitrary: w k) (subst level_count.simps, simp)+

lemma dump_levels_inv:
  assumes "sl_inv sl xs hgt" "i \<le> 16"
  shows "dump_levels sl i = Some (Inr (map (\<lambda>j. map (akey sl) (level_list hgt j xs)) (rev [0..<i])))"
  using assms(2)
proof (induction i)
  case (Suc i)
  then show ?case using dump_level_linked [OF sl_linked [OF assms(1), of i]] by simp
qed simp

lemma level_counts_inv:
  assumes "sl_inv sl xs hgt" "i \<le> 16"
  shows "level_counts sl i acc = Some (Inr (map (\<lambda>j. length (level_list hgt j xs)) [0..<i] @ acc))"
  using assms(2)
proof (induction i arbitrary: acc)
  case (Suc i)
  then show ?case using level_count_linked [OF sl_linked [OF assms(1), of i], of 0] by (simp add: MAX_LEVEL_def)
qed simp

text \<open>What a visit sees of an entry, when remote memory is \<open>m\<close>.\<close>

definition seen :: "memory \<Rightarrow> skiplist \<Rightarrow> (skip_node \<Rightarrow> linked_node \<Rightarrow> 'a res) \<Rightarrow> nat \<Rightarrow> 'a res" where
  "seen m sl look a = res_bind (deref sl (Some a)) (\<lambda>n. look n (node_in m (data_node n)))"

fun seen_all :: "memory \<Rightarrow> skiplist \<Rightarrow> (skip_node \<Rightarrow> linked_node \<Rightarrow> 'a res) \<Rightarrow> nat list \<Rightarrow> 'a list res" where
  "seen_all m sl look [] = Inr []"
| "seen_all m sl look (a # as) = res_bind (seen m sl look a) (\<lambda>x. res_bind (seen_all m sl look as) (\<lambda>xs. Inr (x # xs)))"

definition all_reach :: "(u64 \<Rightarrow> nat \<Rightarrow> bool) \<Rightarrow> nat \<Rightarrow> 'w cn \<Rightarrow> nat list \<Rightarrow> bool" where
  "all_reach reg tid s as \<longleftrightarrow> list_all (\<lambda>a. case heap (slist s) a of None \<Rightarrow> False | Some n \<Rightarrow> reaches reg tid s (data_node n) sizeof16) as"

lemma reaches_net: "reaches reg tid (s\<lparr>net := n\<rparr>) p sz = reaches reg tid s p sz"
  by (simp add: reaches_def)

lemma all_reach_net: "all_reach reg tid (s\<lparr>net := n\<rparr>) as = all_reach reg tid s as"
  unfolding all_reach_def reaches_net by simp

context rdma_fabric
begin

lemma visit_linked:
  fixes s :: "'w cn"
  assumes "linked (slist s) 0 w ys" "usable connected outstanding tid s" "vb E = V" "all_reach registered tid s ys"
  shows "\<exists>n'. visit E tid look w s =
      Some (res_bind (seen_all (snd (settled (net s))) (slist s) look ys) (\<lambda>xs. Inr (xs, s\<lparr>net := n'\<rparr>))) \<and>
    snd (settled n') = snd (settled (net s)) \<and> usable connected outstanding tid (s\<lparr>net := n'\<rparr>)"
  using assms
proof (induction ys arbitrary: w s)
  case Nil
  then show ?case by (subst visit.simps) (auto simp: step_simps intro!: exI [of _ "net s"], simp add: st_ret_def)
next
  case (Cons y ys)
  let ?m = "snd (settled (net s))"
  obtain n where n: "heap (slist s) y = Some n" "reaches registered tid s (data_node n) sizeof16"
    using Cons.prems(4) by (auto simp: all_reach_def split: option.splits)
  then have d: "deref (slist s) (Some y) = Inr n" by (simp add: deref_def)
  have l: "0 + sizeof16 \<le> 8192" "length (lbuf (net s)) = 8192" using Cons.prems(2) by (simp_all add: sizeof16_def usable_def)
  obtain n1 where f: "fetch_as V (rm s) tid (data_node n) sizeof16 0 (net s) = Some (Inr (Some 0, n1))"
    and n1: "outstanding n1 = []" "lbuf n1 = put_bytes 0 (read_rem ?m (get_as (data_node n)) sizeof16) (lbuf (net s))"
      "snd (settled n1) = ?m" "length (lbuf n1) = 8192"
    using fetch_run [OF Cons.prems(2) n(2) l(1)] by blast
  have v: "view 0 (lbuf n1) = node_in ?m (data_node n)"
    using view_fetched [of "lbuf (net s)"] l(2) n1(2) by (simp add: sizeof16_def)
  let ?s = "s\<lparr>net := n1\<rparr>"
  have u1: "usable connected outstanding tid ?s" using Cons.prems(2) n1 by (simp add: usable_def)
  have r1: "all_reach registered tid ?s ys" using Cons.prems(4) unfolding all_reach_net by (simp add: all_reach_def)
  have w1: "linked (slist ?s) 0 y ys" "get_forward (slist s) (Some w) 0 = Inr (Some y)" using Cons.prems(1) by simp_all
  obtain n' where n': "visit E tid look y ?s = Some (res_bind (seen_all (snd (settled (net ?s))) (slist ?s) look ys) (\<lambda>xs. Inr (xs, ?s\<lparr>net := n'\<rparr>)))"
    "snd (settled n') = snd (settled (net ?s))" "usable connected outstanding tid (?s\<lparr>net := n'\<rparr>)"
    using Cons.IH [OF w1(1) u1 Cons.prems(3) r1] by blast
  have e: "visit E tid look w s = Some (res_bind (seen_all ?m (slist s) look (y # ys)) (\<lambda>xs. Inr (xs, s\<lparr>net := n'\<rparr>)))"
  proof (cases "look n (node_in ?m (data_node n))")
    case (Inl e)
    then show ?thesis using d f v Cons.prems(3) w1(2)
      by (subst visit.simps) (simp add: step_simps non_null_def seen_def)
  next
    case (Inr x)
    then have t: "visit E tid look w s = st_bind (visit E tid look y) (\<lambda>rest. st_ret (x # rest)) ?s"
      using d f v Cons.prems(3) w1(2) by (subst visit.simps) (simp add: step_simps non_null_def)
    show ?thesis unfolding t
      using d Inr n'(1) n1(3) by (cases "seen_all ?m (slist s) look ys") (simp_all add: st_bind_def seen_def st_ret_def)
  qed
  show ?case using e n' n1(3) by (intro exI [of _ n']) simp
qed

end

text \<open>The data nodes of the entries.\<close>

definition data_nodes :: "memory \<Rightarrow> skiplist \<Rightarrow> nat list \<Rightarrow> linked_node list" where
  "data_nodes m sl as = map (\<lambda>a. node_in m (data_node (the (heap sl a)))) as"

lemma seen_all_nodes:
  assumes "list_all (\<lambda>a. heap sl a \<noteq> None) as" "\<And>n b. look n b = Inr (g n b)"
  shows "seen_all m sl look as = Inr (map (\<lambda>a. g (the (heap sl a)) (node_in m (data_node (the (heap sl a))))) as)"
  using assms(1) by (induction as) (auto simp: seen_def deref_def assms(2))

lemma all_reach_heap: "all_reach reg tid s as \<Longrightarrow> list_all (\<lambda>a. heap (slist s) a \<noteq> None) as"
  by (auto simp: all_reach_def list_all_iff split: option.splits)

subsection \<open>The usage collected\<close>

definition stats_of :: "layer_stats \<Rightarrow> u32 \<Rightarrow> double list" where
  "stats_of st t = (case map_of st t of None \<Rightarrow> [] | Some v \<Rightarrow> v)"

lemma stats_push_keys: "set (map fst (stats_push t x st)) = insert t (set (map fst st))"
  by (induction t x st rule: stats_push.induct) auto

lemma stats_push_sorted: "sorted_wrt (<) (map fst st) \<Longrightarrow> sorted_wrt (<) (map fst (stats_push t x st))"
proof (induction t x st rule: stats_push.induct)
  case (2 t x k v m)
  consider "t = k" | "t < k" | "t \<noteq> k" "\<not> t < k" by blast
  then show ?case
  proof cases
    case 3
    then have "k < t" by simp
    then show ?thesis using 2 3 stats_push_keys [of t x m] by auto
  qed (use 2 in auto)
qed simp

lemma stats_push_of:
  assumes "sorted_wrt (<) (map fst st)"
  shows "stats_of (stats_push t x st) k = (if k = t then stats_of st k @ [x] else stats_of st k)"
  using assms
proof (induction t x st rule: stats_push.induct)
  case (2 t x j v m)
  then have n: "k \<notin> set (map fst m)" if "k \<le> j" for k using that by auto
  then have "map_of m k = None" if "k \<le> j" for k using that by (metis map_of_eq_None_iff set_map)
  then show ?case using 2 by (auto simp: stats_of_def less_imp_le)
qed (simp add: stats_of_def)

lemma stats_push_all:
  assumes "sorted_wrt (<) (map fst st)"
  shows "sorted_wrt (<) (map fst (fold (\<lambda>(t, x). stats_push t x) us st)) \<and>
    set (map fst (fold (\<lambda>(t, x). stats_push t x) us st)) = fst ` set us \<union> set (map fst st) \<and>
    (\<forall>k. stats_of (fold (\<lambda>(t, x). stats_push t x) us st) k = stats_of st k @ map snd (filter (\<lambda>(t, _). t = k) us))"
  using assms
proof (induction us arbitrary: st)
  case (Cons u us)
  obtain t x where u: "u = (t, x)" by (cases u)
  from Cons.IH [OF stats_push_sorted [OF Cons.prems, of t x]] show ?case
    using stats_push_of [OF Cons.prems, of t x] stats_push_keys [of t x st] by (auto simp: u)
qed simp

lemma percentile_some: "length xs \<le> 2 ^ 53 \<Longrightarrow> 0 \<le> p \<Longrightarrow> p \<le> 999 / 10 \<Longrightarrow> \<exists>r. percentile xs p = Inr r"
  using partition_bounds [of "length xs" p] by (cases "xs = []") (auto simp: percentile_def divide_def Let_def)

lemma lat_of_some: "length xs \<le> 2 ^ 53 \<Longrightarrow> \<exists>l. lat_of xs = Inr l"
  using percentile_some [of xs 0] percentile_some [of xs 50] percentile_some [of xs 90] percentile_some [of xs 99]
  by (auto simp: lat_of_def avg_def p50_def p90_def p99_def)

lemma usage_rows_some: "list_all (\<lambda>(_, v). length v \<le> 2 ^ 53) m \<Longrightarrow> \<exists>rows. usage_rows m = Inr rows \<and> map fst rows = map fst m"
proof (induction m rule: usage_rows.induct)
  case (2 k v m)
  then show ?case using lat_of_some [of "sort v"] by auto
qed simp

lemma share_rows_some: "t \<noteq> 0 \<Longrightarrow> \<exists>rows. share_rows t m = Inr rows"
  by (induction t m rule: share_rows.induct) (auto simp: divide_def)

lemma stats_total_from:
  "a + sum_list (map (length \<circ> snd) m) \<le> 2 ^ 53 \<Longrightarrow>
   foldl (\<lambda>t (k, v). rnd (t + rnd (of_nat (length v)))) (of_nat a) m = of_nat (a + sum_list (map (length \<circ> snd) m))"
proof (induction m arbitrary: a)
  case (Cons kv m)
  obtain k v where kv: "kv = (k, v)" by (cases kv)
  have "length v \<le> 2 ^ 53" "a + length v \<le> 2 ^ 53" using Cons.prems by (simp_all add: kv)
  then have "rnd (of_nat a + rnd (of_nat (length v))) = of_nat (a + length v)" using rnd_nat [of "length v"] rnd_nat [of "a + length v"] by simp
  then show ?case using Cons.IH [of "a + length v"] Cons.prems by (simp add: kv add.assoc)
qed simp

lemma stats_push_size: "sum_list (map (length \<circ> snd) (stats_push t x st)) = Suc (sum_list (map (length \<circ> snd) st))"
  by (induction t x st rule: stats_push.induct) simp_all

lemma stats_push_all_size:
  "sum_list (map (length \<circ> snd) (fold (\<lambda>(t, x). stats_push t x) us st)) = length us + sum_list (map (length \<circ> snd) st)"
  by (induction us arbitrary: st) (auto simp: stats_push_size split: prod.split)

lemma stats_of_sorted: "stats_of (map (\<lambda>(k, v). (k, sort v)) st) k = sort (stats_of st k)"
  by (induction st) (auto simp: stats_of_def)

lemma stats_sorted_size:
  "sum_list (map (length \<circ> snd) (map (\<lambda>(k, v). (k, sort v)) st)) = sum_list (map (length \<circ> snd) st)"
  by (induction st) auto

lemma keys_of_sorted: "map fst (map (\<lambda>(k, v). (k, sort v)) st) = map fst st"
  by (induction st) auto

text \<open>The rows that are printed exist for every map of at most \<open>2 ^ 53\<close> values.\<close>

lemma rows_some:
  assumes "sum_list (map (length \<circ> snd) st) \<le> 2 ^ 53" "st = [] \<or> sum_list (map (length \<circ> snd) st) \<noteq> 0"
  shows "\<exists>rows shares. usage_rows st = Inr rows \<and> map fst rows = map fst st \<and> share_rows (stats_total st) st = Inr shares"
proof -
  have "length v \<le> 2 ^ 53" if "(k, v) \<in> set st" for k v
    using member_le_sum_list [of "length v" "map (length \<circ> snd) st"] that assms(1) by (force intro: order_trans)
  then have "list_all (\<lambda>(_, v). length v \<le> 2 ^ 53) st" by (auto simp: list_all_iff)
  from usage_rows_some [OF this] obtain rows where r: "usage_rows st = Inr rows" "map fst rows = map fst st" by blast
  have t: "stats_total st = of_nat (sum_list (map (length \<circ> snd) st))"
    using stats_total_from [of 0 st] assms(1) by (simp add: stats_total_def)
  show ?thesis
  proof (cases "st = []")
    case False
    then have "stats_total st \<noteq> 0" using assms(2) unfolding t of_nat_eq_0_iff by blast
    from share_rows_some [OF this] r show ?thesis by blast
  qed (use r in simp)
qed

subsection \<open>The reports\<close>

text \<open>The state with a full node of sixteen records behind one with a single record.\<close>

lemma packed_all_reach: "all_reach (\<lambda>a n. True) 7 packed_state [2, 3]"
proof -
  have "reaches (\<lambda>a n. True) 7 packed_state p sz" if "get_node p = 0" for p sz
    using full_reaches [OF that, of sz] by (simp add: packed_state_def reaches_def)
  then show ?thesis by (simp add: all_reach_def packed_list_def)
qed

lemma packed_data_nodes:
  "data_nodes (snd (sim_settled (net packed_state))) (slist packed_state) [2, 3] = [demo_node [1] 10, demo_node packed_keys 16]"
  using pair_nodes [of packed_keys 16] by (simp add: data_nodes_def packed_list_def packed_keys_def)

lemma packed_inv_state: "sl_inv (slist packed_state) [2, 3] (\<lambda>_. 1)"
  using packed_inv(1) by simp

text \<open>What earlier reports can have left: types in order, each with some usages.\<close>

definition stats_ok :: "layer_stats \<Rightarrow> bool" where
  "stats_ok st \<longleftrightarrow> sorted_wrt (<) (map fst st) \<and> list_all (\<lambda>(_, v). v \<noteq> []) st"

lemma stats_push_ok: "stats_ok st \<Longrightarrow> stats_ok (stats_push t x st)"
proof -
  have "list_all (\<lambda>(_, v). v \<noteq> []) st \<Longrightarrow> list_all (\<lambda>(_, v). v \<noteq> []) (stats_push t x st)"
    by (induction t x st rule: stats_push.induct) auto
  then show "stats_ok st \<Longrightarrow> stats_ok (stats_push t x st)" by (simp add: stats_ok_def stats_push_sorted)
qed

lemma stats_push_all_ok: "stats_ok st \<Longrightarrow> stats_ok (fold (\<lambda>(t, x). stats_push t x) us st)"
  by (induction us arbitrary: st) (auto simp: stats_push_ok)

lemma stats_sorted_ok: "stats_ok st \<Longrightarrow> stats_ok (map (\<lambda>(k, v). (k, sort v)) st)"
proof -
  have "sort v = [] \<longleftrightarrow> v = []" for v :: "double list" by (metis length_0_conv length_sort)
  then have "list_all (\<lambda>(_, v). v \<noteq> []) (map (\<lambda>(k, v). (k, sort v)) st) = list_all (\<lambda>(_, v). v \<noteq> []) st"
    by (simp add: list.pred_map comp_def split_def)
  then show "stats_ok st \<Longrightarrow> stats_ok (map (\<lambda>(k, v). (k, sort v)) st)" by (simp only: stats_ok_def keys_of_sorted)
qed

lemma stats_ok_size: "stats_ok st \<Longrightarrow> st = [] \<or> sum_list (map (length \<circ> snd) st) \<noteq> 0"
  by (cases st) (auto simp: stats_ok_def)

text \<open>C34: on a well-formed search layer the report of the data layer reads every data node once and
  leaves the search layer and remote memory as they are.  The statistics are a member that no report
  clears: to the usages that earlier reports left there it adds, for every type, those of the data nodes of that type in remote
  memory, once each, and sorts them; it prints a row of numbers for every type that has any and
  none other.  The first report after the start counts every node exactly once (\<open>old = []\<close>); a
  second one counts those that are still there again.\<close>

theorem report_counts_every_node:
  assumes "rdma_fabric V base reg conn os settled" "usable conn os tid s" "vb E = V"
    and "sl_inv (slist s) as hgt" "all_reach reg tid s as" "stats_ok old"
    and "length as + sum_list (map (length \<circ> snd) old) \<le> 2 ^ 53"
  shows "\<exists>s' st rows shares. report_data_layer_stats E tid old s = Some (Inr ((st, rows, shares), s')) \<and> stats_ok st \<and>
    slist s' = slist s \<and> snd (settled (net s')) = snd (settled (net s)) \<and>
    (let nodes = data_nodes (snd (settled (net s))) (slist s) as in
       (\<forall>t. stats_of st t = sort (stats_of old t @ map usage (filter (\<lambda>b. ntype b = t) nodes))) \<and>
       map fst rows = map fst st \<and> set (map fst rows) = set (map fst old) \<union> ntype ` set nodes)"
proof -
  let ?m = "snd (settled (net s))" and ?look = "\<lambda>n b. Inr (ntype b, usage b)"
  let ?nodes = "data_nodes ?m (slist s) as"
  let ?us = "map (\<lambda>b. (ntype b, usage b)) ?nodes"
  have lk: "linked (slist s) 0 (head (slist s)) as" using sl_linked [OF assms(4), of 0] level_list_0 [OF assms(4)] by simp
  obtain n' where v: "visit E tid ?look (head (slist s)) s = Some (Inr (?us, s\<lparr>net := n'\<rparr>))" "snd (settled n') = ?m"
    using rdma_fabric.visit_linked [OF assms(1) lk assms(2,3,5), of ?look] seen_all_nodes [OF all_reach_heap [OF assms(5)], of ?look]
    by (auto simp: data_nodes_def comp_def)
  define st0 where "st0 = fold (\<lambda>(t, x). stats_push t x) ?us old"
  define st where "st = map (\<lambda>(k, v). (k, sort v)) st0"
  have old: "sorted_wrt (<) (map fst old)" using assms(6) by (simp add: stats_ok_def)
  note p = stats_push_all [OF old, of ?us, folded st0_def]
  have ok: "stats_ok st" unfolding st_def st0_def by (rule stats_sorted_ok [OF stats_push_all_ok [OF assms(6)]])
  have "sum_list (map (length \<circ> snd) st) = length as + sum_list (map (length \<circ> snd) old)"
    using stats_push_all_size [of ?us old] unfolding st_def stats_sorted_size st0_def by (simp add: data_nodes_def)
  then have sz: "sum_list (map (length \<circ> snd) st) \<le> 2 ^ 53" using assms(7) by simp
  obtain rows shares where r: "usage_rows st = Inr rows" "map fst rows = map fst st" "share_rows (stats_total st) st = Inr shares"
    using rows_some [OF sz stats_ok_size [OF ok]] by blast
  have e: "report_data_layer_stats E tid old s = Some (Inr ((st, rows, shares), s\<lparr>net := n'\<rparr>))"
    using r by (simp add: report_data_layer_stats_def step_simps st_bind_Inr [of "visit E tid ?look (head (slist s))", OF v(1)]
        st0_def [symmetric] st_def [symmetric] Let_def) (simp add: st_ret_def)
  have so: "stats_of st t = sort (stats_of old t @ map usage (filter (\<lambda>b. ntype b = t) ?nodes))" for t
    using p unfolding st_def stats_of_sorted by (simp add: filter_map comp_def)
  have ks: "map fst rows = map fst st0" using r(2) unfolding st_def keys_of_sorted .
  have so2: "set (map fst rows) = set (map fst old) \<union> ntype ` set ?nodes" unfolding ks using p by (auto simp: image_image)
  show ?thesis
    unfolding Let_def
    by (intro exI [of _ "s\<lparr>net := n'\<rparr>"] exI [of _ st] exI [of _ rows] exI [of _ shares] conjI allI e ok so r(2) so2)
      (simp_all add: v(2))
qed

lemma report_counts_every_node_witness:
  "\<exists>s' st rows shares. report_data_layer_stats (packed_env []) 7 [(16, [1])] packed_state = Some (Inr ((st, rows, shares), s')) \<and>
    stats_of st 16 = [1, 1] \<and> map fst rows = map fst st"
proof -
  let ?nodes = "[demo_node [1] 10, demo_node packed_keys 16]"
  have l: "stats_ok [(16, [1])]" "length [2, 3 :: nat] + sum_list (map (length \<circ> snd) [(16 :: u32, [1 :: double])]) \<le> 2 ^ 53"
    by (simp_all add: stats_ok_def)
  obtain s' st rows shares where r: "report_data_layer_stats (packed_env []) 7 [(16, [1])] packed_state = Some (Inr ((st, rows, shares), s'))"
    "\<And>t. stats_of st t = sort (stats_of [(16, [1])] t @ map usage (filter (\<lambda>b. ntype b = t) ?nodes))" "map fst rows = map fst st"
    using report_counts_every_node [OF simulated.rdma_fabric_axioms packed_fields(6) packed_env_simps(1) packed_inv_state packed_all_reach l]
    unfolding Let_def packed_data_nodes by blast
  have k: "length packed_keys = 16" by (simp add: packed_keys_def)
  have "usage (demo_node packed_keys 16) = 1"
    using demo_simps(1,4) [of packed_keys 16] k by (simp add: usage_def enumerator_def)
  then have "stats_of st 16 = [1, 1]"
    using r(2) [of 16] demo_simps(4) [of "[1]" 10] demo_simps(4) [of packed_keys 16] k by (simp add: stats_of_def)
  then show ?thesis using r(1,3) by blast
qed

text \<open>The check of the list succeeds exactly when every data node counts at most 16 records, and then
  gives every anchor in order; otherwise the assertion ends the program.\<close>

theorem check_passes_iff_counts_fit:
  assumes "rdma_fabric V base reg conn os settled" "usable conn os tid s" "vb E = V"
    and "sl_inv (slist s) as hgt" "all_reach reg tid s as"
  shows "if list_all (\<lambda>b. nxt b \<le> 16) (data_nodes (snd (settled (net s))) (slist s) as)
    then \<exists>s' levels. check_list E tid s = Some (Inr ((levels, map (akey (slist s)) as), s')) \<and> slist s' = slist s \<and>
      levels = map (\<lambda>i. map (akey (slist s)) (level_list hgt i as)) (rev [0..<current_level (slist s)])
    else check_list E tid s = Some (Inl RuntimeError)"
proof -
  let ?m = "snd (settled (net s))" and ?look = "\<lambda>n b. res_bind (node_check b) (\<lambda>_. Inr (anchor n))"
  let ?levels = "map (\<lambda>i. map (akey (slist s)) (level_list hgt i as)) (rev [0..<current_level (slist s)])"
  have lk: "linked (slist s) 0 (head (slist s)) as" using sl_linked [OF assms(4), of 0] level_list_0 [OF assms(4)] by simp
  obtain n' where v: "visit E tid ?look (head (slist s)) s =
      Some (res_bind (seen_all ?m (slist s) ?look as) (\<lambda>xs. Inr (xs, s\<lparr>net := n'\<rparr>)))"
    using rdma_fabric.visit_linked [OF assms(1) lk assms(2,3,5), of ?look] by blast
  have sd: "sl_dump (slist s) = Some (Inr ?levels)"
    unfolding sl_dump_def by (rule dump_levels_inv [OF assms(4)]) (use assms(4) in \<open>simp add: sl_inv_def MAX_LEVEL_def\<close>)
  have al: "seen_all ?m (slist s) ?look bs =
      (if list_all (\<lambda>b. nxt b \<le> 16) (data_nodes ?m (slist s) bs) then Inr (map (akey (slist s)) bs) else Inl RuntimeError)"
    if "list_all (\<lambda>a. heap (slist s) a \<noteq> None) bs" for bs
    using that by (induction bs) (auto simp: seen_def deref_def node_check_def data_nodes_def akey_def)
  note e = al [OF all_reach_heap [OF assms(5)]]
  have c: "check_list E tid s = (st_bind (visit E tid ?look (head (slist s))) (\<lambda>rows. st_ret (?levels, rows))) s"
    by (simp add: check_list_def step_simps sd)
  show ?thesis unfolding c using v e by (simp add: st_bind_def st_ret_def)
qed

lemma check_passes_iff_counts_fit_witness:
  "\<exists>s' levels. check_list (packed_env []) 7 packed_state = Some (Inr ((levels, [b16 1, b16 5]), s'))"
proof -
  have k: "length packed_keys = 16" by (simp add: packed_keys_def)
  have n: "nxt (demo_node [1] 10) = 1" "nxt (demo_node packed_keys 16) = 16" using k by (simp_all add: demo_node_def)
  have "list_all (\<lambda>b. nxt b \<le> 16) (data_nodes (snd (sim_settled (net packed_state))) (slist packed_state) [2, 3])"
    unfolding packed_data_nodes by (simp add: n)
  moreover have "map (akey (slist packed_state)) [2, 3] = [b16 1, b16 5]" by (simp add: akey_def packed_list_def)
  ultimately show ?thesis
    using check_passes_iff_counts_fit [OF simulated.rdma_fabric_axioms packed_fields(6) packed_env_simps(1) [of "[]"] packed_inv_state packed_all_reach] by auto
qed

end
