(* ===== verification/ZipfGen.thy ===== *)
theory ZipfGen
  imports Doubles
begin

text \<open>
  \<open>components/workload/zipf/zipf.hpp\<close>: the generator of skewed numbers.  Its arithmetic is that of
  \<open>Doubles\<close>; the approximation of powers takes the upper half of the bits of a double as a number.  A
  conversion to an integer type that cannot hold the value, and a number that is not finite, are
  faults; an assertion that fails is the fault \<open>RuntimeError\<close>.  The zeros of both signs are one.
\<close>

subsection \<open>Conversions and bits\<close>

definition truncated :: "double \<Rightarrow> int" where
  "truncated x = (if 0 \<le> x then \<lfloor>x\<rfloor> else - \<lfloor>- x\<rfloor>)"

definition to_int :: "double \<Rightarrow> int res" where
  "to_int x = (if - (2 ^ 31) \<le> truncated x \<and> truncated x < 2 ^ 31 then Inr (truncated x) else Inl OutOfBounds)"

definition to_u64 :: "double \<Rightarrow> u64 res" where
  "to_u64 x = (if 0 \<le> truncated x \<and> truncated x < 2 ^ 64 then Inr (of_int (truncated x)) else Inl OutOfBounds)"

definition of_u64 :: "u64 \<Rightarrow> double" where
  "of_u64 x = rnd (of_int (uint x))"

text \<open>Sign, eleven bits of exponent, and the first twenty bits of the fraction.\<close>

definition high_word :: "double \<Rightarrow> int" where
  "high_word x =
     (let y = \<bar>x\<bar>; e = exponent y;
          h = (if y = 0 then 0
               else if -1022 \<le> e then (e + 1023) * 2 ^ 20 + \<lfloor>(y / two_to e - 1) * 2 ^ 20\<rfloor>
               else \<lfloor>y / two_to (-1042)\<rfloor>)
      in if x < 0 then h - 2 ^ 31 else h)"

definition of_high :: "int \<Rightarrow> double res" where
  "of_high h =
     (let m = (if h < 0 then h + 2 ^ 31 else h); e = m div 2 ^ 20; f = m mod 2 ^ 20;
          y = (if e = 0 then of_int f * two_to (-1042) else (1 + of_int f / 2 ^ 20) * two_to (e - 1023))
      in if e = 2047 then Inl InvalidArgument else Inr (if h < 0 then - y else y))"

subsection \<open>The generator of random numbers\<close>

definition rand_d :: "u64 \<Rightarrow> double \<times> u64" where
  "rand_d st =
     (let s = (st * 0x5deece66d + 0xb) AND (push_bit 48 1 - 1)
      in (rnd (of_u64 s / of_u64 (push_bit 48 1 - 1)), s))"

subsection \<open>Powers\<close>

text \<open>Squaring along the bits of the exponent; the rounding of every product is that of the code.\<close>

fun power_loop :: "nat \<Rightarrow> double \<Rightarrow> double \<Rightarrow> double" where
  "power_loop e a r =
     (if e = 0 then r
      else power_loop (e div 2) (rnd (a * a)) (if odd e then rnd (r * a) else r))"

declare power_loop.simps [simp del]

text \<open>A negative exponent is shifted to \<open>-1\<close> and never to \<open>0\<close>: the loop does not end.\<close>

definition pow_approx :: "double \<Rightarrow> double \<Rightarrow> double run" where
  "pow_approx a b =
     run_bind (Some (to_int b)) (\<lambda>e.
     let d = high_word a - 1072632447 in
     run_bind (Some (if - (2 ^ 31) \<le> d then to_int (rnd (rnd (rnd (b - of_int e) * of_int d) + 1072632447)) else Inl OutOfBounds)) (\<lambda>h.
     if e < 0 then None
     else run_bind (Some (of_high h)) (\<lambda>u. Some (Inr (rnd (power_loop (nat e) a 1 * u))))))"

subsection \<open>The state\<close>

record zipf_state =
  zipf_n :: u64
  theta :: double
  alpha :: double
  thres :: double
  last_n :: u64
  dbl_n :: double
  zetan :: double
  eta :: double
  rand_state :: u64

text \<open>The assertions first, then the constants that depend on \<open>theta\<close> only.\<close>

definition zipf_init :: "u64 \<Rightarrow> double \<Rightarrow> u64 \<Rightarrow> zipf_state run" where
  "zipf_init n th seed =
     (if n = 0 \<or> (1 \<le> th \<and> th < 40) \<or> \<not> (th = -1 \<or> (0 \<le> th \<and> th < 1) \<or> 40 \<le> th) \<or> \<not> seed < push_bit 48 1
      then Some (Inl RuntimeError)
      else
        let s = \<lparr>zipf_n = n, theta = th, alpha = 0, thres = 0, last_n = 0, dbl_n = 0, zetan = 0, eta = 0, rand_state = seed\<rparr> in
        if th = -1 then Some (Inr (s\<lparr>rand_state := seed mod n\<rparr>))
        else if 0 < th \<and> th < 1
        then run_bind (Some (divide 1 (rnd (1 - th)))) (\<lambda>al.
             run_bind (pow_approx (1 / 2) th) (\<lambda>p.
             Some (Inr (s\<lparr>alpha := al, thres := rnd (1 + p)\<rparr>))))
        else Some (Inr s))"

definition zipf_init_copy :: "zipf_state \<Rightarrow> u64 \<Rightarrow> zipf_state res" where
  "zipf_init_copy src seed =
     (if \<not> seed < push_bit 48 1 then Inl RuntimeError else Inr (src\<lparr>rand_state := seed\<rparr>))"

definition zipf_change_n :: "u64 \<Rightarrow> zipf_state \<Rightarrow> zipf_state" where
  "zipf_change_n n s = s\<lparr>zipf_n := n\<rparr>"

text \<open>The sum goes on from the number it was computed for last.\<close>

function zeta_from :: "u64 \<Rightarrow> double \<Rightarrow> u64 \<Rightarrow> double \<Rightarrow> double run" where
  "zeta_from k acc n th =
     (if k < n
      then run_bind (pow_approx (rnd (of_u64 k + 1)) th) (\<lambda>p.
           run_bind (Some (divide 1 p)) (\<lambda>q.
           zeta_from (k + 1) (rnd (acc + q)) n th))
      else Some (Inr acc))"
  by pat_completeness auto
termination
proof (relation "measure (\<lambda>(k, acc, n, th). unat n - unat k)")
  fix k n :: u64 and th p q acc :: double
  assume "k < n"
  then have lt: "unat k < unat n" by (simp add: word_less_nat_alt)
  then have "unat (k + 1) = Suc (unat k)" using unsigned_less [of n, where 'a = nat] by (simp add: unat_word_ariths)
  with lt have "unat n - unat (k + 1) < unat n - unat k" by simp
  then show "((k + 1, rnd (acc + q), n, th), k, acc, n, th) \<in> measure (\<lambda>(k, acc, n, th). unat n - unat k)" by simp
qed simp

declare zeta_from.simps [simp del]

definition zeta :: "u64 \<Rightarrow> double \<Rightarrow> u64 \<Rightarrow> double \<Rightarrow> double run" where
  "zeta from acc n th = (if n < from then zeta_from 0 0 n th else zeta_from from acc n th)"

text \<open>What depends on \<open>n\<close> is computed when \<open>n\<close> is not the one of the last call.\<close>

definition zipf_refresh :: "zipf_state \<Rightarrow> zipf_state run" where
  "zipf_refresh s =
     (if last_n s = zipf_n s then Some (Inr s)
      else run_bind
        (if 0 < theta s \<and> theta s < 1
         then run_bind (zeta (last_n s) (zetan s) (zipf_n s) (theta s)) (\<lambda>z.
              run_bind (Some (divide 2 (of_u64 (zipf_n s)))) (\<lambda>q.
              run_bind (pow_approx q (rnd (1 - theta s))) (\<lambda>p.
              run_bind (zeta 0 0 2 (theta s)) (\<lambda>z2.
              run_bind (Some (divide z2 z)) (\<lambda>w.
              run_bind (Some (divide (rnd (1 - p)) (rnd (1 - w)))) (\<lambda>et.
              Some (Inr (s\<lparr>zetan := z, eta := et\<rparr>))))))))
         else Some (Inr s)) (\<lambda>s.
        Some (Inr (s\<lparr>last_n := zipf_n s, dbl_n := of_u64 (zipf_n s)\<rparr>))))"

definition zipf_next :: "zipf_state \<Rightarrow> (u64 \<times> zipf_state) run" where
  "zipf_next s =
     run_bind (zipf_refresh s) (\<lambda>s.
     if theta s = -1
     then (let v = rand_state s; r = v + 1
           in Some (Inr (v, s\<lparr>rand_state := (if zipf_n s \<le> r then 0 else r)\<rparr>)))
     else if theta s = 0
     then (case rand_d (rand_state s) of (u, st) \<Rightarrow>
           run_bind (Some (to_u64 (rnd (dbl_n s * u)))) (\<lambda>v. Some (Inr (v, s\<lparr>rand_state := st\<rparr>))))
     else if 40 \<le> theta s then Some (Inr (0, s))
     else (case rand_d (rand_state s) of (u, st) \<Rightarrow>
           let uz = rnd (u * zetan s); s' = s\<lparr>rand_state := st\<rparr> in
           if uz < 1 then Some (Inr (0, s'))
           else if uz < thres s then Some (Inr (1, s'))
           else run_bind (pow_approx (rnd (rnd (eta s * rnd (u - 1)) + 1)) (alpha s)) (\<lambda>p.
                run_bind (Some (to_u64 (rnd (dbl_n s * p)))) (\<lambda>v. Some (Inr (v, s'))))))"

subsection \<open>The generators of workload.hpp\<close>

definition zipf_generator :: "u64 \<Rightarrow> double \<Rightarrow> u64 \<Rightarrow> zipf_state run" where
  "zipf_generator rng th seed = zipf_init rng th seed"

definition zipf_generator_next :: "zipf_state \<Rightarrow> (u64 \<times> zipf_state) run" where
  "zipf_generator_next g = zipf_next g"

text \<open>The distribution of the standard library takes its bounds, both included, as \<open>int\<close>; drawing between
  them is the library's and a parameter.\<close>

definition uniform_bounds :: "u64 \<Rightarrow> int \<times> int" where
  "uniform_bounds rng = (0, sint (ucast rng :: 32 word))"

definition uniform_next :: "(int \<times> int \<Rightarrow> 'g \<Rightarrow> int \<times> 'g) \<Rightarrow> u64 \<Rightarrow> 'g \<Rightarrow> u64 \<times> 'g" where
  "uniform_next draw rng g = (case draw (uniform_bounds rng) g of (x, g') \<Rightarrow> (of_int x, g'))"

lemma uniform_bounds_below_zero: "uniform_bounds (2 ^ 31) = (0, - (2 ^ 31))"
  by (simp add: uniform_bounds_def)

end
