(* ===== verification/ZipfProps.thy ===== *)
theory ZipfProps
  imports ZipfGen
begin

text \<open>
  What the generator of skewed numbers gives: it always returns; without skew its numbers are in range
  but for one state of the random numbers, for which it gives the length of the range.
\<close>

fun zipf_draws :: "nat \<Rightarrow> zipf_state \<Rightarrow> (u64 list \<times> zipf_state) run" where
  "zipf_draws 0 s = Some (Inr ([], s))"
| "zipf_draws (Suc k) s =
     run_bind (zipf_next s) (\<lambda>(v, s'). run_bind (zipf_draws k s') (\<lambda>(vs, t). Some (Inr (v # vs, t))))"

subsection \<open>Returning\<close>

definition returns :: "'a run \<Rightarrow> bool" where
  "returns m \<longleftrightarrow> m \<noteq> None"

lemma returns_Some [simp, intro]: "returns (Some x)"
  by (simp add: returns_def)

lemma returns_bind [intro]: "returns m \<Longrightarrow> (\<And>x. m = Some (Inr x) \<Longrightarrow> returns (f x)) \<Longrightarrow> returns (run_bind m f)"
  by (auto simp: returns_def run_bind_def split: option.splits sum.splits)

lemma returns_if: "(c \<Longrightarrow> returns a) \<Longrightarrow> (\<not> c \<Longrightarrow> returns b) \<Longrightarrow> returns (if c then a else b)"
  by simp

lemma pow_approx_returns: "0 \<le> b \<Longrightarrow> returns (pow_approx a b)"
proof -
  assume "0 \<le> b"
  then have "to_int b = Inr e \<Longrightarrow> \<not> e < 0" for e by (auto simp: to_int_def truncated_def split: if_splits)
  then show ?thesis unfolding pow_approx_def Let_def by (intro returns_bind returns_if) auto
qed

lemma zeta_from_returns: "0 \<le> th \<Longrightarrow> returns (zeta_from k acc n th)"
proof (induction k acc n th rule: zeta_from.induct)
  case (1 k acc n th)
  show ?case
    by (subst zeta_from.simps, intro returns_if returns_bind pow_approx_returns returns_Some 1)
qed

lemma zeta_returns: "0 \<le> th \<Longrightarrow> returns (zeta from acc n th)"
  unfolding zeta_def by (intro returns_if zeta_from_returns)

lemma zipf_refresh_returns:
  "returns (zipf_refresh s)" "zipf_refresh s = Some (Inr s') \<Longrightarrow> alpha s' = alpha s"
proof -
  show "returns (zipf_refresh s)"
    unfolding zipf_refresh_def
    by (intro returns_if returns_bind zeta_returns pow_approx_returns rnd_nonneg returns_Some) simp_all
  show "zipf_refresh s = Some (Inr s') \<Longrightarrow> alpha s' = alpha s"
    unfolding zipf_refresh_def by (auto simp: run_bind_def split: if_splits option.splits sum.splits)
qed

lemma zipf_next_returns:
  assumes "0 \<le> alpha s"
  shows "returns (zipf_next s)" "zipf_next s = Some (Inr (v, s')) \<Longrightarrow> alpha s' = alpha s"
proof -
  have "0 \<le> alpha t" if "zipf_refresh s = Some (Inr t)" for t using zipf_refresh_returns(2) [OF that] assms by simp
  then show "returns (zipf_next s)"
    unfolding zipf_next_def Let_def split_beta
    by (intro returns_if returns_bind zipf_refresh_returns pow_approx_returns returns_Some) blast
  show "zipf_next s = Some (Inr (v, s')) \<Longrightarrow> alpha s' = alpha s"
    using zipf_refresh_returns(2) unfolding zipf_next_def Let_def
    by (auto simp: run_bind_def split: if_splits option.splits sum.splits prod.splits)
qed

lemma zipf_init_returns: "returns (zipf_init n th seed)" "zipf_init n th seed = Some (Inr s) \<Longrightarrow> 0 \<le> alpha s"
proof -
  show "returns (zipf_init n th seed)"
    unfolding zipf_init_def Let_def by (intro returns_if returns_bind pow_approx_returns returns_Some) simp
  have "divide 1 (rnd (1 - th)) = Inr al \<Longrightarrow> th < 1 \<Longrightarrow> 0 \<le> al" for al
    using rnd_nonneg [of "1 - th"] rnd_nonneg [of "1 / rnd (1 - th)"] by (auto simp: divide_def split: if_splits)
  then show "zipf_init n th seed = Some (Inr s) \<Longrightarrow> 0 \<le> alpha s"
    by (auto simp: zipf_init_def Let_def run_bind_def split: if_splits option.splits sum.splits)
qed

text \<open>Making a generator and drawing from it always return, whatever the range, the skew and the seed:
  the sum over the range and the powers end.\<close>

theorem zipf_always_returns:
  "zipf_init n th seed \<noteq> None \<and> (\<forall>s k. zipf_init n th seed = Some (Inr s) \<longrightarrow> zipf_draws k s \<noteq> None)"
proof -
  have "returns (zipf_draws k s)" if "0 \<le> alpha s" for k s
    using that
  proof (induction k arbitrary: s)
    case (Suc k)
    have "returns (zipf_draws k t)" if "zipf_next s = Some (Inr (v, t))" for v t
      using Suc zipf_next_returns(2) [OF Suc.prems that] by simp
    then show ?case unfolding zipf_draws.simps split_beta
      by (intro returns_bind zipf_next_returns [OF Suc.prems] returns_Some) (metis prod.collapse)
  qed simp
  then show ?thesis using zipf_init_returns unfolding returns_def by blast
qed

lemma zipf_always_returns_witness:
  "\<exists>s. zipf_init 10 0 5 = Some (Inr s) \<and> zipf_draws 3 s \<noteq> None"
proof -
  obtain s where s: "zipf_init 10 0 5 = Some (Inr s)" by (simp add: zipf_init_def push_bit_eq_mult)
  then show ?thesis using zipf_always_returns [of 10 0 5] by blast
qed

subsection \<open>Without skew\<close>

definition lcg :: "u64 \<Rightarrow> u64" where
  "lcg st = snd (rand_d st)"

lemma mask48: "(push_bit 48 1 - 1 :: u64) = mask 48"
  by (simp add: mask_eq_decr_exp push_bit_eq_mult)

lemma unat_mask48: "unat (mask 48 :: u64) = 2 ^ 48 - 1" "uint (mask 48 :: u64) = 2 ^ 48 - 1"
  by (simp_all add: mask_eq_decr_exp)

lemma lcg_bound: "unat (lcg st) \<le> 2 ^ 48 - 1"
proof -
  have "lcg st = take_bit 48 (st * 0x5deece66d + 0xb)" unfolding lcg_def rand_d_def Let_def snd_conv mask48 take_bit_eq_mask ..
  then have "unat (lcg st) = take_bit 48 (unat (st * 0x5deece66d + 0xb))" by (simp only: unsigned_take_bit_eq)
  moreover have "take_bit 48 (unat (st * 0x5deece66d + 0xb)) < 2 ^ 48" by (rule take_bit_nat_less_exp)
  ultimately show ?thesis by simp
qed

lemma of_u64_eq: "unat x \<le> 2 ^ 53 \<Longrightarrow> of_u64 x = of_nat (unat x)"
proof -
  assume "unat x \<le> 2 ^ 53"
  then have "rnd (of_nat (nat (uint x))) = of_nat (nat (uint x))" by (intro rnd_nat) (simp only: unat_eq_nat_uint)
  moreover have "(of_nat (nat (uint x)) :: rat) = of_int (uint x)" by (rule of_nat_nat) simp
  ultimately show ?thesis unfolding of_u64_def unat_eq_nat_uint by argo
qed

lemma rand_d_eq: "rand_d st = (rnd (of_nat (unat (lcg st)) / of_nat (2 ^ 48 - 1)), lcg st)"
proof -
  have "unat (lcg st) \<le> 2 ^ 53" "unat (mask 48 :: u64) \<le> 2 ^ 53" using lcg_bound [of st] unat_mask48 by simp_all
  note e = this [THEN of_u64_eq]
  have "rand_d st = (rnd (of_u64 (lcg st) / of_u64 (mask 48)), lcg st)" unfolding rand_d_def lcg_def Let_def mask48 snd_conv ..
  then show ?thesis by (simp only: e unat_mask48)
qed

text \<open>A fraction of the range that leaves a whole \<open>2 ^ -48\<close> of it stays below the range when rounded.\<close>

lemma scaled_below:
  assumes "0 < n" "n < 2 ^ 53" "0 \<le> u" "u \<le> 1 - 1 / 2 ^ 48"
  shows "rnd (of_nat n * u) < of_nat n"
proof -
  let ?d = "of_nat n :: rat"
  define e where "e = exponent ?d"
  have x: "0 < ?d" using assms(1) by simp
  note b = exponent_bounds [OF x, folded e_def]
  have d1: "1 \<le> ?d" using assms(1) by simp
  have e0: "0 \<le> e"
  proof (rule ccontr)
    assume "\<not> 0 \<le> e"
    then have "two_to (e + 1) \<le> two_to 0" by (intro two_to_mono) simp
    then show False using b(2) d1 by simp
  qed
  have e52: "e \<le> 52"
  proof (rule ccontr)
    assume "\<not> e \<le> 52"
    then have "two_to 53 \<le> two_to e" by (intro two_to_mono) simp
    moreover have "?d < of_nat (2 ^ 53)" using assms(2) by (simp only: of_nat_less_iff)
    ultimately show False using b(1) by (simp add: two_to_def)
  qed
  let ?m = "int n * 2 ^ nat (52 - e) - 16"
  let ?y = "of_int ?m * two_to (e - 52)"
  have two: "two_to e = 2 ^ nat e" using e0 by (simp add: two_to_def)
  have s: "2 ^ nat (52 - e) * two_to (e - 52) = 1" using e52 two_to_add [of "52 - e" "e - 52"] by (simp add: two_to_def [of "52 - e"])
  have y: "?y = ?d - 16 * two_to (e - 52)" using s by (simp add: left_diff_distrib mult.assoc)
  have m: "\<bar>?m\<bar> \<le> 2 ^ 53"
  proof -
    have "?d < two_to (e + 1)" by (rule b(2))
    also have "\<dots> = of_nat (2 ^ nat (e + 1))" using e0 by (simp add: two_to_def)
    finally have "n < 2 ^ nat (e + 1)" by (simp only: of_nat_less_iff)
    then have "int n < 2 ^ nat (e + 1)" by (metis of_nat_less_iff of_nat_numeral of_nat_power)
    then have "int n * 2 ^ nat (52 - e) \<le> 2 ^ nat (e + 1) * 2 ^ nat (52 - e)" by (intro mult_right_mono) simp_all
    also have "\<dots> = 2 ^ 53" using e0 e52 by (simp flip: power_add nat_add_distrib)
    finally have "int n * 2 ^ nat (52 - e) \<le> 2 ^ 53" .
    moreover have "0 \<le> int n * 2 ^ nat (52 - e)" by simp
    moreover have "\<bar>a - 16\<bar> \<le> 2 ^ 53" if "0 \<le> a" "a \<le> 2 ^ 53" for a :: int using that by simp
    ultimately show ?thesis by blast
  qed
  have dy: "is_double ?y" unfolding is_double_def by (rule exI [of _ ?m], rule exI [of _ "e - 52"]) (use m e0 in simp)
  have p: "16 * two_to (e - 52) = two_to e / 2 ^ 48"
    using two_to_add [of e "-52"] by (simp add: two_to_def [of "-52"])
  have "?d * u \<le> ?d * (1 - 1 / 2 ^ 48)" using assms(4) by (intro mult_left_mono) simp_all
  also have "\<dots> = ?d - ?d / 2 ^ 48" by (simp add: right_diff_distrib)
  also have "\<dots> \<le> ?d - two_to e / 2 ^ 48" using b(1) by (simp add: divide_right_mono)
  also have "\<dots> = ?y" unfolding y p ..
  finally have "?d * u \<le> ?y" .
  then have "rnd (?d * u) \<le> ?y" by (rule rnd_le [OF _ dy]) (use assms(3) in simp)
  also have "?y < ?d" unfolding y by simp
  finally show ?thesis .
qed

lemma to_u64_nat: "m < 2 ^ 64 \<Longrightarrow> to_u64 (of_nat m) = Inr (of_nat m)"
  by (simp add: to_u64_def truncated_def)

lemma uniform_value:
  assumes "0 < unat n" "unat n < 2 ^ 53"
  shows "\<exists>v. to_u64 (rnd (of_u64 n * fst (rand_d st))) = Inr v \<and> v \<le> n \<and> (v = n \<longleftrightarrow> lcg st = mask 48)"
proof -
  let ?a = "unat (lcg st)" and ?M = "2 ^ 48 - 1 :: nat"
  have n: "of_u64 n = of_nat (unat n)" using assms(2) by (intro of_u64_eq) simp
  have u: "fst (rand_d st) = rnd (of_nat ?a / of_nat ?M)" by (simp only: rand_d_eq fst_conv)
  show ?thesis
  proof (cases "?a = ?M")
    case True
    then have "lcg st = mask 48" using unat_mask48(1) by (metis word_unat_eq_iff)
    moreover have "rnd (of_u64 n * fst (rand_d st)) = of_nat (unat n)"
    proof -
      have one: "rnd (of_nat ?M / of_nat ?M) = 1" by simp
      have r: "rnd (of_nat (unat n)) = of_nat (unat n)" by (rule rnd_nat) (use assms(2) in simp)
      show ?thesis unfolding u True n by (simp only: one mult_1_right r)
    qed
    moreover have "to_u64 (of_nat (unat n)) = Inr n" using to_u64_nat [of "unat n"] unsigned_less [of n, where 'a = nat] by simp
    ultimately show ?thesis by auto
  next
    case False
    then have a: "?a \<le> ?M - 1" using lcg_bound [of st] by simp
    have nm: "lcg st \<noteq> mask 48" using False unat_mask48(1) by auto
    have y: "is_double (1 - 1 / 2 ^ 48)" unfolding is_double_def
      by (rule exI [of _ "2 ^ 48 - 1"], rule exI [of _ "-48"]) (simp add: two_to_def)
    have "(of_nat ?a :: rat) \<le> of_nat (?M - 1)" using a by (simp only: of_nat_le_iff)
    then have q: "of_nat ?a / of_nat ?M \<le> (1 - 1 / 2 ^ 48 :: rat)" by (simp add: divide_le_eq)
    have u0: "0 \<le> rnd (of_nat ?a / of_nat ?M)" by (intro rnd_nonneg divide_nonneg_nonneg of_nat_0_le_iff)
    have u1: "rnd (of_nat ?a / of_nat ?M) \<le> 1 - 1 / 2 ^ 48" by (intro rnd_le q y divide_nonneg_nonneg of_nat_0_le_iff)
    let ?x = "rnd (of_u64 n * fst (rand_d st))"
    have x1: "?x < of_nat (unat n)" unfolding n u by (rule scaled_below [OF assms u0 u1])
    have x0: "0 \<le> ?x" unfolding n u by (intro rnd_nonneg mult_nonneg_nonneg of_nat_0_le_iff u0)
    have fl: "0 \<le> \<lfloor>?x\<rfloor>" "\<lfloor>?x\<rfloor> < int (unat n)" using x0 x1 by (simp_all add: floor_less_iff)
    have "int (unat n) < 2 ^ 64" using unsigned_less [of n, where 'a = int] by simp
    with fl(2) have "\<lfloor>?x\<rfloor> < 2 ^ 64" by (rule less_trans)
    then have v: "to_u64 ?x = Inr (of_int \<lfloor>?x\<rfloor>)" using x0 fl by (simp add: to_u64_def truncated_def)
    have "uint (of_int \<lfloor>?x\<rfloor> :: u64) = \<lfloor>?x\<rfloor>" using fl \<open>\<lfloor>?x\<rfloor> < 2 ^ 64\<close> by (simp add: uint_word_of_int)
    then have "(of_int \<lfloor>?x\<rfloor> :: u64) < n" using fl(2) by (simp add: word_less_def)
    then show ?thesis using v nm by auto
  qed
qed

lemma uniform_next:
  assumes "theta s = 0" "zipf_n s = n" "0 < unat n" "unat n < 2 ^ 53" "last_n s = n \<longrightarrow> dbl_n s = of_u64 n"
  shows "\<exists>v s'. zipf_next s = Some (Inr (v, s')) \<and> v \<le> n \<and> (v = n \<longleftrightarrow> lcg (rand_state s) = mask 48) \<and>
    rand_state s' = lcg (rand_state s) \<and> theta s' = 0 \<and> zipf_n s' = n \<and> dbl_n s' = of_u64 n"
proof -
  obtain v where v: "to_u64 (rnd (of_u64 n * fst (rand_d (rand_state s)))) = Inr v" "v \<le> n" "v = n \<longleftrightarrow> lcg (rand_state s) = mask 48"
    using uniform_value [OF assms(3,4)] by blast
  obtain t where t: "zipf_refresh s = Some (Inr t)" "theta t = 0" "zipf_n t = n" "dbl_n t = of_u64 n" "rand_state t = rand_state s"
    using assms(1,2,5) by (cases "last_n s = n") (simp_all add: zipf_refresh_def)
  have "zipf_next s = Some (Inr (v, t\<lparr>rand_state := lcg (rand_state s)\<rparr>))"
    using t v(1) by (simp add: zipf_next_def split_beta lcg_def)
  then show ?thesis using t v by simp
qed

text \<open>C36: without skew, with a range below \<open>2 ^ 53\<close>, every draw returns a number up to the range, and exactly
  when the random number is the greatest one it is the length of the range, which is not in the
  range.\<close>

theorem uniform_draws_in_range:
  assumes "0 < unat n" "unat n < 2 ^ 53" "seed < push_bit 48 1"
  shows "\<exists>s vs s'. zipf_init n 0 seed = Some (Inr s) \<and> zipf_draws k s = Some (Inr (vs, s')) \<and> length vs = k \<and>
    (\<forall>i<k. vs ! i \<le> n \<and> (vs ! i = n \<longleftrightarrow> (lcg ^^ (i + 1)) seed = mask 48))"
proof -
  have d: "\<exists>vs s'. zipf_draws k s = Some (Inr (vs, s')) \<and> length vs = k \<and>
      (\<forall>i<k. vs ! i \<le> n \<and> (vs ! i = n \<longleftrightarrow> (lcg ^^ (i + 1)) (rand_state s) = mask 48))"
    if "theta s = 0" "zipf_n s = n" "last_n s = n \<longrightarrow> dbl_n s = of_u64 n" for s
    using that
  proof (induction k arbitrary: s)
    case (Suc k)
    obtain v s1 where s1: "zipf_next s = Some (Inr (v, s1))" "v \<le> n" "v = n \<longleftrightarrow> lcg (rand_state s) = mask 48"
      "rand_state s1 = lcg (rand_state s)" "theta s1 = 0" "zipf_n s1 = n" "dbl_n s1 = of_u64 n"
      using uniform_next [OF Suc.prems(1,2) assms(1,2) Suc.prems(3)] by blast
    obtain vs s' where s': "zipf_draws k s1 = Some (Inr (vs, s'))" "length vs = k"
      "\<And>i. i < k \<Longrightarrow> vs ! i \<le> n \<and> (vs ! i = n \<longleftrightarrow> (lcg ^^ (i + 1)) (lcg (rand_state s)) = mask 48)"
      using Suc.IH [OF s1(5,6)] s1(4,7) by auto
    have "(v # vs) ! i \<le> n \<and> ((v # vs) ! i = n \<longleftrightarrow> (lcg ^^ (i + 1)) (rand_state s) = mask 48)" if "i < Suc k" for i
      using s'(3) [of "i - 1"] s1(2,3) that by (cases i) (simp_all add: funpow_swap1)
    then show ?case using s1(1) s'(1,2) by auto
  qed simp
  have "unat n \<noteq> 0" using assms(1) by simp
  then have "n \<noteq> 0" by auto
  let ?s = "\<lparr>zipf_n = n, theta = 0, alpha = 0, thres = 0, last_n = 0, dbl_n = 0, zetan = 0, eta = 0, rand_state = seed\<rparr>"
  have "zipf_init n 0 seed = Some (Inr ?s)" using \<open>n \<noteq> 0\<close> assms(3) by (simp add: zipf_init_def Let_def)
  moreover have "theta ?s = 0" "zipf_n ?s = n" "last_n ?s = n \<longrightarrow> dbl_n ?s = of_u64 n" using \<open>n \<noteq> 0\<close> by simp_all
  ultimately show ?thesis using d [of ?s] by auto
qed

text \<open>The seed that leads to the greatest random number at once: the first draw from ten numbers is 10.\<close>

lemma uniform_draws_in_range_witness:
  "\<exists>s s'. zipf_init 10 0 142368275371844 = Some (Inr s) \<and> zipf_draws 1 s = Some (Inr ([10], s'))"
proof -
  have l: "lcg 142368275371844 = mask 48" by (simp add: lcg_def rand_d_def Let_def mask48) (simp add: mask_eq_decr_exp)
  obtain s vs s' where s: "zipf_init 10 0 142368275371844 = Some (Inr s)" "zipf_draws 1 s = Some (Inr (vs, s'))" "length vs = 1"
    "\<forall>i<1. vs ! i \<le> 10 \<and> (vs ! i = 10 \<longleftrightarrow> (lcg ^^ (i + 1)) 142368275371844 = mask 48)"
    using uniform_draws_in_range [of 10 142368275371844 1] by (auto simp: push_bit_eq_mult)
  then have "vs ! 0 = 10" using l by simp
  then have "vs = [10]" using s(3) by (metis length_0_conv length_Suc_conv nth_Cons_0 One_nat_def)
  then show ?thesis using s(1,2) by blast
qed

text \<open>With \<open>theta = -1\<close> the numbers of the range come in turn.\<close>

lemma sequential_next:
  assumes "theta s = -1" "rand_state s < zipf_n s"
  shows "\<exists>s'. zipf_next s = Some (Inr (rand_state s, s')) \<and> theta s' = -1 \<and> zipf_n s' = zipf_n s \<and>
    unat (rand_state s') = Suc (unat (rand_state s)) mod unat (zipf_n s)"
proof -
  obtain t where t: "zipf_refresh s = Some (Inr t)" "theta t = -1" "zipf_n t = zipf_n s" "rand_state t = rand_state s"
    using assms(1) by (cases "last_n s = zipf_n s") (simp_all add: zipf_refresh_def)
  have lt: "unat (rand_state s) < unat (zipf_n s)" using assms(2) by (simp add: word_less_nat_alt)
  then have suc: "unat (rand_state s + 1) = Suc (unat (rand_state s))"
    using unsigned_less [of "zipf_n s", where 'a = nat] by (simp add: unat_word_ariths)
  let ?r = "if zipf_n s \<le> rand_state s + 1 then 0 else rand_state s + 1"
  have "unat ?r = Suc (unat (rand_state s)) mod unat (zipf_n s)"
  proof (cases "zipf_n s \<le> rand_state s + 1")
    case True
    then have "Suc (unat (rand_state s)) = unat (zipf_n s)" using suc lt by (simp add: word_le_nat_alt)
    then show ?thesis using True by simp
  qed (use suc lt in \<open>simp add: word_le_nat_alt\<close>)
  then show ?thesis using t by (simp add: zipf_next_def Let_def)
qed

end
