(* ===== verification/PointerOps.thy ===== *)
theory PointerOps
  imports RemotePointer
begin

text \<open>
  The operators of \<open>RemotePointer\<close> and the constructors, assignments and comparisons of
  \<open>PolymorphicPointer\<close> (\<open>components/memory/remote_memory/remote_memory.hpp\<close>).  The hash of a pointer
  is that of the standard library, a parameter.
\<close>

subsection \<open>RemotePointer\<close>

definition null_pointer :: remote_ptr where
  "null_pointer = 0"

definition of_raw :: "u64 \<Rightarrow> remote_ptr" where
  "of_raw p = p"

definition ptr_eq :: "remote_ptr \<Rightarrow> remote_ptr \<Rightarrow> bool" where
  "ptr_eq p q = (p = q)"

definition ptr_neq :: "remote_ptr \<Rightarrow> remote_ptr \<Rightarrow> bool" where
  "ptr_neq p q = (\<not> ptr_eq p q)"

definition raw_ptr :: "remote_ptr \<Rightarrow> u64" where
  "raw_ptr p = p"

definition void_ptr :: "remote_ptr \<Rightarrow> u64" where
  "void_ptr p = p"

text \<open>\<open>offset\<close> moves the pointer itself, \<open>offset_by\<close> a copy.\<close>

definition ptr_offset :: "nat \<Rightarrow> remote_ptr \<Rightarrow> remote_ptr" where
  "ptr_offset off p = p + of_nat off"

definition ptr_hash :: "(u64 \<Rightarrow> u64) \<Rightarrow> remote_ptr \<Rightarrow> u64" where
  "ptr_hash std p = std (raw_ptr p)"

subsection \<open>PolymorphicPointer\<close>

definition poly_of_remote :: "remote_ptr \<Rightarrow> poly_ptr" where
  "poly_of_remote re = re"

definition poly_null :: poly_ptr where
  "poly_null = 0"

definition poly_of_local :: "u64 \<Rightarrow> poly_ptr" where
  "poly_of_local lo = lo"

definition poly_assign_remote :: "poly_ptr \<Rightarrow> remote_ptr \<Rightarrow> poly_ptr" where
  "poly_assign_remote p re = re"

definition poly_assign_local :: "poly_ptr \<Rightarrow> u64 \<Rightarrow> poly_ptr" where
  "poly_assign_local p lo = lo"

definition poly_assign_null :: "poly_ptr \<Rightarrow> poly_ptr" where
  "poly_assign_null p = 0"

definition poly_eq :: "poly_ptr \<Rightarrow> poly_ptr \<Rightarrow> bool" where
  "poly_eq p q = (p = q)"

definition poly_neq :: "poly_ptr \<Rightarrow> poly_ptr \<Rightarrow> bool" where
  "poly_neq p q = (p \<noteq> q)"

definition poly_eq_null :: "poly_ptr \<Rightarrow> bool" where
  "poly_eq_null p = is_nullptr p"

definition poly_neq_null :: "poly_ptr \<Rightarrow> bool" where
  "poly_neq_null p = (\<not> is_nullptr p)"

definition make_polymorphic_local :: "u64 \<Rightarrow> poly_ptr" where
  "make_polymorphic_local t = t"

definition make_polymorphic_remote :: "remote_ptr \<Rightarrow> poly_ptr" where
  "make_polymorphic_remote t = t"

definition poly_is_nullptr :: "poly_ptr \<Rightarrow> bool" where
  "poly_is_nullptr p = is_nullptr p"

definition poly_raw_ptr :: "poly_ptr \<Rightarrow> u64" where
  "poly_raw_ptr p = p"

definition poly_remote_ptr :: "poly_ptr \<Rightarrow> remote_ptr" where
  "poly_remote_ptr p = p"

definition poly_local_ptr :: "poly_ptr \<Rightarrow> u64" where
  "poly_local_ptr p = p"

lemmas poly_defs =
  poly_of_remote_def poly_of_local_def poly_null_def poly_assign_remote_def poly_assign_local_def poly_assign_null_def
  make_polymorphic_local_def make_polymorphic_remote_def poly_raw_ptr_def poly_remote_ptr_def poly_local_ptr_def
  poly_eq_def poly_neq_def poly_eq_null_def poly_neq_null_def poly_is_nullptr_def

text \<open>A polymorphic pointer gives back the address it was made from, whichever kind it is of.\<close>

lemma poly_gives_back:
  assumes "unat address < 2 ^ 48"
  shows "poly_is_local (make_polymorphic_local address)" "poly_get_as (make_polymorphic_local address) = address"
    "poly_is_remote (make_polymorphic_remote (make_remote_pointer node address))"
    "poly_get_as (make_polymorphic_remote (make_remote_pointer node address)) = address"
proof -
  have g: "get_as (make_remote_pointer node address) = address" using get_as_make_iff assms by blast
  then have "address AND mask 48 = address" by (simp add: get_as_make_mask)
  moreover have "\<not> bit (address AND mask 48) 63" by (simp add: bit_simps)
  ultimately have "\<not> bit address 63" by simp
  then have n: "\<not> is_remote_pointer address" by (simp add: is_remote_pointer_iff)
  then show "poly_is_local (make_polymorphic_local address)" "poly_get_as (make_polymorphic_local address) = address"
    by (simp_all add: poly_defs poly_is_local_def poly_get_as_def)
  show "poly_is_remote (make_polymorphic_remote (make_remote_pointer node address))"
    by (simp add: poly_defs poly_is_remote_def)
  show "poly_get_as (make_polymorphic_remote (make_remote_pointer node address)) = address"
    using g by (simp add: poly_defs poly_get_as_def poly_is_local_def)
qed

text \<open>A remote pointer to address 0 compares equal to \<open>nullptr\<close> and not to a pointer made from \<open>nullptr\<close>.\<close>

lemma null_compares_two_ways:
  "poly_eq_null (poly_of_remote (make_remote_pointer node 0))" "poly_neq (poly_of_remote (make_remote_pointer node 0)) poly_null"
proof -
  show "poly_eq_null (poly_of_remote (make_remote_pointer node 0))" by (simp add: poly_defs is_nullptr_make)
  have "is_remote_pointer (make_remote_pointer node 0)" by (simp add: is_remote_make)
  moreover have "\<not> is_remote_pointer 0" by (simp add: is_remote_pointer_def memory_constants)
  ultimately have "make_remote_pointer node 0 \<noteq> 0" by metis
  then show "poly_neq (poly_of_remote (make_remote_pointer node 0)) poly_null" by (simp add: poly_defs)
qed

end
