(* ===== verification/Dumps.thy ===== *)
theory Dumps
  imports PageAllocator
begin

text \<open>
  The debugging output of the allocator of a compute node (\<open>components/memory/compute_node/\<close>): what is
  printed is the result.  The groups of the threads come in the order of \<open>std::unordered_map\<close>, which is
  open: the threads are an argument.
\<close>

definition allocation_class_map :: "alloc_class list" where
  "allocation_class_map = [Chunk16, Chunk32, Chunk64, Chunk128, Chunk256, Chunk512, Chunk1024, Chunk2048, Chunk4096, ChunkUnknown]"

fun dump_allocation_class :: "alloc_class \<Rightarrow> string" where
  "dump_allocation_class Chunk16 = ''Chunk16''"
| "dump_allocation_class Chunk32 = ''Chunk32''"
| "dump_allocation_class Chunk64 = ''Chunk64''"
| "dump_allocation_class Chunk128 = ''Chunk128''"
| "dump_allocation_class Chunk256 = ''Chunk256''"
| "dump_allocation_class Chunk512 = ''Chunk512''"
| "dump_allocation_class Chunk1024 = ''Chunk1024''"
| "dump_allocation_class Chunk2048 = ''Chunk2048''"
| "dump_allocation_class Chunk4096 = ''Chunk4096''"
| "dump_allocation_class ChunkUnknown = ''ChunkUnkown''"

record page_row =
  row_id :: nat
  row_base :: remote_ptr
  row_class :: string
  row_slots :: nat
  row_offset :: nat

text \<open>A page of a group: its number, base, class, empty slots and offset.\<close>

definition page_dump :: "page_mirror \<Rightarrow> page_row res" where
  "page_dump m =
     res_bind (rd allocation_class_map (class_index (allocation_class (desc m)))) (\<lambda>ac.
     Inr \<lparr>row_id = page_id m, row_base = page_base m, row_class = dump_allocation_class ac,
          row_slots = unat (empty_slots (desc m)), row_offset = unat (pd_offset (desc m))\<rparr>)"

fun page_group_dump :: "page_mirror list \<Rightarrow> nat list \<Rightarrow> page_row list res" where
  "page_group_dump store [] = Inr []"
| "page_group_dump store (i # is) =
     res_bind (rd store i) (\<lambda>m. res_bind (page_dump m) (\<lambda>row.
     res_bind (page_group_dump store is) (\<lambda>rows. Inr (row # rows))))"

definition segment_dump :: "segment \<Rightarrow> remote_ptr \<times> nat \<times> nat" where
  "segment_dump s = (seg s, seg_offset s, available_pages s)"

definition tracker_dump :: "cn_allocator \<Rightarrow> (remote_ptr \<times> nat \<times> nat) res" where
  "tracker_dump a =
     (case current a of
        None \<Rightarrow> Inl NullDeref
      | Some i \<Rightarrow>
          res_bind (rd (seg_store a) i) (\<lambda>s.
          case s of None \<Rightarrow> Inl NullDeref | Some s \<Rightarrow> Inr (segment_dump s)))"

fun groups_dump :: "cn_allocator \<Rightarrow> nat list \<Rightarrow> (nat \<times> page_row list) list res" where
  "groups_dump a [] = Inr []"
| "groups_dump a (t # ts) =
     (case thread_info a t of
        None \<Rightarrow> groups_dump a ts
      | Some pages \<Rightarrow>
          res_bind (page_group_dump (pm_store a) pages) (\<lambda>g.
          res_bind (groups_dump a ts) (\<lambda>gs. Inr ((t, g) # gs))))"

definition allocator_dump :: "nat list \<Rightarrow> cn_allocator \<Rightarrow> ((remote_ptr \<times> nat \<times> nat) \<times> (nat \<times> page_row list) list) res" where
  "allocator_dump threads a =
     res_bind (tracker_dump a) (\<lambda>s. res_bind (groups_dump a threads) (\<lambda>gs. Inr (s, gs)))"

text \<open>\<open>return_memory\<close> is not implemented and throws.\<close>

definition return_memory :: "cn_allocator \<Rightarrow> (bool \<times> cn_allocator) res" where
  "return_memory a = Inl RuntimeError"

lemma class_name_of_page: "page_dump m = Inr r \<Longrightarrow> row_class r = dump_allocation_class (allocation_class (desc m))"
  by (cases "allocation_class (desc m)") (auto simp: page_dump_def allocation_class_map_def rd_def)

lemma class_names_distinct: "dump_allocation_class a = dump_allocation_class b \<longleftrightarrow> a = b"
  by (cases a; cases b) simp_all

text \<open>Before the first segment there is nothing to dump: the current segment is a null pointer.\<close>

lemma dump_of_fresh_faults: "allocator_dump ts cn_allocator_init = Inl NullDeref"
  by (simp add: allocator_dump_def tracker_dump_def cn_allocator_init_def)

lemma groups_dump_some:
  assumes "\<And>t pages. thread_info a t = Some pages \<Longrightarrow> list_all (\<lambda>i. i < length (pm_store a)) pages"
  shows "\<exists>gs. groups_dump a ts = Inr gs"
proof -
  have d: "\<exists>r. page_dump m = Inr r" for m
    by (cases "allocation_class (desc m)") (simp_all add: page_dump_def allocation_class_map_def rd_def)
  have g: "\<exists>g. page_group_dump st is = Inr g" if "list_all (\<lambda>i. i < length st) is" for st "is"
    using that
  proof (induction "is")
    case (Cons i "is")
    obtain r where "page_dump (st ! i) = Inr r" using d by blast
    then show ?case using Cons by auto
  qed simp
  show ?thesis
  proof (induction ts)
    case (Cons t ts)
    then show ?case using g assms [of t] by (cases "thread_info a t") force+
  qed simp
qed

end
