(* ===== verification/Spec2Isabelle.thy ===== *)
theory Spec2Isabelle
  imports SegmentAllocator ChunkSource NodeStore SearchIndex SplitProps RdmaProps Startup KvString HandoverSafe HandoverStuck
    MemoryServer Workload CmdLine CityCrc Reports ZipfProps PointerOps Dumps
begin

text \<open>
  DiStore: a key-value store on disaggregated memory.

  \<^bold>\<open>The program.\<close>  Memory nodes lend their memory in segments of one gibibyte; they run no code on the
  data.  Compute nodes hold the search layer, a skip list that maps anchor keys to data nodes, in
  their own memory, and the data layer, a list of adaptive arrays of 10 to 16 records, in the memory
  lent to them, which they read and write with one-sided RDMA.  Threads of one compute node that
  insert into one data node compete for it; the losers hand their requests to the winner
  (handover).  The implementation is \<open>src/src/components/\<close>; paths below are relative to it.

  \<^bold>\<open>Conventions\<close> (theory \<open>Prelude\<close>).  An access outside an array, a null dereference and a thrown
  exception are values \<open>Inl\<close> of the result type \<open>'a res\<close>; a loop that need not end gives \<open>'a run\<close>,
  an option of a result, in which \<open>None\<close> is not returning; stateful code is a \<open>prog\<close>, a function of
  the state.  Integers have their width (\<open>'w word\<close>) wherever the code can wrap; pointers to skip-list
  nodes are addresses of a heap.  Pointer walks and polling loops are \<open>partial_function (option)\<close>, all
  other loops are structural or have a measure; nowhere is fuel used.

  \<^bold>\<open>The theories and the code.\<close>
  \<^item> \<open>RemotePointer\<close>, \<open>PointerOps\<close>: \<open>memory/remote_memory/remote_memory.hpp\<close>, tagged pointers; packing and
    unpacking; their operators and the pointers that are local or remote.
  \<^item> \<open>Bitmap\<close>, \<open>SegmentAllocator\<close>: \<open>memory/memory.hpp\<close>, \<open>memory/memory_node/memory_node.hpp\<close>, the slots and
    segments of a memory node, with the two handlers of remote calls.  The contract of a source of
    slots is the locale \<open>slot_source\<close>, interpreted on the bitmap.
  \<^item> \<open>PageAllocator\<close>, \<open>PageInvariants\<close>, \<open>ChunkSource\<close>: the allocator of a compute node in
    \<open>memory/compute_node/\<close>, pages of 4 KiB cut into chunks of one class, a group of eight pages per thread; its
    invariant; the contract \<open>chunk_source\<close> with its interpretation.  \<open>Dumps\<close>: what the allocator prints.
  \<^item> \<open>CityHash\<close>, \<open>CityHash128\<close>, \<open>CityCrc\<close>: \<open>city/\<close>, every load an array read with its bound.
  \<^item> \<open>DataLayer\<close>, \<open>NodeStore\<close>: \<open>data_layer/data_layer.hpp\<close>, the linked node and its image in memory; the
    contract \<open>record_store\<close> of a bounded map, interpreted on \<open>find\<close> and \<open>store\<close>.
  \<^item> \<open>SkipList\<close>, \<open>SkipListInv\<close>, \<open>SearchIndex\<close>: \<open>search_layer/\<close>, with the invariant that every level chains
    exactly the nodes linked at it, in order; the contract \<open>predecessor_index\<close>, interpreted on the list.
  \<^item> \<open>NodeSplit\<close>, \<open>SplitProofs\<close>, \<open>SplitProps\<close>: the work of a winner on its buffers in
    \<open>node/compute_node/\<close>: helping, choosing a type, splitting out of place and in place.
  \<^item> \<open>Rdma\<close>, \<open>RdmaFabric\<close>, \<open>RdmaProps\<close>: \<open>rdma_util/\<close> over a record of the verbs library's functions; what the
    program relies on the library for is the locale \<open>rdma_fabric\<close>, and a simulated network
    (requests carried out in order, completions when polled) is its interpretation; the changes of
    state a queue pair accepts are the locale \<open>qp_machine\<close>, interpreted on a library that keeps them.
  \<^item> \<open>RemoteMemory\<close>, \<open>SegmentService\<close>: \<open>RemoteMemoryManager\<close> and the client's half of \<open>erpc_wrapper/\<close>, and requests
    for segments answered by the allocators of the memory nodes.
  \<^item> \<open>ComputeNode\<close>, \<open>ComputeOps\<close>: \<open>node/compute_node/compute_node.cpp\<close>, \<open>put\<close>, \<open>get\<close>, \<open>update\<close>, \<open>scan\<close> and all they
    call, as one thread runs them; what other threads do while it waits is a parameter.  Their
    lemmas are in \<open>ComputeProofs\<close> (buffer and remote memory), \<open>WinnerProofs\<close> (winning, writing back,
    leaving), \<open>ReaderProofs\<close> (lookups and updates); their properties in \<open>ComputeProps\<close> and \<open>LocalStage\<close>.
    \<open>GrowProofs\<close>, \<open>SplitRun\<close> hold the lemmas for writing a grown node and the parts of a split to fresh
    chunks, \<open>GrowProps\<close>, \<open>PutSplits\<close> the insertions into full nodes from \<open>put\<close> to the lookups after them.
  \<^item> \<open>Handover\<close>, \<open>HandoverSafe\<close>, \<open>HandoverStuck\<close>: \<open>put10\<close> and the remote half of \<open>get\<close> as any number of
    threads run them, each access to shared memory a step of its own (\<open>step\<close>, \<open>reach\<close>): possession of
    nodes, no record lost, and the two things that go wrong with late requests.
  \<^item> \<open>Cluster\<close>, \<open>Startup\<close>: \<open>node/node.hpp\<close>, \<open>node.cpp\<close> and the starts of both kinds of node, from the configuration
    files on.
  \<^item> \<open>Sockets\<close>, \<open>MemoryServer\<close>: \<open>misc/misc.cpp\<close> over a record of system calls, and the threads of a memory node,
    with the server's half of \<open>erpc_wrapper/\<close>; the locale \<open>stream_socket\<close> (a socket that takes bytes in
    pieces), interpreted.
  \<^item> \<open>Doubles\<close>: the type \<open>double\<close>, rationals with every result rounded to 53 bits.  \<open>Stats\<close>, \<open>StatsProps\<close>: \<open>stats/\<close>
    and the averages of \<open>misc/misc.hpp\<close>; \<open>ZipfGen\<close>, \<open>ZipfProps\<close>: \<open>workload/zipf/zipf.hpp\<close> and the
    generators; \<open>Reports\<close>: the reports of a compute node over all its data nodes.
  \<^item> \<open>KvString\<close>, \<open>Workload\<close>, \<open>CmdLine\<close>: \<open>kv/kv.hpp\<close>, \<open>workload/workload.hpp\<close>, \<open>cmd_parser/\<close>.

  \<^bold>\<open>What the lemmas show.\<close>  Concurrency: no interleaving of insertions by \<open>put10\<close> and lookups gives
  one node to two threads or, for keys whose fingerprint is not 0, loses a record that remote memory
  has; but a request that is queued after the winner has left is served in a node it
  does not belong to, or never.  Data path: an insertion with room stores its record and those of
  the waiting threads in remote memory; one into a full node moves them to a fresh chunk with
  sixteen slots, or divides them over two chunks with a new entry of the search layer; lookups
  return what is there, for every library that meets \<open>rdma_fabric\<close>; the properties of kind error state where the code departs from this.  Structures:
  the skip list routes to the predecessor under any insertions, calibrations and removals; a node is
  a bounded map; a split divides the records around its anchor; chunks and
  segments never overlap.  Starting and connecting: both kinds of node start from files in
  the form of those in \<open>config_files\<close> (every label with its number), certificates and greetings arrive
  field for field, a queue pair is led to the state in which it can send, the handlers of a memory
  node give and take back segments, and a request for a segment returns exactly when some node has
  a slot left; but a memory node also offers a segment that ends beyond its region.
  Measuring: the results of an operation are the averages of the batches of its spans, the report
  of the data layer adds every data node once to what earlier reports left, and the generators return and stay in range but
  for one random number.

  \<^bold>\<open>Parameters and bounds.\<close>  The verbs library, sockets, eRPC, the checksum of Boost, the CRC
  instruction, the random draws of
  the skip list and the contents of uninitialised memory are arguments of the definitions that use
  them.  Keys and values of the store are 16 bytes, as the code copies that many; segments are one
  gibibyte, a page has 4096 bytes, a buffer 8192.  Thread numbers stand for \<open>std::thread::id\<close>.  A read
  of remote memory and the accesses to a context are atomic in \<open>Handover\<close>; its transfers succeed and
  its places for grown nodes are a list.

  \<^bold>\<open>Not modelled.\<close>  Interleavings of \<open>put12\<close>, \<open>put14\<close>, \<open>put16\<close>, of updates and of scans
  (\<open>ComputeOps\<close> follows them one thread at a time); \<open>ComputeNode::remove\<close>, which is declared and never
  defined; infinite doubles and those that are no number (where one would arise is a fault of
  the model); where in the operations the clock is read; destructors that release the library's
  resources; functions that only print and look at nothing else.
\<close>

end
